(* ===== verification/Prelude.thy ===== *)
theory Prelude
  imports Main "HOL-Library.Word"
begin

text \<open>
  Shared vocabulary of the sealloc development.

  \<^item> Machine integers. Bit-twiddling code works on \<open>'w word\<close>; counters, indices and
    addresses are \<open>nat\<close> with the wrap-around of C's unsigned types written out by
    \<open>u16\<close>, \<open>u32\<close>, \<open>u64\<close> and \<open>sub32\<close>, \<open>sub64\<close>. The collection \<open>wrap_simps\<close> removes the
    wrap-around once the operands are known to be small.
  \<^item> Outcomes. A call that may leave through \<open>exit(1)\<close>, \<open>abort()\<close>, an invalid
    dereference or a division by zero returns a value of type \<open>'a res\<close>; a call that
    never returns is \<open>None\<close>.
  \<^item> Packed arrays. Three components keep an array of two-bit states in bytes; the
    locale \<open>packed_states\<close> is the interface their proofs use, and
    \<open>bits2_get\<close>, \<open>bits2_set\<close> are the byte operations all three copies perform.
\<close>

unbundle bit_operations_syntax

named_theorems wrap_simps "unsigned operations that do not wrap"
named_theorems res_simps "evaluation of outcomes"

subsection \<open>Unsigned arithmetic of C on natural numbers\<close>

type_synonym addr = nat

definition u16 :: "nat \<Rightarrow> nat" where
  "u16 n = n mod 65536"

definition u32 :: "nat \<Rightarrow> nat" where
  "u32 n = n mod 4294967296"

definition u64 :: "nat \<Rightarrow> nat" where
  "u64 n = n mod 18446744073709551616"

definition sub16 :: "nat \<Rightarrow> nat \<Rightarrow> nat" where
  "sub16 a b = (a + 65536 - b mod 65536) mod 65536"

definition sub32 :: "nat \<Rightarrow> nat \<Rightarrow> nat" where
  "sub32 a b = (a + 4294967296 - b mod 4294967296) mod 4294967296"

definition sub64 :: "nat \<Rightarrow> nat \<Rightarrow> nat" where
  "sub64 a b = (a + 18446744073709551616 - b mod 18446744073709551616) mod 18446744073709551616"

lemma u16_small [wrap_simps]: "n < 65536 \<Longrightarrow> u16 n = n"
  by (simp add: u16_def)

lemma u32_small [wrap_simps]: "n < 4294967296 \<Longrightarrow> u32 n = n"
  by (simp add: u32_def)

lemma u64_small [wrap_simps]: "n < 18446744073709551616 \<Longrightarrow> u64 n = n"
  by (simp add: u64_def)

lemma u16_less [simp]: "u16 n < 65536"
  by (simp add: u16_def)

lemma u32_less [simp]: "u32 n < 4294967296"
  by (simp add: u32_def)

lemma u64_less [simp]: "u64 n < 18446744073709551616"
  by (simp add: u64_def)

lemma sub_no_borrow:
  fixes a b m :: nat
  assumes "b \<le> a" "a < m"
  shows "(a + m - b mod m) mod m = a - b"
proof -
  have "b mod m = b" using assms by simp
  then have "a + m - b mod m = (a - b) + m" using assms by simp
  then have "(a + m - b mod m) mod m = (a - b) mod m" by simp
  then show ?thesis using assms by simp
qed

lemma sub16_small [wrap_simps]: "b \<le> a \<Longrightarrow> a < 65536 \<Longrightarrow> sub16 a b = a - b"
  unfolding sub16_def by (rule sub_no_borrow)

lemma sub32_small [wrap_simps]: "b \<le> a \<Longrightarrow> a < 4294967296 \<Longrightarrow> sub32 a b = a - b"
  unfolding sub32_def by (rule sub_no_borrow)

lemma sub64_small [wrap_simps]:
  "b \<le> a \<Longrightarrow> a < 18446744073709551616 \<Longrightarrow> sub64 a b = a - b"
  unfolding sub64_def by (rule sub_no_borrow)

subsection \<open>Outcomes of a call\<close>

datatype fault =
    Exit        \<comment> \<open>\<open>se_error\<close>: message and \<open>exit(1)\<close>\<close>
  | Abort       \<comment> \<open>\<open>abort()\<close>\<close>
  | Segv        \<comment> \<open>dereference of an address that holds no object\<close>
  | DivByZero   \<comment> \<open>integer division by zero\<close>

type_synonym 'a res = "(fault + 'a) option"

abbreviation ret :: "'a \<Rightarrow> 'a res" where
  "ret a \<equiv> Some (Inr a)"

abbreviation fail :: "fault \<Rightarrow> 'a res" where
  "fail f \<equiv> Some (Inl f)"

abbreviation diverges :: "'a res \<Rightarrow> bool" where
  "diverges r \<equiv> r = None"

definition bindR :: "'a res \<Rightarrow> ('a \<Rightarrow> 'b res) \<Rightarrow> 'b res" where
  "bindR m f = (case m of None \<Rightarrow> None | Some (Inl e) \<Rightarrow> Some (Inl e) | Some (Inr a) \<Rightarrow> f a)"

lemma bindR_simps [simp, res_simps]:
  "bindR None f = None"
  "bindR (fail e) f = fail e"
  "bindR (ret a) f = f a"
  by (simp_all add: bindR_def)

lemma bindR_ret_iff:
  "bindR m f = ret b \<longleftrightarrow> (\<exists>a. m = ret a \<and> f a = ret b)"
  by (auto simp: bindR_def split: option.splits sum.splits)

lemma bindR_retE [elim!]:
  assumes "bindR m f = ret b"
  obtains a where "m = ret a" "f a = ret b"
  using assms by (auto simp: bindR_ret_iff)

lemma bindR_assoc: "bindR (bindR m f) g = bindR m (\<lambda>a. bindR (f a) g)"
  by (auto simp: bindR_def split: option.splits sum.splits)

text \<open>
  A call goes on under a condition \<open>P\<close> that makes it return, or because it is known to return. Lemmas
  with this premise serve twice: with \<open>P\<close> they give total correctness, and with the returned call
  partial correctness.
\<close>

definition goes :: "bool \<Rightarrow> 'a res \<Rightarrow> bool" where
  "goes P r \<longleftrightarrow> P \<or> \<not> diverges r"

lemma goesI: "(diverges r \<Longrightarrow> P) \<Longrightarrow> goes P r"
  by (auto simp: goes_def)

lemma goes_mono: "goes P r \<Longrightarrow> (P \<Longrightarrow> Q) \<Longrightarrow> goes Q r"
  by (auto simp: goes_def)

lemma goes_step: "goes P r \<Longrightarrow> (diverges m \<Longrightarrow> diverges r) \<Longrightarrow> (P \<Longrightarrow> Q) \<Longrightarrow> goes Q m"
  by (auto simp: goes_def)

lemma bindR_mono [partial_function_mono]:
  fixes B :: "('a \<Rightarrow> 'b option) \<Rightarrow> 'c res" and C :: "'c \<Rightarrow> ('a \<Rightarrow> 'b option) \<Rightarrow> 'd res"
  assumes mf: "mono_option B" and mg: "\<And>y. mono_option (\<lambda>f. C y f)"
  shows "mono_option (\<lambda>f. bindR (B f) (\<lambda>y. C y f))"
proof (rule monotoneI)
  fix f g :: "'a \<Rightarrow> 'b option"
  assume fg: "fun_ord option_ord f g"
  with mf have 1: "option_ord (B f) (B g)" by (rule monotoneD [of _ _ _ f g])
  from mg have 2: "\<And>y. option_ord (C y f) (C y g)" by (rule monotoneD [of _ _ _ f g]) (rule fg)
  show "option_ord (bindR (B f) (\<lambda>y. C y f)) (bindR (B g) (\<lambda>y. C y g))"
  proof (cases "B f")
    case None
    then show ?thesis by (simp add: flat_ord_def)
  next
    case (Some r)
    with 1 have "B g = Some r" by (simp add: flat_ord_def)
    with Some 2 show ?thesis by (cases r) (auto simp: flat_ord_def)
  qed
qed

text \<open>
  A typed store maps the address of an object to its value. Reading through the null
  pointer or an address that holds no object of the type is a fault.
\<close>

definition load :: "(addr \<rightharpoonup> 'o) \<Rightarrow> addr \<Rightarrow> 'o res" where
  "load h p = (if p = 0 then fail Segv else case h p of None \<Rightarrow> fail Segv | Some x \<Rightarrow> ret x)"

lemma load_simps [simp, res_simps]:
  "load h 0 = fail Segv"
  "h p = None \<Longrightarrow> load h p = fail Segv"
  "p \<noteq> 0 \<Longrightarrow> h p = Some x \<Longrightarrow> load h p = ret x"
  by (simp_all add: load_def)

lemma load_ret_iff [simp]: "load h p = ret x \<longleftrightarrow> p \<noteq> 0 \<and> h p = Some x"
  by (simp add: load_def split: option.splits)

subsection \<open>Two-bit states packed into bytes\<close>

definition bits2_get :: "8 word list \<Rightarrow> nat \<Rightarrow> 8 word" where
  "bits2_get mem i = drop_bit (2 * (i mod 4)) (mem ! (i div 4)) AND 3"

definition bits2_set :: "8 word list \<Rightarrow> nat \<Rightarrow> 8 word \<Rightarrow> 8 word list" where
  "bits2_set mem i v =
     mem[i div 4 := (mem ! (i div 4) AND NOT (push_bit (2 * (i mod 4)) 3))
                      OR push_bit (2 * (i mod 4)) v]"

lemma bit_three: "bit (3 :: int) n \<longleftrightarrow> n < 2"
proof -
  have three: "(3 :: int) = mask 2" by (simp add: mask_eq_exp_minus_1)
  show ?thesis unfolding three by (auto simp: bit_mask_iff)
qed

lemma bit_three_byte: "bit (3 :: 8 word) n \<longleftrightarrow> n < 2"
  by (simp add: bit_three) arith

lemma not_bit_small:
  assumes "(v :: 8 word) \<le> 3" "2 \<le> m"
  shows "\<not> bit v m"
proof -
  have "unat v < 2 ^ 2" using assms(1) by (simp add: word_le_nat_alt)
  then have "unat (take_bit 2 v) = unat v" by (simp add: unsigned_take_bit_eq take_bit_nat_eq_self)
  then have "take_bit 2 v = v" by (simp only: unsigned_word_eqI)
  then have "bit v m = bit (take_bit 2 v) m" by simp
  with assms(2) show ?thesis by (simp add: bit_take_bit_iff)
qed

lemma bit_bits2_get:
  "bit (bits2_get mem i) n \<longleftrightarrow> n < 2 \<and> bit (mem ! (i div 4)) (2 * (i mod 4) + n)"
  unfolding bits2_get_def bit_and_iff bit_drop_bit_eq bit_three_byte by auto

lemma bits2_get_le: "bits2_get mem i \<le> 3"
  unfolding bits2_get_def by (rule word_and_le1)

lemma length_bits2_set [simp]: "length (bits2_set mem i v) = length mem"
  by (simp add: bits2_set_def)

lemma bits2_get_set_same:
  assumes "i div 4 < length mem" "v \<le> 3"
  shows "bits2_get (bits2_set mem i v) i = v"
proof (rule bit_word_eqI)
  fix n :: nat
  have lim: "n < 2 \<Longrightarrow> 2 * (i mod 4) + n < 8" by presburger
  have v: "\<not> n < 2 \<Longrightarrow> \<not> bit v n" using not_bit_small [OF assms(2), of n] by simp
  show "bit (bits2_get (bits2_set mem i v) i) n \<longleftrightarrow> bit v n"
    using assms(1) v lim
    by (auto simp: bit_bits2_get bits2_set_def bit_or_iff bit_and_iff bit_not_iff bit_push_bit_iff bit_three)
qed

lemma bits2_get_set_other:
  assumes "i \<noteq> j" "v \<le> 3"
  shows "bits2_get (bits2_set mem i v) j = bits2_get mem j"
proof (cases "i div 4 = j div 4 \<and> i div 4 < length mem")
  case True
  with assms(1) have neq: "i mod 4 < j mod 4 \<or> j mod 4 < i mod 4"
    by (metis div_mult_mod_eq linorder_neq_iff)
  show ?thesis
  proof (rule bit_word_eqI)
    fix n :: nat
    assume "n < LENGTH(8)"
    have lim: "n < 2 \<Longrightarrow> 2 * (j mod 4) + n < 8" by presburger
    let ?k = "2 * (j mod 4) + n"
    have "n < 2 \<Longrightarrow> \<not> bit (push_bit (2 * (i mod 4)) v) ?k \<and> \<not> bit (push_bit (2 * (i mod 4)) (3 :: 8 word)) ?k"
    proof (cases "i mod 4 < j mod 4")
      case True
      then have "2 \<le> ?k - 2 * (i mod 4)" by linarith
      then show ?thesis using not_bit_small [OF assms(2)] by (auto simp: bit_push_bit_iff bit_three)
    next
      case False
      then show "n < 2 \<Longrightarrow> ?thesis" using neq by (auto simp: bit_push_bit_iff)
    qed
    then show "bit (bits2_get (bits2_set mem i v) j) n \<longleftrightarrow> bit (bits2_get mem j) n"
      using True lim
      by (auto simp: bit_bits2_get bits2_set_def bit_or_iff bit_and_iff bit_not_iff)
  qed
next
  case False
  then have "bits2_set mem i v ! (j div 4) = mem ! (j div 4)"
    by (cases "i div 4 = j div 4") (auto simp: bits2_set_def list_update_beyond)
  then show ?thesis by (simp add: bits2_get_def)
qed

subsection \<open>Interface: an array of states addressed by index\<close>

text \<open>
  The run bitmap, the chunk's buddy tree and the internal allocator's buddy tree are the
  same data structure. Their clients only rely on the two laws below.
\<close>

locale packed_states =
  fixes pget :: "'m \<Rightarrow> nat \<Rightarrow> 's"
    and pset :: "'m \<Rightarrow> nat \<Rightarrow> 's \<Rightarrow> 'm"
    and valid :: "'m \<Rightarrow> nat \<Rightarrow> bool"
  assumes get_set_same: "valid m i \<Longrightarrow> pget (pset m i s) i = s"
    and get_set_other: "valid m i \<Longrightarrow> valid m j \<Longrightarrow> i \<noteq> j \<Longrightarrow> pget (pset m i s) j = pget m j"
    and valid_set: "valid (pset m i s) j = valid m j"
begin

lemma get_set: "valid m i \<Longrightarrow> valid m j \<Longrightarrow> pget (pset m i s) j = (if i = j then s else pget m j)"
  by (simp add: get_set_same get_set_other)

lemma set_commute:
  "valid m i \<Longrightarrow> valid m j \<Longrightarrow> valid m k \<Longrightarrow> i \<noteq> j \<Longrightarrow>
     pget (pset (pset m i a) j b) k = pget (pset (pset m j b) i a) k"
  by (simp add: get_set valid_set)

lemma set_absorb:
  "valid m i \<Longrightarrow> valid m k \<Longrightarrow> pget (pset (pset m i a) i b) k = pget (pset m i b) k"
  by (simp add: get_set valid_set)

lemma slots_set:
  assumes "\<And>j. j \<in> A \<Longrightarrow> valid m j" "i \<in> A"
  shows "{j \<in> A. pget (pset m i s) j = t} =
           (if s = t then insert i {j \<in> A. pget m j = t} else {j \<in> A. pget m j = t} - {i})"
  using assms by (auto simp: get_set)

lemma count_set_gain:
  assumes "\<And>j. j \<in> A \<Longrightarrow> valid m j" "i \<in> A" "finite A" "pget m i \<noteq> s"
  shows "card {j \<in> A. pget (pset m i s) j = s} = Suc (card {j \<in> A. pget m j = s})"
  using assms by (simp add: slots_set)

lemma count_set_lose:
  assumes "\<And>j. j \<in> A \<Longrightarrow> valid m j" "i \<in> A" "finite A" "pget m i = t" "s \<noteq> t"
  shows "Suc (card {j \<in> A. pget (pset m i s) j = t}) = card {j \<in> A. pget m j = t}"
proof -
  have "{j \<in> A. pget (pset m i s) j = t} = {j \<in> A. pget m j = t} - {i}"
    using assms by (simp add: slots_set)
  moreover have "card {j \<in> A. pget m j = t} = Suc (card ({j \<in> A. pget m j = t} - {i}))"
    using assms by (intro card.remove) simp_all
  ultimately show ?thesis by (simp only:)
qed

lemma count_set_same:
  assumes "\<And>j. j \<in> A \<Longrightarrow> valid m j" "i \<in> A" "pget m i \<noteq> t" "s \<noteq> t"
  shows "card {j \<in> A. pget (pset m i s) j = t} = card {j \<in> A. pget m j = t}"
  using assms by (simp add: slots_set)

end

end
