(* ===== verification/Container_LL.thy ===== *)
theory Container_LL
  imports Prelude
begin

text \<open>
  \<open>src/src/container_ll.c\<close>: the intrusive doubly linked list that aggregates chunks,
  runs, huge mappings and internal allocator nodes. Every such struct starts with an
  \<open>ll_entry_t\<close>; here the struct is a record extension of \<open>ll_entry\<close>, so that
  \<open>CONTAINER_OF(entry, type, entry)\<close>, a cast at offset 0, is the identity on addresses.
  The store of one struct type is a partial map from addresses; \<open>link.fd\<close> and \<open>link.bk\<close>
  are addresses in it. The assertions are compiled out in the default build
  (\<open>Assert=OFF\<close>); the lemmas below have them as hypotheses.
\<close>

subsection \<open>Entries and operations\<close>

record ll_entry =
  fd :: addr
  bk :: addr
  key :: addr

definition set_fd :: "(addr \<rightharpoonup> 'a ll_entry_scheme) \<Rightarrow> addr \<Rightarrow> addr \<Rightarrow> (addr \<rightharpoonup> 'a ll_entry_scheme) res" where
  "set_fd h p v = bindR (load h p) (\<lambda>e. ret (h(p \<mapsto> e\<lparr>fd := v\<rparr>)))"

definition set_bk :: "(addr \<rightharpoonup> 'a ll_entry_scheme) \<Rightarrow> addr \<Rightarrow> addr \<Rightarrow> (addr \<rightharpoonup> 'a ll_entry_scheme) res" where
  "set_bk h p v = bindR (load h p) (\<lambda>e. ret (h(p \<mapsto> e\<lparr>bk := v\<rparr>)))"

text \<open>A head is the pointer it holds; the operations return the new head.\<close>

definition ll_init :: addr where
  "ll_init = 0"

definition ll_add ::
    "(addr \<rightharpoonup> 'a ll_entry_scheme) \<Rightarrow> addr \<Rightarrow> addr \<Rightarrow> (addr \<times> (addr \<rightharpoonup> 'a ll_entry_scheme)) res" where
  "ll_add h head item =
     (if head = 0 then
        bindR (set_fd h item 0) (\<lambda>h.
        bindR (set_bk h item 0) (\<lambda>h.
        ret (item, h)))
      else
        (let fst = head in
        bindR (set_bk h item 0) (\<lambda>h.
        bindR (set_fd h item fst) (\<lambda>h.
        bindR (set_bk h fst item) (\<lambda>h.
        ret (item, h))))))"

definition ll_del ::
    "(addr \<rightharpoonup> 'a ll_entry_scheme) \<Rightarrow> addr \<Rightarrow> addr \<Rightarrow> (addr \<times> (addr \<rightharpoonup> 'a ll_entry_scheme)) res" where
  "ll_del h head item =
     bindR (if head = item then
              bindR (load h head) (\<lambda>e.
                if fd e = 0 then ret (0, h)
                else bindR (set_bk h (fd e) 0) (\<lambda>h. ret (fd e, h)))
            else ret (head, h)) (\<lambda>(head, h).
     bindR (load h item) (\<lambda>e.
     bindR (if fd e \<noteq> 0 then set_bk h (fd e) (bk e) else ret h) (\<lambda>h.
     bindR (load h item) (\<lambda>e.
     bindR (if bk e \<noteq> 0 then set_fd h (bk e) (fd e) else ret h) (\<lambda>h.
     bindR (set_fd h item 0) (\<lambda>h.
     bindR (set_bk h item 0) (\<lambda>h.
     ret (head, h))))))))"

text \<open>The search loop follows \<open>fd\<close> until the key or the end is met.\<close>

partial_function (option) ll_find_loop ::
    "(addr \<rightharpoonup> 'a ll_entry_scheme) \<Rightarrow> addr \<Rightarrow> addr \<Rightarrow> addr res" where
  "ll_find_loop h k res =
     (if res = 0 then ret 0
      else bindR (load h res) (\<lambda>e. if key e = k then ret res else ll_find_loop h k (fd e)))"

definition ll_find :: "(addr \<rightharpoonup> 'a ll_entry_scheme) \<Rightarrow> addr \<Rightarrow> addr \<Rightarrow> addr res" where
  "ll_find h head k = ll_find_loop h k head"

subsection \<open>What a well-formed list is\<close>

text \<open>
  \<open>dseg h p c xs l n\<close>: starting at \<open>c\<close>, whose \<open>bk\<close> is \<open>p\<close>, the entries are \<open>xs\<close>, the last
  one is \<open>l\<close> and its \<open>fd\<close> is \<open>n\<close>.
\<close>

fun dseg :: "(addr \<rightharpoonup> 'a ll_entry_scheme) \<Rightarrow> addr \<Rightarrow> addr \<Rightarrow> addr list \<Rightarrow> addr \<Rightarrow> addr \<Rightarrow> bool" where
  "dseg h p c [] l n \<longleftrightarrow> c = n \<and> l = p"
| "dseg h p c (x # xs) l n \<longleftrightarrow> c = x \<and> x \<noteq> 0 \<and>
     (case h x of None \<Rightarrow> False | Some e \<Rightarrow> bk e = p \<and> dseg h x (fd e) xs l n)"

definition ll_list :: "(addr \<rightharpoonup> 'a ll_entry_scheme) \<Rightarrow> addr \<Rightarrow> addr list \<Rightarrow> bool" where
  "ll_list h head xs \<longleftrightarrow> distinct xs \<and> dseg h 0 head xs (if xs = [] then 0 else last xs) 0"

text \<open>The stores differ at most in the links of the entries in \<open>S\<close>.\<close>

definition unlink :: "'a ll_entry_scheme \<Rightarrow> 'a ll_entry_scheme" where
  "unlink e = e\<lparr>fd := 0, bk := 0\<rparr>"

definition links_only ::
    "addr set \<Rightarrow> (addr \<rightharpoonup> 'a ll_entry_scheme) \<Rightarrow> (addr \<rightharpoonup> 'a ll_entry_scheme) \<Rightarrow> bool" where
  "links_only S h h' \<longleftrightarrow>
     (\<forall>x. x \<notin> S \<longrightarrow> h' x = h x) \<and> (\<forall>x. map_option unlink (h' x) = map_option unlink (h x))"

definition links :: "'a ll_entry_scheme \<Rightarrow> addr \<times> addr" where
  "links e = (fd e, bk e)"

lemma unlink_simps [simp]:
  "unlink (e\<lparr>fd := v\<rparr>) = unlink e" "unlink (e\<lparr>bk := v\<rparr>) = unlink e" "key (unlink e) = key e"
  by (simp_all add: unlink_def)

lemma links_only_refl [simp]: "links_only S h h"
  by (simp add: links_only_def)

lemma links_only_trans: "links_only S h h' \<Longrightarrow> links_only S h' h'' \<Longrightarrow> links_only S h h''"
  by (simp add: links_only_def)

lemma links_only_mono: "links_only S h h' \<Longrightarrow> S \<subseteq> T \<Longrightarrow> links_only T h h'"
  by (auto simp: links_only_def)

lemma links_only_upd:
  "h p = Some e \<Longrightarrow> p \<in> S \<Longrightarrow> unlink e' = unlink e \<Longrightarrow> links_only S h (h(p \<mapsto> e'))"
  by (auto simp: links_only_def)

lemma links_only_dom: "links_only S h h' \<Longrightarrow> h' x = None \<longleftrightarrow> h x = None"
  unfolding links_only_def by (metis option.map_disc_iff)

lemma links_only_Some:
  assumes "links_only S h h'" "h x = Some e"
  obtains e' where "h' x = Some e'" "unlink e' = unlink e"
  using assms unfolding links_only_def by (metis (mono_tags) map_option_eq_Some option.simps(9))

lemma links_only_key: "links_only S h h' \<Longrightarrow> map_option key (h' x) = map_option key (h x)"
proof -
  assume "links_only S h h'"
  then have "map_option key (map_option unlink (h' x)) = map_option key (map_option unlink (h x))"
    by (simp add: links_only_def)
  then show ?thesis by (simp add: option.map_comp comp_def)
qed

subsection \<open>Segments\<close>

lemma dseg_append:
  "dseg h p c (xs @ ys) l n \<longleftrightarrow> (\<exists>m k. dseg h p c xs k m \<and> dseg h k m ys l n)"
  by (induction xs arbitrary: p c) (auto split: option.splits)

lemma dseg_frame:
  "(\<And>x. x \<in> set xs \<Longrightarrow> map_option links (h' x) = map_option links (h x)) \<Longrightarrow>
     dseg h' p c xs l n = dseg h p c xs l n"
proof (induction xs arbitrary: p c)
  case (Cons x xs)
  have "map_option links (h' x) = map_option links (h x)" by (rule Cons.prems) simp
  moreover have "dseg h' q d xs l n = dseg h q d xs l n" for q d
    by (rule Cons.IH) (simp add: Cons.prems)
  ultimately show ?case by (cases "h x"; cases "h' x") (auto simp: links_def)
qed simp

lemma dseg_last: "dseg h p c xs l n \<Longrightarrow> l = (if xs = [] then p else last xs)"
  by (induction xs arbitrary: p c) (auto split: option.splits if_splits)

lemma dseg_hd: "dseg h p c xs l n \<Longrightarrow> c = (if xs = [] then n else hd xs)"
  by (cases xs) auto

lemma dseg_node: "dseg h p c xs l n \<Longrightarrow> x \<in> set xs \<Longrightarrow> x \<noteq> 0 \<and> (\<exists>e. h x = Some e)"
  by (induction xs arbitrary: p c) (auto split: option.splits)

lemma ll_list_alt: "ll_list h head xs \<longleftrightarrow> distinct xs \<and> (\<exists>l. dseg h 0 head xs l 0)"
  unfolding ll_list_def by (metis dseg_last)

lemma ll_list_Nil [simp]: "ll_list h head [] \<longleftrightarrow> head = 0"
  by (auto simp: ll_list_def)

lemma ll_list_distinct: "ll_list h head xs \<Longrightarrow> distinct xs"
  by (simp add: ll_list_def)

lemma ll_list_node: "ll_list h head xs \<Longrightarrow> x \<in> set xs \<Longrightarrow> x \<noteq> 0 \<and> (\<exists>e. h x = Some e)"
  by (auto simp: ll_list_def dest: dseg_node)

lemma ll_list_head: "ll_list h head xs \<Longrightarrow> head = (if xs = [] then 0 else hd xs)"
  by (auto simp: ll_list_def dest: dseg_hd split: if_splits)

lemma ll_list_frame:
  "ll_list h head xs \<Longrightarrow> (\<And>x. x \<in> set xs \<Longrightarrow> map_option links (h' x) = map_option links (h x)) \<Longrightarrow>
     ll_list h' head xs"
  by (simp add: ll_list_def dseg_frame [of xs h' h])

subsection \<open>The operations refine list operations\<close>

lemma ll_add_correct:
  assumes l: "ll_list h head xs" and item: "item \<noteq> 0" "item \<notin> set xs" "h item = Some e"
  shows "\<exists>h'. ll_add h head item = ret (item, h') \<and> ll_list h' item (item # xs)
           \<and> links_only (set (item # xs)) h h'"
proof (cases xs)
  case Nil
  with l have "head = 0" by simp
  let ?h = "h(item \<mapsto> e\<lparr>fd := 0, bk := 0\<rparr>)"
  have "ll_add h head item = ret (item, ?h)"
    using \<open>head = 0\<close> item by (simp add: ll_add_def set_fd_def set_bk_def)
  moreover have "links_only (set (item # xs)) h ?h"
    using item by (intro links_only_upd) simp_all
  ultimately show ?thesis using Nil item by (auto simp: ll_list_def)
next
  case (Cons b ys)
  with l obtain f where f: "head = b" "b \<noteq> 0" "h b = Some f" "bk f = 0" "dseg h b (fd f) ys (last xs) 0"
    by (auto simp: ll_list_def split: option.splits)
  have ne: "b \<noteq> item" "b \<notin> set ys" using item Cons l by (auto simp: ll_list_def)
  let ?h1 = "h(item \<mapsto> e\<lparr>bk := 0, fd := b\<rparr>)"
  let ?h = "?h1(b \<mapsto> f\<lparr>bk := item\<rparr>)"
  have "ll_add h head item = ret (item, ?h)"
    using f item ne by (simp add: ll_add_def set_fd_def set_bk_def Let_def)
  moreover have "links_only (set (item # xs)) h ?h"
    by (rule links_only_trans [of _ _ ?h1]; rule links_only_upd) (use item Cons f ne in auto)
  moreover have "dseg ?h b (fd f) ys (last xs) 0"
    using f(5) item Cons ne by (subst dseg_frame [of ys _ h]) auto
  then have "ll_list ?h item (item # xs)"
    using f item ne l Cons by (simp add: ll_list_def)
  ultimately show ?thesis by blast
qed

lemma ll_find_loop_correct:
  "dseg h p c xs l 0 \<Longrightarrow>
     ll_find_loop h k c = ret (case find (\<lambda>x. map_option key (h x) = Some k) xs of None \<Rightarrow> 0 | Some x \<Rightarrow> x)"
proof (induction xs arbitrary: p c)
  case Nil
  then show ?case by (simp add: ll_find_loop.simps)
next
  case (Cons x xs)
  then show ?case by (subst ll_find_loop.simps) (auto split: option.splits)
qed

lemma ll_find_correct:
  "ll_list h head xs \<Longrightarrow>
     ll_find h head k = ret (case find (\<lambda>x. map_option key (h x) = Some k) xs of None \<Rightarrow> 0 | Some x \<Rightarrow> x)"
  unfolding ll_find_def ll_list_alt using ll_find_loop_correct by blast

lemma dseg_set_fd:
  assumes "dseg h p c (as @ [a]) a m" "distinct (as @ [a])" "h a = Some e"
  shows "dseg (h(a \<mapsto> e\<lparr>fd := m'\<rparr>)) p c (as @ [a]) a m'"
proof -
  from assms(1,3) obtain k where k: "dseg h p c as k a" "a \<noteq> 0" "bk e = k"
    by (auto simp: dseg_append split: option.splits)
  have "dseg (h(a \<mapsto> e\<lparr>fd := m'\<rparr>)) p c as k a"
    using k(1) assms(2) by (subst dseg_frame [of as _ h]) auto
  with k show ?thesis by (auto simp: dseg_append)
qed

lemma dseg_set_bk:
  assumes "dseg h p b (b # bs) l n" "distinct (b # bs)" "h b = Some e"
  shows "dseg (h(b \<mapsto> e\<lparr>bk := p'\<rparr>)) p' b (b # bs) l n"
proof -
  from assms have tail: "b \<noteq> 0" "dseg h b (fd e) bs l n" by auto
  have "dseg (h(b \<mapsto> e\<lparr>bk := p'\<rparr>)) b (fd e) bs l n"
    using tail(2) assms(2) by (subst dseg_frame [of bs _ h]) auto
  with tail(1) show ?thesis by simp
qed

text \<open>Unlinking \<open>item\<close> joins the segment before it to the segment after it.\<close>

lemma ll_del_split:
  assumes "ll_list h head (as @ item # bs)"
  obtains e k where "h item = Some e" "item \<noteq> 0" "bk e = k" "dseg h 0 head as k item"
    "dseg h item (fd e) bs (if bs = [] then item else last bs) 0" "k = (if as = [] then 0 else last as)"
proof -
  from assms obtain l where "dseg h 0 head (as @ item # bs) l 0"
    by (auto simp only: ll_list_alt)
  then obtain m k where "dseg h 0 head as k m" "dseg h k m (item # bs) l 0"
    by (auto simp only: dseg_append)
  then have k: "dseg h 0 head as k item" "dseg h k item (item # bs) l 0"
    by auto
  then obtain e where e: "h item = Some e" "item \<noteq> 0" "bk e = k" "dseg h item (fd e) bs l 0"
    by (auto split: option.splits)
  show ?thesis
    by (rule that [of e k]) (use e k(1) dseg_last [OF e(4)] dseg_last [OF k(1)] in auto)
qed

lemma ll_del_run:
  assumes l: "ll_list h head (as @ item # bs)"
    and e: "h item = Some e" "item \<noteq> 0" "bk e = (if as = [] then 0 else last as)"
      "fd e = (if bs = [] then 0 else hd bs)"
    and hB: "hB = (if bs = [] then h else h(hd bs \<mapsto> (the (h (hd bs)))\<lparr>bk := bk e\<rparr>))"
    and hA: "hA = (if as = [] then hB else hB(last as \<mapsto> (the (hB (last as)))\<lparr>fd := fd e\<rparr>))"
  shows "ll_del h head item =
           ret (if as = [] then fd e else head, hA(item \<mapsto> e\<lparr>fd := 0, bk := 0\<rparr>))"
proof -
  have dist: "distinct (as @ item # bs)" using l by (rule ll_list_distinct)
  have head: "head = (if as = [] then item else hd as)"
    using ll_list_head [OF l] by (cases as) auto
  have nB: "bs \<noteq> [] \<Longrightarrow> hd bs \<noteq> 0 \<and> hd bs \<noteq> item \<and> (\<exists>f. h (hd bs) = Some f)"
    using ll_list_node [OF l, of "hd bs"] dist by (cases bs) auto
  have nA: "as \<noteq> [] \<Longrightarrow> last as \<noteq> 0 \<and> last as \<noteq> item \<and> head \<noteq> item \<and> (\<exists>f. h (last as) = Some f)"
    using ll_list_node [OF l, of "last as"] dist head by (cases as) auto
  have nAB: "as \<noteq> [] \<Longrightarrow> bs \<noteq> [] \<Longrightarrow> last as \<noteq> hd bs"
    using dist by (cases bs) (auto dest: last_in_set)
  show ?thesis
  proof (cases "as = []"; cases "bs = []")
    assume "as = []" "bs = []"
    then show ?thesis using e head hA hB by (simp add: ll_del_def set_fd_def set_bk_def)
  next
    assume "as = []" "bs \<noteq> []"
    then show ?thesis using e head hA hB nB by (auto simp: ll_del_def set_fd_def set_bk_def)
  next
    assume "as \<noteq> []" "bs = []"
    then show ?thesis using e head hA hB nA by (auto simp: ll_del_def set_fd_def set_bk_def)
  next
    assume "as \<noteq> []" "bs \<noteq> []"
    then show ?thesis using e head hA hB nA nB nAB by (auto simp: ll_del_def set_fd_def set_bk_def)
  qed
qed

lemma links_only_set_link:
  "h p \<noteq> None \<Longrightarrow> p \<in> S \<Longrightarrow> (\<And>e. unlink (f e) = unlink e) \<Longrightarrow>
     links_only S h (h(p \<mapsto> f (the (h p))))"
  by (auto intro: links_only_upd)

lemma dseg_join:
  assumes seg: "dseg h 0 head as k item" "dseg h item n bs l 0"
    and dist: "distinct (as @ item # bs)" and ne: "n = (if bs = [] then 0 else hd bs)"
    and k: "k = (if as = [] then 0 else last as)"
    and hB: "hB = (if bs = [] then h else h(hd bs \<mapsto> (the (h (hd bs)))\<lparr>bk := k\<rparr>))"
    and hA: "hA = (if as = [] then hB else hB(last as \<mapsto> (the (hB (last as)))\<lparr>fd := n\<rparr>))"
  shows "\<exists>l. dseg (hA(item \<mapsto> e)) 0 (if as = [] then n else head) (as @ bs) l 0"
proof -
  have "\<exists>l. dseg hB k n bs l 0 \<and> dseg hB 0 head as k item"
  proof (cases bs)
    case Nil
    then show ?thesis using seg ne hB by simp
  next
    case (Cons b bs')
    then obtain f where f: "h b = Some f" using seg(2) by (auto split: option.splits)
    have "dseg hB k n bs l 0"
      using dseg_set_bk [of h item b bs' l 0 f k] f seg(2) dist ne hB f Cons by auto
    moreover have "dseg hB 0 head as k item"
      using seg(1) dist Cons hB by (subst dseg_frame [of as _ h]) auto
    ultimately show ?thesis by blast
  qed
  then obtain lb where B: "dseg hB k n bs lb 0" "dseg hB 0 head as k item" by blast
  have "dseg hA k n bs lb 0 \<and> dseg hA 0 (if as = [] then n else head) as k n"
  proof (cases as rule: rev_cases)
    case Nil
    then show ?thesis using B hA k by simp
  next
    case (snoc as' a)
    then obtain f where f: "hB a = Some f" using dseg_node [OF B(2), of a] by auto
    have "dseg hA k n bs lb 0"
      using B(1) dist snoc hA by (subst dseg_frame [of bs _ hB]) auto
    moreover have "dseg hA 0 head as k n"
      using dseg_set_fd [of hB 0 head as' a item f n] B(2) dist snoc hA k f by auto
    ultimately show ?thesis using snoc by simp
  qed
  then have "dseg hA 0 (if as = [] then n else head) (as @ bs) lb 0"
    unfolding dseg_append by blast
  then have "dseg (hA(item \<mapsto> e)) 0 (if as = [] then n else head) (as @ bs) lb 0"
    using dist by (subst dseg_frame [of _ _ hA]) auto
  then show ?thesis by blast
qed

lemma ll_del_correct:
  assumes l: "ll_list h head xs" and item: "item \<in> set xs"
  shows "\<exists>head' h'. ll_del h head item = ret (head', h') \<and> ll_list h' head' (remove1 item xs)
           \<and> links_only (set xs) h h' \<and> map_option links (h' item) = Some (0, 0)"
proof -
  obtain as bs where xs: "xs = as @ item # bs" using item by (auto dest: split_list)
  have dist: "distinct (as @ item # bs)" using l xs ll_list_distinct by blast
  obtain e k where e: "h item = Some e" "item \<noteq> 0" "bk e = k" "dseg h 0 head as k item"
    "dseg h item (fd e) bs (if bs = [] then item else last bs) 0" "k = (if as = [] then 0 else last as)"
    using ll_del_split l xs by metis
  have fde: "fd e = (if bs = [] then 0 else hd bs)" using dseg_hd [OF e(5)] by simp
  define hB where "hB = (if bs = [] then h else h(hd bs \<mapsto> (the (h (hd bs)))\<lparr>bk := bk e\<rparr>))"
  define hA where "hA = (if as = [] then hB else hB(last as \<mapsto> (the (hB (last as)))\<lparr>fd := fd e\<rparr>))"
  let ?h = "hA(item \<mapsto> e\<lparr>fd := 0, bk := 0\<rparr>)"
  have run: "ll_del h head item = ret (if as = [] then fd e else head, ?h)"
    using l e fde xs hA_def hB_def by (intro ll_del_run [of h head as item bs]) simp_all
  have "\<exists>l. dseg ?h 0 (if as = [] then fd e else head) (as @ bs) l 0"
    using e fde dist hA_def hB_def by (intro dseg_join [OF e(4,5) dist]) simp_all
  then have "ll_list ?h (if as = [] then fd e else head) (remove1 item xs)"
    using dist xs by (simp add: ll_list_alt remove1_append)
  moreover have "links_only (set xs) h ?h"
  proof -
    have 1: "links_only (set xs) h hB"
      using ll_list_node [OF l, of "hd bs"] xs
      by (auto simp: hB_def intro!: links_only_set_link)
    have 2: "links_only (set xs) hB hA"
      using ll_list_node [OF l, of "last as"] links_only_dom [OF 1, of "last as"] xs
      by (auto simp: hA_def intro!: links_only_set_link)
    have "hB item = Some e" using e(1) dist by (cases bs) (auto simp: hB_def)
    then have "hA item = Some e" using dist by (auto simp: hA_def)
    then have "links_only (set xs) hA ?h" using item by (intro links_only_upd) simp_all
    with 1 2 show ?thesis by (blast intro: links_only_trans)
  qed
  ultimately show ?thesis using run by (auto simp: links_def)
qed

subsection \<open>Interface: a list of entries inside a store\<close>

text \<open>
  What bins, chunks and huge mappings rely on. \<open>rep h head xs\<close> says that the list headed
  by \<open>head\<close> in store \<open>h\<close> holds the entries \<open>xs\<close> in order.
\<close>

abbreviation key_at :: "(addr \<rightharpoonup> 'a ll_entry_scheme) \<Rightarrow> addr \<Rightarrow> addr option" where
  "key_at h x \<equiv> map_option key (h x)"

locale entry_list =
  fixes add :: "(addr \<rightharpoonup> 'a ll_entry_scheme) \<Rightarrow> addr \<Rightarrow> addr \<Rightarrow> (addr \<times> (addr \<rightharpoonup> 'a ll_entry_scheme)) res"
    and del :: "(addr \<rightharpoonup> 'a ll_entry_scheme) \<Rightarrow> addr \<Rightarrow> addr \<Rightarrow> (addr \<times> (addr \<rightharpoonup> 'a ll_entry_scheme)) res"
    and search :: "(addr \<rightharpoonup> 'a ll_entry_scheme) \<Rightarrow> addr \<Rightarrow> addr \<Rightarrow> addr res"
    and rep :: "(addr \<rightharpoonup> 'a ll_entry_scheme) \<Rightarrow> addr \<Rightarrow> addr list \<Rightarrow> bool"
  assumes rep_distinct: "rep h head xs \<Longrightarrow> distinct xs"
    and rep_node: "rep h head xs \<Longrightarrow> x \<in> set xs \<Longrightarrow> x \<noteq> 0 \<and> (\<exists>e. h x = Some e)"
    and rep_frame: "rep h head xs \<Longrightarrow>
        (\<And>x. x \<in> set xs \<Longrightarrow> map_option links (h' x) = map_option links (h x)) \<Longrightarrow> rep h' head xs"
    and add_law: "rep h head xs \<Longrightarrow> item \<noteq> 0 \<Longrightarrow> item \<notin> set xs \<Longrightarrow> h item = Some e \<Longrightarrow>
        \<exists>h'. add h head item = ret (item, h') \<and> rep h' item (item # xs) \<and> links_only (set (item # xs)) h h'"
    and del_law: "rep h head xs \<Longrightarrow> item \<in> set xs \<Longrightarrow>
        \<exists>head' h'. del h head item = ret (head', h') \<and> rep h' head' (remove1 item xs)
          \<and> links_only (set xs) h h' \<and> map_option links (h' item) = Some (0, 0)"
    and search_law: "rep h head xs \<Longrightarrow>
        search h head k = ret (case find (\<lambda>x. key_at h x = Some k) xs of None \<Rightarrow> 0 | Some x \<Rightarrow> x)"
begin

lemma rep_links_only:
  assumes "rep h head xs" "links_only S h h'" "S \<inter> set xs = {}"
  shows "rep h' head xs"
  by (rule rep_frame [OF assms(1)]) (use assms(2,3) in \<open>auto simp: links_only_def\<close>)

text \<open>Searching finds a present key, and only that entry when keys are unique.\<close>

lemma search_unique:
  assumes "rep h head xs" "x \<in> set xs" "key_at h x = Some k"
    and "\<And>y. y \<in> set xs \<Longrightarrow> key_at h y = Some k \<Longrightarrow> y = x"
  shows "search h head k = ret x"
proof -
  have "find (\<lambda>x. key_at h x = Some k) xs = Some x"
  proof (cases "find (\<lambda>x. key_at h x = Some k) xs")
    case None
    with assms(2,3) show ?thesis unfolding find_None_iff by blast
  next
    case (Some y)
    then have "y \<in> set xs" "key_at h y = Some k" unfolding find_Some_iff by auto
    with Some assms(4) show ?thesis by blast
  qed
  then show ?thesis using search_law [OF assms(1)] by simp
qed

lemma search_absent:
  assumes "rep h head xs" "\<And>y. y \<in> set xs \<Longrightarrow> key_at h y \<noteq> Some k"
  shows "search h head k = ret 0"
proof -
  have "find (\<lambda>x. key_at h x = Some k) xs = None" unfolding find_None_iff using assms(2) by blast
  then show ?thesis using search_law [OF assms(1)] by simp
qed

lemma search_cases:
  assumes "rep h head xs"
  obtains (found) x where "search h head k = ret x" "x \<in> set xs" "key_at h x = Some k" "x \<noteq> 0"
  | (absent) "search h head k = ret 0" "\<And>y. y \<in> set xs \<Longrightarrow> key_at h y \<noteq> Some k"
proof (cases "find (\<lambda>x. key_at h x = Some k) xs")
  case None
  have "search h head k = ret 0" using search_law [OF assms, of k] by (simp only: None option.case)
  moreover have "key_at h y \<noteq> Some k" if "y \<in> set xs" for y
    using None that unfolding find_None_iff by blast
  ultimately show ?thesis by (rule absent)
next
  case (Some y)
  then have "y \<in> set xs" "key_at h y = Some k" unfolding find_Some_iff by auto
  then show ?thesis using found rep_node [OF assms] search_law [OF assms, of k] Some by auto
qed

text \<open>Two lists of one store: changing one leaves the other alone.\<close>

lemma add_other:
  assumes "rep h head xs" "rep h head' ys" "set ys \<inter> set (item # xs) = {}"
    "item \<noteq> 0" "item \<notin> set xs" "h item = Some e"
  obtains h' where "add h head item = ret (item, h')" "rep h' item (item # xs)" "rep h' head' ys"
    "links_only (set (item # xs)) h h'"
  using add_law [OF assms(1,4-6)] rep_links_only [OF assms(2)] assms(3)
  by (metis inf_commute)

lemma del_other:
  assumes "rep h head xs" "rep h head' ys" "set ys \<inter> set xs = {}" "item \<in> set xs"
  obtains head1 h1 where "del h head item = ret (head1, h1)" "rep h1 head1 (remove1 item xs)" "rep h1 head' ys"
    "links_only (set xs) h h1"
  using del_law [OF assms(1,4)] rep_links_only [OF assms(2)] assms(3)
  by (metis inf_commute)

text \<open>Moving an entry from one list to another.\<close>

lemma move:
  assumes "rep h head xs" "rep h head' ys" "set ys \<inter> set xs = {}" "item \<in> set xs"
  obtains head1 h1 h2 where "del h head item = ret (head1, h1)" "add h1 head' item = ret (item, h2)"
    "rep h2 head1 (remove1 item xs)" "rep h2 item (item # ys)"
    "links_only (insert item (set xs \<union> set ys)) h h2"
proof -
  obtain head1 h1 where d: "del h head item = ret (head1, h1)" "rep h1 head1 (remove1 item xs)"
      "rep h1 head' ys" "links_only (set xs) h h1"
    using del_other [OF assms] by metis
  obtain e where e: "h1 item = Some e" "item \<noteq> 0"
    using rep_node [OF assms(1,4)] links_only_Some [OF d(4)] by metis
  have dist: "set (remove1 item xs) \<inter> set (item # ys) = {}"
    using assms(3) rep_distinct [OF assms(1)] by auto
  obtain h2 where a: "add h1 head' item = ret (item, h2)" "rep h2 item (item # ys)"
      "rep h2 head1 (remove1 item xs)" "links_only (set (item # ys)) h1 h2"
    using add_other [OF d(3,2) dist e(2) _ e(1)] assms(3,4) by (metis disjoint_iff)
  have "links_only (insert item (set xs \<union> set ys)) h h2"
    using links_only_mono [OF d(4)] links_only_mono [OF a(4)] by (rule links_only_trans) auto
  then show ?thesis by (rule that [OF d(1) a(1,3,2)])
qed

end

interpretation ll: entry_list ll_add ll_del ll_find ll_list
proof unfold_locales
  fix h :: "addr \<rightharpoonup> 'a ll_entry_scheme" and head xs
  show "ll_list h head xs \<Longrightarrow> distinct xs" by (rule ll_list_distinct)
  show "ll_list h head xs \<Longrightarrow> x \<in> set xs \<Longrightarrow> x \<noteq> 0 \<and> (\<exists>e. h x = Some e)" for x
    by (rule ll_list_node)
  show "ll_list h head xs \<Longrightarrow>
      (\<And>x. x \<in> set xs \<Longrightarrow> map_option links (h' x) = map_option links (h x)) \<Longrightarrow> ll_list h' head xs" for h'
    by (rule ll_list_frame)
qed (fact ll_add_correct ll_del_correct ll_find_correct)+

text \<open>Walking a list by \<open>fd\<close>, as the loops over bins and chunks do.\<close>

lemma ll_list_walk:
  assumes "dseg h p c (xs @ x # ys) l 0" "h x = Some e"
  shows "fd e = (if ys = [] then 0 else hd ys)"
  using assms by (auto simp: dseg_append dest: dseg_hd split: if_splits)

subsection \<open>Properties\<close>

text \<open>On a well-formed list, adding a fresh entry never faults, makes it the new head,
  puts it in front of the abstract list and changes nothing in the store but links.\<close>

theorem ll_add_refines:
  assumes "ll_list h head xs" "item \<noteq> 0" "item \<notin> set xs" "h item = Some e"
  shows "\<exists>h'. ll_add h head item = ret (item, h') \<and> ll_list h' item (item # xs)
           \<and> links_only (set (item # xs)) h h'"
  using assms by (rule ll.add_law)

definition ex_store :: "addr \<rightharpoonup> ll_entry" where
  "ex_store = [16 \<mapsto> \<lparr>fd = 48, bk = 0, key = 100\<rparr>, 48 \<mapsto> \<lparr>fd = 0, bk = 16, key = 200\<rparr>,
     80 \<mapsto> \<lparr>fd = 0, bk = 0, key = 300\<rparr>]"

lemma ex_store_list: "ll_list ex_store 16 [16, 48]"
  by (simp add: ll_list_def ex_store_def)

theorem ll_add_refines_witness:
  "\<exists>h'. ll_add ex_store 16 80 = ret (80, h') \<and> ll_list h' 80 [80, 16, 48]
     \<and> links_only {80, 16, 48} ex_store h'"
  using ll_add_refines [OF ex_store_list, of 80 "\<lparr>fd = 0, bk = 0, key = 300\<rparr>"]
  by (simp add: ex_store_def)

text \<open>C24: deleting any entry of a well-formed list never faults, removes exactly that entry
  from the abstract list, clears its links and changes nothing in the store but links.\<close>

theorem ll_del_refines:
  assumes "ll_list h head xs" "item \<in> set xs"
  shows "\<exists>head' h'. ll_del h head item = ret (head', h') \<and> ll_list h' head' (remove1 item xs)
           \<and> links_only (set xs) h h' \<and> map_option links (h' item) = Some (0, 0)"
  using assms by (rule ll.del_law)

theorem ll_del_refines_witness:
  "\<exists>head' h'. ll_del ex_store 16 48 = ret (head', h') \<and> ll_list h' head' [16]
     \<and> links_only {16, 48} ex_store h' \<and> map_option links (h' 48) = Some (0, 0)"
  using ll_del_refines [OF ex_store_list, of 48] by simp

text \<open>On a well-formed list the search loop terminates without fault and returns the first
  entry with the key, or NULL when no entry has it.\<close>

theorem ll_find_refines:
  assumes "ll_list h head xs"
  shows "ll_find h head k = ret (case find (\<lambda>x. key_at h x = Some k) xs of None \<Rightarrow> 0 | Some x \<Rightarrow> x)"
  using assms by (rule ll.search_law)

theorem ll_find_refines_witness: "ll_find ex_store 16 200 = ret 48"
  using ll_find_refines [OF ex_store_list, of 200] by (simp add: ex_store_def)

end
