(* ===== verification/Utils.thy ===== *)
theory Utils
  imports Prelude
begin

text \<open>
  \<open>src/src/utils.c\<close> and \<open>src/src/sealloc/utils.h\<close>: string length, the base-two
  logarithm the code calls \<open>ctz\<close>, decimal parsing, and the alignment macros.
  A C string is the list of its characters before the terminating NUL.
\<close>

subsection \<open>Constants and alignment macros\<close>

definition PAGE_SIZE :: nat where "PAGE_SIZE = 4096"

definition MAX_USERSPACE_ADDR64 :: nat where "MAX_USERSPACE_ADDR64 = 0x7fffffffffff"
definition MASK_44_BITS :: "64 word" where "MASK_44_BITS = 0x0fffffffffff"
definition MASK_45_BITS :: "64 word" where "MASK_45_BITS = 0x1fffffffffff"

definition ALIGNUP_8 :: "'w::len word \<Rightarrow> 'w word" where
  "ALIGNUP_8 n = (n + 7) AND NOT 7"

definition ALIGNUP_16 :: "'w::len word \<Rightarrow> 'w word" where
  "ALIGNUP_16 n = (n + 15) AND NOT 15"

definition ALIGNUP_PAGE :: "'w::len word \<Rightarrow> 'w word" where
  "ALIGNUP_PAGE n = (n + 4095) AND NOT 4095"

definition BITS2BYTES_CEIL :: "nat \<Rightarrow> nat" where
  "BITS2BYTES_CEIL bits = unat (ALIGNUP_8 (of_nat bits :: 32 word)) div 8"

definition IS_ALIGNED :: "nat \<Rightarrow> nat \<Rightarrow> bool" where
  "IS_ALIGNED x y \<longleftrightarrow> x mod y = 0"

text \<open>\<open>ALIGNUP_PAGE\<close> on a \<open>size_t\<close> or \<open>uintptr_t\<close> kept as a natural number.\<close>

definition alignup_page64 :: "nat \<Rightarrow> nat" where
  "alignup_page64 n = unat (ALIGNUP_PAGE (of_nat n :: 64 word))"

subsection \<open>Functions of utils.c\<close>

fun msg_len_loop :: "nat \<Rightarrow> string \<Rightarrow> nat" where
  "msg_len_loop cnt [] = cnt"
| "msg_len_loop cnt (c # msg) = msg_len_loop (u32 (cnt + 1)) msg"

definition msg_len :: "string \<Rightarrow> nat" where
  "msg_len msg = msg_len_loop 0 msg"

fun ctz_loop :: "nat \<Rightarrow> nat \<Rightarrow> nat" where
  "ctz_loop cnt x = (if 1 < x then ctz_loop (u32 (cnt + 1)) (x div 2) else cnt)"

declare ctz_loop.simps [simp del]

definition ctz :: "nat \<Rightarrow> nat" where
  "ctz x = ctz_loop 0 x"

text \<open>\<open>char\<close> is signed on the targets the build files name.\<close>

definition schar :: "char \<Rightarrow> int" where
  "schar c = (let n = of_char c :: nat in if n < 128 then int n else int n - 256)"

fun str2u32_loop :: "string \<Rightarrow> nat \<Rightarrow> 32 word \<Rightarrow> 32 word \<Rightarrow> 32 word" where
  "str2u32_loop str 0 res base = res"
| "str2u32_loop str (Suc idx) res base =
     str2u32_loop str idx (res + word_of_int (schar (str ! idx) - 48) * base) (base * 10)"

definition str2u32 :: "string \<Rightarrow> 32 word" where
  "str2u32 str = str2u32_loop str (msg_len str) 0 1"

subsection \<open>Alignment is rounding up\<close>

lemma and_not_mask_eq: "x AND NOT (mask n) = push_bit n (drop_bit n (x :: 'w::len word))"
  by (rule bit_word_eqI) (auto simp: bit_simps)

lemma unat_and_not_mask:
  fixes x :: "'w::len word"
  shows "unat (x AND NOT (mask n)) = unat x div 2 ^ n * 2 ^ n"
proof -
  have "unat (push_bit n (drop_bit n x)) = take_bit LENGTH('w) (push_bit n (unat (drop_bit n x)))"
    by (simp add: unsigned_push_bit_eq)
  also have "unat (drop_bit n x) = unat x div 2 ^ n"
    by (simp only: unsigned_drop_bit_eq drop_bit_eq_div [where 'a = nat] take_bit_nat_eq_self unsigned_less)
  also have "push_bit n (unat x div 2 ^ n) = unat x div 2 ^ n * 2 ^ n"
    by (simp only: push_bit_eq_mult)
  also have "take_bit LENGTH('w) (unat x div 2 ^ n * 2 ^ n) = unat x div 2 ^ n * 2 ^ n"
  proof (rule take_bit_nat_eq_self)
    have "unat x div 2 ^ n * 2 ^ n \<le> unat x" by (rule div_times_less_eq_dividend)
    then show "unat x div 2 ^ n * 2 ^ n < 2 ^ LENGTH('w)"
      using unsigned_less [of x] by (rule le_less_trans)
  qed
  finally show ?thesis by (simp add: and_not_mask_eq)
qed

lemma unat_mask: "n \<le> LENGTH('w) \<Longrightarrow> unat (mask n :: 'w::len word) = mask n"
  by transfer (simp add: take_bit_of_mask nat_mask_eq min_def)

lemma unat_alignup:
  fixes x :: "'w::len word"
  assumes "m = mask n" "unat x + (2 ^ n - 1) < 2 ^ LENGTH('w)" "n \<le> LENGTH('w)"
  shows "unat ((x + m) AND NOT m) = (unat x + (2 ^ n - 1)) div 2 ^ n * 2 ^ n"
proof -
  have "unat (mask n :: 'w word) = mask n"
    using assms(3) by (rule unat_mask)
  then have "unat (mask n :: 'w word) = 2 ^ n - 1"
    by (simp add: mask_eq_exp_minus_1)
  then have "unat (x + mask n) = unat x + (2 ^ n - 1)"
    using assms(2) by (simp add: unat_word_ariths)
  then show ?thesis by (simp add: assms(1) unat_and_not_mask)
qed

lemma alignup_page64_eq:
  assumes "n + 4095 < 18446744073709551616"
  shows "alignup_page64 n = (n + 4095) div 4096 * 4096"
proof -
  have "unat (of_nat n :: 64 word) = n"
    using assms by (simp add: unat_of_nat)
  moreover have "(4095 :: 64 word) = mask 12" by (simp add: mask_eq_exp_minus_1)
  ultimately show ?thesis
    using unat_alignup [of "4095 :: 64 word" 12 "of_nat n"] assms
    by (simp add: alignup_page64_def ALIGNUP_PAGE_def)
qed

lemma alignup_page64_wraps:
  assumes "18446744073709551616 \<le> n + 4095" "n < 18446744073709551616"
  shows "alignup_page64 n = 0"
proof -
  have m: "(4095 :: 64 word) = mask 12" by (simp add: mask_eq_exp_minus_1)
  have "unat (of_nat n + 4095 :: 64 word) = (n + 4095) mod 18446744073709551616"
    using assms by (simp add: unat_word_ariths unat_of_nat)
  also have "\<dots> = n + 4095 - 18446744073709551616"
    using assms by (simp add: mod_if)
  finally have "unat (of_nat n + 4095 :: 64 word) div 4096 = 0"
    using assms by simp
  then show ?thesis
    unfolding alignup_page64_def ALIGNUP_PAGE_def m unat_and_not_mask
    by (simp flip: m)
qed

lemma BITS2BYTES_CEIL_eq:
  assumes "bits + 7 < 4294967296"
  shows "BITS2BYTES_CEIL bits = (bits + 7) div 8"
proof -
  have "unat (of_nat bits :: 32 word) = bits"
    using assms by (simp add: unat_of_nat)
  moreover have "(7 :: 32 word) = mask 3" by (simp add: mask_eq_exp_minus_1)
  ultimately show ?thesis
    using unat_alignup [of "7 :: 32 word" 3 "of_nat bits"] assms
    by (simp add: BITS2BYTES_CEIL_def ALIGNUP_8_def)
qed

subsection \<open>The loops\<close>

lemma msg_len_loop_eq: "cnt + length msg < 4294967296 \<Longrightarrow> msg_len_loop cnt msg = cnt + length msg"
  by (induction msg arbitrary: cnt) (auto simp: wrap_simps)

lemma msg_len_eq: "length msg < 4294967296 \<Longrightarrow> msg_len msg = length msg"
  by (simp add: msg_len_def msg_len_loop_eq)

lemma ctz_loop_eq:
  "2 ^ k \<le> x \<Longrightarrow> x < 2 ^ Suc k \<Longrightarrow> cnt + k < 4294967296 \<Longrightarrow> ctz_loop cnt x = cnt + k"
proof (induction k arbitrary: cnt x)
  case 0
  then have "x = 1" by simp
  then show ?case by (simp add: ctz_loop.simps)
next
  case (Suc k)
  have "1 < x" using Suc.prems(1) one_less_power [of "2::nat" "Suc k"] by (simp del: power_Suc)
  moreover have "ctz_loop (Suc cnt) (x div 2) = Suc cnt + k"
    using Suc.prems by (intro Suc.IH) auto
  ultimately show ?case using Suc.prems(3) by (subst ctz_loop.simps) (simp add: wrap_simps)
qed

text \<open>\<open>ctz\<close> is the rounded-down base-two logarithm, whatever its name says.\<close>

lemma ctz_eq: "2 ^ k \<le> x \<Longrightarrow> x < 2 ^ Suc k \<Longrightarrow> k < 4294967296 \<Longrightarrow> ctz x = k"
  by (simp add: ctz_def ctz_loop_eq)

lemma ctz_power: "k < 4294967296 \<Longrightarrow> ctz (2 ^ k) = k"
  by (simp add: ctz_eq)

lemma ctz_0: "ctz 0 = 0"
  by (simp add: ctz_def ctz_loop.simps)

definition decimal :: "string \<Rightarrow> int" where
  "decimal str = foldl (\<lambda>a c. a * 10 + (schar c - 48)) 0 str"

lemma decimal_snoc: "decimal (str @ [c]) = decimal str * 10 + (schar c - 48)"
  by (simp add: decimal_def)

lemma str2u32_loop_eq:
  "idx \<le> length str \<Longrightarrow>
     str2u32_loop str idx res base = res + base * word_of_int (decimal (take idx str))"
proof (induction idx arbitrary: res base)
  case 0
  then show ?case by (simp add: decimal_def)
next
  case (Suc idx)
  then have "take (Suc idx) str = take idx str @ [str ! idx]"
    by (simp add: take_Suc_conv_app_nth)
  with Suc show ?case
    by (simp add: decimal_snoc algebra_simps flip: wi_hom_mult wi_hom_add wi_hom_sub)
qed

lemma str2u32_eq:
  "length str < 4294967296 \<Longrightarrow> str2u32 str = word_of_int (decimal str)"
  by (simp add: str2u32_def msg_len_eq str2u32_loop_eq)

end
