(* ===== verification/Size_Class.thy ===== *)
theory Size_Class
  imports Utils
begin

text \<open>
  \<open>src/src/size_class.c\<close> and \<open>src/src/sealloc/size_class.h\<close>: the small, medium and large
  size classes, rounding a request up to its class, and the class indices that select
  a bin. All values are \<open>unsigned\<close>; the next power of two is computed by bit smearing
  on 32-bit words, as in the source.
\<close>

subsection \<open>Constants and class tests\<close>

definition NO_SMALL_SIZE_CLASSES :: nat where "NO_SMALL_SIZE_CLASSES = 32"
definition NO_MEDIUM_SIZE_CLASSES :: nat where "NO_MEDIUM_SIZE_CLASSES = 4"
definition NO_LARGE_SIZE_CLASSES :: nat where "NO_LARGE_SIZE_CLASSES = 7"
definition SMALL_SIZE_CLASS_ALIGNMENT :: nat where "SMALL_SIZE_CLASS_ALIGNMENT = 16"
definition SMALL_SIZE_MIN_REGION :: nat where "SMALL_SIZE_MIN_REGION = 16"
definition SMALL_SIZE_MAX_REGION :: nat where "SMALL_SIZE_MAX_REGION = 512"
definition MEDIUM_SIZE_MIN_REGION :: nat where "MEDIUM_SIZE_MIN_REGION = 1024"
definition MEDIUM_SIZE_MAX_REGION :: nat where "MEDIUM_SIZE_MAX_REGION = 2 * PAGE_SIZE"
definition LARGE_SIZE_MIN_REGION :: nat where "LARGE_SIZE_MIN_REGION = 4 * PAGE_SIZE"
definition LARGE_SIZE_MAX_REGION :: nat where "LARGE_SIZE_MAX_REGION = 1048576"

lemmas size_consts = PAGE_SIZE_def NO_SMALL_SIZE_CLASSES_def NO_MEDIUM_SIZE_CLASSES_def
  NO_LARGE_SIZE_CLASSES_def SMALL_SIZE_CLASS_ALIGNMENT_def SMALL_SIZE_MIN_REGION_def
  SMALL_SIZE_MAX_REGION_def MEDIUM_SIZE_MIN_REGION_def MEDIUM_SIZE_MAX_REGION_def
  LARGE_SIZE_MIN_REGION_def LARGE_SIZE_MAX_REGION_def

definition IS_SIZE_SMALL :: "nat \<Rightarrow> bool" where
  "IS_SIZE_SMALL sz \<longleftrightarrow> 1 \<le> sz \<and> sz \<le> SMALL_SIZE_MAX_REGION"

definition IS_SIZE_MEDIUM :: "nat \<Rightarrow> bool" where
  "IS_SIZE_MEDIUM sz \<longleftrightarrow> SMALL_SIZE_MAX_REGION < sz \<and> sz \<le> MEDIUM_SIZE_MAX_REGION"

definition IS_SIZE_LARGE :: "nat \<Rightarrow> bool" where
  "IS_SIZE_LARGE sz \<longleftrightarrow> MEDIUM_SIZE_MAX_REGION < sz \<and> sz \<le> LARGE_SIZE_MAX_REGION"

definition IS_SIZE_HUGE :: "nat \<Rightarrow> bool" where
  "IS_SIZE_HUGE sz \<longleftrightarrow> LARGE_SIZE_MAX_REGION < sz"

lemmas size_tests = IS_SIZE_SMALL_def IS_SIZE_MEDIUM_def IS_SIZE_LARGE_def IS_SIZE_HUGE_def

definition ALIGNUP_SMALL_SIZE :: "'w::len word \<Rightarrow> 'w word" where
  "ALIGNUP_SMALL_SIZE n = (n + 15) AND NOT 15"

definition SIZE_TO_IDX_SMALL :: "nat \<Rightarrow> nat" where
  "SIZE_TO_IDX_SMALL n = sub32 (n div SMALL_SIZE_CLASS_ALIGNMENT) 1"

subsection \<open>Functions of size_class.c\<close>

definition ceil_div :: "nat \<Rightarrow> nat \<Rightarrow> nat" where
  "ceil_div a b = u32 (a div b + (if a mod b = 0 then 0 else 1))"

definition npow2 :: "nat \<Rightarrow> nat" where
  "npow2 n =
     (let n = (of_nat n :: 32 word) - 1;
          n = n OR drop_bit 1 n;
          n = n OR drop_bit 2 n;
          n = n OR drop_bit 4 n;
          n = n OR drop_bit 8 n;
          n = n OR drop_bit 16 n
      in unat (n + 1))"

definition alignup_large_size :: "nat \<Rightarrow> nat" where
  "alignup_large_size n =
     (let d = ceil_div n LARGE_SIZE_MIN_REGION in u32 (npow2 d * LARGE_SIZE_MIN_REGION))"

definition size_to_idx_large :: "nat \<Rightarrow> nat" where
  "size_to_idx_large n = ctz (n div LARGE_SIZE_MIN_REGION)"

definition alignup_medium_size :: "nat \<Rightarrow> nat" where
  "alignup_medium_size n =
     (let d = ceil_div n MEDIUM_SIZE_MIN_REGION in u32 (npow2 d * MEDIUM_SIZE_MIN_REGION))"

definition size_to_idx_medium :: "nat \<Rightarrow> nat" where
  "size_to_idx_medium n = ctz (n div MEDIUM_SIZE_MIN_REGION)"

definition is_size_aligned :: "nat \<Rightarrow> bool" where
  "is_size_aligned sz =
     (if IS_SIZE_SMALL sz then unat (ALIGNUP_SMALL_SIZE (of_nat sz :: 32 word)) = sz
      else if IS_SIZE_MEDIUM sz then alignup_medium_size sz = sz
      else alignup_large_size sz = sz)"

text \<open>
  The rounding chain that \<open>sealloc_malloc\<close> and \<open>sealloc_realloc\<close> both contain
  (\<open>src/src/sealloc.c\<close>); \<open>size\<close> is a \<open>size_t\<close>, the two calls narrow it to \<open>unsigned\<close>.
\<close>

definition aligned_size :: "nat \<Rightarrow> nat" where
  "aligned_size sz =
     (if IS_SIZE_SMALL sz then unat (ALIGNUP_SMALL_SIZE (of_nat sz :: 64 word))
      else if IS_SIZE_MEDIUM sz then alignup_medium_size (u32 sz)
      else alignup_large_size (u32 sz))"

subsection \<open>The next power of two\<close>

lemma smear_step:
  fixes m n :: "'w::len word"
  assumes "\<And>i. bit m i \<longleftrightarrow> (\<exists>j < w. bit n (i + j))"
  shows "bit (m OR drop_bit w m) i \<longleftrightarrow> (\<exists>j < 2 * w. bit n (i + j))"
proof -
  have "(\<exists>j < 2 * w. bit n (i + j)) \<longleftrightarrow> (\<exists>j < w. bit n (i + j)) \<or> (\<exists>j < w. bit n (w + i + j))"
    (is "?l \<longleftrightarrow> ?a \<or> ?b")
  proof
    assume ?l
    then obtain j where j: "j < 2 * w" "bit n (i + j)" by blast
    show "?a \<or> ?b"
    proof (cases "j < w")
      case False
      then have "j - w < w \<and> bit n (w + i + (j - w))" using j by (simp add: ac_simps)
      then show ?thesis by blast
    qed (use j in blast)
  next
    assume "?a \<or> ?b"
    then show ?l
    proof
      assume ?b
      then obtain j where "j < w" "bit n (i + (w + j))" by (auto simp: ac_simps)
      then show ?l by (intro exI [of _ "w + j"]) simp
    qed force
  qed
  then show ?thesis by (simp add: bit_or_iff bit_drop_bit_eq assms)
qed

lemma smear_mask:
  fixes m n :: "32 word"
  assumes "2 ^ k \<le> unat n" "unat n < 2 ^ Suc k" and m: "\<And>i. bit m i \<longleftrightarrow> (\<exists>j < 32. bit n (i + j))"
  shows "m = mask (Suc k)"
proof (rule bit_word_eqI)
  fix i
  assume "i < LENGTH(32)"
  have top: "bit n k"
  proof -
    have "unat n div 2 ^ k = 1" using assms(1,2) by (simp add: div_nat_eqI)
    then have "bit (unat n) k" by (simp add: bit_iff_odd)
    then show ?thesis by (simp add: bit_unsigned_iff)
  qed
  have none: "\<not> bit n j" if "k < j" for j
  proof
    assume "bit n j"
    then have "odd (unat n div 2 ^ j)" by (simp add: bit_unsigned_iff flip: bit_iff_odd)
    moreover have "unat n < 2 ^ j"
      using assms(2) that by (meson Suc_leI less_le_trans one_le_numeral power_increasing)
    ultimately show False by simp
  qed
  have "k < 32" using top bit_imp_le_length by fastforce
  then have "(\<exists>j < 32. bit n (i + j)) \<longleftrightarrow> i < Suc k"
  proof (intro iffI)
    assume "i < Suc k"
    then have "bit n (i + (k - i))" "k - i < 32" using top \<open>k < 32\<close> by simp_all
    then show "\<exists>j < 32. bit n (i + j)" by blast
  next
    assume "\<exists>j < 32. bit n (i + j)"
    then obtain j where "bit n (i + j)" by blast
    then have "\<not> k < i + j" using none by blast
    then show "i < Suc k" by simp
  qed
  with \<open>i < LENGTH(32)\<close> show "bit m i \<longleftrightarrow> bit (mask (Suc k) :: 32 word) i"
    by (simp add: m bit_mask_iff)
qed

lemma npow2_eq:
  assumes "2 ^ k < 2 * n" "n \<le> 2 ^ k" "k < 32"
  shows "npow2 n = 2 ^ k"
proof (cases k)
  case 0
  with assms have "n = 1" by simp
  then show ?thesis using 0 by (simp add: npow2_def)
next
  case (Suc l)
  have "n \<le> 2 ^ 31" using assms(2,3) power_increasing [of k 31 "2 :: nat"] by simp
  moreover have "2 \<le> n" using assms(1) Suc by (cases "n = 1") auto
  ultimately have n1: "unat ((of_nat n :: 32 word) - 1) = n - 1"
    by (simp add: unat_sub_if' unat_of_nat)
  define m where "m = (let n = (of_nat n :: 32 word) - 1; n = n OR drop_bit 1 n; n = n OR drop_bit 2 n;
    n = n OR drop_bit 4 n; n = n OR drop_bit 8 n in n OR drop_bit 16 n)"
  have m: "bit m i \<longleftrightarrow> (\<exists>j < 32. bit ((of_nat n :: 32 word) - 1) (i + j))" for i
    unfolding m_def Let_def
    using smear_step [OF smear_step [OF smear_step [OF smear_step [OF smear_step
      [of "(of_nat n :: 32 word) - 1" 1 "(of_nat n :: 32 word) - 1"]]]]]
    by simp
  have "m = mask (Suc l)"
    using assms Suc \<open>2 \<le> n\<close> by (intro smear_mask [OF _ _ m]) (simp_all add: n1)
  then have "npow2 n = unat (mask k + 1 :: 32 word)"
    by (simp add: npow2_def m_def Let_def Suc)
  also have "\<dots> = 2 ^ k"
  proof -
    have "k \<le> LENGTH(32)" using assms(3) by simp
    then have "unat (mask k :: 32 word) = mask k" by (rule unat_mask)
    then have "unat (mask k :: 32 word) = 2 ^ k - 1" by (simp only: mask_eq_exp_minus_1)
    moreover have "(2 :: nat) ^ k < 2 ^ 32" using assms(3) by (intro power_strict_increasing) simp_all
    ultimately show ?thesis by (simp add: unat_word_ariths)
  qed
  finally show ?thesis .
qed

subsection \<open>Rounding up to a size class\<close>

definition small_classes :: "nat list" where "small_classes = map (\<lambda>i. 16 * Suc i) [0..<32]"
definition medium_classes :: "nat list" where "medium_classes = map (\<lambda>i. 1024 * 2 ^ i) [0..<4]"
definition large_classes :: "nat list" where "large_classes = map (\<lambda>i. 16384 * 2 ^ i) [0..<7]"

definition size_classes :: "nat list" where
  "size_classes = small_classes @ medium_classes @ large_classes"

lemma set_small_classes: "c \<in> set small_classes \<longleftrightarrow> (\<exists>i < 32. c = 16 * Suc i)"
  by (auto simp: small_classes_def)

lemma set_medium_classes: "c \<in> set medium_classes \<longleftrightarrow> (\<exists>i < 4. c = 1024 * 2 ^ i)"
  by (auto simp: medium_classes_def)

lemma set_large_classes: "c \<in> set large_classes \<longleftrightarrow> (\<exists>i < 7. c = 16384 * 2 ^ i)"
  by (auto simp: large_classes_def)

lemmas set_classes = set_small_classes set_medium_classes set_large_classes

lemma power_bounds: "i < Suc m \<Longrightarrow> (2 :: nat) ^ i \<le> 2 ^ m \<and> 1 \<le> (2 :: nat) ^ i"
  by (simp add: power_increasing)

lemma small_class_bounds: "c \<in> set small_classes \<Longrightarrow> 16 \<le> c \<and> c \<le> 512"
  by (auto simp: set_small_classes)

lemma medium_class_bounds: "c \<in> set medium_classes \<Longrightarrow> 1024 \<le> c \<and> c \<le> 8192"
  using power_bounds [of _ 3] by (fastforce simp: set_medium_classes)

lemma large_class_bounds: "c \<in> set large_classes \<Longrightarrow> 16384 \<le> c \<and> c \<le> 1048576"
  using power_bounds [of _ 6] by (fastforce simp: set_large_classes)

lemma ceil_div_le_iff:
  assumes "0 < u" "n < 4294967296"
  shows "ceil_div n u \<le> m \<longleftrightarrow> n \<le> u * m"
proof -
  have "n div u + (if n mod u = 0 then 0 else 1) \<le> n"
  proof (cases "n mod u = 0")
    case False
    then have "u \<noteq> 1" "0 < n" by (auto intro: gr0I)
    then have "n div u < n" using assms(1) by (intro div_less_dividend) simp_all
    with False show ?thesis by simp
  qed simp
  then have "ceil_div n u = n div u + (if n mod u = 0 then 0 else 1)"
    using assms(2) by (simp add: ceil_div_def wrap_simps)
  also have "\<dots> \<le> m \<longleftrightarrow> n \<le> u * m"
  proof (cases "n mod u = 0")
    case True
    then obtain q where "n = u * q" by auto
    then show ?thesis using assms(1) by simp
  next
    case False
    have "n div u < m \<longleftrightarrow> n < u * m" using assms(1) by (simp add: less_mult_imp_div_less div_less_iff_less_mult mult.commute)
    moreover have "n \<noteq> u * m" using False by auto
    ultimately show ?thesis using False by auto
  qed
  finally show ?thesis .
qed

lemma pow2_above: "1 \<le> d \<Longrightarrow> \<exists>k. d \<le> 2 ^ k \<and> 2 ^ k < 2 * (d :: nat)"
proof -
  assume "1 \<le> d"
  define k where "k = (LEAST k. d \<le> 2 ^ k)"
  have "d \<le> 2 ^ d" by (rule less_imp_le) (rule less_exp)
  then have k: "d \<le> 2 ^ k" unfolding k_def by (rule LeastI)
  have "2 ^ k < 2 * d"
  proof (cases k)
    case 0
    with \<open>1 \<le> d\<close> show ?thesis by simp
  next
    case (Suc l)
    then have "\<not> d \<le> 2 ^ l" using not_less_Least [of l "\<lambda>k. d \<le> 2 ^ k"] by (simp add: k_def)
    with Suc show ?thesis by simp
  qed
  with k show ?thesis by blast
qed

text \<open>Rounding to a power-of-two multiple of a unit: the shape of the medium and large classes.\<close>

lemma npow2_unit:
  assumes "0 < u" "1 \<le> n" "n \<le> u * 2 ^ m" "m < 32" "n < 4294967296"
  obtains k where "k \<le> m" "npow2 (ceil_div n u) = 2 ^ k" "n \<le> u * 2 ^ k"
    "\<And>l. n \<le> u * 2 ^ l \<Longrightarrow> k \<le> l"
proof -
  let ?d = "ceil_div n u"
  have d: "?d \<le> x \<longleftrightarrow> n \<le> u * x" for x using assms by (intro ceil_div_le_iff)
  have "1 \<le> ?d" using d [of 0] assms(2) by simp
  then obtain k where k: "?d \<le> 2 ^ k" "2 ^ k < 2 * ?d" using pow2_above by blast
  have least: "k \<le> l" if "n \<le> u * 2 ^ l" for l
  proof -
    have "?d \<le> 2 ^ l" using that d by simp
    with k(2) have "(2 :: nat) ^ k < 2 ^ Suc l" by simp
    then show ?thesis using power_less_imp_less_exp [of "2 :: nat" k "Suc l"] by simp
  qed
  have "npow2 ?d = 2 ^ k" using k least [OF assms(3)] assms(4) by (intro npow2_eq) simp_all
  with least [OF assms(3)] k(1) least d that show ?thesis by blast
qed

lemma ALIGNUP_SMALL_SIZE_64:
  assumes "n + 15 < 18446744073709551616"
  shows "unat (ALIGNUP_SMALL_SIZE (of_nat n :: 64 word)) = (n + 15) div 16 * 16"
proof -
  have "unat (of_nat n :: 64 word) = n" using assms by (simp add: unat_of_nat)
  moreover have "(15 :: 64 word) = mask 4" by (simp add: mask_eq_exp_minus_1)
  ultimately show ?thesis
    using unat_alignup [of "15 :: 64 word" 4 "of_nat n"] assms by (simp add: ALIGNUP_SMALL_SIZE_def)
qed

lemma ALIGNUP_SMALL_SIZE_32:
  assumes "n + 15 < 4294967296"
  shows "unat (ALIGNUP_SMALL_SIZE (of_nat n :: 32 word)) = (n + 15) div 16 * 16"
proof -
  have "unat (of_nat n :: 32 word) = n" using assms by (simp add: unat_of_nat)
  moreover have "(15 :: 32 word) = mask 4" by (simp add: mask_eq_exp_minus_1)
  ultimately show ?thesis
    using unat_alignup [of "15 :: 32 word" 4 "of_nat n"] assms by (simp add: ALIGNUP_SMALL_SIZE_def)
qed

text \<open>\<open>aligned_size\<close> is the least class that holds the request, class group by class group.\<close>

lemma aligned_small:
  assumes "IS_SIZE_SMALL n"
  shows "aligned_size n \<in> set small_classes \<and> n \<le> aligned_size n \<and>
         (\<forall>c \<in> set small_classes. n \<le> c \<longrightarrow> aligned_size n \<le> c)"
proof -
  have n: "1 \<le> n" "n \<le> 512" using assms by (auto simp: size_tests size_consts)
  have eq: "aligned_size n = (n + 15) div 16 * 16"
    using assms n by (simp add: aligned_size_def ALIGNUP_SMALL_SIZE_64)
  have "n + 15 = (n - 1) + 16" using n by simp
  then have "(n + 15) div 16 = Suc ((n - 1) div 16)" by (simp only: div_add_self2)
  moreover have "(n - 1) div 16 < 32" using n by (intro less_mult_imp_div_less) simp
  moreover have "n \<le> (n + 15) div 16 * 16" by linarith
  moreover have "(n + 15) div 16 * 16 \<le> 16 * Suc i" if "n \<le> 16 * Suc i" for i
  proof -
    have "(n + 15) div 16 < Suc (Suc i)" using that by (intro less_mult_imp_div_less) simp
    then show ?thesis by simp
  qed
  ultimately have "\<exists>i < 32. (n + 15) div 16 * 16 = 16 * Suc i" "n \<le> (n + 15) div 16 * 16"
    "\<forall>i. n \<le> 16 * Suc i \<longrightarrow> (n + 15) div 16 * 16 \<le> 16 * Suc i"
    by (auto intro!: exI [of _ "(n - 1) div 16"])
  then show ?thesis unfolding eq by (auto simp only: set_small_classes)
qed

lemma aligned_unit:
  assumes "0 < u" "1 \<le> n" "n \<le> u * 2 ^ m" "m < 32" "u * 2 ^ m < 4294967296"
  shows "(\<exists>k \<le> m. u32 (npow2 (ceil_div n u) * u) = u * 2 ^ k) \<and> n \<le> u32 (npow2 (ceil_div n u) * u) \<and>
         (\<forall>l. n \<le> u * 2 ^ l \<longrightarrow> u32 (npow2 (ceil_div n u) * u) \<le> u * 2 ^ l)"
proof -
  obtain k where k: "k \<le> m" "npow2 (ceil_div n u) = 2 ^ k" "n \<le> u * 2 ^ k"
    "\<And>l. n \<le> u * 2 ^ l \<Longrightarrow> k \<le> l"
    using npow2_unit [OF assms(1-4)] assms(3,5) by (metis le_less_trans)
  have "u * 2 ^ k \<le> u * 2 ^ m" using k(1) by simp
  then have "u * 2 ^ k < 4294967296" using assms(5) by (rule le_less_trans)
  then have eq: "u32 (npow2 (ceil_div n u) * u) = u * 2 ^ k"
    using k(2) by (simp add: wrap_simps mult.commute)
  show ?thesis unfolding eq using k by auto
qed

lemma aligned_medium:
  assumes "IS_SIZE_MEDIUM n"
  shows "aligned_size n \<in> set medium_classes \<and> n \<le> aligned_size n \<and>
         (\<forall>c \<in> set medium_classes. n \<le> c \<longrightarrow> aligned_size n \<le> c)"
proof -
  have n: "512 < n" "n \<le> 8192" using assms by (auto simp: size_tests size_consts)
  have eq: "aligned_size n = u32 (npow2 (ceil_div n 1024) * 1024)"
    using assms n by (simp add: aligned_size_def alignup_medium_size_def size_tests size_consts wrap_simps)
  have "\<exists>k \<le> 3. u32 (npow2 (ceil_div n 1024) * 1024) = 1024 * 2 ^ k" "n \<le> u32 (npow2 (ceil_div n 1024) * 1024)"
    "\<forall>l. n \<le> 1024 * 2 ^ l \<longrightarrow> u32 (npow2 (ceil_div n 1024) * 1024) \<le> 1024 * 2 ^ l"
    using aligned_unit [of 1024 n 3] n by auto
  then show ?thesis unfolding eq by (auto simp: set_medium_classes less_Suc_eq_le [of _ 3, simplified])
qed

lemma aligned_large:
  assumes "IS_SIZE_LARGE n"
  shows "aligned_size n \<in> set large_classes \<and> n \<le> aligned_size n \<and>
         (\<forall>c \<in> set large_classes. n \<le> c \<longrightarrow> aligned_size n \<le> c)"
proof -
  have n: "8192 < n" "n \<le> 1048576" using assms by (auto simp: size_tests size_consts)
  have eq: "aligned_size n = u32 (npow2 (ceil_div n 16384) * 16384)"
    using assms n by (simp add: aligned_size_def alignup_large_size_def size_tests size_consts wrap_simps)
  have "\<exists>k \<le> 6. u32 (npow2 (ceil_div n 16384) * 16384) = 16384 * 2 ^ k" "n \<le> u32 (npow2 (ceil_div n 16384) * 16384)"
    "\<forall>l. n \<le> 16384 * 2 ^ l \<longrightarrow> u32 (npow2 (ceil_div n 16384) * 16384) \<le> 16384 * 2 ^ l"
    using aligned_unit [of 16384 n 6] n by auto
  then show ?thesis unfolding eq by (auto simp: set_large_classes less_Suc_eq_le [of _ 6, simplified])
qed

lemma size_group_cases:
  assumes "1 \<le> n" "n \<le> LARGE_SIZE_MAX_REGION"
  obtains "IS_SIZE_SMALL n" | "IS_SIZE_MEDIUM n" | "IS_SIZE_LARGE n"
  using assms by (force simp: size_tests)

lemma aligned_size_least:
  assumes "1 \<le> n" "n \<le> LARGE_SIZE_MAX_REGION"
  shows "aligned_size n \<in> set size_classes" "n \<le> aligned_size n"
    "c \<in> set size_classes \<Longrightarrow> n \<le> c \<Longrightarrow> aligned_size n \<le> c"
proof -
  have "aligned_size n \<in> set size_classes \<and> n \<le> aligned_size n \<and>
        (\<forall>c \<in> set size_classes. n \<le> c \<longrightarrow> aligned_size n \<le> c)"
    using assms
  proof (cases rule: size_group_cases)
    case 1
    then have "n \<le> 512" by (simp add: size_tests size_consts)
    then show ?thesis using aligned_small [OF 1] small_class_bounds medium_class_bounds large_class_bounds
      by (fastforce simp: size_classes_def)
  next
    case 2
    then have "512 < n" by (simp add: size_tests size_consts)
    then show ?thesis using aligned_medium [OF 2] small_class_bounds medium_class_bounds large_class_bounds
      by (fastforce simp: size_classes_def)
  next
    case 3
    then have "8192 < n" by (simp add: size_tests size_consts)
    then show ?thesis using aligned_large [OF 3] small_class_bounds medium_class_bounds
      by (fastforce simp: size_classes_def)
  qed
  then show "aligned_size n \<in> set size_classes" "n \<le> aligned_size n"
    "c \<in> set size_classes \<Longrightarrow> n \<le> c \<Longrightarrow> aligned_size n \<le> c"
    by auto
qed

lemma size_class_bounds: "c \<in> set size_classes \<Longrightarrow> 16 \<le> c \<and> c \<le> 1048576"
  using small_class_bounds medium_class_bounds large_class_bounds by (fastforce simp: size_classes_def)

lemma aligned_size_fixed:
  "c \<in> set size_classes \<Longrightarrow> aligned_size c = c"
  using size_class_bounds [of c] aligned_size_least [of c]
  by (auto simp: size_consts intro!: antisym)

lemma is_size_aligned_eq:
  assumes "n \<le> LARGE_SIZE_MAX_REGION"
  shows "is_size_aligned n \<longleftrightarrow> aligned_size n = n"
  using assms
  by (auto simp: is_size_aligned_def aligned_size_def size_tests size_consts wrap_simps
      ALIGNUP_SMALL_SIZE_64 ALIGNUP_SMALL_SIZE_32)

lemma is_size_aligned_iff:
  assumes "1 \<le> n" "n \<le> LARGE_SIZE_MAX_REGION"
  shows "is_size_aligned n \<longleftrightarrow> n \<in> set size_classes"
  using assms aligned_size_least(1) [OF assms] aligned_size_fixed [of n]
  by (auto simp: is_size_aligned_eq)

subsection \<open>Indices of the classes\<close>

lemma SIZE_TO_IDX_SMALL_class: "i < 32 \<Longrightarrow> SIZE_TO_IDX_SMALL (16 * Suc i) = i"
  by (simp add: SIZE_TO_IDX_SMALL_def size_consts wrap_simps)

lemma size_to_idx_medium_class: "i < 4 \<Longrightarrow> size_to_idx_medium (1024 * 2 ^ i) = i"
  by (simp add: size_to_idx_medium_def size_consts ctz_power)

lemma size_to_idx_large_class: "i < 7 \<Longrightarrow> size_to_idx_large (16384 * 2 ^ i) = i"
  by (simp add: size_to_idx_large_def size_consts ctz_power)

lemma class_tests:
  "c \<in> set small_classes \<Longrightarrow> IS_SIZE_SMALL c"
  "c \<in> set medium_classes \<Longrightarrow> \<not> IS_SIZE_SMALL c \<and> IS_SIZE_MEDIUM c"
  "c \<in> set large_classes \<Longrightarrow> \<not> IS_SIZE_SMALL c \<and> \<not> IS_SIZE_MEDIUM c \<and> IS_SIZE_LARGE c"
  using small_class_bounds [of c] medium_class_bounds [of c] large_class_bounds [of c]
  by (auto simp: size_tests size_consts)

subsection \<open>Properties\<close>

text \<open>C23: every request of 1 byte to 1 MB is rounded up to the least of the 43 size
  classes that holds it, and the result passes the library's own \<open>is_size_aligned\<close>.\<close>

theorem aligned_size_correct:
  assumes "1 \<le> n" "n \<le> LARGE_SIZE_MAX_REGION"
  shows "aligned_size n \<in> set size_classes \<and> n \<le> aligned_size n
    \<and> (\<forall>c \<in> set size_classes. n \<le> c \<longrightarrow> aligned_size n \<le> c)
    \<and> is_size_aligned (aligned_size n)"
proof -
  note least = aligned_size_least [OF assms]
  have "aligned_size n \<le> LARGE_SIZE_MAX_REGION" "1 \<le> aligned_size n"
    using size_class_bounds [OF least(1)] by (simp_all add: size_consts)
  with least show ?thesis by (auto simp: is_size_aligned_iff)
qed

theorem aligned_size_correct_witness:
  "1025 \<le> aligned_size 1025 \<and> aligned_size 1025 \<le> 2048 \<and> is_size_aligned (aligned_size 1025)"
proof -
  have "2048 \<in> set medium_classes" unfolding set_medium_classes by (rule exI [of _ 1]) simp
  then have c: "2048 \<in> set size_classes" by (simp add: size_classes_def)
  have r: "1025 \<le> aligned_size 1025 \<and> (\<forall>c \<in> set size_classes. 1025 \<le> c \<longrightarrow> aligned_size 1025 \<le> c) \<and> is_size_aligned (aligned_size 1025)"
    using aligned_size_correct [of 1025] by (simp add: size_consts)
  then have "(1025 :: nat) \<le> 2048 \<longrightarrow> aligned_size 1025 \<le> 2048" using c by (blast dest: bspec)
  then show ?thesis using r by simp
qed

text \<open>For every \<open>n\<close> in the range where a 32-bit power of two above it exists, the bit
  smearing of \<open>npow2\<close> returns the least power of two that is at least \<open>n\<close>.\<close>

theorem npow2_correct:
  assumes "1 \<le> n" "n \<le> 2 ^ 31"
  shows "(\<exists>k \<le> 31. npow2 n = 2 ^ k) \<and> n \<le> npow2 n \<and> (\<forall>l. n \<le> 2 ^ l \<longrightarrow> npow2 n \<le> 2 ^ l)"
proof -
  have c: "ceil_div n 1 = n" using assms by (simp add: ceil_div_def wrap_simps)
  obtain k where k: "k \<le> 31" "npow2 n = 2 ^ k" "n \<le> 2 ^ k" "\<And>l. n \<le> 2 ^ l \<Longrightarrow> k \<le> l"
    using npow2_unit [of 1 n 31] assms c by auto
  then show ?thesis by (auto intro: exI [of _ k])
qed

theorem npow2_correct_witness: "1000 \<le> npow2 1000 \<and> npow2 1000 \<le> 1024"
proof -
  have r: "1000 \<le> npow2 1000 \<and> (\<forall>l. (1000 :: nat) \<le> 2 ^ l \<longrightarrow> npow2 1000 \<le> 2 ^ l)" using npow2_correct [of 1000] by simp
  then have "(1000 :: nat) \<le> 2 ^ 10 \<longrightarrow> npow2 1000 \<le> 2 ^ 10" by (blast dest: spec)
  then show ?thesis using r by simp
qed

end
