(* ===== verification/Metadata.thy ===== *)
theory Metadata
  imports Container_LL Size_Class
begin

text \<open>
  The metadata of bins and runs (\<open>src/src/sealloc/bin.h\<close>, \<open>src/src/sealloc/run.h\<close>) and
  \<open>bin_init\<close> of \<open>src/src/bin.c\<close>, which fixes the geometry of every run of a bin: its
  pages, the region size and the number of regions.
\<close>

definition RUN_SIZE_SMALL_BYTES :: nat where "RUN_SIZE_SMALL_BYTES = 16384"
definition RUN_SIZE_MEDIUM_BYTES :: nat where "RUN_SIZE_MEDIUM_BYTES = 16384"
definition RUN_SIZE_SMALL_PAGES :: nat where "RUN_SIZE_SMALL_PAGES = RUN_SIZE_SMALL_BYTES div PAGE_SIZE"
definition RUN_SIZE_MEDIUM_PAGES :: nat where "RUN_SIZE_MEDIUM_PAGES = RUN_SIZE_MEDIUM_BYTES div PAGE_SIZE"
definition BIN_MINIMUM_REGIONS :: nat where "BIN_MINIMUM_REGIONS = 256"

lemmas run_consts = RUN_SIZE_SMALL_BYTES_def RUN_SIZE_MEDIUM_BYTES_def RUN_SIZE_SMALL_PAGES_def
  RUN_SIZE_MEDIUM_PAGES_def

text \<open>\<open>reg_bitmap\<close> is the flexible array member at the end of the struct.\<close>

record run_t = ll_entry +
  navail :: nat
  nfreed :: nat
  gen :: nat
  current_idx :: nat
  reg_bitmap :: "8 word list"

record bin_t =
  run_list_inactive :: addr
  run_list_active :: addr
  run_list_active_cnt :: nat
  avail_regs :: nat
  reg_size :: nat
  run_size_pages :: nat
  reg_mask_size_bits :: nat

definition bin_init :: "bin_t \<Rightarrow> nat \<Rightarrow> bin_t res" where
  "bin_init bin sz =
     (let bin = bin\<lparr>run_list_inactive := ll_init, run_list_active := ll_init\<rparr>;
          bin = bin\<lparr>run_size_pages :=
                  (if IS_SIZE_SMALL sz then RUN_SIZE_SMALL_PAGES
                   else if IS_SIZE_MEDIUM sz then RUN_SIZE_MEDIUM_PAGES
                   else sz div PAGE_SIZE)\<rparr>;
          bin = bin\<lparr>reg_size := sz, avail_regs := 0\<rparr>
      in if sz = 0 then fail DivByZero
         else ret (bin\<lparr>reg_mask_size_bits := u32 (u32 (run_size_pages bin * PAGE_SIZE) div sz * 2),
                       run_list_active_cnt := 0\<rparr>))"

subsection \<open>Geometry of an initialised bin\<close>

definition class_pages :: "nat \<Rightarrow> nat" where
  "class_pages c = (if c \<le> 8192 then 4 else c div 4096)"

definition class_regions :: "nat \<Rightarrow> nat" where
  "class_regions c = (if c \<le> 8192 then 16384 div c else 1)"

definition bin_wf :: "bin_t \<Rightarrow> bool" where
  "bin_wf b \<longleftrightarrow> reg_size b \<in> set size_classes \<and> run_size_pages b = class_pages (reg_size b)
     \<and> reg_mask_size_bits b = 2 * class_regions (reg_size b)"

abbreviation regions :: "bin_t \<Rightarrow> nat" where
  "regions b \<equiv> reg_mask_size_bits b div 2"

lemma size_class_cases:
  assumes "c \<in> set size_classes"
  obtains (small) i where "i < 32" "c = 16 * Suc i" "c \<le> 512"
  | (medium) i where "i < 4" "c = 1024 * 2 ^ i" "1024 \<le> c" "c \<le> 8192"
  | (large) i where "i < 7" "c = 16384 * 2 ^ i" "16384 \<le> c" "c \<le> 1048576"
  using assms medium_class_bounds [of c] large_class_bounds [of c]
  by (auto simp: size_classes_def set_classes)

lemma size_class_dvd: "c \<in> set size_classes \<Longrightarrow> 16 dvd c"
  by (erule size_class_cases) (auto intro: dvd_mult2)

lemma class_regions_pos: "c \<in> set size_classes \<Longrightarrow> 0 < class_regions c"
  using size_class_bounds [of c] by (auto simp: class_regions_def div_greater_zero_iff)

lemma class_regions_le: "c \<in> set size_classes \<Longrightarrow> class_regions c \<le> 1024"
  using size_class_bounds [of c] div_le_mono2 [of 16 c 16384] by (auto simp: class_regions_def)

lemma class_pages_le: "c \<in> set size_classes \<Longrightarrow> 4 \<le> class_pages c \<and> class_pages c \<le> 256"
  by (erule size_class_cases) (auto simp: class_pages_def)

lemma class_run_bytes: "c \<in> set size_classes \<Longrightarrow> class_pages c * 4096 = (if c \<le> 8192 then 16384 else c)"
  by (erule size_class_cases) (auto simp: class_pages_def elim: less_imp_le)

lemma class_regions_fit: "c \<in> set size_classes \<Longrightarrow> class_regions c * c \<le> class_pages c * 4096"
  by (auto simp: class_run_bytes class_regions_def)

lemma class_regions_eq:
  "c \<in> set size_classes \<Longrightarrow> class_regions c = class_pages c * 4096 div c"
  using size_class_bounds [of c] by (auto simp: class_run_bytes class_regions_def)

lemma bin_init_wf:
  assumes "sz \<in> set size_classes"
  shows "\<exists>b'. bin_init b sz = ret b' \<and> bin_wf b' \<and> reg_size b' = sz \<and> avail_regs b' = 0
     \<and> run_list_active b' = 0 \<and> run_list_inactive b' = 0 \<and> run_list_active_cnt b' = 0"
proof -
  have pages: "(if IS_SIZE_SMALL sz then RUN_SIZE_SMALL_PAGES
        else if IS_SIZE_MEDIUM sz then RUN_SIZE_MEDIUM_PAGES else sz div PAGE_SIZE) = class_pages sz"
    using size_class_bounds [OF assms] by (auto simp: class_pages_def size_tests size_consts run_consts)
  have "u32 (class_pages sz * PAGE_SIZE) = class_pages sz * 4096"
    using class_pages_le [OF assms] by (simp add: size_consts wrap_simps)
  moreover have "class_regions sz * 2 < 4294967296" using class_regions_le [OF assms] by simp
  ultimately have "u32 (u32 (class_pages sz * PAGE_SIZE) div sz * 2) = 2 * class_regions sz"
    using class_regions_eq [OF assms] by (simp add: wrap_simps)
  then show ?thesis
    using assms size_class_bounds [OF assms]
    by (auto simp: bin_init_def Let_def pages bin_wf_def ll_init_def)
qed

lemma bin_wf_regions:
  assumes "bin_wf b"
  shows "regions b = class_regions (reg_size b)" "0 < regions b" "regions b \<le> 1024"
    "0 < reg_size b" "regions b * reg_size b \<le> run_size_pages b * 4096" "reg_size b \<le> 1048576"
    "reg_mask_size_bits b = 2 * regions b"
  using assms class_regions_pos [of "reg_size b"] class_regions_le [of "reg_size b"]
    size_class_bounds [of "reg_size b"] class_regions_fit [of "reg_size b"]
  by (auto simp: bin_wf_def)

end
