(* ===== verification/Splitmix.thy ===== *)
theory Splitmix
  imports Prelude
begin

text \<open>
  \<open>src/src/random.c\<close>: the two splitmix generators. The file keeps one static word per
  generator; here a call takes that word and returns the result together with its new
  value. The lemmas show that the output function is injective and that the state visits
  every word, so a full period yields every value exactly once.
\<close>

subsection \<open>The generators\<close>

record rng =
  state32 :: "32 word"
  state64 :: "64 word"

definition init_splitmix32 :: "32 word \<Rightarrow> rng \<Rightarrow> rng" where
  "init_splitmix32 seed g = g\<lparr>state32 := seed\<rparr>"

definition init_splitmix64 :: "64 word \<Rightarrow> rng \<Rightarrow> rng" where
  "init_splitmix64 seed g = g\<lparr>state64 := seed\<rparr>"

definition splitmix32 :: "rng \<Rightarrow> 32 word \<times> rng" where
  "splitmix32 g =
     (let s = state32 g + 0x9e3779b9;
          z = (s XOR drop_bit 16 s) * 0x21f0aaad;
          z = (z XOR drop_bit 15 z) * 0x735a2d97
      in (z XOR drop_bit 15 z, g\<lparr>state32 := s\<rparr>))"

definition splitmix64 :: "rng \<Rightarrow> 64 word \<times> rng" where
  "splitmix64 g =
     (let s = state64 g + 0x9e3779b97f4a7c15;
          z = s;
          z = (z XOR drop_bit 30 z) * 0xbf58476d1ce4e5b9;
          z = (z XOR drop_bit 27 z) * 0x94d049bb133111eb
      in (z XOR drop_bit 31 z, g\<lparr>state64 := s\<rparr>))"

text \<open>The values of successive calls.\<close>

fun splitmix32_seq :: "nat \<Rightarrow> rng \<Rightarrow> 32 word list" where
  "splitmix32_seq 0 g = []"
| "splitmix32_seq (Suc n) g = (case splitmix32 g of (r, g') \<Rightarrow> r # splitmix32_seq n g')"

fun splitmix64_seq :: "nat \<Rightarrow> rng \<Rightarrow> 64 word list" where
  "splitmix64_seq 0 g = []"
| "splitmix64_seq (Suc n) g = (case splitmix64 g of (r, g') \<Rightarrow> r # splitmix64_seq n g')"

subsection \<open>Each mixing step is injective\<close>

lemma xorshift_bits:
  fixes x y :: "'w::len word"
  assumes eq: "x XOR drop_bit k x = y XOR drop_bit k y" and "0 < k"
  shows "bit x n \<longleftrightarrow> bit y n"
proof (induction "LENGTH('w) - n" arbitrary: n rule: less_induct)
  case less
  show ?case
  proof (cases "n < LENGTH('w)")
    case True
    then have "LENGTH('w) - (k + n) < LENGTH('w) - n" using \<open>0 < k\<close> by simp
    then have "bit x (k + n) \<longleftrightarrow> bit y (k + n)" by (rule less)
    moreover have "bit (x XOR drop_bit k x) n \<longleftrightarrow> bit (y XOR drop_bit k y) n"
      by (simp only: eq)
    ultimately show ?thesis by (simp add: bit_xor_iff bit_drop_bit_eq) blast
  next
    case False
    then show ?thesis by (auto dest: bit_imp_le_length)
  qed
qed

lemma inj_xorshift: "0 < k \<Longrightarrow> inj (\<lambda>x :: 'w::len word. x XOR drop_bit k x)"
  by (rule injI, rule bit_word_eqI) (rule xorshift_bits)

lemma inj_mult_unit:
  fixes c :: "'a::comm_ring_1"
  assumes "d * c = 1"
  shows "inj (\<lambda>x. x * c)"
proof (rule injI)
  fix x y assume "x * c = y * c"
  then have "x * c * d = y * c * d" by simp
  with assms show "x = y" by (simp add: mult.assoc mult.commute [of c d])
qed

definition mix32 :: "32 word \<Rightarrow> 32 word" where
  "mix32 s =
     (let z = (s XOR drop_bit 16 s) * 0x21f0aaad;
          z = (z XOR drop_bit 15 z) * 0x735a2d97
      in z XOR drop_bit 15 z)"

definition mix64 :: "64 word \<Rightarrow> 64 word" where
  "mix64 s =
     (let z = (s XOR drop_bit 30 s) * 0xbf58476d1ce4e5b9;
          z = (z XOR drop_bit 27 z) * 0x94d049bb133111eb
      in z XOR drop_bit 31 z)"

lemma splitmix32_eq:
  "splitmix32 g = (mix32 (state32 g + 0x9e3779b9), g\<lparr>state32 := state32 g + 0x9e3779b9\<rparr>)"
  by (simp add: splitmix32_def mix32_def Let_def)

lemma splitmix64_eq:
  "splitmix64 g =
     (mix64 (state64 g + 0x9e3779b97f4a7c15), g\<lparr>state64 := state64 g + 0x9e3779b97f4a7c15\<rparr>)"
  by (simp add: splitmix64_def mix64_def Let_def)

lemma inj_mix32: "inj mix32"
proof -
  have "inj ((\<lambda>z. z XOR drop_bit 15 z) \<circ> (\<lambda>z. z * 0x735a2d97) \<circ> (\<lambda>z. z XOR drop_bit 15 z)
          \<circ> (\<lambda>z. z * 0x21f0aaad) \<circ> (\<lambda>z :: 32 word. z XOR drop_bit 16 z))"
    by (intro inj_compose inj_xorshift
        inj_mult_unit [of "2534613543"] inj_mult_unit [of "859588901"]) simp_all
  then show ?thesis by (simp add: mix32_def [abs_def] Let_def comp_def)
qed

lemma inj_mix64: "inj mix64"
proof -
  have "inj ((\<lambda>z. z XOR drop_bit 31 z) \<circ> (\<lambda>z. z * 0x94d049bb133111eb) \<circ> (\<lambda>z. z XOR drop_bit 27 z)
          \<circ> (\<lambda>z. z * 0xbf58476d1ce4e5b9) \<circ> (\<lambda>z :: 64 word. z XOR drop_bit 30 z))"
    by (intro inj_compose inj_xorshift
        inj_mult_unit [of "3573116690164977347"] inj_mult_unit [of "10871156337175269513"]) simp_all
  then show ?thesis by (simp add: mix64_def [abs_def] Let_def comp_def)
qed

subsection \<open>The state visits every word\<close>

lemma splitmix32_seq_eq:
  "splitmix32_seq n g = map (\<lambda>i. mix32 (state32 g + of_nat (Suc i) * 0x9e3779b9)) [0..<n]"
proof (induction n arbitrary: g)
  case 0
  show ?case by simp
next
  case (Suc n)
  show ?case
    by (simp add: splitmix32_eq Suc.IH upt_conv_Cons map_Suc_upt [symmetric] algebra_simps
        del: upt_Suc)
qed

lemma splitmix64_seq_eq:
  "splitmix64_seq n g = map (\<lambda>i. mix64 (state64 g + of_nat (Suc i) * 0x9e3779b97f4a7c15)) [0..<n]"
proof (induction n arbitrary: g)
  case 0
  show ?case by simp
next
  case (Suc n)
  show ?case
    by (simp add: splitmix64_eq Suc.IH upt_conv_Cons map_Suc_upt [symmetric] algebra_simps
        del: upt_Suc)
qed

text \<open>An arithmetic progression with invertible step does not repeat within a period.\<close>

lemma progression_inj:
  fixes s c d :: "'w::len word"
  assumes "d * c = 1"
  shows "inj_on (\<lambda>i. s + of_nat (Suc i) * c) {0..<2 ^ LENGTH('w)}"
proof (rule inj_onI)
  fix i j
  assume ij: "i \<in> {0..<2 ^ LENGTH('w)}" "j \<in> {0..<2 ^ LENGTH('w)}"
    and "s + of_nat (Suc i) * c = s + of_nat (Suc j) * c"
  then have "of_nat (Suc i) * c = of_nat (Suc j) * c" by simp
  then have "(of_nat (Suc i) :: 'w word) = of_nat (Suc j)"
    using inj_mult_unit [OF assms] by (blast dest: injD)
  then have "(of_nat i :: 'w word) = of_nat j" by simp
  with ij show "i = j" by (simp add: word_unat_eq_iff unat_of_nat)
qed

lemma progression_full:
  fixes s c d :: "'w::len word"
  assumes "d * c = 1" "inj mix"
  shows "distinct (map (\<lambda>i. mix (s + of_nat (Suc i) * c)) [0..<2 ^ LENGTH('w)])
         \<and> set (map (\<lambda>i. mix (s + of_nat (Suc i) * c)) [0..<2 ^ LENGTH('w)]) = (UNIV :: 'w word set)"
proof -
  let ?f = "\<lambda>i. mix (s + of_nat (Suc i) * c)"
  have inj: "inj_on ?f {0..<2 ^ LENGTH('w)}"
    using comp_inj_on [OF progression_inj [OF assms(1), of s] inj_on_subset [OF assms(2)]]
    by (simp add: comp_def)
  then have "card (?f ` {0..<2 ^ LENGTH('w)}) = card (UNIV :: 'w word set)"
    by (simp add: card_image card_word)
  then have "?f ` {0..<2 ^ LENGTH('w)} = UNIV"
    by (intro card_subset_eq) simp_all
  with inj show ?thesis by (simp add: distinct_map)
qed

subsection \<open>Properties\<close>

text \<open>From any seed, the first \<open>2 ^ 32\<close> calls of \<open>splitmix32\<close> return
  every 32-bit value exactly once.\<close>

theorem splitmix32_full_period:
  "distinct (splitmix32_seq (2 ^ 32) g) \<and> set (splitmix32_seq (2 ^ 32) g) = UNIV"
proof -
  have len: "LENGTH(32) = 32" by simp
  have "(340573321 :: 32 word) * 0x9e3779b9 = 1" by simp
  from progression_full [OF this inj_mix32, of "state32 g"] show ?thesis
    by (simp only: splitmix32_seq_eq len)
qed

text \<open>From any seed, the first \<open>2 ^ 64\<close> calls of \<open>splitmix64\<close> return
  every 64-bit value exactly once.\<close>

theorem splitmix64_full_period:
  "distinct (splitmix64_seq (2 ^ 64) g) \<and> set (splitmix64_seq (2 ^ 64) g) = UNIV"
proof -
  have len: "LENGTH(64) = 64" by simp
  have "(17428512612931826493 :: 64 word) * 0x9e3779b97f4a7c15 = 1" by simp
  from progression_full [OF this inj_mix64, of "state64 g"] show ?thesis
    by (simp only: splitmix64_seq_eq len)
qed

end
