(* ===== verification/Generator.thy ===== *)
theory Generator
  imports Prelude
begin

text \<open>
  \<open>src/src/sealloc/generator.h\<close>: for every small and medium size class the table of
  generators of the additive group of region indices. Only the initialised part of a row is
  listed; the rows of the C arrays are padded with zeros up to 512 and 8 columns.
\<close>

definition GENERATORS_SMALL_LENGTHS :: "nat list" where
  "GENERATORS_SMALL_LENGTHS =
    [512, 256, 300, 128, 64, 64, 72, 64, 112, 32, 60, 64, 24, 72, 32, 32, 16, 24, 52, 32, 16,
     22, 20, 12, 16, 24, 36, 12, 24, 16, 20, 16]"

definition GENERATORS_SMALL_0 :: "nat list" where
  "GENERATORS_SMALL_0 =
    [1, 3, 5, 7, 9, 11, 13, 15, 17, 19, 21, 23, 25, 27, 29, 31, 33, 35, 37, 39, 41, 43, 45, 47,
     49, 51, 53, 55, 57, 59, 61, 63, 65, 67, 69, 71, 73, 75, 77, 79, 81, 83, 85, 87, 89, 91, 93,
     95, 97, 99, 101, 103, 105, 107, 109, 111, 113, 115, 117, 119, 121, 123, 125, 127, 129, 131,
     133, 135, 137, 139, 141, 143, 145, 147, 149, 151, 153, 155, 157, 159, 161, 163, 165, 167,
     169, 171, 173, 175, 177, 179, 181, 183, 185, 187, 189, 191, 193, 195, 197, 199, 201, 203,
     205, 207, 209, 211, 213, 215, 217, 219, 221, 223, 225, 227, 229, 231, 233, 235, 237, 239,
     241, 243, 245, 247, 249, 251, 253, 255, 257, 259, 261, 263, 265, 267, 269, 271, 273, 275,
     277, 279, 281, 283, 285, 287, 289, 291, 293, 295, 297, 299, 301, 303, 305, 307, 309, 311,
     313, 315, 317, 319, 321, 323, 325, 327, 329, 331, 333, 335, 337, 339, 341, 343, 345, 347,
     349, 351, 353, 355, 357, 359, 361, 363, 365, 367, 369, 371, 373, 375, 377, 379, 381, 383,
     385, 387, 389, 391, 393, 395, 397, 399, 401, 403, 405, 407, 409, 411, 413, 415, 417, 419,
     421, 423, 425, 427, 429, 431, 433, 435, 437, 439, 441, 443, 445, 447, 449, 451, 453, 455,
     457, 459, 461, 463, 465, 467, 469, 471, 473, 475, 477, 479, 481, 483, 485, 487, 489, 491,
     493, 495, 497, 499, 501, 503, 505, 507, 509, 511, 513, 515, 517, 519, 521, 523, 525, 527,
     529, 531, 533, 535, 537, 539, 541, 543, 545, 547, 549, 551, 553, 555, 557, 559, 561, 563,
     565, 567, 569, 571, 573, 575, 577, 579, 581, 583, 585, 587, 589, 591, 593, 595, 597, 599,
     601, 603, 605, 607, 609, 611, 613, 615, 617, 619, 621, 623, 625, 627, 629, 631, 633, 635,
     637, 639, 641, 643, 645, 647, 649, 651, 653, 655, 657, 659, 661, 663, 665, 667, 669, 671,
     673, 675, 677, 679, 681, 683, 685, 687, 689, 691, 693, 695, 697, 699, 701, 703, 705, 707,
     709, 711, 713, 715, 717, 719, 721, 723, 725, 727, 729, 731, 733, 735, 737, 739, 741, 743,
     745, 747, 749, 751, 753, 755, 757, 759, 761, 763, 765, 767, 769, 771, 773, 775, 777, 779,
     781, 783, 785, 787, 789, 791, 793, 795, 797, 799, 801, 803, 805, 807, 809, 811, 813, 815,
     817, 819, 821, 823, 825, 827, 829, 831, 833, 835, 837, 839, 841, 843, 845, 847, 849, 851,
     853, 855, 857, 859, 861, 863, 865, 867, 869, 871, 873, 875, 877, 879, 881, 883, 885, 887,
     889, 891, 893, 895, 897, 899, 901, 903, 905, 907, 909, 911, 913, 915, 917, 919, 921, 923,
     925, 927, 929, 931, 933, 935, 937, 939, 941, 943, 945, 947, 949, 951, 953, 955, 957, 959,
     961, 963, 965, 967, 969, 971, 973, 975, 977, 979, 981, 983, 985, 987, 989, 991, 993, 995,
     997, 999, 1001, 1003, 1005, 1007, 1009, 1011, 1013, 1015, 1017, 1019, 1021, 1023]"

definition GENERATORS_SMALL_1 :: "nat list" where
  "GENERATORS_SMALL_1 =
    [1, 3, 5, 7, 9, 11, 13, 15, 17, 19, 21, 23, 25, 27, 29, 31, 33, 35, 37, 39, 41, 43, 45, 47,
     49, 51, 53, 55, 57, 59, 61, 63, 65, 67, 69, 71, 73, 75, 77, 79, 81, 83, 85, 87, 89, 91, 93,
     95, 97, 99, 101, 103, 105, 107, 109, 111, 113, 115, 117, 119, 121, 123, 125, 127, 129, 131,
     133, 135, 137, 139, 141, 143, 145, 147, 149, 151, 153, 155, 157, 159, 161, 163, 165, 167,
     169, 171, 173, 175, 177, 179, 181, 183, 185, 187, 189, 191, 193, 195, 197, 199, 201, 203,
     205, 207, 209, 211, 213, 215, 217, 219, 221, 223, 225, 227, 229, 231, 233, 235, 237, 239,
     241, 243, 245, 247, 249, 251, 253, 255, 257, 259, 261, 263, 265, 267, 269, 271, 273, 275,
     277, 279, 281, 283, 285, 287, 289, 291, 293, 295, 297, 299, 301, 303, 305, 307, 309, 311,
     313, 315, 317, 319, 321, 323, 325, 327, 329, 331, 333, 335, 337, 339, 341, 343, 345, 347,
     349, 351, 353, 355, 357, 359, 361, 363, 365, 367, 369, 371, 373, 375, 377, 379, 381, 383,
     385, 387, 389, 391, 393, 395, 397, 399, 401, 403, 405, 407, 409, 411, 413, 415, 417, 419,
     421, 423, 425, 427, 429, 431, 433, 435, 437, 439, 441, 443, 445, 447, 449, 451, 453, 455,
     457, 459, 461, 463, 465, 467, 469, 471, 473, 475, 477, 479, 481, 483, 485, 487, 489, 491,
     493, 495, 497, 499, 501, 503, 505, 507, 509, 511]"

definition GENERATORS_SMALL_2 :: "nat list" where
  "GENERATORS_SMALL_2 =
    [1, 2, 3, 4, 5, 6, 7, 8, 9, 10, 12, 13, 14, 15, 16, 17, 18, 19, 20, 21, 23, 24, 25, 26, 27,
     28, 29, 30, 32, 34, 35, 36, 37, 38, 39, 40, 41, 42, 43, 45, 46, 47, 48, 49, 50, 51, 52, 53,
     54, 56, 57, 58, 59, 60, 61, 63, 64, 65, 67, 68, 69, 70, 71, 72, 73, 74, 75, 76, 78, 79, 80,
     81, 82, 83, 84, 85, 86, 87, 89, 90, 91, 92, 94, 95, 96, 97, 98, 100, 101, 102, 103, 104,
     105, 106, 107, 108, 109, 111, 112, 113, 114, 115, 116, 117, 118, 119, 120, 122, 123, 125,
     126, 127, 128, 129, 130, 131, 133, 134, 135, 136, 137, 138, 139, 140, 141, 142, 144, 145,
     146, 147, 148, 149, 150, 151, 152, 153, 156, 157, 158, 159, 160, 161, 162, 163, 164, 166,
     167, 168, 169, 170, 171, 172, 173, 174, 175, 177, 178, 179, 180, 181, 182, 183, 184, 185,
     188, 189, 190, 191, 192, 193, 194, 195, 196, 197, 199, 200, 201, 202, 203, 204, 205, 206,
     207, 208, 210, 211, 212, 213, 214, 215, 216, 218, 219, 221, 222, 223, 224, 225, 226, 227,
     228, 229, 230, 232, 233, 234, 235, 236, 237, 238, 239, 240, 241, 243, 244, 245, 246, 247,
     249, 250, 251, 252, 254, 255, 256, 257, 258, 259, 260, 261, 262, 263, 265, 266, 267, 268,
     269, 270, 271, 272, 273, 274, 276, 277, 278, 280, 281, 282, 283, 284, 285, 287, 288, 289,
     290, 291, 292, 293, 294, 295, 296, 298, 299, 300, 301, 302, 303, 304, 305, 306, 307, 309,
     311, 312, 313, 314, 315, 316, 317, 318, 320, 321, 322, 323, 324, 325, 326, 327, 328, 329,
     331, 332, 333, 334, 335, 336, 337, 338, 339, 340]"

definition GENERATORS_SMALL_3 :: "nat list" where
  "GENERATORS_SMALL_3 =
    [1, 3, 5, 7, 9, 11, 13, 15, 17, 19, 21, 23, 25, 27, 29, 31, 33, 35, 37, 39, 41, 43, 45, 47,
     49, 51, 53, 55, 57, 59, 61, 63, 65, 67, 69, 71, 73, 75, 77, 79, 81, 83, 85, 87, 89, 91, 93,
     95, 97, 99, 101, 103, 105, 107, 109, 111, 113, 115, 117, 119, 121, 123, 125, 127, 129, 131,
     133, 135, 137, 139, 141, 143, 145, 147, 149, 151, 153, 155, 157, 159, 161, 163, 165, 167,
     169, 171, 173, 175, 177, 179, 181, 183, 185, 187, 189, 191, 193, 195, 197, 199, 201, 203,
     205, 207, 209, 211, 213, 215, 217, 219, 221, 223, 225, 227, 229, 231, 233, 235, 237, 239,
     241, 243, 245, 247, 249, 251, 253, 255]"

definition GENERATORS_SMALL_4 :: "nat list" where
  "GENERATORS_SMALL_4 =
    [1, 5, 7, 11, 13, 19, 23, 25, 29, 31, 35, 37, 41, 43, 47, 49, 53, 55, 59, 61, 65, 67, 71,
     73, 77, 79, 83, 89, 91, 95, 97, 101, 103, 107, 109, 113, 115, 121, 125, 127, 131, 133, 137,
     139, 143, 145, 149, 151, 155, 157, 161, 163, 167, 169, 173, 175, 179, 181, 185, 191, 193,
     197, 199, 203]"

definition GENERATORS_SMALL_5 :: "nat list" where
  "GENERATORS_SMALL_5 =
    [1, 3, 7, 9, 11, 13, 19, 21, 23, 27, 29, 31, 33, 37, 39, 41, 43, 47, 49, 53, 57, 59, 61, 63,
     67, 69, 71, 73, 77, 79, 81, 83, 87, 89, 91, 93, 97, 99, 101, 103, 107, 109, 111, 113, 117,
     121, 123, 127, 129, 131, 133, 137, 139, 141, 143, 147, 149, 151, 157, 159, 161, 163, 167,
     169]"

definition GENERATORS_SMALL_6 :: "nat list" where
  "GENERATORS_SMALL_6 =
    [1, 3, 5, 7, 9, 11, 13, 15, 17, 19, 21, 23, 25, 27, 29, 31, 33, 35, 37, 39, 41, 43, 45, 47,
     49, 51, 53, 55, 57, 59, 61, 63, 65, 67, 69, 71, 75, 77, 79, 81, 83, 85, 87, 89, 91, 93, 95,
     97, 99, 101, 103, 105, 107, 109, 111, 113, 115, 117, 119, 121, 123, 125, 127, 129, 131,
     133, 135, 137, 139, 141, 143, 145]"

definition GENERATORS_SMALL_7 :: "nat list" where
  "GENERATORS_SMALL_7 =
    [1, 3, 5, 7, 9, 11, 13, 15, 17, 19, 21, 23, 25, 27, 29, 31, 33, 35, 37, 39, 41, 43, 45, 47,
     49, 51, 53, 55, 57, 59, 61, 63, 65, 67, 69, 71, 73, 75, 77, 79, 81, 83, 85, 87, 89, 91, 93,
     95, 97, 99, 101, 103, 105, 107, 109, 111, 113, 115, 117, 119, 121, 123, 125, 127]"

definition GENERATORS_SMALL_8 :: "nat list" where
  "GENERATORS_SMALL_8 =
    [1, 2, 3, 4, 5, 6, 7, 8, 9, 10, 11, 12, 13, 14, 15, 16, 17, 18, 19, 20, 21, 22, 23, 24, 25,
     26, 27, 28, 29, 30, 31, 32, 33, 34, 35, 36, 37, 38, 39, 40, 41, 42, 43, 44, 45, 46, 47, 48,
     49, 50, 51, 52, 53, 54, 55, 56, 57, 58, 59, 60, 61, 62, 63, 64, 65, 66, 67, 68, 69, 70, 71,
     72, 73, 74, 75, 76, 77, 78, 79, 80, 81, 82, 83, 84, 85, 86, 87, 88, 89, 90, 91, 92, 93, 94,
     95, 96, 97, 98, 99, 100, 101, 102, 103, 104, 105, 106, 107, 108, 109, 110, 111, 112]"

definition GENERATORS_SMALL_9 :: "nat list" where
  "GENERATORS_SMALL_9 =
    [1, 5, 7, 11, 13, 19, 23, 25, 29, 31, 35, 37, 41, 43, 47, 49, 53, 55, 59, 61, 65, 67, 71,
     73, 77, 79, 83, 89, 91, 95, 97, 101]"

definition GENERATORS_SMALL_10 :: "nat list" where
  "GENERATORS_SMALL_10 =
    [1, 2, 4, 5, 7, 8, 10, 11, 13, 14, 16, 17, 19, 20, 22, 23, 25, 26, 28, 29, 32, 34, 35, 37,
     38, 40, 41, 43, 44, 46, 47, 49, 50, 52, 53, 55, 56, 58, 59, 61, 64, 65, 67, 68, 70, 71, 73,
     74, 76, 77, 79, 80, 82, 83, 85, 86, 88, 89, 91, 92]"

definition GENERATORS_SMALL_11 :: "nat list" where
  "GENERATORS_SMALL_11 =
    [1, 2, 3, 4, 6, 7, 8, 9, 11, 12, 13, 14, 16, 18, 19, 21, 22, 23, 24, 26, 27, 28, 29, 31, 32,
     33, 36, 37, 38, 39, 41, 42, 43, 44, 46, 47, 48, 49, 52, 53, 54, 56, 57, 58, 59, 61, 62, 63,
     64, 66, 67, 69, 71, 72, 73, 74, 76, 77, 78, 79, 81, 82, 83, 84]"

definition GENERATORS_SMALL_12 :: "nat list" where
  "GENERATORS_SMALL_12 =
    [1, 5, 7, 11, 17, 19, 23, 25, 29, 31, 35, 37, 41, 43, 47, 49, 53, 55, 59, 61, 67, 71, 73, 77]"

definition GENERATORS_SMALL_13 :: "nat list" where
  "GENERATORS_SMALL_13 =
    [1, 2, 3, 4, 5, 6, 7, 8, 9, 10, 11, 12, 13, 14, 15, 16, 17, 18, 19, 20, 21, 22, 23, 24, 25,
     26, 27, 28, 29, 30, 31, 32, 33, 34, 35, 36, 37, 38, 39, 40, 41, 42, 43, 44, 45, 46, 47, 48,
     49, 50, 51, 52, 53, 54, 55, 56, 57, 58, 59, 60, 61, 62, 63, 64, 65, 66, 67, 68, 69, 70, 71,
     72]"

definition GENERATORS_SMALL_14 :: "nat list" where
  "GENERATORS_SMALL_14 =
    [1, 3, 5, 7, 9, 11, 13, 15, 19, 21, 23, 25, 27, 29, 31, 33, 35, 37, 39, 41, 43, 45, 47, 49,
     53, 55, 57, 59, 61, 63, 65, 67]"

definition GENERATORS_SMALL_15 :: "nat list" where
  "GENERATORS_SMALL_15 =
    [1, 3, 5, 7, 9, 11, 13, 15, 17, 19, 21, 23, 25, 27, 29, 31, 33, 35, 37, 39, 41, 43, 45, 47,
     49, 51, 53, 55, 57, 59, 61, 63]"

definition GENERATORS_SMALL_16 :: "nat list" where
  "GENERATORS_SMALL_16 =
    [1, 7, 11, 13, 17, 19, 23, 29, 31, 37, 41, 43, 47, 49, 53, 59]"

definition GENERATORS_SMALL_17 :: "nat list" where
  "GENERATORS_SMALL_17 =
    [1, 3, 5, 9, 11, 13, 15, 17, 19, 23, 25, 27, 29, 31, 33, 37, 39, 41, 43, 45, 47, 51, 53, 55]"

definition GENERATORS_SMALL_18 :: "nat list" where
  "GENERATORS_SMALL_18 =
    [1, 2, 3, 4, 5, 6, 7, 8, 9, 10, 11, 12, 13, 14, 15, 16, 17, 18, 19, 20, 21, 22, 23, 24, 25,
     26, 27, 28, 29, 30, 31, 32, 33, 34, 35, 36, 37, 38, 39, 40, 41, 42, 43, 44, 45, 46, 47, 48,
     49, 50, 51, 52]"

definition GENERATORS_SMALL_19 :: "nat list" where
  "GENERATORS_SMALL_19 =
    [1, 2, 4, 5, 7, 8, 10, 11, 13, 14, 16, 19, 20, 22, 23, 25, 26, 28, 29, 31, 32, 35, 37, 38,
     40, 41, 43, 44, 46, 47, 49, 50]"

definition GENERATORS_SMALL_20 :: "nat list" where
  "GENERATORS_SMALL_20 =
    [1, 5, 7, 11, 13, 17, 19, 23, 25, 29, 31, 35, 37, 41, 43, 47]"

definition GENERATORS_SMALL_21 :: "nat list" where
  "GENERATORS_SMALL_21 =
    [1, 3, 5, 7, 9, 11, 13, 15, 17, 19, 21, 25, 27, 29, 31, 33, 35, 37, 39, 41, 43, 45]"

definition GENERATORS_SMALL_22 :: "nat list" where
  "GENERATORS_SMALL_22 =
    [1, 3, 5, 7, 9, 13, 15, 17, 19, 21, 23, 25, 27, 29, 31, 35, 37, 39, 41, 43]"

definition GENERATORS_SMALL_23 :: "nat list" where
  "GENERATORS_SMALL_23 =
    [1, 5, 11, 13, 17, 19, 23, 25, 29, 31, 37, 41]"

definition GENERATORS_SMALL_24 :: "nat list" where
  "GENERATORS_SMALL_24 =
    [1, 3, 7, 9, 11, 13, 17, 19, 21, 23, 27, 29, 31, 33, 37, 39]"

definition GENERATORS_SMALL_25 :: "nat list" where
  "GENERATORS_SMALL_25 =
    [1, 2, 4, 5, 7, 8, 10, 11, 14, 16, 17, 19, 20, 22, 23, 25, 28, 29, 31, 32, 34, 35, 37, 38]"

definition GENERATORS_SMALL_26 :: "nat list" where
  "GENERATORS_SMALL_26 =
    [1, 2, 3, 4, 5, 6, 7, 8, 9, 10, 11, 12, 13, 14, 15, 16, 17, 18, 19, 20, 21, 22, 23, 24, 25,
     26, 27, 28, 29, 30, 31, 32, 33, 34, 35, 36]"

definition GENERATORS_SMALL_27 :: "nat list" where
  "GENERATORS_SMALL_27 =
    [1, 5, 7, 11, 13, 17, 19, 23, 25, 29, 31, 35]"

definition GENERATORS_SMALL_28 :: "nat list" where
  "GENERATORS_SMALL_28 =
    [1, 2, 3, 4, 6, 8, 9, 11, 12, 13, 16, 17, 18, 19, 22, 23, 24, 26, 27, 29, 31, 32, 33, 34]"

definition GENERATORS_SMALL_29 :: "nat list" where
  "GENERATORS_SMALL_29 =
    [1, 3, 5, 7, 9, 11, 13, 15, 19, 21, 23, 25, 27, 29, 31, 33]"

definition GENERATORS_SMALL_30 :: "nat list" where
  "GENERATORS_SMALL_30 =
    [1, 2, 4, 5, 7, 8, 10, 13, 14, 16, 17, 19, 20, 23, 25, 26, 28, 29, 31, 32]"

definition GENERATORS_SMALL_31 :: "nat list" where
  "GENERATORS_SMALL_31 =
    [1, 3, 5, 7, 9, 11, 13, 15, 17, 19, 21, 23, 25, 27, 29, 31]"

definition GENERATORS_SMALL :: "nat list list" where
  "GENERATORS_SMALL =
    [GENERATORS_SMALL_0, GENERATORS_SMALL_1, GENERATORS_SMALL_2, GENERATORS_SMALL_3,
     GENERATORS_SMALL_4, GENERATORS_SMALL_5, GENERATORS_SMALL_6, GENERATORS_SMALL_7,
     GENERATORS_SMALL_8, GENERATORS_SMALL_9, GENERATORS_SMALL_10, GENERATORS_SMALL_11,
     GENERATORS_SMALL_12, GENERATORS_SMALL_13, GENERATORS_SMALL_14, GENERATORS_SMALL_15,
     GENERATORS_SMALL_16, GENERATORS_SMALL_17, GENERATORS_SMALL_18, GENERATORS_SMALL_19,
     GENERATORS_SMALL_20, GENERATORS_SMALL_21, GENERATORS_SMALL_22, GENERATORS_SMALL_23,
     GENERATORS_SMALL_24, GENERATORS_SMALL_25, GENERATORS_SMALL_26, GENERATORS_SMALL_27,
     GENERATORS_SMALL_28, GENERATORS_SMALL_29, GENERATORS_SMALL_30, GENERATORS_SMALL_31]"

definition GENERATORS_MEDIUM_LENGTHS :: "nat list" where
  "GENERATORS_MEDIUM_LENGTHS = [8, 4, 2, 1]"

definition GENERATORS_MEDIUM :: "nat list list" where
  "GENERATORS_MEDIUM =
    [[1, 3, 5, 7, 9, 11, 13, 15],
     [1, 3, 5, 7],
     [1, 3],
     [1]]"

text \<open>A read of the two-dimensional C array, padding included.\<close>

definition table_at :: "nat list list \<Rightarrow> nat \<Rightarrow> nat \<Rightarrow> nat" where
  "table_at t i j = (let row = t ! i in if j < length row then row ! j else 0)"

subsection \<open>Every entry generates its group\<close>

text \<open>Euclid's algorithm in a form the simplifier runs on numerals.\<close>

fun egcd :: "nat \<Rightarrow> nat \<Rightarrow> nat" where
  "egcd a b = (if b = 0 then a else egcd b (a mod b))"

declare egcd.simps [simp del]

lemma egcd_eq: "egcd a b = gcd a b"
proof (induction a b rule: egcd.induct)
  case (1 a b)
  show ?case
  proof (cases "b = 0")
    case True
    then show ?thesis by (subst egcd.simps) simp
  next
    case False
    with 1 show ?thesis by (simp add: egcd.simps [of a b] gcd_red_nat [of a b])
  qed
qed

lemma egcd_eval:
  "egcd a 0 = a" "egcd a (numeral b) = egcd (numeral b) (a mod numeral b)" "egcd a (Suc 0) = Suc 0"
  by (simp_all add: egcd_eq gcd_red_nat [of a "numeral b"])

definition generators_of :: "nat \<Rightarrow> nat list \<Rightarrow> bool" where
  "generators_of n row \<longleftrightarrow> list_all (\<lambda>g. 0 < g \<and> g < 65536 \<and> egcd g n = 1) row"

lemmas small_rows =
  GENERATORS_SMALL_0_def GENERATORS_SMALL_1_def GENERATORS_SMALL_2_def GENERATORS_SMALL_3_def
  GENERATORS_SMALL_4_def GENERATORS_SMALL_5_def GENERATORS_SMALL_6_def GENERATORS_SMALL_7_def
  GENERATORS_SMALL_8_def GENERATORS_SMALL_9_def GENERATORS_SMALL_10_def GENERATORS_SMALL_11_def
  GENERATORS_SMALL_12_def GENERATORS_SMALL_13_def GENERATORS_SMALL_14_def
  GENERATORS_SMALL_15_def GENERATORS_SMALL_16_def GENERATORS_SMALL_17_def
  GENERATORS_SMALL_18_def GENERATORS_SMALL_19_def GENERATORS_SMALL_20_def
  GENERATORS_SMALL_21_def GENERATORS_SMALL_22_def GENERATORS_SMALL_23_def
  GENERATORS_SMALL_24_def GENERATORS_SMALL_25_def GENERATORS_SMALL_26_def
  GENERATORS_SMALL_27_def GENERATORS_SMALL_28_def GENERATORS_SMALL_29_def
  GENERATORS_SMALL_30_def GENERATORS_SMALL_31_def

lemma small_table:
  "list_all (\<lambda>(i, n, row). length row = n \<and> 0 < n \<and> generators_of (16384 div (16 * Suc i)) row)
     (zip [0..<32] (zip GENERATORS_SMALL_LENGTHS GENERATORS_SMALL))"
  by (simp add: GENERATORS_SMALL_def GENERATORS_SMALL_LENGTHS_def small_rows generators_of_def egcd_eval
      upt_rec)

lemma medium_table:
  "list_all (\<lambda>(i, n, row). length row = n \<and> 0 < n \<and> generators_of (16384 div (1024 * 2 ^ i)) row)
     (zip [0..<4] (zip GENERATORS_MEDIUM_LENGTHS GENERATORS_MEDIUM))"
  by (simp add: GENERATORS_MEDIUM_def GENERATORS_MEDIUM_LENGTHS_def generators_of_def egcd_eval
      upt_rec)

lemma table_lengths:
  "length GENERATORS_SMALL = 32" "length GENERATORS_SMALL_LENGTHS = 32"
  "length GENERATORS_MEDIUM = 4" "length GENERATORS_MEDIUM_LENGTHS = 4"
  by (simp_all add: GENERATORS_SMALL_def GENERATORS_SMALL_LENGTHS_def
      GENERATORS_MEDIUM_def GENERATORS_MEDIUM_LENGTHS_def)

lemma generators_of_nth:
  "generators_of n row \<Longrightarrow> j < length row \<Longrightarrow> row ! j < 65536 \<and> 0 < row ! j \<and> coprime (row ! j) n"
  by (auto simp: generators_of_def list_all_length egcd_eq coprime_iff_gcd_eq_1)

lemma small_entry:
  assumes "i < 32" "j < GENERATORS_SMALL_LENGTHS ! i"
  shows "table_at GENERATORS_SMALL i j < 65536" "coprime (table_at GENERATORS_SMALL i j) (16384 div (16 * Suc i))"
proof -
  have "length (GENERATORS_SMALL ! i) = GENERATORS_SMALL_LENGTHS ! i \<and>
        generators_of (16384 div (16 * Suc i)) (GENERATORS_SMALL ! i)"
    using small_table assms(1) by (auto simp: list_all_length table_lengths)
  with assms(2) generators_of_nth
  show "table_at GENERATORS_SMALL i j < 65536" "coprime (table_at GENERATORS_SMALL i j) (16384 div (16 * Suc i))"
    by (auto simp: table_at_def Let_def)
qed

lemma medium_entry:
  assumes "i < 4" "j < GENERATORS_MEDIUM_LENGTHS ! i"
  shows "table_at GENERATORS_MEDIUM i j < 65536" "coprime (table_at GENERATORS_MEDIUM i j) (16384 div (1024 * 2 ^ i))"
proof -
  have "length (GENERATORS_MEDIUM ! i) = GENERATORS_MEDIUM_LENGTHS ! i \<and>
        generators_of (16384 div (1024 * 2 ^ i)) (GENERATORS_MEDIUM ! i)"
    using medium_table assms(1) by (auto simp: list_all_length table_lengths)
  with assms(2) generators_of_nth
  show "table_at GENERATORS_MEDIUM i j < 65536" "coprime (table_at GENERATORS_MEDIUM i j) (16384 div (1024 * 2 ^ i))"
    by (auto simp: table_at_def Let_def)
qed

lemma table_lengths_pos:
  "i < 32 \<Longrightarrow> 0 < GENERATORS_SMALL_LENGTHS ! i" "k < 4 \<Longrightarrow> 0 < GENERATORS_MEDIUM_LENGTHS ! k"
  using small_table medium_table by (auto simp: list_all_length table_lengths)

end
