(* ===== verification/Run.thy ===== *)
theory Run
  imports Metadata Splitmix Generator "HOL-Library.Signed_Division"
begin

text \<open>
  \<open>src/src/run.c\<close>: a run hands out the equally sized regions of one block of memory, each
  at most once, in the order of a random generator of the additive group of region
  indices; the bitmap records for every region whether it is free, allocated, or was
  allocated and freed. This is the build without memory tagging; addresses are
  \<open>uintptr_t\<close> values, \<open>navail\<close>, \<open>nfreed\<close>, \<open>gen\<close> and \<open>current_idx\<close> are \<open>uint16_t\<close>.
\<close>

subsection \<open>The bitmap\<close>

text \<open>\<open>STATE_UNNAMED\<close> is the value 3, which two bits can hold and no enumerator names.\<close>

datatype bstate_t = STATE_FREE | STATE_ALLOC | STATE_ALLOC_FREE | STATE_UNNAMED

fun bstate_val :: "bstate_t \<Rightarrow> 8 word" where
  "bstate_val STATE_FREE = 0"
| "bstate_val STATE_ALLOC = 1"
| "bstate_val STATE_ALLOC_FREE = 2"
| "bstate_val STATE_UNNAMED = 3"

definition bstate_of :: "8 word \<Rightarrow> bstate_t" where
  "bstate_of v = (if v = 0 then STATE_FREE else if v = 1 then STATE_ALLOC
     else if v = 2 then STATE_ALLOC_FREE else STATE_UNNAMED)"

definition get_bitmap_item :: "8 word list \<Rightarrow> nat \<Rightarrow> bstate_t" where
  "get_bitmap_item mem idx = bstate_of (bits2_get mem idx)"

definition set_bitmap_item :: "8 word list \<Rightarrow> nat \<Rightarrow> bstate_t \<Rightarrow> 8 word list" where
  "set_bitmap_item mem idx state = bits2_set mem idx (bstate_val state)"

lemma bstate_of_val [simp]: "bstate_of (bstate_val s) = s"
  by (cases s) (simp_all add: bstate_of_def)

lemma bstate_val_le: "bstate_val s \<le> 3"
  by (cases s) simp_all

definition bitmap_valid :: "8 word list \<Rightarrow> nat \<Rightarrow> bool" where
  "bitmap_valid mem idx \<longleftrightarrow> idx div 4 < length mem"

interpretation bitmap: packed_states get_bitmap_item set_bitmap_item bitmap_valid
  by unfold_locales
    (simp_all add: get_bitmap_item_def set_bitmap_item_def bitmap_valid_def bits2_get_set_same
      bits2_get_set_other bstate_val_le)

subsection \<open>Operations\<close>

definition SIZE_MAX :: nat where "SIZE_MAX = 18446744073709551615"

definition choose_generator :: "nat \<Rightarrow> rng \<Rightarrow> nat \<times> rng" where
  "choose_generator sz g =
     (if IS_SIZE_SMALL sz then
        (let gen_idx = SIZE_TO_IDX_SMALL sz; (r, g) = splitmix32 g
         in (table_at GENERATORS_SMALL gen_idx (unat r mod GENERATORS_SMALL_LENGTHS ! gen_idx), g))
      else if IS_SIZE_MEDIUM sz then
        (let gen_idx = size_to_idx_medium sz; (r, g) = splitmix32 g
         in (table_at GENERATORS_MEDIUM gen_idx (unat r mod GENERATORS_MEDIUM_LENGTHS ! gen_idx), g))
      else (1, g))"

definition run_init :: "run_t \<Rightarrow> bin_t \<Rightarrow> addr \<Rightarrow> rng \<Rightarrow> (run_t \<times> rng) res" where
  "run_init run bin heap g =
     (let run = run\<lparr>key := heap, fd := 0, bk := 0\<rparr>;
          run = run\<lparr>navail := u16 (reg_mask_size_bits bin div 2), nfreed := 0\<rparr>;
          (gn, g) = choose_generator (reg_size bin) g;
          run = run\<lparr>gen := gn\<rparr>;
          (r, g) = splitmix32 g
      in if reg_mask_size_bits bin div 2 = 0 then fail DivByZero
         else ret (run\<lparr>current_idx := u16 (unat r mod (reg_mask_size_bits bin div 2)),
                       reg_bitmap := replicate (BITS2BYTES_CEIL (reg_mask_size_bits bin)) 0\<rparr>, g))"

definition run_allocate :: "run_t \<Rightarrow> bin_t \<Rightarrow> (addr \<times> run_t) res" where
  "run_allocate run bin =
     (let heap = key run; elems = reg_mask_size_bits bin div 2
      in if elems = 0 then fail DivByZero
         else
           let run = run\<lparr>current_idx := u16 ((gen run + current_idx run) mod elems)\<rparr>;
               run = run\<lparr>reg_bitmap := set_bitmap_item (reg_bitmap run) (current_idx run) STATE_ALLOC\<rparr>;
               run = run\<lparr>navail := sub16 (navail run) 1\<rparr>
           in ret (u64 (heap + u32 (current_idx run * reg_size bin)), run))"

text \<open>
  \<open>rel_ptr\<close> is a signed 64-bit difference and C divides it towards zero; the quotient
  becomes a \<open>size_t\<close>. The read of the bitmap is not bounds-checked in the source: an
  index past the bitmap is a fault here.
\<close>

definition run_validate_ptr :: "run_t \<Rightarrow> bin_t \<Rightarrow> addr \<Rightarrow> nat res" where
  "run_validate_ptr run bin ptr =
     (let rel_ptr = sint (of_nat ptr - of_nat (key run) :: 64 word)
      in if reg_size bin = 0 then fail DivByZero
         else
           let bitmap_idx = nat ((rel_ptr sdiv int (reg_size bin)) mod 2 ^ 64)
           in if rel_ptr smod int (reg_size bin) \<noteq> 0 then ret SIZE_MAX
              else if \<not> bitmap_valid (reg_bitmap run) bitmap_idx then fail Segv
              else if get_bitmap_item (reg_bitmap run) bitmap_idx \<noteq> STATE_ALLOC then ret SIZE_MAX
              else ret bitmap_idx)"

definition run_deallocate :: "run_t \<Rightarrow> bin_t \<Rightarrow> addr \<Rightarrow> (bool \<times> run_t) res" where
  "run_deallocate run bin ptr =
     bindR (run_validate_ptr run bin ptr) (\<lambda>bitmap_idx.
       if bitmap_idx = SIZE_MAX then ret (False, run)
       else ret (True, run\<lparr>reg_bitmap := set_bitmap_item (reg_bitmap run) bitmap_idx STATE_ALLOC_FREE,
                           nfreed := u16 (nfreed run + 1)\<rparr>))"

definition run_is_depleted :: "run_t \<Rightarrow> bool" where
  "run_is_depleted run \<longleftrightarrow> navail run = 0"

definition run_is_freeable :: "run_t \<Rightarrow> bin_t \<Rightarrow> bool" where
  "run_is_freeable run bin \<longleftrightarrow> nfreed run = reg_mask_size_bits bin div 2"

subsection \<open>What a run promises\<close>

definition region_state :: "run_t \<Rightarrow> nat \<Rightarrow> bstate_t" where
  "region_state r i = get_bitmap_item (reg_bitmap r) i"

definition region_addr :: "run_t \<Rightarrow> bin_t \<Rightarrow> nat \<Rightarrow> addr" where
  "region_addr r b i = key r + i * reg_size b"

text \<open>
  The free regions are exactly the next \<open>navail\<close> ones the generator will visit; no region
  is in the unnamed state; the padding of the bitmap is never marked; \<open>nfreed\<close> counts the
  freed ones.
\<close>

definition run_geom :: "bin_t \<Rightarrow> run_t \<Rightarrow> bool" where
  "run_geom b r \<longleftrightarrow> bin_wf b \<and> length (reg_bitmap r) = BITS2BYTES_CEIL (reg_mask_size_bits b)
     \<and> gen r < 65536 \<and> coprime (gen r) (regions b) \<and> current_idx r < regions b
     \<and> navail r \<le> regions b \<and> key r + run_size_pages b * 4096 < 2 ^ 63"

definition run_inv :: "bin_t \<Rightarrow> run_t \<Rightarrow> bool" where
  "run_inv b r \<longleftrightarrow> run_geom b r
     \<and> {i \<in> {..<regions b}. region_state r i = STATE_FREE} =
         (\<lambda>j. (current_idx r + j * gen r) mod regions b) ` {1..navail r}
     \<and> (\<forall>i < regions b. region_state r i \<noteq> STATE_UNNAMED)
     \<and> (\<forall>i \<ge> regions b. bitmap_valid (reg_bitmap r) i \<longrightarrow> region_state r i = STATE_FREE)
     \<and> nfreed r = card {i \<in> {..<regions b}. region_state r i = STATE_ALLOC_FREE}"

subsection \<open>Arithmetic of the generator\<close>

lemma generator_inj:
  fixes c g n :: nat
  assumes "coprime g n" "0 < n"
  shows "inj_on (\<lambda>j. (c + j * g) mod n) {a..<a + n}"
proof (rule inj_onI)
  fix x y
  assume xy: "x \<in> {a..<a + n}" "y \<in> {a..<a + n}" and eq: "(c + x * g) mod n = (c + y * g) mod n"
  have aux: "x = y" if le: "x \<le> y" and y: "y < x + n" and eq: "(c + x * g) mod n = (c + y * g) mod n" for x y
  proof -
    have "n dvd (c + y * g) - (c + x * g)"
      using eq [symmetric] le by (subst (asm) mod_eq_dvd_iff_nat) simp_all
    then have "n dvd (y - x) * g" by (simp add: diff_mult_distrib)
    then have "n dvd y - x" using assms(1) by (metis coprime_commute coprime_dvd_mult_left_iff)
    then show "x = y" using le y by (auto dest: dvd_imp_le)
  qed
  have lim: "y < x + n" "x < y + n" using xy by auto
  consider "x \<le> y" | "y \<le> x" by linarith
  then show "x = y"
  proof cases
    case 1
    then show ?thesis using lim(1) eq by (rule aux)
  next
    case 2
    then show ?thesis using lim(2) eq [symmetric] by (rule aux [symmetric])
  qed
qed

lemma generator_full:
  fixes c g n :: nat
  assumes "coprime g n" "0 < n"
  shows "(\<lambda>j. (c + j * g) mod n) ` {1..n} = {..<n}"
proof (rule card_subset_eq)
  have "{1..n} = {1..<1 + n}" by auto
  then show "card ((\<lambda>j. (c + j * g) mod n) ` {1..n}) = card {..<n}"
    using generator_inj [OF assms, of c 1] by (simp add: card_image)
qed (use assms(2) in auto)

text \<open>One step of the generator takes the first index off the orbit.\<close>

lemma generator_step:
  fixes c g n k :: nat
  assumes "coprime g n" "k < n"
  shows "(\<lambda>j. ((g + c) mod n + j * g) mod n) ` {1..k} =
           (\<lambda>j. (c + j * g) mod n) ` {1..Suc k} - {(g + c) mod n}"
proof -
  have inj: "inj_on (\<lambda>j. (c + j * g) mod n) {1..Suc k}"
    using generator_inj [of g n c 1] assms by (auto intro: inj_on_subset)
  have 1: "(g + c) mod n = (c + 1 * g) mod n" by (simp add: ac_simps)
  have "((g + c) mod n + j * g) mod n = (c + Suc j * g) mod n" for j
    using mod_add_left_eq [of "g + c" n "j * g"] by (simp add: ac_simps)
  then have "(\<lambda>j. ((g + c) mod n + j * g) mod n) ` {1..k} = (\<lambda>j. (c + j * g) mod n) ` (Suc ` {1..k})"
    by (simp only: image_image)
  also have "Suc ` {1..k} = {1..Suc k} - {1}" by (auto simp: image_iff intro: Suc_pred [symmetric])
  also have "(\<lambda>j. (c + j * g) mod n) ` ({1..Suc k} - {1}) =
      (\<lambda>j. (c + j * g) mod n) ` {1..Suc k} - (\<lambda>j. (c + j * g) mod n) ` {1}"
    using inj by (intro inj_on_image_set_diff) auto
  finally show ?thesis by (simp add: 1)
qed

subsection \<open>Initialisation\<close>

lemma bitmap_bytes: "bin_wf b \<Longrightarrow> BITS2BYTES_CEIL (reg_mask_size_bits b) = (2 * regions b + 7) div 8"
  using bin_wf_regions [of b] by (simp add: BITS2BYTES_CEIL_eq)

lemma run_geom_valid:
  assumes "run_geom b r" "i < regions b"
  shows "bitmap_valid (reg_bitmap r) i"
proof -
  have "i div 4 < (2 * regions b + 7) div 8" using assms(2) by linarith
  then show ?thesis using assms(1) by (simp add: run_geom_def bitmap_valid_def bitmap_bytes)
qed

lemma choose_generator_ok:
  assumes "bin_wf b"
  shows "fst (choose_generator (reg_size b) g) < 65536"
    "coprime (fst (choose_generator (reg_size b) g)) (regions b)"
proof -
  have c: "reg_size b \<in> set size_classes" using assms by (simp add: bin_wf_def)
  have n: "regions b = class_regions (reg_size b)" using bin_wf_regions(1) [OF assms] .
  obtain r g' where rg: "splitmix32 g = (r, g')" by (cases "splitmix32 g")
  have "fst (choose_generator (reg_size b) g) < 65536 \<and>
        coprime (fst (choose_generator (reg_size b) g)) (class_regions (reg_size b))"
    using c
  proof (cases rule: size_class_cases)
    case (small i)
    then have "choose_generator (reg_size b) g = (table_at GENERATORS_SMALL i (unat r mod GENERATORS_SMALL_LENGTHS ! i), g')"
      using class_tests(1) [of "reg_size b"] SIZE_TO_IDX_SMALL_class [of i]
      by (auto simp: choose_generator_def rg set_classes)
    moreover have "class_regions (reg_size b) = 16384 div (16 * Suc i)"
      using small by (simp add: class_regions_def)
    ultimately show ?thesis using small_entry [OF small(1)] table_lengths_pos(1) [OF small(1)] by simp
  next
    case (medium i)
    then have "choose_generator (reg_size b) g = (table_at GENERATORS_MEDIUM i (unat r mod GENERATORS_MEDIUM_LENGTHS ! i), g')"
      using class_tests(2) [of "reg_size b"] size_to_idx_medium_class [of i]
      by (auto simp: choose_generator_def rg set_classes)
    moreover have "class_regions (reg_size b) = 16384 div (1024 * 2 ^ i)"
      using medium by (simp add: class_regions_def)
    ultimately show ?thesis using medium_entry [OF medium(1)] table_lengths_pos(2) [OF medium(1)] by simp
  next
    case (large i)
    then have "choose_generator (reg_size b) g = (1, g)"
      using class_tests(3) [of "reg_size b"] by (auto simp: choose_generator_def set_classes)
    then show ?thesis by simp
  qed
  then show "fst (choose_generator (reg_size b) g) < 65536"
    "coprime (fst (choose_generator (reg_size b) g)) (regions b)" by (simp_all add: n)
qed

lemma get_bitmap_zero: "i div 4 < n \<Longrightarrow> get_bitmap_item (replicate n 0) i = STATE_FREE"
  by (simp add: get_bitmap_item_def bits2_get_def bstate_of_def)

lemma run_init_ok:
  assumes b: "bin_wf b" and heap: "heap + run_size_pages b * 4096 < 2 ^ 63"
  shows "\<exists>r' g'. run_init r b heap g = ret (r', g') \<and> run_inv b r' \<and> key r' = heap
     \<and> navail r' = regions b \<and> (\<forall>i < regions b. region_state r' i = STATE_FREE)"
proof -
  obtain gn g1 where gn: "choose_generator (reg_size b) g = (gn, g1)" by (cases "choose_generator (reg_size b) g")
  obtain x g2 where x: "splitmix32 g1 = (x, g2)" by (cases "splitmix32 g1")
  note n = bin_wf_regions [OF b]
  define r' where "r' = r\<lparr>key := heap, fd := 0, bk := 0, navail := regions b, nfreed := 0, gen := gn,
     current_idx := unat x mod regions b, reg_bitmap := replicate (BITS2BYTES_CEIL (reg_mask_size_bits b)) 0\<rparr>"
  have "unat x mod regions b < 65536" using n(2,3) mod_less_divisor [of "regions b" "unat x"] by linarith
  then have run: "run_init r b heap g = ret (r', g2)"
    using n by (simp add: run_init_def gn x r'_def wrap_simps Let_def)
  have geom: "run_geom b r'"
    using choose_generator_ok [OF b, of g] b heap n by (simp add: run_geom_def r'_def gn)
  have pad: "region_state r' i = STATE_FREE" if "bitmap_valid (reg_bitmap r') i" for i
    using that by (simp add: region_state_def r'_def bitmap_valid_def get_bitmap_zero)
  then have free: "region_state r' i = STATE_FREE" if "i < regions b" for i
    using run_geom_valid [OF geom that] by simp
  then have "{i \<in> {..<regions b}. region_state r' i = STATE_FREE} = {..<regions b}" by auto
  moreover have "coprime gn (regions b)" using geom by (simp add: run_geom_def r'_def)
  ultimately have "run_inv b r'"
    using geom free pad generator_full [of gn "regions b" "current_idx r'"] n(2)
    by (auto simp: run_inv_def r'_def)
  then show ?thesis using run free by (auto simp: r'_def)
qed

subsection \<open>Allocation\<close>

abbreviation next_idx :: "bin_t \<Rightarrow> run_t \<Rightarrow> nat" where
  "next_idx b r \<equiv> (gen r + current_idx r) mod regions b"

lemma run_invD:
  assumes "run_inv b r"
  shows "run_geom b r" "bin_wf b" "i < regions b \<Longrightarrow> region_state r i \<noteq> STATE_UNNAMED"
    "coprime (gen r) (regions b)" "navail r \<le> regions b" "0 < regions b"
  using assms bin_wf_regions(2) [of b] by (auto simp: run_inv_def run_geom_def)

lemma run_inv_free:
  "run_inv b r \<Longrightarrow> i < regions b \<Longrightarrow>
     region_state r i = STATE_FREE \<longleftrightarrow> i \<in> (\<lambda>j. (current_idx r + j * gen r) mod regions b) ` {1..navail r}"
  unfolding run_inv_def by blast

lemma run_next_free:
  assumes "run_inv b r" "0 < navail r"
  shows "next_idx b r < regions b" "region_state r (next_idx b r) = STATE_FREE"
proof -
  show lt: "next_idx b r < regions b" using run_invD(6) [OF assms(1)] by simp
  have "next_idx b r = (current_idx r + 1 * gen r) mod regions b" by (simp add: ac_simps)
  then show "region_state r (next_idx b r) = STATE_FREE"
    using assms lt by (subst run_inv_free) (auto intro!: image_eqI [of _ _ 1])
qed

lemma run_allocate_eq:
  assumes "run_inv b r" "0 < navail r"
  shows "run_allocate r b = ret (region_addr r b (next_idx b r),
     r\<lparr>current_idx := next_idx b r, navail := navail r - 1,
       reg_bitmap := set_bitmap_item (reg_bitmap r) (next_idx b r) STATE_ALLOC\<rparr>)"
proof -
  note n = bin_wf_regions [OF run_invD(2) [OF assms(1)]]
  have lt: "next_idx b r < regions b" using assms by (rule run_next_free)
  have "next_idx b r * reg_size b \<le> run_size_pages b * 4096"
    by (rule order_trans [OF _ n(5)]) (use lt in \<open>intro mult_right_mono, simp_all\<close>)
  moreover have "key r + run_size_pages b * 4096 < 2 ^ 63" "run_size_pages b \<le> 256"
    using run_invD(1,2) [OF assms(1)] class_pages_le by (auto simp: run_geom_def bin_wf_def)
  ultimately have "u32 (next_idx b r * reg_size b) = next_idx b r * reg_size b"
    "u64 (key r + next_idx b r * reg_size b) = key r + next_idx b r * reg_size b"
    by (simp_all add: wrap_simps)
  moreover have "next_idx b r < 65536" using lt n(3) by linarith
  then have "u16 (next_idx b r) = next_idx b r" by (rule u16_small)
  moreover have "sub16 (navail r) 1 = navail r - 1"
    using n(3) run_invD(5) [OF assms(1)] assms(2) by (simp add: wrap_simps)
  ultimately show ?thesis
    using n(2) by (simp add: run_allocate_def Let_def region_addr_def)
qed

lemma region_state_set:
  assumes "run_geom b r" "i < regions b" "bitmap_valid (reg_bitmap r) j"
  shows "get_bitmap_item (set_bitmap_item (reg_bitmap r) i s) j = (if i = j then s else region_state r j)"
  using assms run_geom_valid by (simp add: bitmap.get_set region_state_def)

lemma bitmap_valid_set [simp]: "bitmap_valid (set_bitmap_item m i s) j = bitmap_valid m j"
  by (rule bitmap.valid_set)

lemma run_allocate_inv:
  assumes inv: "run_inv b r" and nav: "0 < navail r"
    and r': "r' = r\<lparr>current_idx := next_idx b r, navail := navail r - 1,
       reg_bitmap := set_bitmap_item (reg_bitmap r) (next_idx b r) STATE_ALLOC\<rparr>"
  shows "run_inv b r'"
proof -
  let ?n = "regions b" and ?i = "next_idx b r"
  have i: "?i < ?n" "region_state r ?i = STATE_FREE" using inv nav by (rule run_next_free)+
  note geom = run_invD(1) [OF inv]
  have st': "region_state r' j = (if ?i = j then STATE_ALLOC else region_state r j)"
    if "bitmap_valid (reg_bitmap r) j" for j
    using region_state_set [OF geom i(1) that] by (simp add: r' region_state_def)
  note st = st' [OF run_geom_valid [OF geom]]
  have "run_geom b r'" using geom i(1) by (auto simp: run_geom_def r' set_bitmap_item_def)
  moreover have "{j \<in> {..<?n}. region_state r' j = STATE_FREE} =
      {j \<in> {..<?n}. region_state r j = STATE_FREE} - {?i}"
    using st by (auto split: if_splits)
  moreover have "\<dots> = (\<lambda>j. (current_idx r' + j * gen r') mod ?n) ` {1..navail r'}"
    using inv generator_step [of "gen r" ?n "navail r - 1" "current_idx r"] run_invD(4,5) [OF inv] nav
    by (simp add: run_inv_def r')
  moreover have "{j \<in> {..<?n}. region_state r' j = STATE_ALLOC_FREE} =
      {j \<in> {..<?n}. region_state r j = STATE_ALLOC_FREE}"
    using st i(2) by (auto split: if_splits)
  moreover have "\<forall>j \<ge> ?n. bitmap_valid (reg_bitmap r') j \<longrightarrow> region_state r' j = STATE_FREE"
    using inv st' i(1) by (auto simp: run_inv_def r')
  moreover have "\<forall>j < ?n. region_state r' j \<noteq> STATE_UNNAMED" using st run_invD(3) [OF inv] by simp
  moreover have "nfreed r' = nfreed r" by (simp add: r')
  ultimately show ?thesis using inv by (simp add: run_inv_def)
qed

subsection \<open>Validation and deallocation\<close>

lemma sint_diff:
  assumes "a \<le> p" "p < 2 ^ 63"
  shows "sint (of_nat p - of_nat a :: 64 word) = int (p - a)"
proof -
  have "(of_nat p - of_nat a :: 64 word) = of_nat (p - a)" using assms(1) by simp
  moreover have "signed_take_bit 63 (int (p - a)) = int (p - a)"
    using assms by (intro signed_take_bit_int_eq_self) simp_all
  ultimately show ?thesis by (simp add: signed_of_nat)
qed

text \<open>On a pointer not below the run, validation divides without wrap-around.\<close>

lemma run_validate_ptr_eq:
  assumes "key r \<le> ptr" "ptr < 2 ^ 63" "0 < reg_size b"
  shows "run_validate_ptr r b ptr =
     (let i = (ptr - key r) div reg_size b
      in if (ptr - key r) mod reg_size b \<noteq> 0 then ret SIZE_MAX
         else if \<not> bitmap_valid (reg_bitmap r) i then fail Segv
         else if region_state r i \<noteq> STATE_ALLOC then ret SIZE_MAX else ret i)"
proof -
  let ?d = "ptr - key r"
  have rel: "sint (of_nat ptr - of_nat (key r) :: 64 word) = int ?d" using assms(1,2) by (rule sint_diff)
  have q: "int ?d sdiv int (reg_size b) = int (?d div reg_size b)"
    "int ?d smod int (reg_size b) = int (?d mod reg_size b)"
    using assms(3) by (simp_all add: signed_divide_int_def signed_modulo_int_def zdiv_int zmod_int sgn_if
        minus_div_mult_eq_mod)
  have "?d div reg_size b \<le> ?d" by (rule div_le_dividend)
  then have "?d div reg_size b < 2 ^ 64" by (rule le_less_trans) (use assms(2) in simp)
  then have "int (?d div reg_size b) mod 2 ^ 64 = int (?d div reg_size b)"
    by (intro mod_pos_pos_trivial) simp_all
  then show ?thesis
    using assms(3) by (simp only: run_validate_ptr_def rel q Let_def region_state_def) simp
qed

definition run_addr_range :: "bin_t \<Rightarrow> run_t \<Rightarrow> addr set" where
  "run_addr_range b r = {key r ..< key r + run_size_pages b * 4096}"

lemma run_deallocate_cases:
  assumes inv: "run_inv b r" and i: "i < regions b"
  shows "run_deallocate r b (region_addr r b i) =
     (if region_state r i = STATE_ALLOC
      then ret (True, r\<lparr>reg_bitmap := set_bitmap_item (reg_bitmap r) i STATE_ALLOC_FREE, nfreed := nfreed r + 1\<rparr>)
      else ret (False, r))"
proof -
  note n = bin_wf_regions [OF run_invD(2) [OF inv]] and geom = run_invD(1) [OF inv]
  have "i * reg_size b \<le> run_size_pages b * 4096"
    by (rule order_trans [OF _ n(5)]) (use i in \<open>intro mult_right_mono, simp_all\<close>)
  then have "region_addr r b i < 2 ^ 63" using geom by (simp add: region_addr_def run_geom_def)
  moreover have "key r \<le> region_addr r b i" by (simp add: region_addr_def)
  ultimately have v: "run_validate_ptr r b (region_addr r b i) =
      (if region_state r i \<noteq> STATE_ALLOC then ret SIZE_MAX else ret i)"
    using n(4) run_geom_valid [OF geom i] by (simp add: run_validate_ptr_eq region_addr_def)
  have "card {j \<in> {..<regions b}. region_state r j = STATE_ALLOC_FREE} \<le> card {..<regions b}"
    by (rule card_mono) auto
  then have "nfreed r \<le> regions b" using inv by (simp add: run_inv_def)
  then have "u16 (nfreed r + 1) = nfreed r + 1" using n(3) by (simp add: wrap_simps)
  moreover have "i \<noteq> SIZE_MAX" using i n(3) by (simp add: SIZE_MAX_def)
  ultimately show ?thesis by (simp add: run_deallocate_def v)
qed

lemma run_deallocate_inv:
  assumes inv: "run_inv b r" and i: "i < regions b" "region_state r i = STATE_ALLOC"
    and r': "r' = r\<lparr>reg_bitmap := set_bitmap_item (reg_bitmap r) i STATE_ALLOC_FREE, nfreed := nfreed r + 1\<rparr>"
  shows "run_inv b r'"
proof -
  let ?n = "regions b"
  note geom = run_invD(1) [OF inv]
  have st': "region_state r' j = (if i = j then STATE_ALLOC_FREE else region_state r j)"
    if "bitmap_valid (reg_bitmap r) j" for j
    using region_state_set [OF geom i(1) that] by (simp add: r' region_state_def)
  note st = st' [OF run_geom_valid [OF geom]]
  have "run_geom b r'" using geom by (simp add: run_geom_def r' set_bitmap_item_def)
  moreover have "{j \<in> {..<?n}. region_state r' j = STATE_FREE} = {j \<in> {..<?n}. region_state r j = STATE_FREE}"
    using st i(2) by (auto split: if_splits)
  moreover have "card {j \<in> {..<?n}. region_state r' j = STATE_ALLOC_FREE} =
      Suc (card {j \<in> {..<?n}. region_state r j = STATE_ALLOC_FREE})"
    unfolding region_state_def r'
    using bitmap.count_set_gain [of "{..<?n}" "reg_bitmap r" i STATE_ALLOC_FREE] run_geom_valid [OF geom] i
    by (simp add: region_state_def)
  moreover have "\<forall>j \<ge> ?n. bitmap_valid (reg_bitmap r') j \<longrightarrow> region_state r' j = STATE_FREE"
    using inv st' i(1) by (auto simp: run_inv_def r')
  moreover have "\<forall>j < ?n. region_state r' j \<noteq> STATE_UNNAMED" using st run_invD(3) [OF inv] by simp
  moreover have "nfreed r' = Suc (nfreed r)" "current_idx r' = current_idx r" "gen r' = gen r"
    "navail r' = navail r" by (simp_all add: r')
  ultimately show ?thesis using inv by (simp add: run_inv_def)
qed

subsection \<open>The contract of a run\<close>

text \<open>
  Seen from outside, a run is a map from the addresses of its regions to their states.
\<close>

definition run_abs :: "bin_t \<Rightarrow> run_t \<Rightarrow> addr \<rightharpoonup> bstate_t" where
  "run_abs b r p = (if p \<in> region_addr r b ` {..<regions b}
     then Some (region_state r ((p - key r) div reg_size b)) else None)"

lemma region_addr_inj: "0 < reg_size b \<Longrightarrow> region_addr r b i = region_addr r b j \<longleftrightarrow> i = j"
  by (simp add: region_addr_def)

lemma run_abs_region:
  "bin_wf b \<Longrightarrow> i < regions b \<Longrightarrow> run_abs b r (region_addr r b i) = Some (region_state r i)"
  using bin_wf_regions(4) [of b] by (simp add: run_abs_def region_addr_def)

lemma run_absE:
  assumes "run_abs b r p = Some s" "bin_wf b"
  obtains i where "i < regions b" "p = region_addr r b i" "region_state r i = s"
  using assms run_abs_region [OF assms(2)] by (auto simp: run_abs_def split: if_splits)

lemma run_abs_all:
  assumes "bin_wf b"
  shows "(\<forall>p \<in> dom (run_abs b r). run_abs b r p = Some s) \<longleftrightarrow> (\<forall>i < regions b. region_state r i = s)"
proof
  assume *: "\<forall>p \<in> dom (run_abs b r). run_abs b r p = Some s"
  show "\<forall>i < regions b. region_state r i = s"
  proof (intro allI impI)
    fix i
    assume "i < regions b"
    note abs = run_abs_region [OF assms this, of r]
    then have "region_addr r b i \<in> dom (run_abs b r)" by (rule domI)
    with * abs show "region_state r i = s" by simp
  qed
next
  assume *: "\<forall>i < regions b. region_state r i = s"
  show "\<forall>p \<in> dom (run_abs b r). run_abs b r p = Some s"
  proof
    fix p
    assume "p \<in> dom (run_abs b r)"
    then obtain t where t: "run_abs b r p = Some t" by auto
    then obtain i where "i < regions b" "region_state r i = t" using assms by (rule run_absE)
    then show "run_abs b r p = Some s" using * t by simp
  qed
qed

lemma run_abs_set:
  assumes inv: "run_geom b r" and i: "i < regions b"
    and r': "key r' = key r" "reg_bitmap r' = set_bitmap_item (reg_bitmap r) i s"
  shows "run_abs b r' = (run_abs b r)(region_addr r b i \<mapsto> s)"
proof
  fix p
  have wf: "bin_wf b" using inv by (simp add: run_geom_def)
  have addr: "region_addr r' b = region_addr r b" using r' by (simp add: region_addr_def fun_eq_iff)
  show "run_abs b r' p = ((run_abs b r)(region_addr r b i \<mapsto> s)) p"
  proof (cases "p \<in> region_addr r b ` {..<regions b}")
    case True
    then obtain j where j: "j < regions b" "p = region_addr r b j" by auto
    then have "region_state r' j = (if i = j then s else region_state r j)"
      using region_state_set [OF inv i run_geom_valid [OF inv j(1)]] r' by (simp add: region_state_def)
    then show ?thesis
      using j run_abs_region [OF wf j(1), of r'] run_abs_region [OF wf j(1), of r]
        region_addr_inj [OF bin_wf_regions(4) [OF wf], of r i j] by (auto simp: addr)
  next
    case False
    then show ?thesis using i by (auto simp: run_abs_def addr)
  qed
qed

text \<open>
  A pointer is checked safely when its index lies in the bitmap; in all but eight of the 43
  size classes every pointer into the run does.
\<close>

definition ptr_checked :: "bin_t \<Rightarrow> run_t \<Rightarrow> addr \<Rightarrow> bool" where
  "ptr_checked b r p \<longleftrightarrow> p \<in> run_addr_range b r \<and>
     ((p - key r) mod reg_size b = 0 \<longrightarrow> (p - key r) div reg_size b < 4 * length (reg_bitmap r))"

lemma ptr_checked_region: "run_inv b r \<Longrightarrow> i < regions b \<Longrightarrow> ptr_checked b r (region_addr r b i)"
proof -
  assume inv: "run_inv b r" and i: "i < regions b"
  note wf = run_invD(2) [OF inv] and valid = run_geom_valid [OF run_invD(1) [OF inv] i]
  note n = bin_wf_regions [OF wf]
  have "i * reg_size b < regions b * reg_size b" using i n(4) by simp
  also note n(5)
  finally have "region_addr r b i \<in> run_addr_range b r" by (simp add: region_addr_def run_addr_range_def)
  moreover have "i < 4 * length (reg_bitmap r)" using valid by (simp add: bitmap_valid_def)
  ultimately show ?thesis using n(4) by (simp add: ptr_checked_def region_addr_def)
qed

lemma run_range_bound: "run_inv b r \<Longrightarrow> p \<in> run_addr_range b r \<Longrightarrow> key r \<le> p \<and> p < 2 ^ 63"
  by (auto simp: run_inv_def run_geom_def run_addr_range_def)

lemma run_deallocate_not_region:
  assumes inv: "run_inv b r" and p: "ptr_checked b r p" and no: "run_abs b r p = None"
  shows "run_deallocate r b p = ret (False, r)"
proof -
  let ?i = "(p - key r) div reg_size b"
  have bnd: "key r \<le> p" "p < 2 ^ 63" using run_range_bound [OF inv, of p] p by (simp_all add: ptr_checked_def)
  note wf = run_invD(2) [OF inv]
  have "run_validate_ptr r b p = ret SIZE_MAX"
  proof (cases "(p - key r) mod reg_size b = 0")
    case True
    then have "p = region_addr r b ?i" using bnd by (auto simp: region_addr_def)
    then have "\<not> ?i < regions b" using no run_abs_region [OF wf, of ?i r] by auto
    then have "regions b \<le> ?i" by simp
    moreover have valid: "bitmap_valid (reg_bitmap r) ?i"
      using p True by (simp add: ptr_checked_def bitmap_valid_def less_mult_imp_div_less mult.commute)
    ultimately have "region_state r ?i = STATE_FREE" using inv by (simp add: run_inv_def)
    then show ?thesis using valid bnd bin_wf_regions(4) [OF wf] by (simp add: run_validate_ptr_eq Let_def)
  qed (use bnd bin_wf_regions(4) [OF wf] in \<open>simp add: run_validate_ptr_eq Let_def\<close>)
  then show ?thesis by (simp add: run_deallocate_def)
qed

lemma run_allocate_spec:
  assumes inv: "run_inv b r" and nav: "\<not> run_is_depleted r"
  obtains p r' where "run_allocate r b = ret (p, r')" "run_inv b r'"
    "run_abs b r p = Some STATE_FREE" "run_abs b r' = (run_abs b r)(p \<mapsto> STATE_ALLOC)"
    "key r' = key r" "navail r = Suc (navail r')" "length (reg_bitmap r') = length (reg_bitmap r)"
    "nfreed r' = nfreed r" "fd r' = fd r" "bk r' = bk r"
proof -
  have pos: "0 < navail r" using nav by (simp add: run_is_depleted_def)
  note nxt = run_next_free [OF inv pos] and geom = run_invD(1) [OF inv]
  let ?r' = "r\<lparr>current_idx := next_idx b r, navail := navail r - 1,
       reg_bitmap := set_bitmap_item (reg_bitmap r) (next_idx b r) STATE_ALLOC\<rparr>"
  have "run_abs b ?r' = (run_abs b r)(region_addr r b (next_idx b r) \<mapsto> STATE_ALLOC)"
    using run_abs_set [OF geom nxt(1), of ?r'] by simp
  then show thesis
    using that [of "region_addr r b (next_idx b r)" ?r'] run_allocate_eq [OF inv pos] run_allocate_inv [OF inv pos]
      run_abs_region [OF run_invD(2) [OF inv] nxt(1), of r] nxt(2) pos
    by (simp add: set_bitmap_item_def)
qed

lemma run_deallocate_spec:
  assumes inv: "run_inv b r" and p: "ptr_checked b r p"
  shows "run_abs b r p \<noteq> Some STATE_ALLOC \<Longrightarrow> run_deallocate r b p = ret (False, r)"
    and "run_abs b r p = Some STATE_ALLOC \<Longrightarrow> \<exists>r'. run_deallocate r b p = ret (True, r') \<and> run_inv b r'
       \<and> run_abs b r' = (run_abs b r)(p \<mapsto> STATE_ALLOC_FREE) \<and> key r' = key r
       \<and> navail r' = navail r \<and> length (reg_bitmap r') = length (reg_bitmap r)
       \<and> nfreed r' = Suc (nfreed r) \<and> fd r' = fd r \<and> bk r' = bk r"
proof -
  note wf = run_invD(2) [OF inv] and geom = run_invD(1) [OF inv]
  show "run_deallocate r b p = ret (False, r)" if "run_abs b r p \<noteq> Some STATE_ALLOC"
  proof (cases "run_abs b r p")
    case None
    then show ?thesis by (rule run_deallocate_not_region [OF inv p])
  next
    case (Some s)
    then obtain i where "i < regions b" "p = region_addr r b i" "region_state r i = s" using wf by (rule run_absE)
    then show ?thesis using that Some by (simp add: run_deallocate_cases [OF inv])
  qed
  assume "run_abs b r p = Some STATE_ALLOC"
  then obtain i where i: "i < regions b" "p = region_addr r b i" "region_state r i = STATE_ALLOC"
    using wf by (rule run_absE)
  let ?r' = "r\<lparr>reg_bitmap := set_bitmap_item (reg_bitmap r) i STATE_ALLOC_FREE, nfreed := nfreed r + 1\<rparr>"
  have "run_abs b ?r' = (run_abs b r)(p \<mapsto> STATE_ALLOC_FREE)"
    using run_abs_set [OF geom i(1), of ?r'] i(2) by simp
  then show "\<exists>r'. run_deallocate r b p = ret (True, r') \<and> run_inv b r'
       \<and> run_abs b r' = (run_abs b r)(p \<mapsto> STATE_ALLOC_FREE) \<and> key r' = key r
       \<and> navail r' = navail r \<and> length (reg_bitmap r') = length (reg_bitmap r)
       \<and> nfreed r' = Suc (nfreed r) \<and> fd r' = fd r \<and> bk r' = bk r"
    using run_deallocate_cases [OF inv i(1)] run_deallocate_inv [OF inv i(1,3)] i
    by (intro exI [of _ ?r']) (simp add: set_bitmap_item_def)
qed

text \<open>A pointer in the range that is not checked is a multiple of the region size in the unused tail of the run, past the bitmap.\<close>

lemma run_deallocate_tail:
  assumes inv: "run_inv b r" and p: "p \<in> run_addr_range b r" "\<not> ptr_checked b r p"
  shows "run_deallocate r b p = fail Segv" "run_abs b r p = None"
proof -
  note wf = run_invD(2) [OF inv]
  have tail: "(p - key r) mod reg_size b = 0" "\<not> (p - key r) div reg_size b < 4 * length (reg_bitmap r)"
    using p by (auto simp: ptr_checked_def)
  then have "\<not> bitmap_valid (reg_bitmap r) ((p - key r) div reg_size b)"
    by (auto simp: bitmap_valid_def div_less_iff_less_mult mult.commute)
  then have "run_validate_ptr r b p = fail Segv"
    using run_range_bound [OF inv p(1)] bin_wf_regions(4) [OF wf] tail(1) by (simp add: run_validate_ptr_eq Let_def)
  then show "run_deallocate r b p = fail Segv" by (simp add: run_deallocate_def)
  have "\<exists>i < regions b. p = region_addr r b i" if "run_abs b r p = Some s" for s
    using that wf by (rule run_absE) blast
  then show "run_abs b r p = None" using p(2) ptr_checked_region [OF inv] by (metis not_Some_eq)
qed

subsection \<open>Sequences of operations\<close>

text \<open>
  A client of a run allocates while the run is not depleted and frees pointers in the run's
  range. \<open>run_exec\<close> logs what each operation did.
\<close>

datatype run_op = RAlloc | RFree addr
datatype run_event = Region addr | Depleted | Freed addr | Refused addr

fun run_step :: "bin_t \<Rightarrow> run_t \<Rightarrow> run_op \<Rightarrow> (run_event \<times> run_t) res" where
  "run_step b r RAlloc =
     (if run_is_depleted r then ret (Depleted, r)
      else bindR (run_allocate r b) (\<lambda>(p, r'). ret (Region p, r')))"
| "run_step b r (RFree p) =
     bindR (run_deallocate r b p) (\<lambda>(ok, r'). ret (if ok then Freed p else Refused p, r'))"

fun run_exec :: "bin_t \<Rightarrow> run_t \<Rightarrow> run_op list \<Rightarrow> (run_event list \<times> run_t) res" where
  "run_exec b r [] = ret ([], r)"
| "run_exec b r (x # xs) =
     bindR (run_step b r x) (\<lambda>(e, r1). bindR (run_exec b r1 xs) (\<lambda>(es, r2). ret (e # es, r2)))"

fun op_checked :: "bin_t \<Rightarrow> run_t \<Rightarrow> run_op \<Rightarrow> bool" where
  "op_checked b r RAlloc = True"
| "op_checked b r (RFree p) = ptr_checked b r p"

text \<open>How far a region has come in its life.\<close>

definition stage :: "bin_t \<Rightarrow> run_t \<Rightarrow> addr \<Rightarrow> nat" where
  "stage b r p = (case run_abs b r p of None \<Rightarrow> 0 | Some s \<Rightarrow> unat (bstate_val s))"

lemma stage_upd:
  "run_abs b r' = (run_abs b r)(p \<mapsto> s) \<Longrightarrow> stage b r' q = (if q = p then unat (bstate_val s) else stage b r q)"
  by (simp add: stage_def)

lemma ptr_checked_cong:
  "key r' = key r \<Longrightarrow> length (reg_bitmap r') = length (reg_bitmap r) \<Longrightarrow> ptr_checked b r' p = ptr_checked b r p"
  by (simp add: ptr_checked_def run_addr_range_def)

lemma run_step_ok:
  assumes inv: "run_inv b r" and ok: "op_checked b r x"
  shows "\<exists>e r'. run_step b r x = ret (e, r') \<and> run_inv b r' \<and> key r' = key r
     \<and> length (reg_bitmap r') = length (reg_bitmap r) \<and> dom (run_abs b r') = dom (run_abs b r)
     \<and> (\<forall>p. stage b r p \<le> stage b r' p
          \<and> (e = Region p \<longleftrightarrow> stage b r p = 0 \<and> stage b r' p \<noteq> 0)
          \<and> (e = Freed p \<longleftrightarrow> stage b r p < 2 \<and> 2 \<le> stage b r' p)
          \<and> (e = Region p \<or> e = Freed p \<longrightarrow> p \<in> dom (run_abs b r)))"
proof (cases x)
  case RAlloc
  show ?thesis
  proof (cases "run_is_depleted r")
    case False
    then obtain p r' where "run_allocate r b = ret (p, r')" "run_inv b r'"
      "run_abs b r p = Some STATE_FREE" "run_abs b r' = (run_abs b r)(p \<mapsto> STATE_ALLOC)"
      "key r' = key r" "length (reg_bitmap r') = length (reg_bitmap r)"
      using run_allocate_spec [OF inv] by metis
    then show ?thesis using False RAlloc by (auto simp: stage_upd) (auto simp: stage_def)
  qed (use RAlloc inv in auto)
next
  case (RFree p)
  then have chk: "ptr_checked b r p" using ok by simp
  show ?thesis
  proof (cases "run_abs b r p = Some STATE_ALLOC")
    case True
    then obtain r' where "run_deallocate r b p = ret (True, r')" "run_inv b r'"
      "run_abs b r' = (run_abs b r)(p \<mapsto> STATE_ALLOC_FREE)" "key r' = key r"
      "length (reg_bitmap r') = length (reg_bitmap r)"
      using run_deallocate_spec(2) [OF inv chk] by auto
    then show ?thesis using True RFree by (auto simp: stage_upd) (auto simp: stage_def)
  next
    case False
    then show ?thesis using run_deallocate_spec(1) [OF inv chk] RFree inv by auto
  qed
qed

definition regions_of :: "run_event list \<Rightarrow> addr list" where
  "regions_of es = [p. Region p \<leftarrow> es]"

definition freed_of :: "run_event list \<Rightarrow> addr list" where
  "freed_of es = [p. Freed p \<leftarrow> es]"

lemma log_simps [simp]:
  "regions_of [] = []" "freed_of [] = []"
  "regions_of (Region p # es) = p # regions_of es" "freed_of (Region p # es) = freed_of es"
  "regions_of (Freed p # es) = regions_of es" "freed_of (Freed p # es) = p # freed_of es"
  "regions_of (Refused p # es) = regions_of es" "freed_of (Refused p # es) = freed_of es"
  "regions_of (Depleted # es) = regions_of es" "freed_of (Depleted # es) = freed_of es"
  by (simp_all add: regions_of_def freed_of_def)

lemma count_log_Cons:
  "count_list (regions_of (e # es)) p = (if e = Region p then 1 else 0) + count_list (regions_of es) p"
  "count_list (freed_of (e # es)) p = (if e = Freed p then 1 else 0) + count_list (freed_of es) p"
  by (cases e; simp)+

lemma run_exec_ok:
  assumes "run_inv b r" "\<forall>x \<in> set xs. op_checked b r x"
  shows "\<exists>es r'. run_exec b r xs = ret (es, r') \<and> run_inv b r' \<and> key r' = key r
     \<and> length (reg_bitmap r') = length (reg_bitmap r) \<and> dom (run_abs b r') = dom (run_abs b r)
     \<and> (\<forall>p. stage b r p \<le> stage b r' p
          \<and> count_list (regions_of es) p = (if stage b r p = 0 \<and> stage b r' p \<noteq> 0 then 1 else 0)
          \<and> count_list (freed_of es) p = (if stage b r p < 2 \<and> 2 \<le> stage b r' p then 1 else 0))
     \<and> set (regions_of es) \<union> set (freed_of es) \<subseteq> dom (run_abs b r)"
  using assms
proof (induction xs arbitrary: r)
  case (Cons x xs)
  have "op_checked b r x" using Cons.prems(2) by simp
  then obtain e r1 where 1: "run_step b r x = ret (e, r1)" "run_inv b r1" "key r1 = key r"
      "length (reg_bitmap r1) = length (reg_bitmap r)" "dom (run_abs b r1) = dom (run_abs b r)"
    and st1: "\<forall>p. stage b r p \<le> stage b r1 p
          \<and> (e = Region p \<longleftrightarrow> stage b r p = 0 \<and> stage b r1 p \<noteq> 0)
          \<and> (e = Freed p \<longleftrightarrow> stage b r p < 2 \<and> 2 \<le> stage b r1 p)
          \<and> (e = Region p \<or> e = Freed p \<longrightarrow> p \<in> dom (run_abs b r))"
    using run_step_ok [OF Cons.prems(1)] by blast
  have "op_checked b r1 y" if "y \<in> set xs" for y
    using Cons.prems(2) that ptr_checked_cong [OF 1(3,4)] by (cases y) auto
  then obtain es r2 where 2: "run_exec b r1 xs = ret (es, r2)" "run_inv b r2" "key r2 = key r1"
      "length (reg_bitmap r2) = length (reg_bitmap r1)" "dom (run_abs b r2) = dom (run_abs b r1)"
      "set (regions_of es) \<union> set (freed_of es) \<subseteq> dom (run_abs b r1)"
    and st2: "\<forall>p. stage b r1 p \<le> stage b r2 p
          \<and> count_list (regions_of es) p = (if stage b r1 p = 0 \<and> stage b r2 p \<noteq> 0 then 1 else 0)
          \<and> count_list (freed_of es) p = (if stage b r1 p < 2 \<and> 2 \<le> stage b r2 p then 1 else 0)"
    using Cons.IH [OF 1(2)] by blast
  have "stage b r p \<le> stage b r2 p
      \<and> count_list (regions_of (e # es)) p = (if stage b r p = 0 \<and> stage b r2 p \<noteq> 0 then 1 else 0)
      \<and> count_list (freed_of (e # es)) p = (if stage b r p < 2 \<and> 2 \<le> stage b r2 p then 1 else 0)" for p
    using spec [OF st1, of p] spec [OF st2, of p] by (simp add: count_log_Cons)
  moreover have "set (regions_of (e # es)) \<union> set (freed_of (e # es)) \<subseteq> dom (run_abs b r)"
    using 2(6) 1(5) st1 by (cases e) auto
  ultimately show ?case using 1 2 by simp
qed auto

lemma stage_iff:
  assumes "run_inv b r" "p \<in> dom (run_abs b r)"
  shows "stage b r p = 0 \<longleftrightarrow> run_abs b r p = Some STATE_FREE"
    "stage b r p = 1 \<longleftrightarrow> run_abs b r p = Some STATE_ALLOC"
    "2 \<le> stage b r p \<longleftrightarrow> run_abs b r p = Some STATE_ALLOC_FREE"
proof -
  obtain s where s: "run_abs b r p = Some s" using assms(2) by auto
  then obtain i where "i < regions b" "region_state r i = s" using run_invD(2) [OF assms(1)] by (rule run_absE)
  then have "s \<noteq> STATE_UNNAMED" using run_invD(3) [OF assms(1)] by auto
  then show "stage b r p = 0 \<longleftrightarrow> run_abs b r p = Some STATE_FREE"
    "stage b r p = 1 \<longleftrightarrow> run_abs b r p = Some STATE_ALLOC"
    "2 \<le> stage b r p \<longleftrightarrow> run_abs b r p = Some STATE_ALLOC_FREE"
    using s by (cases s; simp add: stage_def)+
qed

lemma run_exec_allocs:
  assumes "run_inv b r" "k \<le> navail r"
  shows "\<exists>ps r'. run_exec b r (replicate k RAlloc) = ret (map Region ps, r') \<and> run_inv b r'
     \<and> navail r' = navail r - k"
  using assms
proof (induction k arbitrary: r)
  case 0
  then show ?case by auto
next
  case (Suc k)
  then have nd: "\<not> run_is_depleted r" by (simp add: run_is_depleted_def)
  then obtain p r1 where 1: "run_allocate r b = ret (p, r1)" "run_inv b r1" "navail r = Suc (navail r1)"
    using run_allocate_spec [OF Suc.prems(1)] by metis
  then obtain ps r2 where "run_exec b r1 (replicate k RAlloc) = ret (map Region ps, r2)" "run_inv b r2"
      "navail r2 = navail r1 - k"
    using Suc.IH [of r1] Suc.prems(2) by auto
  then show ?case using 1 nd by (intro exI [of _ "p # ps"]) auto
qed

lemma regions_of_map [simp]: "regions_of (map Region ps) = ps"
  by (induction ps) simp_all

lemma distinct_iff_count: "distinct xs \<longleftrightarrow> (\<forall>x. count_list xs x \<le> 1)"
proof (induction xs)
  case (Cons a xs)
  have "(\<forall>x. count_list (a # xs) x \<le> 1) \<longleftrightarrow> count_list xs a = 0 \<and> (\<forall>x. count_list xs x \<le> 1)"
    by (simp split: if_split) (metis le_0_eq le_SucI)
  then show ?case using Cons by (simp add: count_list_0_iff)
qed simp

lemma set_iff_count: "x \<in> set xs \<longleftrightarrow> count_list xs x \<noteq> 0"
  by (simp add: count_list_0_iff)

lemma run_freed_all:
  assumes "run_inv b r"
  shows "run_is_freeable r b \<longleftrightarrow> (\<forall>i < regions b. region_state r i = STATE_ALLOC_FREE)"
proof -
  let ?F = "{i \<in> {..<regions b}. region_state r i = STATE_ALLOC_FREE}"
  have "run_is_freeable r b \<longleftrightarrow> card ?F = card {..<regions b}"
    using assms by (simp add: run_is_freeable_def run_inv_def)
  also have "\<dots> \<longleftrightarrow> ?F = {..<regions b}"
  proof
    assume "card ?F = card {..<regions b}"
    then show "?F = {..<regions b}" by (intro card_subset_eq) auto
  qed simp
  finally show ?thesis by auto
qed

lemma depleted_iff:
  assumes "run_inv b r"
  shows "run_is_depleted r \<longleftrightarrow> (\<forall>i < regions b. region_state r i \<noteq> STATE_FREE)"
proof -
  have "run_is_depleted r \<longleftrightarrow> (\<lambda>j. (current_idx r + j * gen r) mod regions b) ` {1..navail r} = {}"
    by (auto simp: run_is_depleted_def)
  also have "\<dots> \<longleftrightarrow> {i \<in> {..<regions b}. region_state r i = STATE_FREE} = {}"
    using assms by (simp only: run_inv_def)
  finally show ?thesis by auto
qed

subsection \<open>Properties\<close>

text \<open>A bin of 8 KiB regions and a fresh run of it, for the witnesses.\<close>

definition ex_bin :: bin_t where
  "ex_bin = \<lparr>run_list_inactive = 0, run_list_active = 0, run_list_active_cnt = 0, avail_regs = 0,
     reg_size = 8192, run_size_pages = 4, reg_mask_size_bits = 4\<rparr>"

definition ex_run :: run_t where
  "ex_run = \<lparr>fd = 0, bk = 0, key = 65536, navail = 2, nfreed = 0, gen = 1, current_idx = 0, reg_bitmap = [0]\<rparr>"

lemma ex_bin_wf: "bin_wf ex_bin"
  by (auto simp: bin_wf_def ex_bin_def class_pages_def class_regions_def size_classes_def set_classes
      intro: exI [of _ 3])

lemma ex_run_states: "region_state ex_run i = STATE_FREE" if "i < 4"
  using that by (simp add: region_state_def ex_run_def get_bitmap_item_def bits2_get_def bstate_of_def)

lemma ex_run_inv: "run_inv ex_bin ex_run"
proof -
  have geom: "run_geom ex_bin ex_run"
    using ex_bin_wf by (simp add: run_geom_def ex_bin_def ex_run_def BITS2BYTES_CEIL_eq)
  have two: "{..<2} = {0, 1 :: nat}" "{1..2} = {1, 2 :: nat}" by auto
  have n: "regions ex_bin = 2" by (simp add: ex_bin_def)
  have "{i \<in> {..<2}. region_state ex_run i = STATE_FREE} = {0, 1}"
    unfolding two by (auto simp: ex_run_states)
  moreover have "(\<lambda>j. (current_idx ex_run + j * gen ex_run) mod 2) ` {1..navail ex_run} = {0, 1}"
    by (simp add: ex_run_def two [unfolded One_nat_def] two) auto
  moreover have "\<forall>i \<ge> 2. bitmap_valid (reg_bitmap ex_run) i \<longrightarrow> region_state ex_run i = STATE_FREE"
    using ex_run_states by (auto simp: bitmap_valid_def ex_run_def)
  moreover have "{i \<in> {..<2}. region_state ex_run i = STATE_ALLOC_FREE} = {}"
    using ex_run_states by fastforce
  moreover have "nfreed ex_run = 0" by (simp add: ex_run_def)
  ultimately show ?thesis
    using geom ex_run_states by (simp add: run_inv_def n)
qed

text \<open>C22: on a run that is not depleted, \<open>run_allocate\<close> returns without fault the
  address of a region that was free (its second assertion always holds), marks exactly that
  region as allocated, counts it off \<open>navail\<close> and keeps the invariant.\<close>

theorem run_allocate_correct:
  assumes "run_inv b r" "\<not> run_is_depleted r"
  shows "\<exists>p r'. run_allocate r b = ret (p, r') \<and> run_inv b r' \<and> p \<in> run_addr_range b r
     \<and> get_bitmap_item (reg_bitmap r) (next_idx b r) = STATE_FREE
     \<and> run_abs b r p = Some STATE_FREE \<and> run_abs b r' = (run_abs b r)(p \<mapsto> STATE_ALLOC)
     \<and> navail r = Suc (navail r')"
proof -
  obtain p r' where 1: "run_allocate r b = ret (p, r')" "run_inv b r'"
    "run_abs b r p = Some STATE_FREE" "run_abs b r' = (run_abs b r)(p \<mapsto> STATE_ALLOC)"
    "navail r = Suc (navail r')"
    using assms by (rule run_allocate_spec)
  then have "p \<in> run_addr_range b r"
    using ptr_checked_region [OF assms(1)] run_invD(2) [OF assms(1)] by (metis ptr_checked_def run_absE)
  then show ?thesis
    using 1 run_next_free(2) [OF assms(1)] by (auto simp: region_state_def)
qed

theorem run_allocate_correct_witness:
  "\<exists>p r'. run_allocate ex_run ex_bin = ret (p, r') \<and> run_abs ex_bin r' p = Some STATE_ALLOC"
  using run_allocate_correct [OF ex_run_inv] by (auto simp: run_is_depleted_def ex_run_def)

text \<open>C19: \<open>run_deallocate\<close> accepts a pointer into the run exactly when it is the
  address of an allocated region; it then marks that region as freed and counts it. Every
  other pointer that is \<open>ptr_checked\<close> (not a multiple of the region size, between the regions, never allocated or freed before) is refused
  and the run is unchanged. On the pointers that are left, the multiples of the region size in the unused tail of the run whose state
  would lie past the bitmap, the code reads out of bounds (a fault of the model).\<close>

theorem run_deallocate_correct:
  assumes "run_inv b r" "p \<in> run_addr_range b r"
  shows "if run_abs b r p = Some STATE_ALLOC
     then \<exists>r'. run_deallocate r b p = ret (True, r') \<and> run_inv b r'
       \<and> run_abs b r' = (run_abs b r)(p \<mapsto> STATE_ALLOC_FREE) \<and> nfreed r' = Suc (nfreed r)
       \<and> run_deallocate r' b p = ret (False, r')
     else run_deallocate r b p = (if ptr_checked b r p then ret (False, r) else fail Segv)"
proof (cases "ptr_checked b r p")
  case p: True
  show ?thesis
  proof (cases "run_abs b r p = Some STATE_ALLOC")
    case True
    then obtain r' where 1: "run_deallocate r b p = ret (True, r')" "run_inv b r'"
      "run_abs b r' = (run_abs b r)(p \<mapsto> STATE_ALLOC_FREE)" "key r' = key r"
      "length (reg_bitmap r') = length (reg_bitmap r)" "nfreed r' = Suc (nfreed r)"
      using run_deallocate_spec(2) [OF assms(1) p] by auto
    then have "ptr_checked b r' p" using p ptr_checked_cong [of r' r b p] by simp
    then show ?thesis using True 1 run_deallocate_spec(1) [of b r' p] by simp
  qed (use run_deallocate_spec(1) [OF assms(1) p] p in simp)
qed (use run_deallocate_tail [OF assms] in simp)

theorem run_deallocate_correct_witness:
  "run_deallocate ex_run ex_bin 65536 = ret (False, ex_run)"
proof -
  have "ptr_checked ex_bin ex_run 65536" "65536 \<in> run_addr_range ex_bin ex_run"
    by (simp_all add: ptr_checked_def run_addr_range_def ex_run_def ex_bin_def)
  moreover have "run_abs ex_bin ex_run 65536 \<noteq> Some STATE_ALLOC"
    using ex_run_states [of 0] by (simp add: run_abs_def) (simp add: ex_run_def)
  ultimately show ?thesis using run_deallocate_correct [OF ex_run_inv, of 65536] by simp
qed

text \<open>C17: one-time allocation. Over any sequence of allocations and deallocations of \<open>ptr_checked\<close> pointers into the run, valid or
  not, no call faults, the invariant is kept, the addresses handed out are pairwise distinct and are
  exactly the regions that stopped being free, and the addresses freed are pairwise distinct
  and are exactly the regions that became freed. No region is ever handed out again. Left out are only the deallocations of
  multiples of the region size in the unused tail of the run, past the bitmap, which fault (\<open>run_deallocate_correct\<close>).\<close>

theorem run_life_cycle:
  assumes "run_inv b r" "\<forall>x \<in> set xs. op_checked b r x"
  shows "\<exists>es r'. run_exec b r xs = ret (es, r') \<and> run_inv b r'
     \<and> distinct (regions_of es) \<and> distinct (freed_of es)
     \<and> set (regions_of es) = {p. run_abs b r p = Some STATE_FREE \<and> run_abs b r' p \<noteq> Some STATE_FREE}
     \<and> set (freed_of es) = {p. run_abs b r p \<noteq> Some STATE_ALLOC_FREE \<and> run_abs b r' p = Some STATE_ALLOC_FREE}"
proof -
  obtain es r' where 1: "run_exec b r xs = ret (es, r')" "run_inv b r'"
      "dom (run_abs b r') = dom (run_abs b r)"
    and st: "\<forall>p. stage b r p \<le> stage b r' p
          \<and> count_list (regions_of es) p = (if stage b r p = 0 \<and> stage b r' p \<noteq> 0 then 1 else 0)
          \<and> count_list (freed_of es) p = (if stage b r p < 2 \<and> 2 \<le> stage b r' p then 1 else 0)"
    and dom: "set (regions_of es) \<union> set (freed_of es) \<subseteq> dom (run_abs b r)"
    using run_exec_ok [OF assms] by blast
  have mem: "p \<in> set (regions_of es) \<longleftrightarrow> stage b r p = 0 \<and> stage b r' p \<noteq> 0"
    "p \<in> set (freed_of es) \<longleftrightarrow> \<not> 2 \<le> stage b r p \<and> 2 \<le> stage b r' p" for p
    unfolding set_iff_count using st by auto
  have abs: "p \<in> dom (run_abs b r) \<Longrightarrow> (stage b r p = 0 \<longleftrightarrow> run_abs b r p = Some STATE_FREE)
       \<and> (stage b r' p = 0 \<longleftrightarrow> run_abs b r' p = Some STATE_FREE)
       \<and> (2 \<le> stage b r p \<longleftrightarrow> run_abs b r p = Some STATE_ALLOC_FREE)
       \<and> (2 \<le> stage b r' p \<longleftrightarrow> run_abs b r' p = Some STATE_ALLOC_FREE)" for p
    using stage_iff(1,3) [OF assms(1)] stage_iff(1,3) [OF 1(2)] 1(3) by blast
  have "set (regions_of es) = {p. run_abs b r p = Some STATE_FREE \<and> run_abs b r' p \<noteq> Some STATE_FREE}"
    using dom mem(1) abs by blast
  moreover have "set (freed_of es) = {p. run_abs b r p \<noteq> Some STATE_ALLOC_FREE \<and> run_abs b r' p = Some STATE_ALLOC_FREE}"
    using dom mem(2) abs 1(3) by blast
  ultimately show ?thesis using 1 st by (simp add: distinct_iff_count)
qed

theorem run_life_cycle_witness:
  "\<exists>es r'. run_exec ex_bin ex_run [RAlloc, RFree 65536, RAlloc, RFree 73728] = ret (es, r')
     \<and> run_inv ex_bin r' \<and> distinct (regions_of es)"
proof -
  have "\<forall>x \<in> set [RAlloc, RFree 65536, RAlloc, RFree 73728]. op_checked ex_bin ex_run x"
    by (simp add: ptr_checked_def run_addr_range_def ex_run_def ex_bin_def)
  from run_life_cycle [OF ex_run_inv this] show ?thesis by blast
qed

text \<open>C18: for every size class and every state of the random generator, \<open>run_init\<close>
  followed by as many allocations as the bin has regions per run hands out every region of
  the block exactly once, in an order fixed by the random generator, and leaves the run
  depleted. This is why each entry of the generator tables must be coprime to the number of
  regions.\<close>

theorem run_init_correct:
  assumes "bin_wf b" "heap + run_size_pages b * 4096 < 2 ^ 63"
  shows "\<exists>r g' ps r'. run_init r0 b heap g = ret (r, g')
     \<and> run_exec b r (replicate (regions b) RAlloc) = ret (map Region ps, r')
     \<and> distinct ps \<and> set ps = (\<lambda>i. heap + i * reg_size b) ` {..<regions b} \<and> run_is_depleted r'"
proof -
  obtain r g' where 1: "run_init r0 b heap g = ret (r, g')" "run_inv b r" "key r = heap"
      "navail r = regions b" "\<forall>i < regions b. region_state r i = STATE_FREE"
    using run_init_ok [OF assms] by blast
  obtain ps r' where 2: "run_exec b r (replicate (regions b) RAlloc) = ret (map Region ps, r')" "run_inv b r'"
      "navail r' = 0"
    using run_exec_allocs [OF 1(2), of "regions b"] 1(4) by auto
  have "\<forall>x \<in> set (replicate (regions b) RAlloc). op_checked b r x" by simp
  then obtain es r'' where es: "run_exec b r (replicate (regions b) RAlloc) = ret (es, r'')"
      "\<forall>p. count_list (regions_of es) p = (if stage b r p = 0 \<and> stage b r'' p \<noteq> 0 then 1 else 0)"
      "dom (run_abs b r'') = dom (run_abs b r)" "set (regions_of es) \<subseteq> dom (run_abs b r)"
    using run_exec_ok [OF 1(2), of "replicate (regions b) RAlloc"] by auto
  then have eq: "es = map Region ps" "r'' = r'" using 2(1) by simp_all
  note cnt = es(2) [unfolded eq regions_of_map]
  have dom: "dom (run_abs b r) = (\<lambda>i. heap + i * reg_size b) ` {..<regions b}"
    using 1(3) by (auto simp: run_abs_def region_addr_def dom_def)
  have "p \<in> set ps" if p: "p \<in> dom (run_abs b r)" for p
  proof -
    have "run_abs b r p = Some STATE_FREE"
      using p 1(5) run_abs_all [OF assms(1), of r STATE_FREE] by blast
    moreover have "run_abs b r' p \<noteq> Some STATE_FREE"
      using depleted_iff [OF 2(2)] 2(3) by (auto simp: run_is_depleted_def elim: run_absE [OF _ assms(1)])
    moreover have "p \<in> dom (run_abs b r')" using p es(3) eq by simp
    ultimately show ?thesis
      using cnt stage_iff(1) [OF 1(2) p] stage_iff(1) [OF 2(2)] by (simp add: set_iff_count)
  qed
  then have "set ps = dom (run_abs b r)" using es(4) eq by auto
  then show ?thesis
    using 1(1) 2 cnt dom by (auto simp: run_is_depleted_def distinct_iff_count)
qed

theorem run_init_correct_witness:
  "\<exists>r g' ps r'. run_init ex_run ex_bin 65536 (rng.make 0 0) = ret (r, g')
     \<and> run_exec ex_bin r [RAlloc, RAlloc] = ret (map Region ps, r') \<and> set ps = {65536, 73728}"
proof -
  have "{..<2} = {0, 1 :: nat}" by auto
  then have 1: "(\<lambda>i. 65536 + i * 8192) ` {..<2} = {65536, 73728 :: nat}" by simp
  have 2: "regions ex_bin = 2" "reg_size ex_bin = 8192" "run_size_pages ex_bin = 4" by (simp_all add: ex_bin_def)
  have 3: "replicate 2 RAlloc = [RAlloc, RAlloc]" by (simp add: numeral_2_eq_2)
  show ?thesis using run_init_correct [OF ex_bin_wf, of 65536 ex_run "rng.make 0 0"] unfolding 2 1 3 by (auto simp del: run_exec.simps)
qed

text \<open>A run reports that its memory can be returned exactly when every one
  of its regions has been allocated and freed; such a run is depleted, so no region of it will
  be handed out later and no address in it is live.\<close>

theorem run_is_freeable_correct:
  assumes "run_inv b r"
  shows "(run_is_freeable r b \<longleftrightarrow> (\<forall>p \<in> dom (run_abs b r). run_abs b r p = Some STATE_ALLOC_FREE))
     \<and> (run_is_freeable r b \<longrightarrow> run_is_depleted r \<and> (\<forall>p. run_abs b r p \<noteq> Some STATE_ALLOC))"
proof -
  note wf = run_invD(2) [OF assms]
  have "run_is_freeable r b \<longleftrightarrow> (\<forall>p \<in> dom (run_abs b r). run_abs b r p = Some STATE_ALLOC_FREE)"
    unfolding run_freed_all [OF assms] run_abs_all [OF wf] ..
  moreover have "run_is_freeable r b \<Longrightarrow> run_is_depleted r"
    unfolding run_freed_all [OF assms] depleted_iff [OF assms] by simp
  ultimately show ?thesis by (metis bstate_t.distinct(7) domI option.inject)
qed

theorem run_is_freeable_correct_witness:
  "run_inv ex_bin ex_run \<and> \<not> run_is_freeable ex_run ex_bin"
proof -
  have "\<not> run_is_depleted ex_run" by (simp add: run_is_depleted_def ex_run_def)
  then show ?thesis using run_is_freeable_correct [OF ex_run_inv] ex_run_inv by blast
qed

text \<open>C34: a pointer into the unused tail of a run is not checked against the number of
  regions. In a run of 80-byte regions, whose bitmap has 51 bytes, validation of the pointer
  after the last region reads byte 51, one past the end of the bitmap; the read is
  out of bounds whatever the contents of the run.\<close>

theorem run_validate_tail:
  assumes "run_inv b r" "reg_size b = 80"
  shows "length (reg_bitmap r) = 51 \<and> key r + 204 * 80 \<in> run_addr_range b r
     \<and> run_validate_ptr r b (key r + 204 * 80) = fail Segv"
proof -
  note wf = run_invD(2) [OF assms(1)] and geom = run_invD(1) [OF assms(1)]
  have n: "regions b = 204" "run_size_pages b = 4"
    using bin_wf_regions(1) [OF wf] wf assms(2) by (simp_all add: class_regions_def bin_wf_def class_pages_def)
  then have len: "length (reg_bitmap r) = 51" using geom bitmap_bytes [OF wf] by (simp add: run_geom_def)
  then have "\<not> bitmap_valid (reg_bitmap r) 204" by (simp add: bitmap_valid_def)
  moreover have "key r + 204 * 80 \<in> run_addr_range b r" by (simp add: run_addr_range_def n)
  ultimately show ?thesis
    using run_range_bound [OF assms(1), of "key r + 204 * 80"] assms(2) len by (simp add: run_validate_ptr_eq)
qed

definition ex_bin80 :: bin_t where
  "ex_bin80 = ex_bin\<lparr>reg_size := 80, reg_mask_size_bits := 408\<rparr>"

lemma ex_bin80_wf: "bin_wf ex_bin80"
  by (auto simp: bin_wf_def ex_bin80_def ex_bin_def class_pages_def class_regions_def size_classes_def set_classes
      intro: exI [of _ 4])

theorem run_validate_tail_witness:
  "\<exists>r g'. run_init ex_run ex_bin80 65536 (rng.make 0 0) = ret (r, g') \<and> run_validate_ptr r ex_bin80 (65536 + 204 * 80) = fail Segv"
proof -
  have "reg_size ex_bin80 = 80" "65536 + run_size_pages ex_bin80 * 4096 < 2 ^ 63"
    by (simp_all add: ex_bin80_def ex_bin_def)
  then show ?thesis using run_init_ok [OF ex_bin80_wf, of 65536 ex_run] run_validate_tail [of ex_bin80] by metis
qed

end
