(* ===== verification/Bin.thy ===== *)
theory Bin
  imports Run
begin

text \<open>
  \<open>src/src/bin.c\<close>: a bin keeps the runs of one region size, the ones that still have free
  regions on its active list and the depleted ones on its inactive list. \<open>bin_init\<close> is in
  Metadata. The runs live in a store from addresses to \<open>run_t\<close>; a bin is passed
  by value and returned updated. Two pieces of \<open>src/src/sealloc.c\<close> that only touch one bin and its runs are here as
  well: the allocation of a region once the bin has enough of them, and the deallocation of
  a region up to the point where a freeable run is unlinked.
\<close>

type_synonym run_store = "addr \<rightharpoonup> run_t"

subsection \<open>Operations\<close>

definition bin_add_run :: "bin_t \<Rightarrow> run_store \<Rightarrow> addr \<Rightarrow> (bin_t \<times> run_store) res" where
  "bin_add_run bin h run =
     bindR (load h run) (\<lambda>r.
       let bin = bin\<lparr>avail_regs := u32 (avail_regs bin + navail r)\<rparr>;
           bin = bin\<lparr>run_list_active_cnt := u32 (run_list_active_cnt bin + 1)\<rparr>
       in bindR (ll_add h (run_list_active bin) run) (\<lambda>(head, h).
            ret (bin\<lparr>run_list_active := head\<rparr>, h)))"

definition bin_delete_run :: "bin_t \<Rightarrow> run_store \<Rightarrow> addr \<Rightarrow> (bin_t \<times> run_store) res" where
  "bin_delete_run bin h run =
     bindR (ll_del h (run_list_inactive bin) run) (\<lambda>(head, h). ret (bin\<lparr>run_list_inactive := head\<rparr>, h))"

text \<open>The loop of \<open>bin_get_run_for_allocation\<close>: it counts \<open>run_idx\<close> down while it walks.\<close>

fun nth_entry :: "run_store \<Rightarrow> addr \<Rightarrow> nat \<Rightarrow> addr res" where
  "nth_entry h entry 0 = (if entry = 0 then fail Exit else ret entry)"
| "nth_entry h entry (Suc run_idx) =
     (if entry = 0 then fail Exit else bindR (load h entry) (\<lambda>e. nth_entry h (fd e) run_idx))"

definition bin_get_run_for_allocation :: "bin_t \<Rightarrow> run_store \<Rightarrow> rng \<Rightarrow> (addr \<times> bin_t \<times> rng) res" where
  "bin_get_run_for_allocation bin h g =
     (let (r, g) = splitmix32 g
      in if run_list_active_cnt bin = 0 then fail DivByZero
         else bindR (nth_entry h (run_list_active bin) (unat r mod run_list_active_cnt bin)) (\<lambda>run.
           ret (run, bin\<lparr>avail_regs := sub32 (avail_regs bin) 1\<rparr>, g)))"

definition bin_retire_run :: "bin_t \<Rightarrow> run_store \<Rightarrow> addr \<Rightarrow> (bin_t \<times> run_store) res" where
  "bin_retire_run bin h run =
     bindR (ll_del h (run_list_active bin) run) (\<lambda>(head, h).
     let bin = bin\<lparr>run_list_active := head\<rparr> in
     bindR (ll_add h (run_list_inactive bin) run) (\<lambda>(head, h).
     let bin = bin\<lparr>run_list_inactive := head\<rparr> in
     ret (bin\<lparr>run_list_active_cnt := sub32 (run_list_active_cnt bin) 1\<rparr>, h)))"

definition bin_get_run_by_addr :: "bin_t \<Rightarrow> run_store \<Rightarrow> addr \<Rightarrow> addr res" where
  "bin_get_run_by_addr bin h run_ptr =
     bindR (ll_find h (run_list_active bin) run_ptr) (\<lambda>run.
       if run = 0 then ll_find h (run_list_inactive bin) run_ptr else ret run)"

text \<open>The end of \<open>sealloc_allocate_with_bin\<close>: choose a run, allocate, retire the run when depleted.\<close>

definition allocate_from_runs :: "bin_t \<Rightarrow> run_store \<Rightarrow> rng \<Rightarrow> (addr \<times> bin_t \<times> run_store \<times> rng) res" where
  "allocate_from_runs bin h g =
     bindR (bin_get_run_for_allocation bin h g) (\<lambda>(run, bin, g).
     bindR (load h run) (\<lambda>r.
     bindR (run_allocate r bin) (\<lambda>(ptr, r).
     let h = h(run \<mapsto> r) in
     if run_is_depleted r then
       bindR (bin_retire_run bin h run) (\<lambda>(bin, h). ret (ptr, bin, h, g))
     else ret (ptr, bin, h, g))))"

text \<open>
  The beginning of \<open>sealloc_free_with_metadata\<close>: an invalid pointer aborts; the result says
  whether the run has become freeable and was taken off the inactive list.
\<close>

definition deallocate_in_run :: "bin_t \<Rightarrow> run_store \<Rightarrow> addr \<Rightarrow> addr \<Rightarrow> (bool \<times> bin_t \<times> run_store) res" where
  "deallocate_in_run bin h run ptr =
     bindR (load h run) (\<lambda>r.
     bindR (run_deallocate r bin ptr) (\<lambda>(ok, r).
     if \<not> ok then fail Abort
     else let h = h(run \<mapsto> r) in
       if run_is_freeable r bin then
         bindR (bin_delete_run bin h run) (\<lambda>(bin, h). ret (True, bin, h))
       else ret (False, bin, h)))"

subsection \<open>Representation\<close>

text \<open>The links of a run and the lists of its bin do not matter to the run's invariant.\<close>

lemma unlink_run [simp]:
  "navail (unlink r) = navail r" "nfreed (unlink r) = nfreed r" "gen (unlink r) = gen r"
  "current_idx (unlink r) = current_idx r" "reg_bitmap (unlink r) = reg_bitmap r"
  by (simp_all add: unlink_def)

lemma run_inv_unlink: "run_inv b (unlink r) = run_inv b r"
  by (simp add: run_inv_def run_geom_def region_state_def)

lemma run_abs_unlink: "run_abs b (unlink r) = run_abs b r"
  by (simp add: run_abs_def region_state_def region_addr_def fun_eq_iff)

lemma run_addr_range_unlink: "run_addr_range b (unlink r) = run_addr_range b r"
  by (simp add: run_addr_range_def)

lemmas unlink_cong = run_inv_unlink run_abs_unlink run_addr_range_unlink unlink_run unlink_simps(3)

lemma unlink_observed:
  assumes "unlink r' = unlink r"
  shows "run_inv b r' = run_inv b r" "run_abs b r' = run_abs b r" "run_addr_range b r' = run_addr_range b r"
    "run_is_depleted r' = run_is_depleted r" "navail r' = navail r" "key r' = key r"
proof -
  show "run_inv b r' = run_inv b r" by (simp only: run_inv_unlink [symmetric, of b r'] assms run_inv_unlink)
  show "run_abs b r' = run_abs b r" by (simp only: run_abs_unlink [symmetric, of b r'] assms run_abs_unlink)
  show "run_addr_range b r' = run_addr_range b r"
    by (simp only: run_addr_range_unlink [symmetric, of b r'] assms run_addr_range_unlink)
  show navail: "navail r' = navail r" by (simp only: unlink_run(1) [symmetric, of r'] assms unlink_run(1))
  show "key r' = key r" by (simp only: unlink_simps(3) [symmetric, of r'] assms unlink_simps(3))
  show "run_is_depleted r' = run_is_depleted r" by (simp add: run_is_depleted_def navail)
qed

definition same_geometry :: "bin_t \<Rightarrow> bin_t \<Rightarrow> bool" where
  "same_geometry b b' \<longleftrightarrow> reg_size b' = reg_size b \<and> run_size_pages b' = run_size_pages b
     \<and> reg_mask_size_bits b' = reg_mask_size_bits b"

lemma geometry_cong:
  assumes "same_geometry b b'"
  shows "bin_wf b' = bin_wf b" "run_inv b' r = run_inv b r" "run_abs b' r = run_abs b r"
    "run_addr_range b' r = run_addr_range b r" "run_allocate r b' = run_allocate r b"
  using assms
  by (simp_all add: same_geometry_def bin_wf_def run_inv_def run_geom_def run_abs_def region_addr_def
      run_addr_range_def run_allocate_def Let_def fun_eq_iff cong: image_cong)

lemma same_geometry_upd [simp]:
  "same_geometry b (b'\<lparr>avail_regs := n\<rparr>) = same_geometry b b'"
  "same_geometry b (b'\<lparr>run_list_active := p\<rparr>) = same_geometry b b'"
  "same_geometry b (b'\<lparr>run_list_inactive := p\<rparr>) = same_geometry b b'"
  "same_geometry b (b'\<lparr>run_list_active_cnt := n\<rparr>) = same_geometry b b'"
  "same_geometry b b"
  by (simp_all add: same_geometry_def)

abbreviation run_at :: "run_store \<Rightarrow> addr \<Rightarrow> run_t" where
  "run_at h x \<equiv> the (h x)"

text \<open>What holds of the runs of a bin, whatever the order of the lists.\<close>

definition runs_ok :: "bin_t \<Rightarrow> run_store \<Rightarrow> addr set \<Rightarrow> addr set \<Rightarrow> bool" where
  "runs_ok b h A I \<longleftrightarrow>
     (\<forall>x \<in> A \<union> I. run_inv b (run_at h x))
     \<and> (\<forall>x \<in> A. \<not> run_is_depleted (run_at h x)) \<and> (\<forall>x \<in> I. run_is_depleted (run_at h x))
     \<and> (\<forall>x \<in> A \<union> I. \<forall>y \<in> A \<union> I. x \<noteq> y \<longrightarrow>
          run_addr_range b (run_at h x) \<inter> run_addr_range b (run_at h y) = {})"

definition bin_rep :: "bin_t \<Rightarrow> run_store \<Rightarrow> addr list \<Rightarrow> addr list \<Rightarrow> bool" where
  "bin_rep b h act inact \<longleftrightarrow> bin_wf b
     \<and> ll_list h (run_list_active b) act \<and> ll_list h (run_list_inactive b) inact
     \<and> set act \<inter> set inact = {} \<and> run_list_active_cnt b = length act
     \<and> avail_regs b = (\<Sum>x \<in> set act. navail (run_at h x)) \<and> avail_regs b < 2 ^ 32
     \<and> runs_ok b h (set act) (set inact)"

lemma bin_repD:
  assumes "bin_rep b h act inact"
  shows "bin_wf b" "ll_list h (run_list_active b) act" "ll_list h (run_list_inactive b) inact"
    "set act \<inter> set inact = {}" "run_list_active_cnt b = length act"
    "avail_regs b = (\<Sum>x \<in> set act. navail (run_at h x))" "avail_regs b < 2 ^ 32"
    "runs_ok b h (set act) (set inact)"
  using assms by (simp_all add: bin_rep_def)

lemma bin_rep_node:
  assumes "bin_rep b h act inact" "x \<in> set act \<union> set inact"
  obtains r where "h x = Some r" "x \<noteq> 0" "run_inv b r"
proof -
  have "x \<noteq> 0 \<and> (\<exists>r. h x = Some r)"
    using assms(2) ll_list_node [OF bin_repD(2) [OF assms(1)]] ll_list_node [OF bin_repD(3) [OF assms(1)]] by auto
  moreover have "run_inv b (run_at h x)" using assms by (simp add: bin_rep_def runs_ok_def)
  ultimately show thesis using that by auto
qed

lemma runs_ok_cong:
  assumes "same_geometry b b'" "\<And>x. x \<in> A \<union> I \<Longrightarrow> unlink (run_at h' x) = unlink (run_at h x)"
  shows "runs_ok b' h' A I = runs_ok b h A I"
proof -
  have eq: "run_inv b (run_at h' x) = run_inv b (run_at h x)"
    "run_addr_range b (run_at h' x) = run_addr_range b (run_at h x)"
    "run_is_depleted (run_at h' x) = run_is_depleted (run_at h x)" if "x \<in> A \<union> I" for x
    using unlink_observed [OF assms(2) [OF that]] by simp_all
  show ?thesis
    unfolding runs_ok_def geometry_cong(2,4) [OF assms(1)]
    using eq by simp
qed

lemma links_only_at:
  assumes "links_only S h h'" "h x = Some r"
  shows "unlink (run_at h' x) = unlink (run_at h x)"
proof -
  obtain r' where "h' x = Some r'" "unlink r' = unlink r" using assms by (rule links_only_Some)
  then show ?thesis using assms(2) by simp
qed

lemma sum_navail_links:
  assumes "\<And>x. x \<in> A \<Longrightarrow> unlink (run_at h' x) = unlink (run_at h x)"
  shows "(\<Sum>x \<in> A. navail (run_at h' x)) = (\<Sum>x \<in> A. navail (run_at h x))"
  by (intro sum.cong refl unlink_observed(5) assms)

text \<open>Every active run has a region left, so there are at most \<open>avail_regs\<close> of them.\<close>

lemma active_le_avail:
  assumes "bin_rep b h act inact"
  shows "length act \<le> avail_regs b"
proof -
  have "card (set act) = (\<Sum>x \<in> set act. 1)" by simp
  also have "\<dots> \<le> (\<Sum>x \<in> set act. navail (run_at h x))"
    using bin_repD(8) [OF assms] by (intro sum_mono) (simp add: runs_ok_def run_is_depleted_def Suc_leI)
  finally show ?thesis
    using bin_repD(6) [OF assms] distinct_card [OF ll_list_distinct [OF bin_repD(2) [OF assms]]] by simp
qed

subsection \<open>The operations keep the representation\<close>

lemma bin_add_run_ok:
  assumes rep: "bin_rep b h act inact" and run: "h run = Some r" "run \<noteq> 0" "run \<notin> set act \<union> set inact"
    and r: "run_inv b r" "\<not> run_is_depleted r"
      "\<And>x. x \<in> set act \<union> set inact \<Longrightarrow> run_addr_range b (run_at h x) \<inter> run_addr_range b r = {}"
    and lim: "avail_regs b + navail r < 2 ^ 32"
  shows "\<exists>b' h'. bin_add_run b h run = ret (b', h') \<and> bin_rep b' h' (run # act) inact
     \<and> same_geometry b b' \<and> avail_regs b' = avail_regs b + navail r \<and> links_only (set (run # act)) h h'"
proof -
  note b = bin_repD [OF rep]
  obtain h' where h': "ll_add h (run_list_active b) run = ret (run, h')" "ll_list h' run (run # act)"
      "ll_list h' (run_list_inactive b) inact" "links_only (set (run # act)) h h'"
    using ll.add_other [OF b(2,3) _ run(2) _ run(1)] run(3) b(4) by auto
  let ?b' = "b\<lparr>avail_regs := avail_regs b + navail r, run_list_active_cnt := length act + 1, run_list_active := run\<rparr>"
  have "length act < 2 ^ 32 - 1"
    using active_le_avail [OF rep] lim r(2) by (simp add: run_is_depleted_def)
  then have eq: "bin_add_run b h run = ret (?b', h')"
    using run lim h'(1) b(5) by (simp add: bin_add_run_def wrap_simps)
  have at: "unlink (run_at h' x) = unlink (run_at h x)" if "x \<in> set (run # act) \<union> set inact" for x
    using that bin_rep_node [OF rep, of x] run(1) links_only_at [OF h'(4), of x] by (metis Un_iff set_ConsD)
  have "runs_ok b h (set (run # act)) (set inact)"
    using b(8) run r by (auto simp: runs_ok_def)
  then have "runs_ok ?b' h' (set (run # act)) (set inact)"
    by (subst runs_ok_cong [of b _ _ _ h' h]) (simp_all add: at)
  moreover have "(\<Sum>x \<in> set (run # act). navail (run_at h' x)) = avail_regs b + navail r"
  proof -
    have "(\<Sum>x \<in> set (run # act). navail (run_at h' x)) = (\<Sum>x \<in> set (run # act). navail (run_at h x))"
      by (rule sum_navail_links, rule at) auto
    then show ?thesis using run b(6) by simp
  qed
  moreover have "bin_wf ?b'" using b(1) geometry_cong(1) [of b ?b'] by simp
  ultimately have "bin_rep ?b' h' (run # act) inact"
    using h' run(3) lim b(4) by (simp add: bin_rep_def)
  then show ?thesis using eq h'(4) by (intro exI [of _ ?b'] exI [of _ h']) simp
qed

lemma nth_entry_ok:
  "dseg h p c xs l 0 \<Longrightarrow> i < length xs \<Longrightarrow> nth_entry h c i = ret (xs ! i)"
proof (induction xs arbitrary: p c i)
  case (Cons x xs)
  then show ?case by (cases i) (auto split: option.splits)
qed simp

lemma bin_get_run_ok:
  assumes rep: "bin_rep b h act inact" and pos: "0 < avail_regs b" and x: "splitmix32 g = (v, g')"
  shows "bin_get_run_for_allocation b h g =
     ret (act ! (unat v mod length act), b\<lparr>avail_regs := avail_regs b - 1\<rparr>, g')" "act \<noteq> []"
proof -
  note b = bin_repD [OF rep]
  show ne: "act \<noteq> []" using pos b(6) by auto
  then have "nth_entry h (run_list_active b) (unat v mod length act) = ret (act ! (unat v mod length act))"
    using b(2) by (intro nth_entry_ok) (auto simp: ll_list_def)
  moreover have "sub32 (avail_regs b) 1 = avail_regs b - 1" using pos b(7) by (simp add: wrap_simps)
  ultimately show "bin_get_run_for_allocation b h g =
     ret (act ! (unat v mod length act), b\<lparr>avail_regs := avail_regs b - 1\<rparr>, g')"
    using ne x b(5) by (simp add: bin_get_run_for_allocation_def)
qed

text \<open>
  Retiring is called between the last allocation and the return, when the lists are those
  of the bin but one active run has become depleted; only the lists matter to it.
\<close>

lemma bin_retire_run_ok:
  assumes "ll_list h (run_list_active b) act" "ll_list h (run_list_inactive b) inact" "set act \<inter> set inact = {}"
    "run_list_active_cnt b = length act" "length act < 2 ^ 32" "x \<in> set act"
  obtains b' h' where "bin_retire_run b h x = ret (b', h')" "same_geometry b b'" "avail_regs b' = avail_regs b"
    "ll_list h' (run_list_active b') (remove1 x act)" "ll_list h' (run_list_inactive b') (x # inact)"
    "run_list_active_cnt b' = length (remove1 x act)" "links_only (set act \<union> set inact) h h'"
proof -
  have "set inact \<inter> set act = {}" using assms(3) by auto
  then obtain hd1 h1 h2 where m: "ll_del h (run_list_active b) x = ret (hd1, h1)"
      "ll_add h1 (run_list_inactive b) x = ret (x, h2)"
      "ll_list h2 hd1 (remove1 x act)" "ll_list h2 x (x # inact)"
      "links_only (insert x (set act \<union> set inact)) h h2"
    using ll.move [OF assms(1,2) _ assms(6)] by metis
  have ins: "insert x (set act \<union> set inact) = set act \<union> set inact" using assms(6) by auto
  have "1 \<le> length act" using assms(6) by (cases act) auto
  then have "sub32 (length act) 1 = length act - 1" using assms(5) by (intro sub32_small) simp_all
  then have cnt: "sub32 (length act) 1 = length (remove1 x act)" using assms(6) by (simp add: length_remove1)
  show ?thesis
    by (rule that [of "b\<lparr>run_list_active := hd1, run_list_inactive := x, run_list_active_cnt := length (remove1 x act)\<rparr>" h2])
      (use m assms(4) cnt ins in \<open>simp_all add: bin_retire_run_def Let_def\<close>)
qed

lemma bin_get_run_by_addr_ok:
  assumes rep: "bin_rep b h act inact"
  shows "x \<in> set act \<union> set inact \<Longrightarrow> key (run_at h x) = p \<Longrightarrow> bin_get_run_by_addr b h p = ret x"
    and "(\<And>x. x \<in> set act \<union> set inact \<Longrightarrow> key (run_at h x) \<noteq> p) \<Longrightarrow> bin_get_run_by_addr b h p = ret 0"
proof -
  note b = bin_repD [OF rep]
  have key_at: "key_at h y = Some q \<longleftrightarrow> key (run_at h y) = q" if "y \<in> set act \<union> set inact" for y q
    by (rule bin_rep_node [OF rep that]) simp
  show "bin_get_run_by_addr b h p = ret x" if x: "x \<in> set act \<union> set inact" "key (run_at h x) = p"
  proof -
    have uniq: "y = x" if y: "y \<in> set act \<union> set inact" "key (run_at h y) = p" for y
    proof (rule ccontr)
      assume "y \<noteq> x"
      then have "run_addr_range b (run_at h x) \<inter> run_addr_range b (run_at h y) = {}"
        using b(8) x(1) y(1) by (auto simp: runs_ok_def)
      moreover have "0 < run_size_pages b"
        using bin_wf_regions(2,4,5) [OF b(1)] by (metis gr0I mult_is_0 le_zero_eq less_numeral_extra(3))
      then have "p \<in> run_addr_range b (run_at h x)" "p \<in> run_addr_range b (run_at h y)"
        using x(2) y(2) by (simp_all add: run_addr_range_def)
      ultimately show False by auto
    qed
    show ?thesis
    proof (cases "x \<in> set act")
      case True
      then have "ll_find h (run_list_active b) p = ret x"
        by (intro ll.search_unique [OF b(2)]) (use x uniq key_at in auto)
      then show ?thesis using bin_rep_node [OF rep x(1)] by (auto simp: bin_get_run_by_addr_def)
    next
      case False
      have "ll_find h (run_list_active b) p = ret 0"
        by (intro ll.search_absent [OF b(2)]) (use uniq key_at False in auto)
      moreover have "ll_find h (run_list_inactive b) p = ret x"
        by (intro ll.search_unique [OF b(3)]) (use x uniq key_at False in auto)
      ultimately show ?thesis by (simp add: bin_get_run_by_addr_def)
    qed
  qed
  assume none: "\<And>x. x \<in> set act \<union> set inact \<Longrightarrow> key (run_at h x) \<noteq> p"
  have "ll_find h (run_list_active b) p = ret 0" "ll_find h (run_list_inactive b) p = ret 0"
    by (intro ll.search_absent [OF b(2)] ll.search_absent [OF b(3)]; use none key_at in auto)+
  then show "bin_get_run_by_addr b h p = ret 0" by (simp add: bin_get_run_by_addr_def)
qed

subsection \<open>Regions of a bin\<close>

definition bin_regions :: "bin_t \<Rightarrow> run_store \<Rightarrow> addr set \<Rightarrow> bstate_t \<Rightarrow> addr set" where
  "bin_regions b h X s = {p. \<exists>x \<in> X. run_abs b (run_at h x) p = Some s}"

lemma run_abs_range: "run_inv b r \<Longrightarrow> run_abs b r p = Some s \<Longrightarrow> p \<in> run_addr_range b r"
  using ptr_checked_region [of b r] run_invD(2) [of b r] by (metis ptr_checked_def run_absE)

lemma runs_ok_single:
  assumes "runs_ok b h A I" "x \<in> A \<union> I" "y \<in> A \<union> I" "run_abs b (run_at h x) p = Some s"
    "run_abs b (run_at h y) p = Some t"
  shows "x = y"
proof (rule ccontr)
  assume "x \<noteq> y"
  then have "run_addr_range b (run_at h x) \<inter> run_addr_range b (run_at h y) = {}"
    using assms(1-3) by (auto simp: runs_ok_def)
  moreover have "p \<in> run_addr_range b (run_at h x)" "p \<in> run_addr_range b (run_at h y)"
    using run_abs_range assms unfolding runs_ok_def by blast+
  ultimately show False by auto
qed

lemma bin_regions_upd:
  assumes ok: "runs_ok b h A I" and x: "x \<in> A \<union> I" "run_abs b (run_at h x) p = Some s"
    and x': "run_abs b (run_at h' x) = (run_abs b (run_at h x))(p \<mapsto> t)"
    and other: "\<And>y. y \<in> A \<union> I \<Longrightarrow> y \<noteq> x \<Longrightarrow> run_abs b (run_at h' y) = run_abs b (run_at h y)"
  shows "bin_regions b h' (A \<union> I) u = (if u = t then insert p (bin_regions b h (A \<union> I) u)
           else bin_regions b h (A \<union> I) u - {p})"
proof -
  have no: "run_abs b (run_at h y) p = None" if "y \<in> A \<union> I" "y \<noteq> x" for y
    using runs_ok_single [OF ok x(1) that(1) x(2)] that(2) by (cases "run_abs b (run_at h y) p") auto
  have new: "(\<exists>y \<in> A \<union> I. run_abs b (run_at h' y) q = Some u) \<longleftrightarrow>
      (if q = p then u = t else (\<exists>y \<in> A \<union> I. run_abs b (run_at h y) q = Some u))" for q
  proof (cases "q = p")
    case True
    have "(\<exists>y \<in> A \<union> I. run_abs b (run_at h' y) p = Some u) \<longleftrightarrow> run_abs b (run_at h' x) p = Some u"
      using x(1) other no by (metis option.distinct(1))
    then show ?thesis using True x' by auto
  next
    case False
    have "run_abs b (run_at h' y) q = run_abs b (run_at h y) q" if "y \<in> A \<union> I" for y
      using other [OF that] x' False by (cases "y = x") simp_all
    then show ?thesis using False by (metis (no_types))
  qed
  show ?thesis unfolding bin_regions_def new by auto
qed

lemma runs_ok_upd:
  assumes "runs_ok b h A I" "x \<in> A \<union> I" "run_inv b r'" "key r' = key (run_at h x)"
    "A' \<union> I' = A \<union> I" "A' \<subseteq> insert x A" "I' \<subseteq> insert x I"
    "x \<in> A' \<Longrightarrow> \<not> run_is_depleted r'" "x \<in> I' \<Longrightarrow> run_is_depleted r'"
  shows "runs_ok b (h(x \<mapsto> r')) A' I'"
proof -
  have range: "run_addr_range b (run_at (h(x \<mapsto> r')) y) = run_addr_range b (run_at h y)" for y
    using assms(4) by (simp add: run_addr_range_def)
  show ?thesis
    unfolding runs_ok_def range assms(5)
    using assms(1,3,6-9) unfolding runs_ok_def by (auto simp: subset_iff)
qed

lemma allocate_from_runs_ok:
  assumes rep: "bin_rep b h act inact" and pos: "0 < avail_regs b"
  obtains x p b' h' g' act' inact' where
    "allocate_from_runs b h g = ret (p, b', h', g')" "bin_rep b' h' act' inact'" "same_geometry b b'"
    "set act' \<union> set inact' = set act \<union> set inact" "avail_regs b = Suc (avail_regs b')"
    "x \<in> set act" "run_abs b (run_at h x) p = Some STATE_FREE"
    "run_abs b (run_at h' x) = (run_abs b (run_at h x))(p \<mapsto> STATE_ALLOC)"
    "\<And>y. y \<in> set act \<union> set inact \<Longrightarrow> y \<noteq> x \<Longrightarrow> unlink (run_at h' y) = unlink (run_at h y)"
    "\<And>y. y \<notin> set act \<union> set inact \<Longrightarrow> h' y = h y" "key (run_at h' x) = key (run_at h x)"
proof -
  note b = bin_repD [OF rep]
  obtain v g' where g: "splitmix32 g = (v, g')" by (cases "splitmix32 g")
  define x where "x = act ! (unat v mod length act)"
  let ?b1 = "b\<lparr>avail_regs := avail_regs b - 1\<rparr>"
  have get: "bin_get_run_for_allocation b h g = ret (x, ?b1, g')" and ne: "act \<noteq> []"
    using bin_get_run_ok [OF rep pos g] by (simp_all add: x_def)
  have x: "x \<in> set act" using ne by (simp add: x_def)
  then obtain r where r: "h x = Some r" "x \<noteq> 0" "run_inv b r" using bin_rep_node [OF rep] by (metis Un_iff)
  have nd: "\<not> run_is_depleted r" using b(8) x r(1) by (auto simp: runs_ok_def)
  obtain p r' where a: "run_allocate r b = ret (p, r')" "run_inv b r'"
    "run_abs b r p = Some STATE_FREE" "run_abs b r' = (run_abs b r)(p \<mapsto> STATE_ALLOC)"
    "key r' = key r" "navail r = Suc (navail r')" "fd r' = fd r" "bk r' = bk r"
    using run_allocate_spec [OF r(3) nd] by metis
  define h1 where "h1 = h(x \<mapsto> r')"
  have geo: "same_geometry b ?b1" by simp
  have a1: "run_allocate r ?b1 = ret (p, r')" using a(1) geometry_cong(5) [OF geo] by simp
  have links: "map_option links (h1 y) = map_option links (h y)" for y
    using r(1) a(7,8) by (simp add: h1_def links_def)
  have lists: "ll_list h1 (run_list_active ?b1) act" "ll_list h1 (run_list_inactive ?b1) inact"
    using ll.rep_frame [OF b(2) links] ll.rep_frame [OF b(3) links] by simp_all
  have fin: "(\<Sum>y \<in> set act. navail (run_at h y)) = navail r + (\<Sum>y \<in> set act - {x}. navail (run_at h1 y))"
    using x r(1) by (simp add: sum.remove [of _ x] h1_def)
  have avail: "avail_regs b - 1 = navail r' + (\<Sum>y \<in> set act - {x}. navail (run_at h1 y))"
    using fin b(6) a(6) by simp
  have at_x: "run_at h1 x = r'" by (simp add: h1_def)
  have frame: "\<And>y. y \<notin> set act \<union> set inact \<Longrightarrow> h1 y = h y" using x by (auto simp: h1_def)
  have abs1: "run_abs b (run_at h x) p = Some STATE_FREE"
    "run_abs b r' = (run_abs b (run_at h x))(p \<mapsto> STATE_ALLOC)" "key r' = key (run_at h x)"
    using a(3-5) r(1) by simp_all
  have wf1: "bin_wf ?b1" using b(1) geometry_cong(1) [OF geo] by simp
  have less: "avail_regs ?b1 < 2 ^ 32" using b(7) by simp
  show thesis
  proof (cases "run_is_depleted r'")
    case False
    have ok: "runs_ok b h1 (set act) (set inact)"
      unfolding h1_def using b(4,8) x a(2,5) False r(1) by (intro runs_ok_upd) auto
    have ok1: "runs_ok ?b1 h1 (set act) (set inact)" by (subst runs_ok_cong [OF geo, of _ _ h1 h1]) (simp_all add: ok)
    have sum1: "avail_regs ?b1 = (\<Sum>y \<in> set act. navail (run_at h1 y))"
      using avail x at_x by (simp add: sum.remove [of _ x])
    show thesis
    proof (rule that)
      show "allocate_from_runs b h g = ret (p, ?b1, h1, g')"
        using get a1 r False by (simp add: allocate_from_runs_def h1_def)
      show "bin_rep ?b1 h1 act inact"
        unfolding bin_rep_def using wf1 lists b(4,5) sum1 less ok1 by (intro conjI) simp_all
      show "avail_regs b = Suc (avail_regs ?b1)" using pos by simp
      show "run_abs b (run_at h1 x) = (run_abs b (run_at h x))(p \<mapsto> STATE_ALLOC)" "key (run_at h1 x) = key (run_at h x)"
        unfolding at_x by (fact abs1)+
      show "unlink (run_at h1 y) = unlink (run_at h y)" if "y \<noteq> x" for y using that by (simp add: h1_def)
    qed (fact geo x abs1(1) frame refl)+
  next
    case True
    have lim: "length act < 2 ^ 32" using active_le_avail [OF rep] b(7) by linarith
    have cnt: "run_list_active_cnt ?b1 = length act" using b(5) by simp
    obtain b2 h2 where ret: "bin_retire_run ?b1 h1 x = ret (b2, h2)" "same_geometry ?b1 b2"
      "avail_regs b2 = avail_regs ?b1"
      "ll_list h2 (run_list_active b2) (remove1 x act)" "ll_list h2 (run_list_inactive b2) (x # inact)"
      "run_list_active_cnt b2 = length (remove1 x act)" "links_only (set act \<union> set inact) h1 h2"
      by (rule bin_retire_run_ok [OF lists b(4) cnt lim x])
    have geo2: "same_geometry b b2" using ret(2) by (simp add: same_geometry_def)
    have set1: "set (remove1 x act) = set act - {x}" using ll_list_distinct [OF b(2)] by simp
    have at2: "unlink (run_at h2 y) = unlink (run_at h1 y)" if "y \<in> set act \<union> set inact" for y
      using bin_rep_node [OF rep that] links_only_at [OF ret(7), of y] by (metis fun_upd_apply h1_def)
    note obs = unlink_observed [OF at2, of x, unfolded at_x]
    have ok: "runs_ok b h1 (set act - {x}) (insert x (set inact))"
      unfolding h1_def using b(4,8) x a(2,5) True r(1) by (intro runs_ok_upd) auto
    have ok2: "runs_ok b2 h2 (set act - {x}) (insert x (set inact))"
      by (subst runs_ok_cong [OF geo2, of _ _ h2 h1]) (use x at2 ok in auto)
    have "(\<Sum>y \<in> set act - {x}. navail (run_at h2 y)) = (\<Sum>y \<in> set act - {x}. navail (run_at h1 y))"
      by (rule sum_navail_links, rule at2) simp
    then have sum2: "avail_regs b2 = (\<Sum>y \<in> set act - {x}. navail (run_at h2 y))"
      using avail True ret(3) by (simp add: run_is_depleted_def)
    show thesis
    proof (rule that)
      show "allocate_from_runs b h g = ret (p, b2, h2, g')"
        using get a1 r True ret(1) by (simp add: allocate_from_runs_def h1_def)
      show "bin_rep b2 h2 (remove1 x act) (x # inact)"
        unfolding bin_rep_def set1 list.set using ret(3-6) b(1,4) sum2 less ok2 geometry_cong(1) [OF geo2]
        by (intro conjI) auto
      show "avail_regs b = Suc (avail_regs b2)" using pos ret(3) by simp
      show "set (remove1 x act) \<union> set (x # inact) = set act \<union> set inact" using set1 x by auto
      show "run_abs b (run_at h2 x) = (run_abs b (run_at h x))(p \<mapsto> STATE_ALLOC)" "key (run_at h2 x) = key (run_at h x)"
        using obs(2,6) x abs1 by simp_all
      show "unlink (run_at h2 y) = unlink (run_at h y)" if "y \<in> set act \<union> set inact" "y \<noteq> x" for y
        using at2 [OF that(1)] that(2) by (simp add: h1_def)
      show "h2 y = h y" if "y \<notin> set act \<union> set inact" for y
        using frame [OF that] ret(7) that by (simp add: links_only_def)
    qed (fact geo2 x abs1(1))+
  qed
qed

lemma deallocate_in_run_ok:
  assumes rep: "bin_rep b h act inact" and x: "x \<in> set act \<union> set inact"
    and p: "ptr_checked b (run_at h x) p" "run_abs b (run_at h x) p = Some STATE_ALLOC"
  obtains r' fr b' h' where
    "deallocate_in_run b h x p = ret (fr, b', h')" "same_geometry b b'" "run_inv b r'" "fr = run_is_freeable r' b"
    "run_abs b r' = (run_abs b (run_at h x))(p \<mapsto> STATE_ALLOC_FREE)" "key r' = key (run_at h x)"
    "unlink (run_at h' x) = unlink r'" "fr \<longrightarrow> x \<in> set inact"
    "bin_rep b' h' act (if fr then remove1 x inact else inact)" "avail_regs b' = avail_regs b"
    "\<And>y. y \<noteq> x \<Longrightarrow> y \<in> set act \<union> set inact \<Longrightarrow> unlink (run_at h' y) = unlink (run_at h y)"
    "\<And>y. y \<notin> set act \<union> set inact \<Longrightarrow> h' y = h y" "x \<noteq> 0" "h' x = Some (run_at h' x)"
proof -
  note b = bin_repD [OF rep]
  obtain r where r: "h x = Some r" "x \<noteq> 0" "run_inv b r" using rep x by (rule bin_rep_node)
  have p': "ptr_checked b r p" "run_abs b r p = Some STATE_ALLOC" using p r(1) by simp_all
  obtain r' where d: "run_deallocate r b p = ret (True, r')" "run_inv b r'"
    "run_abs b r' = (run_abs b r)(p \<mapsto> STATE_ALLOC_FREE)" "key r' = key r" "navail r' = navail r"
    "fd r' = fd r" "bk r' = bk r"
    using run_deallocate_spec(2) [OF r(3) p'] by blast
  define h1 where "h1 = h(x \<mapsto> r')"
  have at_x: "run_at h1 x = r'" by (simp add: h1_def)
  have abs1: "run_abs b r' = (run_abs b (run_at h x))(p \<mapsto> STATE_ALLOC_FREE)" "key r' = key (run_at h x)"
    using d(3,4) r(1) by simp_all
  have links: "map_option links (h1 y) = map_option links (h y)" for y
    using r(1) d(6,7) by (simp add: h1_def links_def)
  have lists: "ll_list h1 (run_list_active b) act" "ll_list h1 (run_list_inactive b) inact"
    using ll.rep_frame [OF b(2) links] ll.rep_frame [OF b(3) links] by simp_all
  have nav: "navail (run_at h1 y) = navail (run_at h y)" for y using r(1) d(5) by (simp add: h1_def)
  have depl: "run_is_depleted r' = run_is_depleted (run_at h x)" using r(1) d(5) by (simp add: run_is_depleted_def)
  have ok: "runs_ok b h1 (set act) (set inact)"
    unfolding h1_def using b(8) x d(2) abs1(2) depl by (intro runs_ok_upd) (auto simp: runs_ok_def)
  have rep1: "bin_rep b h1 act inact"
    unfolding bin_rep_def nav using b lists ok by (intro conjI) simp_all
  have frame: "\<And>y. y \<notin> set act \<union> set inact \<Longrightarrow> h1 y = h y" using x by (auto simp: h1_def)
  show thesis
  proof (cases "run_is_freeable r' b")
    case False
    show thesis
    proof (rule that)
      show "deallocate_in_run b h x p = ret (False, b, h1)"
        using r(1,2) d(1) False by (simp add: deallocate_in_run_def h1_def)
      show "unlink (run_at h1 y) = unlink (run_at h y)" if "y \<noteq> x" for y using that by (simp add: h1_def)
    qed (use rep1 False d(2) abs1 at_x frame r(2) in \<open>simp_all add: h1_def\<close>)
  next
    case True
    then have "run_is_depleted r'" using run_freed_all [OF d(2)] depleted_iff [OF d(2)] by simp
    then have xi: "x \<in> set inact" using depl x b(8) by (auto simp: runs_ok_def)
    obtain hd2 h2 where del: "ll_del h1 (run_list_inactive b) x = ret (hd2, h2)"
      "ll_list h2 hd2 (remove1 x inact)" "ll_list h2 (run_list_active b) act" "links_only (set inact) h1 h2"
      using ll.del_other [OF lists(2,1) b(4) xi] by metis
    let ?b2 = "b\<lparr>run_list_inactive := hd2\<rparr>"
    have geo: "same_geometry b ?b2" by simp
    have at2: "unlink (run_at h2 y) = unlink (run_at h1 y)" if "y \<in> set act \<union> set inact" for y
      using bin_rep_node [OF rep1 that] links_only_at [OF del(4)] by metis
    have set1: "set (remove1 x inact) = set inact - {x}" using ll_list_distinct [OF b(3)] by simp
    have "runs_ok b h1 (set act) (set inact - {x})" using ok unfolding runs_ok_def by blast
    then have ok2: "runs_ok ?b2 h2 (set act) (set inact - {x})"
      by (subst runs_ok_cong [OF geo, of _ _ h2 h1]) (use at2 in auto)
    have "(\<Sum>y \<in> set act. navail (run_at h2 y)) = (\<Sum>y \<in> set act. navail (run_at h1 y))"
      by (rule sum_navail_links, rule at2) simp
    then have sum2: "avail_regs b = (\<Sum>y \<in> set act. navail (run_at h2 y))" using bin_repD(6) [OF rep1] by simp
    show thesis
    proof (rule that)
      show "deallocate_in_run b h x p = ret (True, ?b2, h2)"
        using r(1,2) d(1) True del(1) by (simp add: deallocate_in_run_def bin_delete_run_def h1_def)
      show "bin_rep ?b2 h2 act (if True then remove1 x inact else inact)"
        unfolding bin_rep_def if_True set1 using b(1,4,5,7) del(2,3) sum2 ok2 geometry_cong(1) [OF geo]
        by (intro conjI) auto
      show "unlink (run_at h2 y) = unlink (run_at h y)" if "y \<noteq> x" "y \<in> set act \<union> set inact" for y
        using at2 [OF that(2)] that(1) by (simp add: h1_def)
      show "h2 y = h y" if "y \<notin> set act \<union> set inact" for y
        using frame [OF that] del(4) that by (simp add: links_only_def)
      show "unlink (run_at h2 x) = unlink r'" using at2 [OF x] at_x by simp
      have "h2 x \<noteq> None" using links_only_dom [OF del(4), of x] by (simp add: h1_def)
      then show "h2 x = Some (run_at h2 x)" by auto
    qed (use geo d(2) True abs1 xi r(2) in simp_all)
  qed
qed

lemma deallocate_in_run_abort:
  assumes "bin_rep b h act inact" "x \<in> set act \<union> set inact"
    "ptr_checked b (run_at h x) p" "run_abs b (run_at h x) p \<noteq> Some STATE_ALLOC"
  shows "deallocate_in_run b h x p = fail Abort"
proof -
  obtain r where r: "h x = Some r" "x \<noteq> 0" "run_inv b r" using assms(1,2) by (rule bin_rep_node)
  then have "run_deallocate r b p = ret (False, r)" using run_deallocate_spec(1) [OF r(3)] assms(3,4) by simp
  then show ?thesis using r by (simp add: deallocate_in_run_def)
qed

lemma deallocate_in_run_tail:
  assumes "bin_rep b h act inact" "x \<in> set act \<union> set inact" "p \<in> run_addr_range b (run_at h x)" "\<not> ptr_checked b (run_at h x) p"
  shows "deallocate_in_run b h x p = fail Segv" "run_abs b (run_at h x) p = None"
proof -
  obtain r where r: "h x = Some r" "x \<noteq> 0" "run_inv b r" using assms(1,2) by (rule bin_rep_node)
  note t = run_deallocate_tail [OF r(3), of p]
  show "deallocate_in_run b h x p = fail Segv" "run_abs b (run_at h x) p = None"
    using r t assms(3,4) by (simp_all add: deallocate_in_run_def)
qed

subsection \<open>Properties\<close>

text \<open>A bin with one fresh run, for the witnesses.\<close>

definition ex_bin1 :: bin_t where
  "ex_bin1 = ex_bin\<lparr>run_list_active := 16, run_list_active_cnt := 1, avail_regs := 2\<rparr>"

definition ex_runs :: run_store where
  "ex_runs = [16 \<mapsto> ex_run, 48 \<mapsto> ex_run\<lparr>key := 131072\<rparr>]"

lemma ex_bin1_rep: "bin_rep ex_bin1 ex_runs [16] []"
proof -
  have geo: "same_geometry ex_bin ex_bin1" by (simp add: ex_bin1_def)
  have nd: "\<not> run_is_depleted ex_run" by (simp add: run_is_depleted_def ex_run_def)
  have "runs_ok ex_bin ex_runs {16} {}" using ex_run_inv nd by (simp add: runs_ok_def ex_runs_def)
  then have "runs_ok ex_bin1 ex_runs {16} {}" by (subst runs_ok_cong [OF geo]) simp_all
  moreover have "bin_wf ex_bin1" using ex_bin_wf geometry_cong(1) [OF geo] by simp
  moreover have "ll_list ex_runs 16 [16]" by (simp add: ll_list_def ex_runs_def ex_run_def)
  ultimately show ?thesis by (simp add: bin_rep_def ex_bin1_def ex_bin_def) (simp add: ex_runs_def ex_run_def)
qed

text \<open>Adding a fresh run to a bin keeps the representation: the run becomes the
  head of the active list, the counters of runs and of available regions stay exact, and
  looking the run up by its heap address afterwards returns it.\<close>

theorem bin_add_run_correct:
  assumes "bin_rep b h act inact" "h run = Some r" "run \<noteq> 0" "run \<notin> set act \<union> set inact"
    and "run_inv b r" "\<not> run_is_depleted r"
    and "\<And>x. x \<in> set act \<union> set inact \<Longrightarrow> run_addr_range b (run_at h x) \<inter> run_addr_range b r = {}"
    and "avail_regs b + navail r < 2 ^ 32"
  shows "\<exists>b' h'. bin_add_run b h run = ret (b', h') \<and> bin_rep b' h' (run # act) inact
     \<and> avail_regs b' = avail_regs b + navail r \<and> run_list_active_cnt b' = Suc (run_list_active_cnt b)
     \<and> bin_get_run_by_addr b' h' (key r) = ret run"
proof -
  obtain b' h' where 1: "bin_add_run b h run = ret (b', h')" "bin_rep b' h' (run # act) inact"
     "avail_regs b' = avail_regs b + navail r" "links_only (set (run # act)) h h'"
    using bin_add_run_ok [OF assms] by blast
  have "key (run_at h' run) = key r"
    using unlink_observed(6) [OF links_only_at [OF 1(4) assms(2)]] assms(2) by simp
  then have "bin_get_run_by_addr b' h' (key r) = ret run"
    by (intro bin_get_run_by_addr_ok(1) [OF 1(2)]) simp_all
  then show ?thesis using 1 bin_repD(5) [OF 1(2)] bin_repD(5) [OF assms(1)] by simp
qed

theorem bin_add_run_correct_witness:
  "\<exists>b' h'. bin_add_run ex_bin1 ex_runs 48 = ret (b', h') \<and> bin_rep b' h' [48, 16] []"
proof -
  let ?r = "ex_run\<lparr>key := 131072\<rparr>"
  have geo: "same_geometry ex_bin ex_bin1" by (simp add: ex_bin1_def)
  have "run_inv ex_bin ?r"
    using ex_run_inv by (simp add: run_inv_def run_geom_def region_state_def) (simp add: ex_bin_def)
  then have inv: "run_inv ex_bin1 ?r" using geometry_cong(2) [OF geo] by simp
  have "run_addr_range ex_bin1 (run_at ex_runs 16) \<inter> run_addr_range ex_bin1 ?r = {}"
    by (simp add: run_addr_range_def ex_bin1_def ex_bin_def ex_runs_def ex_run_def)
  then show ?thesis
    using bin_add_run_correct [OF ex_bin1_rep, of 48 ?r, OF _ _ _ inv]
    by (simp add: ex_runs_def run_is_depleted_def ex_run_def ex_bin1_def ex_bin_def) blast
qed

text \<open>Looking a heap address up in a bin never faults; it returns a run of the
  active or the inactive list whose heap starts there, or NULL when there is none. The run is
  unique, because the runs of a bin own disjoint blocks.\<close>

theorem bin_get_run_by_addr_correct:
  assumes "bin_rep b h act inact"
  shows "\<exists>x. bin_get_run_by_addr b h p = ret x
     \<and> (if x = 0 then \<forall>y \<in> set act \<union> set inact. key (run_at h y) \<noteq> p
        else x \<in> set act \<union> set inact \<and> (\<forall>y \<in> set act \<union> set inact. key (run_at h y) = p \<longleftrightarrow> y = x))"
proof (cases "\<exists>x \<in> set act \<union> set inact. key (run_at h x) = p")
  case True
  then obtain x where x: "x \<in> set act \<union> set inact" "key (run_at h x) = p" by blast
  have get: "bin_get_run_by_addr b h p = ret y" if "y \<in> set act \<union> set inact" "key (run_at h y) = p" for y
    using bin_get_run_by_addr_ok(1) [OF assms that] .
  have "x \<noteq> 0" using bin_rep_node [OF assms x(1)] by metis
  moreover have "key (run_at h y) = p \<longleftrightarrow> y = x" if "y \<in> set act \<union> set inact" for y
    using get [OF that] get [OF x] x(2) by auto
  ultimately show ?thesis using get [OF x] x(1) by (intro exI [of _ x]) simp
next
  case False
  then show ?thesis by (intro exI [of _ 0]) (auto intro: bin_get_run_by_addr_ok(2) [OF assms])
qed

theorem bin_get_run_by_addr_correct_witness:
  "bin_get_run_by_addr ex_bin1 ex_runs 65536 = ret 16"
proof -
  have key: "key (run_at ex_runs 16) = 65536" by (simp add: ex_runs_def ex_run_def)
  obtain x where "bin_get_run_by_addr ex_bin1 ex_runs 65536 = ret x"
    "if x = 0 then \<forall>y \<in> set [16] \<union> set []. key (run_at ex_runs y) \<noteq> 65536
     else x \<in> set [16] \<union> set [] \<and> (\<forall>y \<in> set [16] \<union> set []. key (run_at ex_runs y) = 65536 \<longleftrightarrow> y = x)"
    using bin_get_run_by_addr_correct [OF ex_bin1_rep] by blast
  then show ?thesis using key by (cases "x = 0") auto
qed

text \<open>C20: when a bin has an available region, choosing a run, allocating from it and
  retiring it when depleted never faults (the list is never too short), whatever run the
  random generator picks. The region returned was free and becomes the only new allocated
  region of the bin; all others keep their state, \<open>avail_regs\<close> drops by one, and every run
  without a free region is on the inactive list again.\<close>

theorem allocate_from_runs_correct:
  assumes "bin_rep b h act inact" "0 < avail_regs b"
  shows "\<exists>p b' h' g' act' inact'. allocate_from_runs b h g = ret (p, b', h', g')
     \<and> bin_rep b' h' act' inact' \<and> set act' \<union> set inact' = set act \<union> set inact
     \<and> avail_regs b = Suc (avail_regs b')
     \<and> p \<in> bin_regions b h (set act \<union> set inact) STATE_FREE
     \<and> bin_regions b' h' (set act' \<union> set inact') STATE_FREE =
         bin_regions b h (set act \<union> set inact) STATE_FREE - {p}
     \<and> bin_regions b' h' (set act' \<union> set inact') STATE_ALLOC =
         insert p (bin_regions b h (set act \<union> set inact) STATE_ALLOC)
     \<and> bin_regions b' h' (set act' \<union> set inact') STATE_ALLOC_FREE =
         bin_regions b h (set act \<union> set inact) STATE_ALLOC_FREE"
proof -
  let ?X = "set act \<union> set inact"
  obtain x p b' h' g' act' inact' where 1: "allocate_from_runs b h g = ret (p, b', h', g')"
    "bin_rep b' h' act' inact'" "same_geometry b b'" "set act' \<union> set inact' = ?X"
    "avail_regs b = Suc (avail_regs b')" "x \<in> set act" "run_abs b (run_at h x) p = Some STATE_FREE"
    "run_abs b (run_at h' x) = (run_abs b (run_at h x))(p \<mapsto> STATE_ALLOC)"
    and other: "\<And>y. y \<in> ?X \<Longrightarrow> y \<noteq> x \<Longrightarrow> unlink (run_at h' y) = unlink (run_at h y)"
    by (rule allocate_from_runs_ok [OF assms, of g]) (rule that)
  have x: "x \<in> ?X" using 1(6) by simp
  have new: "bin_regions b' h' ?X s = (if s = STATE_ALLOC then insert p (bin_regions b h ?X s)
      else bin_regions b h ?X s - {p})" for s
    using bin_regions_upd [OF bin_repD(8) [OF assms(1)] x 1(7,8) unlink_observed(2) [OF other]]
      geometry_cong(3) [OF 1(3)] by (simp add: bin_regions_def)
  have "p \<in> bin_regions b h ?X STATE_FREE" using 1(7) x by (auto simp: bin_regions_def)
  moreover have "p \<notin> bin_regions b h ?X STATE_ALLOC_FREE"
    using runs_ok_single [OF bin_repD(8) [OF assms(1)] x _ 1(7)] 1(7) by (fastforce simp: bin_regions_def)
  ultimately show ?thesis
    using 1(1,2,4,5) new by (intro exI [of _ p] exI [of _ b'] exI [of _ h'] exI [of _ g'] exI [of _ act'] exI [of _ inact']) simp
qed

theorem allocate_from_runs_correct_witness:
  "\<exists>p b' h' g' act' inact'. allocate_from_runs ex_bin1 ex_runs (rng.make 0 0) = ret (p, b', h', g')
     \<and> bin_rep b' h' act' inact' \<and> avail_regs b' = 1"
proof -
  have "avail_regs ex_bin1 = 2" by (simp add: ex_bin1_def)
  then show ?thesis using allocate_from_runs_correct [OF ex_bin1_rep, of "rng.make 0 0"] by auto
qed

text \<open>C21: freeing a pointer into a run of a bin, when it is the
  address of an allocated region of that run, makes exactly that region freed, and
  the representation is kept; the run is reported freeable, and is then off the inactive list,
  exactly when all of its regions have been freed. Every other pointer that is \<open>ptr_checked\<close> aborts. On the multiples of the region
  size in the unused tail of the run whose state would lie past the bitmap, the code reads out of bounds (a fault of the model).\<close>

theorem deallocate_in_run_correct:
  assumes "bin_rep b h act inact" "x \<in> set act \<union> set inact" "p \<in> run_addr_range b (run_at h x)"
  shows "if run_abs b (run_at h x) p = Some STATE_ALLOC
     then \<exists>fr b' h'. deallocate_in_run b h x p = ret (fr, b', h')
       \<and> bin_rep b' h' act (if fr then remove1 x inact else inact) \<and> (fr \<longrightarrow> x \<in> set inact)
       \<and> run_abs b' (run_at h' x) = (run_abs b (run_at h x))(p \<mapsto> STATE_ALLOC_FREE)
       \<and> (fr \<longleftrightarrow> (\<forall>q \<in> dom (run_abs b' (run_at h' x)). run_abs b' (run_at h' x) q = Some STATE_ALLOC_FREE))
       \<and> (\<forall>y \<in> set act \<union> set inact. y \<noteq> x \<longrightarrow> run_abs b' (run_at h' y) = run_abs b (run_at h y))
     else deallocate_in_run b h x p = fail (if ptr_checked b (run_at h x) p then Abort else Segv)"
proof (cases "run_abs b (run_at h x) p = Some STATE_ALLOC")
  case True
  have checked: "ptr_checked b (run_at h x) p" using True deallocate_in_run_tail(2) [OF assms] by fastforce
  obtain r' fr b' h' where 1: "deallocate_in_run b h x p = ret (fr, b', h')" "same_geometry b b'" "run_inv b r'"
    "fr = run_is_freeable r' b" "run_abs b r' = (run_abs b (run_at h x))(p \<mapsto> STATE_ALLOC_FREE)"
    "unlink (run_at h' x) = unlink r'" "fr \<longrightarrow> x \<in> set inact"
    "bin_rep b' h' act (if fr then remove1 x inact else inact)"
    "\<And>y. y \<noteq> x \<Longrightarrow> y \<in> set act \<union> set inact \<Longrightarrow> unlink (run_at h' y) = unlink (run_at h y)"
    by (rule deallocate_in_run_ok [OF assms(1,2) checked True]) (rule that)
  note geo = geometry_cong(3) [OF 1(2)]
  have abs: "run_abs b' (run_at h' x) = run_abs b r'" using unlink_observed(2) [OF 1(6)] geo by simp
  have wf: "bin_wf b" using bin_repD(1) [OF assms(1)] .
  have "fr \<longleftrightarrow> (\<forall>q \<in> dom (run_abs b r'). run_abs b r' q = Some STATE_ALLOC_FREE)"
    unfolding 1(4) run_freed_all [OF 1(3)] run_abs_all [OF wf] ..
  moreover have "\<forall>y \<in> set act \<union> set inact. y \<noteq> x \<longrightarrow> run_abs b' (run_at h' y) = run_abs b (run_at h y)"
    using unlink_observed(2) [OF 1(9)] geo by simp
  ultimately show ?thesis
    unfolding if_P [OF True] using 1(1,5,7,8)
    by (intro exI [of _ fr] exI [of _ b'] exI [of _ h'], unfold abs) blast
qed (use deallocate_in_run_abort [OF assms(1,2), of p] deallocate_in_run_tail(1) [OF assms] in simp)

theorem deallocate_in_run_correct_witness:
  "deallocate_in_run ex_bin1 ex_runs 16 65536 = fail Abort"
proof -
  have geo: "same_geometry ex_bin ex_bin1" by (simp add: ex_bin1_def)
  have at: "run_at ex_runs 16 = ex_run" by (simp add: ex_runs_def)
  have "ptr_checked ex_bin1 (run_at ex_runs 16) 65536" "65536 \<in> run_addr_range ex_bin1 (run_at ex_runs 16)"
    unfolding at by (simp_all add: ptr_checked_def run_addr_range_def ex_run_def ex_bin1_def ex_bin_def)
  moreover have "run_abs ex_bin1 (run_at ex_runs 16) 65536 \<noteq> Some STATE_ALLOC"
    unfolding at geometry_cong(3) [OF geo] using ex_run_states [of 0] by (simp add: run_abs_def) (simp add: ex_run_def)
  ultimately show ?thesis
    using deallocate_in_run_correct [OF ex_bin1_rep, of 16 65536] by (simp only: if_False) simp
qed

end
