(* ===== verification/Tree_Index.thy ===== *)
theory Tree_Index
  imports Main
begin

text \<open>
  Both buddy allocators keep a complete binary tree in an array, the children of node
  \<open>idx\<close> at \<open>2 idx\<close> and \<open>2 idx + 1\<close>. This theory has the index arithmetic they share:
  subtrees, levels and leaf ranges.
\<close>

subsection \<open>Subtrees\<close>

text \<open>The nodes below \<open>idx\<close>, itself included.\<close>

definition below :: "nat \<Rightarrow> nat set" where
  "below idx = {k. \<exists>j. k div 2 ^ j = idx}"

lemma below_self [simp]: "idx \<in> below idx"
  unfolding below_def by (intro CollectI exI [of _ 0]) simp

lemma below_child: "k \<in> below (idx * 2) \<Longrightarrow> k \<in> below idx" "k \<in> below (idx * 2 + 1) \<Longrightarrow> k \<in> below idx"
proof -
  have up: "k \<in> below c \<Longrightarrow> k \<in> below (c div 2)" for c
  proof -
    assume "k \<in> below c"
    then obtain j where "k div 2 ^ j = c" by (auto simp: below_def)
    then have "k div 2 ^ Suc j = c div 2" by (simp only: power_Suc2 div_mult2_eq)
    then show "k \<in> below (c div 2)" unfolding below_def by blast
  qed
  show "k \<in> below (idx * 2) \<Longrightarrow> k \<in> below idx" "k \<in> below (idx * 2 + 1) \<Longrightarrow> k \<in> below idx"
    using up [of "idx * 2"] up [of "idx * 2 + 1"] by simp_all
qed

lemma below_ge: "k \<in> below idx \<Longrightarrow> idx \<le> k"
  unfolding below_def by (auto intro: div_le_dividend)

lemma below_parent: "1 \<le> idx \<Longrightarrow> idx \<notin> below (idx * 2)" "1 \<le> idx \<Longrightarrow> idx \<notin> below (idx * 2 + 1)"
  using below_ge by force+

lemma below_disjoint:
  assumes "1 \<le> idx" "k \<in> below (idx * 2)"
  shows "k \<notin> below (idx * 2 + 1)"
proof
  assume "k \<in> below (idx * 2 + 1)"
  then obtain j where j: "k div 2 ^ j = idx * 2 + 1" by (auto simp: below_def)
  obtain i where i: "k div 2 ^ i = idx * 2" using assms(2) by (auto simp: below_def)
  show False
  proof (cases "i \<le> j")
    case True
    then have "k div 2 ^ j = k div 2 ^ i div 2 ^ (j - i)"
      by (simp only: div_mult2_eq [symmetric] power_add [symmetric] le_add_diff_inverse)
    also have "\<dots> \<le> k div 2 ^ i" by (rule div_le_dividend)
    finally show False using i j by simp
  next
    case False
    then obtain m where m: "i = j + Suc m" by (metis add_Suc_right less_imp_Suc_add linorder_not_le)
    have "k div 2 ^ i = k div 2 ^ j div 2 div 2 ^ m"
      unfolding m by (simp only: power_add power_Suc div_mult2_eq)
    also have "\<dots> = idx div 2 ^ m" using j by simp
    also have "\<dots> \<le> idx" by (rule div_le_dividend)
    finally show False using i assms(1) by simp
  qed
qed

end
