(* ===== verification/Internal_Allocator.thy ===== *)
theory Internal_Allocator
  imports Container_LL Utils Tree_Index
begin

text \<open>
  \<open>src/src/internal_allocator.c\<close>: the allocator of metadata. A node owns a pool of 8 MiB and a
  binary buddy tree over it with leaves of 32 bytes, kept as two-bit states in an array
  (children of \<open>idx\<close> at \<open>2 idx\<close> and \<open>2 idx + 1\<close>, the root at 1). The search of
  \<open>internal_alloc\<close> is a traversal of that array by a state machine; it is shown to be
  first fit on an abstract tree. The pool itself is not part of the record: \<open>memory\<close> is the
  address that follows the tree.
\<close>

subsection \<open>State\<close>

definition INTERNAL_ALLOC_CHUNK_SIZE_BYTES :: nat where "INTERNAL_ALLOC_CHUNK_SIZE_BYTES = 8388608"
definition INTERNAL_ALLOC_LEAST_REGION_SIZE_BYTES :: nat where "INTERNAL_ALLOC_LEAST_REGION_SIZE_BYTES = 32"

definition INTERNAL_ALLOC_NO_NODES :: nat where
  "INTERNAL_ALLOC_NO_NODES =
     (INTERNAL_ALLOC_CHUNK_SIZE_BYTES div INTERNAL_ALLOC_LEAST_REGION_SIZE_BYTES)
     + (INTERNAL_ALLOC_CHUNK_SIZE_BYTES div INTERNAL_ALLOC_LEAST_REGION_SIZE_BYTES - 1)"

definition INTERNAL_ALLOC_BUDDY_TREE_SIZE_BYTES :: nat where
  "INTERNAL_ALLOC_BUDDY_TREE_SIZE_BYTES = (INTERNAL_ALLOC_NO_NODES * 2 + 7) div 8"

lemmas ia_consts = INTERNAL_ALLOC_CHUNK_SIZE_BYTES_def INTERNAL_ALLOC_LEAST_REGION_SIZE_BYTES_def
  INTERNAL_ALLOC_NO_NODES_def INTERNAL_ALLOC_BUDDY_TREE_SIZE_BYTES_def

record int_alloc_t = ll_entry +
  free_mem :: nat
  ia_buddy_tree :: "8 word list"

text \<open>\<open>&ia->memory\<close>: 24 bytes of list entry and 8 of \<open>free_mem\<close> come before the tree.\<close>

definition ia_memory :: "addr \<Rightarrow> addr" where
  "ia_memory ia = ia + 32 + INTERNAL_ALLOC_BUDDY_TREE_SIZE_BYTES"

definition INT_ALLOC_T_SIZE :: nat where
  "INT_ALLOC_T_SIZE = 32 + INTERNAL_ALLOC_BUDDY_TREE_SIZE_BYTES + INTERNAL_ALLOC_CHUNK_SIZE_BYTES"

text \<open>The enumerators \<open>NODE_FULL\<close>, \<open>NODE_SPLIT\<close>, \<open>NODE_USED\<close>, \<open>NODE_FREE\<close> of this file.\<close>

datatype ia_node_t = IA_FULL | IA_SPLIT | IA_USED | IA_FREE
datatype tstate_t = IA_DOWN | IA_UP_LEFT | IA_UP_RIGHT

fun ia_node_val :: "ia_node_t \<Rightarrow> 8 word" where
  "ia_node_val IA_FULL = 0"
| "ia_node_val IA_SPLIT = 1"
| "ia_node_val IA_USED = 2"
| "ia_node_val IA_FREE = 3"

definition ia_node_of :: "8 word \<Rightarrow> ia_node_t" where
  "ia_node_of v = (if v = 0 then IA_FULL else if v = 1 then IA_SPLIT else if v = 2 then IA_USED else IA_FREE)"

text \<open>
  Node \<open>idx\<close> is slot \<open>idx - 1\<close>. The index 0 and an index past the array are invalid accesses
  in C; they are faults here.
\<close>

definition ia_valid :: "8 word list \<Rightarrow> nat \<Rightarrow> bool" where
  "ia_valid mem idx \<longleftrightarrow> 1 \<le> idx \<and> (idx - 1) div 4 < length mem"

definition ia_item :: "8 word list \<Rightarrow> nat \<Rightarrow> ia_node_t" where
  "ia_item mem idx = ia_node_of (bits2_get mem (idx - 1))"

definition ia_update :: "8 word list \<Rightarrow> nat \<Rightarrow> ia_node_t \<Rightarrow> 8 word list" where
  "ia_update mem idx s = bits2_set mem (idx - 1) (ia_node_val s)"

definition get_tree_item :: "8 word list \<Rightarrow> nat \<Rightarrow> ia_node_t res" where
  "get_tree_item mem idx = (if ia_valid mem idx then ret (ia_item mem idx) else fail Segv)"

definition set_tree_item :: "8 word list \<Rightarrow> nat \<Rightarrow> ia_node_t \<Rightarrow> 8 word list res" where
  "set_tree_item mem idx s = (if ia_valid mem idx then ret (ia_update mem idx s) else fail Segv)"

lemma ia_node_of_val [simp]: "ia_node_of (ia_node_val s) = s"
  by (cases s) (simp_all add: ia_node_of_def)

lemma ia_node_val_le: "ia_node_val s \<le> 3"
  by (cases s) simp_all

interpretation ia: packed_states ia_item ia_update ia_valid
  by unfold_locales
    (auto simp: ia_item_def ia_update_def ia_valid_def bits2_get_set_same bits2_get_set_other ia_node_val_le)

subsection \<open>Operations\<close>

definition IA_IS_LEAF :: "nat \<Rightarrow> bool" where
  "IA_IS_LEAF idx \<longleftrightarrow> (INTERNAL_ALLOC_NO_NODES + 1) div 2 \<le> idx"

text \<open>The fresh mapping is zero-filled by the kernel; only the first byte of the tree is written.\<close>

definition internal_allocator_init :: "addr \<Rightarrow> int_alloc_t" where
  "internal_allocator_init ia =
     \<lparr>fd = 0, bk = 0, key = ia, free_mem = INTERNAL_ALLOC_CHUNK_SIZE_BYTES,
       ia_buddy_tree = (replicate INTERNAL_ALLOC_BUDDY_TREE_SIZE_BYTES 0)[0 := ia_node_val IA_FREE]\<rparr>"

fun mark_nodes_split :: "8 word list \<Rightarrow> nat \<Rightarrow> 8 word list res" where
  "mark_nodes_split mem idx =
     (if idx = 0 then ret mem
      else bindR (get_tree_item mem idx) (\<lambda>state.
        if state = IA_FULL then
          bindR (set_tree_item mem idx IA_SPLIT) (\<lambda>mem. mark_nodes_split mem (idx div 2))
        else ret mem))"

definition sibling :: "nat \<Rightarrow> nat" where
  "sibling idx = (if odd idx then idx - 1 else idx + 1)"

fun coalesce_free_nodes :: "8 word list \<Rightarrow> nat \<Rightarrow> 8 word list res" where
  "coalesce_free_nodes mem idx =
     (if idx \<le> 1 then ret mem
      else bindR (get_tree_item mem (sibling idx)) (\<lambda>state.
        if state = IA_FREE then
          bindR (set_tree_item mem (idx div 2) IA_FREE) (\<lambda>mem. coalesce_free_nodes mem (idx div 2))
        else mark_nodes_split mem (idx div 2)))"

fun coalesce_full_nodes :: "8 word list \<Rightarrow> nat \<Rightarrow> 8 word list res" where
  "coalesce_full_nodes mem idx =
     (if idx \<le> 1 then ret mem
      else bindR (get_tree_item mem (sibling idx)) (\<lambda>state.
        if state = IA_FULL \<or> state = IA_USED then
          bindR (set_tree_item mem (idx div 2) IA_FULL) (\<lambda>mem. coalesce_full_nodes mem (idx div 2))
        else ret mem))"

declare mark_nodes_split.simps [simp del] coalesce_free_nodes.simps [simp del] coalesce_full_nodes.simps [simp del]

text \<open>
  The loop of \<open>internal_alloc\<close>. A configuration holds the local variables and the two fields
  the loop changes; one step is one iteration of the loop body, and the outcome of a step is
  either the pointer returned (0 for NULL) or the next configuration. Going up is the
  same three assignments in every branch of the source.
\<close>

record ia_cfg =
  c_mem :: "8 word list"
  c_free :: nat
  c_idx :: nat
  c_state :: tstate_t
  c_size :: nat
  c_ptr :: addr

datatype ia_outcome = IA_Return addr nat "8 word list" | IA_Continue ia_cfg

definition ia_go_up :: "ia_cfg \<Rightarrow> ia_cfg" where
  "ia_go_up c = c\<lparr>c_state := (if odd (c_idx c) then IA_UP_RIGHT else IA_UP_LEFT),
     c_ptr := (if odd (c_idx c) then sub64 (c_ptr c) (c_size c) else c_ptr c),
     c_idx := c_idx c div 2, c_size := u64 (c_size c * 2)\<rparr>"

definition ia_take :: "ia_cfg \<Rightarrow> ia_outcome res" where
  "ia_take c = bindR (set_tree_item (c_mem c) (c_idx c) IA_USED) (\<lambda>mem.
     bindR (coalesce_full_nodes mem (c_idx c)) (\<lambda>mem.
     ret (IA_Return (c_ptr c) (sub64 (c_free c) (c_size c)) mem)))"

definition ia_split :: "8 word list \<Rightarrow> nat \<Rightarrow> 8 word list res" where
  "ia_split mem idx = bindR (set_tree_item mem idx IA_SPLIT) (\<lambda>mem.
     bindR (set_tree_item mem (idx * 2) IA_FREE) (\<lambda>mem.
     set_tree_item mem (idx * 2 + 1) IA_FREE))"

definition ia_step :: "nat \<Rightarrow> ia_cfg \<Rightarrow> ia_outcome res" where
  "ia_step sz c =
     (if IA_IS_LEAF (c_idx c) then
        bindR (get_tree_item (c_mem c) (c_idx c)) (\<lambda>node.
          case node of
            IA_FREE \<Rightarrow> ia_take c
          | IA_USED \<Rightarrow> ret (IA_Continue (ia_go_up c))
          | IA_SPLIT \<Rightarrow> fail Exit
          | IA_FULL \<Rightarrow> fail Exit)
      else case c_state c of
        IA_DOWN \<Rightarrow>
          bindR (get_tree_item (c_mem c) (c_idx c)) (\<lambda>node.
            case node of
              IA_SPLIT \<Rightarrow>
                if c_size c div 2 < sz \<and> sz \<le> c_size c then ret (IA_Continue (ia_go_up c))
                else ret (IA_Continue (c\<lparr>c_idx := c_idx c * 2, c_size := c_size c div 2\<rparr>))
            | IA_FREE \<Rightarrow>
                if c_size c div 2 < sz \<and> sz \<le> c_size c then ia_take c
                else bindR (ia_split (c_mem c) (c_idx c)) (\<lambda>mem.
                     ret (IA_Continue (c\<lparr>c_mem := mem, c_size := c_size c div 2, c_idx := c_idx c * 2\<rparr>)))
            | IA_USED \<Rightarrow> ret (IA_Continue (ia_go_up c))
            | IA_FULL \<Rightarrow> ret (IA_Continue (ia_go_up c)))
      | IA_UP_LEFT \<Rightarrow>
          ret (IA_Continue (c\<lparr>c_size := c_size c div 2, c_ptr := u64 (c_ptr c + c_size c div 2),
                             c_state := IA_DOWN, c_idx := c_idx c * 2 + 1\<rparr>))
      | IA_UP_RIGHT \<Rightarrow> ret (IA_Continue (ia_go_up c)))"

partial_function (option) internal_alloc_loop :: "nat \<Rightarrow> ia_cfg \<Rightarrow> (addr \<times> nat \<times> 8 word list) res" where
  "internal_alloc_loop sz c =
     (if c_idx c = 1 \<and> c_state c = IA_UP_RIGHT then ret (0, c_free c, c_mem c)
      else bindR (ia_step sz c) (\<lambda>r.
        case r of
          IA_Return p fm mem \<Rightarrow> ret (p, fm, mem)
        | IA_Continue c' \<Rightarrow> internal_alloc_loop sz c'))"

definition internal_alloc :: "addr \<Rightarrow> int_alloc_t \<Rightarrow> nat \<Rightarrow> (addr \<times> int_alloc_t) res" where
  "internal_alloc root r sz =
     (if free_mem r < sz then ret (0, r)
      else bindR (internal_alloc_loop sz
             \<lparr>c_mem = ia_buddy_tree r, c_free = free_mem r, c_idx = 1, c_state = IA_DOWN,
               c_size = INTERNAL_ALLOC_CHUNK_SIZE_BYTES, c_ptr = ia_memory root\<rparr>) (\<lambda>(p, fm, mem).
             ret (p, r\<lparr>free_mem := fm, ia_buddy_tree := mem\<rparr>)))"

text \<open>The descent of \<open>internal_free\<close>; its result is the node found and the size it spans.\<close>

partial_function (option) internal_free_find ::
    "8 word list \<Rightarrow> addr \<Rightarrow> nat \<Rightarrow> nat \<Rightarrow> addr \<Rightarrow> (nat \<times> nat) res" where
  "internal_free_find mem ptr_dest idx cur_size ptr_cur =
     bindR (get_tree_item mem idx) (\<lambda>state.
       if ptr_cur = ptr_dest \<and> state = IA_USED then ret (idx, cur_size)
       else if IA_IS_LEAF idx then fail Exit
       else if u64 (ptr_cur + cur_size div 2) \<le> ptr_dest then
         internal_free_find mem ptr_dest (idx * 2 + 1) (cur_size div 2) (u64 (ptr_cur + cur_size div 2))
       else internal_free_find mem ptr_dest (idx * 2) (cur_size div 2) ptr_cur)"

definition internal_free :: "addr \<Rightarrow> int_alloc_t \<Rightarrow> addr \<Rightarrow> int_alloc_t res" where
  "internal_free root r ptr =
     bindR (internal_free_find (ia_buddy_tree r) ptr 1 INTERNAL_ALLOC_CHUNK_SIZE_BYTES (ia_memory root))
       (\<lambda>(idx, cur_size).
     bindR (set_tree_item (ia_buddy_tree r) idx IA_FREE) (\<lambda>mem.
     bindR (coalesce_free_nodes mem idx) (\<lambda>mem.
     ret (r\<lparr>free_mem := u64 (free_mem r + cur_size), ia_buddy_tree := mem\<rparr>))))"

subsection \<open>The abstract tree\<close>

datatype btree = BFree | BUsed | BSplit btree btree

fun full :: "btree \<Rightarrow> bool" where
  "full BFree = False"
| "full BUsed = True"
| "full (BSplit l r) = (full l \<and> full r)"

text \<open>Well-formed: no deeper than the leaves, and buddies that are both free are merged.\<close>

fun bt_ok :: "nat \<Rightarrow> btree \<Rightarrow> bool" where
  "bt_ok d BFree = True"
| "bt_ok d BUsed = True"
| "bt_ok 0 (BSplit l r) = False"
| "bt_ok (Suc d) (BSplit l r) = (bt_ok d l \<and> bt_ok d r \<and> \<not> (l = BFree \<and> r = BFree))"

definition span :: "nat \<Rightarrow> nat" where
  "span d = 32 * 2 ^ d"

lemma span_simps [simp]: "span 0 = 32" "span (Suc d) = 2 * span d" "0 < span d" "span (Suc d) div 2 = span d"
  by (simp_all add: span_def)

text \<open>First fit: offset and size of the block taken, and the new tree.\<close>

fun bt_alloc :: "nat \<Rightarrow> nat \<Rightarrow> btree \<Rightarrow> (nat \<times> nat \<times> btree) option" where
  "bt_alloc sz d BUsed = None"
| "bt_alloc sz 0 BFree = Some (0, 32, BUsed)"
| "bt_alloc sz (Suc d) BFree =
     (if span d < sz then Some (0, span (Suc d), BUsed)
      else map_option (\<lambda>(off, s, t). (off, s, BSplit t BFree)) (bt_alloc sz d BFree))"
| "bt_alloc sz 0 (BSplit l r) = None"
| "bt_alloc sz (Suc d) (BSplit l r) =
     (if span d < sz then None
      else case bt_alloc sz d l of
        Some (off, s, l') \<Rightarrow> Some (off, s, BSplit l' r)
      | None \<Rightarrow> map_option (\<lambda>(off, s, r'). (span d + off, s, BSplit l r')) (bt_alloc sz d r))"

lemma full_no_alloc: "full t \<Longrightarrow> bt_alloc sz d t = None"
  by (induction sz d t rule: bt_alloc.induct) auto

lemma free_alloc: "\<exists>off s t. bt_alloc sz d BFree = Some (off, s, t)"
  by (induction d) auto

subsection \<open>Representation of the tree in the array\<close>

definition node_of :: "btree \<Rightarrow> ia_node_t" where
  "node_of t = (case t of BFree \<Rightarrow> IA_FREE | BUsed \<Rightarrow> IA_USED
     | BSplit l r \<Rightarrow> if full l \<and> full r then IA_FULL else IA_SPLIT)"

primrec ia_rep :: "8 word list \<Rightarrow> nat \<Rightarrow> btree \<Rightarrow> bool" where
  "ia_rep mem idx BFree \<longleftrightarrow> ia_item mem idx = IA_FREE"
| "ia_rep mem idx BUsed \<longleftrightarrow> ia_item mem idx = IA_USED"
| "ia_rep mem idx (BSplit l r) \<longleftrightarrow> ia_item mem idx = (if full l \<and> full r then IA_FULL else IA_SPLIT)
     \<and> ia_rep mem (idx * 2) l \<and> ia_rep mem (idx * 2 + 1) r"

lemma ia_rep_item: "ia_rep mem idx t \<Longrightarrow> ia_item mem idx = node_of t"
  by (cases t) (simp_all add: node_of_def)

text \<open>Nodes \<open>d\<close> levels above the leaves.\<close>

definition at_level :: "nat \<Rightarrow> nat \<Rightarrow> bool" where
  "at_level d idx \<longleftrightarrow> 2 ^ 18 \<le> idx * 2 ^ d \<and> (idx + 1) * 2 ^ d \<le> 2 ^ 19"

lemma at_level_child:
  "at_level (Suc d) idx \<Longrightarrow> at_level d (idx * 2)" "at_level (Suc d) idx \<Longrightarrow> at_level d (idx * 2 + 1)"
  by (simp_all add: at_level_def algebra_simps)

lemma at_level_range:
  assumes "at_level d idx"
  shows "1 \<le> idx" "idx < 2 ^ 19"
proof -
  show "1 \<le> idx" using assms by (cases idx) (simp_all add: at_level_def)
  have "(idx + 1) * 1 \<le> (idx + 1) * 2 ^ d" by (rule mult_le_mono2) simp
  also have "\<dots> \<le> 2 ^ 19" using assms by (simp add: at_level_def)
  finally show "idx < 2 ^ 19" by simp
qed

lemma IA_IS_LEAF_eq: "IA_IS_LEAF idx \<longleftrightarrow> 2 ^ 18 \<le> idx"
  by (simp add: IA_IS_LEAF_def ia_consts)

lemma at_level_leaf:
  "at_level 0 idx \<Longrightarrow> IA_IS_LEAF idx" "at_level (Suc d) idx \<Longrightarrow> \<not> IA_IS_LEAF idx"
proof -
  show "at_level 0 idx \<Longrightarrow> IA_IS_LEAF idx" by (simp add: at_level_def IA_IS_LEAF_eq)
  assume l: "at_level (Suc d) idx"
  have "(idx + 1) * 2 * 1 \<le> (idx + 1) * 2 * 2 ^ d" by (rule mult_le_mono2) simp
  also have "\<dots> \<le> 2 ^ 19" using l by (simp add: at_level_def algebra_simps)
  finally show "\<not> IA_IS_LEAF idx" by (simp add: IA_IS_LEAF_eq)
qed

definition tree_ok :: "8 word list \<Rightarrow> bool" where
  "tree_ok mem \<longleftrightarrow> length mem = INTERNAL_ALLOC_BUDDY_TREE_SIZE_BYTES"

lemma ia_valid_level: "tree_ok mem \<Longrightarrow> at_level d idx \<Longrightarrow> ia_valid mem idx"
proof -
  assume "tree_ok mem" "at_level d idx"
  then have "1 \<le> idx" "idx < 2 ^ 19" "length mem = 131072"
    using at_level_range by (auto simp: tree_ok_def ia_consts)
  then show ?thesis by (simp add: ia_valid_def)
qed

lemma tree_ok_update [simp]: "tree_ok (ia_update mem idx s) = tree_ok mem"
  by (simp add: tree_ok_def ia_update_def)

lemma ia_item_update:
  "ia_valid mem idx \<Longrightarrow> 1 \<le> k \<Longrightarrow> ia_item (ia_update mem idx s) k = (if k = idx then s else ia_item mem k)"
  by (auto simp: ia.get_set_same)
    (auto simp: ia_item_def ia_update_def ia_valid_def bits2_get_set_other ia_node_val_le)

lemma ia_rep_frame:
  "ia_rep mem idx t \<Longrightarrow> (\<And>k. k \<in> below idx \<Longrightarrow> ia_item mem' k = ia_item mem k) \<Longrightarrow> ia_rep mem' idx t"
  by (induction t arbitrary: idx) (auto dest: below_child below_child(2) [unfolded Suc_eq_plus1 [symmetric]])

subsection \<open>The search is first fit\<close>

lemma ia_loop_continue:
  "\<not> (c_idx c = 1 \<and> c_state c = IA_UP_RIGHT) \<Longrightarrow> ia_step sz c = ret (IA_Continue c') \<Longrightarrow>
     internal_alloc_loop sz c = internal_alloc_loop sz c'"
  by (subst internal_alloc_loop.simps) auto

lemma ia_loop_take:
  "\<not> (c_idx c = 1 \<and> c_state c = IA_UP_RIGHT) \<Longrightarrow> ia_step sz c = ia_take c \<Longrightarrow> ia_valid (c_mem c) (c_idx c) \<Longrightarrow>
     internal_alloc_loop sz c =
       bindR (coalesce_full_nodes (ia_update (c_mem c) (c_idx c) IA_USED) (c_idx c))
         (\<lambda>m. ret (c_ptr c, sub64 (c_free c) (c_size c), m))"
  by (subst internal_alloc_loop.simps) (auto simp: ia_take_def set_tree_item_def bindR_assoc)

text \<open>The configurations that start the search of a subtree.\<close>

definition ia_enter :: "8 word list \<Rightarrow> nat \<Rightarrow> nat \<Rightarrow> nat \<Rightarrow> addr \<Rightarrow> ia_cfg" where
  "ia_enter mem fm idx d p = \<lparr>c_mem = mem, c_free = fm, c_idx = idx, c_state = IA_DOWN, c_size = span d, c_ptr = p\<rparr>"

lemma ia_enter_sel [simp]:
  "c_mem (ia_enter mem fm idx d p) = mem" "c_free (ia_enter mem fm idx d p) = fm"
  "c_idx (ia_enter mem fm idx d p) = idx" "c_state (ia_enter mem fm idx d p) = IA_DOWN"
  "c_size (ia_enter mem fm idx d p) = span d" "c_ptr (ia_enter mem fm idx d p) = p"
  by (simp_all add: ia_enter_def)

lemma at_level_span:
  assumes "at_level d idx"
  shows "span d \<le> 2 ^ 24"
proof -
  have "1 * 2 ^ d \<le> (idx + 1) * 2 ^ d" by (rule mult_le_mono1) simp
  also have "\<dots> \<le> 2 ^ 19" using assms by (simp add: at_level_def)
  finally show ?thesis by (simp add: span_def)
qed

lemma ia_step_into_left:
  assumes "at_level (Suc d) idx" "tree_ok mem" "ia_item mem idx = IA_SPLIT" "sz \<le> span d"
  shows "internal_alloc_loop sz (ia_enter mem fm idx (Suc d) p) = internal_alloc_loop sz (ia_enter mem fm (idx * 2) d p)"
  by (rule ia_loop_continue)
    (use assms at_level_leaf ia_valid_level in \<open>auto simp: ia_step_def get_tree_item_def ia_enter_def\<close>)

lemma ia_left_to_right:
  assumes "at_level (Suc d) idx" "p + span d < 2 ^ 64"
  shows "internal_alloc_loop sz (ia_go_up (ia_enter mem fm (idx * 2) d p)) =
    internal_alloc_loop sz (ia_enter mem fm (idx * 2 + 1) d (p + span d))"
proof -
  have "2 * span d < 18446744073709551616" using at_level_span [OF assms(1)] by simp
  then show ?thesis
    by (intro ia_loop_continue)
      (use assms at_level_leaf in \<open>auto simp: ia_step_def ia_enter_def ia_go_up_def wrap_simps mult.commute\<close>)
qed

lemma ia_right_to_up:
  assumes "at_level (Suc d) idx" "p + span d < 2 ^ 64" "2 \<le> idx"
  shows "internal_alloc_loop sz (ia_go_up (ia_enter mem fm (idx * 2 + 1) d (p + span d))) =
    internal_alloc_loop sz (ia_go_up (ia_enter mem fm idx (Suc d) p))"
proof -
  have "2 * span d < 18446744073709551616" using at_level_span [OF assms(1)] by simp
  then show ?thesis
    by (intro ia_loop_continue)
      (use assms at_level_leaf in \<open>auto simp: ia_step_def ia_enter_def ia_go_up_def wrap_simps mult.commute\<close>)
qed

lemma ia_step_give_up:
  assumes "at_level d idx" "tree_ok mem" "2 \<le> idx"
    and "ia_item mem idx = IA_USED \<or> (\<exists>d'. d = Suc d' \<and> (ia_item mem idx = IA_FULL
           \<or> ia_item mem idx = IA_SPLIT \<and> span d' < sz \<and> sz \<le> span d))"
  shows "internal_alloc_loop sz (ia_enter mem fm idx d p) = internal_alloc_loop sz (ia_go_up (ia_enter mem fm idx d p))"
  by (rule ia_loop_continue)
    (use assms at_level_leaf ia_valid_level in \<open>cases d; auto simp: ia_step_def get_tree_item_def\<close>)+

lemma ia_search_none:
  assumes "bt_alloc sz d t = None" "ia_rep mem idx t" "bt_ok d t" "at_level d idx" "tree_ok mem"
    "sz \<le> span d" "p + span d < 2 ^ 64" "2 \<le> idx"
  shows "internal_alloc_loop sz (ia_enter mem fm idx d p) = internal_alloc_loop sz (ia_go_up (ia_enter mem fm idx d p))"
  using assms
proof (induction d arbitrary: t idx p)
  case 0
  then have "t = BUsed" by (cases t) simp_all
  then show ?case using 0 by (intro ia_step_give_up) simp_all
next
  case (Suc d)
  show ?case
  proof (cases t)
    case BFree
    then show ?thesis using Suc.prems(1) free_alloc [of sz "Suc d"] by auto
  next
    case BUsed
    then show ?thesis using Suc.prems by (intro ia_step_give_up) simp_all
  next
    case (BSplit l r)
    show ?thesis
    proof (cases "full l \<and> full r \<or> span d < sz")
      case True
      then show ?thesis using Suc.prems BSplit by (intro ia_step_give_up) auto
    next
      case False
      have none: "bt_alloc sz d l = None" "bt_alloc sz d r = None"
        using Suc.prems(1) BSplit False by (auto split: option.splits)
      have lv: "at_level d (idx * 2)" "at_level d (idx * 2 + 1)" using Suc.prems(4) by (rule at_level_child)+
      have lim: "p + span d < 2 ^ 64" "p + span d + span d < 2 ^ 64" "sz \<le> span d" using Suc.prems(7) False by simp_all
      have rep: "ia_item mem idx = IA_SPLIT" "ia_rep mem (idx * 2) l" "ia_rep mem (idx * 2 + 1) r"
        using Suc.prems(2) BSplit False by simp_all
      have ok: "bt_ok d l" "bt_ok d r" using Suc.prems(3) BSplit by simp_all
      have "internal_alloc_loop sz (ia_enter mem fm idx (Suc d) p) = internal_alloc_loop sz (ia_enter mem fm (idx * 2) d p)"
        using Suc.prems(4,5) rep(1) lim(3) by (rule ia_step_into_left)
      also have "\<dots> = internal_alloc_loop sz (ia_go_up (ia_enter mem fm (idx * 2) d p))"
        using Suc.prems(8) by (intro Suc.IH [OF none(1) rep(2) ok(1) lv(1) Suc.prems(5) lim(3,1)]) simp
      also have "\<dots> = internal_alloc_loop sz (ia_enter mem fm (idx * 2 + 1) d (p + span d))"
        using Suc.prems(4) lim(1) by (rule ia_left_to_right)
      also have "\<dots> = internal_alloc_loop sz (ia_go_up (ia_enter mem fm (idx * 2 + 1) d (p + span d)))"
        using Suc.prems(8) by (intro Suc.IH [OF none(2) rep(3) ok(2) lv(2) Suc.prems(5) lim(3,2)]) simp
      also have "\<dots> = internal_alloc_loop sz (ia_go_up (ia_enter mem fm idx (Suc d) p))"
        using Suc.prems(4) lim(1) Suc.prems(8) by (rule ia_right_to_up)
      finally show ?thesis .
    qed
  qed
qed

lemma coalesce_full_child:
  assumes "at_level (Suc d) idx" "tree_ok mem" "c = idx * 2 \<or> c = idx * 2 + 1"
  shows "coalesce_full_nodes mem c =
     (if ia_item mem (sibling c) = IA_FULL \<or> ia_item mem (sibling c) = IA_USED
      then coalesce_full_nodes (ia_update mem idx IA_FULL) idx else ret mem)"
proof -
  have sib: "sibling c = idx * 2 \<or> sibling c = idx * 2 + 1" using assms(3) by (auto simp: sibling_def)
  then have "ia_valid mem (sibling c)" using ia_valid_level [OF assms(2)] at_level_child [OF assms(1)] by metis
  moreover have "ia_valid mem idx" using ia_valid_level assms(1,2) by blast
  moreover have "\<not> c \<le> 1" "c div 2 = idx" using at_level_range(1) [OF assms(1)] assms(3) by auto
  ultimately show ?thesis
    by (subst coalesce_full_nodes.simps) (auto simp: get_tree_item_def set_tree_item_def)
qed

lemma node_of_full: "node_of t = IA_FULL \<or> node_of t = IA_USED \<longleftrightarrow> full t"
  by (cases t) (auto simp: node_of_def)

lemma ia_join:
  assumes "at_level (Suc d) idx" "tree_ok mem" "ia_rep mem (idx * 2) l" "ia_rep mem (idx * 2 + 1) r"
    "ia_item mem idx = IA_SPLIT" "c = idx * 2 \<or> c = idx * 2 + 1" "tc = (if c = idx * 2 then l else r)"
  shows "\<exists>mem'. bindR (if full tc then coalesce_full_nodes mem c else ret mem) f =
        bindR (if full (BSplit l r) then coalesce_full_nodes mem' idx else ret mem') f
     \<and> ia_rep mem' idx (BSplit l r) \<and> tree_ok mem' \<and> (\<forall>k \<ge> 1. k \<noteq> idx \<longrightarrow> ia_item mem' k = ia_item mem k)"
proof -
  have valid: "ia_valid mem idx" and idx: "1 \<le> idx" using ia_valid_level at_level_range assms(1,2) by blast+
  have other: "ia_item mem (sibling c) = node_of (if c = idx * 2 then r else l)"
    using assms(3,4,6) ia_rep_item by (auto simp: sibling_def)
  show ?thesis
  proof (cases "full l \<and> full r")
    case True
    let ?m = "ia_update mem idx IA_FULL"
    have "ia_rep ?m (idx * 2) l"
      by (rule ia_rep_frame [OF assms(3)]) (use below_ge idx below_parent(1) [OF idx] valid in \<open>force simp: ia_item_update\<close>)
    moreover have "ia_rep ?m (idx * 2 + 1) r"
      by (rule ia_rep_frame [OF assms(4)]) (use below_ge idx below_parent(2) [OF idx] valid in \<open>force simp: ia_item_update\<close>)
    moreover have "ia_item (ia_update mem idx IA_FULL) idx = IA_FULL" using valid by (rule ia.get_set_same)
    ultimately show ?thesis
      using True coalesce_full_child [OF assms(1,2,6)] other node_of_full assms(2,7) valid
      by (intro exI [of _ ?m]) (auto simp: ia_item_update)
  next
    case False
    then have "full tc \<Longrightarrow> coalesce_full_nodes mem c = ret mem"
      using coalesce_full_child [OF assms(1,2,6)] other node_of_full assms(7) by (auto split: if_splits)
    then show ?thesis using False assms by (intro exI [of _ mem]) auto
  qed
qed

lemma ia_enter_children:
  assumes "at_level (Suc d) idx" "tree_ok mem" "ia_rep mem idx t"
    "t = BFree \<or> (\<exists>l r. t = BSplit l r \<and> \<not> (full l \<and> full r))" "sz \<le> span d"
  shows "\<exists>mem1. internal_alloc_loop sz (ia_enter mem fm idx (Suc d) p) = internal_alloc_loop sz (ia_enter mem1 fm (idx * 2) d p)
     \<and> ia_item mem1 idx = IA_SPLIT \<and> ia_rep mem1 (idx * 2) (case t of BSplit l r \<Rightarrow> l | _ \<Rightarrow> BFree)
     \<and> ia_rep mem1 (idx * 2 + 1) (case t of BSplit l r \<Rightarrow> r | _ \<Rightarrow> BFree) \<and> tree_ok mem1
     \<and> (\<forall>k \<ge> 1. k \<notin> below idx \<longrightarrow> ia_item mem1 k = ia_item mem k)"
proof -
  have idx: "1 \<le> idx" using at_level_range assms(1) by blast
  note v = ia_valid_level [OF assms(2) assms(1)] ia_valid_level [OF assms(2) at_level_child(1) [OF assms(1)]]
    ia_valid_level [OF assms(2) at_level_child(2) [OF assms(1)]]
  show ?thesis
  proof (cases "t = BFree")
    case True
    define mem1 where "mem1 = ia_update (ia_update (ia_update mem idx IA_SPLIT) (idx * 2) IA_FREE) (idx * 2 + 1) IA_FREE"
    have split: "ia_split mem idx = ret mem1"
      using v by (simp add: ia_split_def set_tree_item_def mem1_def ia.valid_set)
    have "internal_alloc_loop sz (ia_enter mem fm idx (Suc d) p) = internal_alloc_loop sz (ia_enter mem1 fm (idx * 2) d p)"
      by (rule ia_loop_continue)
        (use True assms v(1) at_level_leaf(2) split in \<open>auto simp: ia_step_def get_tree_item_def ia_enter_def\<close>)
    moreover have "ia_item mem1 k = (if k = idx then IA_SPLIT else if k = idx * 2 \<or> k = idx * 2 + 1 then IA_FREE else ia_item mem k)"
      if "1 \<le> k" for k
      using that v idx by (auto simp: mem1_def ia_item_update ia.valid_set)
    moreover have "idx * 2 \<in> below idx" "idx * 2 + 1 \<in> below idx" "idx \<in> below idx"
      using below_child below_self by blast+
    moreover have "tree_ok mem1" using assms(2) by (simp add: mem1_def)
    ultimately show ?thesis using idx True by (intro exI [of _ mem1]) auto
  next
    case False
    then obtain l r where "t = BSplit l r" "\<not> (full l \<and> full r)" using assms(4) by auto
    then show ?thesis
      using ia_step_into_left [OF assms(1,2) _ assms(5)] assms(2,3) by (intro exI [of _ mem]) auto
  qed
qed

lemma ia_search_some:
  assumes "bt_alloc sz d t = Some (off, s, t')" "ia_rep mem idx t" "bt_ok d t" "at_level d idx" "tree_ok mem"
    "sz \<le> span d" "p + span d < 2 ^ 64"
  shows "\<exists>mem'. internal_alloc_loop sz (ia_enter mem fm idx d p) =
        bindR (if full t' then coalesce_full_nodes mem' idx else ret mem') (\<lambda>m. ret (p + off, sub64 fm s, m))
     \<and> ia_rep mem' idx t' \<and> tree_ok mem' \<and> (\<forall>k \<ge> 1. k \<notin> below idx \<longrightarrow> ia_item mem' k = ia_item mem k)"
  using assms
proof (induction d arbitrary: t off s t' mem idx p)
  case 0
  then have "t = BFree" "off = 0" "s = 32" "t' = BUsed" by (cases t; simp)+
  moreover have valid: "ia_valid mem idx" using ia_valid_level 0 by blast
  moreover have "ia_step sz (ia_enter mem fm idx 0 p) = ia_take (ia_enter mem fm idx 0 p)"
    using \<open>t = BFree\<close> 0 valid at_level_leaf(1) by (simp add: ia_step_def get_tree_item_def)
  ultimately show ?case
    using ia_loop_take [of "ia_enter mem fm idx 0 p" sz] 0(5)
    by (intro exI [of _ "ia_update mem idx IA_USED"]) (auto simp: ia_item_update ia.get_set_same)
next
  case (Suc d)
  note lv = at_level_child [OF Suc.prems(4)]
  have valid: "ia_valid mem idx" using ia_valid_level Suc.prems by blast
  have idx: "1 \<le> idx" using at_level_range Suc.prems(4) by blast
  have lim: "p + span d < 2 ^ 64" "p + span d + span d < 2 ^ 64" using Suc.prems(7) by simp_all
  show ?case
  proof (cases "t = BFree \<and> span d < sz")
    case True
    then have "off = 0" "s = span (Suc d)" "t' = BUsed" using Suc.prems(1) by simp_all
    moreover have "ia_step sz (ia_enter mem fm idx (Suc d) p) = ia_take (ia_enter mem fm idx (Suc d) p)"
      using True Suc.prems(2,4-6) valid at_level_leaf(2) by (simp add: ia_step_def get_tree_item_def)
    ultimately show ?thesis
      using ia_loop_take [of "ia_enter mem fm idx (Suc d) p" sz] Suc.prems(5) valid
      by (intro exI [of _ "ia_update mem idx IA_USED"]) (auto simp: ia_item_update ia.get_set_same)
  next
    case False
    have "\<not> full t" using Suc.prems(1) full_no_alloc [of t sz "Suc d"] by (cases "full t") simp_all
    then have "t \<noteq> BUsed" "\<not> (\<exists>l r. t = BSplit l r \<and> (full l \<and> full r \<or> span d < sz))"
      using Suc.prems(1) by auto
    with False have sz: "sz \<le> span d" and t: "t = BFree \<or> (\<exists>l r. t = BSplit l r \<and> \<not> (full l \<and> full r))"
      by (cases t; auto)+
    define l where "l = (case t of BSplit l r \<Rightarrow> l | _ \<Rightarrow> BFree)"
    define r where "r = (case t of BSplit l r \<Rightarrow> r | _ \<Rightarrow> BFree)"
    have ok: "bt_ok d l" "bt_ok d r" using Suc.prems(3) by (cases t; simp add: l_def r_def)+
    have alloc: "bt_alloc sz (Suc d) (BSplit l r) = Some (off, s, t')"
      using Suc.prems(1) sz free_alloc [of sz d] \<open>t \<noteq> BUsed\<close> by (cases t) (auto simp: l_def r_def)
    obtain mem1 where m1: "internal_alloc_loop sz (ia_enter mem fm idx (Suc d) p) = internal_alloc_loop sz (ia_enter mem1 fm (idx * 2) d p)"
      "ia_item mem1 idx = IA_SPLIT" "ia_rep mem1 (idx * 2) l" "ia_rep mem1 (idx * 2 + 1) r" "tree_ok mem1"
      "\<forall>k \<ge> 1. k \<notin> below idx \<longrightarrow> ia_item mem1 k = ia_item mem k"
      using ia_enter_children [OF Suc.prems(4,5,2) t sz] unfolding l_def r_def by blast
    show ?thesis
    proof (cases "bt_alloc sz d l")
      case (Some a)
      then obtain l' where l': "bt_alloc sz d l = Some (off, s, l')" "t' = BSplit l' r"
        using alloc by (cases a) (auto split: if_splits)
      obtain mem2 where m2: "internal_alloc_loop sz (ia_enter mem1 fm (idx * 2) d p) =
          bindR (if full l' then coalesce_full_nodes mem2 (idx * 2) else ret mem2) (\<lambda>m. ret (p + off, sub64 fm s, m))"
        "ia_rep mem2 (idx * 2) l'" "tree_ok mem2" "\<forall>k \<ge> 1. k \<notin> below (idx * 2) \<longrightarrow> ia_item mem2 k = ia_item mem1 k"
        using Suc.IH [OF l'(1) m1(3) ok(1) lv(1) m1(5) sz lim(1)] by blast
      have rr: "ia_rep mem2 (idx * 2 + 1) r"
      proof (rule ia_rep_frame [OF m1(4)])
        fix k
        assume k: "k \<in> below (idx * 2 + 1)"
        then have "1 \<le> k" using below_ge [of k "idx * 2 + 1"] idx by simp
        moreover have "k \<notin> below (idx * 2)" using below_disjoint [OF idx, of k] k by blast
        ultimately show "ia_item mem2 k = ia_item mem1 k" using m2(4) by simp
      qed
      have root: "ia_item mem2 idx = IA_SPLIT" using m2(4) m1(2) idx below_parent(1) [OF idx] by simp
      have "\<exists>mem3. bindR (if full l' then coalesce_full_nodes mem2 (idx * 2) else ret mem2) (\<lambda>m. ret (p + off, sub64 fm s, m)) =
          bindR (if full (BSplit l' r) then coalesce_full_nodes mem3 idx else ret mem3) (\<lambda>m. ret (p + off, sub64 fm s, m))
        \<and> ia_rep mem3 idx (BSplit l' r) \<and> tree_ok mem3 \<and> (\<forall>k \<ge> 1. k \<noteq> idx \<longrightarrow> ia_item mem3 k = ia_item mem2 k)"
        by (rule ia_join [OF Suc.prems(4) m2(3) m2(2) rr root]) simp_all
      then obtain mem3 where m3: "bindR (if full l' then coalesce_full_nodes mem2 (idx * 2) else ret mem2) (\<lambda>m. ret (p + off, sub64 fm s, m)) =
          bindR (if full t' then coalesce_full_nodes mem3 idx else ret mem3) (\<lambda>m. ret (p + off, sub64 fm s, m))"
        "ia_rep mem3 idx t'" "tree_ok mem3" "\<forall>k \<ge> 1. k \<noteq> idx \<longrightarrow> ia_item mem3 k = ia_item mem2 k"
        unfolding l'(2) by blast
      have "\<forall>k \<ge> 1. k \<notin> below idx \<longrightarrow> ia_item mem3 k = ia_item mem k"
        using m3(4) m2(4) m1(6) below_child below_self by metis
      then show ?thesis using m1(1) m2(1) m3 by auto
    next
      case None
      then obtain off' r' where r': "bt_alloc sz d r = Some (off', s, r')" "t' = BSplit l r'" "off = span d + off'"
        using alloc by (auto split: if_splits)
      have "internal_alloc_loop sz (ia_enter mem1 fm (idx * 2) d p) = internal_alloc_loop sz (ia_go_up (ia_enter mem1 fm (idx * 2) d p))"
        using idx by (intro ia_search_none [OF None m1(3) ok(1) lv(1) m1(5) sz lim(1)]) simp
      also have "\<dots> = internal_alloc_loop sz (ia_enter mem1 fm (idx * 2 + 1) d (p + span d))"
        using Suc.prems(4) lim(1) by (rule ia_left_to_right)
      finally have right: "internal_alloc_loop sz (ia_enter mem fm idx (Suc d) p) = internal_alloc_loop sz (ia_enter mem1 fm (idx * 2 + 1) d (p + span d))"
        using m1(1) by simp
      obtain mem2 where m2: "internal_alloc_loop sz (ia_enter mem1 fm (idx * 2 + 1) d (p + span d)) =
          bindR (if full r' then coalesce_full_nodes mem2 (idx * 2 + 1) else ret mem2) (\<lambda>m. ret (p + off, sub64 fm s, m))"
        "ia_rep mem2 (idx * 2 + 1) r'" "tree_ok mem2" "\<forall>k \<ge> 1. k \<notin> below (idx * 2 + 1) \<longrightarrow> ia_item mem2 k = ia_item mem1 k"
        using Suc.IH [OF r'(1) m1(4) ok(2) lv(2) m1(5) sz lim(2)] r'(3) by (auto simp: add.assoc)
      have rl: "ia_rep mem2 (idx * 2) l"
      proof (rule ia_rep_frame [OF m1(3)])
        fix k
        assume k: "k \<in> below (idx * 2)"
        then have "1 \<le> k" using below_ge [of k "idx * 2"] idx by simp
        moreover have "k \<notin> below (idx * 2 + 1)" using below_disjoint [OF idx, of k] k by blast
        ultimately show "ia_item mem2 k = ia_item mem1 k" using m2(4) by simp
      qed
      have root: "ia_item mem2 idx = IA_SPLIT" using m2(4) m1(2) idx below_parent(2) [OF idx] by simp
      have "\<exists>mem3. bindR (if full r' then coalesce_full_nodes mem2 (idx * 2 + 1) else ret mem2) (\<lambda>m. ret (p + off, sub64 fm s, m)) =
          bindR (if full (BSplit l r') then coalesce_full_nodes mem3 idx else ret mem3) (\<lambda>m. ret (p + off, sub64 fm s, m))
        \<and> ia_rep mem3 idx (BSplit l r') \<and> tree_ok mem3 \<and> (\<forall>k \<ge> 1. k \<noteq> idx \<longrightarrow> ia_item mem3 k = ia_item mem2 k)"
        by (rule ia_join [OF Suc.prems(4) m2(3) rl m2(2) root]) simp_all
      then obtain mem3 where m3: "bindR (if full r' then coalesce_full_nodes mem2 (idx * 2 + 1) else ret mem2) (\<lambda>m. ret (p + off, sub64 fm s, m)) =
          bindR (if full t' then coalesce_full_nodes mem3 idx else ret mem3) (\<lambda>m. ret (p + off, sub64 fm s, m))"
        "ia_rep mem3 idx t'" "tree_ok mem3" "\<forall>k \<ge> 1. k \<noteq> idx \<longrightarrow> ia_item mem3 k = ia_item mem2 k"
        unfolding r'(2) by blast
      have "\<forall>k \<ge> 1. k \<notin> below idx \<longrightarrow> ia_item mem3 k = ia_item mem k"
        using m3(4) m2(4) m1(6) below_child below_self by metis
      then show ?thesis using right m2(1) m3 by auto
    qed
  qed
qed

subsection \<open>Freeing merges free buddies\<close>

definition merge :: "btree \<Rightarrow> btree \<Rightarrow> btree" where
  "merge l r = (if l = BFree \<and> r = BFree then BFree else BSplit l r)"

text \<open>Size of the freed block and the new tree; only the start of a used block can be freed.\<close>

fun bt_free :: "nat \<Rightarrow> nat \<Rightarrow> btree \<Rightarrow> (nat \<times> btree) option" where
  "bt_free d off BFree = None"
| "bt_free d off BUsed = (if off = 0 then Some (span d, BFree) else None)"
| "bt_free 0 off (BSplit l r) = None"
| "bt_free (Suc d) off (BSplit l r) =
     (if span d \<le> off then map_option (\<lambda>(s, r'). (s, merge l r')) (bt_free d (off - span d) r)
      else map_option (\<lambda>(s, l'). (s, merge l' r)) (bt_free d off l))"

lemma bt_free_not_full: "bt_free d off t = Some (s, t') \<Longrightarrow> \<not> full t'"
  by (induction d off t arbitrary: s t' rule: bt_free.induct) (auto simp: merge_def split: if_splits)

text \<open>What remains to be done above \<open>idx\<close> once its subtree has changed from \<open>t\<close> to \<open>t'\<close>.\<close>

definition finish_free :: "8 word list \<Rightarrow> nat \<Rightarrow> btree \<Rightarrow> btree \<Rightarrow> 8 word list res" where
  "finish_free mem idx t t' =
     (if t' = BFree then coalesce_free_nodes mem idx
      else if full t then mark_nodes_split mem (idx div 2) else ret mem)"

lemma mark_split_step:
  assumes "ia_valid mem idx" "1 \<le> idx"
  shows "mark_nodes_split mem idx =
     (if ia_item mem idx = IA_FULL then mark_nodes_split (ia_update mem idx IA_SPLIT) (idx div 2) else ret mem)"
  using assms by (subst mark_nodes_split.simps) (simp add: get_tree_item_def set_tree_item_def)

lemma coalesce_free_child:
  assumes "at_level (Suc d) idx" "tree_ok mem" "c = idx * 2 \<or> c = idx * 2 + 1"
  shows "coalesce_free_nodes mem c =
     (if ia_item mem (sibling c) = IA_FREE then coalesce_free_nodes (ia_update mem idx IA_FREE) idx
      else mark_nodes_split mem idx)"
proof -
  have sib: "sibling c = idx * 2 \<or> sibling c = idx * 2 + 1" using assms(3) by (auto simp: sibling_def)
  then have "ia_valid mem (sibling c)" using ia_valid_level [OF assms(2)] at_level_child [OF assms(1)] by metis
  moreover have "ia_valid mem idx" using ia_valid_level assms(1,2) by blast
  moreover have "\<not> c \<le> 1" "c div 2 = idx" using at_level_range(1) [OF assms(1)] assms(3) by auto
  ultimately show ?thesis
    by (subst coalesce_free_nodes.simps) (simp add: get_tree_item_def set_tree_item_def)
qed

lemma node_of_free: "node_of t = IA_FREE \<longleftrightarrow> t = BFree"
  by (cases t) (auto simp: node_of_def)

lemma ia_rep_update:
  assumes "ia_rep mem c t" "ia_valid mem idx" "1 \<le> idx" "c = idx * 2 \<or> c = idx * 2 + 1"
  shows "ia_rep (ia_update mem idx s) c t"
proof (rule ia_rep_frame [OF assms(1)])
  fix k
  assume "k \<in> below c"
  then have "c \<le> k" by (rule below_ge)
  then have "1 \<le> k" "k \<noteq> idx" using assms(3,4) by auto
  then show "ia_item (ia_update mem idx s) k = ia_item mem k" using assms(2) by (simp add: ia_item_update)
qed

lemma ia_rejoin:
  assumes lv: "at_level (Suc d) idx" and ok: "tree_ok mem" and rep: "ia_rep mem (idx * 2) l'" "ia_rep mem (idx * 2 + 1) r'"
    and root: "ia_item mem idx = (if full l \<and> full r then IA_FULL else IA_SPLIT)"
    and c: "c = idx * 2 \<and> tc = l \<and> tc' = l' \<and> r' = r \<or> c = idx * 2 + 1 \<and> tc = r \<and> tc' = r' \<and> l' = l"
    and nf: "\<not> full tc'"
  shows "\<exists>mem'. finish_free mem c tc tc' = finish_free mem' idx (BSplit l r) (merge l' r')
     \<and> ia_rep mem' idx (merge l' r') \<and> tree_ok mem' \<and> (\<forall>k \<ge> 1. k \<noteq> idx \<longrightarrow> ia_item mem' k = ia_item mem k)"
proof -
  have valid: "ia_valid mem idx" and idx: "1 \<le> idx" using ia_valid_level at_level_range lv ok by blast+
  have cc: "c = idx * 2 \<or> c = idx * 2 + 1" and cdiv: "c div 2 = idx" using c by auto
  have other: "ia_item mem (sibling c) = node_of (if c = idx * 2 then r' else l')"
    using rep cc ia_rep_item by (auto simp: sibling_def)
  have upd: "ia_rep (ia_update mem idx s) (idx * 2) l'" "ia_rep (ia_update mem idx s) (idx * 2 + 1) r'" for s
    using ia_rep_update [OF rep(1) valid idx] ia_rep_update [OF rep(2) valid idx] by simp_all
  have frame: "\<forall>k \<ge> 1. k \<noteq> idx \<longrightarrow> ia_item (ia_update mem idx s) k = ia_item mem k" for s
    using valid by (simp add: ia_item_update)
  show ?thesis
  proof (cases "l' = BFree \<and> r' = BFree")
    case True
    then have "finish_free mem c tc tc' = coalesce_free_nodes (ia_update mem idx IA_FREE) idx"
      using c coalesce_free_child [OF lv ok cc] other by (auto simp: finish_free_def node_of_free)
    then show ?thesis
      using True frame valid ok by (intro exI [of _ "ia_update mem idx IA_FREE"]) (auto simp: finish_free_def merge_def ia.get_set_same)
  next
    case False
    have nfull: "\<not> (full l' \<and> full r')" using c nf by auto
    show ?thesis
    proof (cases "full l \<and> full r")
      case True
      have "finish_free mem c tc tc' = mark_nodes_split mem idx"
        using False True c cdiv coalesce_free_child [OF lv ok cc] other by (auto simp: finish_free_def node_of_free)
      also have "\<dots> = mark_nodes_split (ia_update mem idx IA_SPLIT) (idx div 2)"
        using mark_split_step [OF valid idx] root True by simp
      finally show ?thesis
        using False True frame valid ok upd nfull
        by (intro exI [of _ "ia_update mem idx IA_SPLIT"]) (auto simp: finish_free_def merge_def ia.get_set_same)
    next
      case nft: False
      have "finish_free mem c tc tc' = ret mem"
        using False nft c cdiv coalesce_free_child [OF lv ok cc] other mark_split_step [OF valid idx] root
        by (auto simp: finish_free_def node_of_free)
      then show ?thesis
        using False nft ok rep nfull root by (intro exI [of _ mem]) (auto simp: finish_free_def merge_def)
    qed
  qed
qed

lemma ia_free_find:
  assumes "bt_free d off t = Some (s, t')" "ia_rep mem idx t" "bt_ok d t" "at_level d idx" "tree_ok mem"
    "p + span d < 2 ^ 64" "off < span d"
  shows "\<exists>n mem'. internal_free_find mem (p + off) idx (span d) p = ret (n, s) \<and> ia_valid mem n \<and> n \<in> below idx
     \<and> coalesce_free_nodes (ia_update mem n IA_FREE) n = finish_free mem' idx t t'
     \<and> ia_rep mem' idx t' \<and> tree_ok mem' \<and> (\<forall>k \<ge> 1. k \<notin> below idx \<longrightarrow> ia_item mem' k = ia_item mem k)"
  using assms
proof (induction d arbitrary: t off s t' idx p)
  case 0
  then have "t = BUsed" by (cases t) simp_all
  then have "off = 0" "s = 32" "t' = BFree" using 0(1) by (simp_all split: if_splits)
  moreover have valid: "ia_valid mem idx" using ia_valid_level 0 by blast
  ultimately show ?case
    using 0(2,5) \<open>t = BUsed\<close>
    by (subst internal_free_find.simps) (auto simp: get_tree_item_def finish_free_def ia_item_update ia.get_set_same
        intro!: exI [of _ "ia_update mem idx IA_FREE"])
next
  case (Suc d)
  note lv = at_level_child [OF Suc.prems(4)]
  have valid: "ia_valid mem idx" using ia_valid_level Suc.prems by blast
  have idx: "1 \<le> idx" using at_level_range Suc.prems(4) by blast
  have lim: "p + span d < 2 ^ 64" "p + span d + span d < 2 ^ 64" using Suc.prems(6) by simp_all
  show ?case
  proof (cases t)
    case BFree
    then show ?thesis using Suc.prems(1) by simp
  next
    case BUsed
    then have "off = 0" "s = span (Suc d)" "t' = BFree" using Suc.prems(1) by (simp_all split: if_splits)
    then show ?thesis
      using Suc.prems(2,5) BUsed valid
      by (subst internal_free_find.simps) (auto simp: get_tree_item_def finish_free_def ia_item_update ia.get_set_same
          intro!: exI [of _ "ia_update mem idx IA_FREE"])
  next
    case (BSplit l r)
    note rep = Suc.prems(2) [unfolded BSplit ia_rep.simps]
    have ok: "bt_ok d l" "bt_ok d r" using Suc.prems(3) BSplit by simp_all
    have step: "internal_free_find mem (p + off) idx (span (Suc d)) p =
        (if span d \<le> off then internal_free_find mem (p + off) (idx * 2 + 1) (span d) (p + span d)
         else internal_free_find mem (p + off) (idx * 2) (span d) p)"
      using rep valid lim at_level_leaf(2) [OF Suc.prems(4)]
      by (subst internal_free_find.simps) (auto simp: get_tree_item_def wrap_simps)
    show ?thesis
    proof (cases "span d \<le> off")
      case True
      then obtain r' where r': "bt_free d (off - span d) r = Some (s, r')" "t' = merge l r'"
        using Suc.prems(1) BSplit by auto
      have off: "off - span d < span d" "p + span d + (off - span d) = p + off" using Suc.prems(7) True by simp_all
      obtain n mem2 where m2: "internal_free_find mem (p + off) (idx * 2 + 1) (span d) (p + span d) = ret (n, s)"
          "ia_valid mem n" "n \<in> below (idx * 2 + 1)"
          "coalesce_free_nodes (ia_update mem n IA_FREE) n = finish_free mem2 (idx * 2 + 1) r r'"
          "ia_rep mem2 (idx * 2 + 1) r'" "tree_ok mem2" "\<forall>k \<ge> 1. k \<notin> below (idx * 2 + 1) \<longrightarrow> ia_item mem2 k = ia_item mem k"
        using Suc.IH [OF r'(1) _ ok(2) lv(2) Suc.prems(5) lim(2) off(1)] rep unfolding off(2) by blast
      have rl: "ia_rep mem2 (idx * 2) l"
      proof (rule ia_rep_frame [of mem])
        fix k
        assume k: "k \<in> below (idx * 2)"
        then have "1 \<le> k" using below_ge [of k "idx * 2"] idx by simp
        moreover have "k \<notin> below (idx * 2 + 1)" using below_disjoint [OF idx, of k] k by blast
        ultimately show "ia_item mem2 k = ia_item mem k" using m2(7) by simp
      qed (use rep in simp)
      have root: "ia_item mem2 idx = (if full l \<and> full r then IA_FULL else IA_SPLIT)"
        using m2(7) rep idx below_parent(2) [OF idx] by simp
      obtain mem3 where m3: "finish_free mem2 (idx * 2 + 1) r r' = finish_free mem3 idx (BSplit l r) (merge l r')"
          "ia_rep mem3 idx (merge l r')" "tree_ok mem3" "\<forall>k \<ge> 1. k \<noteq> idx \<longrightarrow> ia_item mem3 k = ia_item mem2 k"
        using ia_rejoin [OF Suc.prems(4) m2(6) rl m2(5) root _ bt_free_not_full [OF r'(1)]] by blast
      have "\<forall>k \<ge> 1. k \<notin> below idx \<longrightarrow> ia_item mem3 k = ia_item mem k"
        using m3(4) m2(7) below_child below_self by metis
      then show ?thesis
        using step True m2 m3 below_child(2) [OF m2(3)] BSplit r'(2) by auto
    next
      case False
      then obtain l' where l': "bt_free d off l = Some (s, l')" "t' = merge l' r"
        using Suc.prems(1) BSplit by auto
      have off: "off < span d" using False by simp
      obtain n mem2 where m2: "internal_free_find mem (p + off) (idx * 2) (span d) p = ret (n, s)"
          "ia_valid mem n" "n \<in> below (idx * 2)"
          "coalesce_free_nodes (ia_update mem n IA_FREE) n = finish_free mem2 (idx * 2) l l'"
          "ia_rep mem2 (idx * 2) l'" "tree_ok mem2" "\<forall>k \<ge> 1. k \<notin> below (idx * 2) \<longrightarrow> ia_item mem2 k = ia_item mem k"
        using Suc.IH [OF l'(1) _ ok(1) lv(1) Suc.prems(5) lim(1) off] rep by blast
      have rr: "ia_rep mem2 (idx * 2 + 1) r"
      proof (rule ia_rep_frame [of mem])
        fix k
        assume k: "k \<in> below (idx * 2 + 1)"
        then have "1 \<le> k" using below_ge [of k "idx * 2 + 1"] by simp
        moreover have "k \<notin> below (idx * 2)" using below_disjoint [OF idx, of k] k by blast
        ultimately show "ia_item mem2 k = ia_item mem k" using m2(7) by simp
      qed (use rep in simp)
      have root: "ia_item mem2 idx = (if full l \<and> full r then IA_FULL else IA_SPLIT)"
        using m2(7) rep idx below_parent(1) [OF idx] by simp
      obtain mem3 where m3: "finish_free mem2 (idx * 2) l l' = finish_free mem3 idx (BSplit l r) (merge l' r)"
          "ia_rep mem3 idx (merge l' r)" "tree_ok mem3" "\<forall>k \<ge> 1. k \<noteq> idx \<longrightarrow> ia_item mem3 k = ia_item mem2 k"
        using ia_rejoin [OF Suc.prems(4) m2(6) m2(5) rr root _ bt_free_not_full [OF l'(1)]] by blast
      have "\<forall>k \<ge> 1. k \<notin> below idx \<longrightarrow> ia_item mem3 k = ia_item mem k"
        using m3(4) m2(7) below_child below_self by metis
      then show ?thesis
        using step False m2 m3 below_child(1) [OF m2(3)] BSplit l'(2) by auto
    qed
  qed
qed

subsection \<open>Blocks and free bytes\<close>

fun bt_free_bytes :: "nat \<Rightarrow> btree \<Rightarrow> nat" where
  "bt_free_bytes d BFree = span d"
| "bt_free_bytes d BUsed = 0"
| "bt_free_bytes d (BSplit l r) = bt_free_bytes (d - 1) l + bt_free_bytes (d - 1) r"

text \<open>Offset and size of the blocks in use.\<close>

fun bt_blocks :: "nat \<Rightarrow> btree \<Rightarrow> (nat \<times> nat) set" where
  "bt_blocks d BFree = {}"
| "bt_blocks d BUsed = {(0, span d)}"
| "bt_blocks d (BSplit l r) = bt_blocks (d - 1) l \<union> (\<lambda>(off, s). (span (d - 1) + off, s)) ` bt_blocks (d - 1) r"

text \<open>Size of the largest free block.\<close>

fun bt_largest :: "nat \<Rightarrow> btree \<Rightarrow> nat" where
  "bt_largest d BFree = span d"
| "bt_largest d BUsed = 0"
| "bt_largest d (BSplit l r) = max (bt_largest (d - 1) l) (bt_largest (d - 1) r)"

lemma bt_largest_le: "bt_ok d t \<Longrightarrow> bt_largest d t \<le> span d"
  by (induction d t rule: bt_ok.induct) auto

lemma bt_largest_free: "bt_largest d t \<le> bt_free_bytes d t"
  by (induction d t rule: bt_free_bytes.induct) auto

lemma bt_alloc_none_iff:
  "bt_ok d t \<Longrightarrow> 1 \<le> sz \<Longrightarrow> sz \<le> span d \<Longrightarrow> bt_alloc sz d t = None \<longleftrightarrow> bt_largest d t < sz"
proof (induction sz d t rule: bt_alloc.induct)
  case (5 sz d l r)
  then show ?case
    using bt_largest_le [of d l] bt_largest_le [of d r] by (auto split: option.splits)
qed (auto split: if_splits)

lemma bt_blocks_range:
  "bt_ok d t \<Longrightarrow> (off, s) \<in> bt_blocks d t \<Longrightarrow> off + s \<le> span d \<and> s dvd off \<and> (\<exists>k \<le> d. s = span k)"
proof (induction d t arbitrary: off rule: bt_ok.induct)
  case (4 d l r)
  show ?case
  proof (cases "(off, s) \<in> bt_blocks d l")
    case True
    then have "off + s \<le> span d \<and> s dvd off \<and> (\<exists>k \<le> d. s = span k)" using 4 by simp
    then show ?thesis by (auto intro: le_SucI)
  next
    case False
    then obtain o1 where o1: "off = span d + o1" "(o1, s) \<in> bt_blocks d r" using 4(4) by auto
    then have "o1 + s \<le> span d \<and> s dvd o1 \<and> (\<exists>k \<le> d. s = span k)" using 4 by simp
    moreover have "span k dvd span d" if "k \<le> d" for k
      using that by (simp add: span_def le_imp_power_dvd)
    ultimately show ?thesis using o1(1) by (auto intro: le_SucI)
  qed
qed (auto intro: exI)

lemma bt_blocks_disjoint:
  "bt_ok d t \<Longrightarrow> (o1, s1) \<in> bt_blocks d t \<Longrightarrow> (o2, s2) \<in> bt_blocks d t \<Longrightarrow> (o1, s1) \<noteq> (o2, s2) \<Longrightarrow>
     o1 + s1 \<le> o2 \<or> o2 + s2 \<le> o1"
proof (induction d t arbitrary: o1 o2 rule: bt_ok.induct)
  case (4 d l r)
  have ok: "bt_ok d l" "bt_ok d r" using 4 by simp_all
  have left: "off + s \<le> span d" if "(off, s) \<in> bt_blocks d l" for off s
    using bt_blocks_range [OF ok(1) that] by simp
  show ?case using 4 left by (fastforce)
qed auto

lemma bt_alloc_blocks:
  assumes "bt_alloc sz d t = Some (off, s, t')" "bt_ok d t" "sz \<le> span d"
  shows "bt_ok d t' \<and> bt_blocks d t' = insert (off, s) (bt_blocks d t) \<and> sz \<le> s
     \<and> (\<forall>b \<in> bt_blocks d t. fst b + snd b \<le> off \<or> off + s \<le> fst b) \<and> off + s \<le> span d
     \<and> bt_free_bytes d t = bt_free_bytes d t' + s \<and> t' \<noteq> BFree"
  using assms
proof (induction sz d t arbitrary: off s t' rule: bt_alloc.induct)
  case (3 sz d)
  then show ?case by (cases "bt_alloc sz d BFree") (auto split: if_splits)
next
  case (5 sz d l r)
  have ok: "bt_ok d l" "bt_ok d r" and sz: "\<not> span d < sz" using 5 by (auto split: if_splits)
  have lr: "fst b + snd b \<le> span d" if "b \<in> bt_blocks d l" for b
    using bt_blocks_range [OF ok(1), of "fst b" "snd b"] that by simp
  show ?case
  proof (cases "bt_alloc sz d l")
    case (Some a)
    then obtain l' where l': "bt_alloc sz d l = Some (off, s, l')" "t' = BSplit l' r"
      using 5(3) sz by (cases a) auto
    then show ?thesis using 5(1) [OF sz l'(1) ok(1)] sz ok(2) 5(4) by auto
  next
    case None
    then obtain off' r' where r': "bt_alloc sz d r = Some (off', s, r')" "t' = BSplit l r'" "off = span d + off'"
      using 5(3) sz by auto
    then show ?thesis using 5(2) [OF sz None r'(1) ok(2)] sz ok(1) 5(4) lr by fastforce
  qed
qed auto

lemma merge_props:
  assumes "bt_ok d l" "bt_ok d r"
  shows "bt_ok (Suc d) (merge l r)" "bt_blocks (Suc d) (merge l r) = bt_blocks (Suc d) (BSplit l r)"
    "bt_free_bytes (Suc d) (merge l r) = bt_free_bytes (Suc d) (BSplit l r)"
  using assms by (auto simp: merge_def)

lemma bt_free_blocks:
  assumes "(off, s) \<in> bt_blocks d t" "bt_ok d t"
  shows "\<exists>t'. bt_free d off t = Some (s, t') \<and> bt_ok d t' \<and> bt_blocks d t' = bt_blocks d t - {(off, s)}
     \<and> bt_free_bytes d t' = bt_free_bytes d t + s"
  using assms
proof (induction d t arbitrary: off rule: bt_ok.induct)
  case (4 d l r)
  have ok: "bt_ok d l" "bt_ok d r" using 4 by simp_all
  have l: "o1 < span d" if b: "(o1, s1) \<in> bt_blocks d l" for o1 s1
  proof -
    obtain k where "o1 + s1 \<le> span d" "s1 = span k" using bt_blocks_range [OF ok(1) b] by blast
    then show ?thesis using span_simps(3) [of k] by linarith
  qed
  show ?case
  proof (cases "(off, s) \<in> bt_blocks d l")
    case True
    then obtain l' where l': "bt_free d off l = Some (s, l')" "bt_ok d l'" "bt_blocks d l' = bt_blocks d l - {(off, s)}"
      "bt_free_bytes d l' = bt_free_bytes d l + s" using 4(1) ok by blast
    then have "bt_free (Suc d) off (BSplit l r) = Some (s, merge l' r)" using l [OF True] by simp
    moreover have "(off, s) \<notin> (\<lambda>(off, s). (span d + off, s)) ` bt_blocks d r" using l [OF True] by auto
    ultimately show ?thesis using merge_props [OF l'(2) ok(2)] l' by auto
  next
    case False
    then obtain o1 where o1: "off = span d + o1" "(o1, s) \<in> bt_blocks d r" using 4(3) by auto
    then obtain r' where r': "bt_free d o1 r = Some (s, r')" "bt_ok d r'" "bt_blocks d r' = bt_blocks d r - {(o1, s)}"
      "bt_free_bytes d r' = bt_free_bytes d r + s" using 4(2) ok by blast
    then have "bt_free (Suc d) off (BSplit l r) = Some (s, merge l r')" using o1(1) by simp
    then show ?thesis using merge_props [OF ok(1) r'(2)] r' o1 False by auto
  qed
qed auto

text \<open>Freeing the block just allocated restores the tree.\<close>

lemma bt_free_alloc:
  assumes "bt_alloc sz d t = Some (off, s, t')" "bt_ok d t" "sz \<le> span d"
  shows "bt_free d off t' = Some (s, t)"
  using assms
proof (induction sz d t arbitrary: off s t' rule: bt_alloc.induct)
  case (3 sz d)
  then show ?case
  proof (cases "span d < sz")
    case False
    then obtain t where t: "bt_alloc sz d BFree = Some (off, s, t)" "t' = BSplit t BFree" using 3(2) by auto
    have blocks: "off + s \<le> span d" "bt_blocks d t = {(off, s)}" "bt_ok d t"
      using bt_alloc_blocks [OF t(1)] False by simp_all
    then obtain k where "s = span k" using bt_blocks_range [OF blocks(3), of off s] by auto
    then have "off < span d" using blocks(1) span_simps(3) [of k] by linarith
    then show ?thesis using 3(1) [OF False t(1)] False t(2) by (simp add: merge_def)
  qed simp
next
  case (5 sz d l r)
  have ok: "bt_ok d l" "bt_ok d r" and sz: "\<not> span d < sz" using 5 by (auto split: if_splits)
  have ne: "merge l r = BSplit l r" using 5(4) by (auto simp: merge_def)
  show ?case
  proof (cases "bt_alloc sz d l")
    case (Some a)
    then obtain l' where l': "bt_alloc sz d l = Some (off, s, l')" "t' = BSplit l' r"
      using 5(3) sz by (cases a) auto
    have blocks: "off + s \<le> span d" "bt_blocks d l' = insert (off, s) (bt_blocks d l)" "bt_ok d l'"
      using bt_alloc_blocks [OF l'(1) ok(1)] sz by simp_all
    then obtain k where "s = span k" using bt_blocks_range [OF blocks(3), of off s] by auto
    then have "off < span d" using blocks(1) span_simps(3) [of k] by linarith
    then show ?thesis using 5(1) [OF sz l'(1) ok(1)] sz l'(2) ne by simp
  next
    case None
    then obtain off' r' where r': "bt_alloc sz d r = Some (off', s, r')" "t' = BSplit l r'" "off = span d + off'"
      using 5(3) sz by auto
    then show ?thesis using 5(2) [OF sz None r'(1) ok(2)] sz ne by simp
  qed
qed auto

subsection \<open>The allocator as a whole\<close>

text \<open>The root is 18 levels above the leaves: \<open>span 18\<close> is the pool.\<close>

definition ia_inv :: "addr \<Rightarrow> int_alloc_t \<Rightarrow> btree \<Rightarrow> bool" where
  "ia_inv a r t \<longleftrightarrow> bt_ok 18 t \<and> ia_rep (ia_buddy_tree r) 1 t \<and> tree_ok (ia_buddy_tree r)
     \<and> free_mem r = bt_free_bytes 18 t \<and> a + INT_ALLOC_T_SIZE < 2 ^ 64"

lemma root_level: "at_level 18 1"
  by (simp add: at_level_def)

lemma span_18: "span 18 = INTERNAL_ALLOC_CHUNK_SIZE_BYTES" "span 17 = 4194304"
  by (simp_all add: span_def ia_consts)

lemma ia_memory_lim: "a + INT_ALLOC_T_SIZE < 2 ^ 64 \<Longrightarrow> ia_memory a + span 18 < 2 ^ 64"
  by (simp add: ia_memory_def INT_ALLOC_T_SIZE_def span_18 ac_simps)

lemma bt_free_bytes_le: "bt_ok d t \<Longrightarrow> bt_free_bytes d t \<le> span d"
  by (induction d t rule: bt_ok.induct) auto

lemma coalesce_root [simp]: "coalesce_full_nodes mem 1 = ret mem" "coalesce_full_nodes mem (Suc 0) = ret mem"
  "coalesce_free_nodes mem 1 = ret mem" "coalesce_free_nodes mem (Suc 0) = ret mem" "mark_nodes_split mem 0 = ret mem"
  by (simp_all add: coalesce_full_nodes.simps coalesce_free_nodes.simps mark_nodes_split.simps)

lemma ia_init_inv:
  assumes "a + INT_ALLOC_T_SIZE < 2 ^ 64"
  shows "ia_inv a (internal_allocator_init a) BFree"
proof -
  have n: "INTERNAL_ALLOC_BUDDY_TREE_SIZE_BYTES = Suc 131071" by (simp add: ia_consts)
  have "ia_item ((replicate INTERNAL_ALLOC_BUDDY_TREE_SIZE_BYTES 0)[0 := ia_node_val IA_FREE]) 1 = IA_FREE"
    unfolding n replicate_Suc by (simp add: ia_item_def bits2_get_def ia_node_of_def del: replicate_Suc)
  then show ?thesis
    using assms by (simp add: ia_inv_def internal_allocator_init_def tree_ok_def span_18 del: ia_node_val.simps)
qed

lemma internal_alloc_start:
  "internal_alloc a r sz = (if free_mem r < sz then ret (0, r)
     else bindR (internal_alloc_loop sz (ia_enter (ia_buddy_tree r) (free_mem r) 1 18 (ia_memory a)))
       (\<lambda>(p, fm, mem). ret (p, r\<lparr>free_mem := fm, ia_buddy_tree := mem\<rparr>)))"
  by (simp add: internal_alloc_def ia_enter_def span_18)

text \<open>At the root the search ends with NULL when both halves fail.\<close>

lemma ia_search_root_none:
  assumes none: "bt_alloc sz (Suc d) t = None" and rep: "ia_rep mem 1 t" and ok: "bt_ok (Suc d) t" "tree_ok mem"
    and nf: "\<not> full t" and sz: "sz \<le> span d" and lim: "p + span (Suc d) < 2 ^ 64" and root: "at_level (Suc d) 1"
  shows "internal_alloc_loop sz (ia_enter mem fm 1 (Suc d) p) = ret (0, fm, mem)"
proof -
  obtain l r where t: "t = BSplit l r" using none nf free_alloc [of sz "Suc d"] by (cases t) auto
  have none2: "bt_alloc sz d l = None" "bt_alloc sz d r = None"
    using none sz by (auto simp: t split: option.splits)
  have ok2: "bt_ok d l" "bt_ok d r" using ok(1) by (simp_all add: t)
  have rep2: "ia_item mem 1 = IA_SPLIT" "ia_rep mem 2 l" "ia_rep mem 3 r"
    using rep nf by (auto simp: t numeral_3_eq_3)
  have lv: "at_level d 2" "at_level d 3" using at_level_child [OF root] by simp_all
  have lim2: "p + span d < 2 ^ 64" "p + span d + span d < 2 ^ 64" using lim by simp_all
  let ?E = "\<lambda>idx p. ia_enter mem fm idx d p"
  have "internal_alloc_loop sz (ia_enter mem fm 1 (Suc d) p) = internal_alloc_loop sz (?E 2 p)"
    using ia_step_into_left [OF root ok(2) rep2(1) sz] by simp
  also have "\<dots> = internal_alloc_loop sz (ia_go_up (?E 2 p))"
    by (rule ia_search_none [OF none2(1) rep2(2) ok2(1) lv(1) ok(2) sz lim2(1)]) simp
  also have "\<dots> = internal_alloc_loop sz (?E 3 (p + span d))"
    using ia_left_to_right [OF root lim2(1)] by simp
  also have "\<dots> = internal_alloc_loop sz (ia_go_up (?E 3 (p + span d)))"
    by (rule ia_search_none [OF none2(2) rep2(3) ok2(2) lv(2) ok(2) sz lim2(2)]) simp
  also have "\<dots> = ret (0, fm, mem)"
    by (subst internal_alloc_loop.simps) (simp add: ia_go_up_def)
  finally show ?thesis .
qed

lemmas ia_search_pool_none = ia_search_root_none [of _ 17, simplified Suc_numeral Num.arith_simps]

lemma internal_alloc_eq:
  assumes inv: "ia_inv a r t" and sz: "1 \<le> sz" "sz \<le> span 17"
  shows "\<exists>r'. internal_alloc a r sz = (case bt_alloc sz 18 t of None \<Rightarrow> ret (0, r)
       | Some (off, s, t') \<Rightarrow> ret (ia_memory a + off, r'))
     \<and> (\<forall>off s t'. bt_alloc sz 18 t = Some (off, s, t') \<longrightarrow> ia_inv a r' t')
     \<and> fd r' = fd r \<and> bk r' = bk r \<and> key r' = key r"
proof -
  have i: "bt_ok 18 t" "ia_rep (ia_buddy_tree r) 1 t" "tree_ok (ia_buddy_tree r)" "free_mem r = bt_free_bytes 18 t"
    "ia_memory a + span 18 < 2 ^ 64" using inv ia_memory_lim by (simp_all add: ia_inv_def)
  have sz18: "sz \<le> span 18" using sz(2) by (simp add: span_def)
  have free_lt: "free_mem r < 18446744073709551616"
    using bt_free_bytes_le [OF i(1)] i(4) by (simp add: span_18 ia_consts)
  show ?thesis
  proof (cases "bt_alloc sz 18 t")
    case None
    have "internal_alloc a r sz = ret (0, r)"
    proof (cases "free_mem r < sz")
      case False
      have "\<not> full t"
      proof
        assume "full t"
        moreover have "full t \<Longrightarrow> bt_free_bytes d t = 0" for d by (induction t arbitrary: d) simp_all
        ultimately show False using False i(4) sz(1) by simp
      qed
      then show ?thesis
        using ia_search_pool_none [OF None i(2,1,3) _ sz(2) i(5) root_level] False by (simp add: internal_alloc_start)
    qed (simp add: internal_alloc_start)
    then show ?thesis using None by auto
  next
    case (Some x)
    then obtain off s t' where some: "bt_alloc sz 18 t = Some (off, s, t')" by (cases x) auto
    note blocks = bt_alloc_blocks [OF some i(1) sz18]
    then have "\<not> free_mem r < sz" using i(4) by simp
    moreover obtain mem' where "internal_alloc_loop sz (ia_enter (ia_buddy_tree r) (free_mem r) 1 18 (ia_memory a)) =
        bindR (if full t' then coalesce_full_nodes mem' 1 else ret mem') (\<lambda>m. ret (ia_memory a + off, sub64 (free_mem r) s, m))"
      "ia_rep mem' 1 t'" "tree_ok mem'"
      using ia_search_some [OF some i(2,1) root_level i(3) sz18 i(5), of "free_mem r"] by blast
    moreover have "sub64 (free_mem r) s = bt_free_bytes 18 t'"
      using blocks i(4) free_lt by (simp add: wrap_simps)
    ultimately have "internal_alloc a r sz = ret (ia_memory a + off, r\<lparr>free_mem := bt_free_bytes 18 t', ia_buddy_tree := mem'\<rparr>)
        \<and> ia_inv a (r\<lparr>free_mem := bt_free_bytes 18 t', ia_buddy_tree := mem'\<rparr>) t'"
      using blocks inv by (simp add: internal_alloc_start ia_inv_def)
    then show ?thesis using some by (intro exI) auto
  qed
qed

lemma internal_free_eq:
  assumes inv: "ia_inv a r t" and blk: "(off, s) \<in> bt_blocks 18 t"
  obtains r' t' where "internal_free a r (ia_memory a + off) = ret r'" "ia_inv a r' t'" "bt_free 18 off t = Some (s, t')"
    "bt_blocks 18 t' = bt_blocks 18 t - {(off, s)}" "free_mem r' = free_mem r + s"
    "fd r' = fd r" "bk r' = bk r" "key r' = key r"
proof -
  have i: "bt_ok 18 t" "ia_rep (ia_buddy_tree r) 1 t" "tree_ok (ia_buddy_tree r)" "free_mem r = bt_free_bytes 18 t"
    "ia_memory a + span 18 < 2 ^ 64" using inv ia_memory_lim by (simp_all add: ia_inv_def)
  obtain t' where t': "bt_free 18 off t = Some (s, t')" "bt_ok 18 t'" "bt_blocks 18 t' = bt_blocks 18 t - {(off, s)}"
    "bt_free_bytes 18 t' = bt_free_bytes 18 t + s" using bt_free_blocks [OF blk i(1)] by blast
  obtain k where "off + s \<le> span 18" "s = span k" using bt_blocks_range [OF i(1) blk] by blast
  then have off: "off < span 18" using span_simps(3) [of k] by linarith
  obtain n mem' where f: "internal_free_find (ia_buddy_tree r) (ia_memory a + off) 1 (span 18) (ia_memory a) = ret (n, s)"
    "ia_valid (ia_buddy_tree r) n" "coalesce_free_nodes (ia_update (ia_buddy_tree r) n IA_FREE) n = finish_free mem' 1 t t'"
    "ia_rep mem' 1 t'" "tree_ok mem'"
    using ia_free_find [OF t'(1) i(2,1) root_level i(3,5) off] by blast
  have fin: "finish_free mem' 1 t t' = ret mem'" by (simp add: finish_free_def)
  have "free_mem r + s < 18446744073709551616"
    using bt_free_bytes_le [OF t'(2)] t'(4) i(4) by (simp add: span_18 ia_consts)
  then have "internal_free a r (ia_memory a + off) = ret (r\<lparr>free_mem := free_mem r + s, ia_buddy_tree := mem'\<rparr>)"
    using f fin by (simp add: internal_free_def span_18 set_tree_item_def wrap_simps)
  moreover have "ia_inv a (r\<lparr>free_mem := free_mem r + s, ia_buddy_tree := mem'\<rparr>) t'"
    using inv t' f(4,5) by (simp add: ia_inv_def)
  ultimately show thesis by (rule that) (use t' in simp_all)
qed

lemma coalesce_full_top:
  assumes "tree_ok mem" "c = 2 \<or> c = 3"
  shows "\<exists>mem'. coalesce_full_nodes mem c = ret mem'"
proof -
  have "at_level (Suc 17) 1" using root_level by simp
  then show ?thesis using coalesce_full_child [of 17 1 mem c] assms by (auto split: if_splits)
qed

subsection \<open>Properties\<close>

text \<open>The blocks in use, with their addresses.\<close>

definition ia_live :: "addr \<Rightarrow> btree \<Rightarrow> (addr \<times> nat) set" where
  "ia_live a t = (\<lambda>(off, s). (ia_memory a + off, s)) ` bt_blocks 18 t"

definition ex_ia :: int_alloc_t where
  "ex_ia = internal_allocator_init 4096"

lemma ex_ia_inv: "ia_inv 4096 ex_ia BFree"
  unfolding ex_ia_def by (rule ia_init_inv) (simp add: INT_ALLOC_T_SIZE_def ia_consts)

text \<open>C28: for every request of at most half the pool \<open>internal_alloc\<close> terminates without
  fault. It returns NULL, changing nothing, exactly when no free block is large enough;
  otherwise it returns a block of at least the requested size inside the pool that overlaps no block in
  use, and the counter of free bytes drops by the block's size.\<close>

theorem internal_alloc_correct:
  assumes "ia_inv a r t" "1 \<le> sz" "sz \<le> 4194304"
  shows "\<exists>p r'. internal_alloc a r sz = ret (p, r')
     \<and> (if bt_largest 18 t < sz then p = 0 \<and> r' = r
        else \<exists>s t'. ia_inv a r' t' \<and> ia_live a t' = insert (p, s) (ia_live a t) \<and> sz \<le> s
          \<and> ia_memory a \<le> p \<and> p + s \<le> ia_memory a + INTERNAL_ALLOC_CHUNK_SIZE_BYTES
          \<and> (\<forall>(q, n) \<in> ia_live a t. q + n \<le> p \<or> p + s \<le> q) \<and> free_mem r = free_mem r' + s)"
proof -
  have ok: "bt_ok 18 t" and free: "free_mem r = bt_free_bytes 18 t" using assms(1) by (simp_all add: ia_inv_def)
  have sz: "sz \<le> span 17" "sz \<le> span 18" using assms(3) by (simp_all add: span_def)
  obtain r' where eq: "internal_alloc a r sz = (case bt_alloc sz 18 t of None \<Rightarrow> ret (0, r)
       | Some (off, s, t') \<Rightarrow> ret (ia_memory a + off, r'))"
    "\<forall>off s t'. bt_alloc sz 18 t = Some (off, s, t') \<longrightarrow> ia_inv a r' t'"
    using internal_alloc_eq [OF assms(1,2) sz(1)] by blast
  show ?thesis
  proof (cases "bt_alloc sz 18 t")
    case None
    then show ?thesis using eq(1) bt_alloc_none_iff [OF ok assms(2) sz(2)] by simp
  next
    case (Some x)
    then obtain off s t' where some: "bt_alloc sz 18 t = Some (off, s, t')" by (cases x) auto
    note blocks = bt_alloc_blocks [OF some ok sz(2)]
    have "\<not> bt_largest 18 t < sz" using some bt_alloc_none_iff [OF ok assms(2) sz(2)] by simp
    moreover have inv': "ia_inv a r' t'" using eq(2) some by blast
    moreover have "free_mem r' = bt_free_bytes 18 t'" using inv' by (simp add: ia_inv_def)
    ultimately show ?thesis
      using eq(1) some blocks free span_18(1)
      by (intro exI [of _ "ia_memory a + off"] exI [of _ r'] conjI) (auto simp: ia_live_def intro!: exI [of _ s] exI [of _ t'])
  qed
qed

theorem internal_alloc_correct_witness:
  "\<exists>p r'. internal_alloc 4096 ex_ia 100 = ret (p, r') \<and> ia_memory 4096 \<le> p
     \<and> p + 100 \<le> ia_memory 4096 + INTERNAL_ALLOC_CHUNK_SIZE_BYTES"
proof -
  have "\<not> bt_largest 18 BFree < 100" by (simp add: span_def)
  then show ?thesis using internal_alloc_correct [OF ex_ia_inv, of 100] by fastforce
qed

text \<open>C29: freeing the address of a block in use terminates without fault, removes exactly
  that block, adds its size to the counter, and keeps the tree normalised: free buddies are
  merged up to the root.\<close>

theorem internal_free_correct:
  assumes "ia_inv a r t" "(p, s) \<in> ia_live a t"
  shows "\<exists>r' t'. internal_free a r p = ret r' \<and> ia_inv a r' t' \<and> ia_live a t' = ia_live a t - {(p, s)}
     \<and> free_mem r' = free_mem r + s"
proof -
  obtain off where off: "p = ia_memory a + off" "(off, s) \<in> bt_blocks 18 t" using assms(2) by (auto simp: ia_live_def)
  obtain r' t' where 1: "internal_free a r (ia_memory a + off) = ret r'" "ia_inv a r' t'"
    "bt_blocks 18 t' = bt_blocks 18 t - {(off, s)}" "free_mem r' = free_mem r + s"
    by (rule internal_free_eq [OF assms(1) off(2)]) (rule that)
  have "inj_on (\<lambda>(off, s). (ia_memory a + off, s)) X" for X by (auto simp: inj_on_def)
  then have "ia_live a t' = ia_live a t - {(p, s)}"
    unfolding ia_live_def 1(3) off(1) by (subst inj_on_image_set_diff [of _ "bt_blocks 18 t"]) (use off(2) in auto)
  then show ?thesis using 1 off(1) by blast
qed

text \<open>Allocating a block and freeing it again restores the abstract state of
  the node, whatever was split on the way: the same blocks are in use and the same bytes free.\<close>

theorem internal_alloc_free_roundtrip:
  assumes "ia_inv a r t" "1 \<le> sz" "sz \<le> 4194304" "internal_alloc a r sz = ret (p, r')" "p \<noteq> 0"
  shows "\<exists>r''. internal_free a r' p = ret r'' \<and> ia_inv a r'' t"
proof -
  have ok: "bt_ok 18 t" using assms(1) by (simp add: ia_inv_def)
  have sz: "sz \<le> span 17" "sz \<le> span 18" using assms(3) by (simp_all add: span_def)
  obtain r1 where eq: "internal_alloc a r sz = (case bt_alloc sz 18 t of None \<Rightarrow> ret (0, r)
       | Some (off, s, t') \<Rightarrow> ret (ia_memory a + off, r1))"
    "\<forall>off s t'. bt_alloc sz 18 t = Some (off, s, t') \<longrightarrow> ia_inv a r1 t'"
    using internal_alloc_eq [OF assms(1,2) sz(1)] by blast
  then obtain off s t' where some: "bt_alloc sz 18 t = Some (off, s, t')" "p = ia_memory a + off" "r' = r1"
    using assms(4,5) by (auto split: option.splits)
  have inv': "ia_inv a r' t'" using eq(2) some by blast
  have "(off, s) \<in> bt_blocks 18 t'" using bt_alloc_blocks [OF some(1) ok sz(2)] by simp
  then obtain r'' t'' where "internal_free a r' (ia_memory a + off) = ret r''" "ia_inv a r'' t''" "bt_free 18 off t' = Some (s, t'')"
    by (rule internal_free_eq [OF inv']) (rule that)
  then show ?thesis using bt_free_alloc [OF some(1) ok sz(2)] some(2) by auto
qed

theorem internal_alloc_free_roundtrip_witness:
  "\<exists>p r' r''. internal_alloc 4096 ex_ia 32 = ret (p, r') \<and> internal_free 4096 r' p = ret r'' \<and> ia_inv 4096 r'' BFree"
proof -
  obtain off s t where some: "bt_alloc 32 18 BFree = Some (off, s, t)" using free_alloc by blast
  have "(32 :: nat) \<le> span 17" by (simp add: span_def)
  then obtain r' where r': "internal_alloc 4096 ex_ia 32 = ret (ia_memory 4096 + off, r')"
    using internal_alloc_eq [OF ex_ia_inv, of 32] some by auto
  moreover have "ia_memory 4096 + off \<noteq> 0" by (simp add: ia_memory_def)
  ultimately show ?thesis using internal_alloc_free_roundtrip [OF ex_ia_inv _ _ r'] by auto
qed

theorem internal_free_correct_witness:
  "\<exists>r p s r'. (p, s) \<in> ia_live 4096 (BSplit BUsed BFree) \<and> internal_free 4096 r p = ret r'
     \<and> free_mem r' = free_mem r + 4194304"
proof -
  have s17: "18 = Suc 17" "17 = Suc 16" by simp_all
  have some: "bt_alloc 4194304 18 BFree = Some (0, span 17, BSplit BUsed BFree)"
    unfolding s17(1) bt_alloc.simps unfolding s17(2) bt_alloc.simps by (simp add: span_def)
  have "(4194304 :: nat) \<le> span 17" by (simp add: span_def)
  then obtain r where "ia_inv 4096 r (BSplit BUsed BFree)"
    using internal_alloc_eq [OF ex_ia_inv, of 4194304] some by auto
  moreover have "(ia_memory 4096, 4194304) \<in> ia_live 4096 (BSplit BUsed BFree)"
    by (simp add: ia_live_def span_def image_iff)
  ultimately show ?thesis using internal_free_correct [of 4096 r "BSplit BUsed BFree"] by blast
qed

text \<open>C33: a request of more than half the pool (4 MiB), and of no more than is free in all, on a pool whose left half is wholly free and whose
  right half is not, escapes above the root: the search continues at index 0, re-enters the root with the wrong pointer
  and size, and returns the first address after the pool instead of NULL, and the counter of free bytes goes
  down by the size of the whole pool, modulo \<open>2 ^ 64\<close>. The allocator itself asks for metadata only, which is smaller.\<close>

theorem internal_alloc_oversized:
  assumes "ia_inv a r (BSplit BFree t)" "t \<noteq> BFree" "4194304 < sz" "sz \<le> 8388608" "sz \<le> free_mem r"
  shows "\<exists>r'. internal_alloc a r sz = ret (ia_memory a + INTERNAL_ALLOC_CHUNK_SIZE_BYTES, r')
     \<and> free_mem r' = sub64 (free_mem r) INTERNAL_ALLOC_CHUNK_SIZE_BYTES"
proof -
  let ?mem = "ia_buddy_tree r" and ?fm = "free_mem r" and ?p = "ia_memory a"
  have rep: "ia_item ?mem 1 = IA_SPLIT" "ia_item ?mem 2 = IA_FREE" and ok: "tree_ok ?mem" and lim: "?p + 8388608 < 2 ^ 64"
    using assms(1) ia_memory_lim [of a] by (simp_all add: ia_inv_def span_18 ia_consts)
  have valid: "ia_valid ?mem 1" "ia_valid ?mem 2"
    using ok by (simp_all add: ia_valid_def tree_ok_def ia_consts)
  have leaf: "\<not> IA_IS_LEAF 0" "\<not> IA_IS_LEAF 1" "\<not> IA_IS_LEAF 2" by (simp_all add: IA_IS_LEAF_eq)
  define q where "q = sub64 ?p 8388608"
  have q: "u64 (q + 16777216) = ?p + 8388608"
  proof -
    have "u64 (q + 16777216) = (?p + 8388608 + 18446744073709551616) mod 18446744073709551616"
      by (simp add: q_def sub64_def u64_def mod_add_left_eq)
    also have "\<dots> = (?p + 8388608) mod 18446744073709551616" by (rule mod_add_self2)
    also have "\<dots> = ?p + 8388608" by (rule mod_less) (use lim in simp)
    finally show ?thesis .
  qed
  let ?C = "\<lambda>i s n p. \<lparr>c_mem = ?mem, c_free = ?fm, c_idx = i, c_state = s, c_size = n, c_ptr = p\<rparr>"
  have "internal_alloc_loop sz (?C 1 IA_DOWN 8388608 ?p) = internal_alloc_loop sz (?C 0 IA_UP_RIGHT 16777216 q)"
    by (rule ia_loop_continue) (use rep valid leaf assms in \<open>simp_all add: ia_step_def get_tree_item_def ia_go_up_def wrap_simps q_def\<close>)
  also have "\<dots> = internal_alloc_loop sz (?C 0 IA_UP_LEFT 33554432 q)"
    by (rule ia_loop_continue) (use leaf in \<open>simp_all add: ia_step_def ia_go_up_def wrap_simps\<close>)
  also have "\<dots> = internal_alloc_loop sz (?C 1 IA_DOWN 16777216 (?p + 8388608))"
    by (rule ia_loop_continue) (use leaf q in \<open>simp_all add: ia_step_def\<close>)
  also have "\<dots> = internal_alloc_loop sz (?C 2 IA_DOWN 8388608 (?p + 8388608))"
    by (rule ia_loop_continue) (use rep valid leaf assms in \<open>simp_all add: ia_step_def get_tree_item_def\<close>)
  also have "\<dots> = bindR (coalesce_full_nodes (ia_update ?mem 2 IA_USED) 2)
      (\<lambda>m. ret (?p + 8388608, sub64 ?fm 8388608, m))"
    by (subst ia_loop_take) (use rep valid leaf assms in \<open>simp_all add: ia_step_def get_tree_item_def\<close>)
  finally have loop: "internal_alloc_loop sz (?C 1 IA_DOWN 8388608 ?p) =
      bindR (coalesce_full_nodes (ia_update ?mem 2 IA_USED) 2) (\<lambda>m. ret (?p + 8388608, sub64 ?fm 8388608, m))" .
  obtain m where "coalesce_full_nodes (ia_update ?mem 2 IA_USED) 2 = ret m"
    using coalesce_full_top [of "ia_update ?mem 2 IA_USED" 2] ok by auto
  then show ?thesis
    using loop assms(5) by (simp add: internal_alloc_def INTERNAL_ALLOC_CHUNK_SIZE_BYTES_def)
qed

theorem internal_alloc_oversized_witness:
  "\<exists>r r'. ia_inv 4096 r (BSplit BFree (BSplit BUsed BFree)) \<and> 5000000 \<le> free_mem r
     \<and> internal_alloc 4096 r 5000000 = ret (ia_memory 4096 + 8388608, r')"
proof -
  have s: "18 = Suc 17" "17 = Suc 16" "16 = Suc 15" by simp_all
  let ?t1 = "BSplit BUsed BFree" and ?t2 = "BSplit BUsed (BSplit BUsed BFree)"
  have some1: "bt_alloc 4194304 18 BFree = Some (0, span 17, ?t1)"
    unfolding s(1) bt_alloc.simps unfolding s(2) bt_alloc.simps by (simp add: span_def)
  have some2: "bt_alloc 2097152 18 ?t1 = Some (span 17, span 16, ?t2)"
    unfolding s(1) bt_alloc.simps unfolding s(2) bt_alloc.simps unfolding s(3) bt_alloc.simps by (simp add: span_def)
  have lim: "(4194304 :: nat) \<le> span 17" "(2097152 :: nat) \<le> span 17" by (simp_all add: span_def)
  obtain r1 where r1: "ia_inv 4096 r1 ?t1" using internal_alloc_eq [OF ex_ia_inv _ lim(1)] some1 by auto
  obtain r2 where r2: "ia_inv 4096 r2 ?t2" using internal_alloc_eq [OF r1 _ lim(2)] some2 by auto
  have blk: "(0, span 17) \<in> bt_blocks 18 ?t2" by simp
  have "bt_free 18 0 ?t2 = Some (span 17, BSplit BFree (BSplit BUsed BFree))"
    unfolding s(1) bt_free.simps by (simp add: merge_def)
  then obtain r3 where r3: "ia_inv 4096 r3 (BSplit BFree (BSplit BUsed BFree))"
    using internal_free_eq [OF r2 blk] by (metis Pair_inject option.inject)
  have "free_mem r3 = span 17 + span 16" using r3 by (simp add: ia_inv_def)
  then show ?thesis
    using internal_alloc_oversized [OF r3, of 5000000] r3 by (auto simp: span_def INTERNAL_ALLOC_CHUNK_SIZE_BYTES_def)
qed

end
