(* ===== verification/Platform.thy ===== *)
theory Platform
  imports Utils
begin

text \<open>
  \<open>src/src/platform.c\<close>: the wrappers around the system calls. The kernel is not part of the
  program: it is the parameter \<open>os\<close>, a record of one function per system call the code
  makes, over an arbitrary type \<open>'w\<close> of kernel states. A call returns its result or the
  \<open>errno\<close> value, and the next kernel state. Logging and the memory tagging set-up of AArch64
  are left out.
\<close>

subsection \<open>The kernel\<close>

datatype errno = EINVAL | ENOMEM | EEXIST | EPERM | EOTHER

record 'w os =
  os_mmap :: "'w \<Rightarrow> addr \<Rightarrow> nat \<Rightarrow> (errno + addr) \<times> 'w"
  os_mmap_noreplace :: "'w \<Rightarrow> addr \<Rightarrow> nat \<Rightarrow> (errno + addr) \<times> 'w"
  os_munmap :: "'w \<Rightarrow> addr \<Rightarrow> nat \<Rightarrow> errno option \<times> 'w"
  os_mprotect :: "'w \<Rightarrow> addr \<Rightarrow> nat \<Rightarrow> bool \<Rightarrow> errno option \<times> 'w"
  os_sbrk0 :: "'w \<Rightarrow> (errno + addr) \<times> 'w"
  os_open_urandom :: "'w \<Rightarrow> (errno + nat) \<times> 'w"
  os_read_u32 :: "'w \<Rightarrow> nat \<Rightarrow> (errno + 32 word) \<times> 'w"
  os_close :: "'w \<Rightarrow> nat \<Rightarrow> errno option \<times> 'w"
  os_getenv :: "'w \<Rightarrow> string \<Rightarrow> string option"

subsection \<open>Status codes\<close>

datatype platform_status_code_t =
    PLATFORM_STATUS_ERR_UNKNOWN
  | PLATFORM_STATUS_ERR_NOMEM
  | PLATFORM_STATUS_ERR_INVAL
  | PLATFORM_STATUS_OK
  | PLATFORM_STATUS_CEILING_HIT
  | PLATFORM_DIFFERENT_ADDRESS

fun get_error_from_errno :: "errno \<Rightarrow> platform_status_code_t" where
  "get_error_from_errno EINVAL = PLATFORM_STATUS_ERR_INVAL"
| "get_error_from_errno ENOMEM = PLATFORM_STATUS_ERR_NOMEM"
| "get_error_from_errno _ = PLATFORM_STATUS_ERR_UNKNOWN"

fun platform_strerror :: "platform_status_code_t \<Rightarrow> string" where
  "platform_strerror PLATFORM_STATUS_ERR_INVAL = ''Invalid arguments passed to function''"
| "platform_strerror PLATFORM_STATUS_ERR_NOMEM = ''No available memory or mapping cap reached''"
| "platform_strerror PLATFORM_STATUS_ERR_UNKNOWN = ''Unknown error''"
| "platform_strerror PLATFORM_STATUS_OK = ''No error''"
| "platform_strerror PLATFORM_STATUS_CEILING_HIT = ''Maximum address hit''"
| "platform_strerror PLATFORM_DIFFERENT_ADDRESS = ''kernel created mapping under different address than specified''"

subsection \<open>Wrappers\<close>

text \<open>An out-parameter is returned beside the status; \<open>None\<close> means it was not written.\<close>

definition platform_map ::
    "'w os \<Rightarrow> 'w \<Rightarrow> addr \<Rightarrow> nat \<Rightarrow> platform_status_code_t \<times> addr option \<times> 'w" where
  "platform_map os w hint len =
     (case os_mmap os w hint len of
        (Inl e, w) \<Rightarrow> (get_error_from_errno e, None, w)
      | (Inr p, w) \<Rightarrow> (PLATFORM_STATUS_OK, Some p, w))"

text \<open>The pointer \<open>(void *)-1\<close> that \<open>sbrk\<close> returns on an error is stored as well.\<close>

definition platform_get_program_break :: "'w os \<Rightarrow> 'w \<Rightarrow> platform_status_code_t \<times> addr \<times> 'w" where
  "platform_get_program_break os w =
     (case os_sbrk0 os w of
        (Inl e, w) \<Rightarrow> (get_error_from_errno e, 18446744073709551615, w)
      | (Inr p, w) \<Rightarrow> (PLATFORM_STATUS_OK, p, w))"

text \<open>
  The probing loop; the second component is the new value of \<open>*probe\<close>. A mapping at
  address 0 does not leave the loop.
\<close>

partial_function (option) map_probe_loop ::
    "'w os \<Rightarrow> addr \<Rightarrow> addr \<Rightarrow> nat \<Rightarrow> addr \<Rightarrow> 'w \<Rightarrow> (platform_status_code_t \<times> addr \<times> 'w) res" where
  "map_probe_loop os probe ceiling len new_probe w =
     (case os_mmap_noreplace os w new_probe len of
        (Inl e, w) \<Rightarrow>
          if e = EEXIST then
            (let new_probe = u64 (new_probe + PAGE_SIZE)
             in if ceiling \<le> new_probe then ret (PLATFORM_STATUS_CEILING_HIT, probe, w)
                else map_probe_loop os probe ceiling len new_probe w)
          else ret (get_error_from_errno e, probe, w)
      | (Inr mp, w) \<Rightarrow>
          if mp = 0 then map_probe_loop os probe ceiling len new_probe w
          else if mp \<noteq> new_probe then ret (PLATFORM_DIFFERENT_ADDRESS, mp, w)
          else ret (PLATFORM_STATUS_OK, mp, w))"

definition platform_map_probe ::
    "'w os \<Rightarrow> 'w \<Rightarrow> addr \<Rightarrow> addr \<Rightarrow> nat \<Rightarrow> (platform_status_code_t \<times> addr \<times> 'w) res" where
  "platform_map_probe os w probe ceiling len =
     (if ceiling \<le> probe then ret (PLATFORM_STATUS_CEILING_HIT, probe, w)
      else map_probe_loop os probe ceiling len probe w)"

definition platform_unmap :: "'w os \<Rightarrow> 'w \<Rightarrow> addr \<Rightarrow> nat \<Rightarrow> platform_status_code_t \<times> 'w" where
  "platform_unmap os w ptr len =
     (case os_munmap os w ptr len of
        (None, w) \<Rightarrow> (PLATFORM_STATUS_OK, w)
      | (Some e, w) \<Rightarrow> (get_error_from_errno e, w))"

definition platform_guard :: "'w os \<Rightarrow> 'w \<Rightarrow> addr \<Rightarrow> nat \<Rightarrow> platform_status_code_t \<times> 'w" where
  "platform_guard os w ptr len =
     (case os_mprotect os w ptr len False of
        (None, w) \<Rightarrow> (PLATFORM_STATUS_OK, w)
      | (Some e, w) \<Rightarrow> (get_error_from_errno e, w))"

definition platform_unguard :: "'w os \<Rightarrow> 'w \<Rightarrow> addr \<Rightarrow> nat \<Rightarrow> platform_status_code_t \<times> 'w" where
  "platform_unguard os w ptr len =
     (case os_mprotect os w ptr len True of
        (None, w) \<Rightarrow> (PLATFORM_STATUS_OK, w)
      | (Some e, w) \<Rightarrow> (get_error_from_errno e, w))"

text \<open>\<open>*buf\<close> is written as soon as \<open>read\<close> succeeds.\<close>

definition platform_get_random :: "'w os \<Rightarrow> 'w \<Rightarrow> platform_status_code_t \<times> 32 word option \<times> 'w" where
  "platform_get_random os w =
     (case os_open_urandom os w of
        (Inl e, w) \<Rightarrow> (get_error_from_errno e, None, w)
      | (Inr fd, w) \<Rightarrow>
          (case os_read_u32 os w fd of
             (Inl e, w) \<Rightarrow> (get_error_from_errno e, None, w)
           | (Inr v, w) \<Rightarrow>
               (case os_close os w fd of
                  (Some e, w) \<Rightarrow> (get_error_from_errno e, Some v, w)
                | (None, w) \<Rightarrow> (PLATFORM_STATUS_OK, Some v, w))))"

subsection \<open>Probing\<close>

text \<open>
  \<open>mmap\<close> with \<open>MAP_FIXED_NOREPLACE\<close> never maps at address 0 (\<open>mmap_min_addr\<close>).
\<close>

definition os_nonzero :: "'w os \<Rightarrow> bool" where
  "os_nonzero os \<longleftrightarrow> (\<forall>w p len. fst (os_mmap_noreplace os w p len) \<noteq> Inr 0)"

text \<open>
  The pages the probe passes: the kernel refuses each of \<open>k\<close> successive pages from \<open>p\<close> on because
  something is mapped there, which leads it from the state \<open>w\<close> to \<open>w'\<close>.
\<close>

fun refused :: "'w os \<Rightarrow> nat \<Rightarrow> addr \<Rightarrow> nat \<Rightarrow> 'w \<Rightarrow> 'w \<Rightarrow> bool" where
  "refused os len p 0 w w' \<longleftrightarrow> w' = w"
| "refused os len p (Suc k) w w' \<longleftrightarrow>
     (\<exists>w1. os_mmap_noreplace os w p len = (Inl EEXIST, w1) \<and> refused os len (p + 4096) k w1 w')"

text \<open>What the probe reports after the page that ended it.\<close>

definition probe_result :: "'w os \<Rightarrow> addr \<Rightarrow> addr \<Rightarrow> nat \<Rightarrow> addr \<Rightarrow> 'w \<Rightarrow> platform_status_code_t \<times> addr \<times> 'w" where
  "probe_result os probe ceiling len p w =
     (if ceiling \<le> p then (PLATFORM_STATUS_CEILING_HIT, probe, w)
      else case os_mmap_noreplace os w p len of
        (Inr q, w') \<Rightarrow> (if q = p then PLATFORM_STATUS_OK else PLATFORM_DIFFERENT_ADDRESS, q, w')
      | (Inl e, w') \<Rightarrow> (get_error_from_errno e, probe, w'))"

text \<open>The page that ends the probe is at the ceiling, or it is not refused with \<open>EEXIST\<close>.\<close>

definition probe_ends :: "'w os \<Rightarrow> addr \<Rightarrow> nat \<Rightarrow> addr \<Rightarrow> 'w \<Rightarrow> bool" where
  "probe_ends os ceiling len p w \<longleftrightarrow> ceiling \<le> p \<or> fst (os_mmap_noreplace os w p len) \<noteq> Inl EEXIST"

lemma map_probe_loop_total:
  assumes "os_nonzero os" "ceiling \<le> 2 ^ 63" "p < ceiling"
  shows "\<exists>k w'. refused os len p k w w' \<and> (\<forall>i < k. p + 4096 * i < ceiling) \<and> probe_ends os ceiling len (p + 4096 * k) w'
     \<and> map_probe_loop os probe ceiling len p w = ret (probe_result os probe ceiling len (p + 4096 * k) w')"
  using assms(3)
proof (induction "ceiling - p" arbitrary: p w rule: less_induct)
  case less
  obtain res w1 where m: "os_mmap_noreplace os w p len = (res, w1)" by (cases "os_mmap_noreplace os w p len")
  have next_eq: "u64 (p + PAGE_SIZE) = p + 4096"
    using less.prems assms(2) by (simp add: PAGE_SIZE_def wrap_simps)
  show ?case
  proof (cases "res = Inl EEXIST")
    case stop: False
    have "res \<noteq> Inr 0" using assms(1) m unfolding os_nonzero_def by (metis fst_conv)
    then have "map_probe_loop os probe ceiling len p w = ret (probe_result os probe ceiling len p w)"
      using stop m less.prems by (subst map_probe_loop.simps) (auto simp: probe_result_def split: sum.splits)
    then show ?thesis using stop m by (intro exI [of _ 0] exI [of _ w]) (simp add: probe_ends_def)
  next
    case taken: True
    show ?thesis
    proof (cases "p + 4096 < ceiling")
      case True
      then obtain k w' where r: "refused os len (p + 4096) k w1 w'" "\<forall>i < k. p + 4096 + 4096 * i < ceiling"
        "probe_ends os ceiling len (p + 4096 + 4096 * k) w'"
        "map_probe_loop os probe ceiling len (p + 4096) w1 = ret (probe_result os probe ceiling len (p + 4096 + 4096 * k) w')"
        using less.hyps [of "p + 4096" w1] by fastforce
      have "map_probe_loop os probe ceiling len p w = map_probe_loop os probe ceiling len (p + 4096) w1"
        using m taken True by (subst map_probe_loop.simps) (simp add: next_eq)
      moreover have "p + 4096 * i < ceiling" if "i < Suc k" for i using that r(2) less.prems by (cases i) auto
      ultimately show ?thesis using r m taken by (intro exI [of _ "Suc k"] exI [of _ w']) (simp add: add.assoc)
    next
      case False
      then have "map_probe_loop os probe ceiling len p w = ret (probe_result os probe ceiling len (p + 4096) w1)"
        using m taken by (subst map_probe_loop.simps) (simp add: next_eq probe_result_def)
      then show ?thesis using False m taken less.prems by (intro exI [of _ "Suc 0"] exI [of _ w1]) (simp add: probe_ends_def)
    qed
  qed
qed

lemma platform_map_probe_total:
  assumes "os_nonzero os" "ceiling \<le> 2 ^ 63"
  shows "\<exists>k w'. refused os len probe k w w' \<and> (\<forall>i < k. probe + 4096 * i < ceiling) \<and> probe_ends os ceiling len (probe + 4096 * k) w'
     \<and> platform_map_probe os w probe ceiling len = ret (probe_result os probe ceiling len (probe + 4096 * k) w')"
proof (cases "ceiling \<le> probe")
  case True
  then show ?thesis
    by (intro exI [of _ 0] exI [of _ w]) (simp add: platform_map_probe_def probe_ends_def probe_result_def)
next
  case False
  then show ?thesis using map_probe_loop_total [OF assms, of probe len w probe] by (simp add: platform_map_probe_def)
qed

subsection \<open>Properties\<close>

text \<open>C32: under a kernel that never maps address 0, probing terminates and reports the outcome
  at the first page that decides it. The probe asks for the pages from \<open>probe\<close> on, one after the
  other; \<open>k\<close> of them are below the ceiling and refused with \<open>EEXIST\<close>. The next one is at the ceiling
  or above, and the probe reports \<open>CEILING_HIT\<close>; or the kernel maps it, and the probe moves to the
  mapping and reports success, or another address when the kernel ignored the fixed one; or it is refused with
  another error, which is reported as \<open>get_error_from_errno\<close> translates it. On all failures \<open>*probe\<close> stays.\<close>

theorem platform_map_probe_correct:
  assumes "os_nonzero os" "ceiling \<le> 2 ^ 63"
  shows "\<exists>k w1. refused os len probe k w w1 \<and> (\<forall>i < k. probe + 4096 * i < ceiling)
     \<and> (if ceiling \<le> probe + 4096 * k then platform_map_probe os w probe ceiling len = ret (PLATFORM_STATUS_CEILING_HIT, probe, w1)
        else case os_mmap_noreplace os w1 (probe + 4096 * k) len of
          (Inr q, w') \<Rightarrow> platform_map_probe os w probe ceiling len
             = ret (if q = probe + 4096 * k then PLATFORM_STATUS_OK else PLATFORM_DIFFERENT_ADDRESS, q, w')
        | (Inl e, w') \<Rightarrow> e \<noteq> EEXIST \<and> platform_map_probe os w probe ceiling len
             = ret (if e = EINVAL then PLATFORM_STATUS_ERR_INVAL else if e = ENOMEM then PLATFORM_STATUS_ERR_NOMEM
                    else PLATFORM_STATUS_ERR_UNKNOWN, probe, w'))"
proof -
  obtain k w1 where r: "refused os len probe k w w1" "\<forall>i < k. probe + 4096 * i < ceiling" "probe_ends os ceiling len (probe + 4096 * k) w1"
    "platform_map_probe os w probe ceiling len = ret (probe_result os probe ceiling len (probe + 4096 * k) w1)"
    using platform_map_probe_total [OF assms, of len probe w] by blast
  have err: "get_error_from_errno e = (if e = EINVAL then PLATFORM_STATUS_ERR_INVAL else if e = ENOMEM then PLATFORM_STATUS_ERR_NOMEM
      else PLATFORM_STATUS_ERR_UNKNOWN)" for e by (cases e) simp_all
  show ?thesis
    by (intro exI [of _ k] exI [of _ w1] conjI r(1,2))
      (use r(3) in \<open>auto simp: r(4) probe_result_def probe_ends_def err split: prod.splits sum.splits\<close>)
qed

text \<open>A kernel for the witnesses: the state is the list of mapped pages, and a fixed mapping
  fails with \<open>EEXIST\<close> when its first page is taken.\<close>

definition ex_os :: "addr list os" where
  "ex_os = \<lparr>os_mmap = (\<lambda>w p len. (Inr p, p # w)),
     os_mmap_noreplace = (\<lambda>w p len. if p \<in> set w then (Inl EEXIST, w) else if p = 0 then (Inl EINVAL, w) else (Inr p, p # w)),
     os_munmap = (\<lambda>w p len. (None, filter (\<lambda>q. q \<noteq> p) w)), os_mprotect = (\<lambda>w p len b. (None, w)),
     os_sbrk0 = (\<lambda>w. (Inr 93824992231424, w)), os_open_urandom = (\<lambda>w. (Inr 3, w)),
     os_read_u32 = (\<lambda>w fd. (Inr 42, w)), os_close = (\<lambda>w fd. (None, w)), os_getenv = (\<lambda>w s. None)\<rparr>"

lemma ex_os_nonzero: "os_nonzero ex_os"
  by (simp add: os_nonzero_def ex_os_def)

theorem platform_map_probe_correct_witness:
  "platform_map_probe ex_os [4096] 4096 65536 4096 = ret (PLATFORM_STATUS_OK, 8192, [8192, 4096])"
proof -
  have step: "refused ex_os 4096 4096 k [4096] w1 \<longleftrightarrow> k = 0 \<and> w1 = [4096] \<or> k = 1 \<and> w1 = [4096]" for k w1
    by (cases k; cases "k - 1") (auto simp: ex_os_def)
  obtain k w1 where k: "k = 0 \<or> k = 1" "w1 = [4096]"
    "if 65536 \<le> 4096 + 4096 * k then platform_map_probe ex_os [4096] 4096 65536 4096 = ret (PLATFORM_STATUS_CEILING_HIT, 4096, w1)
     else case os_mmap_noreplace ex_os w1 (4096 + 4096 * k) 4096 of
       (Inr q, w') \<Rightarrow> platform_map_probe ex_os [4096] 4096 65536 4096
          = ret (if q = 4096 + 4096 * k then PLATFORM_STATUS_OK else PLATFORM_DIFFERENT_ADDRESS, q, w')
     | (Inl e, w') \<Rightarrow> e \<noteq> EEXIST \<and> platform_map_probe ex_os [4096] 4096 65536 4096
          = ret (if e = EINVAL then PLATFORM_STATUS_ERR_INVAL else if e = ENOMEM then PLATFORM_STATUS_ERR_NOMEM
                 else PLATFORM_STATUS_ERR_UNKNOWN, 4096, w')"
    using platform_map_probe_correct [OF ex_os_nonzero, of 65536 4096 4096 "[4096]"] unfolding step by auto
  from k(1) show ?thesis
  proof
    assume "k = 0"
    then show ?thesis using k(2,3) by (simp add: ex_os_def)
  next
    assume "k = 1"
    then show ?thesis using k(2,3) by (simp add: ex_os_def)
  qed
qed

end
