(* ===== verification/Chunk.thy ===== *)
theory Chunk
  imports Container_LL Platform Splitmix Tree_Index
begin

text \<open>
  \<open>src/src/chunk.c\<close>: a chunk is a 32 MiB mapping that is handed out in power-of-two blocks
  from 16 KiB up, as the heaps of runs. Two trees over its 2048 leaves describe it. The
  buddy tree has the two-bit state of each node. The jump tree links, level by level, the
  nodes that can still be allocated: a node stores the distance to the next and to the
  previous such node of its level, so that a random one is found by walking. An allocated
  block is never handed out a second time.

  Arrays are lists of the declared length; an access out of bounds is a fault.
\<close>

subsection \<open>Constants and state\<close>

definition CHUNK_SIZE_BYTES :: nat where "CHUNK_SIZE_BYTES = 33554432"
definition CHUNK_LEAST_REGION_SIZE_BYTES :: nat where "CHUNK_LEAST_REGION_SIZE_BYTES = PAGE_SIZE * 4"
definition CHUNK_NO_NODES_LAST_LAYER :: nat where
  "CHUNK_NO_NODES_LAST_LAYER = CHUNK_SIZE_BYTES div CHUNK_LEAST_REGION_SIZE_BYTES"
definition CHUNK_NO_NODES :: nat where
  "CHUNK_NO_NODES = CHUNK_NO_NODES_LAST_LAYER + (CHUNK_NO_NODES_LAST_LAYER - 1)"
definition CHUNK_BUDDY_TREE_DEPTH :: nat where "CHUNK_BUDDY_TREE_DEPTH = 11"
definition CHUNK_BUDDY_TREE_SIZE_BYTES :: nat where
  "CHUNK_BUDDY_TREE_SIZE_BYTES = (CHUNK_NO_NODES * 2 + 7) div 8"
definition REG_MARK_BAD_VALUE :: nat where "REG_MARK_BAD_VALUE = 65535"
definition RANDOM_LOOKUP_TRESHOLD_PERCENTAGE :: nat where "RANDOM_LOOKUP_TRESHOLD_PERCENTAGE = 25"
definition RANDOM_LOOKUP_TRIES :: nat where "RANDOM_LOOKUP_TRIES = 4"

lemma chunk_consts:
  "CHUNK_SIZE_BYTES = 33554432" "CHUNK_LEAST_REGION_SIZE_BYTES = 16384" "CHUNK_NO_NODES_LAST_LAYER = 2048"
  "CHUNK_NO_NODES = 4095" "CHUNK_BUDDY_TREE_DEPTH = 11" "CHUNK_BUDDY_TREE_SIZE_BYTES = 1024"
  by (simp_all add: CHUNK_SIZE_BYTES_def CHUNK_LEAST_REGION_SIZE_BYTES_def CHUNK_NO_NODES_LAST_LAYER_def
      CHUNK_NO_NODES_def CHUNK_BUDDY_TREE_DEPTH_def CHUNK_BUDDY_TREE_SIZE_BYTES_def PAGE_SIZE_def)

record jump_node_t =
  prev :: nat
  "next" :: nat

record chunk_t = ll_entry +
  avail_nodes_count :: "nat list"
  reg_size_small_medium :: "nat list"
  jump_tree_first_index :: "nat list"
  jump_tree :: "jump_node_t list"
  buddy_tree :: "8 word list"

datatype chunk_node_t = NODE_FREE | NODE_USED | NODE_DEPLETED | NODE_UNMAPPED
datatype search_state_t = DOWN | UP_LEFT | UP_RIGHT

record buddy_ctx_t =
  bc_idx :: nat
  bc_cur_size :: nat
  bc_depth_to_leaf :: nat
  bc_ptr :: addr
  bc_state :: search_state_t

fun chunk_node_val :: "chunk_node_t \<Rightarrow> 8 word" where
  "chunk_node_val NODE_FREE = 0"
| "chunk_node_val NODE_USED = 1"
| "chunk_node_val NODE_DEPLETED = 2"
| "chunk_node_val NODE_UNMAPPED = 3"

definition chunk_node_of :: "8 word \<Rightarrow> chunk_node_t" where
  "chunk_node_of v = (if v = 0 then NODE_FREE else if v = 1 then NODE_USED
     else if v = 2 then NODE_DEPLETED else NODE_UNMAPPED)"

subsection \<open>Arrays\<close>

definition arr_get :: "'a list \<Rightarrow> nat \<Rightarrow> 'a res" where
  "arr_get xs i = (if i < length xs then ret (xs ! i) else fail Segv)"

definition arr_set :: "'a list \<Rightarrow> nat \<Rightarrow> 'a \<Rightarrow> 'a list res" where
  "arr_set xs i v = (if i < length xs then ret (xs[i := v]) else fail Segv)"

text \<open>The jump tree is accessed at \<open>idx - 1\<close> with an \<open>unsigned\<close> index.\<close>

definition get_jt_item :: "jump_node_t list \<Rightarrow> nat \<Rightarrow> jump_node_t res" where
  "get_jt_item mem idx = arr_get mem (sub32 idx 1)"

definition set_jt_item_next :: "jump_node_t list \<Rightarrow> nat \<Rightarrow> nat \<Rightarrow> jump_node_t list res" where
  "set_jt_item_next mem idx val =
     bindR (arr_get mem (sub32 idx 1)) (\<lambda>n. arr_set mem (sub32 idx 1) (n\<lparr>next := u16 val\<rparr>))"

definition set_jt_item_prev :: "jump_node_t list \<Rightarrow> nat \<Rightarrow> nat \<Rightarrow> jump_node_t list res" where
  "set_jt_item_prev mem idx val =
     bindR (arr_get mem (sub32 idx 1)) (\<lambda>n. arr_set mem (sub32 idx 1) (n\<lparr>prev := u16 val\<rparr>))"

definition incr_jt_item_next :: "jump_node_t list \<Rightarrow> nat \<Rightarrow> nat \<Rightarrow> jump_node_t list res" where
  "incr_jt_item_next mem idx val =
     bindR (arr_get mem (sub32 idx 1)) (\<lambda>n. arr_set mem (sub32 idx 1) (n\<lparr>next := u16 (next n + u16 val)\<rparr>))"

definition incr_jt_item_prev :: "jump_node_t list \<Rightarrow> nat \<Rightarrow> nat \<Rightarrow> jump_node_t list res" where
  "incr_jt_item_prev mem idx val =
     bindR (arr_get mem (sub32 idx 1)) (\<lambda>n. arr_set mem (sub32 idx 1) (n\<lparr>prev := u16 (prev n + u16 val)\<rparr>))"

text \<open>\<open>memset(&jump_tree[start - 1], 0, n * sizeof(jump_node_t))\<close>\<close>

definition jt_clear :: "jump_node_t list \<Rightarrow> nat \<Rightarrow> nat \<Rightarrow> jump_node_t list res" where
  "jt_clear mem start n =
     (if 1 \<le> start \<and> start - 1 + n \<le> length mem
      then ret (take (start - 1) mem @ replicate n \<lparr>prev = 0, next = 0\<rparr> @ drop (start - 1 + n) mem)
      else fail Segv)"

definition buddy_valid :: "8 word list \<Rightarrow> nat \<Rightarrow> bool" where
  "buddy_valid mem idx \<longleftrightarrow> 1 \<le> idx \<and> (idx - 1) div 4 < length mem"

definition buddy_item :: "8 word list \<Rightarrow> nat \<Rightarrow> chunk_node_t" where
  "buddy_item mem idx = chunk_node_of (bits2_get mem (idx - 1))"

definition buddy_update :: "8 word list \<Rightarrow> nat \<Rightarrow> chunk_node_t \<Rightarrow> 8 word list" where
  "buddy_update mem idx s = bits2_set mem (idx - 1) (chunk_node_val s)"

definition get_buddy_tree_item :: "8 word list \<Rightarrow> nat \<Rightarrow> chunk_node_t res" where
  "get_buddy_tree_item mem idx = (if buddy_valid mem idx then ret (buddy_item mem idx) else fail Segv)"

definition set_buddy_tree_item :: "8 word list \<Rightarrow> nat \<Rightarrow> chunk_node_t \<Rightarrow> 8 word list res" where
  "set_buddy_tree_item mem idx s = (if buddy_valid mem idx then ret (buddy_update mem idx s) else fail Segv)"

lemma chunk_node_of_val [simp]: "chunk_node_of (chunk_node_val s) = s"
  by (cases s) (simp_all add: chunk_node_of_def)

lemma chunk_node_val_le: "chunk_node_val s \<le> 3"
  by (cases s) simp_all

interpretation buddy: packed_states buddy_item buddy_update buddy_valid
  by unfold_locales
    (auto simp: buddy_item_def buddy_update_def buddy_valid_def bits2_get_set_same bits2_get_set_other chunk_node_val_le)

subsection \<open>Initialisation\<close>

definition CHUNK_IS_LEAF :: "nat \<Rightarrow> bool" where
  "CHUNK_IS_LEAF idx \<longleftrightarrow> (CHUNK_NO_NODES + 1) div 2 \<le> idx"

definition get_leftmost_idx :: "nat \<Rightarrow> nat \<Rightarrow> nat" where
  "get_leftmost_idx idx depth = u32 (idx * 2 ^ depth)"

definition get_rightmost_idx :: "nat \<Rightarrow> nat \<Rightarrow> nat" where
  "get_rightmost_idx idx depth = sub32 (u32 (u32 (idx * 2 ^ depth) + 2 ^ depth)) 1"

text \<open>The second loop of \<open>chunk_init\<close>, for the levels \<open>i\<close> up to the depth; \<open>l\<close> is the first index of level \<open>i\<close>.\<close>

fun chunk_init_levels :: "nat \<Rightarrow> nat \<Rightarrow> nat \<Rightarrow> chunk_t \<Rightarrow> chunk_t res" where
  "chunk_init_levels 0 i l c = ret c"
| "chunk_init_levels (Suc n) i l c =
     bindR (arr_set (jump_tree_first_index c) i l) (\<lambda>first.
     bindR (set_jt_item_prev (jump_tree c) l 0) (\<lambda>jt.
     bindR (set_jt_item_next jt (sub32 (2 * l) 1) 0) (\<lambda>jt.
     bindR (arr_set (avail_nodes_count c) i l) (\<lambda>avail.
     chunk_init_levels n (i + 1) (u16 (l * 2))
       (c\<lparr>jump_tree_first_index := first, jump_tree := jt, avail_nodes_count := avail\<rparr>)))))"

definition chunk_init :: "chunk_t \<Rightarrow> addr \<Rightarrow> chunk_t res" where
  "chunk_init chunk heap =
     (let c = chunk\<lparr>key := heap, fd := 0, bk := 0,
                reg_size_small_medium := replicate CHUNK_NO_NODES_LAST_LAYER REG_MARK_BAD_VALUE\<rparr>
      in bindR (set_buddy_tree_item (buddy_tree c) 1 NODE_FREE) (\<lambda>_.
         let c = c\<lparr>buddy_tree := replicate CHUNK_BUDDY_TREE_SIZE_BYTES 0,
                jump_tree := replicate CHUNK_NO_NODES \<lparr>prev = 1, next = 1\<rparr>\<rparr>
         in bindR (chunk_init_levels (CHUNK_BUDDY_TREE_DEPTH + 1) 0 1 c) (\<lambda>c.
            bindR (arr_set (avail_nodes_count c) 0 0) (\<lambda>avail.
            bindR (arr_set (jump_tree_first_index c) 0 0) (\<lambda>first.
            ret (c\<lparr>avail_nodes_count := avail, jump_tree_first_index := first\<rparr>))))))"

subsection \<open>Walking the buddy tree\<close>

definition buddy_state_go_up :: "buddy_ctx_t \<Rightarrow> buddy_ctx_t" where
  "buddy_state_go_up ctx = ctx\<lparr>bc_state := (if odd (bc_idx ctx) then UP_RIGHT else UP_LEFT),
     bc_ptr := (if odd (bc_idx ctx) then sub64 (bc_ptr ctx) (bc_cur_size ctx) else bc_ptr ctx),
     bc_idx := bc_idx ctx div 2, bc_cur_size := u32 (bc_cur_size ctx * 2),
     bc_depth_to_leaf := u32 (bc_depth_to_leaf ctx + 1)\<rparr>"

definition buddy_state_go_right :: "buddy_ctx_t \<Rightarrow> buddy_ctx_t" where
  "buddy_state_go_right ctx = ctx\<lparr>bc_cur_size := bc_cur_size ctx div 2,
     bc_ptr := u64 (bc_ptr ctx + bc_cur_size ctx div 2), bc_state := DOWN,
     bc_idx := u32 (bc_idx ctx * 2 + 1), bc_depth_to_leaf := sub32 (bc_depth_to_leaf ctx) 1\<rparr>"

definition buddy_state_go_left :: "buddy_ctx_t \<Rightarrow> buddy_ctx_t" where
  "buddy_state_go_left ctx = ctx\<lparr>bc_idx := u32 (bc_idx ctx * 2), bc_cur_size := bc_cur_size ctx div 2,
     bc_depth_to_leaf := sub32 (bc_depth_to_leaf ctx) 1\<rparr>"

definition size2idx :: "nat \<Rightarrow> nat" where
  "size2idx run_size = ctz (run_size div CHUNK_LEAST_REGION_SIZE_BYTES)"

subsection \<open>Allocation\<close>

text \<open>Loop condition, loop body and loop of the update towards the root in \<open>chunk_allocate_with_node\<close>.\<close>

definition node_linked :: "chunk_t \<Rightarrow> jump_node_t \<Rightarrow> nat \<Rightarrow> nat \<Rightarrow> bool res" where
  "node_linked c node gidx lvl =
     (if next node \<noteq> 0 \<or> prev node \<noteq> 0 then ret True
      else bindR (arr_get (jump_tree_first_index c) lvl) (\<lambda>f. ret (f = gidx)))"

definition unlink_node :: "chunk_t \<Rightarrow> jump_node_t \<Rightarrow> nat \<Rightarrow> nat \<Rightarrow> chunk_t res" where
  "unlink_node c node gidx lvl =
     bindR (if next node = 0 then
              bindR (set_jt_item_next (jump_tree c) (sub32 gidx (prev node)) 0) (\<lambda>jt. ret (c\<lparr>jump_tree := jt\<rparr>))
            else if prev node = 0 then
              bindR (arr_set (jump_tree_first_index c) lvl (u32 (gidx + next node))) (\<lambda>first.
              bindR (set_jt_item_prev (jump_tree c) (u32 (gidx + next node)) 0) (\<lambda>jt.
              ret (c\<lparr>jump_tree_first_index := first, jump_tree := jt\<rparr>)))
            else
              bindR (incr_jt_item_next (jump_tree c) (sub32 gidx (prev node)) (next node)) (\<lambda>jt.
              bindR (incr_jt_item_prev jt (u32 (gidx + next node)) (prev node)) (\<lambda>jt.
              ret (c\<lparr>jump_tree := jt\<rparr>)))) (\<lambda>c.
     bindR (set_jt_item_next (jump_tree c) gidx 0) (\<lambda>jt.
     bindR (set_jt_item_prev jt gidx 0) (\<lambda>jt.
     bindR (arr_get (avail_nodes_count c) lvl) (\<lambda>a.
     bindR (arr_set (avail_nodes_count c) lvl (sub16 a 1)) (\<lambda>avail.
     bindR (if sub16 a 1 = 0 then arr_set (jump_tree_first_index c) lvl 0 else ret (jump_tree_first_index c)) (\<lambda>first.
     ret (c\<lparr>jump_tree := jt, avail_nodes_count := avail, jump_tree_first_index := first\<rparr>)))))))"

partial_function (option) unlink_up :: "chunk_t \<Rightarrow> jump_node_t \<Rightarrow> nat \<Rightarrow> nat \<Rightarrow> chunk_t res" where
  "unlink_up c node gidx lvl =
     bindR (node_linked c node gidx lvl) (\<lambda>b.
       if b then
         bindR (unlink_node c node gidx lvl) (\<lambda>c.
         bindR (get_jt_item (jump_tree c) (gidx div 2)) (\<lambda>node.
         unlink_up c node (gidx div 2) (sub32 lvl 1)))
       else ret c)"

text \<open>One level, and all levels, of the update towards the leaves; then the purge.\<close>

definition unlink_span :: "chunk_t \<Rightarrow> nat \<Rightarrow> nat \<Rightarrow> nat \<Rightarrow> nat \<Rightarrow> chunk_t res" where
  "unlink_span c left right span lvl =
     bindR (get_jt_item (jump_tree c) left) (\<lambda>nl.
     bindR (get_jt_item (jump_tree c) right) (\<lambda>nr.
     bindR (if prev nl = 0 \<and> next nr = 0 then
              bindR (arr_set (jump_tree_first_index c) lvl 0) (\<lambda>first. ret (c\<lparr>jump_tree_first_index := first\<rparr>))
            else if prev nl = 0 then
              bindR (arr_set (jump_tree_first_index c) lvl (u32 (right + next nr))) (\<lambda>first.
              bindR (set_jt_item_prev (jump_tree c) (u32 (right + next nr)) 0) (\<lambda>jt.
              ret (c\<lparr>jump_tree_first_index := first, jump_tree := jt\<rparr>)))
            else if next nr = 0 then
              bindR (set_jt_item_next (jump_tree c) (sub32 left (prev nl)) 0) (\<lambda>jt. ret (c\<lparr>jump_tree := jt\<rparr>))
            else
              bindR (incr_jt_item_next (jump_tree c) (sub32 left (prev nl)) (u32 (sub32 span 1 + next nr))) (\<lambda>jt.
              bindR (incr_jt_item_prev jt (u32 (right + next nr)) (u32 (sub32 span 1 + prev nl))) (\<lambda>jt.
              ret (c\<lparr>jump_tree := jt\<rparr>)))) (\<lambda>c.
     bindR (arr_get (avail_nodes_count c) lvl) (\<lambda>a.
     bindR (arr_set (avail_nodes_count c) lvl (sub16 a span)) (\<lambda>avail.
     ret (c\<lparr>avail_nodes_count := avail\<rparr>))))))"

function unlink_down :: "chunk_t \<Rightarrow> nat \<Rightarrow> nat \<Rightarrow> nat \<Rightarrow> nat \<Rightarrow> chunk_t res" where
  "unlink_down c left right span lvl =
     (if CHUNK_BUDDY_TREE_DEPTH < lvl then ret c
      else bindR (unlink_span c left right span lvl) (\<lambda>c.
        unlink_down c (u32 (left * 2)) (u32 (right * 2 + 1)) (u32 (span * 2)) (lvl + 1)))"
  by pat_completeness auto
termination by (relation "measure (\<lambda>(c, left, right, span, lvl). Suc CHUNK_BUDDY_TREE_DEPTH - lvl)") auto

function purge_down :: "jump_node_t list \<Rightarrow> nat \<Rightarrow> nat \<Rightarrow> nat \<Rightarrow> jump_node_t list res" where
  "purge_down mem start span lvl =
     (if CHUNK_BUDDY_TREE_DEPTH < lvl then ret mem
      else bindR (jt_clear mem start span) (\<lambda>mem. purge_down mem (u32 (start * 2)) (u32 (span * 2)) (lvl + 1)))"
  by pat_completeness auto
termination by (relation "measure (\<lambda>(mem, start, span, lvl). Suc CHUNK_BUDDY_TREE_DEPTH - lvl)") auto

declare unlink_down.simps [simp del] purge_down.simps [simp del]

definition chunk_allocate_with_node ::
    "chunk_t \<Rightarrow> jump_node_t \<Rightarrow> nat \<Rightarrow> nat \<Rightarrow> nat \<Rightarrow> (addr \<times> chunk_t) res" where
  "chunk_allocate_with_node chunk node idx level reg_size =
     bindR (unlink_up chunk node idx level) (\<lambda>c.
       if CHUNK_IS_LEAF idx then
         bindR (if reg_size \<noteq> CHUNK_LEAST_REGION_SIZE_BYTES
                then arr_set (reg_size_small_medium c) (sub32 idx (2 ^ level)) (u16 reg_size)
                else ret (reg_size_small_medium c)) (\<lambda>rs.
         bindR (set_buddy_tree_item (buddy_tree c) idx NODE_USED) (\<lambda>bt.
         ret (u64 (key c + u32 (sub32 idx (2 ^ level) * CHUNK_LEAST_REGION_SIZE_BYTES)),
              c\<lparr>reg_size_small_medium := rs, buddy_tree := bt\<rparr>)))
       else
         bindR (unlink_down c (u32 (idx * 2)) (u32 (idx * 2 + 1)) 2 (level + 1)) (\<lambda>c.
         bindR (purge_down (jump_tree c) (u32 (idx * 2)) 2 (level + 1)) (\<lambda>jt.
         bindR (set_buddy_tree_item (buddy_tree c) idx NODE_USED) (\<lambda>bt.
         let offset = sub32 (get_leftmost_idx idx (CHUNK_BUDDY_TREE_DEPTH - level)) ((CHUNK_NO_NODES + 1) div 2)
         in ret (u64 (key c + u32 (offset * CHUNK_LEAST_REGION_SIZE_BYTES)),
                 c\<lparr>jump_tree := jt, buddy_tree := bt\<rparr>)))))"

text \<open>
  The random tries and the walk of \<open>chunk_allocate_run\<close>. A try that hits a free node gives
  its index and value.
\<close>

fun random_tries :: "nat \<Rightarrow> chunk_t \<Rightarrow> nat \<Rightarrow> rng \<Rightarrow> ((nat \<times> jump_node_t) option \<times> rng) res" where
  "random_tries 0 c all_nodes g = ret (None, g)"
| "random_tries (Suc n) c all_nodes g =
     (let (r, g) = splitmix32 g; rand_idx = unat r mod all_nodes
      in bindR (get_jt_item (jump_tree c) (all_nodes + rand_idx)) (\<lambda>node.
           if prev node \<noteq> 0 \<or> next node \<noteq> 0 then ret (Some (all_nodes + rand_idx, node), g)
           else random_tries n c all_nodes g))"

fun walk_free :: "chunk_t \<Rightarrow> nat \<Rightarrow> nat \<Rightarrow> jump_node_t \<Rightarrow> (nat \<times> jump_node_t) res" where
  "walk_free c 0 current_idx node = ret (current_idx, node)"
| "walk_free c (Suc rand_idx) current_idx node =
     bindR (get_jt_item (jump_tree c) (u32 (current_idx + next node))) (\<lambda>node'.
       walk_free c rand_idx (u32 (current_idx + next node)) node')"

definition pick_node :: "chunk_t \<Rightarrow> nat \<Rightarrow> nat \<Rightarrow> rng \<Rightarrow> ((nat \<times> jump_node_t) \<times> rng) res" where
  "pick_node c level avail_nodes g =
     (let all_nodes = 2 ^ level in
      bindR (if RANDOM_LOOKUP_TRESHOLD_PERCENTAGE < avail_nodes * 100 div all_nodes
             then random_tries RANDOM_LOOKUP_TRIES c all_nodes g else ret (None, g)) (\<lambda>(hit, g).
        case hit of
          Some n \<Rightarrow> ret (n, g)
        | None \<Rightarrow>
            let (r, g) = splitmix32 g in
            bindR (arr_get (jump_tree_first_index c) level) (\<lambda>first.
            bindR (get_jt_item (jump_tree c) first) (\<lambda>node.
            bindR (walk_free c (unat r mod avail_nodes) first node) (\<lambda>n. ret (n, g))))))"

definition chunk_allocate_run :: "chunk_t \<Rightarrow> nat \<Rightarrow> nat \<Rightarrow> rng \<Rightarrow> (addr \<times> chunk_t \<times> rng) res" where
  "chunk_allocate_run chunk run_size reg_size g =
     (let level = sub32 CHUNK_BUDDY_TREE_DEPTH (size2idx run_size) in
      bindR (arr_get (avail_nodes_count chunk) level) (\<lambda>avail_nodes.
        if avail_nodes = 0 then ret (0, chunk, g)
        else bindR (pick_node chunk level avail_nodes g) (\<lambda>((idx, node), g).
             bindR (chunk_allocate_with_node chunk node idx level reg_size) (\<lambda>(p, c). ret (p, c, g)))))"

subsection \<open>Deallocation and lookup\<close>

definition buddy_sibling :: "nat \<Rightarrow> nat" where
  "buddy_sibling idx = (if odd idx then idx - 1 else idx + 1)"

function coalesce_unmapped_nodes :: "buddy_ctx_t \<Rightarrow> chunk_t \<Rightarrow> (buddy_ctx_t \<times> chunk_t) res" where
  "coalesce_unmapped_nodes ctx chunk =
     (if bc_idx ctx \<le> 1 then ret (ctx, chunk)
      else bindR (get_buddy_tree_item (buddy_tree chunk) (buddy_sibling (bc_idx ctx))) (\<lambda>node.
        if node = NODE_UNMAPPED then
          bindR (set_buddy_tree_item (buddy_tree chunk) (bc_idx ctx div 2) NODE_UNMAPPED) (\<lambda>bt.
          coalesce_unmapped_nodes (buddy_state_go_up ctx) (chunk\<lparr>buddy_tree := bt\<rparr>))
        else ret (ctx, chunk)))"
  by pat_completeness auto
termination by (relation "measure (\<lambda>(ctx, chunk). bc_idx ctx)") (auto simp: buddy_state_go_up_def)

text \<open>The first loop of \<open>coalesce_depleted_nodes\<close>.\<close>

function merge_depleted :: "buddy_ctx_t \<Rightarrow> chunk_t \<Rightarrow> (buddy_ctx_t \<times> chunk_t) res" where
  "merge_depleted ctx chunk =
     (if bc_idx ctx \<le> 1 then ret (ctx, chunk)
      else bindR (get_buddy_tree_item (buddy_tree chunk) (buddy_sibling (bc_idx ctx))) (\<lambda>node.
        if node = NODE_DEPLETED then
          bindR (set_buddy_tree_item (buddy_tree chunk) (bc_idx ctx div 2) NODE_DEPLETED) (\<lambda>bt.
          merge_depleted (buddy_state_go_up ctx) (chunk\<lparr>buddy_tree := bt\<rparr>))
        else ret (ctx, chunk)))"
  by pat_completeness auto
termination by (relation "measure (\<lambda>(ctx, chunk). bc_idx ctx)") (auto simp: buddy_state_go_up_def)

declare coalesce_unmapped_nodes.simps [simp del] merge_depleted.simps [simp del]

definition coalesce_depleted_nodes ::
    "'w os \<Rightarrow> 'w \<Rightarrow> buddy_ctx_t \<Rightarrow> chunk_t \<Rightarrow> (buddy_ctx_t \<times> chunk_t \<times> 'w) res" where
  "coalesce_depleted_nodes os w ctx chunk =
     bindR (merge_depleted ctx chunk) (\<lambda>(ctx, chunk).
       let (code, w) = platform_unmap os w (bc_ptr ctx) (bc_cur_size ctx)
       in if code \<noteq> PLATFORM_STATUS_OK then fail Exit
          else bindR (set_buddy_tree_item (buddy_tree chunk) (bc_idx ctx) NODE_UNMAPPED) (\<lambda>bt.
               bindR (coalesce_unmapped_nodes ctx (chunk\<lparr>buddy_tree := bt\<rparr>)) (\<lambda>(ctx, chunk).
               ret (ctx, chunk, w))))"

text \<open>The search for the used node that starts at a leaf: the node and its height.\<close>

fun find_used :: "8 word list \<Rightarrow> nat \<Rightarrow> nat \<Rightarrow> (nat \<times> nat) res" where
  "find_used bt idx depth =
     bindR (get_buddy_tree_item bt idx) (\<lambda>node.
       if node = NODE_USED then ret (idx, depth)
       else if idx = 1 \<or> odd idx then fail Exit
       else if node = NODE_DEPLETED \<or> node = NODE_UNMAPPED then fail Exit
       else if idx = 0 then fail Segv
       else find_used bt (idx div 2) (depth + 1))"

declare find_used.simps [simp del]

definition chunk_deallocate_run :: "'w os \<Rightarrow> 'w \<Rightarrow> chunk_t \<Rightarrow> addr \<Rightarrow> (bool \<times> chunk_t \<times> 'w) res" where
  "chunk_deallocate_run os w chunk run_ptr =
     (let first_leaf_idx = (CHUNK_NO_NODES + 1) div 2;
          ptr_offset = u32 (sub64 run_ptr (key chunk) div CHUNK_LEAST_REGION_SIZE_BYTES)
      in bindR (find_used (buddy_tree chunk) (u32 (first_leaf_idx + ptr_offset)) 0) (\<lambda>(idx, depth_to_leaf).
         bindR (set_buddy_tree_item (buddy_tree chunk) idx NODE_DEPLETED) (\<lambda>bt.
         bindR (coalesce_depleted_nodes os w
                  \<lparr>bc_idx = idx, bc_cur_size = u32 (CHUNK_LEAST_REGION_SIZE_BYTES * 2 ^ depth_to_leaf),
                   bc_depth_to_leaf = depth_to_leaf, bc_ptr = run_ptr, bc_state = DOWN\<rparr>
                  (chunk\<lparr>buddy_tree := bt\<rparr>)) (\<lambda>(ctx, chunk, w).
         ret (bc_idx ctx = 1, chunk, w)))))"

text \<open>
  The out-parameters \<open>run_ptr\<close>, \<open>run_size\<close>, \<open>reg_size\<close> start as NULL, 0, 0 and are the result.
  The loop gives the used node's size, or nothing.
\<close>

fun used_size :: "8 word list \<Rightarrow> nat \<Rightarrow> nat \<Rightarrow> nat option res" where
  "used_size bt idx cur_size =
     bindR (get_buddy_tree_item bt idx) (\<lambda>node.
       if node = NODE_USED then ret (Some cur_size)
       else if idx = 1 \<or> odd idx then ret None
       else if node = NODE_DEPLETED \<or> node = NODE_UNMAPPED then ret None
       else if idx = 0 then fail Segv
       else used_size bt (idx div 2) (u32 (cur_size * 2)))"

declare used_size.simps [simp del]

definition chunk_get_run_ptr :: "chunk_t \<Rightarrow> addr \<Rightarrow> (addr \<times> nat \<times> nat) res" where
  "chunk_get_run_ptr chunk ptr =
     (let chunk_ptr = key chunk
      in if ptr < chunk_ptr \<or> u64 (chunk_ptr + CHUNK_SIZE_BYTES) \<le> ptr then ret (0, 0, 0)
         else
           let rel_ptr = sub64 ptr chunk_ptr;
               block_offset = rel_ptr div CHUNK_LEAST_REGION_SIZE_BYTES;
               first_leaf_idx = (CHUNK_NO_NODES + 1) div 2;
               target_run_ptr = u64 (chunk_ptr + block_offset * CHUNK_LEAST_REGION_SIZE_BYTES);
               idx = u32 (first_leaf_idx + block_offset)
           in bindR (get_buddy_tree_item (buddy_tree chunk) idx) (\<lambda>node.
                if node \<noteq> NODE_USED then
                  bindR (used_size (buddy_tree chunk) idx CHUNK_LEAST_REGION_SIZE_BYTES) (\<lambda>r.
                    case r of None \<Rightarrow> ret (0, 0, 0) | Some n \<Rightarrow> ret (target_run_ptr, n, 0))
                else
                  bindR (arr_get (reg_size_small_medium chunk) block_offset) (\<lambda>rs.
                    ret (target_run_ptr, CHUNK_LEAST_REGION_SIZE_BYTES,
                         if rs \<noteq> REG_MARK_BAD_VALUE then rs else 0))))"

definition chunk_is_unmapped :: "chunk_t \<Rightarrow> bool res" where
  "chunk_is_unmapped chunk =
     bindR (get_buddy_tree_item (buddy_tree chunk) 1) (\<lambda>node. ret (node = NODE_UNMAPPED))"

definition chunk_is_full :: "chunk_t \<Rightarrow> bool res" where
  "chunk_is_full chunk = bindR (arr_get (avail_nodes_count chunk) CHUNK_BUDDY_TREE_DEPTH) (\<lambda>a. ret (a = 0))"

subsection \<open>Free lists of a level\<close>

text \<open>
  The free nodes of a level in ascending order, each with the distances to its neighbours;
  \<open>p\<close> and \<open>q\<close> are the free nodes before and after the segment, 0 for none.
\<close>

fun gseg :: "(nat \<Rightarrow> jump_node_t) \<Rightarrow> nat \<Rightarrow> nat list \<Rightarrow> nat \<Rightarrow> bool" where
  "gseg f p [] q = True"
| "gseg f p (x # xs) q \<longleftrightarrow> prev (f x) = (if p = 0 then 0 else x - p)
     \<and> next (f x) = (let y = (if xs = [] then q else hd xs) in if y = 0 then 0 else y - x) \<and> gseg f x xs q"

definition lvl_rep :: "(nat \<Rightarrow> jump_node_t) \<Rightarrow> nat set \<Rightarrow> nat \<Rightarrow> nat \<Rightarrow> bool" where
  "lvl_rep f F first avail \<longleftrightarrow> (\<exists>xs. sorted_wrt (<) xs \<and> set xs = F \<and> 0 \<notin> F \<and> gseg f 0 xs 0
     \<and> first = (if xs = [] then 0 else hd xs) \<and> avail = length xs)"

lemma gseg_append:
  "gseg f p (xs @ ys) q \<longleftrightarrow> gseg f p xs (if ys = [] then q else hd ys) \<and> gseg f (if xs = [] then p else last xs) ys q"
  by (induction xs arbitrary: p) (auto simp: Let_def)

lemma gseg_cong: "(\<And>x. x \<in> set xs \<Longrightarrow> f' x = f x) \<Longrightarrow> gseg f' p xs q = gseg f p xs q"
  by (induction xs arbitrary: p) simp_all

lemma gseg_last:
  "gseg f p xs q \<Longrightarrow> xs \<noteq> [] \<Longrightarrow> next (f (last xs)) = (if q = 0 then 0 else q - last xs)"
  by (induction xs arbitrary: p) (auto simp: Let_def split: if_splits)

lemma gseg_hd: "gseg f p xs q \<Longrightarrow> xs \<noteq> [] \<Longrightarrow> prev (f (hd xs)) = (if p = 0 then 0 else hd xs - p)"
  by (cases xs) simp_all

lemma gseg_set_last:
  assumes "gseg f p xs q" "distinct xs" "\<And>x. x \<in> set xs \<Longrightarrow> x \<noteq> last xs \<Longrightarrow> f' x = f x"
    "xs \<noteq> [] \<Longrightarrow> prev (f' (last xs)) = prev (f (last xs))"
    "xs \<noteq> [] \<Longrightarrow> next (f' (last xs)) = (if q' = 0 then 0 else q' - last xs)"
  shows "gseg f' p xs q'"
  using assms
proof (induction xs arbitrary: p)
  case (Cons x xs)
  show ?case
  proof (cases "xs = []")
    case False
    then have ne: "last xs \<noteq> x" using Cons.prems(2) last_in_set by fastforce
    have "gseg f' x xs q'"
      by (rule Cons.IH) (use Cons.prems False ne in auto)
    then show ?thesis using Cons.prems False ne by simp
  qed (use Cons.prems in \<open>simp add: Let_def\<close>)
qed simp

lemma gseg_set_hd:
  assumes "gseg f p xs q" "distinct xs" "\<And>x. x \<in> set xs \<Longrightarrow> x \<noteq> hd xs \<Longrightarrow> f' x = f x"
    "xs \<noteq> [] \<Longrightarrow> next (f' (hd xs)) = next (f (hd xs))"
    "xs \<noteq> [] \<Longrightarrow> prev (f' (hd xs)) = (if p' = 0 then 0 else hd xs - p')"
  shows "gseg f' p' xs q"
proof (cases xs)
  case (Cons x ys)
  have "gseg f' x ys q = gseg f x ys q"
    by (rule gseg_cong) (use assms(2,3) Cons in auto)
  then show ?thesis using assms Cons by simp
qed simp

lemma sorted_split:
  assumes "sorted_wrt (<) xs" "{l..r} \<subseteq> set xs" "(l :: nat) \<le> r"
  shows "\<exists>as bs. xs = as @ [l..<Suc r] @ bs \<and> (\<forall>x \<in> set as. x < l) \<and> (\<forall>x \<in> set bs. r < x)
     \<and> set as = {x \<in> set xs. x < l} \<and> set bs = {x \<in> set xs. r < x}"
proof -
  let ?as = "filter (\<lambda>x. x < l) xs" and ?bs = "filter (\<lambda>x. r < x) xs"
  have sorted: "sorted_wrt (<) (?as @ [l..<Suc r] @ ?bs)"
    using assms(1,3) by (auto simp: sorted_wrt_append sorted_wrt_filter)
  have "set (?as @ [l..<Suc r] @ ?bs) = set xs" using assms(2,3) by auto
  then have "xs = ?as @ [l..<Suc r] @ ?bs"
    using strict_sorted_equal [OF assms(1) sorted] by simp
  then show ?thesis by (intro exI [of _ ?as] exI [of _ ?bs]) auto
qed

text \<open>
  Taking a block of free nodes out of a level: the distance of the free node before it and
  that of the free node after it are corrected, whichever of them exist.
\<close>

lemma lvl_rep_remove:
  assumes rep: "lvl_rep f F first avail" and blk: "{l..r} \<subseteq> F" "l \<le> r"
  obtains a b where
    "prev (f l) = 0 \<longleftrightarrow> a = 0" "a \<noteq> 0 \<Longrightarrow> a \<in> F \<and> a < l \<and> a = l - prev (f l) \<and> next (f a) = l - a"
    "next (f r) = 0 \<longleftrightarrow> b = 0" "b \<noteq> 0 \<Longrightarrow> b \<in> F \<and> r < b \<and> b = r + next (f r) \<and> prev (f b) = b - r"
    "Suc r - l \<le> avail" "avail = Suc r - l \<longleftrightarrow> a = 0 \<and> b = 0" "F - {l..r} = {} \<longleftrightarrow> a = 0 \<and> b = 0"
    "\<And>f'. (\<And>x. x \<in> F - {l..r} \<Longrightarrow> x \<noteq> a \<Longrightarrow> x \<noteq> b \<Longrightarrow> f' x = f x) \<Longrightarrow>
       (a \<noteq> 0 \<Longrightarrow> prev (f' a) = prev (f a) \<and> next (f' a) = (if b = 0 then 0 else b - a)) \<Longrightarrow>
       (b \<noteq> 0 \<Longrightarrow> next (f' b) = next (f b) \<and> prev (f' b) = (if a = 0 then 0 else b - a)) \<Longrightarrow>
       lvl_rep f' (F - {l..r}) (if a \<noteq> 0 then first else b) (avail - (Suc r - l))"
proof -
  obtain xs where xs: "sorted_wrt (<) xs" "set xs = F" "0 \<notin> F" "gseg f 0 xs 0"
    "first = (if xs = [] then 0 else hd xs)" "avail = length xs" using rep by (auto simp: lvl_rep_def)
  obtain as bs where sp: "xs = as @ [l..<Suc r] @ bs" "\<forall>x \<in> set as. x < l" "\<forall>x \<in> set bs. r < x"
    using sorted_split [OF xs(1) _ blk(2)] blk(1) xs(2) by metis
  define a where "a = (if as = [] then 0 else last as)"
  define b where "b = (if bs = [] then 0 else hd bs)"
  have pos: "x \<noteq> 0" if "x \<in> set xs" for x using that xs(2,3) by metis
  have a: "a = 0 \<longleftrightarrow> as = []" "as \<noteq> [] \<Longrightarrow> a \<in> set as" using pos [of a] sp(1) by (auto simp: a_def)
  have b: "b = 0 \<longleftrightarrow> bs = []" "bs \<noteq> [] \<Longrightarrow> b \<in> set bs" using pos [of b] sp(1) by (auto simp: b_def)
  have blk_ne: "[l..<Suc r] \<noteq> []" "hd [l..<Suc r] = l" "last [l..<Suc r] = r"
    using blk(2) by (simp, simp add: upt_conv_Cons del: upt_Suc, simp)
  have g: "gseg f 0 as l" "gseg f a [l..<Suc r] b" "gseg f r bs 0"
    using xs(4) blk_ne unfolding sp(1) gseg_append by (auto simp: a_def b_def)
  have pl: "prev (f l) = (if a = 0 then 0 else l - a)" using gseg_hd [OF g(2) blk_ne(1)] blk_ne(2) by simp
  have nr: "next (f r) = (if b = 0 then 0 else b - r)" using gseg_last [OF g(2) blk_ne(1)] blk_ne(3) by simp
  have "l \<in> F" using blk by auto
  then have l0: "l \<noteq> 0" using xs(3) by metis
  have na: "next (f a) = l - a" if "a \<noteq> 0" using gseg_last [OF g(1)] that a l0 by (auto simp: a_def split: if_splits)
  have pb: "prev (f b) = b - r" if "b \<noteq> 0"
    using gseg_hd [OF g(3)] that b blk(2) l0 by (auto simp: b_def split: if_splits)
  have "distinct xs" using xs(1) by (simp add: strict_sorted_iff)
  then have dist: "distinct as" "distinct bs" "set as \<inter> set bs = {}" unfolding sp(1) by auto
  have rest: "F - {l..r} = set (as @ bs)" using xs(2) sp by auto
  have al: "a < l" if "a \<noteq> 0" using that a sp(2) by blast
  have rb: "r < b" if "b \<noteq> 0" using that b sp(3) by blast
  show thesis
  proof (rule that)
    show "prev (f l) = 0 \<longleftrightarrow> a = 0" "next (f r) = 0 \<longleftrightarrow> b = 0" using pl nr al rb by auto
    show "a \<in> F \<and> a < l \<and> a = l - prev (f l) \<and> next (f a) = l - a" if "a \<noteq> 0"
      using that a sp(1) xs(2) pl na al by auto
    show "b \<in> F \<and> r < b \<and> b = r + next (f r) \<and> prev (f b) = b - r" if "b \<noteq> 0"
      using that b sp(1) xs(2) nr pb rb by auto
    show "Suc r - l \<le> avail" "avail = Suc r - l \<longleftrightarrow> a = 0 \<and> b = 0" "F - {l..r} = {} \<longleftrightarrow> a = 0 \<and> b = 0"
    proof -
      have len: "avail = length as + (Suc r - l) + length bs"
        unfolding xs(6) sp(1) length_append length_upt by simp
      define n where "n = Suc r - l"
      show "Suc r - l \<le> avail" "avail = Suc r - l \<longleftrightarrow> a = 0 \<and> b = 0" "F - {l..r} = {} \<longleftrightarrow> a = 0 \<and> b = 0"
        using len a(1) b(1) rest unfolding n_def [symmetric] by auto
    qed
    show "lvl_rep f' (F - {l..r}) (if a \<noteq> 0 then first else b) (avail - (Suc r - l))"
      if same: "\<And>x. x \<in> F - {l..r} \<Longrightarrow> x \<noteq> a \<Longrightarrow> x \<noteq> b \<Longrightarrow> f' x = f x"
        and fa: "a \<noteq> 0 \<Longrightarrow> prev (f' a) = prev (f a) \<and> next (f' a) = (if b = 0 then 0 else b - a)"
        and fb: "b \<noteq> 0 \<Longrightarrow> next (f' b) = next (f b) \<and> prev (f' b) = (if a = 0 then 0 else b - a)" for f'
    proof -
      have nz: "x \<noteq> 0" if "x \<in> set as \<union> set bs" for x using pos [of x] that sp(1) by auto
      have same_as: "f' x = f x" if "x \<in> set as" "x \<noteq> a" for x
      proof (rule same)
        show "x \<noteq> b" using that(1) nz [of x] b dist(3) by (cases "bs = []") auto
      qed (use that rest in auto)
      have same_bs: "f' x = f x" if "x \<in> set bs" "x \<noteq> b" for x
      proof (rule same)
        show "x \<noteq> a" using that(1) nz [of x] a dist(3) by (cases "as = []") auto
      qed (use that rest in auto)
      have as': "gseg f' 0 as b"
        by (rule gseg_set_last [OF g(1) dist(1)]) (use same_as fa a in \<open>auto simp: a_def\<close>)
      have bs': "gseg f' a bs 0"
        by (rule gseg_set_hd [OF g(3) dist(2)]) (use same_bs fb b in \<open>auto simp: b_def\<close>)
      have "sorted_wrt (<) (as @ bs)" using xs(1) unfolding sp(1) by (simp add: sorted_wrt_append)
      moreover have "gseg f' 0 (as @ bs) 0"
        using as' bs' unfolding gseg_append a_def b_def by (simp split: if_splits)
      moreover have "(if a \<noteq> 0 then first else b) = (if as @ bs = [] then 0 else hd (as @ bs))"
        using xs(5) sp(1) a(1) b_def by auto
      moreover have "avail - (Suc r - l) = length (as @ bs)"
        unfolding xs(6) sp(1) length_append length_upt by simp
      ultimately show ?thesis
        unfolding lvl_rep_def using rest xs(3) by (intro exI [of _ "as @ bs"]) auto
    qed
  qed
qed

subsection \<open>The jump tree of a chunk\<close>

definition lev :: "nat \<Rightarrow> nat set" where
  "lev L = {2 ^ L ..< 2 ^ Suc L}"

definition jview :: "jump_node_t list \<Rightarrow> nat \<Rightarrow> jump_node_t" where
  "jview jt k = jt ! (k - 1)"

definition no_links :: jump_node_t where
  "no_links = \<lparr>prev = 0, next = 0\<rparr>"

text \<open>
  Every level links exactly its nodes of \<open>F\<close>; the nodes of \<open>Z\<close> have no links.
\<close>

definition jump_ok :: "chunk_t \<Rightarrow> nat set \<Rightarrow> nat set \<Rightarrow> bool" where
  "jump_ok c F Z \<longleftrightarrow> length (jump_tree c) = 4095 \<and> length (avail_nodes_count c) = 12
     \<and> length (jump_tree_first_index c) = 12 \<and> F \<subseteq> {1..4095} \<and> Z \<subseteq> {1..4095}
     \<and> (\<forall>L \<le> 11. lvl_rep (jview (jump_tree c)) (F \<inter> lev L) (jump_tree_first_index c ! L) (avail_nodes_count c ! L))
     \<and> (\<forall>n \<in> Z. jview (jump_tree c) n = no_links)"

definition same_rest :: "chunk_t \<Rightarrow> chunk_t \<Rightarrow> bool" where
  "same_rest c c' \<longleftrightarrow> key c' = key c \<and> fd c' = fd c \<and> bk c' = bk c \<and> buddy_tree c' = buddy_tree c
     \<and> reg_size_small_medium c' = reg_size_small_medium c"

lemma jump_okD:
  assumes "jump_ok c F Z"
  shows "length (jump_tree c) = 4095" "length (avail_nodes_count c) = 12" "length (jump_tree_first_index c) = 12"
    "F \<subseteq> {1..4095}" "L \<le> 11 \<Longrightarrow> lvl_rep (jview (jump_tree c)) (F \<inter> lev L) (jump_tree_first_index c ! L) (avail_nodes_count c ! L)"
    "n \<in> Z \<Longrightarrow> jview (jump_tree c) n = no_links" "Z \<subseteq> {1..4095}"
  using assms by (auto simp: jump_ok_def)

lemma lvl_rep_cong:
  assumes "\<And>x. x \<in> F \<Longrightarrow> f' x = f x"
  shows "lvl_rep f' F first avail = lvl_rep f F first avail"
proof -
  have "set xs = F \<Longrightarrow> gseg f' 0 xs 0 = gseg f 0 xs 0" for xs by (rule gseg_cong) (use assms in simp)
  then show ?thesis unfolding lvl_rep_def by blast
qed

lemma lev_disjoint: "L \<noteq> L' \<Longrightarrow> lev L \<inter> lev L' = {}"
proof -
  have "lev i \<inter> lev j = {}" if "i < j" for i j :: nat
  proof -
    have "(2 :: nat) ^ Suc i \<le> 2 ^ j" using that by (intro power_increasing) simp_all
    then show ?thesis by (auto simp: lev_def)
  qed
  then show "L \<noteq> L' \<Longrightarrow> lev L \<inter> lev L' = {}" by (metis inf_commute linorder_neqE_nat)
qed

lemma jview_upd:
  "1 \<le> k \<Longrightarrow> k \<le> length jt \<Longrightarrow> 1 \<le> m \<Longrightarrow> jview (jt[k - 1 := x]) m = (if m = k then x else jview jt m)"
  by (auto simp: jview_def nth_list_update)

lemma jview_upd':
  "Suc 0 \<le> k \<Longrightarrow> k \<le> length jt \<Longrightarrow> Suc 0 \<le> m \<Longrightarrow> jview (jt[k - Suc 0 := x]) m = (if m = k then x else jview jt m)"
  by (auto simp: jview_def nth_list_update)

lemma jt_ops:
  assumes "1 \<le> k" "k \<le> length jt" "length jt = 4095"
  shows "get_jt_item jt k = ret (jview jt k)"
    "v < 65536 \<Longrightarrow> set_jt_item_next jt k v = ret (jt[k - 1 := (jview jt k)\<lparr>next := v\<rparr>])"
    "v < 65536 \<Longrightarrow> set_jt_item_prev jt k v = ret (jt[k - 1 := (jview jt k)\<lparr>prev := v\<rparr>])"
    "v < 65536 \<Longrightarrow> next (jview jt k) + v < 65536 \<Longrightarrow>
       incr_jt_item_next jt k v = ret (jt[k - 1 := (jview jt k)\<lparr>next := next (jview jt k) + v\<rparr>])"
    "v < 65536 \<Longrightarrow> prev (jview jt k) + v < 65536 \<Longrightarrow>
       incr_jt_item_prev jt k v = ret (jt[k - 1 := (jview jt k)\<lparr>prev := prev (jview jt k) + v\<rparr>])"
proof -
  have k: "sub32 k 1 = k - 1" "k - 1 < length jt" using assms by (auto simp: wrap_simps)
  show "get_jt_item jt k = ret (jview jt k)"
    "v < 65536 \<Longrightarrow> set_jt_item_next jt k v = ret (jt[k - 1 := (jview jt k)\<lparr>next := v\<rparr>])"
    "v < 65536 \<Longrightarrow> set_jt_item_prev jt k v = ret (jt[k - 1 := (jview jt k)\<lparr>prev := v\<rparr>])"
    "v < 65536 \<Longrightarrow> next (jview jt k) + v < 65536 \<Longrightarrow>
       incr_jt_item_next jt k v = ret (jt[k - 1 := (jview jt k)\<lparr>next := next (jview jt k) + v\<rparr>])"
    "v < 65536 \<Longrightarrow> prev (jview jt k) + v < 65536 \<Longrightarrow>
       incr_jt_item_prev jt k v = ret (jt[k - 1 := (jview jt k)\<lparr>prev := prev (jview jt k) + v\<rparr>])"
    using k by (simp_all add: get_jt_item_def set_jt_item_next_def set_jt_item_prev_def incr_jt_item_next_def
        incr_jt_item_prev_def arr_get_def arr_set_def jview_def u16_small)
qed

text \<open>Changing one level leaves the others as they are.\<close>

lemma jump_ok_level:
  assumes ok: "jump_ok c F Z" and L: "L \<le> 11"
    and new: "lvl_rep (jview (jump_tree c')) (F \<inter> lev L - B) (jump_tree_first_index c' ! L) (avail_nodes_count c' ! L)"
    and len: "length (jump_tree c') = 4095"
    and arr: "jump_tree_first_index c' = (jump_tree_first_index c)[L := x]" "avail_nodes_count c' = (avail_nodes_count c)[L := y]"
    and same: "\<And>k. 1 \<le> k \<Longrightarrow> k \<notin> F \<inter> lev L \<Longrightarrow> jview (jump_tree c') k = jview (jump_tree c) k"
    and B: "B \<subseteq> lev L" and Z': "Z' \<subseteq> {1..4095}" "\<And>k. k \<in> Z' \<Longrightarrow> jview (jump_tree c') k = no_links"
  shows "jump_ok c' (F - B) Z'"
proof -
  have "lvl_rep (jview (jump_tree c')) ((F - B) \<inter> lev L') (jump_tree_first_index c' ! L') (avail_nodes_count c' ! L')"
    if L': "L' \<le> 11" for L'
  proof (cases "L' = L")
    case True
    have "(F - B) \<inter> lev L = F \<inter> lev L - B" by blast
    then show ?thesis using new True by (simp only:)
  next
    case False
    then have disj: "lev L' \<inter> lev L = {}" by (rule lev_disjoint)
    then have eq: "(F - B) \<inter> lev L' = F \<inter> lev L'" using B by auto
    have "lvl_rep (jview (jump_tree c')) (F \<inter> lev L') (jump_tree_first_index c ! L') (avail_nodes_count c ! L')"
      using jump_okD(4,5) [OF ok] L' disj same by (subst lvl_rep_cong [of _ _ "jview (jump_tree c)"]) force+
    then show ?thesis using False by (simp add: eq arr)
  qed
  then show ?thesis
    using len arr jump_okD(2-4) [OF ok] Z' by (auto simp: jump_ok_def)
qed

text \<open>The neighbours of a block after the first half of either update.\<close>

definition relinked :: "jump_node_t list \<Rightarrow> jump_node_t list \<Rightarrow> nat \<Rightarrow> nat \<Rightarrow> nat \<Rightarrow> bool" where
  "relinked jt jt' g a b \<longleftrightarrow> length jt' = 4095
     \<and> (\<forall>k \<ge> 1. k \<noteq> a \<longrightarrow> k \<noteq> b \<longrightarrow> k \<noteq> g \<longrightarrow> jview jt' k = jview jt k)
     \<and> (a \<noteq> 0 \<longrightarrow> jview jt' a = (jview jt a)\<lparr>next := if b = 0 then 0 else b - a\<rparr>)
     \<and> (b \<noteq> 0 \<longrightarrow> jview jt' b = (jview jt b)\<lparr>prev := if a = 0 then 0 else b - a\<rparr>)"

lemma unlink_node_neighbours:
  assumes len: "length jt = 4095" and g: "1 \<le> g" "g \<le> 4095" and L: "L < length fi"
    and a: "prev (jview jt g) = 0 \<longleftrightarrow> a = 0" "a \<noteq> 0 \<Longrightarrow> a < g \<and> a = g - prev (jview jt g) \<and> next (jview jt a) = g - a"
    and b: "next (jview jt g) = 0 \<longleftrightarrow> b = 0" "b \<noteq> 0 \<Longrightarrow> g < b \<and> b \<le> 4095 \<and> b = g + next (jview jt g) \<and> prev (jview jt b) = b - g"
    and c: "jump_tree c = jt" "jump_tree_first_index c = fi"
  shows "\<exists>jt'. (if next (jview jt g) = 0 then
              bindR (set_jt_item_next (jump_tree c) (sub32 g (prev (jview jt g))) 0) (\<lambda>jt. ret (c\<lparr>jump_tree := jt\<rparr>))
            else if prev (jview jt g) = 0 then
              bindR (arr_set (jump_tree_first_index c) L (u32 (g + next (jview jt g)))) (\<lambda>first.
              bindR (set_jt_item_prev (jump_tree c) (u32 (g + next (jview jt g))) 0) (\<lambda>jt.
              ret (c\<lparr>jump_tree_first_index := first, jump_tree := jt\<rparr>)))
            else
              bindR (incr_jt_item_next (jump_tree c) (sub32 g (prev (jview jt g))) (next (jview jt g))) (\<lambda>jt'.
              bindR (incr_jt_item_prev jt' (u32 (g + next (jview jt g))) (prev (jview jt g))) (\<lambda>jt.
              ret (c\<lparr>jump_tree := jt\<rparr>)))) =
          ret (c\<lparr>jump_tree := jt', jump_tree_first_index := if a = 0 \<and> b \<noteq> 0 then fi[L := b] else fi\<rparr>)
     \<and> relinked jt jt' g a b"
proof (cases "b = 0")
  case True
  show ?thesis
  proof (cases "a = 0")
    case a0: True
    have "sub32 g 0 = g" using g by (simp add: wrap_simps)
    then show ?thesis
      using True a0 a(1) b(1) len g c
      by (intro exI [of _ "jt[g - 1 := (jview jt g)\<lparr>next := 0\<rparr>]"]) (auto simp: jt_ops relinked_def jview_upd')
  next
    case False
    then have "sub32 g (prev (jview jt g)) = a" "1 \<le> a" "a \<le> 4095" using a(2) g by (auto simp: wrap_simps)
    then show ?thesis
      using True False a(1) b(1) len g c
      by (intro exI [of _ "jt[a - 1 := (jview jt a)\<lparr>next := 0\<rparr>]"]) (auto simp: jt_ops relinked_def jview_upd')
  qed
next
  case False
  then have b': "u32 (g + next (jview jt g)) = b" "1 \<le> b" "b \<le> 4095" "next (jview jt g) = b - g"
    using b(2) by (auto simp: wrap_simps)
  show ?thesis
  proof (cases "a = 0")
    case a0: True
    then show ?thesis
      using False a(1) b(1) b' len L c
      by (intro exI [of _ "jt[b - 1 := (jview jt b)\<lparr>prev := 0\<rparr>]"]) (auto simp: jt_ops relinked_def jview_upd' arr_set_def)
  next
    case a0: False
    then have a': "sub32 g (prev (jview jt g)) = a" "1 \<le> a" "a \<le> 4095" "prev (jview jt g) = g - a"
      using a(2) g by (auto simp: wrap_simps)
    have ab: "a < g" "g < b" "next (jview jt a) = g - a" "prev (jview jt b) = b - g" using a(2) b(2) a0 False by auto
    let ?jt1 = "jt[a - 1 := (jview jt a)\<lparr>next := b - a\<rparr>]"
    have 1: "incr_jt_item_next jt a (b - g) = ret ?jt1"
      using a' ab b' len by (subst jt_ops(4)) auto
    have 2: "incr_jt_item_prev ?jt1 b (g - a) = ret (?jt1[b - 1 := (jview jt b)\<lparr>prev := b - a\<rparr>])"
    proof -
      have v: "jview (jt[a - Suc 0 := (jview jt a)\<lparr>next := b - a\<rparr>]) b = jview jt b"
        using a' ab b' len by (subst jview_upd') auto
      show ?thesis using a' ab b' len by (subst jt_ops(5)) (auto simp: v)
    qed
    have ne: "next (jview jt g) \<noteq> 0" "prev (jview jt g) \<noteq> 0" using a0 False a(1) b(1) by auto
    show ?thesis
      using ne 1 2 a' b' ab a0 False len c
      by (intro exI [of _ "?jt1[b - 1 := (jview jt b)\<lparr>prev := b - a\<rparr>]"]) (auto simp: relinked_def jview_upd')
  qed
qed

lemma unlink_node_ok:
  assumes ok: "jump_ok c F Z" and L: "L \<le> 11" and g: "g \<in> F \<inter> lev L" and disj: "F \<inter> Z = {}"
  shows "\<exists>c'. unlink_node c (jview (jump_tree c) g) g L = ret c' \<and> jump_ok c' (F - {g}) (insert g Z) \<and> same_rest c c'"
proof -
  let ?jt = "jump_tree c" and ?fi = "jump_tree_first_index c" and ?av = "avail_nodes_count c"
  let ?f = "jview ?jt"
  have gr: "1 \<le> g" "g \<le> 4095" using g jump_okD(4) [OF ok] by auto
  obtain a b where ab: "prev (?f g) = 0 \<longleftrightarrow> a = 0" "a \<noteq> 0 \<Longrightarrow> a \<in> F \<inter> lev L \<and> a < g \<and> a = g - prev (?f g) \<and> next (?f a) = g - a"
    "next (?f g) = 0 \<longleftrightarrow> b = 0" "b \<noteq> 0 \<Longrightarrow> b \<in> F \<inter> lev L \<and> g < b \<and> b = g + next (?f g) \<and> prev (?f b) = b - g"
    "Suc g - g \<le> ?av ! L" "?av ! L = Suc g - g \<longleftrightarrow> a = 0 \<and> b = 0"
    and rem: "\<And>f'. (\<And>x. x \<in> F \<inter> lev L - {g..g} \<Longrightarrow> x \<noteq> a \<Longrightarrow> x \<noteq> b \<Longrightarrow> f' x = ?f x) \<Longrightarrow>
       (a \<noteq> 0 \<Longrightarrow> prev (f' a) = prev (?f a) \<and> next (f' a) = (if b = 0 then 0 else b - a)) \<Longrightarrow>
       (b \<noteq> 0 \<Longrightarrow> next (f' b) = next (?f b) \<and> prev (f' b) = (if a = 0 then 0 else b - a)) \<Longrightarrow>
       lvl_rep f' (F \<inter> lev L - {g..g}) (if a \<noteq> 0 then ?fi ! L else b) (?av ! L - (Suc g - g))"
    by (rule lvl_rep_remove [OF jump_okD(5) [OF ok L], of g g]) (use g in auto)
  have bb: "g < b \<and> b \<le> 4095 \<and> b = g + next (?f g) \<and> prev (?f b) = b - g" if "b \<noteq> 0"
    using ab(4) [OF that] jump_okD(4) [OF ok] by auto
  have aa: "a < g \<and> a = g - prev (?f g) \<and> next (?f a) = g - a" if "a \<noteq> 0" using ab(2) [OF that] by blast
  obtain jt1 where first: "(if next (?f g) = 0 then
              bindR (set_jt_item_next (jump_tree c) (sub32 g (prev (?f g))) 0) (\<lambda>jt. ret (c\<lparr>jump_tree := jt\<rparr>))
            else if prev (?f g) = 0 then
              bindR (arr_set (jump_tree_first_index c) L (u32 (g + next (?f g)))) (\<lambda>first.
              bindR (set_jt_item_prev (jump_tree c) (u32 (g + next (?f g))) 0) (\<lambda>jt.
              ret (c\<lparr>jump_tree_first_index := first, jump_tree := jt\<rparr>)))
            else
              bindR (incr_jt_item_next (jump_tree c) (sub32 g (prev (?f g))) (next (?f g))) (\<lambda>jt'.
              bindR (incr_jt_item_prev jt' (u32 (g + next (?f g))) (prev (?f g))) (\<lambda>jt.
              ret (c\<lparr>jump_tree := jt\<rparr>)))) =
          ret (c\<lparr>jump_tree := jt1, jump_tree_first_index := if a = 0 \<and> b \<noteq> 0 then ?fi[L := b] else ?fi\<rparr>)"
    and rel: "relinked ?jt jt1 g a b"
    using unlink_node_neighbours [OF jump_okD(1) [OF ok] gr _ ab(1) aa ab(3) bb refl refl, of L] jump_okD(3) [OF ok] L by auto
  have len1: "length jt1 = 4095" using rel by (simp add: relinked_def)
  define jt2 where "jt2 = jt1[g - 1 := (jview jt1 g)\<lparr>next := 0\<rparr>]"
  define jt3 where "jt3 = jt2[g - 1 := (jview jt2 g)\<lparr>prev := 0\<rparr>]"
  have ops: "set_jt_item_next jt1 g 0 = ret jt2" "set_jt_item_prev jt2 g 0 = ret jt3" and len3: "length jt3 = 4095"
    using gr len1 by (simp_all add: jt_ops jt2_def jt3_def)
  have view3: "jview jt3 k = (if k = g then no_links else jview jt1 k)" if "1 \<le> k" for k
    using that gr len1 by (simp add: jt3_def jt2_def jview_upd' no_links_def)
  define fi' where "fi' = (if a = 0 \<and> b = 0 then ?fi[L := 0] else if a = 0 then ?fi[L := b] else ?fi)"
  define c' where "c' = c\<lparr>jump_tree := jt3, avail_nodes_count := ?av[L := ?av ! L - 1], jump_tree_first_index := fi'\<rparr>"
  have av_small: "?av ! L < 65536" and L12: "L < 12"
  proof -
    obtain xs where "sorted_wrt (<) xs" "set xs = F \<inter> lev L" "?av ! L = length xs"
      using jump_okD(5) [OF ok L] by (auto simp: lvl_rep_def)
    then have "?av ! L = card (F \<inter> lev L)" by (metis strict_sorted_iff distinct_card)
    also have "\<dots> \<le> card {1..4095 :: nat}" using jump_okD(4) [OF ok] by (intro card_mono) auto
    finally show "?av ! L < 65536" by simp
    show "L < 12" using L by simp
  qed
  have av: "sub16 (?av ! L) 1 = ?av ! L - 1" using ab(5) av_small by (simp add: wrap_simps)
  have zero: "?av ! L - 1 = 0 \<longleftrightarrow> a = 0 \<and> b = 0" using ab(5,6) by auto
  have "unlink_node c (?f g) g L = ret c'"
    unfolding unlink_node_def first
    using ops av zero L12 jump_okD(2,3) [OF ok]
    by (auto simp: arr_get_def arr_set_def c'_def fi'_def)
  moreover have "jump_ok c' (F - {g}) (insert g Z)"
  proof (rule jump_ok_level [OF ok L])
    have "lvl_rep (jview jt3) (F \<inter> lev L - {g..g}) (if a \<noteq> 0 then ?fi ! L else b) (?av ! L - (Suc g - g))"
      by (rule rem) (use rel view3 gr aa bb jump_okD(4) [OF ok] in \<open>auto simp: relinked_def\<close>)
    then show "lvl_rep (jview (jump_tree c')) (F \<inter> lev L - {g}) (jump_tree_first_index c' ! L) (avail_nodes_count c' ! L)"
      using L12 jump_okD(2,3) [OF ok] by (auto simp: c'_def fi'_def)
    show "jump_tree_first_index c' = ?fi[L := jump_tree_first_index c' ! L]" "avail_nodes_count c' = ?av[L := ?av ! L - 1]"
      using L12 jump_okD(2,3) [OF ok] by (auto simp: c'_def fi'_def)
    show same: "jview (jump_tree c') k = jview (jump_tree c) k" if "1 \<le> k" "k \<notin> F \<inter> lev L" for k
      using that rel view3 g ab(2,4) by (auto simp: c'_def relinked_def)
    show "jview (jump_tree c') k = no_links" if "k \<in> insert g Z" for k
    proof (cases "k = g")
      case False
      then have "k \<in> Z" "k \<notin> F \<inter> lev L" "1 \<le> k" using that disj jump_okD(7) [OF ok] by auto
      then show ?thesis using same jump_okD(6) [OF ok] by simp
    qed (use view3 gr in \<open>simp add: c'_def\<close>)
    show "insert g Z \<subseteq> {1..4095}" using gr jump_okD(7) [OF ok] by simp
  qed (use len3 g in \<open>auto simp: c'_def\<close>)
  ultimately show ?thesis by (auto simp: same_rest_def c'_def)
qed

end
