(* ===== verification/Chunk_Jump.thy ===== *)
theory Chunk_Jump
  imports Chunk
begin

text \<open>
  The two updates of the jump tree in \<open>chunk_allocate_with_node\<close> (\<open>src/src/chunk.c\<close>): the
  loop towards the root takes the node and its ancestors off their free lists, the loop
  towards the leaves takes off the blocks of descendants, and the purge clears their links.
\<close>

subsection \<open>Levels\<close>

lemma lev_0: "lev 0 = {1}"
  by (auto simp: lev_def)

lemma lev_bounds: "n \<in> lev L \<Longrightarrow> L \<le> 11 \<Longrightarrow> 1 \<le> n \<and> n \<le> 4095"
proof -
  assume "n \<in> lev L" "L \<le> 11"
  moreover have "(2 :: nat) ^ Suc L \<le> 2 ^ 12" using \<open>L \<le> 11\<close> by (intro power_increasing) simp_all
  moreover have "(1 :: nat) \<le> 2 ^ L" by simp
  ultimately show ?thesis unfolding lev_def by fastforce
qed

lemma lev_parent: "n \<in> lev (Suc L) \<Longrightarrow> n div 2 \<in> lev L"
  by (auto simp: lev_def)

lemma lev_block:
  assumes "n \<in> lev L" "m div 2 ^ j = n"
  shows "m \<in> lev (L + j)"
proof -
  have "2 ^ L * 2 ^ j \<le> m div 2 ^ j * 2 ^ j"
    using assms by (intro mult_le_mono1) (simp add: lev_def)
  also have "\<dots> \<le> m" by simp
  finally have "2 ^ L * 2 ^ j \<le> m" .
  moreover have "m < Suc (m div 2 ^ j) * 2 ^ j"
    by (metis dividend_less_div_times mult.commute mult_Suc_right zero_less_numeral zero_less_power)
  moreover have "Suc (m div 2 ^ j) * 2 ^ j \<le> 2 ^ Suc L * 2 ^ j"
    using assms by (intro mult_le_mono1) (auto simp: lev_def)
  ultimately show ?thesis by (simp add: lev_def power_add)
qed

text \<open>The nodes \<open>j\<close> levels below \<open>n\<close> are a block of consecutive indices.\<close>

lemma div_block: "m div 2 ^ j = n \<longleftrightarrow> m \<in> {n * 2 ^ j ..< Suc n * 2 ^ j}" for m n j :: nat
proof -
  have "m div 2 ^ j = n \<longleftrightarrow> n \<le> m div 2 ^ j \<and> m div 2 ^ j < Suc n" by auto
  then show ?thesis by (simp add: less_eq_div_iff_mult_less_eq div_less_iff_less_mult)
qed

subsection \<open>Towards the root\<close>

lemma node_linked_iff:
  assumes ok: "jump_ok c F ({1..4095} - F)" and L: "L \<le> 11" and g: "g \<in> lev L"
  shows "node_linked c (jview (jump_tree c) g) g L = ret (g \<in> F)"
proof -
  obtain xs where xs: "sorted_wrt (<) xs" "set xs = F \<inter> lev L" "0 \<notin> F \<inter> lev L" "gseg (jview (jump_tree c)) 0 xs 0"
    "jump_tree_first_index c ! L = (if xs = [] then 0 else hd xs)"
    using jump_okD(5) [OF ok L] unfolding lvl_rep_def by blast
  have first: "arr_get (jump_tree_first_index c) L = ret (jump_tree_first_index c ! L)"
    using jump_okD(3) [OF ok] L by (simp add: arr_get_def)
  show ?thesis
  proof (cases "g \<in> F")
    case True
    then have "g \<in> set xs" using g xs(2) by simp
    then obtain as bs where sp: "xs = as @ g # bs" by (meson split_list)
    have seg: "gseg (jview (jump_tree c)) (if as = [] then 0 else last as) (g # bs) 0"
      using xs(4) unfolding sp gseg_append by simp
    have "prev (jview (jump_tree c) g) \<noteq> 0" if "as \<noteq> []"
    proof -
      have l: "last as \<in> set as" using that by simp
      then have "last as \<in> F \<inter> lev L" using xs(2) sp by auto
      then have "0 \<noteq> last as" using xs(3) by metis
      moreover have "last as < g" using xs(1) l unfolding sp by (auto simp: sorted_wrt_append)
      ultimately show ?thesis using seg that by simp
    qed
    moreover have "jump_tree_first_index c ! L = g" if "as = []" using xs(5) that sp by simp
    ultimately show ?thesis using True first by (cases "as = []") (simp_all add: node_linked_def)
  next
    case False
    then have "jview (jump_tree c) g = no_links" using jump_okD(6) [OF ok] lev_bounds [OF g L] by simp
    moreover have "jump_tree_first_index c ! L \<noteq> g"
    proof
      assume "jump_tree_first_index c ! L = g"
      then have "g \<in> set xs" using xs(5) lev_bounds [OF g L] by (cases xs) auto
      then show False using False xs(2) by simp
    qed
    ultimately show ?thesis using False first by (simp add: node_linked_def no_links_def)
  qed
qed

lemma same_rest_trans: "same_rest a b \<Longrightarrow> same_rest b c \<Longrightarrow> same_rest a c"
  by (simp add: same_rest_def)

lemma unlink_up_ok:
  assumes "jump_ok c F ({1..4095} - F)" "L \<le> 11" "g \<in> lev L" "1 \<notin> F"
    and "\<And>i j. i \<le> j \<Longrightarrow> g div 2 ^ i \<notin> F \<Longrightarrow> g div 2 ^ j \<notin> F"
  shows "\<exists>c'. unlink_up c (jview (jump_tree c) g) g L = ret c'
     \<and> jump_ok c' (F - range (\<lambda>j. g div 2 ^ j)) ({1..4095} - (F - range (\<lambda>j. g div 2 ^ j))) \<and> same_rest c c'"
  using assms
proof (induction L arbitrary: c F g)
  case (Suc L)
  note ok = Suc.prems(1)
  show ?case
  proof (cases "g \<in> F")
    case True
    have gr: "1 \<le> g" "g \<le> 4095" using lev_bounds [OF Suc.prems(3,2)] by auto
    have "\<exists>c'. unlink_node c (jview (jump_tree c) g) g (Suc L) = ret c'
        \<and> jump_ok c' (F - {g}) (insert g ({1..4095} - F)) \<and> same_rest c c'"
      by (rule unlink_node_ok [OF ok Suc.prems(2)]) (use True Suc.prems(3) in auto)
    then obtain c1 where c1: "unlink_node c (jview (jump_tree c) g) g (Suc L) = ret c1"
      "jump_ok c1 (F - {g}) (insert g ({1..4095} - F))" "same_rest c c1" by blast
    have Z: "insert g ({1..4095} - F) = {1..4095} - (F - {g})" using gr by auto
    have anc: "range (\<lambda>j. g div 2 ^ j) = insert g (range (\<lambda>j. g div 2 div 2 ^ j))"
    proof -
      have "g div 2 ^ j = g \<or> (\<exists>i. g div 2 ^ j = g div 2 div 2 ^ i)" for j
        by (cases j) (auto simp: div_mult2_eq)
      moreover have "g div 2 div 2 ^ i = g div 2 ^ Suc i" for i by (simp add: div_mult2_eq)
      moreover have "g = g div 2 ^ 0" by simp
      ultimately show ?thesis by (safe; blast)
    qed
    have "\<exists>c'. unlink_up c1 (jview (jump_tree c1) (g div 2)) (g div 2) L = ret c'
        \<and> jump_ok c' (F - {g} - range (\<lambda>j. g div 2 div 2 ^ j)) ({1..4095} - (F - {g} - range (\<lambda>j. g div 2 div 2 ^ j)))
        \<and> same_rest c1 c'"
    proof (rule Suc.IH)
      show "g div 2 div 2 ^ j \<notin> F - {g}" if "i \<le> j" "g div 2 div 2 ^ i \<notin> F - {g}" for i j
      proof -
        have "g div 2 div 2 ^ i \<le> g div 2" by (rule div_le_dividend)
        then have "g div 2 div 2 ^ i \<noteq> g" using gr by linarith
        then have "g div 2 ^ Suc i \<notin> F" using that(2) by (simp add: div_mult2_eq)
        then have "g div 2 ^ Suc j \<notin> F" using Suc.prems(5) [of "Suc i" "Suc j"] that(1) by simp
        then show ?thesis by (simp add: div_mult2_eq)
      qed
    qed (use c1(2) Z Suc.prems in \<open>auto simp: lev_parent\<close>)
    then obtain c' where c': "unlink_up c1 (jview (jump_tree c1) (g div 2)) (g div 2) L = ret c'"
      "jump_ok c' (F - {g} - range (\<lambda>j. g div 2 div 2 ^ j)) ({1..4095} - (F - {g} - range (\<lambda>j. g div 2 div 2 ^ j)))"
      "same_rest c1 c'" by blast
    have F': "F - {g} - range (\<lambda>j. g div 2 div 2 ^ j) = F - range (\<lambda>j. g div 2 ^ j)" using anc by blast
    have "1 \<le> g div 2" using lev_parent [OF Suc.prems(3)] lev_bounds Suc.prems(2) by simp
    then have "get_jt_item (jump_tree c1) (g div 2) = ret (jview (jump_tree c1) (g div 2))"
      using gr jump_okD(1) [OF c1(2)] by (intro jt_ops(1)) auto
    moreover have "sub32 (Suc L) 1 = L" using Suc.prems(2) by (simp add: wrap_simps)
    ultimately have "unlink_up c (jview (jump_tree c) g) g (Suc L) = ret c'"
      by (subst unlink_up.simps) (simp add: node_linked_iff [OF ok Suc.prems(2,3)] True c1(1) c'(1) del: One_nat_def)
    then show ?thesis using c'(2,3) F' same_rest_trans [OF c1(3)] by metis
  next
    case False
    have "F - range (\<lambda>j. g div 2 ^ j) = F" using Suc.prems(5) [of 0] False by auto
    moreover have "unlink_up c (jview (jump_tree c) g) g (Suc L) = ret c"
      by (subst unlink_up.simps) (simp add: node_linked_iff [OF ok Suc.prems(2,3)] False)
    ultimately show ?thesis using ok by (simp add: same_rest_def)
  qed
next
  case 0
  then have g: "g = 1" by (simp add: lev_0)
  have "F - range (\<lambda>j. g div 2 ^ j) = F"
    using 0(5) [of 0] 0(4) g by auto
  moreover have "unlink_up c (jview (jump_tree c) g) g 0 = ret c"
  proof -
    have "node_linked c (jview (jump_tree c) g) g 0 = ret False"
      using node_linked_iff [OF 0(1,2,3)] 0(4) g by simp
    then show ?thesis by (subst unlink_up.simps) simp
  qed
  ultimately show ?case using 0(1) by (simp add: same_rest_def)
qed

subsection \<open>Towards the leaves\<close>

lemma jump_count:
  assumes "jump_ok c F Z" "L \<le> 11"
  shows "avail_nodes_count c ! L = card (F \<inter> lev L)" "avail_nodes_count c ! L < 65536"
proof -
  obtain xs where "sorted_wrt (<) xs" "set xs = F \<inter> lev L" "avail_nodes_count c ! L = length xs"
    using jump_okD(5) [OF assms] by (auto simp: lvl_rep_def)
  then show 1: "avail_nodes_count c ! L = card (F \<inter> lev L)" by (metis strict_sorted_iff distinct_card)
  have "card (F \<inter> lev L) \<le> card {1..4095 :: nat}" using jump_okD(4) [OF assms(1)] by (intro card_mono) auto
  then show "avail_nodes_count c ! L < 65536" using 1 by simp
qed

lemma unlink_span_ok:
  assumes ok: "jump_ok c F Z" and L: "L \<le> 11" and blk: "{l..r} \<subseteq> F \<inter> lev L" "l \<le> r" and disj: "F \<inter> Z = {}"
  shows "\<exists>c'. unlink_span c l r (Suc r - l) L = ret c' \<and> jump_ok c' (F - {l..r}) Z \<and> same_rest c c'"
proof -
  let ?jt = "jump_tree c" and ?fi = "jump_tree_first_index c" and ?av = "avail_nodes_count c"
  let ?f = "jview ?jt"
  obtain a b where ab: "prev (?f l) = 0 \<longleftrightarrow> a = 0" "a \<noteq> 0 \<Longrightarrow> a \<in> F \<inter> lev L \<and> a < l \<and> a = l - prev (?f l) \<and> next (?f a) = l - a"
    "next (?f r) = 0 \<longleftrightarrow> b = 0" "b \<noteq> 0 \<Longrightarrow> b \<in> F \<inter> lev L \<and> r < b \<and> b = r + next (?f r) \<and> prev (?f b) = b - r"
    "Suc r - l \<le> ?av ! L" "?av ! L = Suc r - l \<longleftrightarrow> a = 0 \<and> b = 0" "F \<inter> lev L - {l..r} = {} \<longleftrightarrow> a = 0 \<and> b = 0"
    and rem: "\<And>f'. (\<And>x. x \<in> F \<inter> lev L - {l..r} \<Longrightarrow> x \<noteq> a \<Longrightarrow> x \<noteq> b \<Longrightarrow> f' x = ?f x) \<Longrightarrow>
       (a \<noteq> 0 \<Longrightarrow> prev (f' a) = prev (?f a) \<and> next (f' a) = (if b = 0 then 0 else b - a)) \<Longrightarrow>
       (b \<noteq> 0 \<Longrightarrow> next (f' b) = next (?f b) \<and> prev (f' b) = (if a = 0 then 0 else b - a)) \<Longrightarrow>
       lvl_rep f' (F \<inter> lev L - {l..r}) (if a \<noteq> 0 then ?fi ! L else b) (?av ! L - (Suc r - l))"
    by (rule lvl_rep_remove [OF jump_okD(5) [OF ok L] blk]) auto
  have F: "x \<in> F \<Longrightarrow> 1 \<le> x \<and> x \<le> 4095" for x using jump_okD(4) [OF ok] by auto
  have "l \<in> F" "r \<in> F" using blk by auto
  then have lr: "1 \<le> l" "l \<le> 4095" "1 \<le> r" "r \<le> 4095" using F by blast+
  note len = jump_okD(1) [OF ok]
  have L12: "L < length ?fi" "L < length ?av" using L jump_okD(2,3) [OF ok] by auto
  have get: "get_jt_item ?jt l = ret (?f l)" "get_jt_item ?jt r = ret (?f r)" using lr len by (simp_all add: jt_ops(1))
  have av: "sub16 (?av ! L) (Suc r - l) = ?av ! L - (Suc r - l)"
    using ab(5) jump_count(2) [OF ok L] by (simp add: wrap_simps)
  have "\<exists>jt'. unlink_span c l r (Suc r - l) L = ret (c\<lparr>jump_tree := jt',
            jump_tree_first_index := if a = 0 then ?fi[L := b] else ?fi, avail_nodes_count := ?av[L := ?av ! L - (Suc r - l)]\<rparr>)
     \<and> length jt' = 4095 \<and> (\<forall>k \<ge> 1. k \<noteq> a \<longrightarrow> k \<noteq> b \<longrightarrow> jview jt' k = ?f k)
     \<and> (a \<noteq> 0 \<longrightarrow> jview jt' a = (?f a)\<lparr>next := if b = 0 then 0 else b - a\<rparr>)
     \<and> (b \<noteq> 0 \<longrightarrow> jview jt' b = (?f b)\<lparr>prev := if a = 0 then 0 else b - a\<rparr>)"
  proof (cases "a = 0")
    case a0: True
    then have p0: "prev (?f l) = 0" using ab(1) by simp
    show ?thesis
    proof (cases "b = 0")
      case True
      then show ?thesis using a0 p0 ab(3) len L12 av get
        by (intro exI [of _ ?jt]) (simp add: unlink_span_def arr_get_def arr_set_def)
    next
      case False
      then have b': "u32 (r + next (?f r)) = b" "1 \<le> b" "b \<le> 4095" "next (?f r) \<noteq> 0"
        using ab(3,4) F [of b] by (auto simp: wrap_simps)
      then have set: "set_jt_item_prev ?jt b 0 = ret (?jt[b - 1 := (?f b)\<lparr>prev := 0\<rparr>])"
        using len by (subst jt_ops(3)) auto
      show ?thesis using a0 p0 False b' set len L12 av get
        by (intro exI [of _ "?jt[b - 1 := (?f b)\<lparr>prev := 0\<rparr>]"])
          (simp add: unlink_span_def arr_get_def arr_set_def jview_upd')
    qed
  next
    case a0: False
    then have a': "sub32 l (prev (?f l)) = a" "1 \<le> a" "a \<le> 4095" "prev (?f l) \<noteq> 0" "prev (?f l) = l - a" "a < l" "next (?f a) = l - a"
      using ab(1,2) F [of a] lr by (auto simp: wrap_simps)
    show ?thesis
    proof (cases "b = 0")
      case True
      then have n0: "next (?f r) = 0" using ab(3) by simp
      have set: "set_jt_item_next ?jt a 0 = ret (?jt[a - 1 := (?f a)\<lparr>next := 0\<rparr>])"
        using a' len by (subst jt_ops(2)) auto
      show ?thesis using a0 a'(1-4) True n0 set len L12 av get
        by (intro exI [of _ "?jt[a - 1 := (?f a)\<lparr>next := 0\<rparr>]"])
          (simp add: unlink_span_def arr_get_def arr_set_def jview_upd')
    next
      case False
      then have b': "u32 (r + next (?f r)) = b" "1 \<le> b" "b \<le> 4095" "next (?f r) \<noteq> 0" "next (?f r) = b - r" "r < b" "prev (?f b) = b - r"
        using ab(3,4) F [of b] by (auto simp: wrap_simps)
      let ?jt1 = "?jt[a - 1 := (?f a)\<lparr>next := b - a\<rparr>]" and ?d = "Suc r - l"
      have d: "u32 (sub32 ?d 1 + next (?f r)) = b - l" "u32 (sub32 ?d 1 + prev (?f l)) = r - a"
        using a' b' blk(2) lr by (auto simp: wrap_simps)
      have 1: "incr_jt_item_next ?jt a (b - l) = ret ?jt1"
        using a' b' blk(2) len by (subst jt_ops(4)) auto
      have 2: "incr_jt_item_prev ?jt1 b (r - a) = ret (?jt1[b - 1 := (?f b)\<lparr>prev := b - a\<rparr>])"
      proof -
        have v: "jview (?jt[a - Suc 0 := (?f a)\<lparr>next := b - a\<rparr>]) b = ?f b"
          using a' b' blk(2) len by (subst jview_upd') auto
        show ?thesis using a' b' blk(2) len by (subst jt_ops(5)) (auto simp: v)
      qed
      show ?thesis using a0 a'(1-4,6) b'(1-4,6) blk(2) False 1 2 len L12 av get d
        by (intro exI [of _ "?jt1[b - 1 := (?f b)\<lparr>prev := b - a\<rparr>]"])
          (simp add: unlink_span_def arr_get_def arr_set_def jview_upd')
    qed
  qed
  then obtain jt' where run: "unlink_span c l r (Suc r - l) L = ret (c\<lparr>jump_tree := jt',
            jump_tree_first_index := if a = 0 then ?fi[L := b] else ?fi, avail_nodes_count := ?av[L := ?av ! L - (Suc r - l)]\<rparr>)"
    (is "_ = ret ?c'") and jt': "length jt' = 4095" "\<forall>k \<ge> 1. k \<noteq> a \<longrightarrow> k \<noteq> b \<longrightarrow> jview jt' k = ?f k"
      "a \<noteq> 0 \<longrightarrow> jview jt' a = (?f a)\<lparr>next := if b = 0 then 0 else b - a\<rparr>"
      "b \<noteq> 0 \<longrightarrow> jview jt' b = (?f b)\<lparr>prev := if a = 0 then 0 else b - a\<rparr>" by blast
  have "jump_ok ?c' (F - {l..r}) Z"
  proof (rule jump_ok_level [OF ok L])
    have "lvl_rep (jview jt') (F \<inter> lev L - {l..r}) (if a \<noteq> 0 then ?fi ! L else b) (?av ! L - (Suc r - l))"
      by (rule rem) (use jt'(2-4) F in auto)
    then show "lvl_rep (jview (jump_tree ?c')) (F \<inter> lev L - {l..r}) (jump_tree_first_index ?c' ! L) (avail_nodes_count ?c' ! L)"
      using L12 by (auto split: if_splits)
    show "jump_tree_first_index ?c' = ?fi[L := jump_tree_first_index ?c' ! L]"
      "avail_nodes_count ?c' = ?av[L := ?av ! L - (Suc r - l)]" using L12 by auto
    show same: "jview (jump_tree ?c') k = jview (jump_tree c) k" if "1 \<le> k" "k \<notin> F \<inter> lev L" for k
      using that jt'(2) ab(2,4) by auto
    show "jview (jump_tree ?c') k = no_links" if "k \<in> Z" for k
    proof -
      have "k \<notin> F \<inter> lev L" "1 \<le> k" using that disj jump_okD(7) [OF ok] by auto
      then show ?thesis using same that jump_okD(6) [OF ok] by simp
    qed
  qed (use jt'(1) blk jump_okD(7) [OF ok] in auto)
  then show ?thesis using run by (auto simp: same_rest_def)
qed

lemma block_set: "{n * 2 ^ j .. Suc n * 2 ^ j - 1} = {k. k div 2 ^ j = n}" for n j :: nat
proof -
  have "(1 :: nat) \<le> 2 ^ j" by simp
  then have "1 \<le> Suc n * 2 ^ j" unfolding mult_Suc by linarith
  then have "{n * 2 ^ j .. Suc n * 2 ^ j - 1} = {n * 2 ^ j ..< Suc n * 2 ^ j}" by fastforce
  then show ?thesis using div_block [of _ j n] by auto
qed

text \<open>The nodes at least \<open>j\<close> levels below \<open>n\<close>.\<close>

definition deep :: "nat \<Rightarrow> nat \<Rightarrow> nat set" where
  "deep n j = {k. \<exists>i \<ge> j. k div 2 ^ i = n}"

lemma deep_step: "deep n j = {n * 2 ^ j .. Suc n * 2 ^ j - 1} \<union> deep n (Suc j)"
proof -
  have "(\<exists>i \<ge> j. k div 2 ^ i = n) \<longleftrightarrow> k div 2 ^ j = n \<or> (\<exists>i \<ge> Suc j. k div 2 ^ i = n)" for k
    by (metis Suc_le_eq le_eq_less_or_eq)
  moreover have "k div 2 ^ j = n \<longleftrightarrow> k \<in> {n * 2 ^ j .. Suc n * 2 ^ j - 1}" for k
    unfolding block_set by simp
  ultimately show ?thesis unfolding deep_def by blast
qed

lemma deep_beyond:
  assumes "n \<in> lev L" "11 < L + j"
  shows "deep n j \<inter> {1..4095} = {}"
proof -
  have "4095 < k" if "k div 2 ^ i = n" "j \<le> i" for k i
  proof -
    have "2 ^ 12 \<le> (2 :: nat) ^ (L + i)" using assms(2) that(2) by (intro power_increasing) simp_all
    then show ?thesis using lev_block [OF assms(1) that(1)] by (auto simp: lev_def)
  qed
  then show ?thesis by (force simp: deep_def)
qed

lemma block_bounds:
  assumes "n \<in> lev L" "L + j \<le> 11"
  shows "1 \<le> n * 2 ^ j" "n * 2 ^ j \<le> Suc n * 2 ^ j - 1" "Suc n * 2 ^ j - 1 \<le> 4095" "{n * 2 ^ j .. Suc n * 2 ^ j - 1} \<subseteq> lev (L + j)"
    "2 ^ j \<le> (4096 :: nat)" "Suc (Suc n * 2 ^ j - 1) - n * 2 ^ j = 2 ^ j"
proof -
  show sub: "{n * 2 ^ j .. Suc n * 2 ^ j - 1} \<subseteq> lev (L + j)"
  proof
    fix k assume "k \<in> {n * 2 ^ j .. Suc n * 2 ^ j - 1}"
    then have "k div 2 ^ j = n" unfolding block_set by simp
    then show "k \<in> lev (L + j)" by (rule lev_block [OF assms(1)])
  qed
  have pos: "(1 :: nat) \<le> 2 ^ j" by simp
  then show le: "n * 2 ^ j \<le> Suc n * 2 ^ j - 1" unfolding mult_Suc by linarith
  then have "n * 2 ^ j \<in> lev (L + j)" "Suc n * 2 ^ j - 1 \<in> lev (L + j)" using sub by auto
  then show "1 \<le> n * 2 ^ j" "Suc n * 2 ^ j - 1 \<le> 4095" using lev_bounds assms(2) by blast+
  have "(2 :: nat) ^ j \<le> 2 ^ 12" using assms(2) by (intro power_increasing) simp_all
  then show "2 ^ j \<le> (4096 :: nat)" by simp
  show "Suc (Suc n * 2 ^ j - 1) - n * 2 ^ j = 2 ^ j" using pos by simp
qed

lemma unlink_down_ok:
  assumes "jump_ok c F Z" "n \<in> lev L" "deep n j \<inter> {1..4095} \<subseteq> F" "F \<inter> Z = {}" "L + j \<le> 12"
  shows "\<exists>c'. unlink_down c (n * 2 ^ j) (Suc n * 2 ^ j - 1) (2 ^ j) (L + j) = ret c'
     \<and> jump_ok c' (F - deep n j) Z \<and> same_rest c c'"
  using assms(1,3-5)
proof (induction "12 - (L + j)" arbitrary: c F j)
  case 0
  then have lim: "11 < L + j" by simp
  then have "F - deep n j = F" using deep_beyond [OF assms(2) lim] jump_okD(4) [OF 0(2)] by blast
  then show ?case
    using 0(2) lim by (subst unlink_down.simps) (simp add: CHUNK_BUDDY_TREE_DEPTH_def same_rest_def)
next
  case (Suc d)
  then have L: "L + j \<le> 11" by simp
  note bb = block_bounds [OF assms(2) L]
  let ?l = "n * 2 ^ j" and ?r = "Suc n * 2 ^ j - 1"
  have sub: "{?l..?r} \<subseteq> F \<inter> lev (L + j)"
  proof -
    have "{?l..?r} \<subseteq> deep n j" using deep_step [of n j] by blast
    moreover have "{?l..?r} \<subseteq> {1..4095}" using bb(1,3) by (simp only: atLeastatMost_subset_iff) simp
    ultimately show ?thesis using Suc.prems(2) bb(4) by blast
  qed
  have "\<exists>c'. unlink_span c ?l ?r (Suc ?r - ?l) (L + j) = ret c' \<and> jump_ok c' (F - {?l..?r}) Z \<and> same_rest c c'"
    by (rule unlink_span_ok [OF Suc.prems(1) L sub bb(2) Suc.prems(3)])
  then obtain c1 where c1: "unlink_span c ?l ?r (2 ^ j) (L + j) = ret c1" "jump_ok c1 (F - {?l..?r}) Z" "same_rest c c1"
    unfolding bb(6) by blast
  have disj: "deep n (Suc j) \<inter> {?l..?r} = {}"
  proof -
    have "k div 2 ^ i \<noteq> n" if kl: "k \<in> {?l..?r}" and ij: "Suc j \<le> i" for k i
    proof -
      have "k div 2 ^ j = n" using kl unfolding block_set by simp
      moreover obtain m where "i = j + Suc m" using ij by (metis add_Suc_right le_Suc_ex add_Suc)
      ultimately have "k div 2 ^ i = n div 2 div 2 ^ m" by (simp only: power_add power_Suc div_mult2_eq)
      also have "\<dots> \<le> n div 2" by (rule div_le_dividend)
      also have "\<dots> < n" using lev_bounds [OF assms(2)] L by simp
      finally show ?thesis by simp
    qed
    then show ?thesis by (force simp: deep_def)
  qed
  have "\<exists>c'. unlink_down c1 (n * 2 ^ Suc j) (Suc n * 2 ^ Suc j - 1) (2 ^ Suc j) (L + Suc j) = ret c'
     \<and> jump_ok c' (F - {?l..?r} - deep n (Suc j)) Z \<and> same_rest c1 c'"
    by (rule Suc.hyps(1)) (use Suc.hyps(2) Suc.prems c1(2) disj deep_step [of n j] in auto)
  then obtain c' where c': "unlink_down c1 (n * 2 ^ Suc j) (Suc n * 2 ^ Suc j - 1) (2 ^ Suc j) (L + Suc j) = ret c'"
     "jump_ok c' (F - {?l..?r} - deep n (Suc j)) Z" "same_rest c1 c'" by blast
  have wrap: "u32 (?l * 2) = n * 2 ^ Suc j" "u32 (?r * 2 + 1) = Suc n * 2 ^ Suc j - 1" "u32 (2 ^ j * 2) = 2 ^ Suc j"
  proof -
    have "1 \<le> Suc n * 2 ^ j" using bb(1,2) by linarith
    then have "?r * 2 + 1 = Suc n * 2 ^ Suc j - 1" by simp
    then show "u32 (?l * 2) = n * 2 ^ Suc j" "u32 (?r * 2 + 1) = Suc n * 2 ^ Suc j - 1" "u32 (2 ^ j * 2) = 2 ^ Suc j"
      using bb by (simp_all add: wrap_simps)
  qed
  have "unlink_down c ?l ?r (2 ^ j) (L + j) = ret c'"
    using L by (subst unlink_down.simps) (simp add: CHUNK_BUDDY_TREE_DEPTH_def c1(1) [simplified] wrap [simplified] c'(1) [simplified])
  moreover have "F - {?l..?r} - deep n (Suc j) = F - deep n j" using deep_step [of n j] by blast
  ultimately show ?case using c'(2,3) same_rest_trans [OF c1(3)] by metis
qed

subsection \<open>The purge\<close>

lemma jt_clear_ok:
  assumes "length mem = 4095" "1 \<le> s" "s - 1 + n \<le> 4095"
  shows "\<exists>mem'. jt_clear mem s n = ret mem' \<and> length mem' = 4095
     \<and> (\<forall>k \<ge> 1. k \<le> 4095 \<longrightarrow> jview mem' k = (if s \<le> k \<and> k < s + n then no_links else jview mem k))"
proof -
  let ?mem' = "take (s - 1) mem @ replicate n no_links @ drop (s - 1 + n) mem"
  have "jview ?mem' k = (if s \<le> k \<and> k < s + n then no_links else jview mem k)" if "1 \<le> k" "k \<le> 4095" for k
    using assms that by (auto simp: jview_def nth_append)
  then show ?thesis using assms by (intro exI [of _ ?mem']) (simp add: jt_clear_def no_links_def)
qed

lemma purge_down_ok:
  assumes "length mem = 4095" "n \<in> lev L" "L + j \<le> 12"
  shows "\<exists>mem'. purge_down mem (n * 2 ^ j) (2 ^ j) (L + j) = ret mem' \<and> length mem' = 4095
     \<and> (\<forall>k \<ge> 1. k \<le> 4095 \<longrightarrow> jview mem' k = (if k \<in> deep n j then no_links else jview mem k))"
  using assms(1,3)
proof (induction "12 - (L + j)" arbitrary: mem j)
  case 0
  then have lim: "11 < L + j" by simp
  then have "k \<notin> deep n j" if "1 \<le> k" "k \<le> 4095" for k using deep_beyond [OF assms(2) lim] that by auto
  then show ?case
    using 0 lim by (subst purge_down.simps) (simp add: CHUNK_BUDDY_TREE_DEPTH_def)
next
  case (Suc d)
  then have L: "L + j \<le> 11" by simp
  note bb = block_bounds [OF assms(2) L]
  have fit: "n * 2 ^ j - 1 + 2 ^ j \<le> 4095" using bb(1,3) unfolding mult_Suc by linarith
  obtain m1 where m1: "jt_clear mem (n * 2 ^ j) (2 ^ j) = ret m1" "length m1 = 4095"
    "\<And>k. 1 \<le> k \<Longrightarrow> k \<le> 4095 \<Longrightarrow> jview m1 k = (if n * 2 ^ j \<le> k \<and> k < n * 2 ^ j + 2 ^ j then no_links else jview mem k)"
    using jt_clear_ok [OF Suc.prems(1) bb(1) fit] by blast
  have blk: "n * 2 ^ j \<le> k \<and> k < n * 2 ^ j + 2 ^ j \<longleftrightarrow> k \<in> {n * 2 ^ j .. Suc n * 2 ^ j - 1}" for k
    unfolding block_set using div_block [of k j n] by auto
  have "\<exists>mem'. purge_down m1 (n * 2 ^ Suc j) (2 ^ Suc j) (L + Suc j) = ret mem' \<and> length mem' = 4095
     \<and> (\<forall>k \<ge> 1. k \<le> 4095 \<longrightarrow> jview mem' k = (if k \<in> deep n (Suc j) then no_links else jview m1 k))"
    by (rule Suc.hyps(1)) (use Suc.hyps(2) Suc.prems m1(2) in auto)
  then obtain mem' where mem': "purge_down m1 (n * 2 ^ Suc j) (2 ^ Suc j) (L + Suc j) = ret mem'" "length mem' = 4095"
    "\<And>k. 1 \<le> k \<Longrightarrow> k \<le> 4095 \<Longrightarrow> jview mem' k = (if k \<in> deep n (Suc j) then no_links else jview m1 k)" by blast
  have wrap: "u32 (n * 2 ^ j * 2) = n * 2 ^ Suc j" "u32 (2 ^ j * 2) = 2 ^ Suc j"
    using bb(2,3,5) by (simp_all add: wrap_simps)
  have "purge_down mem (n * 2 ^ j) (2 ^ j) (L + j) = ret mem'"
    using L by (subst purge_down.simps) (simp add: CHUNK_BUDDY_TREE_DEPTH_def m1(1) wrap [simplified] mem'(1) [simplified])
  moreover have "jview mem' k = (if k \<in> deep n j then no_links else jview mem k)" if "1 \<le> k" "k \<le> 4095" for k
    using that mem'(3) m1(3) blk [of k] deep_step [of n j] by auto
  ultimately show ?case using mem'(2) by blast
qed

text \<open>Both loops and the purge together: the subtree of an allocated inner node.\<close>

lemma deep_split: "below n = insert n (deep n 1)"
proof -
  have "k \<in> below n \<longleftrightarrow> k = n \<or> k \<in> deep n 1" for k
    unfolding below_def deep_def
    by (auto simp: Suc_le_eq intro: exI [of _ 0]) (metis div_by_1 gr0I power_0)
  then show ?thesis by blast
qed

lemma unlink_subtree_ok:
  assumes ok: "jump_ok c F ({1..4095} - F)" and n: "n \<in> lev L" "L \<le> 10" and sub: "deep n 1 \<inter> {1..4095} \<subseteq> F"
  shows "\<exists>c' jt. unlink_down c (u32 (n * 2)) (u32 (n * 2 + 1)) 2 (L + 1) = ret c'
     \<and> purge_down (jump_tree c') (u32 (n * 2)) 2 (L + 1) = ret jt
     \<and> jump_ok (c'\<lparr>jump_tree := jt\<rparr>) (F - deep n 1) ({1..4095} - (F - deep n 1)) \<and> same_rest c c'"
proof -
  have nb: "1 \<le> n" "n \<le> 4095" using lev_bounds [OF n(1)] n(2) by auto
  have "\<exists>c'. unlink_down c (n * 2 ^ 1) (Suc n * 2 ^ 1 - 1) (2 ^ 1) (L + 1) = ret c'
     \<and> jump_ok c' (F - deep n 1) ({1..4095} - F) \<and> same_rest c c'"
    by (rule unlink_down_ok [OF ok n(1) sub]) (use n(2) in auto)
  then obtain c' where c': "unlink_down c (n * 2 ^ 1) (Suc n * 2 ^ 1 - 1) (2 ^ 1) (L + 1) = ret c'"
     "jump_ok c' (F - deep n 1) ({1..4095} - F)" "same_rest c c'" by blast
  have "\<exists>mem'. purge_down (jump_tree c') (n * 2 ^ 1) (2 ^ 1) (L + 1) = ret mem' \<and> length mem' = 4095
     \<and> (\<forall>k \<ge> 1. k \<le> 4095 \<longrightarrow> jview mem' k = (if k \<in> deep n 1 then no_links else jview (jump_tree c') k))"
    by (rule purge_down_ok [OF jump_okD(1) [OF c'(2)] n(1)]) (use n(2) in simp)
  then obtain jt where jt: "purge_down (jump_tree c') (n * 2 ^ 1) (2 ^ 1) (L + 1) = ret jt" "length jt = 4095"
    "\<And>k. 1 \<le> k \<Longrightarrow> k \<le> 4095 \<Longrightarrow> jview jt k = (if k \<in> deep n 1 then no_links else jview (jump_tree c') k)" by blast
  have F: "F \<subseteq> {1..4095}" using jump_okD(4) [OF ok] .
  have wrap: "u32 (n * 2) = n * 2 ^ 1" "u32 (n * 2 + 1) = Suc n * 2 ^ 1 - 1" using nb by (simp_all add: wrap_simps)
  have "jump_ok (c'\<lparr>jump_tree := jt\<rparr>) (F - deep n 1) ({1..4095} - (F - deep n 1))"
    unfolding jump_ok_def
  proof (intro conjI allI impI ballI)
    fix L' :: nat assume L': "L' \<le> 11"
    have "jview jt x = jview (jump_tree c') x" if "x \<in> (F - deep n 1) \<inter> lev L'" for x using jt(3) that F by auto
    then have "lvl_rep (jview jt) ((F - deep n 1) \<inter> lev L') = lvl_rep (jview (jump_tree c')) ((F - deep n 1) \<inter> lev L')"
      by (intro ext lvl_rep_cong) simp
    then show "lvl_rep (jview (jump_tree (c'\<lparr>jump_tree := jt\<rparr>))) ((F - deep n 1) \<inter> lev L')
        (jump_tree_first_index (c'\<lparr>jump_tree := jt\<rparr>) ! L') (avail_nodes_count (c'\<lparr>jump_tree := jt\<rparr>) ! L')"
      using jump_okD(5) [OF c'(2) L'] by simp
  next
    fix k assume k: "k \<in> {1..4095} - (F - deep n 1)"
    then show "jview (jump_tree (c'\<lparr>jump_tree := jt\<rparr>)) k = no_links"
      using jt(3) [of k] jump_okD(6) [OF c'(2)] by (cases "k \<in> deep n 1") auto
  qed (use jt(2) jump_okD(2-4) [OF c'(2)] in auto)
  then show ?thesis using c'(1,3) jt(1) unfolding wrap by (intro exI [of _ c'] exI [of _ jt]) simp
qed

end
