(* ===== verification/Chunk_Spec.thy ===== *)
theory Chunk_Spec
  imports Chunk_Jump
begin

text \<open>
  What a chunk promises (\<open>src/src/chunk.c\<close>). The abstract state of a chunk is the map \<open>A\<close>
  from the nodes that are allocated to the region size noted for them, and the set \<open>D\<close> of
  nodes whose memory was given back to the kernel. The invariant \<open>chunk_inv\<close> ties the jump
  tree, the buddy tree and the region sizes to it.
\<close>

subsection \<open>Leaves of a subtree\<close>

definition leaves :: "nat \<Rightarrow> nat set" where
  "leaves n = below n \<inter> lev 11"

definition anc :: "nat \<Rightarrow> nat set" where
  "anc n = range (\<lambda>j. n div 2 ^ j)"

lemma anc_iff: "m \<in> anc n \<longleftrightarrow> n \<in> below m"
  unfolding anc_def below_def by auto

lemma below_trans: "a \<in> below b \<Longrightarrow> b \<in> below c \<Longrightarrow> a \<in> below c"
proof -
  assume "a \<in> below b" "b \<in> below c"
  then obtain i j where "a div 2 ^ i = b" "b div 2 ^ j = c" unfolding below_def by blast
  then have "a div 2 ^ (i + j) = c" by (simp add: power_add div_mult2_eq)
  then show ?thesis unfolding below_def by blast
qed

lemma below_chain:
  assumes "k \<in> below m" "k \<in> below n"
  shows "m \<in> below n \<or> n \<in> below m"
proof -
  obtain i j where ij: "k div 2 ^ i = m" "k div 2 ^ j = n" using assms unfolding below_def by blast
  have "k div 2 ^ b = k div 2 ^ a div 2 ^ (b - a)" if "a \<le> b" for a b :: nat
    using that by (simp only: div_mult2_eq [symmetric] power_add [symmetric] le_add_diff_inverse)
  then have "m div 2 ^ (j - i) = n \<or> n div 2 ^ (i - j) = m" using ij by (metis linorder_le_cases)
  then show ?thesis unfolding below_def by blast
qed

lemma level_of: "1 \<le> n \<Longrightarrow> n \<le> 4095 \<Longrightarrow> \<exists>L \<le> 11. n \<in> lev L"
proof -
  assume n: "1 \<le> n" "n \<le> 4095"
  obtain L where L: "2 ^ L \<le> n" "n < 2 ^ Suc L" using ex_power_ivl1 [of 2 n] n(1) by auto
  have "L \<le> 11"
  proof (rule ccontr)
    assume "\<not> L \<le> 11"
    then have "(2 :: nat) ^ 12 \<le> 2 ^ L" by (intro power_increasing) simp_all
    then show False using L(1) n(2) by simp
  qed
  then show ?thesis using L by (auto simp: lev_def)
qed

lemma leaves_block: "n \<in> lev L \<Longrightarrow> L \<le> 11 \<Longrightarrow> leaves n = {n * 2 ^ (11 - L) ..< Suc n * 2 ^ (11 - L)}"
proof -
  assume n: "n \<in> lev L" "L \<le> 11"
  have "k div 2 ^ (11 - L) = n" if "k div 2 ^ i = n" "k \<in> lev 11" for k i
  proof -
    have "k \<in> lev (L + i)" using lev_block [OF n(1) that(1)] .
    then have "L + i = 11" using that(2) lev_disjoint [of "L + i" 11] by blast
    then have "11 - L = i" by arith
    then show ?thesis using that(1) by (simp only:)
  qed
  moreover have "k \<in> lev 11" if "k div 2 ^ (11 - L) = n" for k using lev_block [OF n(1) that] n(2) by simp
  ultimately show ?thesis unfolding leaves_def below_def using div_block [of _ "11 - L" n] by blast
qed

lemma leaves_nonempty: "1 \<le> n \<Longrightarrow> n \<le> 4095 \<Longrightarrow> leaves n \<noteq> {}"
proof -
  assume "1 \<le> n" "n \<le> 4095"
  then obtain L where L: "L \<le> 11" "n \<in> lev L" using level_of by blast
  have "n * 2 ^ (11 - L) \<in> {n * 2 ^ (11 - L) ..< Suc n * 2 ^ (11 - L)}" by simp
  then show ?thesis unfolding leaves_block [OF L(2,1)] by blast
qed

lemma leaves_mono: "m \<in> below n \<Longrightarrow> leaves m \<subseteq> leaves n"
  unfolding leaves_def using below_trans by blast

text \<open>Subtrees are nested or disjoint.\<close>

lemma leaves_meet:
  assumes "m \<in> {1..4095}" "n \<in> {1..4095}"
  shows "leaves m \<inter> leaves n = {} \<longleftrightarrow> m \<notin> below n \<and> n \<notin> below m"
proof
  assume "leaves m \<inter> leaves n = {}"
  then show "m \<notin> below n \<and> n \<notin> below m"
    using leaves_mono [of m n] leaves_mono [of n m] leaves_nonempty [of m] leaves_nonempty [of n] assms by auto
next
  assume "m \<notin> below n \<and> n \<notin> below m"
  then show "leaves m \<inter> leaves n = {}" unfolding leaves_def using below_chain by blast
qed

lemma leaves_leaf: "n \<in> lev 11 \<Longrightarrow> leaves n = {n}"
  using leaves_block [of n 11] by auto

lemma leaves_root: "leaves 1 = lev 11"
  using leaves_block [of 1 0] by (auto simp: lev_def)

lemma leaves_children:
  assumes "1 \<le> n" "n \<le> 2047"
  shows "leaves n = leaves (2 * n) \<union> leaves (2 * n + 1)"
proof -
  obtain L where L: "L \<le> 11" "n \<in> lev L" using level_of [of n] assms by auto
  have "L \<noteq> 11" using L(2) assms(2) by (auto simp: lev_def)
  then obtain j where j: "11 - L = Suc j" "11 - Suc L = j" and L': "Suc L \<le> 11" using L(1) by (cases "11 - L") auto
  have "2 * n \<in> lev (Suc L)" "2 * n + 1 \<in> lev (Suc L)" using L(2) by (auto simp: lev_def)
  then show ?thesis using leaves_block [OF _ L'] leaves_block [OF L(2,1)] j by (auto simp: algebra_simps)
qed

subsection \<open>Nodes that can be allocated\<close>

text \<open>The inner nodes and leaves none of whose leaves has been handed out. The root never is.\<close>

definition avail :: "nat set \<Rightarrow> nat set" where
  "avail T = {n. 2 \<le> n \<and> n \<le> 4095 \<and> leaves n \<inter> T = {}}"

lemma avail_below: "m \<in> avail T \<Longrightarrow> k \<in> below m \<Longrightarrow> k \<le> 4095 \<Longrightarrow> k \<in> avail T"
  unfolding avail_def using leaves_mono below_ge by fastforce

lemma avail_anc:
  assumes "i \<le> j" "n div 2 ^ i \<notin> avail T" "n \<le> 4095"
  shows "n div 2 ^ j \<notin> avail T"
proof
  assume j: "n div 2 ^ j \<in> avail T"
  have "n div 2 ^ j = n div 2 ^ i div 2 ^ (j - i)"
    using assms(1) by (simp only: div_mult2_eq [symmetric] power_add [symmetric] le_add_diff_inverse)
  then have "n div 2 ^ i \<in> below (n div 2 ^ j)" unfolding below_def by auto
  moreover have "n div 2 ^ i \<le> 4095" by (rule le_trans [OF div_le_dividend assms(3)])
  ultimately show False using avail_below [OF j] assms(2) by blast
qed

lemma avail_take:
  assumes "n \<in> {1..4095}"
  shows "avail T - anc n - deep n 1 = avail (T \<union> leaves n)"
proof -
  have "leaves m \<inter> leaves n = {} \<longleftrightarrow> m \<notin> anc n \<and> m \<notin> deep n 1" if "m \<in> avail T" for m
  proof -
    have "n \<in> anc n" unfolding anc_iff by simp
    then show ?thesis
      using leaves_meet [OF _ assms, of m] that deep_split [of n] unfolding anc_iff avail_def by auto
  qed
  then show ?thesis unfolding avail_def by blast
qed

subsection \<open>The invariant\<close>

definition taken :: "nat set \<Rightarrow> nat set" where
  "taken N = (\<Union>n \<in> N. leaves n)"

definition node_state :: "(nat \<rightharpoonup> nat) \<Rightarrow> nat set \<Rightarrow> nat \<Rightarrow> chunk_node_t" where
  "node_state A D n = (if n \<in> dom A then NODE_USED
     else if leaves n \<subseteq> taken D \<and> (\<forall>d \<in> D. n \<in> below d \<longrightarrow> n = d) then NODE_UNMAPPED else NODE_FREE)"

definition chunk_inv :: "chunk_t \<Rightarrow> (nat \<rightharpoonup> nat) \<Rightarrow> nat set \<Rightarrow> bool" where
  "chunk_inv c A D \<longleftrightarrow> 0 < key c \<and> key c + CHUNK_SIZE_BYTES < 2 ^ 64
     \<and> dom A \<union> D \<subseteq> {2..4095} \<and> dom A \<inter> D = {}
     \<and> (\<forall>m \<in> dom A \<union> D. \<forall>n \<in> dom A \<union> D. m \<noteq> n \<longrightarrow> leaves m \<inter> leaves n = {})
     \<and> jump_ok c (avail (taken (dom A \<union> D))) ({1..4095} - avail (taken (dom A \<union> D)))
     \<and> length (buddy_tree c) = CHUNK_BUDDY_TREE_SIZE_BYTES
     \<and> (\<forall>n \<in> {1..4095}. buddy_item (buddy_tree c) n = node_state A D n)
     \<and> length (reg_size_small_medium c) = CHUNK_NO_NODES_LAST_LAYER
     \<and> (\<forall>k < CHUNK_NO_NODES_LAST_LAYER. k + 2048 \<notin> D \<longrightarrow>
          reg_size_small_medium c ! k = (case A (k + 2048) of
             Some r \<Rightarrow> if r = CHUNK_LEAST_REGION_SIZE_BYTES then REG_MARK_BAD_VALUE else r
           | None \<Rightarrow> REG_MARK_BAD_VALUE))
     \<and> (\<forall>n r. A n = Some r \<longrightarrow> CHUNK_IS_LEAF n \<longrightarrow> r < REG_MARK_BAD_VALUE)"

lemma chunk_invD:
  assumes "chunk_inv c A D"
  shows "0 < key c" "key c + 33554432 < 18446744073709551616" "dom A \<union> D \<subseteq> {2..4095}" "dom A \<inter> D = {}"
    "m \<in> dom A \<union> D \<Longrightarrow> n \<in> dom A \<union> D \<Longrightarrow> m \<noteq> n \<Longrightarrow> leaves m \<inter> leaves n = {}"
    "jump_ok c (avail (taken (dom A \<union> D))) ({1..4095} - avail (taken (dom A \<union> D)))"
    "length (buddy_tree c) = 1024" "1 \<le> i \<Longrightarrow> i \<le> 4095 \<Longrightarrow> buddy_item (buddy_tree c) i = node_state A D i"
    "length (reg_size_small_medium c) = 2048"
    "k < 2048 \<Longrightarrow> k + 2048 \<notin> D \<Longrightarrow> reg_size_small_medium c ! k = (case A (k + 2048) of
             Some r \<Rightarrow> if r = 16384 then 65535 else r | None \<Rightarrow> 65535)"
    "A i = Some r \<Longrightarrow> 2048 \<le> i \<Longrightarrow> r < 65535"
  using assms unfolding chunk_inv_def CHUNK_IS_LEAF_def chunk_consts REG_MARK_BAD_VALUE_def by auto

lemma chunk_invI:
  assumes "0 < key c" "key c + 33554432 < 18446744073709551616" "dom A \<union> D \<subseteq> {2..4095}" "dom A \<inter> D = {}"
    "\<And>m n. m \<in> dom A \<union> D \<Longrightarrow> n \<in> dom A \<union> D \<Longrightarrow> m \<noteq> n \<Longrightarrow> leaves m \<inter> leaves n = {}"
    "jump_ok c (avail (taken (dom A \<union> D))) ({1..4095} - avail (taken (dom A \<union> D)))"
    "length (buddy_tree c) = 1024" "\<And>i. 1 \<le> i \<Longrightarrow> i \<le> 4095 \<Longrightarrow> buddy_item (buddy_tree c) i = node_state A D i"
    "length (reg_size_small_medium c) = 2048"
    "\<And>k. k < 2048 \<Longrightarrow> k + 2048 \<notin> D \<Longrightarrow> reg_size_small_medium c ! k = (case A (k + 2048) of
             Some r \<Rightarrow> if r = 16384 then 65535 else r | None \<Rightarrow> 65535)"
    "\<And>i r. A i = Some r \<Longrightarrow> 2048 \<le> i \<Longrightarrow> r < 65535"
  shows "chunk_inv c A D"
  using assms unfolding chunk_inv_def
  by (simp only: CHUNK_IS_LEAF_def chunk_consts REG_MARK_BAD_VALUE_def) (intro conjI ballI allI impI; auto)

lemma buddy_ops:
  assumes "length bt = 1024" "1 \<le> i" "i \<le> 4096"
  shows "get_buddy_tree_item bt i = ret (buddy_item bt i)"
    "set_buddy_tree_item bt i s = ret (buddy_update bt i s)"
    "length (buddy_update bt i s) = 1024"
    "1 \<le> j \<Longrightarrow> j \<le> 4096 \<Longrightarrow> buddy_item (buddy_update bt i s) j = (if i = j then s else buddy_item bt j)"
proof -
  have v: "buddy_valid bt k" if "1 \<le> k" "k \<le> 4096" for k using assms(1) that by (auto simp: buddy_valid_def)
  show "get_buddy_tree_item bt i = ret (buddy_item bt i)" "set_buddy_tree_item bt i s = ret (buddy_update bt i s)"
    using v assms by (simp_all add: get_buddy_tree_item_def set_buddy_tree_item_def)
  show "length (buddy_update bt i s) = 1024" using assms(1) by (simp add: buddy_update_def)
  show "1 \<le> j \<Longrightarrow> j \<le> 4096 \<Longrightarrow> buddy_item (buddy_update bt i s) j = (if i = j then s else buddy_item bt j)"
    by (rule buddy.get_set) (use v assms in auto)
qed

text \<open>Size and address of a node's block.\<close>

definition block_size :: "nat \<Rightarrow> nat" where
  "block_size n = 16384 * card (leaves n)"

definition block_ptr :: "chunk_t \<Rightarrow> nat \<Rightarrow> addr" where
  "block_ptr c n = key c + 16384 * (Min (leaves n) - 2048)"

lemma block_of:
  assumes "n \<in> lev L" "L \<le> 11"
  shows "block_size n = 16384 * 2 ^ (11 - L)" "block_ptr c n = key c + 16384 * (n * 2 ^ (11 - L) - 2048)"
    "2048 \<le> n * 2 ^ (11 - L)" "n * 2 ^ (11 - L) + 2 ^ (11 - L) \<le> 4096" "Min (leaves n) = n * 2 ^ (11 - L)"
proof -
  have le: "n * 2 ^ (11 - L) < Suc n * 2 ^ (11 - L)" by simp
  then have "Min {n * 2 ^ (11 - L) ..< Suc n * 2 ^ (11 - L)} = n * 2 ^ (11 - L)"
    by (intro Min_eqI) auto
  then show min: "Min (leaves n) = n * 2 ^ (11 - L)" unfolding leaves_block [OF assms] .
  show "block_size n = 16384 * 2 ^ (11 - L)" unfolding block_size_def leaves_block [OF assms] by simp
  show "block_ptr c n = key c + 16384 * (n * 2 ^ (11 - L) - 2048)" unfolding block_ptr_def min by (rule refl)
  have "2 ^ L * 2 ^ (11 - L) = (2048 :: nat)" using assms(2) by (simp flip: power_add)
  moreover have "2 ^ L * 2 ^ (11 - L) \<le> n * 2 ^ (11 - L)" "Suc n * 2 ^ (11 - L) \<le> 2 ^ Suc L * 2 ^ (11 - L)"
    using assms(1) by (intro mult_le_mono1; simp add: lev_def)+
  ultimately show "2048 \<le> n * 2 ^ (11 - L)" "n * 2 ^ (11 - L) + 2 ^ (11 - L) \<le> 4096" by simp_all
qed

subsection \<open>Initialisation\<close>

lemma init_levels_ok:
  assumes "length (jump_tree c) = 4095" "length (avail_nodes_count c) = 12" "length (jump_tree_first_index c) = 12"
    "i + n \<le> 12"
  shows "\<exists>c'. chunk_init_levels n i (2 ^ i) c = ret c' \<and> same_rest c c' \<and> length (jump_tree c') = 4095
     \<and> length (avail_nodes_count c') = 12 \<and> length (jump_tree_first_index c') = 12
     \<and> (\<forall>L. i \<le> L \<and> L < i + n \<longrightarrow> jump_tree_first_index c' ! L = 2 ^ L \<and> avail_nodes_count c' ! L = 2 ^ L)
     \<and> (\<forall>L. L < i \<longrightarrow> jump_tree_first_index c' ! L = jump_tree_first_index c ! L \<and> avail_nodes_count c' ! L = avail_nodes_count c ! L)
     \<and> (\<forall>k. 1 \<le> k \<and> k \<le> 4095 \<longrightarrow>
          prev (jview (jump_tree c') k) = (if \<exists>L. i \<le> L \<and> L < i + n \<and> k = 2 ^ L then 0 else prev (jview (jump_tree c) k))
        \<and> next (jview (jump_tree c') k) = (if \<exists>L. i \<le> L \<and> L < i + n \<and> k = 2 ^ Suc L - 1 then 0 else next (jview (jump_tree c) k)))"
  using assms
proof (induction n arbitrary: i c)
  case (Suc n)
  let ?l = "2 ^ i :: nat"
  have "(2 :: nat) ^ i \<le> 2 ^ 11" using Suc.prems(4) by (intro power_increasing) simp_all
  moreover have "(2 :: nat) ^ 11 = 2048" "(1 :: nat) \<le> 2 ^ i" by simp_all
  ultimately have l: "1 \<le> ?l" "?l \<le> 2048" "1 \<le> 2 * ?l - 1" "2 * ?l - 1 \<le> 4095" by linarith+
  define jt1 where "jt1 = (jump_tree c)[?l - 1 := (jview (jump_tree c) ?l)\<lparr>prev := 0\<rparr>]"
  define jt2 where "jt2 = jt1[2 * ?l - 1 - 1 := (jview jt1 (2 * ?l - 1))\<lparr>next := 0\<rparr>]"
  have len: "length jt1 = 4095" "length jt2 = 4095" using Suc.prems(1) by (simp_all add: jt1_def jt2_def)
  have s1: "set_jt_item_prev (jump_tree c) ?l 0 = ret jt1"
    using l Suc.prems(1) unfolding jt1_def by (intro jt_ops(3)) auto
  have "sub32 (2 * ?l) 1 = 2 * ?l - 1" using l by (simp add: wrap_simps)
  moreover have "set_jt_item_next jt1 (2 * ?l - 1) 0 = ret jt2"
    using l len unfolding jt2_def by (intro jt_ops(2)) auto
  ultimately have s2: "set_jt_item_next jt1 (sub32 (2 * ?l) 1) 0 = ret jt2" by metis
  have v1: "jview jt1 k = (if k = ?l then (jview (jump_tree c) ?l)\<lparr>prev := 0\<rparr> else jview (jump_tree c) k)" if "1 \<le> k" for k
    unfolding jt1_def using l Suc.prems(1) that by (intro jview_upd) auto
  have v2: "jview jt2 k = (if k = 2 * ?l - 1 then (jview jt1 (2 * ?l - 1))\<lparr>next := 0\<rparr> else jview jt1 k)" if "1 \<le> k" for k
    unfolding jt2_def using l len that by (intro jview_upd) auto
  have view: "prev (jview jt2 k) = (if k = ?l then 0 else prev (jview (jump_tree c) k))"
    "next (jview jt2 k) = (if k = 2 ^ Suc i - 1 then 0 else next (jview (jump_tree c) k))" if "1 \<le> k" for k
    using v1 v2 that l by (auto simp: v1 v2)
  let ?c1 = "c\<lparr>jump_tree_first_index := (jump_tree_first_index c)[i := ?l], jump_tree := jt2,
     avail_nodes_count := (avail_nodes_count c)[i := ?l]\<rparr>"
  have "\<exists>c'. chunk_init_levels n (Suc i) (2 ^ Suc i) ?c1 = ret c' \<and> same_rest ?c1 c' \<and> length (jump_tree c') = 4095
     \<and> length (avail_nodes_count c') = 12 \<and> length (jump_tree_first_index c') = 12
     \<and> (\<forall>L. Suc i \<le> L \<and> L < Suc i + n \<longrightarrow> jump_tree_first_index c' ! L = 2 ^ L \<and> avail_nodes_count c' ! L = 2 ^ L)
     \<and> (\<forall>L. L < Suc i \<longrightarrow> jump_tree_first_index c' ! L = jump_tree_first_index ?c1 ! L \<and> avail_nodes_count c' ! L = avail_nodes_count ?c1 ! L)
     \<and> (\<forall>k. 1 \<le> k \<and> k \<le> 4095 \<longrightarrow>
          prev (jview (jump_tree c') k) = (if \<exists>L. Suc i \<le> L \<and> L < Suc i + n \<and> k = 2 ^ L then 0 else prev (jview (jump_tree ?c1) k))
        \<and> next (jview (jump_tree c') k) = (if \<exists>L. Suc i \<le> L \<and> L < Suc i + n \<and> k = 2 ^ Suc L - 1 then 0 else next (jview (jump_tree ?c1) k)))"
    by (rule Suc.IH) (use Suc.prems len in auto)
  then obtain c' where run: "chunk_init_levels n (Suc i) (2 ^ Suc i) ?c1 = ret c'" and rest: "same_rest ?c1 c'"
    and len': "length (jump_tree c') = 4095" "length (avail_nodes_count c') = 12" "length (jump_tree_first_index c') = 12"
    and up: "\<And>L. Suc i \<le> L \<and> L < Suc i + n \<Longrightarrow> jump_tree_first_index c' ! L = 2 ^ L \<and> avail_nodes_count c' ! L = 2 ^ L"
    and down: "\<And>L. L < Suc i \<Longrightarrow> jump_tree_first_index c' ! L = jump_tree_first_index ?c1 ! L \<and> avail_nodes_count c' ! L = avail_nodes_count ?c1 ! L"
    and jv: "\<And>k. 1 \<le> k \<and> k \<le> 4095 \<Longrightarrow>
          prev (jview (jump_tree c') k) = (if \<exists>L. Suc i \<le> L \<and> L < Suc i + n \<and> k = 2 ^ L then 0 else prev (jview (jump_tree ?c1) k))
        \<and> next (jview (jump_tree c') k) = (if \<exists>L. Suc i \<le> L \<and> L < Suc i + n \<and> k = 2 ^ Suc L - 1 then 0 else next (jview (jump_tree ?c1) k))"
    by blast
  have "u16 (?l * 2) = 2 ^ Suc i" using l by (simp add: wrap_simps)
  then have "chunk_init_levels (Suc n) i ?l c = ret c'"
    using run s1 s2 Suc.prems by (simp add: arr_set_def)
  moreover have "same_rest c c'" using rest by (simp add: same_rest_def)
  moreover have "jump_tree_first_index c' ! L = 2 ^ L \<and> avail_nodes_count c' ! L = 2 ^ L" if "i \<le> L \<and> L < i + Suc n" for L
    using that up [of L] down [of L] Suc.prems by (cases "L = i") auto
  moreover have "jump_tree_first_index c' ! L = jump_tree_first_index c ! L \<and> avail_nodes_count c' ! L = avail_nodes_count c ! L"
    if "L < i" for L using that down [of L] by simp
  moreover have "prev (jview (jump_tree c') k) = (if \<exists>L. i \<le> L \<and> L < i + Suc n \<and> k = 2 ^ L then 0 else prev (jview (jump_tree c) k))
     \<and> next (jview (jump_tree c') k) = (if \<exists>L. i \<le> L \<and> L < i + Suc n \<and> k = 2 ^ Suc L - 1 then 0 else next (jview (jump_tree c) k))"
    if k: "1 \<le> k \<and> k \<le> 4095" for k
  proof -
    have ex: "(\<exists>L. i \<le> L \<and> L < i + Suc n \<and> P L) \<longleftrightarrow> P i \<or> (\<exists>L. Suc i \<le> L \<and> L < Suc i + n \<and> P L)" for P
      by (metis Suc_le_eq add_Suc add_Suc_right le_eq_less_or_eq le_refl less_add_Suc1)
    have or: "(if Q \<or> E then 0 else x) = (if E then 0 else if Q then 0 else x)" for Q E and x :: nat by simp
    have c1: "jump_tree ?c1 = jt2" by simp
    have k1: "1 \<le> k" using k by simp
    note jk = jv [OF k, unfolded c1 view(1) [OF k1] view(2) [OF k1]]
    show ?thesis unfolding ex or by (rule jk)
  qed
  ultimately show ?case using len' by blast
qed (auto simp: same_rest_def)

lemma gseg_upt:
  assumes "1 \<le> l" "l < r"
    and f: "\<And>k. l \<le> k \<Longrightarrow> k < r \<Longrightarrow> prev (f k) = (if k = l then (if p = 0 then 0 else l - p) else 1) \<and> next (f k) = (if k = r - 1 then 0 else 1)"
  shows "gseg f p [l..<r] 0"
  using assms
proof (induction "r - l" arbitrary: l p)
  case (Suc d)
  show ?case
  proof (cases "Suc l = r")
    case True
    then show ?thesis using Suc.prems(3) [of l] by (auto simp: upt_conv_Cons)
  next
    case False
    then have lt: "Suc l < r" using Suc.prems(2) by simp
    have "gseg f l [Suc l..<r] 0"
    proof (rule Suc.hyps(1))
      show "prev (f k) = (if k = Suc l then (if l = 0 then 0 else Suc l - l) else 1) \<and> next (f k) = (if k = r - 1 then 0 else 1)"
        if "Suc l \<le> k" "k < r" for k
        using Suc.prems(1) Suc.prems(3) [of k] that by auto
    qed (use Suc.hyps(2) lt in auto)
    then show ?thesis using Suc.prems(3) [of l] lt by (simp add: upt_conv_Cons [of l] upt_conv_Cons [of "Suc l"])
  qed
qed simp

lemma lvl_rep_full:
  assumes "1 \<le> L"
    and f: "\<And>k. k \<in> lev L \<Longrightarrow> prev (f k) = (if k = 2 ^ L then 0 else 1) \<and> next (f k) = (if k = 2 ^ Suc L - 1 then 0 else 1)"
  shows "lvl_rep f (lev L) (2 ^ L) (2 ^ L)"
proof -
  have lt: "(1 :: nat) \<le> 2 ^ L" "(2 :: nat) ^ L < 2 ^ Suc L" by simp_all
  have "gseg f 0 [2 ^ L..<2 ^ Suc L] 0"
    by (rule gseg_upt [OF lt]) (use f in \<open>auto simp: lev_def\<close>)
  moreover have "hd [2 ^ L..<2 ^ Suc L] = (2 :: nat) ^ L" "[(2 :: nat) ^ L..<2 ^ Suc L] \<noteq> []"
    using lt(2) by (simp_all only: upt_conv_Cons list.sel(1)) simp
  ultimately show ?thesis
    unfolding lvl_rep_def by (intro exI [of _ "[2 ^ L..<2 ^ Suc L]"]) (auto simp: lev_def)
qed

lemma avail_level: "L \<le> 11 \<Longrightarrow> avail {} \<inter> lev L = (if L = 0 then {} else lev L)"
proof -
  assume "L \<le> 11"
  then have "n \<in> lev L \<Longrightarrow> 2 \<le> n \<and> n \<le> 4095" if "L \<noteq> 0" for n
    using lev_bounds [of n L] lev_disjoint [of L 0] that by (cases "n = 1") (auto simp: lev_0)
  then show ?thesis by (auto simp: avail_def lev_0)
qed

lemma chunk_init_ok:
  assumes "length (avail_nodes_count c) = 12" "length (jump_tree_first_index c) = 12" "length (buddy_tree c) = 1024"
    "0 < heap" "heap + CHUNK_SIZE_BYTES < 2 ^ 64"
  shows "\<exists>c'. chunk_init c heap = ret c' \<and> key c' = heap \<and> fd c' = 0 \<and> bk c' = 0 \<and> chunk_inv c' Map.empty {}"
proof -
  define c0 where "c0 = c\<lparr>key := heap, fd := 0, bk := 0,
                reg_size_small_medium := replicate CHUNK_NO_NODES_LAST_LAYER REG_MARK_BAD_VALUE,
                buddy_tree := replicate CHUNK_BUDDY_TREE_SIZE_BYTES 0,
                jump_tree := replicate CHUNK_NO_NODES \<lparr>prev = 1, next = 1\<rparr>\<rparr>"
  have "\<exists>c'. chunk_init_levels 12 0 (2 ^ 0) c0 = ret c' \<and> same_rest c0 c' \<and> length (jump_tree c') = 4095
     \<and> length (avail_nodes_count c') = 12 \<and> length (jump_tree_first_index c') = 12
     \<and> (\<forall>L. 0 \<le> L \<and> L < 0 + 12 \<longrightarrow> jump_tree_first_index c' ! L = 2 ^ L \<and> avail_nodes_count c' ! L = 2 ^ L)
     \<and> (\<forall>L. L < 0 \<longrightarrow> jump_tree_first_index c' ! L = jump_tree_first_index c0 ! L \<and> avail_nodes_count c' ! L = avail_nodes_count c0 ! L)
     \<and> (\<forall>k. 1 \<le> k \<and> k \<le> 4095 \<longrightarrow>
          prev (jview (jump_tree c') k) = (if \<exists>L. 0 \<le> L \<and> L < 0 + 12 \<and> k = 2 ^ L then 0 else prev (jview (jump_tree c0) k))
        \<and> next (jview (jump_tree c') k) = (if \<exists>L. 0 \<le> L \<and> L < 0 + 12 \<and> k = 2 ^ Suc L - 1 then 0 else next (jview (jump_tree c0) k)))"
    by (rule init_levels_ok) (simp_all add: c0_def chunk_consts assms)
  then obtain c1 where run: "chunk_init_levels 12 0 1 c0 = ret c1" and rest: "same_rest c0 c1"
    and len: "length (jump_tree c1) = 4095" "length (avail_nodes_count c1) = 12" "length (jump_tree_first_index c1) = 12"
    and arr: "\<And>L. L < 12 \<Longrightarrow> jump_tree_first_index c1 ! L = 2 ^ L \<and> avail_nodes_count c1 ! L = 2 ^ L"
    and jv: "\<And>k. 1 \<le> k \<and> k \<le> 4095 \<Longrightarrow>
          prev (jview (jump_tree c1) k) = (if \<exists>L. L < 12 \<and> k = 2 ^ L then 0 else prev (jview (jump_tree c0) k))
        \<and> next (jview (jump_tree c1) k) = (if \<exists>L. L < 12 \<and> k = 2 ^ Suc L - 1 then 0 else next (jview (jump_tree c0) k))"
    by (auto simp del: One_nat_def)
  have one: "prev (jview (jump_tree c0) k) = 1 \<and> next (jview (jump_tree c0) k) = 1" if "1 \<le> k" "k \<le> 4095" for k
    using that by (simp add: c0_def jview_def chunk_consts)
  have nodes: "prev (jview (jump_tree c1) k) = (if k = 2 ^ L then 0 else 1) \<and> next (jview (jump_tree c1) k) = (if k = 2 ^ Suc L - 1 then 0 else 1)"
    if k: "k \<in> lev L" and L: "L \<le> 11" for k L
  proof -
    have uniq: "M = L" if "k \<in> lev M" for M using that k lev_disjoint by blast
    have "2 ^ M \<in> lev M" "2 ^ Suc M - 1 \<in> lev M" for M
    proof -
      have "(1 :: nat) \<le> 2 ^ M" by simp
      then show "2 ^ M \<in> lev M" "2 ^ Suc M - 1 \<in> lev M" unfolding lev_def power_Suc atLeastLessThan_iff by linarith+
    qed
    note ends = this
    have L12: "L < 12" using L by simp
    have ex: "(\<exists>M. M < 12 \<and> k = 2 ^ M) \<longleftrightarrow> k = 2 ^ L"
      using ends(1) uniq L12 by metis
    have ex': "(\<exists>M. M < 12 \<and> k = 2 ^ Suc M - 1) \<longleftrightarrow> k = 2 ^ Suc L - 1"
      using ends(2) uniq L12 by metis
    have kb: "1 \<le> k" "k \<le> 4095" using lev_bounds [OF k L] by auto
    then show ?thesis using jv [of k, unfolded ex ex' one [OF kb, THEN conjunct1] one [OF kb, THEN conjunct2]] by blast
  qed
  define c' where "c' = c1\<lparr>avail_nodes_count := (avail_nodes_count c1)[0 := 0], jump_tree_first_index := (jump_tree_first_index c1)[0 := 0]\<rparr>"
  have "jump_tree_first_index c1 \<noteq> []" "avail_nodes_count c1 \<noteq> []" using len by auto
  then have "chunk_init c heap = ret c'"
    using run len assms(3)
    by (simp add: chunk_init_def buddy_ops chunk_consts arr_set_def c'_def Let_def c0_def)
  moreover have jump: "jump_ok c' (avail {}) ({1..4095} - avail {})"
  proof -
    have "lvl_rep (jview (jump_tree c1)) (avail {} \<inter> lev L) (jump_tree_first_index c' ! L) (avail_nodes_count c' ! L)" if L: "L \<le> 11" for L
    proof (cases "L = 0")
      case True
      then show ?thesis using avail_level [OF L] len by (simp add: c'_def lvl_rep_def)
    next
      case False
      then have "lvl_rep (jview (jump_tree c1)) (lev L) (2 ^ L) (2 ^ L)"
        using nodes L by (intro lvl_rep_full) auto
      then show ?thesis using avail_level [OF L] len False arr [of L] L by (simp add: c'_def)
    qed
    moreover have root: "{1..4095} - avail {} = {1}" by (auto simp: avail_def)
    moreover have "jview (jump_tree c1) 1 = no_links"
      using nodes [of 1 0] by (auto simp: lev_0 no_links_def)
    moreover have "avail {} \<subseteq> {1..4095}" by (auto simp: avail_def)
    ultimately show ?thesis using len unfolding jump_ok_def root by (simp add: c'_def)
  qed
  moreover have "chunk_inv c' Map.empty {}"
  proof (rule chunk_invI)
    show "buddy_item (buddy_tree c') i = node_state Map.empty {} i" if "1 \<le> i" "i \<le> 4095" for i
    proof -
      have "leaves i \<noteq> {}" using leaves_nonempty that by blast
      moreover have "buddy_item (buddy_tree c') i = NODE_FREE"
        using rest that by (simp add: c'_def same_rest_def c0_def chunk_consts buddy_item_def bits2_get_def chunk_node_of_def)
      ultimately show ?thesis by (simp add: node_state_def taken_def)
    qed
  qed (use rest assms(4,5) jump in \<open>auto simp: c'_def same_rest_def c0_def chunk_consts REG_MARK_BAD_VALUE_def taken_def\<close>)
  moreover have "key c' = heap \<and> fd c' = 0 \<and> bk c' = 0" using rest by (simp add: c'_def same_rest_def c0_def)
  ultimately show ?thesis by blast
qed

end
