(* ===== verification/Chunk_Alloc.thy ===== *)
theory Chunk_Alloc
  imports Chunk_Spec
begin

text \<open>
  Allocation from a chunk (\<open>chunk_allocate_run\<close> in \<open>src/src/chunk.c\<close>): the random choice of
  a node among those still available on its level, the update of both trees, and what the
  caller gets.
\<close>

subsection \<open>Choosing a node\<close>

lemma gseg_nth:
  "gseg f p xs q \<Longrightarrow> Suc i < length xs \<Longrightarrow> 0 \<notin> set xs \<Longrightarrow> next (f (xs ! i)) = xs ! Suc i - xs ! i"
proof (induction xs arbitrary: p i)
  case (Cons x xs)
  then show ?case by (cases i) (auto simp: Let_def hd_conv_nth split: if_splits)
qed simp

lemma level_list:
  assumes "jump_ok c F Z" "L \<le> 11"
  obtains xs where "sorted_wrt (<) xs" "set xs = F \<inter> lev L" "gseg (jview (jump_tree c)) 0 xs 0"
    "jump_tree_first_index c ! L = (if xs = [] then 0 else hd xs)" "avail_nodes_count c ! L = length xs"
    "xs = sorted_list_of_set (F \<inter> lev L)"
proof -
  obtain xs where xs: "sorted_wrt (<) xs" "set xs = F \<inter> lev L" "gseg (jview (jump_tree c)) 0 xs 0"
    "jump_tree_first_index c ! L = (if xs = [] then 0 else hd xs)" "avail_nodes_count c ! L = length xs"
    using jump_okD(5) [OF assms] by (auto simp: lvl_rep_def)
  moreover have "xs = sorted_list_of_set (F \<inter> lev L)"
    using xs(1,2) by (metis finite_set sorted_list_of_set_unique strict_sorted_iff distinct_card)
  ultimately show ?thesis using that by blast
qed

lemma walk_free_ok:
  assumes "length (jump_tree c) = 4095" "gseg (jview (jump_tree c)) 0 xs 0" "sorted_wrt (<) xs"
    "set xs \<subseteq> {1..4095}"
  shows "i + k < length xs \<Longrightarrow>
    walk_free c k (xs ! i) (jview (jump_tree c) (xs ! i)) = ret (xs ! (i + k), jview (jump_tree c) (xs ! (i + k)))"
proof (induction k arbitrary: i)
  case (Suc k)
  have z: "0 \<notin> set xs" using assms(4) by auto
  have "xs ! i < xs ! Suc i" using assms(3) Suc.prems by (simp add: sorted_wrt_iff_nth_less)
  moreover have "xs ! Suc i \<in> set xs" using Suc.prems by simp
  then have in_range: "1 \<le> xs ! Suc i" "xs ! Suc i \<le> 4095" using assms(4) by auto
  ultimately have "u32 (xs ! i + next (jview (jump_tree c) (xs ! i))) = xs ! Suc i"
    using gseg_nth [OF assms(2) _ z, of i] Suc.prems by (simp add: wrap_simps)
  moreover have "get_jt_item (jump_tree c) (xs ! Suc i) = ret (jview (jump_tree c) (xs ! Suc i))"
    using in_range assms(1) by (intro jt_ops(1)) auto
  ultimately show ?case using Suc.IH [of "Suc i"] Suc.prems by simp
qed simp

lemma random_tries_ok:
  assumes ok: "jump_ok c F ({1..4095} - F)" and L: "L \<le> 11"
  shows "\<exists>hit g'. random_tries n c (2 ^ L) g = ret (hit, g')
     \<and> (\<forall>idx node. hit = Some (idx, node) \<longrightarrow> idx \<in> F \<inter> lev L \<and> node = jview (jump_tree c) idx)"
proof (induction n arbitrary: g)
  case (Suc n)
  obtain r g1 where r: "splitmix32 g = (r, g1)" by force
  let ?i = "2 ^ L + unat r mod 2 ^ L"
  have i: "?i \<in> lev L" by (simp add: lev_def)
  note ib = lev_bounds [OF i L]
  have get: "get_jt_item (jump_tree c) ?i = ret (jview (jump_tree c) ?i)"
    using ib jump_okD(1) [OF ok] by (intro jt_ops(1)) auto
  show ?case
  proof (cases "prev (jview (jump_tree c) ?i) \<noteq> 0 \<or> next (jview (jump_tree c) ?i) \<noteq> 0")
    case True
    have "?i \<in> F"
    proof (rule ccontr)
      assume "?i \<notin> F"
      then have "jview (jump_tree c) ?i = no_links" using jump_okD(6) [OF ok, of ?i] ib by simp
      then show False using True by (simp add: no_links_def)
    qed
    then show ?thesis using True get i r
      by (intro exI [of _ "Some (?i, jview (jump_tree c) ?i)"] exI [of _ g1]) (simp add: Let_def)
  next
    case False
    then show ?thesis using get r Suc.IH [of g1] by simp
  qed
qed simp

lemma pick_node_ok:
  assumes ok: "jump_ok c F ({1..4095} - F)" and L: "L \<le> 11" and ne: "F \<inter> lev L \<noteq> {}"
  shows "\<exists>idx g'. pick_node c L (avail_nodes_count c ! L) g = ret ((idx, jview (jump_tree c) idx), g')
     \<and> idx \<in> F \<inter> lev L"
    and "card (F \<inter> lev L) * 100 div 2 ^ L \<le> RANDOM_LOOKUP_TRESHOLD_PERCENTAGE \<Longrightarrow>
       \<exists>node. pick_node c L (avail_nodes_count c ! L) g =
         ret ((sorted_list_of_set (F \<inter> lev L) ! (unat (fst (splitmix32 g)) mod card (F \<inter> lev L)), node), snd (splitmix32 g))"
proof -
  obtain xs where xs: "sorted_wrt (<) xs" "set xs = F \<inter> lev L" "gseg (jview (jump_tree c)) 0 xs 0"
    "jump_tree_first_index c ! L = (if xs = [] then 0 else hd xs)" "avail_nodes_count c ! L = length xs"
    "xs = sorted_list_of_set (F \<inter> lev L)" by (rule level_list [OF ok L])
  have F: "set xs \<subseteq> {1..4095}" using xs(2) jump_okD(4) [OF ok] by auto
  have card: "card (F \<inter> lev L) = length xs" using xs(1,2) by (metis strict_sorted_iff distinct_card)
  have ne': "xs \<noteq> []" using ne xs(2) by auto
  have first: "arr_get (jump_tree_first_index c) L = ret (xs ! 0)"
    using jump_okD(3) [OF ok] L xs(4) ne' by (simp add: arr_get_def hd_conv_nth)
  have "xs ! 0 \<in> set xs" using ne' by simp
  then have get: "get_jt_item (jump_tree c) (xs ! 0) = ret (jview (jump_tree c) (xs ! 0))"
    using F jump_okD(1) [OF ok] by (intro jt_ops(1)) auto
  have walk: "walk_free c (unat r mod length xs) (xs ! 0) (jview (jump_tree c) (xs ! 0)) =
      ret (xs ! (unat r mod length xs), jview (jump_tree c) (xs ! (unat r mod length xs)))" for r :: "32 word"
    using walk_free_ok [OF jump_okD(1) [OF ok] xs(3,1) F, of 0 "unat r mod length xs"] ne' by simp
  show "\<exists>idx g'. pick_node c L (avail_nodes_count c ! L) g = ret ((idx, jview (jump_tree c) idx), g')
     \<and> idx \<in> F \<inter> lev L"
  proof -
    obtain hit g1 where hit: "(if RANDOM_LOOKUP_TRESHOLD_PERCENTAGE < length xs * 100 div 2 ^ L
             then random_tries RANDOM_LOOKUP_TRIES c (2 ^ L) g else ret (None, g)) = ret (hit, g1)"
      "\<And>idx node. hit = Some (idx, node) \<Longrightarrow> idx \<in> F \<inter> lev L \<and> node = jview (jump_tree c) idx"
      using random_tries_ok [OF ok L, of RANDOM_LOOKUP_TRIES g] by (cases "RANDOM_LOOKUP_TRESHOLD_PERCENTAGE < length xs * 100 div 2 ^ L") auto
    show ?thesis
    proof (cases hit)
      case None
      obtain r g2 where r: "splitmix32 g1 = (r, g2)" by force
      have "xs ! (unat r mod length xs) \<in> F \<inter> lev L" using ne' xs(2) nth_mem by fastforce
      moreover have "pick_node c L (avail_nodes_count c ! L) g =
          ret ((xs ! (unat r mod length xs), jview (jump_tree c) (xs ! (unat r mod length xs))), g2)"
        unfolding pick_node_def Let_def xs(5) hit(1) by (simp add: None r first get walk)
      ultimately show ?thesis by blast
    next
      case (Some y)
      obtain idx node where y: "y = (idx, node)" by force
      have "pick_node c L (avail_nodes_count c ! L) g = ret ((idx, node), g1)"
        unfolding pick_node_def Let_def xs(5) hit(1) by (simp add: Some y)
      then show ?thesis using hit(2) [of idx node] Some y by blast
    qed
  qed
  show "\<exists>node. pick_node c L (avail_nodes_count c ! L) g =
         ret ((sorted_list_of_set (F \<inter> lev L) ! (unat (fst (splitmix32 g)) mod card (F \<inter> lev L)), node), snd (splitmix32 g))"
    if "card (F \<inter> lev L) * 100 div 2 ^ L \<le> RANDOM_LOOKUP_TRESHOLD_PERCENTAGE"
  proof -
    obtain r g2 where r: "splitmix32 g = (r, g2)" by force
    have "\<not> RANDOM_LOOKUP_TRESHOLD_PERCENTAGE < length xs * 100 div 2 ^ L" using that card by simp
    then show ?thesis unfolding pick_node_def Let_def xs(5) card xs(6) [symmetric] by (simp add: r first get walk)
  qed
qed

subsection \<open>Allocating the node\<close>

lemma taken_insert: "taken (insert n N) = leaves n \<union> taken N"
  by (auto simp: taken_def)

lemma leaf_iff: "n \<in> lev L \<Longrightarrow> L \<le> 11 \<Longrightarrow> CHUNK_IS_LEAF n \<longleftrightarrow> L = 11"
proof -
  assume n: "n \<in> lev L" "L \<le> 11"
  have "n < 2048" if "L \<noteq> 11"
  proof -
    have "(2 :: nat) ^ Suc L \<le> 2 ^ 11" using n(2) that by (intro power_increasing) auto
    moreover have "(2 :: nat) ^ 11 = 2048" by simp
    moreover have "n < 2 ^ Suc L" using n(1) unfolding lev_def by auto
    ultimately show ?thesis by linarith
  qed
  moreover have "2048 \<le> n" if "L = 11" using n(1) that by (simp add: lev_def)
  ultimately show ?thesis unfolding CHUNK_IS_LEAF_def chunk_consts by (cases "L = 11") auto
qed

lemma deep_strict: "1 \<le> n \<Longrightarrow> n \<notin> deep n 1"
proof
  assume n: "1 \<le> n" "n \<in> deep n 1"
  then obtain i where "n div 2 ^ i = n" "1 \<le> i" by (auto simp: deep_def)
  then obtain j where "n div 2 div 2 ^ j = n" by (cases i) (auto simp: div_mult2_eq)
  then have "n \<le> n div 2" by (metis div_le_dividend)
  then show False using n(1) by simp
qed

lemma fresh_node:
  assumes inv: "chunk_inv c A D" and n: "n \<in> avail (taken (dom A \<union> D))"
  shows "n \<notin> dom A" "n \<notin> D" "m \<in> dom A \<union> D \<Longrightarrow> leaves n \<inter> leaves m = {}" "n \<in> {2..4095}"
proof -
  have bounds: "2 \<le> n" "n \<le> 4095" and disj: "leaves n \<inter> taken (dom A \<union> D) = {}" using n by (auto simp: avail_def)
  show d: "m \<in> dom A \<union> D \<Longrightarrow> leaves n \<inter> leaves m = {}" for m using disj unfolding taken_def by blast
  have "leaves n \<noteq> {}" using leaves_nonempty bounds by simp
  then show "n \<notin> dom A" "n \<notin> D" using d [of n] by auto
  show "n \<in> {2..4095}" using bounds by simp
qed

lemma node_state_alloc:
  "node_state (A(n \<mapsto> r)) D i = (if i = n then NODE_USED else node_state A D i)"
  by (auto simp: node_state_def)

text \<open>The invariant after the jump tree, the buddy tree and the region sizes are updated.\<close>

lemma chunk_inv_alloc:
  assumes inv: "chunk_inv c A D" and n: "n \<in> avail (taken (dom A \<union> D))" "n \<in> lev L" "L \<le> 11"
    and r: "L = 11 \<Longrightarrow> r < REG_MARK_BAD_VALUE"
    and jump: "jump_ok c1 (avail (taken (dom A \<union> D)) - anc n - deep n 1) ({1..4095} - (avail (taken (dom A \<union> D)) - anc n - deep n 1))"
    and rest: "key c1 = key c" "buddy_tree c1 = buddy_update (buddy_tree c) n NODE_USED"
      "reg_size_small_medium c1 = (if CHUNK_IS_LEAF n \<and> r \<noteq> CHUNK_LEAST_REGION_SIZE_BYTES
         then (reg_size_small_medium c)[n - 2048 := r] else reg_size_small_medium c)"
  shows "chunk_inv c1 (A(n \<mapsto> r)) D"
proof (rule chunk_invI)
  note I = chunk_invD [OF inv] and fresh = fresh_node [OF inv n(1)]
  have dom: "dom (A(n \<mapsto> r)) \<union> D = insert n (dom A \<union> D)" by auto
  show "0 < key c1" "key c1 + 33554432 < 18446744073709551616" using I(1,2) rest by simp_all
  show "dom (A(n \<mapsto> r)) \<union> D \<subseteq> {2..4095}" "dom (A(n \<mapsto> r)) \<inter> D = {}" using I(3,4) fresh by auto
  show "leaves i \<inter> leaves j = {}" if "i \<in> dom (A(n \<mapsto> r)) \<union> D" "j \<in> dom (A(n \<mapsto> r)) \<union> D" "i \<noteq> j" for i j
    using that fresh(3) I(5) unfolding dom by blast
  have nb: "n \<in> {1..4095}" using fresh(4) by simp
  show "jump_ok c1 (avail (taken (dom (A(n \<mapsto> r)) \<union> D))) ({1..4095} - avail (taken (dom (A(n \<mapsto> r)) \<union> D)))"
    using jump unfolding avail_take [OF nb] dom taken_insert by (simp only: Un_commute)
  show "length (buddy_tree c1) = 1024" using buddy_ops(3) [OF I(7)] rest nb by simp
  show "buddy_item (buddy_tree c1) i = node_state (A(n \<mapsto> r)) D i" if "1 \<le> i" "i \<le> 4095" for i
    using buddy_ops(4) [OF I(7), of n i NODE_USED] I(8) [of i] that nb rest(2) by (simp add: node_state_alloc)
  show "length (reg_size_small_medium c1) = 2048" using I(9) rest by simp
  show "reg_size_small_medium c1 ! k = (case (A(n \<mapsto> r)) (k + 2048) of
             Some r \<Rightarrow> if r = 16384 then 65535 else r | None \<Rightarrow> 65535)" if k: "k < 2048" "k + 2048 \<notin> D" for k
  proof (cases "k + 2048 = n")
    case True
    have "A (k + 2048) = None" using fresh(1) True by auto
    then have "reg_size_small_medium c ! k = 65535" using I(10) [OF k] by simp
    then show ?thesis using True k rest(3) I(9) by (auto simp: CHUNK_IS_LEAF_def chunk_consts)
  next
    case False
    have "reg_size_small_medium c1 ! k = reg_size_small_medium c ! k"
      using False rest(3) by (auto simp: CHUNK_IS_LEAF_def chunk_consts)
    then show ?thesis using I(10) [OF k] False by simp
  qed
  show "s < 65535" if "(A(n \<mapsto> r)) i = Some s" "2048 \<le> i" for i s
    using that I(11) [of i s] r leaf_iff [OF n(2,3)] by (auto simp: CHUNK_IS_LEAF_def chunk_consts REG_MARK_BAD_VALUE_def split: if_splits)
qed

lemma allocate_with_node_ok:
  assumes inv: "chunk_inv c A D" and n: "n \<in> avail (taken (dom A \<union> D))" "n \<in> lev L" "L \<le> 11"
    and r: "L = 11 \<Longrightarrow> r < REG_MARK_BAD_VALUE"
  shows "\<exists>c'. chunk_allocate_with_node c (jview (jump_tree c) n) n L r = ret (block_ptr c n, c')
     \<and> chunk_inv c' (A(n \<mapsto> r)) D \<and> key c' = key c \<and> fd c' = fd c \<and> bk c' = bk c"
proof -
  let ?T = "taken (dom A \<union> D)"
  note I = chunk_invD [OF inv]
  have nb: "2 \<le> n" "n \<le> 4095" using n(1) by (auto simp: avail_def)
  have "\<exists>c'. unlink_up c (jview (jump_tree c) n) n L = ret c'
     \<and> jump_ok c' (avail ?T - range (\<lambda>j. n div 2 ^ j)) ({1..4095} - (avail ?T - range (\<lambda>j. n div 2 ^ j))) \<and> same_rest c c'"
    by (rule unlink_up_ok [OF I(6) n(3,2)]) (use avail_anc [OF _ _ nb(2)] in \<open>auto simp: avail_def\<close>)
  then obtain c1 where c1: "unlink_up c (jview (jump_tree c) n) n L = ret c1"
    "jump_ok c1 (avail ?T - anc n) ({1..4095} - (avail ?T - anc n))" "same_rest c c1" unfolding anc_def by blast
  note same = c1(3) [unfolded same_rest_def]
  have set: "set_buddy_tree_item (buddy_tree c) n s = ret (buddy_update (buddy_tree c) n s)" for s
    using buddy_ops(2) [OF I(7)] nb by simp
  have addr: "u64 (key c + u32 (m * 16384)) = key c + 16384 * m" if "m \<le> 2048" for m
    using that I(2) by (simp add: wrap_simps mult.commute)
  show ?thesis
  proof (cases "L = 11")
    case True
    then have leaf: "CHUNK_IS_LEAF n" and n2: "2048 \<le> n" using leaf_iff [OF n(2,3)] by (auto simp: CHUNK_IS_LEAF_def chunk_consts)
    have idx: "sub32 n (2 ^ L) = n - 2048" using n2 nb True by (simp add: wrap_simps)
    have avail: "avail ?T - anc n = avail ?T - anc n - deep n 1"
      using deep_beyond [OF n(2), of 1] True unfolding avail_def by auto
    have ptr: "block_ptr c n = key c + 16384 * (n - 2048)" using block_of(2) [OF n(2,3), of c] True by simp
    define rs where "rs = (if r \<noteq> CHUNK_LEAST_REGION_SIZE_BYTES then (reg_size_small_medium c)[n - 2048 := r] else reg_size_small_medium c)"
    let ?c' = "c1\<lparr>reg_size_small_medium := rs, buddy_tree := buddy_update (buddy_tree c) n NODE_USED\<rparr>"
    have small: "n - 2048 < 2048" "n - 2048 \<le> 2048" using nb by auto
    have "u16 r = r" using r True by (simp add: wrap_simps REG_MARK_BAD_VALUE_def)
    then have "chunk_allocate_with_node c (jview (jump_tree c) n) n L r = ret (block_ptr c n, ?c')"
      using c1(1) leaf idx same set addr [of "n - 2048"] small I(9)
      by (simp add: chunk_allocate_with_node_def arr_set_def rs_def ptr chunk_consts)
    moreover have "chunk_inv ?c' (A(n \<mapsto> r)) D"
    proof (rule chunk_inv_alloc [OF inv n r])
      have "jump_ok ?c' F Z = jump_ok c1 F Z" for F Z by (simp add: jump_ok_def)
      then show "jump_ok ?c' (avail ?T - anc n - deep n 1) ({1..4095} - (avail ?T - anc n - deep n 1))"
        using c1(2) avail by simp
    qed (use same leaf in \<open>auto simp: rs_def\<close>)
    ultimately show ?thesis using same by auto
  next
    case False
    then have L: "L \<le> 10" and leaf: "\<not> CHUNK_IS_LEAF n" using n(3) leaf_iff [OF n(2,3)] by auto
    have sub: "deep n 1 \<inter> {1..4095} \<subseteq> avail ?T - anc n"
    proof
      fix k assume k: "k \<in> deep n 1 \<inter> {1..4095}"
      then have b: "k \<in> below n" "k \<noteq> n" using deep_split [of n] deep_strict [of n] nb by auto
      then have "k \<in> avail ?T" using avail_below [OF n(1)] k by simp
      moreover have "k \<notin> anc n"
      proof
        assume "k \<in> anc n"
        then have "k \<le> n" "n \<le> k" using below_ge b(1) unfolding anc_iff by auto
        then show False using b(2) by simp
      qed
      ultimately show "k \<in> avail ?T - anc n" by blast
    qed
    obtain c2 jt where c2: "unlink_down c1 (u32 (n * 2)) (u32 (n * 2 + 1)) 2 (L + 1) = ret c2"
      "purge_down (jump_tree c2) (u32 (n * 2)) 2 (L + 1) = ret jt"
      "jump_ok (c2\<lparr>jump_tree := jt\<rparr>) (avail ?T - anc n - deep n 1) ({1..4095} - (avail ?T - anc n - deep n 1))"
      "same_rest c1 c2" using unlink_subtree_ok [OF c1(2) n(2) L sub] by blast
    note same2 = c2(4) [unfolded same_rest_def]
    let ?c' = "c2\<lparr>jump_tree := jt, buddy_tree := buddy_update (buddy_tree c) n NODE_USED\<rparr>"
    note blk = block_of [OF n(2,3)]
    have small: "n * 2 ^ (11 - L) - 2048 \<le> 2048" using blk(4) by linarith
    have off: "sub32 (get_leftmost_idx n (CHUNK_BUDDY_TREE_DEPTH - L)) ((CHUNK_NO_NODES + 1) div 2) = n * 2 ^ (11 - L) - 2048"
      using blk(3,4) by (simp add: get_leftmost_idx_def chunk_consts wrap_simps)
    have "chunk_allocate_with_node c (jview (jump_tree c) n) n L r = ret (block_ptr c n, ?c')"
      using c1(1) c2(1,2) leaf off same same2 set addr [OF small] blk(2) [of c]
      by (simp add: chunk_allocate_with_node_def Let_def chunk_consts(2))
    moreover have "chunk_inv ?c' (A(n \<mapsto> r)) D"
    proof (rule chunk_inv_alloc [OF inv n r])
      have "jump_ok ?c' F Z = jump_ok (c2\<lparr>jump_tree := jt\<rparr>) F Z" for F Z by (simp add: jump_ok_def)
      then show "jump_ok ?c' (avail ?T - anc n - deep n 1) ({1..4095} - (avail ?T - anc n - deep n 1))"
        using c2(3) by simp
    qed (use same same2 leaf in auto)
    ultimately show ?thesis using same same2 by auto
  qed
qed

subsection \<open>What the caller gets\<close>

definition block_range :: "chunk_t \<Rightarrow> nat \<Rightarrow> addr set" where
  "block_range c n = {block_ptr c n ..< block_ptr c n + block_size n}"

lemma block_range_disjoint:
  assumes "m \<in> {1..4095}" "n \<in> {1..4095}" "leaves m \<inter> leaves n = {}"
  shows "block_range c m \<inter> block_range c n = {}"
proof -
  obtain M N where M: "m \<in> lev M" "M \<le> 11" and N: "n \<in> lev N" "N \<le> 11" using level_of [of m] level_of [of n] assms(1,2) by auto
  define a x b y where "a = m * 2 ^ (11 - M)" "x = (2 :: nat) ^ (11 - M)" "b = n * 2 ^ (11 - N)" "y = (2 :: nat) ^ (11 - N)"
  note defs = this
  have lv: "leaves m = {a ..< a + x}" "leaves n = {b ..< b + y}"
    using leaves_block [OF M] leaves_block [OF N] by (simp_all add: defs add.commute)
  have br: "block_range c m = {key c + 16384 * (a - 2048) ..< key c + 16384 * (a - 2048) + 16384 * x}"
    "block_range c n = {key c + 16384 * (b - 2048) ..< key c + 16384 * (b - 2048) + 16384 * y}"
    using block_of(1,2) [OF M] block_of(1,2) [OF N] by (simp_all add: block_range_def defs)
  have low: "2048 \<le> a" "2048 \<le> b" "0 < x" "0 < y" using block_of(3) [OF M] block_of(3) [OF N] by (simp_all add: defs)
  have "a + x \<le> b \<or> b + y \<le> a"
  proof (rule ccontr)
    assume "\<not> (a + x \<le> b \<or> b + y \<le> a)"
    then have "max a b \<in> leaves m \<inter> leaves n" using low(3,4) unfolding lv by auto
    then show False using assms(3) by blast
  qed
  then have "16384 * (a - 2048) + 16384 * x \<le> 16384 * (b - 2048) \<or> 16384 * (b - 2048) + 16384 * y \<le> 16384 * (a - 2048)"
    using low(1,2) by linarith
  then show ?thesis unfolding br by auto
qed

lemma size2idx_eq: "j \<le> 11 \<Longrightarrow> size2idx (CHUNK_LEAST_REGION_SIZE_BYTES * 2 ^ j) = j"
  by (simp add: size2idx_def chunk_consts ctz_power)

lemma chunk_allocate_run_ok:
  assumes inv: "chunk_inv c A D" and j: "j \<le> 11" and r: "j = 0 \<Longrightarrow> r < REG_MARK_BAD_VALUE"
  shows "avail (taken (dom A \<union> D)) \<inter> lev (11 - j) = {} \<Longrightarrow>
      chunk_allocate_run c (CHUNK_LEAST_REGION_SIZE_BYTES * 2 ^ j) r g = ret (0, c, g)"
    and "avail (taken (dom A \<union> D)) \<inter> lev (11 - j) \<noteq> {} \<Longrightarrow>
      \<exists>n c' g'. n \<in> avail (taken (dom A \<union> D)) \<inter> lev (11 - j)
       \<and> chunk_allocate_run c (CHUNK_LEAST_REGION_SIZE_BYTES * 2 ^ j) r g = ret (block_ptr c n, c', g')
       \<and> chunk_inv c' (A(n \<mapsto> r)) D \<and> key c' = key c \<and> fd c' = fd c \<and> bk c' = bk c"
proof -
  let ?F = "avail (taken (dom A \<union> D))" and ?L = "11 - j"
  note jump = chunk_invD(6) [OF inv]
  have L: "?L \<le> 11" by simp
  have lvl: "sub32 CHUNK_BUDDY_TREE_DEPTH (size2idx (CHUNK_LEAST_REGION_SIZE_BYTES * 2 ^ j)) = ?L"
    using j by (simp add: size2idx_eq wrap_simps CHUNK_BUDDY_TREE_DEPTH_def)
  have count: "arr_get (avail_nodes_count c) ?L = ret (avail_nodes_count c ! ?L)" "avail_nodes_count c ! ?L = card (?F \<inter> lev ?L)"
    using jump_okD(2) [OF jump] jump_count(1) [OF jump L] by (simp_all add: arr_get_def)
  have fin: "finite (?F \<inter> lev ?L)" by (simp add: lev_def)
  show "chunk_allocate_run c (CHUNK_LEAST_REGION_SIZE_BYTES * 2 ^ j) r g = ret (0, c, g)" if "?F \<inter> lev ?L = {}"
    using that count unfolding chunk_allocate_run_def Let_def lvl by simp
  show "\<exists>n c' g'. n \<in> ?F \<inter> lev ?L
       \<and> chunk_allocate_run c (CHUNK_LEAST_REGION_SIZE_BYTES * 2 ^ j) r g = ret (block_ptr c n, c', g')
       \<and> chunk_inv c' (A(n \<mapsto> r)) D \<and> key c' = key c \<and> fd c' = fd c \<and> bk c' = bk c" if ne: "?F \<inter> lev ?L \<noteq> {}"
  proof -
    obtain n g' where n: "pick_node c ?L (avail_nodes_count c ! ?L) g = ret ((n, jview (jump_tree c) n), g')" "n \<in> ?F \<inter> lev ?L"
      using pick_node_ok(1) [OF jump L ne] by blast
    have r': "?L = 11 \<Longrightarrow> r < REG_MARK_BAD_VALUE" using r j by (cases j) auto
    obtain c' where c': "chunk_allocate_with_node c (jview (jump_tree c) n) n ?L r = ret (block_ptr c n, c')"
      "chunk_inv c' (A(n \<mapsto> r)) D" "key c' = key c" "fd c' = fd c" "bk c' = bk c"
      using allocate_with_node_ok [OF inv _ _ L r', of n] n(2) by auto
    have "avail_nodes_count c ! ?L \<noteq> 0" using ne fin count(2) by simp
    then have "chunk_allocate_run c (CHUNK_LEAST_REGION_SIZE_BYTES * 2 ^ j) r g = ret (block_ptr c n, c', g')"
      unfolding chunk_allocate_run_def Let_def lvl count(1) by (simp add: n(1) c'(1))
    then show ?thesis using n(2) c' by blast
  qed
qed

lemma block_place:
  assumes "n \<in> lev (11 - j)" "j \<le> 11"
  shows "block_size n = CHUNK_LEAST_REGION_SIZE_BYTES * 2 ^ j" "key c \<le> block_ptr c n"
    "block_ptr c n + block_size n \<le> key c + CHUNK_SIZE_BYTES" "block_size n dvd block_ptr c n - key c"
proof -
  have l: "11 - j \<le> 11" and jj: "11 - (11 - j) = j" using assms(2) by auto
  note b = block_of [OF assms(1) l, unfolded jj]
  show "block_size n = CHUNK_LEAST_REGION_SIZE_BYTES * 2 ^ j" using b(1) by (simp add: chunk_consts)
  show "key c \<le> block_ptr c n" "block_ptr c n + block_size n \<le> key c + CHUNK_SIZE_BYTES"
    using b(1-4) by (simp_all add: chunk_consts)
  have "(2 :: nat) ^ j dvd 2 ^ 11" using assms(2) by (rule le_imp_power_dvd)
  then have "2 ^ j dvd n * 2 ^ j - 2048" by (intro dvd_diff_nat) simp_all
  then show "block_size n dvd block_ptr c n - key c" unfolding b(1,2) by simp
qed

text \<open>C25: for every block size from 16 KiB to 32 MiB \<open>chunk_allocate_run\<close>
  never faults. For 32 MiB it always returns NULL, even on a fresh chunk: the root of the tree is never counted as available, although
  \<open>chunk.h\<close> allows a run as large as the chunk. For sizes up to 16 MiB it returns NULL exactly when no node of that size is left.
  In both cases nothing changes. Otherwise it returns a block of the requested size, aligned to it inside the chunk, that meets
  neither an allocated block nor one that was allocated and unmapped before.\<close>

theorem chunk_allocate_run_correct:
  assumes "chunk_inv c A D" "j \<le> 11" "j = 0 \<longrightarrow> r < REG_MARK_BAD_VALUE"
  shows "\<exists>p c' g'. chunk_allocate_run c (CHUNK_LEAST_REGION_SIZE_BYTES * 2 ^ j) r g = ret (p, c', g')
     \<and> (if j = 11 \<or> avail (taken (dom A \<union> D)) \<inter> lev (11 - j) = {} then p = 0 \<and> c' = c \<and> g' = g
        else \<exists>n. chunk_inv c' (A(n \<mapsto> r)) D \<and> p = block_ptr c n \<and> key c' = key c
          \<and> block_size n = CHUNK_LEAST_REGION_SIZE_BYTES * 2 ^ j
          \<and> key c \<le> p \<and> p + block_size n \<le> key c + CHUNK_SIZE_BYTES \<and> block_size n dvd p - key c
          \<and> (\<forall>m \<in> dom A \<union> D. block_range c n \<inter> block_range c m = {}))"
proof (cases "avail (taken (dom A \<union> D)) \<inter> lev (11 - j) = {}")
  case True
  then show ?thesis using chunk_allocate_run_ok(1) [OF assms(1,2)] assms(3) by simp
next
  case False
  obtain n c' g' where n: "n \<in> avail (taken (dom A \<union> D)) \<inter> lev (11 - j)"
    "chunk_allocate_run c (CHUNK_LEAST_REGION_SIZE_BYTES * 2 ^ j) r g = ret (block_ptr c n, c', g')"
    "chunk_inv c' (A(n \<mapsto> r)) D" "key c' = key c"
    using chunk_allocate_run_ok(2) [OF assms(1,2) _ False] assms(3) by blast
  have "j \<noteq> 11" using False by (auto simp: lev_def avail_def)
  then have some: "\<not> (j = 11 \<or> avail (taken (dom A \<union> D)) \<inter> lev (11 - j) = {})" using False by blast
  have nA: "n \<in> avail (taken (dom A \<union> D))" using n(1) by blast
  have "block_range c n \<inter> block_range c m = {}" if m: "m \<in> dom A \<union> D" for m
  proof (rule block_range_disjoint)
    show "leaves n \<inter> leaves m = {}" "n \<in> {1..4095}" using fresh_node(3) [OF assms(1) nA m] fresh_node(4) [OF assms(1) nA] by auto
    show "m \<in> {1..4095}" using m chunk_invD(3) [OF assms(1)] by auto
  qed
  note disj = this
  have nl: "n \<in> lev (11 - j)" using n(1) by blast
  note place = block_place(1) [OF nl assms(2)] block_place(2-4) [OF nl assms(2), of c]
  show ?thesis
    unfolding n(2) if_not_P [OF some]
    by (intro exI [of _ "block_ptr c n"] exI [of _ c'] exI [of _ g'] exI [of _ n] conjI refl ballI) (fact n(3,4) place disj)+
qed

definition ex_chunk :: chunk_t where
  "ex_chunk = \<lparr>fd = 0, bk = 0, key = 0, avail_nodes_count = replicate 12 0, reg_size_small_medium = [],
     jump_tree_first_index = replicate 12 0, jump_tree = [], buddy_tree = replicate 1024 0\<rparr>"

lemma ex_chunk_init: "\<exists>c. chunk_init ex_chunk 4194304 = ret c \<and> chunk_inv c Map.empty {}"
  using chunk_init_ok [of ex_chunk 4194304] by (auto simp: ex_chunk_def chunk_consts)

lemma level_nonempty: "L \<le> 11 \<Longrightarrow> 1 \<le> L \<Longrightarrow> avail {} \<inter> lev L \<noteq> {}"
proof -
  assume "L \<le> 11" "1 \<le> L"
  then have "avail {} \<inter> lev L = lev L" using avail_level by simp
  moreover have "2 ^ L \<in> lev L" by (simp add: lev_def)
  ultimately show ?thesis by auto
qed

theorem chunk_allocate_run_correct_witness:
  "\<exists>c n c' g'. chunk_allocate_run c (CHUNK_LEAST_REGION_SIZE_BYTES * 2 ^ 3) 512 (rng.make 1 2) = ret (block_ptr c n, c', g')
     \<and> chunk_inv c' [n \<mapsto> 512] {} \<and> block_size n = 131072"
proof -
  obtain c where c: "chunk_inv c Map.empty {}" using ex_chunk_init by blast
  have "avail (taken (dom Map.empty \<union> {})) \<inter> lev (11 - 3) \<noteq> {}" using level_nonempty [of 8] by (simp add: taken_def)
  then show ?thesis
    using chunk_allocate_run_correct [OF c, of 3 512 "rng.make 1 2"] by (simp add: chunk_consts) blast
qed

text \<open>C30: \<open>chunk_init\<close> turns any mapped chunk structure into a chunk with no
  block allocated, whatever the memory held before; every block size up to half of the chunk
  is then available.\<close>

theorem chunk_init_correct:
  assumes "length (avail_nodes_count c) = 12" "length (jump_tree_first_index c) = 12"
    "length (buddy_tree c) = CHUNK_BUDDY_TREE_SIZE_BYTES" "0 < heap" "heap + CHUNK_SIZE_BYTES < 2 ^ 64"
  shows "\<exists>c'. chunk_init c heap = ret c' \<and> key c' = heap \<and> fd c' = 0 \<and> bk c' = 0 \<and> chunk_inv c' Map.empty {}
     \<and> (\<forall>j \<le> 10. avail (taken (dom Map.empty \<union> {})) \<inter> lev (11 - j) \<noteq> {})"
proof -
  have "avail (taken (dom Map.empty \<union> {})) \<inter> lev (11 - j) \<noteq> {}" if "j \<le> 10" for j
    using level_nonempty [of "11 - j"] that by (simp add: taken_def)
  then show ?thesis using chunk_init_ok [of c heap] assms by (simp add: chunk_consts)
qed

theorem chunk_init_correct_witness: "\<exists>c. chunk_init ex_chunk 4194304 = ret c \<and> key c = 4194304 \<and> chunk_inv c Map.empty {}"
  using chunk_init_correct [of ex_chunk 4194304] by (auto simp: ex_chunk_def chunk_consts)

text \<open>C31: the node picked on a level is one of its available nodes. When at most a
  quarter of the level is still available, it is the \<open>r mod n\<close>-th of the \<open>n\<close> available nodes in
  address order, for one random number \<open>r\<close>; so every available node can be picked.\<close>

theorem pick_node_uniform:
  assumes "chunk_inv c A D" "L \<le> 11" "avail (taken (dom A \<union> D)) \<inter> lev L \<noteq> {}"
  shows "\<exists>n node g'. pick_node c L (avail_nodes_count c ! L) g = ret ((n, node), g')
     \<and> n \<in> avail (taken (dom A \<union> D)) \<inter> lev L
     \<and> (card (avail (taken (dom A \<union> D)) \<inter> lev L) * 100 div 2 ^ L \<le> RANDOM_LOOKUP_TRESHOLD_PERCENTAGE \<longrightarrow>
          n = sorted_list_of_set (avail (taken (dom A \<union> D)) \<inter> lev L)
                ! (unat (fst (splitmix32 g)) mod card (avail (taken (dom A \<union> D)) \<inter> lev L))
          \<and> g' = snd (splitmix32 g))"
proof -
  note pick = pick_node_ok [OF chunk_invD(6) [OF assms(1)] assms(2,3), of g]
  obtain n g' where n: "pick_node c L (avail_nodes_count c ! L) g = ret ((n, jview (jump_tree c) n), g')"
    "n \<in> avail (taken (dom A \<union> D)) \<inter> lev L" using pick(1) by blast
  then show ?thesis using pick(2) by (intro exI [of _ n] exI [of _ "jview (jump_tree c) n"] exI [of _ g']) auto
qed

theorem pick_node_uniform_witness:
  "\<exists>c n node g'. pick_node c 4 (avail_nodes_count c ! 4) (rng.make 1 2) = ret ((n, node), g') \<and> 16 \<le> n \<and> n < 32"
proof -
  obtain c where c: "chunk_inv c Map.empty {}" using ex_chunk_init by blast
  have "avail (taken (dom Map.empty \<union> {})) \<inter> lev 4 \<noteq> {}" using level_nonempty [of 4] by (simp add: taken_def)
  then obtain n node g' where "pick_node c 4 (avail_nodes_count c ! 4) (rng.make 1 2) = ret ((n, node), g')" "n \<in> lev 4"
    using pick_node_uniform [OF c, of 4 "rng.make 1 2"] by auto
  moreover from this have "16 \<le> n \<and> n < 32" by (simp add: lev_def)
  ultimately show ?thesis by blast
qed

text \<open>C24: \<open>chunk_is_full\<close> holds exactly when every 16 KiB leaf has been handed out, and
  \<open>chunk_is_unmapped\<close> exactly when every leaf has been handed out and unmapped again.\<close>

theorem chunk_status_correct:
  assumes "chunk_inv c A D"
  shows "chunk_is_full c = ret (taken (dom A \<union> D) = lev 11) \<and> chunk_is_unmapped c = ret (taken D = lev 11)"
proof -
  note I = chunk_invD [OF assms]
  have sub: "taken N \<subseteq> lev 11" for N by (auto simp: taken_def leaves_def)
  have "avail T \<inter> lev 11 = lev 11 - T" for T
    using leaves_leaf lev_bounds by (fastforce simp: avail_def lev_def)
  then have "avail (taken (dom A \<union> D)) \<inter> lev 11 = {} \<longleftrightarrow> taken (dom A \<union> D) = lev 11" using sub by blast
  moreover have "finite (avail (taken (dom A \<union> D)) \<inter> lev 11)" by (simp add: lev_def)
  ultimately have "chunk_is_full c = ret (taken (dom A \<union> D) = lev 11)"
    using jump_count(1) [OF I(6), of 11] jump_okD(2) [OF I(6)]
    by (simp add: chunk_is_full_def arr_get_def CHUNK_BUDDY_TREE_DEPTH_def)
  moreover have "chunk_is_unmapped c = ret (taken D = lev 11)"
  proof -
    have "1 \<notin> dom A" "1 \<notin> below d \<or> 1 = d" if "d \<in> insert 1 D" for d
      using I(3) below_ge [of 1 d] that by auto
    then have "node_state A D 1 = NODE_UNMAPPED \<longleftrightarrow> leaves 1 \<subseteq> taken D" by (auto simp: node_state_def)
    also have "\<dots> \<longleftrightarrow> taken D = lev 11" unfolding leaves_root using sub [of D] by blast
    finally show ?thesis using buddy_ops(1) [OF I(7), of 1] I(8) [of 1] by (simp add: chunk_is_unmapped_def)
  qed
  ultimately show ?thesis by blast
qed

theorem chunk_status_correct_witness: "\<exists>c. chunk_init ex_chunk 4194304 = ret c \<and> chunk_is_full c = ret False \<and> chunk_is_unmapped c = ret False"
proof -
  obtain c where c: "chunk_init ex_chunk 4194304 = ret c" "chunk_inv c Map.empty {}" using ex_chunk_init by blast
  have "{} \<noteq> lev 11" by (simp add: lev_def)
  then show ?thesis using c chunk_status_correct [OF c(2)] by (auto simp: taken_def)
qed

end
