(* ===== verification/Chunk_Free.thy ===== *)
theory Chunk_Free
  imports Chunk_Alloc
begin

text \<open>
  Deallocation and lookup in a chunk (\<open>chunk_deallocate_run\<close> and \<open>chunk_get_run_ptr\<close> in
  \<open>src/src/chunk.c\<close>): the search from a leaf towards the root for the used node, the unmapping
  of its block, and the merging of unmapped nodes.
\<close>

subsection \<open>The search for the used node\<close>

lemma min_leaf: "n \<in> {1..4095} \<Longrightarrow> Min (leaves n) \<in> leaves n"
  using leaves_nonempty [of n] by (intro Min_in) (auto simp: leaves_def lev_def)

lemma start_unique:
  assumes inv: "chunk_inv c A D" and "m \<in> dom A" "n \<in> dom A" "Min (leaves m) = Min (leaves n)"
  shows "m = n"
proof (rule ccontr)
  assume "m \<noteq> n"
  then have "leaves m \<inter> leaves n = {}" using chunk_invD(5) [OF inv] assms(2,3) by blast
  moreover have "Min (leaves m) \<in> leaves m" "Min (leaves n) \<in> leaves n"
    using chunk_invD(3) [OF inv] assms(2,3) by (auto intro!: min_leaf)
  ultimately show False using assms(4) by auto
qed

text \<open>On the way from the first leaf of a used node to the node all states are free.\<close>

lemma state_inside:
  assumes inv: "chunk_inv c A D" and n: "n \<in> dom A" and m: "m \<in> below n" "m \<noteq> n" "m \<le> 4095"
  shows "node_state A D m = NODE_FREE"
proof -
  note I = chunk_invD [OF inv]
  have nb: "n \<in> {1..4095}" using I(3) n by auto
  have mb: "m \<in> {1..4095}" using below_ge [OF m(1)] m(3) nb by auto
  have sub: "leaves m \<subseteq> leaves n" "leaves m \<noteq> {}" using leaves_mono [OF m(1)] leaves_nonempty mb by auto
  have "m \<notin> dom A" using I(5) [of m n] n m(2) sub by blast
  moreover have "leaves n \<inter> taken D = {}" using I(4,5) n unfolding taken_def by blast
  then have "\<not> leaves m \<subseteq> taken D" using sub by blast
  ultimately show ?thesis by (simp add: node_state_def)
qed

lemma search_state:
  assumes inv: "chunk_inv c A D" and n: "n \<in> dom A" "n * 2 ^ i \<le> 4095"
  shows "get_buddy_tree_item (buddy_tree c) (n * 2 ^ i) = ret (if i = 0 then NODE_USED else NODE_FREE)"
proof -
  note I = chunk_invD [OF inv]
  have n1: "2 \<le> n" using I(3) n(1) by auto
  have pos: "1 \<le> n * 2 ^ i" using n1 by (simp add: Suc_le_eq)
  have get: "get_buddy_tree_item (buddy_tree c) (n * 2 ^ i) = ret (node_state A D (n * 2 ^ i))"
    using buddy_ops(1) [OF I(7) pos] I(8) [OF pos n(2)] n(2) by simp
  have "n * 2 ^ i div 2 ^ i = n" by simp
  then have below: "n * 2 ^ i \<in> below n" unfolding below_def by blast
  show ?thesis
  proof (cases i)
    case 0
    then show ?thesis using get n(1) by (simp add: node_state_def)
  next
    case (Suc j)
    then have "n * 2 ^ i \<noteq> n" using n1 by simp
    then show ?thesis using get state_inside [OF inv n(1) below _ n(2)] Suc by simp
  qed
qed

lemma find_used_hit:
  assumes inv: "chunk_inv c A D" and n: "n \<in> dom A"
  shows "n * 2 ^ i \<le> 4095 \<Longrightarrow> find_used (buddy_tree c) (n * 2 ^ i) d = ret (n, d + i)"
proof (induction i arbitrary: d)
  case 0
  then show ?case using search_state [OF inv n, of 0] by (subst find_used.simps) simp
next
  case (Suc i)
  have "2 \<le> n" using chunk_invD(3) [OF inv] n by auto
  then have "n * 2 ^ Suc i \<noteq> 1" "even (n * 2 ^ Suc i)" "n * 2 ^ Suc i \<noteq> 0" "n * 2 ^ Suc i div 2 = n * 2 ^ i" by auto
  then show ?case
    using search_state [OF inv n Suc.prems] Suc.IH [of "d + 1"] Suc.prems by (subst find_used.simps) simp
qed

lemma used_size_hit:
  assumes inv: "chunk_inv c A D" and n: "n \<in> dom A"
  shows "n * 2 ^ i \<le> 4095 \<Longrightarrow> s * 2 ^ i < 4294967296 \<Longrightarrow> used_size (buddy_tree c) (n * 2 ^ i) s = ret (Some (s * 2 ^ i))"
proof (induction i arbitrary: s)
  case 0
  then show ?case using search_state [OF inv n, of 0] by (subst used_size.simps) simp
next
  case (Suc i)
  have "2 \<le> n" using chunk_invD(3) [OF inv] n by auto
  then have "n * 2 ^ Suc i \<noteq> 1" "even (n * 2 ^ Suc i)" "n * 2 ^ Suc i \<noteq> 0" "n * 2 ^ Suc i div 2 = n * 2 ^ i" by auto
  moreover have "u32 (s * 2) = s * 2"
  proof -
    have "s * 2 * 2 ^ i < 4294967296" using Suc.prems(2) by (simp add: mult.assoc)
    moreover have "s * 2 \<le> s * 2 * 2 ^ i" by simp
    ultimately have "s * 2 < 4294967296" by (rule le_less_trans [rotated])
    then show ?thesis by (simp only: u32_small)
  qed
  ultimately show ?case
    using search_state [OF inv n Suc.prems(1)] Suc.IH [of "s * 2"] Suc.prems by (subst used_size.simps) simp
qed

lemma even_parent:
  assumes "idx \<in> {1..4095}" "even idx"
  shows "Min (leaves (idx div 2)) = Min (leaves idx)" "idx div 2 \<in> {1..4095}"
proof -
  obtain L where L: "L \<le> 11" "idx \<in> lev L" using level_of [of idx] assms(1) by auto
  have "L \<noteq> 0" using L(2) assms(2) by (cases L) (auto simp: lev_0)
  then obtain M where M: "L = Suc M" by (cases L) auto
  have p: "idx div 2 \<in> lev M" using lev_parent L(2) M by simp
  have "11 - M = Suc (11 - L)" using M L(1) by simp
  then have "idx div 2 * 2 ^ (11 - M) = idx * 2 ^ (11 - L)" using assms(2) by auto
  then show "Min (leaves (idx div 2)) = Min (leaves idx)"
    using block_of(5) [OF p] block_of(5) [OF L(2,1)] M L(1) by simp
  show "idx div 2 \<in> {1..4095}" using lev_bounds [OF p] M L(1) by simp
qed

lemma find_used_miss:
  assumes inv: "chunk_inv c A D" and miss: "\<And>n. n \<in> dom A \<Longrightarrow> Min (leaves n) \<noteq> k"
  shows "idx \<in> {1..4095} \<Longrightarrow> Min (leaves idx) = k \<Longrightarrow> find_used (buddy_tree c) idx d = fail Exit"
    and "idx \<in> {1..4095} \<Longrightarrow> Min (leaves idx) = k \<Longrightarrow> used_size (buddy_tree c) idx s = ret None"
proof -
  note I = chunk_invD [OF inv]
  have get: "get_buddy_tree_item (buddy_tree c) idx = ret (node_state A D idx) \<and> node_state A D idx \<noteq> NODE_USED"
    if "idx \<in> {1..4095}" "Min (leaves idx) = k" for idx
  proof -
    have "idx \<notin> dom A" using miss that by blast
    then show ?thesis using buddy_ops(1) [OF I(7), of idx] I(8) [of idx] that(1) by (auto simp: node_state_def)
  qed
  show "find_used (buddy_tree c) idx d = fail Exit" if "idx \<in> {1..4095}" "Min (leaves idx) = k" for idx d
    using that
  proof (induction idx arbitrary: d rule: less_induct)
    case (less idx)
    then show ?case
      using get [OF less.prems] even_parent [OF less.prems(1)]
      by (subst find_used.simps) auto
  qed
  show "used_size (buddy_tree c) idx s = ret None" if "idx \<in> {1..4095}" "Min (leaves idx) = k" for idx s
    using that
  proof (induction idx arbitrary: s rule: less_induct)
    case (less idx)
    then show ?case
      using get [OF less.prems] even_parent [OF less.prems(1)]
      by (subst used_size.simps) auto
  qed
qed

subsection \<open>Lookup\<close>

lemma leaf_of_ptr:
  assumes "key c \<le> p" "p < key c + CHUNK_SIZE_BYTES"
  shows "2048 + (p - key c) div 16384 \<in> lev 11"
  using assms by (auto simp: lev_def chunk_consts less_mult_imp_div_less)

text \<open>A pointer is in the first 16 KiB of a block when the search starts at the block's first leaf.\<close>

lemma first_leaf_iff:
  assumes "n \<in> {1..4095}" "key c \<le> p"
  shows "block_ptr c n \<le> p \<and> p < block_ptr c n + CHUNK_LEAST_REGION_SIZE_BYTES
     \<longleftrightarrow> Min (leaves n) = 2048 + (p - key c) div 16384"
proof -
  obtain L where L: "L \<le> 11" "n \<in> lev L" using level_of [of n] assms(1) by auto
  have m: "2048 \<le> Min (leaves n)" using block_of(3,5) [OF L(2,1)] by simp
  define a where "a = Min (leaves n) - 2048"
  have "block_ptr c n \<le> p \<and> p < block_ptr c n + CHUNK_LEAST_REGION_SIZE_BYTES \<longleftrightarrow> (p - key c) div 16384 = a"
    unfolding block_ptr_def a_def [symmetric] chunk_consts using assms(2) by auto
  then show ?thesis using m by (auto simp: a_def)
qed

lemma chunk_get_run_ptr_eq:
  assumes inv: "chunk_inv c A D" and p: "key c \<le> p" "p < key c + CHUNK_SIZE_BYTES"
  defines "k \<equiv> 2048 + (p - key c) div 16384"
  shows "n \<in> dom A \<Longrightarrow> Min (leaves n) = k \<Longrightarrow>
      chunk_get_run_ptr c p = ret (block_ptr c n, block_size n,
        if CHUNK_IS_LEAF n \<and> A n \<noteq> Some CHUNK_LEAST_REGION_SIZE_BYTES then the (A n) else 0)"
    and "(\<And>n. n \<in> dom A \<Longrightarrow> Min (leaves n) \<noteq> k) \<Longrightarrow> chunk_get_run_ptr c p = ret (0, 0, 0)"
proof -
  note I = chunk_invD [OF inv]
  let ?o = "(p - key c) div 16384"
  have k: "k \<in> lev 11" unfolding k_def by (rule leaf_of_ptr [OF p])
  then have kb: "2048 \<le> k" "k \<le> 4095" by (auto simp: lev_def)
  then have o: "?o < 2048" "k - 2048 = ?o" unfolding k_def by auto
  have in_chunk: "\<not> (p < key c \<or> u64 (key c + 33554432) \<le> p)" using p I(2) by (simp add: chunk_consts wrap_simps)
  have psmall: "p < 18446744073709551616" using p(2) I(2) by (simp add: chunk_consts)
  have rel: "sub64 p (key c) = p - key c" using p(1) psmall by (simp add: wrap_simps)
  have half: "(4095 + 1) div 2 = (2048 :: nat)" by simp
  have idx: "u32 (2048 + ?o) = k" using kb by (simp add: k_def wrap_simps)
  have tgt: "u64 (key c + ?o * 16384) = key c + 16384 * ?o" using o I(2) by (simp add: wrap_simps mult.commute)
  have run: "chunk_get_run_ptr c p =
     bindR (get_buddy_tree_item (buddy_tree c) k) (\<lambda>node.
       if node \<noteq> NODE_USED then
         bindR (used_size (buddy_tree c) k 16384) (\<lambda>r. case r of None \<Rightarrow> ret (0, 0, 0) | Some n \<Rightarrow> ret (key c + 16384 * ?o, n, 0))
       else bindR (arr_get (reg_size_small_medium c) ?o) (\<lambda>rs.
         ret (key c + 16384 * ?o, 16384, if rs \<noteq> REG_MARK_BAD_VALUE then rs else 0)))"
    unfolding chunk_get_run_ptr_def Let_def chunk_consts if_not_P [OF in_chunk] rel half idx tgt by (rule refl)
  show "chunk_get_run_ptr c p = ret (block_ptr c n, block_size n,
        if CHUNK_IS_LEAF n \<and> A n \<noteq> Some CHUNK_LEAST_REGION_SIZE_BYTES then the (A n) else 0)"
    if n: "n \<in> dom A" "Min (leaves n) = k" for n
  proof -
    have nb: "n \<in> {1..4095}" using I(3) n(1) by auto
    obtain L where L: "L \<le> 11" "n \<in> lev L" using level_of [of n] nb by auto
    note blk = block_of [OF L(2,1)]
    have kn: "k = n * 2 ^ (11 - L)" using blk(5) n(2) by simp
    have ptr: "block_ptr c n = key c + 16384 * ?o" unfolding block_ptr_def n(2) o(2) ..
    have node: "get_buddy_tree_item (buddy_tree c) k = ret (if 11 - L = 0 then NODE_USED else NODE_FREE)"
      using search_state [OF inv n(1), of "11 - L"] kb kn by simp
    show ?thesis
    proof (cases "L = 11")
      case True
      then have nk: "n = k" using kn by simp
      then have D: "?o + 2048 \<notin> D" using I(4) n(1) unfolding k_def by (auto simp: add.commute)
      obtain r where r: "A n = Some r" using n(1) by blast
      have ro: "A (?o + 2048) = Some r" using r nk unfolding k_def by (simp add: add.commute)
      have "r < 65535" using I(11) [OF r] nk kb by simp
      then show ?thesis
        using node True I(10) [OF o(1) D] I(9) o(1) r ro leaf_iff [OF L(2,1)]
        unfolding run ptr blk(1) by (simp add: arr_get_def REG_MARK_BAD_VALUE_def chunk_consts)
    next
      case False
      have "(2 :: nat) ^ (11 - L) \<le> 2 ^ 11" by (intro power_increasing) simp_all
      then have "used_size (buddy_tree c) k 16384 = ret (Some (16384 * 2 ^ (11 - L)))"
        using used_size_hit [OF inv n(1), of "11 - L" 16384] kb kn by simp
      then show ?thesis using node False L(1) leaf_iff [OF L(2,1)] unfolding run ptr blk(1) by simp
    qed
  qed
  show "chunk_get_run_ptr c p = ret (0, 0, 0)" if miss: "\<And>n. n \<in> dom A \<Longrightarrow> Min (leaves n) \<noteq> k"
  proof -
    have mk: "Min (leaves k) = k" using leaves_leaf [OF k] by simp
    have "k \<notin> dom A" using miss mk by blast
    then have "get_buddy_tree_item (buddy_tree c) k = ret (node_state A D k)" "node_state A D k \<noteq> NODE_USED"
      using buddy_ops(1) [OF I(7), of k] I(8) [of k] kb by (auto simp: node_state_def)
    moreover have "used_size (buddy_tree c) k 16384 = ret None"
      using find_used_miss(2) [OF inv miss _ mk] kb by simp
    ultimately show ?thesis unfolding run by simp
  qed
qed

text \<open>C27: looking up an address in a chunk never faults. In the first 16 KiB of
  an allocated block it returns the block's start and size. The region size it returns is the one noted at the allocation for a
  block of 16 KiB with regions below 16 KiB, and 0 for every larger block and for regions of 16 KiB; \<open>chunk.h\<close> promises it for every run, and the
  caller reads the block size instead. Everywhere else, past the first 16 KiB of a larger block too, where \<open>chunk.h\<close> promises the run,
  and outside the chunk, it returns NULL and zeros.\<close>

theorem chunk_get_run_ptr_correct:
  assumes "chunk_inv c A D"
  shows "(\<forall>n \<in> dom A. block_ptr c n \<le> p \<and> p < block_ptr c n + CHUNK_LEAST_REGION_SIZE_BYTES \<longrightarrow>
       chunk_get_run_ptr c p = ret (block_ptr c n, block_size n,
         if CHUNK_IS_LEAF n \<and> A n \<noteq> Some CHUNK_LEAST_REGION_SIZE_BYTES then the (A n) else 0))
     \<and> ((\<forall>n \<in> dom A. \<not> (block_ptr c n \<le> p \<and> p < block_ptr c n + CHUNK_LEAST_REGION_SIZE_BYTES)) \<longrightarrow>
       chunk_get_run_ptr c p = ret (0, 0, 0))"
proof -
  note I = chunk_invD [OF assms]
  have nb: "n \<in> {1..4095}" if "n \<in> dom A" for n using I(3) that by auto
  have inside: "key c \<le> p \<and> p < key c + CHUNK_SIZE_BYTES"
    if n: "n \<in> dom A" and pn: "block_ptr c n \<le> p" "p < block_ptr c n + CHUNK_LEAST_REGION_SIZE_BYTES" for n
  proof -
    obtain L where L: "L \<le> 11" "n \<in> lev L" using level_of [of n] nb [OF n] by auto
    have "n \<in> lev (11 - (11 - L))" using L by simp
    then have "key c \<le> block_ptr c n" "block_ptr c n + block_size n \<le> key c + CHUNK_SIZE_BYTES"
      by (auto intro: block_place)
    moreover have "CHUNK_LEAST_REGION_SIZE_BYTES \<le> block_size n" using block_of(1) [OF L(2,1)] by (simp add: chunk_consts)
    ultimately show ?thesis using pn by linarith
  qed
  show ?thesis
  proof (cases "key c \<le> p \<and> p < key c + CHUNK_SIZE_BYTES")
    case True
    then have kp: "key c \<le> p" "p < key c + CHUNK_SIZE_BYTES" by auto
    show ?thesis using first_leaf_iff [OF nb kp(1)] chunk_get_run_ptr_eq [OF assms kp] by auto
  next
    case False
    then have "chunk_get_run_ptr c p = ret (0, 0, 0)"
      using I(2) by (auto simp: chunk_get_run_ptr_def chunk_consts wrap_simps)
    then show ?thesis using inside False by blast
  qed
qed

theorem chunk_get_run_ptr_correct_witness:
  "\<exists>c n. chunk_get_run_ptr c (block_ptr c n + 100) = ret (block_ptr c n, 16384, 512)"
proof -
  obtain c where c: "chunk_inv c Map.empty {}" using ex_chunk_init by blast
  have "avail (taken (dom Map.empty \<union> {})) \<inter> lev (11 - 0) \<noteq> {}" using level_nonempty [of 11] by (simp add: taken_def)
  then obtain n c' where n: "n \<in> lev 11" "chunk_inv c' [n \<mapsto> 512] {}"
    using chunk_allocate_run_ok(2) [OF c, of 0 512 "rng.make 1 2"] by (auto simp: REG_MARK_BAD_VALUE_def)
  have "CHUNK_IS_LEAF n" "block_size n = 16384" using leaf_iff [OF n(1)] block_of(1) [OF n(1)] by simp_all
  then show ?thesis
    using chunk_get_run_ptr_correct [OF n(2), of "block_ptr c' n + 100"] by (intro exI [of _ c'] exI [of _ n]) (simp add: chunk_consts)
qed

subsection \<open>Merging unmapped nodes\<close>

lemma below_parent_of: "n \<in> below d \<Longrightarrow> n \<noteq> d \<Longrightarrow> n div 2 \<in> below d"
proof -
  assume "n \<in> below d" "n \<noteq> d"
  then obtain j where j: "n div 2 ^ j = d" unfolding below_def by blast
  then obtain i where "j = Suc i" using \<open>n \<noteq> d\<close> by (cases j) auto
  then have "n div 2 div 2 ^ i = d" using j by (simp add: div_mult2_eq)
  then show ?thesis unfolding below_def by blast
qed

lemma below_half: "n \<in> below (n div 2)"
  unfolding below_def by (intro CollectI exI [of _ 1]) simp

text \<open>The nodes in use and the unmapped ones of a well-formed abstract state.\<close>

definition disjoint_nodes :: "(nat \<rightharpoonup> nat) \<Rightarrow> nat set \<Rightarrow> bool" where
  "disjoint_nodes A D \<longleftrightarrow> dom A \<union> D \<subseteq> {2..4095} \<and> dom A \<inter> D = {}
     \<and> (\<forall>m \<in> dom A \<union> D. \<forall>n \<in> dom A \<union> D. m \<noteq> n \<longrightarrow> leaves m \<inter> leaves n = {})"

lemma disjoint_below:
  assumes "disjoint_nodes A D" "u \<in> D" "d \<in> dom A \<union> D" "u \<in> below d"
  shows "d = u"
proof (rule ccontr)
  assume "d \<noteq> u"
  then have "leaves u \<inter> leaves d = {}" using assms(1-3) unfolding disjoint_nodes_def by blast
  moreover have "leaves u \<noteq> {}" using assms(1,2) leaves_nonempty [of u] by (auto simp: disjoint_nodes_def)
  ultimately show False using leaves_mono [OF assms(4)] by blast
qed

lemma state_unmapped:
  assumes dn: "disjoint_nodes A D" and u: "u \<in> D" and n: "n \<in> {1..4095}"
    and rel: "u \<in> below n \<or> (u \<in> below (n div 2) \<and> n div 2 < u)"
  shows "node_state A D n = NODE_UNMAPPED \<longleftrightarrow> leaves n \<subseteq> taken D"
proof -
  have low: "u \<in> below n \<Longrightarrow> d \<in> D \<Longrightarrow> n \<in> below d \<Longrightarrow> n = d" for n d
  proof -
    assume a: "u \<in> below n" "d \<in> D" "n \<in> below d"
    then have "d = u" using disjoint_below [OF dn u] below_trans by blast
    then show "n = d" using below_ge a(1,3) by (metis le_antisym)
  qed
  have top: "n = d" if d: "d \<in> D" "n \<in> below d" for d
  proof (cases "u \<in> below n")
    case False
    then have rel': "u \<in> below (n div 2)" "n div 2 < u" using rel by auto
    show ?thesis
    proof (rule ccontr)
      assume "n \<noteq> d"
      then have "n div 2 \<in> below d" using below_parent_of d(2) by blast
      then have "n div 2 = d" using low [OF rel'(1) d(1)] by blast
      then have "d = u" using disjoint_below [OF dn u] d(1) rel'(1) by blast
      then show False using \<open>n div 2 = d\<close> rel'(2) by simp
    qed
  qed (use low d in blast)
  have "n \<notin> dom A" if cov: "leaves n \<subseteq> taken D"
  proof
    assume a: "n \<in> dom A"
    have "leaves n \<inter> leaves d = {}" if "d \<in> D" for d
    proof -
      have "n \<noteq> d" using dn a that unfolding disjoint_nodes_def by blast
      then show ?thesis using dn a that unfolding disjoint_nodes_def by (metis Un_iff)
    qed
    then have "leaves n = {}" using cov unfolding taken_def by blast
    then show False using leaves_nonempty n by auto
  qed
  then show ?thesis using top unfolding node_state_def by (auto split: if_splits)
qed

lemma sibling_facts:
  assumes "i \<in> {2..4095}"
  shows "buddy_sibling i \<in> {1..4095}" "buddy_sibling i div 2 = i div 2" "buddy_sibling i \<noteq> i"
    "leaves (i div 2) = leaves i \<union> leaves (buddy_sibling i)" "i div 2 \<in> {1..4095}"
proof -
  have p: "1 \<le> i div 2" "i div 2 \<le> 2047" using assms by auto
  then show "i div 2 \<in> {1..4095}" by auto
  show "leaves (i div 2) = leaves i \<union> leaves (buddy_sibling i)"
  proof (cases "odd i")
    case True
    then have "2 * (i div 2) = i - 1" "2 * (i div 2) + 1 = i" using assms by (auto elim: oddE)
    then show ?thesis using leaves_children [OF p] True by (auto simp: buddy_sibling_def)
  next
    case False
    then have "2 * (i div 2) = i" by simp
    then show ?thesis using leaves_children [OF p] False by (simp add: buddy_sibling_def)
  qed
  show "buddy_sibling i \<in> {1..4095}" "buddy_sibling i div 2 = i div 2" "buddy_sibling i \<noteq> i"
    using assms by (auto simp: buddy_sibling_def elim!: oddE)
qed

lemma coalesce_unmapped_ok:
  assumes dn: "disjoint_nodes A D" and u: "u \<in> D"
  shows "bc_idx ctx \<in> {1..4095} \<Longrightarrow> u \<in> below (bc_idx ctx) \<Longrightarrow> leaves (bc_idx ctx) \<subseteq> taken D \<Longrightarrow>
    length (buddy_tree c) = 1024 \<Longrightarrow>
    (\<And>n. n \<in> {1..4095} \<Longrightarrow> buddy_item (buddy_tree c) n =
       (if bc_idx ctx \<in> below n \<and> n \<noteq> bc_idx ctx then NODE_FREE else node_state A D n)) \<Longrightarrow>
    \<exists>ctx' bt. coalesce_unmapped_nodes ctx c = ret (ctx', c\<lparr>buddy_tree := bt\<rparr>) \<and> length bt = 1024
      \<and> (\<forall>n \<in> {1..4095}. buddy_item bt n = node_state A D n) \<and> (bc_idx ctx' = 1 \<longleftrightarrow> leaves 1 \<subseteq> taken D)"
proof (induction "bc_idx ctx" arbitrary: ctx c rule: less_induct)
  case less
  let ?i = "bc_idx ctx"
  note pre = less.prems
  show ?case
  proof (cases "?i \<le> 1")
    case True
    then have i: "?i = 1" using pre(1) by simp
    have "n = 1" if "n \<in> {1..4095}" "1 \<in> below n" for n using below_ge [OF that(2)] that(1) by simp
    then have "buddy_item (buddy_tree c) n = node_state A D n" if "n \<in> {1..4095}" for n
      using pre(5) [OF that] i that by auto
    then show ?thesis using i pre(3,4) True
      by (intro exI [of _ ctx] exI [of _ "buddy_tree c"]) (simp add: coalesce_unmapped_nodes.simps)
  next
    case False
    then have i: "?i \<in> {2..4095}" using pre(1) by simp
    let ?s = "buddy_sibling ?i" and ?p = "?i div 2"
    note sib = sibling_facts [OF i]
    have ip: "?i \<in> below ?p" by (rule below_half)
    have up: "u \<in> below ?p" using below_trans [OF pre(2) ip] .
    have "?i \<le> u" using below_ge [OF pre(2)] .
    then have pu: "?p < u" using i by auto
    have "\<not> ?i \<in> below ?s"
    proof
      assume "?i \<in> below ?s"
      then have "?p \<in> below ?s" using below_parent_of sib(3) by metis
      then have "?s \<le> ?p" using below_ge by blast
      then have "?s \<le> ?s div 2" using sib(2) by simp
      then show False using sib(1) by auto
    qed
    then have s: "buddy_item (buddy_tree c) ?s = node_state A D ?s" using pre(5) [OF sib(1)] by simp
    have s_iff: "node_state A D ?s = NODE_UNMAPPED \<longleftrightarrow> leaves ?s \<subseteq> taken D"
      by (rule state_unmapped [OF dn u sib(1)]) (use up pu sib(2) in simp)
    have get: "get_buddy_tree_item (buddy_tree c) ?s = ret (node_state A D ?s)"
      using buddy_ops(1) [OF pre(4), of ?s] sib(1) s by simp
    show ?thesis
    proof (cases "node_state A D ?s = NODE_UNMAPPED")
      case True
      then have cov: "leaves ?p \<subseteq> taken D" using s_iff sib(4) pre(3) by blast
      have p: "node_state A D ?p = NODE_UNMAPPED" using state_unmapped [OF dn u sib(5)] up cov by blast
      define bt where "bt = buddy_update (buddy_tree c) ?p NODE_UNMAPPED"
      have set: "set_buddy_tree_item (buddy_tree c) ?p NODE_UNMAPPED = ret bt" "length bt = 1024"
        "j \<in> {1..4095} \<Longrightarrow> buddy_item bt j = (if ?p = j then NODE_UNMAPPED else buddy_item (buddy_tree c) j)" for j
        using buddy_ops(2-4) [OF pre(4), of ?p] sib(5) by (simp_all add: bt_def)
      let ?ctx = "buddy_state_go_up ctx" and ?c = "c\<lparr>buddy_tree := bt\<rparr>"
      have idx: "bc_idx ?ctx = ?p" by (simp add: buddy_state_go_up_def)
      have "\<exists>ctx' bt'. coalesce_unmapped_nodes ?ctx ?c = ret (ctx', ?c\<lparr>buddy_tree := bt'\<rparr>) \<and> length bt' = 1024
        \<and> (\<forall>n \<in> {1..4095}. buddy_item bt' n = node_state A D n) \<and> (bc_idx ctx' = 1 \<longleftrightarrow> leaves 1 \<subseteq> taken D)"
      proof (rule less.hyps)
        show "bc_idx ?ctx < bc_idx ctx" "bc_idx ?ctx \<in> {1..4095}" using idx i sib(5) by auto
        show "u \<in> below (bc_idx ?ctx)" "leaves (bc_idx ?ctx) \<subseteq> taken D" "length (buddy_tree ?c) = 1024"
          using idx up cov set(2) by simp_all
        show "buddy_item (buddy_tree ?c) n =
            (if bc_idx ?ctx \<in> below n \<and> n \<noteq> bc_idx ?ctx then NODE_FREE else node_state A D n)" if n: "n \<in> {1..4095}" for n
        proof (cases "n = ?p")
          case True
          then show ?thesis using set(3) [OF n] p idx by simp
        next
          case False
          have "?i \<in> below n \<and> n \<noteq> ?i \<longleftrightarrow> ?p \<in> below n"
          proof
            assume "?p \<in> below n"
            moreover have "n \<noteq> ?i" using below_ge [OF \<open>?p \<in> below n\<close>] i by auto
            ultimately show "?i \<in> below n \<and> n \<noteq> ?i" using below_trans [OF ip] by blast
          qed (use below_parent_of in metis)
          then show ?thesis using set(3) [OF n] pre(5) [OF n] idx False by auto
        qed
      qed
      then show ?thesis using False get True set(1)
        by (subst coalesce_unmapped_nodes.simps) simp
    next
      case no: False
      have "buddy_item (buddy_tree c) n = node_state A D n" if n: "n \<in> {1..4095}" for n
      proof (cases "?i \<in> below n \<and> n \<noteq> ?i")
        case True
        then have pn: "?p \<in> below n" using below_parent_of by metis
        then have un: "u \<in> below n" using below_trans up by blast
        have "leaves ?s \<subseteq> leaves n" using sib(4) leaves_mono [OF pn] by blast
        then have "\<not> leaves n \<subseteq> taken D" using no s_iff by blast
        moreover have "n \<notin> dom A"
        proof
          assume "n \<in> dom A"
          then have "n = u" using disjoint_below [OF dn u _ un] by blast
          then show False using \<open>n \<in> dom A\<close> u dn unfolding disjoint_nodes_def by blast
        qed
        ultimately show ?thesis using pre(5) [OF n] True by (simp add: node_state_def)
      qed (use pre(5) [OF n] in auto)
      moreover have "\<not> leaves 1 \<subseteq> taken D"
      proof -
        have "leaves ?s \<subseteq> leaves 1" unfolding leaves_root by (simp add: leaves_def)
        then show ?thesis using no s_iff by blast
      qed
      ultimately show ?thesis using False get no pre(4) i
        by (intro exI [of _ ctx] exI [of _ "buddy_tree c"]) (simp add: coalesce_unmapped_nodes.simps)
    qed
  qed
qed

subsection \<open>Deallocation\<close>

lemma chunk_inv_disjoint: "chunk_inv c A D \<Longrightarrow> disjoint_nodes A D"
  unfolding chunk_inv_def disjoint_nodes_def by blast

lemma disjoint_nodes_free:
  assumes "disjoint_nodes A D" "u \<in> dom A"
  shows "disjoint_nodes (A(u := None)) (insert u D)"
proof -
  have "dom (A(u := None)) \<union> insert u D = dom A \<union> D" using assms(2) by auto
  moreover have "dom (A(u := None)) \<inter> insert u D = {}" using assms(1) by (auto simp: disjoint_nodes_def)
  ultimately show ?thesis using assms(1) unfolding disjoint_nodes_def by metis
qed

lemma used_node:
  assumes "disjoint_nodes A D" "u \<in> dom A"
  shows "u \<in> {1..4095}" "u \<notin> D" "leaves u \<inter> taken D = {}" "leaves u \<noteq> {}"
    "n \<in> dom A \<Longrightarrow> n \<noteq> u \<Longrightarrow> leaves n \<inter> leaves u = {}"
proof -
  note dn = assms(1) [unfolded disjoint_nodes_def]
  show "u \<in> {1..4095}" using dn assms(2) by auto
  then show "leaves u \<noteq> {}" using leaves_nonempty [of u] by simp
  show D: "u \<notin> D" using dn assms(2) by auto
  have "leaves u \<inter> leaves d = {}" if "d \<in> D" for d
  proof -
    have "d \<noteq> u" using D that by metis
    then show ?thesis using dn assms(2) that by (metis Un_iff)
  qed
  then show "leaves u \<inter> taken D = {}" unfolding taken_def by blast
  show "n \<in> dom A \<Longrightarrow> n \<noteq> u \<Longrightarrow> leaves n \<inter> leaves u = {}" using dn assms(2) by (metis Un_iff)
qed

text \<open>Freeing one node changes the state of that node and of nodes above it only.\<close>

lemma node_state_free:
  assumes dn: "disjoint_nodes A D" and u: "u \<in> dom A" and n: "n \<in> {1..4095}" "n \<noteq> u" "u \<notin> below n"
  shows "node_state (A(u := None)) (insert u D) n = node_state A D n"
proof -
  note U = used_node [OF dn u]
  have tk: "taken (insert u D) = leaves u \<union> taken D" by (rule taken_insert)
  show ?thesis
  proof (cases "n \<in> below u")
    case True
    then have sub: "leaves n \<subseteq> leaves u" by (rule leaves_mono)
    have "leaves n \<noteq> {}" using leaves_nonempty n(1) by auto
    then have "\<not> leaves n \<subseteq> taken D" using sub U(3) by blast
    then show ?thesis using True n(2) by (auto simp: node_state_def)
  next
    case False
    then have "leaves n \<inter> leaves u = {}" using leaves_meet [OF n(1) U(1)] n(3) by blast
    then have "leaves n \<subseteq> taken (insert u D) \<longleftrightarrow> leaves n \<subseteq> taken D" unfolding tk by blast
    then show ?thesis using False n(2) by (auto simp: node_state_def)
  qed
qed

lemma node_state_above:
  assumes dn: "disjoint_nodes A D" and u: "u \<in> dom A" and n: "u \<in> below n" "n \<noteq> u" "n \<in> {1..4095}"
  shows "node_state A D n = NODE_FREE"
proof -
  note U = used_node [OF dn u]
  have sub: "leaves u \<subseteq> leaves n" by (rule leaves_mono [OF n(1)])
  have "n \<notin> dom A" using U(5) [of n] n(2) sub U(4) by blast
  moreover have "\<not> leaves n \<subseteq> taken D" using U(3,4) sub by blast
  ultimately show ?thesis by (simp add: node_state_def)
qed

lemma node_state_not_depleted: "node_state A D n \<noteq> NODE_DEPLETED"
  by (simp add: node_state_def)

lemma chunk_deallocate_run_ok:
  fixes os :: "'w os"
  assumes inv: "chunk_inv c A D" and u: "u \<in> dom A"
  shows "fst (platform_unmap os w (block_ptr c u) (block_size u)) \<noteq> PLATFORM_STATUS_OK \<Longrightarrow>
      chunk_deallocate_run os w c (block_ptr c u) = fail Exit"
    and "fst (platform_unmap os w (block_ptr c u) (block_size u)) = PLATFORM_STATUS_OK \<Longrightarrow>
      \<exists>c'. chunk_deallocate_run os w c (block_ptr c u) =
          ret (taken (insert u D) = lev 11, c', snd (platform_unmap os w (block_ptr c u) (block_size u)))
        \<and> chunk_inv c' (A(u := None)) (insert u D) \<and> key c' = key c \<and> fd c' = fd c \<and> bk c' = bk c"
proof -
  note I = chunk_invD [OF inv]
  have dn: "disjoint_nodes A D" by (rule chunk_inv_disjoint [OF inv])
  note dn' = disjoint_nodes_free [OF dn u]
  have ub: "u \<in> {2..4095}" "u \<in> {1..4095}" using I(3) u by auto
  obtain L where L: "L \<le> 11" "u \<in> lev L" using level_of [of u] ub by auto
  note blk = block_of [OF L(2,1)]
  let ?o = "u * 2 ^ (11 - L) - 2048" and ?p = "block_ptr c u" and ?s = "block_size u"
  have "(1 :: nat) \<le> 2 ^ (11 - L)" by simp
  then have o: "?o < 2048" "2048 + ?o = u * 2 ^ (11 - L)" using blk(3,4) by linarith+
  have pb: "key c \<le> ?p" "?p < 18446744073709551616" "?p - key c = 16384 * ?o"
    using blk(2) [of c] o I(2) by auto
  have leaf: "u32 (2048 + u32 (sub64 ?p (key c) div 16384)) = u * 2 ^ (11 - L)"
    using pb o blk(4) by (simp add: wrap_simps)
  have hit: "find_used (buddy_tree c) (u * 2 ^ (11 - L)) 0 = ret (u, 11 - L)"
    using find_used_hit [OF inv u, of "11 - L" 0] blk(3,4) o by simp
  have "(2 :: nat) ^ (11 - L) \<le> 2 ^ 11" by (intro power_increasing) simp_all
  then have size: "u32 (16384 * 2 ^ (11 - L)) = ?s" using blk(1) by (simp add: wrap_simps)
  define bt1 where "bt1 = buddy_update (buddy_tree c) u NODE_DEPLETED"
  define bt2 where "bt2 = buddy_update bt1 u NODE_UNMAPPED"
  have b1: "set_buddy_tree_item (buddy_tree c) u NODE_DEPLETED = ret bt1" "length bt1 = 1024"
    "j \<in> {1..4095} \<Longrightarrow> buddy_item bt1 j = (if u = j then NODE_DEPLETED else node_state A D j)" for j
    using buddy_ops(2-4) [OF I(7), of u] ub I(8) [of j] by (simp_all add: bt1_def)
  have b2: "set_buddy_tree_item bt1 u NODE_UNMAPPED = ret bt2" "length bt2 = 1024"
    "j \<in> {1..4095} \<Longrightarrow> buddy_item bt2 j = (if u = j then NODE_UNMAPPED else node_state A D j)" for j
    using buddy_ops(2-4) [OF b1(2), of u] ub b1(3) [of j] by (simp_all add: bt2_def)
  let ?ctx = "\<lparr>bc_idx = u, bc_cur_size = ?s, bc_depth_to_leaf = 11 - L, bc_ptr = ?p, bc_state = DOWN\<rparr>"
  have merge: "merge_depleted ?ctx (c\<lparr>buddy_tree := bt1\<rparr>) = ret (?ctx, c\<lparr>buddy_tree := bt1\<rparr>)"
  proof -
    note sib = sibling_facts [OF ub(1)]
    have "get_buddy_tree_item bt1 (buddy_sibling u) = ret (node_state A D (buddy_sibling u))"
      using buddy_ops(1) [OF b1(2), of "buddy_sibling u"] b1(3) [OF sib(1)] sib(1,3) by auto
    then show ?thesis using node_state_not_depleted by (subst merge_depleted.simps) simp
  qed
  obtain code w' where un: "platform_unmap os w ?p ?s = (code, w')" by force
  have half: "(4095 + 1) div 2 = (2048 :: nat)" by simp
  have run: "chunk_deallocate_run os w c ?p =
     (if code \<noteq> PLATFORM_STATUS_OK then fail Exit
      else bindR (coalesce_unmapped_nodes ?ctx (c\<lparr>buddy_tree := bt2\<rparr>)) (\<lambda>(ctx, chunk). ret (bc_idx ctx = 1, chunk, w')))"
    unfolding chunk_deallocate_run_def Let_def chunk_consts half leaf hit
    by (simp add: b1(1) size coalesce_depleted_nodes_def merge un b2(1) bindR_assoc case_prod_unfold)
  show "chunk_deallocate_run os w c ?p = fail Exit" if "fst (platform_unmap os w ?p ?s) \<noteq> PLATFORM_STATUS_OK"
    using that un run by simp
  show "\<exists>c'. chunk_deallocate_run os w c ?p = ret (taken (insert u D) = lev 11, c', snd (platform_unmap os w ?p ?s))
        \<and> chunk_inv c' (A(u := None)) (insert u D) \<and> key c' = key c \<and> fd c' = fd c \<and> bk c' = bk c"
    if "fst (platform_unmap os w ?p ?s) = PLATFORM_STATUS_OK"
  proof -
    have "\<exists>ctx' bt. coalesce_unmapped_nodes ?ctx (c\<lparr>buddy_tree := bt2\<rparr>) = ret (ctx', c\<lparr>buddy_tree := bt2\<rparr>\<lparr>buddy_tree := bt\<rparr>)
      \<and> length bt = 1024 \<and> (\<forall>n \<in> {1..4095}. buddy_item bt n = node_state (A(u := None)) (insert u D) n)
      \<and> (bc_idx ctx' = 1 \<longleftrightarrow> leaves 1 \<subseteq> taken (insert u D))"
    proof (rule coalesce_unmapped_ok [OF dn'])
      show "leaves (bc_idx ?ctx) \<subseteq> taken (insert u D)" by (auto simp: taken_def)
      show "buddy_item (buddy_tree (c\<lparr>buddy_tree := bt2\<rparr>)) n = (if bc_idx ?ctx \<in> below n \<and> n \<noteq> bc_idx ?ctx then NODE_FREE
          else node_state (A(u := None)) (insert u D) n)" if n: "n \<in> {1..4095}" for n
      proof (cases "n = u")
        case True
        have "node_state (A(u := None)) (insert u D) u = NODE_UNMAPPED"
          using state_unmapped [OF dn' _ ub(2), of u] by (auto simp: taken_def)
        then show ?thesis using True b2(3) [OF ub(2)] by simp
      next
        case False
        then show ?thesis
          using b2(3) [OF n] node_state_free [OF dn u n False] node_state_above [OF dn u _ False n] by simp
      qed
    qed (use ub b2(2) in auto)
    then obtain ctx' bt where co: "coalesce_unmapped_nodes ?ctx (c\<lparr>buddy_tree := bt2\<rparr>) = ret (ctx', c\<lparr>buddy_tree := bt2\<rparr>\<lparr>buddy_tree := bt\<rparr>)"
      "length bt = 1024" "\<forall>n \<in> {1..4095}. buddy_item bt n = node_state (A(u := None)) (insert u D) n"
      "bc_idx ctx' = 1 \<longleftrightarrow> leaves 1 \<subseteq> taken (insert u D)" by (elim exE conjE) (rule that)
    have upd: "c\<lparr>buddy_tree := bt2\<rparr>\<lparr>buddy_tree := bt\<rparr> = c\<lparr>buddy_tree := bt\<rparr>" by simp
    note co1 = co(1) [unfolded upd]
    have whole: "bc_idx ctx' = 1 \<longleftrightarrow> taken (insert u D) = lev 11"
      
    proof -
      have "taken (insert u D) \<subseteq> lev 11" by (auto simp: taken_def leaves_def)
      then show ?thesis using co(4) unfolding leaves_root by blast
    qed
    let ?c' = "c\<lparr>buddy_tree := bt\<rparr>"
    have dom: "dom (A(u := None)) \<union> insert u D = dom A \<union> D" using u by auto
    have "chunk_inv ?c' (A(u := None)) (insert u D)"
    proof (rule chunk_invI)
      show "jump_ok ?c' (avail (taken (dom (A(u := None)) \<union> insert u D))) ({1..4095} - avail (taken (dom (A(u := None)) \<union> insert u D)))"
        using I(6) unfolding dom by (simp add: jump_ok_def)
      show "leaves m \<inter> leaves n = {}" if "m \<in> dom (A(u := None)) \<union> insert u D" "n \<in> dom (A(u := None)) \<union> insert u D" "m \<noteq> n" for m n
        using that I(5) unfolding dom by blast
      show "reg_size_small_medium ?c' ! k = (case (A(u := None)) (k + 2048) of Some r \<Rightarrow> if r = 16384 then 65535 else r | None \<Rightarrow> 65535)"
        if "k < 2048" "k + 2048 \<notin> insert u D" for k using that I(10) [of k] by auto
      show "r < 65535" if "(A(u := None)) i = Some r" "2048 \<le> i" for i r using that I(11) [of i r] by (auto split: if_splits)
    qed (use I(1-4,7,9) co(2,3) ub dom in auto)
    then show ?thesis using run co1 whole that un by auto
  qed
qed

text \<open>C26: deallocating an allocated block terminates, asks the kernel to unmap
  exactly that block, and records it as unmapped for good; all other blocks stay. The result
  says whether the whole chunk has now been unmapped. When the kernel refuses, the process
  exits.\<close>

theorem chunk_deallocate_run_correct:
  fixes os :: "'w os"
  assumes "chunk_inv c A D" "u \<in> dom A"
  shows "if fst (platform_unmap os w (block_ptr c u) (block_size u)) = PLATFORM_STATUS_OK
     then \<exists>c'. chunk_deallocate_run os w c (block_ptr c u) =
          ret (taken (insert u D) = lev 11, c', snd (platform_unmap os w (block_ptr c u) (block_size u)))
        \<and> chunk_inv c' (A(u := None)) (insert u D) \<and> key c' = key c
     else chunk_deallocate_run os w c (block_ptr c u) = fail Exit"
  using chunk_deallocate_run_ok [OF assms, of os w] by (auto split: if_split)

theorem chunk_deallocate_run_correct_witness:
  "\<exists>c u c'. chunk_deallocate_run ex_os [] c (block_ptr c u) = ret (False, c', []) \<and> chunk_inv c' Map.empty {u}"
proof -
  obtain c where c: "chunk_inv c Map.empty {}" using ex_chunk_init by blast
  have "avail (taken (dom Map.empty \<union> {})) \<inter> lev (11 - 0) \<noteq> {}" using level_nonempty [of 11] by (simp add: taken_def)
  then obtain n c' where n: "n \<in> lev 11" "chunk_inv c' [n \<mapsto> 512] {}"
    using chunk_allocate_run_ok(2) [OF c, of 0 512 "rng.make 1 2"] by (auto simp: REG_MARK_BAD_VALUE_def)
  have "platform_unmap ex_os [] (block_ptr c' n) (block_size n) = (PLATFORM_STATUS_OK, [])"
    by (simp add: platform_unmap_def ex_os_def)
  moreover have "taken {n} \<noteq> lev 11"
  proof
    assume "taken {n} = lev 11"
    then have "{n} = lev 11" using leaves_leaf [OF n(1)] by (simp add: taken_def)
    moreover have "2048 \<in> lev 11" "2049 \<in> lev 11" by (simp_all add: lev_def)
    ultimately have "2048 = n" "2049 = n" by blast+
    then show False by simp
  qed
  ultimately show ?thesis using chunk_deallocate_run_correct [OF n(2), of n ex_os "[]"] by auto
qed

end
