(* ===== verification/Arena.thy ===== *)
theory Arena
  imports Bin Internal_Allocator Chunk_Free
begin

text \<open>
  \<open>src/src/arena.c\<close>: the arena owns the lists of chunks, of huge mappings and of metadata
  pools, the bins, and the addresses where it probes the kernel for more memory.

  The state is the struct \<open>arena_t\<close> and the memory \<open>'w mem\<close>: one store per type of metadata
  object, the bytes of the user's memory, the states of the random number generators and
  of the kernel. A bin is named by its index in \<open>bins\<close>. A metadata object exists from the
  call that initialises it to the call of \<open>arena_internal_free\<close> with its address; a stale
  pointer to it is then a fault. The default build is modelled: no assertions, no debug
  log, no statistics file.
\<close>

subsection \<open>State\<close>

record huge_chunk_t = ll_entry +
  hlen :: nat

definition ARENA_NO_BINS :: nat where
  "ARENA_NO_BINS = NO_SMALL_SIZE_CLASSES + NO_MEDIUM_SIZE_CLASSES + NO_LARGE_SIZE_CLASSES"

record arena_t =
  is_initialized :: bool
  secret :: "32 word"
  brk :: addr
  chunk_list :: addr
  huge_alloc_list :: addr
  internal_alloc_list :: addr
  chunk_alloc_ptr :: addr
  huge_alloc_ptr :: addr
  internal_alloc_ptr :: addr
  bins :: "bin_t list"

record 'w mem =
  runs :: "addr \<rightharpoonup> run_t"
  chunks :: "addr \<rightharpoonup> chunk_t"
  huges :: "addr \<rightharpoonup> huge_chunk_t"
  ias :: "addr \<rightharpoonup> int_alloc_t"
  bytes :: "addr \<Rightarrow> 8 word"
  prng :: rng
  world :: 'w

text \<open>
  The sizes of the metadata structs in bytes, with the alignment of the 64-bit ABI: a list
  entry has 24 bytes. The flexible \<open>reg_bitmap\<close> starts at the end of \<open>run_t\<close>.
\<close>

definition RUN_T_SIZE :: nat where "RUN_T_SIZE = 24 + 4 * 2"
definition HUGE_CHUNK_T_SIZE :: nat where "HUGE_CHUNK_T_SIZE = 24 + 8"
definition CHUNK_T_SIZE :: nat where
  "CHUNK_T_SIZE = (24 + 2 * (CHUNK_BUDDY_TREE_DEPTH + 1) + 2 * CHUNK_NO_NODES_LAST_LAYER
     + 4 * (CHUNK_BUDDY_TREE_DEPTH + 1) + 4 * CHUNK_NO_NODES + CHUNK_BUDDY_TREE_SIZE_BYTES + 7) div 8 * 8"

text \<open>
  The content of metadata memory before initialisation. The initialisers overwrite all of
  it, so any value would do.
\<close>

definition run_raw :: run_t where
  "run_raw = \<lparr>fd = 0, bk = 0, key = 0, navail = 0, nfreed = 0, gen = 0, current_idx = 0, reg_bitmap = []\<rparr>"

definition chunk_raw :: chunk_t where
  "chunk_raw = \<lparr>fd = 0, bk = 0, key = 0, avail_nodes_count = replicate (CHUNK_BUDDY_TREE_DEPTH + 1) 0,
     reg_size_small_medium = replicate CHUNK_NO_NODES_LAST_LAYER 0,
     jump_tree_first_index = replicate (CHUNK_BUDDY_TREE_DEPTH + 1) 0,
     jump_tree = replicate CHUNK_NO_NODES \<lparr>prev = 0, next = 0\<rparr>, buddy_tree = replicate CHUNK_BUDDY_TREE_SIZE_BYTES 0\<rparr>"

definition bin_zero :: bin_t where
  "bin_zero = \<lparr>run_list_inactive = 0, run_list_active = 0, run_list_active_cnt = 0, avail_regs = 0,
     reg_size = 0, run_size_pages = 0, reg_mask_size_bits = 0\<rparr>"

subsection \<open>Probe pointers\<close>

type_synonym reset_fun = "arena_t \<Rightarrow> rng \<Rightarrow> (arena_t \<times> rng) res"

text \<open>\<open>brk + splitmix64() % (MAX_USERSPACE_ADDR64 - brk)\<close>, rounded up to a page.\<close>

definition random_above_brk :: "arena_t \<Rightarrow> rng \<Rightarrow> (addr \<times> rng) res" where
  "random_above_brk arena g =
     (let (r, g) = splitmix64 g; range = sub64 MAX_USERSPACE_ADDR64 (brk arena)
      in if range = 0 then fail DivByZero
         else ret (alignup_page64 (u64 (brk arena + unat r mod range)), g))"

definition reset_ia_ptr_start :: reset_fun where
  "reset_ia_ptr_start arena g =
     bindR (random_above_brk arena g) (\<lambda>(p, g). ret (arena\<lparr>internal_alloc_ptr := p\<rparr>, g))"

definition reset_huge_alloc_ptr_start :: reset_fun where
  "reset_huge_alloc_ptr_start arena g =
     bindR (random_above_brk arena g) (\<lambda>(p, g). ret (arena\<lparr>huge_alloc_ptr := p\<rparr>, g))"

definition reset_chunk_ptr_start :: reset_fun where
  "reset_chunk_ptr_start arena g =
     (let (r, g) = splitmix32 g;
          arena = arena\<lparr>chunk_alloc_ptr := unat (ALIGNUP_PAGE r)\<rparr>
      in if of_nat (brk arena) \<le> MASK_44_BITS then
           let (r, g) = splitmix64 g in ret (arena\<lparr>brk := unat (ALIGNUP_PAGE (r AND MASK_45_BITS))\<rparr>, g)
         else ret (arena, g))"

text \<open>\<open>probe_ptr\<close> points to one of three fields of the arena.\<close>

datatype probe_ptr = CHUNK_ALLOC_PTR | HUGE_ALLOC_PTR | INTERNAL_ALLOC_PTR

fun get_probe :: "probe_ptr \<Rightarrow> arena_t \<Rightarrow> addr" where
  "get_probe CHUNK_ALLOC_PTR arena = chunk_alloc_ptr arena"
| "get_probe HUGE_ALLOC_PTR arena = huge_alloc_ptr arena"
| "get_probe INTERNAL_ALLOC_PTR arena = internal_alloc_ptr arena"

fun set_probe :: "probe_ptr \<Rightarrow> addr \<Rightarrow> arena_t \<Rightarrow> arena_t" where
  "set_probe CHUNK_ALLOC_PTR p arena = arena\<lparr>chunk_alloc_ptr := p\<rparr>"
| "set_probe HUGE_ALLOC_PTR p arena = arena\<lparr>huge_alloc_ptr := p\<rparr>"
| "set_probe INTERNAL_ALLOC_PTR p arena = arena\<lparr>internal_alloc_ptr := p\<rparr>"

text \<open>
  \<open>ceil\<close> is a pointer that every probe reads again: to the constant \<open>MAX_USERSPACE_ADDR64\<close>
  or to \<open>brk\<close>, which \<open>reset_chunk_ptr_start\<close> may change.
\<close>

partial_function (option) arena_morecore ::
    "'w os \<Rightarrow> probe_ptr \<Rightarrow> reset_fun \<Rightarrow> nat \<Rightarrow> (arena_t \<Rightarrow> addr) \<Rightarrow> arena_t \<Rightarrow> 'w mem
       \<Rightarrow> (addr \<times> arena_t \<times> 'w mem) res" where
  "arena_morecore os pp reset sz ceil arena m =
     bindR (platform_map_probe os (world m) (get_probe pp arena) (ceil arena) sz) (\<lambda>(code, q, w).
       let arena = set_probe pp q arena; m = m\<lparr>world := w\<rparr>
       in if code = PLATFORM_STATUS_OK then ret (q, arena, m)
          else if code = PLATFORM_STATUS_CEILING_HIT then
            bindR (reset arena (prng m)) (\<lambda>(arena, g). arena_morecore os pp reset sz ceil arena (m\<lparr>prng := g\<rparr>))
          else if code = PLATFORM_DIFFERENT_ADDRESS then
            bindR (reset arena (prng m)) (\<lambda>(arena, g). ret (q, arena, m\<lparr>prng := g\<rparr>))
          else arena_morecore os pp reset sz ceil arena m)"

subsection \<open>Metadata allocation\<close>

text \<open>The loop over the pools, and the search for the pool that holds an address.\<close>

partial_function (option) ia_alloc_loop ::
    "nat \<Rightarrow> addr \<Rightarrow> (addr \<rightharpoonup> int_alloc_t) \<Rightarrow> (addr \<times> (addr \<rightharpoonup> int_alloc_t)) res" where
  "ia_alloc_loop sz root h =
     (if root = 0 then ret (0, h)
      else bindR (load h root) (\<lambda>r.
           bindR (internal_alloc root r sz) (\<lambda>(alloc, r).
           let h = h(root \<mapsto> r)
           in if alloc \<noteq> 0 then ret (alloc, h) else ia_alloc_loop sz (fd r) h)))"

definition arena_internal_alloc ::
    "'w os \<Rightarrow> arena_t \<Rightarrow> 'w mem \<Rightarrow> nat \<Rightarrow> (addr \<times> arena_t \<times> 'w mem) res" where
  "arena_internal_alloc os arena m sz =
     bindR (ia_alloc_loop sz (internal_alloc_list arena) (ias m)) (\<lambda>(alloc, h).
     let m = m\<lparr>ias := h\<rparr> in
     if alloc \<noteq> 0 then ret (alloc, arena, m)
     else
       bindR (arena_morecore os INTERNAL_ALLOC_PTR reset_ia_ptr_start (alignup_page64 INT_ALLOC_T_SIZE)
                (\<lambda>_. MAX_USERSPACE_ADDR64) arena m) (\<lambda>(map, arena, m).
       let arena = (if map = internal_alloc_ptr arena
                    then arena\<lparr>internal_alloc_ptr := u64 (internal_alloc_ptr arena + alignup_page64 INT_ALLOC_T_SIZE)\<rparr>
                    else arena);
           h = (ias m)(map \<mapsto> internal_allocator_init map)
       in bindR (ll_add h (internal_alloc_list arena) map) (\<lambda>(head, h).
          bindR (load h map) (\<lambda>r.
          bindR (internal_alloc map r sz) (\<lambda>(alloc, r).
          ret (alloc, arena\<lparr>internal_alloc_list := head\<rparr>, m\<lparr>ias := h(map \<mapsto> r)\<rparr>))))))"

partial_function (option) ia_find_loop :: "(addr \<rightharpoonup> int_alloc_t) \<Rightarrow> addr \<Rightarrow> addr \<Rightarrow> addr res" where
  "ia_find_loop h ptr_dest root =
     (if root = 0 then ret 0
      else bindR (load h root) (\<lambda>r.
        if ia_memory root \<le> ptr_dest \<and> ptr_dest \<le> u64 (ia_memory root + INTERNAL_ALLOC_CHUNK_SIZE_BYTES) then ret root
        else ia_find_loop h ptr_dest (fd r)))"

text \<open>With the memory of an object the object goes.\<close>

definition forget :: "addr \<Rightarrow> 'w mem \<Rightarrow> 'w mem" where
  "forget p m = m\<lparr>runs := (runs m)(p := None), chunks := (chunks m)(p := None), huges := (huges m)(p := None)\<rparr>"

definition arena_internal_free :: "arena_t \<Rightarrow> 'w mem \<Rightarrow> addr \<Rightarrow> 'w mem res" where
  "arena_internal_free arena m ptr =
     bindR (ia_find_loop (ias m) ptr (internal_alloc_list arena)) (\<lambda>root.
     if root = 0 then fail Exit
     else bindR (load (ias m) root) (\<lambda>r.
          bindR (internal_free root r ptr) (\<lambda>r.
          ret (forget ptr (m\<lparr>ias := (ias m)(root \<mapsto> r)\<rparr>)))))"

subsection \<open>Chunks and runs\<close>

definition arena_allocate_chunk :: "'w os \<Rightarrow> arena_t \<Rightarrow> 'w mem \<Rightarrow> (addr \<times> arena_t \<times> 'w mem) res" where
  "arena_allocate_chunk os arena m =
     bindR (arena_internal_alloc os arena m CHUNK_T_SIZE) (\<lambda>(chunk_meta, arena, m).
     bindR (arena_morecore os CHUNK_ALLOC_PTR reset_chunk_ptr_start CHUNK_SIZE_BYTES brk arena m) (\<lambda>(ptr, arena, m).
     let arena = (if ptr = chunk_alloc_ptr arena
                  then arena\<lparr>chunk_alloc_ptr := u64 (chunk_alloc_ptr arena + (CHUNK_SIZE_BYTES + PAGE_SIZE))\<rparr> else arena)
     in if chunk_meta = 0 then fail Segv
        else bindR (chunk_init chunk_raw ptr) (\<lambda>c.
             bindR (ll_add ((chunks m)(chunk_meta \<mapsto> c)) (chunk_list arena) chunk_meta) (\<lambda>(head, h).
             ret (chunk_meta, arena\<lparr>chunk_list := head\<rparr>, m\<lparr>chunks := h\<rparr>)))))"

definition arena_deallocate_chunk :: "arena_t \<Rightarrow> 'w mem \<Rightarrow> addr \<Rightarrow> (arena_t \<times> 'w mem) res" where
  "arena_deallocate_chunk arena m chunk =
     bindR (ll_del (chunks m) (chunk_list arena) chunk) (\<lambda>(head, h).
     let arena = arena\<lparr>chunk_list := head\<rparr>
     in bindR (arena_internal_free arena (m\<lparr>chunks := h\<rparr>) chunk) (\<lambda>m. ret (arena, m)))"

text \<open>The loop over the chunks in \<open>arena_allocate_run\<close>.\<close>

partial_function (option) chunk_alloc_loop ::
    "nat \<Rightarrow> nat \<Rightarrow> addr \<Rightarrow> (addr \<rightharpoonup> chunk_t) \<Rightarrow> rng \<Rightarrow> (addr \<times> (addr \<rightharpoonup> chunk_t) \<times> rng) res" where
  "chunk_alloc_loop run_bytes rs entry h g =
     (if entry = 0 then ret (0, h, g)
      else bindR (load h entry) (\<lambda>c.
           bindR (chunk_allocate_run c run_bytes rs g) (\<lambda>(run_ptr, c, g).
           let h = h(entry \<mapsto> c)
           in if run_ptr \<noteq> 0 then ret (run_ptr, h, g) else chunk_alloc_loop run_bytes rs (fd c) h g)))"

text \<open>The metadata of a new run: both ends of \<open>arena_allocate_run\<close>.\<close>

definition new_run :: "'w os \<Rightarrow> arena_t \<Rightarrow> 'w mem \<Rightarrow> bin_t \<Rightarrow> addr \<Rightarrow> (addr \<times> arena_t \<times> 'w mem) res" where
  "new_run os arena m bin run_ptr =
     bindR (arena_internal_alloc os arena m (RUN_T_SIZE + BITS2BYTES_CEIL (reg_mask_size_bits bin))) (\<lambda>(run, arena, m).
     if run = 0 then fail Segv
     else bindR (run_init run_raw bin run_ptr (prng m)) (\<lambda>(r, g).
          ret (run, arena, m\<lparr>runs := (runs m)(run \<mapsto> r), prng := g\<rparr>)))"

definition arena_allocate_run :: "'w os \<Rightarrow> arena_t \<Rightarrow> 'w mem \<Rightarrow> bin_t \<Rightarrow> (addr \<times> arena_t \<times> 'w mem) res" where
  "arena_allocate_run os arena m bin =
     (let run_bytes = u32 (run_size_pages bin * PAGE_SIZE)
      in bindR (chunk_alloc_loop run_bytes (reg_size bin) (chunk_list arena) (chunks m) (prng m)) (\<lambda>(run_ptr, h, g).
         let m = m\<lparr>chunks := h, prng := g\<rparr>
         in if run_ptr \<noteq> 0 then new_run os arena m bin run_ptr
            else
              bindR (arena_allocate_chunk os arena m) (\<lambda>(chunk, arena, m).
              bindR (load (chunks m) chunk) (\<lambda>c.
              bindR (chunk_allocate_run c run_bytes (reg_size bin) (prng m)) (\<lambda>(run_ptr, c, g).
              new_run os arena (m\<lparr>chunks := (chunks m)(chunk \<mapsto> c), prng := g\<rparr>) bin run_ptr)))))"

text \<open>The search for the next chunk whose range holds a pointer, by signed comparison.\<close>

partial_function (option) chunk_of_loop :: "(addr \<rightharpoonup> chunk_t) \<Rightarrow> addr \<Rightarrow> addr \<Rightarrow> addr res" where
  "chunk_of_loop h ptr entry =
     (if entry = 0 then ret 0
      else bindR (load h entry) (\<lambda>c.
        let target = sint (of_nat ptr :: 64 word); start = sint (of_nat (key c) :: 64 word)
        in if start \<le> target \<and> target < start + int CHUNK_SIZE_BYTES then ret entry
           else chunk_of_loop h ptr (fd c)))"

definition arena_get_chunk_from_ptr :: "arena_t \<Rightarrow> 'w mem \<Rightarrow> addr \<Rightarrow> addr \<Rightarrow> addr res" where
  "arena_get_chunk_from_ptr arena m ptr start_chunk =
     (if start_chunk = 0 then chunk_of_loop (chunks m) ptr (chunk_list arena)
      else bindR (load (chunks m) start_chunk) (\<lambda>c. chunk_of_loop (chunks m) ptr (fd c)))"

subsection \<open>Bins\<close>

text \<open>The bin of a size class, initialised at its first use: its index and the arena.\<close>

definition bin_index :: "nat \<Rightarrow> nat" where
  "bin_index sz =
     (if IS_SIZE_SMALL sz then SIZE_TO_IDX_SMALL sz
      else if IS_SIZE_MEDIUM sz then NO_SMALL_SIZE_CLASSES + size_to_idx_medium sz
      else NO_SMALL_SIZE_CLASSES + NO_MEDIUM_SIZE_CLASSES + size_to_idx_large sz)"

definition arena_get_bin_by_reg_size :: "arena_t \<Rightarrow> nat \<Rightarrow> (nat \<times> arena_t) res" where
  "arena_get_bin_by_reg_size arena sz =
     (let i = bin_index sz
      in bindR (arr_get (bins arena) i) (\<lambda>bin.
         if reg_size bin = 0 then bindR (bin_init bin sz) (\<lambda>bin. ret (i, arena\<lparr>bins := (bins arena)[i := bin]\<rparr>))
         else ret (i, arena)))"

text \<open>One round of \<open>arena_supply_runs\<close> and of the refill in \<open>sealloc_allocate_with_bin\<close>: False on a null run.\<close>

definition add_run_to_bin :: "'w os \<Rightarrow> arena_t \<Rightarrow> 'w mem \<Rightarrow> nat \<Rightarrow> (bool \<times> arena_t \<times> 'w mem) res" where
  "add_run_to_bin os arena m i =
     bindR (arr_get (bins arena) i) (\<lambda>bin.
     bindR (arena_allocate_run os arena m bin) (\<lambda>(run, arena, m).
     if run = 0 then ret (False, arena, m)
     else bindR (bin_add_run bin (runs m) run) (\<lambda>(bin, h).
          ret (True, arena\<lparr>bins := (bins arena)[i := bin]\<rparr>, m\<lparr>runs := h\<rparr>))))"

fun supply_loop :: "'w os \<Rightarrow> nat \<Rightarrow> arena_t \<Rightarrow> 'w mem \<Rightarrow> nat \<Rightarrow> (bool \<times> arena_t \<times> 'w mem) res" where
  "supply_loop os i arena m 0 = ret (True, arena, m)"
| "supply_loop os i arena m (Suc n) =
     bindR (add_run_to_bin os arena m i) (\<lambda>(ok, arena, m).
       if ok then supply_loop os i arena m n else ret (False, arena, m))"

definition arena_supply_runs :: "'w os \<Rightarrow> arena_t \<Rightarrow> 'w mem \<Rightarrow> nat \<Rightarrow> (bool \<times> arena_t \<times> 'w mem) res" where
  "arena_supply_runs os arena m i =
     bindR (arr_get (bins arena) i) (\<lambda>bin.
       if reg_mask_size_bits bin div 2 = 0 then fail DivByZero
       else supply_loop os i arena m
              (ceil_div (sub32 BIN_MINIMUM_REGIONS (avail_regs bin)) (reg_mask_size_bits bin div 2)))"

subsection \<open>Huge mappings\<close>

text \<open>\<open>memcpy(dst, src, n)\<close> and \<open>memset(dst, v, n)\<close> on the user's memory.\<close>

definition mem_copy :: "(addr \<Rightarrow> 8 word) \<Rightarrow> addr \<Rightarrow> addr \<Rightarrow> nat \<Rightarrow> addr \<Rightarrow> 8 word" where
  "mem_copy b dst src n = (\<lambda>x. if dst \<le> x \<and> x < dst + n then b (src + (x - dst)) else b x)"

definition mem_set :: "(addr \<Rightarrow> 8 word) \<Rightarrow> addr \<Rightarrow> 8 word \<Rightarrow> nat \<Rightarrow> addr \<Rightarrow> 8 word" where
  "mem_set b dst v n = (\<lambda>x. if dst \<le> x \<and> x < dst + n then v else b x)"

definition arena_find_huge_mapping :: "arena_t \<Rightarrow> 'w mem \<Rightarrow> addr \<Rightarrow> addr res" where
  "arena_find_huge_mapping arena m huge_map = ll_find (huges m) (huge_alloc_list arena) huge_map"

definition arena_allocate_huge_mapping :: "'w os \<Rightarrow> arena_t \<Rightarrow> 'w mem \<Rightarrow> nat \<Rightarrow> (addr \<times> arena_t \<times> 'w mem) res" where
  "arena_allocate_huge_mapping os arena m len =
     bindR (arena_internal_alloc os arena m HUGE_CHUNK_T_SIZE) (\<lambda>(huge, arena, m).
     if huge = 0 then fail Segv
     else bindR (arena_morecore os HUGE_ALLOC_PTR reset_huge_alloc_ptr_start len (\<lambda>_. MAX_USERSPACE_ADDR64) arena m) (\<lambda>(map, arena, m).
     let h = (huges m)(huge \<mapsto> \<lparr>fd = 0, bk = 0, key = map, hlen = len\<rparr>);
         arena = (if map = huge_alloc_ptr arena
                  then arena\<lparr>huge_alloc_ptr := u64 (huge_alloc_ptr arena + u64 (len + PAGE_SIZE))\<rparr> else arena)
     in bindR (ll_add h (huge_alloc_list arena) huge) (\<lambda>(head, h).
        ret (huge, arena\<lparr>huge_alloc_list := head\<rparr>, m\<lparr>huges := h\<rparr>))))"

definition arena_reallocate_huge_mapping :: "'w os \<Rightarrow> arena_t \<Rightarrow> 'w mem \<Rightarrow> addr \<Rightarrow> nat \<Rightarrow> (arena_t \<times> 'w mem) res" where
  "arena_reallocate_huge_mapping os arena m huge new_size =
     bindR (arena_morecore os HUGE_ALLOC_PTR reset_huge_alloc_ptr_start new_size (\<lambda>_. MAX_USERSPACE_ADDR64) arena m) (\<lambda>(map, arena, m).
     let arena = (if map = huge_alloc_ptr arena
                  then arena\<lparr>huge_alloc_ptr := u64 (huge_alloc_ptr arena + u64 (new_size + PAGE_SIZE))\<rparr> else arena)
     in bindR (load (huges m) huge) (\<lambda>x.
        let b = (if new_size < hlen x then mem_copy (bytes m) map (key x) new_size
                 else mem_copy (bytes m) map (key x) (hlen x));
            (code, w) = platform_unmap os (world m) (key x) (hlen x)
        in if code \<noteq> PLATFORM_STATUS_OK then fail Exit
           else ret (arena, m\<lparr>bytes := b, world := w, huges := (huges m)(huge \<mapsto> x\<lparr>key := map, hlen := new_size\<rparr>)\<rparr>)))"

definition arena_deallocate_huge_mapping :: "'w os \<Rightarrow> arena_t \<Rightarrow> 'w mem \<Rightarrow> addr \<Rightarrow> (arena_t \<times> 'w mem) res" where
  "arena_deallocate_huge_mapping os arena m huge =
     bindR (load (huges m) huge) (\<lambda>x.
     let (code, w) = platform_unmap os (world m) (key x) (hlen x)
     in if code \<noteq> PLATFORM_STATUS_OK then fail Exit
        else bindR (ll_del (huges m) (huge_alloc_list arena) huge) (\<lambda>(head, h).
             let arena = arena\<lparr>huge_alloc_list := head\<rparr>
             in bindR (arena_internal_free arena (m\<lparr>world := w, huges := h\<rparr>) huge) (\<lambda>m. ret (arena, m))))"

subsection \<open>Initialisation\<close>

definition arena_init :: "'w os \<Rightarrow> arena_t \<Rightarrow> 'w mem \<Rightarrow> (arena_t \<times> 'w mem) res" where
  "arena_init os arena m =
     bindR (case os_getenv os (world m) ''SEALLOC_SEED'' of
              Some user_rand \<Rightarrow> ret (arena\<lparr>secret := str2u32 user_rand\<rparr>, world m)
            | None \<Rightarrow>
                (case platform_get_random os (world m) of
                   (code, buf, w) \<Rightarrow>
                     if code \<noteq> PLATFORM_STATUS_OK then fail Exit
                     else ret (case buf of Some v \<Rightarrow> arena\<lparr>secret := v\<rparr> | None \<Rightarrow> arena, w))) (\<lambda>(arena, w).
     let (code, ptr, w) = platform_get_program_break os w
     in if code \<noteq> PLATFORM_STATUS_OK then fail Exit
        else
          let arena = arena\<lparr>brk := ptr\<rparr>;
              g = init_splitmix64 (ucast (secret arena)) (init_splitmix32 (secret arena) (prng m));
              arena = arena\<lparr>internal_alloc_list := ll_init, chunk_list := ll_init, huge_alloc_list := ll_init,
                        is_initialized := True\<rparr>
          in bindR (reset_chunk_ptr_start arena g) (\<lambda>(arena, g).
             bindR (reset_ia_ptr_start arena g) (\<lambda>(arena, g).
             bindR (reset_huge_alloc_ptr_start arena g) (\<lambda>(arena, g).
             ret (arena\<lparr>bins := replicate ARENA_NO_BINS bin_zero\<rparr>, m\<lparr>prng := g, world := w\<rparr>)))))"

end
