(* ===== verification/Arena_Memory.thy ===== *)
theory Arena_Memory
  imports Arena
begin

text \<open>
  Getting memory from the kernel: the probe pointers of \<open>src/src/arena.c\<close> and the loop
  \<open>arena_morecore\<close>. What the code relies on in the kernel is stated as predicates on the parameter \<open>os\<close>.
  \<open>os_contract\<close> holds of every kernel: what \<open>mmap\<close> and \<open>munmap\<close> do to the address space. It is enough for all that a call
  promises when it returns. That a call returns needs more, since the loop tries again for ever when the kernel refuses with another error than
  \<open>EEXIST\<close>: \<open>provision\<close> says that the kernel honours the fixed address, has memory left, and that there is room
  above the probe pointers, below the addresses where it answers \<open>ENOMEM\<close> and above those where it answers \<open>EPERM\<close>.
\<close>

subsection \<open>What the code relies on\<close>

text \<open>
  \<open>mapped w\<close> are the addresses of the process that are mapped in the kernel state \<open>w\<close>. A
  successful \<open>mmap\<close> with \<open>MAP_FIXED_NOREPLACE\<close> maps pages of the user half that were not mapped, at
  the hint or, on kernels that do not know the flag, elsewhere; \<open>munmap\<close> removes whole pages.
\<close>

definition os_sound :: "'w os \<Rightarrow> ('w \<Rightarrow> addr set) \<Rightarrow> bool" where
  "os_sound os mapped \<longleftrightarrow>
     (\<forall>w p len q w'. 4096 dvd len \<longrightarrow> os_mmap_noreplace os w p len = (Inr q, w') \<longrightarrow>
        0 < q \<and> 4096 dvd q \<and> q + len \<le> 2 ^ 47 \<and> {q..<q + len} \<inter> mapped w = {} \<and> mapped w' = mapped w \<union> {q..<q + len})
     \<and> (\<forall>w p len w'. 4096 dvd p \<longrightarrow> 4096 dvd len \<longrightarrow> os_munmap os w p len = (None, w') \<longrightarrow> mapped w' = mapped w - {p..<p + len})"

text \<open>A mapping that is refused, with whatever error, maps and unmaps nothing.\<close>

definition os_contract :: "'w os \<Rightarrow> ('w \<Rightarrow> addr set) \<Rightarrow> bool" where
  "os_contract os mapped \<longleftrightarrow> os_sound os mapped
     \<and> (\<forall>w p len e w'. os_mmap_noreplace os w p len = (Inl e, w') \<longrightarrow> mapped w' = mapped w)"

lemma os_contractD: "os_contract os mapped \<Longrightarrow> os_sound os mapped"
  by (simp add: os_contract_def)

text \<open>
  The answer of Linux to \<open>mmap\<close> with \<open>MAP_FIXED_NOREPLACE\<close>, from version 4.17 on, while memory lasts: pages at or above
  \<open>mmap_min_addr\<close> (64 KiB) and below the end of the user half are mapped where asked if they are free, and refused with
  \<open>EEXIST\<close> if something is mapped there. Nothing is said about other addresses, where the errors are \<open>EINVAL\<close>, \<open>EPERM\<close> and \<open>ENOMEM\<close>.
\<close>

definition MMAP_MIN_ADDR :: nat where "MMAP_MIN_ADDR = 65536"
definition USER_TOP :: nat where "USER_TOP = 0x7ffffffff000"

definition os_answers :: "'w os \<Rightarrow> ('w \<Rightarrow> addr set) \<Rightarrow> nat \<Rightarrow> 'w \<Rightarrow> bool" where
  "os_answers os mapped L w \<longleftrightarrow>
     (\<forall>p len. 4096 dvd p \<longrightarrow> 4096 dvd len \<longrightarrow> MMAP_MIN_ADDR \<le> p \<longrightarrow> 0 < len \<longrightarrow> len \<le> L \<longrightarrow> p + len \<le> USER_TOP \<longrightarrow>
        (if {p..<p + len} \<inter> mapped w = {} then \<exists>w'. os_mmap_noreplace os w p len = (Inr p, w')
         else os_mmap_noreplace os w p len = (Inl EEXIST, w)))"

text \<open>Memory lasts for \<open>n\<close> mappings of at most \<open>L\<close> bytes.\<close>

fun os_serves :: "'w os \<Rightarrow> ('w \<Rightarrow> addr set) \<Rightarrow> nat \<Rightarrow> nat \<Rightarrow> 'w \<Rightarrow> bool" where
  "os_serves os mapped L 0 w \<longleftrightarrow> True"
| "os_serves os mapped L (Suc n) w \<longleftrightarrow> os_answers os mapped L w
     \<and> (\<forall>p len w'. 0 < len \<longrightarrow> len \<le> L \<longrightarrow> os_mmap_noreplace os w p len = (Inr p, w') \<longrightarrow> os_serves os mapped L n w')"

lemma serves_Suc: "os_serves os mapped L (Suc n) w \<Longrightarrow> os_serves os mapped L n w"
proof (induction n arbitrary: w)
  case (Suc n)
  have "os_answers os mapped L w" using Suc.prems by simp
  moreover have "os_serves os mapped L n w'" if "0 < len" "len \<le> L" "os_mmap_noreplace os w p len = (Inr p, w')" for p len w'
  proof -
    have "os_serves os mapped L (Suc n) w'" using Suc.prems that unfolding os_serves.simps(2) [of os mapped L "Suc n" w] by blast
    then show ?thesis by (rule Suc.IH)
  qed
  ultimately show ?case unfolding os_serves.simps(2) [of os mapped L n w] by blast
qed simp

text \<open>
  Room for \<open>n\<close> chunks between the chunk pointer \<open>cp\<close> and the break \<open>b\<close>, and for \<open>n\<close> pools and a mapping of \<open>L\<close> bytes above the
  pointers \<open>hp\<close> and \<open>ip\<close> for huge and internal mappings; \<open>g\<close> and \<open>h\<close> are the starts of the free pages. A request leaves a page free
  behind its mapping. The pages between a pointer and the free ones may be mapped or not.
\<close>

definition room_bytes :: "nat \<Rightarrow> nat" where
  "room_bytes n = n * (CHUNK_SIZE_BYTES + PAGE_SIZE)"

definition room :: "('w \<Rightarrow> addr set) \<Rightarrow> nat \<Rightarrow> nat \<Rightarrow> addr \<Rightarrow> addr \<Rightarrow> addr \<Rightarrow> addr \<Rightarrow> 'w \<Rightarrow> bool" where
  "room mapped L n b cp hp ip w \<longleftrightarrow> (\<exists>g h. 4096 dvd cp \<and> 4096 dvd hp \<and> 4096 dvd ip \<and> 4096 dvd g \<and> 4096 dvd h
     \<and> MMAP_MIN_ADDR \<le> cp \<and> cp \<le> g \<and> g + room_bytes n \<le> b \<and> {g..<g + room_bytes n} \<inter> mapped w = {}
     \<and> b \<le> hp \<and> b \<le> ip \<and> hp \<le> h \<and> ip \<le> h \<and> h + room_bytes n + L \<le> USER_TOP \<and> {h..<h + room_bytes n + L} \<inter> mapped w = {})"

definition supplied :: "'w os \<Rightarrow> ('w \<Rightarrow> addr set) \<Rightarrow> nat \<Rightarrow> nat \<Rightarrow> addr \<Rightarrow> addr \<Rightarrow> addr \<Rightarrow> addr \<Rightarrow> 'w \<Rightarrow> bool" where
  "supplied os mapped L n b cp hp ip w \<longleftrightarrow> os_serves os mapped L (Suc n) w \<and> room mapped L n b cp hp ip w"

abbreviation provision :: "'w os \<Rightarrow> ('w \<Rightarrow> addr set) \<Rightarrow> nat \<Rightarrow> nat \<Rightarrow> arena_t \<Rightarrow> 'w mem \<Rightarrow> bool" where
  "provision os mapped L n a m \<equiv>
     supplied os mapped L n (brk a) (chunk_alloc_ptr a) (huge_alloc_ptr a) (internal_alloc_ptr a) (world m)"

lemma gap_sub:
  fixes h n k :: nat
  assumes "{h..<h + n} \<inter> M = {}" "k \<le> n"
  shows "{h..<h + k} \<inter> M = {}"
proof -
  have "{h..<h + k} \<subseteq> {h..<h + n}" using assms(2) by auto
  then show ?thesis using assms(1) by blast
qed

lemma room_Suc: "room mapped L (Suc n) b cp hp ip w \<Longrightarrow> room mapped L n b cp hp ip w"
proof -
  have r: "room_bytes n \<le> room_bytes (Suc n)" by (simp add: room_bytes_def)
  have sub: "{x..<x + room_bytes n} \<subseteq> {x..<x + room_bytes (Suc n)}" "{x..<x + room_bytes n + L} \<subseteq> {x..<x + room_bytes (Suc n) + L}" for x
    using r by auto
  assume "room mapped L (Suc n) b cp hp ip w"
  then obtain g h where R: "4096 dvd cp" "4096 dvd hp" "4096 dvd ip" "4096 dvd g" "4096 dvd h" "MMAP_MIN_ADDR \<le> cp" "cp \<le> g" "g + room_bytes (Suc n) \<le> b"
    "{g..<g + room_bytes (Suc n)} \<inter> mapped w = {}" "b \<le> hp" "b \<le> ip" "hp \<le> h" "ip \<le> h" "h + room_bytes (Suc n) + L \<le> USER_TOP"
    "{h..<h + room_bytes (Suc n) + L} \<inter> mapped w = {}"
    unfolding room_def by blast
  have "{g..<g + room_bytes n} \<inter> mapped w = {}" "{h..<h + room_bytes n + L} \<inter> mapped w = {}" using R(9,15) sub by blast+
  moreover have "g + room_bytes n \<le> b" "h + room_bytes n + L \<le> USER_TOP" using R(8,14) r by simp_all
  ultimately show ?thesis unfolding room_def using R(1-7,10-13) by blast
qed

lemma supplied_mono: "supplied os mapped L n b cp hp ip w \<Longrightarrow> k \<le> n \<Longrightarrow> supplied os mapped L k b cp hp ip w"
proof (induction n)
  case (Suc n)
  show ?case
  proof (cases "k = Suc n")
    case False
    have "os_serves os mapped L (Suc n) w" using Suc.prems(1) serves_Suc by (auto simp: supplied_def simp del: os_serves.simps)
    then have "supplied os mapped L n b cp hp ip w" using Suc.prems(1) room_Suc by (auto simp: supplied_def simp del: os_serves.simps)
    then show ?thesis using Suc.IH False Suc.prems(2) by simp
  qed (use Suc.prems(1) in simp)
qed simp

lemma supplied_Suc: "supplied os mapped L (Suc n) b cp hp ip w \<Longrightarrow> supplied os mapped L n b cp hp ip w"
  by (rule supplied_mono [where n = "Suc n"]) simp_all

subsection \<open>Probe pointers\<close>

text \<open>Every probe pointer has its reset function and its ceiling.\<close>

fun reset_of :: "probe_ptr \<Rightarrow> reset_fun" where
  "reset_of CHUNK_ALLOC_PTR = reset_chunk_ptr_start"
| "reset_of HUGE_ALLOC_PTR = reset_huge_alloc_ptr_start"
| "reset_of INTERNAL_ALLOC_PTR = reset_ia_ptr_start"

fun ceil_of :: "probe_ptr \<Rightarrow> arena_t \<Rightarrow> addr" where
  "ceil_of CHUNK_ALLOC_PTR = brk"
| "ceil_of HUGE_ALLOC_PTR = (\<lambda>_. MAX_USERSPACE_ADDR64)"
| "ceil_of INTERNAL_ALLOC_PTR = (\<lambda>_. MAX_USERSPACE_ADDR64)"

lemma set_get_probe [simp]: "set_probe pp (get_probe pp arena) arena = arena"
  by (cases pp) simp_all

lemma get_set_probe [simp]: "get_probe pp (set_probe pp q arena) = q"
  by (cases pp) simp_all

text \<open>The arenas differ at most in the probe pointers and \<open>brk\<close>.\<close>

definition same_arena :: "arena_t \<Rightarrow> arena_t \<Rightarrow> bool" where
  "same_arena a a' \<longleftrightarrow> a' = a\<lparr>brk := brk a', chunk_alloc_ptr := chunk_alloc_ptr a',
     huge_alloc_ptr := huge_alloc_ptr a', internal_alloc_ptr := internal_alloc_ptr a'\<rparr>"

lemma same_arena_refl [simp]: "same_arena a a"
  by (simp add: same_arena_def)

lemma same_arenaD:
  assumes "same_arena a a'"
  shows "is_initialized a' = is_initialized a" "secret a' = secret a" "chunk_list a' = chunk_list a"
    "huge_alloc_list a' = huge_alloc_list a" "internal_alloc_list a' = internal_alloc_list a" "bins a' = bins a"
  using assms unfolding same_arena_def by (cases a; cases a'; simp)+

lemma same_arena_trans: "same_arena a b \<Longrightarrow> same_arena b c \<Longrightarrow> same_arena a c"
  unfolding same_arena_def by (cases a; cases b; cases c; simp)

lemma same_arena_upd [simp]:
  "same_arena a (set_probe pp q a') = same_arena a a'"
  "same_arena a (a'\<lparr>internal_alloc_ptr := q\<rparr>) = same_arena a a'"
  "same_arena a (a'\<lparr>huge_alloc_ptr := q\<rparr>) = same_arena a a'"
  "same_arena a (a'\<lparr>chunk_alloc_ptr := q\<rparr>) = same_arena a a'"
  "same_arena a (a'\<lparr>brk := q\<rparr>) = same_arena a a'"
  unfolding same_arena_def by (cases a; cases a'; cases pp; simp; fail)+

lemma brk_set_probe [simp]: "brk (set_probe pp q a) = brk a"
  by (cases pp) simp_all

text \<open>The break stays below a bound of at least 45 bits.\<close>

definition brk_below :: "addr \<Rightarrow> arena_t \<Rightarrow> bool" where
  "brk_below B a \<longleftrightarrow> brk a \<le> B \<and> 2 ^ 45 \<le> B \<and> B < MAX_USERSPACE_ADDR64"

lemma random_above_brk_eq:
  assumes "brk_below B a"
  shows "random_above_brk a g =
     ret (alignup_page64 (brk a + unat (fst (splitmix64 g)) mod (MAX_USERSPACE_ADDR64 - brk a)), snd (splitmix64 g))"
    "brk a + unat (fst (splitmix64 g)) mod (MAX_USERSPACE_ADDR64 - brk a) < MAX_USERSPACE_ADDR64"
proof -
  have b: "brk a < MAX_USERSPACE_ADDR64" using assms by (simp add: brk_below_def)
  then have "unat (fst (splitmix64 g)) mod (MAX_USERSPACE_ADDR64 - brk a) < MAX_USERSPACE_ADDR64 - brk a" by simp
  then show lt: "brk a + unat (fst (splitmix64 g)) mod (MAX_USERSPACE_ADDR64 - brk a) < MAX_USERSPACE_ADDR64" using b by linarith
  have "sub64 MAX_USERSPACE_ADDR64 (brk a) = MAX_USERSPACE_ADDR64 - brk a"
    using b by (intro sub64_small) (simp_all add: MAX_USERSPACE_ADDR64_def)
  moreover have "u64 (brk a + unat (fst (splitmix64 g)) mod (MAX_USERSPACE_ADDR64 - brk a))
     = brk a + unat (fst (splitmix64 g)) mod (MAX_USERSPACE_ADDR64 - brk a)"
    using lt by (intro u64_small) (simp add: MAX_USERSPACE_ADDR64_def)
  ultimately show "random_above_brk a g =
     ret (alignup_page64 (brk a + unat (fst (splitmix64 g)) mod (MAX_USERSPACE_ADDR64 - brk a)), snd (splitmix64 g))"
    using b by (simp add: random_above_brk_def case_prod_unfold Let_def)
qed

lemma reset_ret:
  assumes "brk_below B a"
  obtains a' g' where "reset_of pp a g = ret (a', g')" "same_arena a a'" "brk_below B a'"
proof -
  have align: "unat (ALIGNUP_PAGE (r AND MASK_45_BITS)) \<le> 2 ^ 45" for r :: "64 word"
  proof -
    have le: "unat (r AND MASK_45_BITS) \<le> 35184372088831"
    proof -
      have "r AND MASK_45_BITS \<le> MASK_45_BITS" by (rule word_and_le1)
      then show ?thesis by (simp add: word_le_nat_alt MASK_45_BITS_def)
    qed
    have "unat (ALIGNUP_PAGE (r AND MASK_45_BITS)) = alignup_page64 (unat (r AND MASK_45_BITS))"
      by (simp add: alignup_page64_def)
    also have "\<dots> = (unat (r AND MASK_45_BITS) + 4095) div 4096 * 4096" using le by (intro alignup_page64_eq) simp
    also have "\<dots> \<le> 2 ^ 45" using le by simp
    finally show ?thesis .
  qed
  have "\<exists>a' g'. reset_of pp a g = ret (a', g') \<and> same_arena a a' \<and> brk_below B a'"
  proof (cases pp)
    case CHUNK_ALLOC_PTR
    then show ?thesis using assms align [of "fst (splitmix64 (snd (splitmix32 g)))"]
      by (auto simp: reset_chunk_ptr_start_def case_prod_unfold Let_def brk_below_def intro: order_trans)
  qed (use assms in \<open>auto simp: random_above_brk_eq reset_huge_alloc_ptr_start_def reset_ia_ptr_start_def brk_below_def\<close>)
  then show thesis using that by blast
qed

subsection \<open>What the loop returns\<close>

definition maps_fresh :: "('w \<Rightarrow> addr set) \<Rightarrow> 'w \<Rightarrow> nat \<Rightarrow> addr \<Rightarrow> 'w \<Rightarrow> bool" where
  "maps_fresh mapped w len q w' \<longleftrightarrow> 0 < q \<and> 4096 dvd q \<and> q + len \<le> 2 ^ 47 \<and> {q..<q + len} \<inter> mapped w = {}
     \<and> mapped w' = mapped w \<union> {q..<q + len}"

definition probe_safe :: "('w \<Rightarrow> addr set) \<Rightarrow> 'w \<Rightarrow> nat \<Rightarrow> platform_status_code_t \<Rightarrow> addr \<Rightarrow> 'w \<Rightarrow> bool" where
  "probe_safe mapped w len code q w' \<longleftrightarrow>
     (if code \<in> {PLATFORM_STATUS_OK, PLATFORM_DIFFERENT_ADDRESS} then maps_fresh mapped w len q w' else mapped w' = mapped w)"

lemma fresh_cong: "mapped w1 = mapped w \<Longrightarrow> maps_fresh mapped w1 = maps_fresh mapped w"
  by (simp add: maps_fresh_def fun_eq_iff)

lemma probe_safe_cong: "mapped w1 = mapped w \<Longrightarrow> probe_safe mapped w1 = probe_safe mapped w"
  using fresh_cong [of mapped w1 w] by (simp add: probe_safe_def fun_eq_iff)

lemma os_granted:
  "os_contract os mapped \<Longrightarrow> 4096 dvd len \<Longrightarrow> os_mmap_noreplace os w p len = (Inr q, w') \<Longrightarrow> maps_fresh mapped w len q w'"
  unfolding os_contract_def os_sound_def maps_fresh_def by blast

lemma map_probe_loop_safe:
  assumes "map_probe_loop os probe ceiling len p w = Some r"
  shows "os_contract os mapped \<longrightarrow> 4096 dvd len \<longrightarrow> (\<exists>code q w'. r = Inr (code, q, w') \<and> probe_safe mapped w len code q w')"
  using assms
proof (rule map_probe_loop.raw_induct [where P = "\<lambda>os probe ceiling len p w r. os_contract os mapped \<longrightarrow> 4096 dvd len \<longrightarrow>
    (\<exists>code q w'. r = Inr (code, q, w') \<and> probe_safe mapped w len code q w')", rotated], goal_cases)
  case (1 loop os probe ceiling len p w r)
  show ?case
  proof (intro impI)
    assume os: "os_contract os mapped" "4096 dvd len"
    note IH = 1(1) [THEN mp, OF _ os(1), THEN mp, OF _ os(2)] and eq = 1(2)
    obtain res w1 where m: "os_mmap_noreplace os w p len = (res, w1)" by force
    show "\<exists>code q w'. r = Inr (code, q, w') \<and> probe_safe mapped w len code q w'"
    proof (cases res)
      case (Inl e)
      then have w1: "mapped w1 = mapped w" using os(1) m unfolding os_contract_def by blast
      have cases: "loop os probe ceiling len (u64 (p + PAGE_SIZE)) w1 = Some r \<or> (\<exists>code. code \<notin> {PLATFORM_STATUS_OK, PLATFORM_DIFFERENT_ADDRESS} \<and> r = Inr (code, probe, w1))"
        using eq m Inl by (cases e) (auto simp: Let_def split: if_splits)
      then show ?thesis
      proof
        assume "loop os probe ceiling len (u64 (p + PAGE_SIZE)) w1 = Some r"
        from IH [OF this] show ?thesis unfolding probe_safe_cong [of mapped, OF w1] .
      qed (use w1 in \<open>auto simp: probe_safe_def\<close>)
    next
      case (Inr q)
      then have f: "maps_fresh mapped w len q w1" using os_granted [OF os] m by simp
      then have "q \<noteq> 0" by (simp add: maps_fresh_def)
      then show ?thesis using eq m Inr f by (auto simp: probe_safe_def split: if_splits)
    qed
  qed
qed

lemma platform_map_probe_safe:
  assumes "os_contract os mapped" "4096 dvd len" "platform_map_probe os w probe ceiling len = Some r"
  obtains code q w' where "r = Inr (code, q, w')" "probe_safe mapped w len code q w'"
  using assms map_probe_loop_safe [of os probe ceiling len probe w r mapped]
  by (cases "ceiling \<le> probe") (auto simp: platform_map_probe_def probe_safe_def)

text \<open>Whatever the kernel refused on the way, what \<open>arena_morecore\<close> returns is a fresh mapping.\<close>

definition morecore_safe :: "('w \<Rightarrow> addr set) \<Rightarrow> addr \<Rightarrow> nat \<Rightarrow> arena_t \<Rightarrow> 'w mem \<Rightarrow> fault + addr \<times> arena_t \<times> 'w mem \<Rightarrow> bool" where
  "morecore_safe mapped B len a m r \<longleftrightarrow> (\<exists>q a' g' w'. r = Inr (q, a', m\<lparr>prng := g', world := w'\<rparr>) \<and> same_arena a a' \<and> brk_below B a'
     \<and> maps_fresh mapped (world m) len q w')"

lemma morecore_safe_step:
  assumes "morecore_safe mapped B len a1 m1 r" "same_arena a a1" "m1 = m\<lparr>prng := g, world := w\<rparr>" "mapped w = mapped (world m)"
  shows "morecore_safe mapped B len a m r"
proof -
  obtain q a' g' w' where r: "r = Inr (q, a', m1\<lparr>prng := g', world := w'\<rparr>)" "same_arena a1 a'" "brk_below B a'"
    "maps_fresh mapped (world m1) len q w'" using assms(1) unfolding morecore_safe_def by blast
  have "m1\<lparr>prng := g', world := w'\<rparr> = m\<lparr>prng := g', world := w'\<rparr>" "mapped (world m1) = mapped (world m)" using assms(3,4) by simp_all
  then show ?thesis using r same_arena_trans [OF assms(2) r(2)] fresh_cong [of mapped "world m1" "world m"] unfolding morecore_safe_def by auto
qed

lemma arena_morecore_safe:
  assumes "arena_morecore os pp reset len ceil a m = Some r"
  shows "os_contract os mapped \<longrightarrow> 4096 dvd len \<longrightarrow> reset = reset_of pp \<longrightarrow> brk_below B a \<longrightarrow> morecore_safe mapped B len a m r"
  using assms
proof (rule arena_morecore.raw_induct [where P = "\<lambda>os pp reset len ceil a m r. os_contract os mapped \<longrightarrow> 4096 dvd len \<longrightarrow> reset = reset_of pp
    \<longrightarrow> brk_below B a \<longrightarrow> morecore_safe mapped B len a m r", rotated], goal_cases)
  case (1 more os pp reset len ceil a m r)
  show ?case
  proof (intro impI)
    assume os: "os_contract os mapped" "4096 dvd len" and reset: "reset = reset_of pp" and a: "brk_below B a"
    note IH = 1(1) [THEN mp, OF _ os(1), THEN mp, OF _ os(2), THEN mp, OF _ reset, THEN mp] and eq = 1(2)
    from eq obtain s where "platform_map_probe os (world m) (get_probe pp a) (ceil a) len = Some s"
      by (cases "platform_map_probe os (world m) (get_probe pp a) (ceil a) len") auto
    then obtain code q w where p: "platform_map_probe os (world m) (get_probe pp a) (ceil a) len = ret (code, q, w)" "probe_safe mapped (world m) len code q w"
      using platform_map_probe_safe [OF os] by metis
    let ?a = "set_probe pp q a"
    have b: "brk_below B ?a" "same_arena a ?a" using a by (simp_all add: brk_below_def)
    obtain a2 g2 where r: "reset_of pp ?a (prng m) = ret (a2, g2)" "same_arena ?a a2" "brk_below B a2" using b(1) by (rule reset_ret)
    have a2: "same_arena a a2" using r(2) b(2) by (metis same_arena_trans)
    consider "code = PLATFORM_STATUS_OK" | "code = PLATFORM_STATUS_CEILING_HIT" | "code = PLATFORM_DIFFERENT_ADDRESS"
      | "code \<notin> {PLATFORM_STATUS_OK, PLATFORM_STATUS_CEILING_HIT, PLATFORM_DIFFERENT_ADDRESS}" by blast
    then show "morecore_safe mapped B len a m r"
    proof cases
      case 1
      then have "r = Inr (q, ?a, m\<lparr>prng := prng m, world := w\<rparr>)" using eq p(1) by (simp add: Let_def)
      moreover have "maps_fresh mapped (world m) len q w" using 1 p(2) by (simp add: probe_safe_def)
      ultimately show ?thesis using b unfolding morecore_safe_def by blast
    next
      case 2
      then have "more os pp reset len ceil a2 (m\<lparr>world := w, prng := g2\<rparr>) = Some r"
        using eq p(1) r(1) reset by (simp add: Let_def)
      from IH [OF this r(3)] show ?thesis
        by (rule morecore_safe_step [where g = g2 and w = w]) (use a2 2 p(2) in \<open>simp_all add: probe_safe_def\<close>)
    next
      case 3
      then have "Inr (q, a2, m\<lparr>world := w, prng := g2\<rparr>) = r" using eq p(1) r(1) reset by (simp add: Let_def)
      moreover have "m\<lparr>world := w, prng := g2\<rparr> = m\<lparr>prng := g2, world := w\<rparr>" by simp
      moreover have "maps_fresh mapped (world m) len q w" using 3 p(2) by (simp add: probe_safe_def)
      ultimately show ?thesis using a2 r(3) unfolding morecore_safe_def by metis
    next
      case 4
      then have "more os pp reset len ceil ?a (m\<lparr>world := w\<rparr>) = Some r" using eq p(1) by (simp add: Let_def)
      from IH [OF this b(1)] show ?thesis
        by (rule morecore_safe_step [where g = "prng m" and w = w]) (use b(2) 4 p(2) in \<open>auto simp: probe_safe_def\<close>)
    qed
  qed
qed

text \<open>A state with property \<open>P\<close> is reached after at most \<open>k\<close> resets.\<close>

fun reaches :: "(arena_t \<Rightarrow> bool) \<Rightarrow> reset_fun \<Rightarrow> nat \<Rightarrow> arena_t \<Rightarrow> rng \<Rightarrow> bool" where
  "reaches P reset 0 a g = P a"
| "reaches P reset (Suc k) a g = (P a \<or> (\<exists>a' g'. reset a g = ret (a', g') \<and> reaches P reset k a' g'))"

subsection \<open>Every page is reached\<close>

lemma reaches_now: "P a \<Longrightarrow> reaches P reset k a g"
  by (cases k) simp_all

lemma reaches_step: "reset a g = ret (a', g') \<Longrightarrow> reaches P reset k a' g' \<Longrightarrow> reaches P reset (Suc k) a g"
  by auto

lemma splitmix64_reaches:
  obtains k where "splitmix64_seq (Suc k) g ! k = r"
proof -
  have "r \<in> set (splitmix64_seq (2 ^ 64) g)" using splitmix64_full_period [of g] by blast
  then obtain k where "k < length (splitmix64_seq (2 ^ 64) g)" "splitmix64_seq (2 ^ 64) g ! k = r" by (meson in_set_conv_nth)
  then have "splitmix64_seq (Suc k) g ! k = r" by (simp add: splitmix64_seq_eq del: upt_Suc)
  then show thesis by (rule that)
qed

lemma splitmix32_reaches:
  obtains k where "splitmix32_seq (Suc k) g ! k = r"
proof -
  have "r \<in> set (splitmix32_seq (2 ^ 32) g)" using splitmix32_full_period [of g] by blast
  then obtain k where "k < length (splitmix32_seq (2 ^ 32) g)" "splitmix32_seq (2 ^ 32) g ! k = r" by (meson in_set_conv_nth)
  then have "splitmix32_seq (Suc k) g ! k = r" by (simp add: splitmix32_seq_eq del: upt_Suc)
  then show thesis by (rule that)
qed

lemma page_aligned: "4096 dvd p \<Longrightarrow> p + 4095 < 18446744073709551616 \<Longrightarrow> alignup_page64 p = p"
  unfolding alignup_page64_eq by (elim dvdE) simp

text \<open>Above the break.\<close>

lemma reset_above_eq:
  assumes "pp = HUGE_ALLOC_PTR \<or> pp = INTERNAL_ALLOC_PTR" "brk_below B a"
  shows "reset_of pp a g = ret (set_probe pp (alignup_page64 (brk a + unat (fst (splitmix64 g)) mod (MAX_USERSPACE_ADDR64 - brk a))) a, snd (splitmix64 g))"
  using assms(1) random_above_brk_eq [OF assms(2)]
  by (auto simp: reset_huge_alloc_ptr_start_def reset_ia_ptr_start_def)

lemma reaches_above:
  assumes "pp = HUGE_ALLOC_PTR \<or> pp = INTERNAL_ALLOC_PTR" "brk_below B a" "4096 dvd p" "brk a \<le> p" "p < MAX_USERSPACE_ADDR64"
    and P: "\<And>a'. get_probe pp a' = p \<Longrightarrow> P a'"
  shows "\<exists>k. reaches P (reset_of pp) k a g"
proof -
  obtain k where "splitmix64_seq (Suc k) g ! k = of_nat (p - brk a)" by (rule splitmix64_reaches)
  then have "reaches P (reset_of pp) (Suc k) a g"
    using assms(2,4)
  proof (induction k arbitrary: a g)
    case (0 a g)
    have r: "fst (splitmix64 g) = of_nat (p - brk a)" using 0(1) by (simp add: case_prod_unfold)
    have "p - brk a < MAX_USERSPACE_ADDR64 - brk a" using assms(5) 0(3) by simp
    moreover have "unat (of_nat (p - brk a) :: 64 word) = p - brk a"
      using assms(5) by (simp add: unat_of_nat MAX_USERSPACE_ADDR64_def)
    ultimately have "brk a + unat (fst (splitmix64 g)) mod (MAX_USERSPACE_ADDR64 - brk a) = p" using 0(3) unfolding r by simp
    moreover have "alignup_page64 p = p" using assms(3,5) by (intro page_aligned) (simp_all add: MAX_USERSPACE_ADDR64_def)
    ultimately show ?case using reset_above_eq [OF assms(1) 0(2), of g] P by simp
  next
    case (Suc k a g)
    let ?a = "set_probe pp (alignup_page64 (brk a + unat (fst (splitmix64 g)) mod (MAX_USERSPACE_ADDR64 - brk a))) a"
    have "splitmix64_seq (Suc k) (snd (splitmix64 g)) ! k = of_nat (p - brk ?a)"
      using Suc.prems(1) by (simp add: case_prod_unfold)
    then have "reaches P (reset_of pp) (Suc k) ?a (snd (splitmix64 g))"
      using Suc.prems(2,3) by (intro Suc.IH) (simp_all add: brk_below_def)
    then show ?case using reset_above_eq [OF assms(1) Suc.prems(2), of g] by (intro reaches_step [of _ a]) simp_all
  qed
  then show ?thesis by blast
qed

text \<open>Below 4 GiB: first the break has to be above 44 bits, which a reset arranges.\<close>

lemma of_nat_le_mask44: "b < 2 ^ 64 \<Longrightarrow> of_nat b \<le> MASK_44_BITS \<longleftrightarrow> b < 2 ^ 44"
proof -
  assume "b < 2 ^ 64"
  then have "unat (of_nat b :: 64 word) = b" by (simp add: unat_of_nat)
  then show ?thesis by (simp add: word_le_nat_alt MASK_44_BITS_def) linarith
qed

lemma alignup_page32: "4096 dvd p \<Longrightarrow> p < 2 ^ 32 \<Longrightarrow> unat (ALIGNUP_PAGE (of_nat p :: 32 word)) = p"
proof -
  assume p: "4096 dvd p" "p < 2 ^ 32"
  then have u: "unat (of_nat p :: 32 word) = p" by (simp add: unat_of_nat)
  have "p + 4095 < 4294967296" using p by (elim dvdE) simp
  moreover have "(4095 :: 32 word) = mask 12" by (simp add: mask_eq_exp_minus_1)
  ultimately have "unat (ALIGNUP_PAGE (of_nat p :: 32 word)) = (p + 4095) div 4096 * 4096"
    using unat_alignup [of "4095 :: 32 word" 12 "of_nat p"] u by (simp add: ALIGNUP_PAGE_def)
  then show ?thesis using p by (elim dvdE) simp
qed

lemma reset_chunk_high:
  "2 ^ 44 \<le> brk a \<Longrightarrow> brk_below B a \<Longrightarrow>
     reset_chunk_ptr_start a g = ret (a\<lparr>chunk_alloc_ptr := unat (ALIGNUP_PAGE (fst (splitmix32 g)))\<rparr>, snd (splitmix32 g))"
  using of_nat_le_mask44 [of "brk a"]
  by (simp add: reset_chunk_ptr_start_def case_prod_unfold Let_def brk_below_def MAX_USERSPACE_ADDR64_def)

lemma reaches_low_high:
  assumes "2 ^ 44 \<le> brk a" "brk_below B a" "4096 dvd p" "p < 2 ^ 32"
    and P: "\<And>a'. chunk_alloc_ptr a' = p \<Longrightarrow> 2 ^ 44 \<le> brk a' \<Longrightarrow> P a'"
  shows "\<exists>k. reaches P reset_chunk_ptr_start k a g"
proof -
  obtain k where "splitmix32_seq (Suc k) g ! k = of_nat p" by (rule splitmix32_reaches)
  then have "reaches P reset_chunk_ptr_start (Suc k) a g"
    using assms(1,2)
  proof (induction k arbitrary: a g)
    case (0 a g)
    have "fst (splitmix32 g) = of_nat p" using 0(1) by (simp add: case_prod_unfold)
    then show ?case using alignup_page32 [OF assms(3,4)] P reset_chunk_high [OF 0(2,3), of g] 0(2) by simp
  next
    case (Suc k a g)
    let ?a = "a\<lparr>chunk_alloc_ptr := unat (ALIGNUP_PAGE (fst (splitmix32 g)))\<rparr>"
    have "splitmix32_seq (Suc k) (snd (splitmix32 g)) ! k = of_nat p"
      using Suc.prems(1) by (simp add: case_prod_unfold)
    then have "reaches P reset_chunk_ptr_start (Suc k) ?a (snd (splitmix32 g))"
      using Suc.prems(2,3) by (intro Suc.IH) (simp_all add: brk_below_def)
    then show ?case using reset_chunk_high [OF Suc.prems(2,3), of g] by (intro reaches_step [of _ a]) simp_all
  qed
  then show ?thesis by blast
qed

lemma splitmix64_seq_after32: "splitmix64_seq k (snd (splitmix32 g)) = splitmix64_seq k g"
  by (simp add: splitmix64_seq_eq splitmix32_eq)

lemma reset_chunk_low:
  assumes "brk a < 2 ^ 44"
  obtains a' where "reset_chunk_ptr_start a g = ret (a', snd (splitmix64 (snd (splitmix32 g))))"
    "brk a' = unat (ALIGNUP_PAGE (fst (splitmix64 (snd (splitmix32 g))) AND MASK_45_BITS))"
  using that [of "a\<lparr>chunk_alloc_ptr := unat (ALIGNUP_PAGE (fst (splitmix32 g))),
      brk := unat (ALIGNUP_PAGE (fst (splitmix64 (snd (splitmix32 g))) AND MASK_45_BITS))\<rparr>"]
    assms of_nat_le_mask44 [of "brk a"]
  by (simp add: reset_chunk_ptr_start_def case_prod_unfold Let_def)

lemma reaches_low:
  assumes "brk_below B a" "4096 dvd p" "p < 2 ^ 32"
    and P: "\<And>a'. chunk_alloc_ptr a' = p \<Longrightarrow> 2 ^ 44 \<le> brk a' \<Longrightarrow> P a'"
  shows "\<exists>k. reaches P reset_chunk_ptr_start k a g"
proof -
  obtain k where "splitmix64_seq (Suc k) g ! k = 0x100000000000" by (rule splitmix64_reaches)
  then show ?thesis
    using assms(1)
  proof (induction k arbitrary: a g)
    case (0 a g)
    show ?case
    proof (cases "brk a < 2 ^ 44")
      case True
      obtain a' g' where r: "reset_chunk_ptr_start a g = ret (a', g')"
        "brk a' = unat (ALIGNUP_PAGE (fst (splitmix64 (snd (splitmix32 g))) AND MASK_45_BITS))"
        using reset_chunk_low [OF True, of g] by metis
      have "splitmix64_seq (Suc 0) (snd (splitmix32 g)) ! 0 = 0x100000000000"
        using 0(1) unfolding splitmix64_seq_after32 .
      then have "fst (splitmix64 (snd (splitmix32 g))) = 0x100000000000" by (simp add: case_prod_unfold)
      then have "brk a' = 2 ^ 44" using r(2) by (simp add: MASK_45_BITS_def ALIGNUP_PAGE_def)
      moreover have "brk_below B a'" using reset_ret [OF 0(2), of CHUNK_ALLOC_PTR g] r(1) by auto
      ultimately obtain k where "reaches P reset_chunk_ptr_start k a' g'"
        using reaches_low_high [of a' B p P g'] assms(2,3) P by auto
      then show ?thesis using reaches_step [of reset_chunk_ptr_start, OF r(1)] by blast
    next
      case False
      then show ?thesis using reaches_low_high [of a B p P g] 0(2) assms(2,3) P by simp
    qed
  next
    case (Suc k a g)
    show ?case
    proof (cases "brk a < 2 ^ 44")
      case True
      obtain a' where r: "reset_chunk_ptr_start a g = ret (a', snd (splitmix64 (snd (splitmix32 g))))"
        using reset_chunk_low [OF True, of g] by metis
      have "splitmix64_seq (Suc (Suc k)) (snd (splitmix32 g)) ! Suc k = 0x100000000000"
        using Suc.prems(1) unfolding splitmix64_seq_after32 .
      then have "splitmix64_seq (Suc k) (snd (splitmix64 (snd (splitmix32 g)))) ! k = 0x100000000000"
        by (simp add: case_prod_unfold)
      moreover have "brk_below B a'" using reset_ret [OF Suc.prems(2), of CHUNK_ALLOC_PTR g] r by auto
      ultimately obtain j where "reaches P reset_chunk_ptr_start j a' (snd (splitmix64 (snd (splitmix32 g))))"
        using Suc.IH by blast
      then show ?thesis using reaches_step [of reset_chunk_ptr_start, OF r] by blast
    next
      case False
      then show ?thesis using reaches_low_high [of a B p P g] Suc.prems(2) assms(2,3) P by simp
    qed
  qed
qed

subsection \<open>The probe finds the first free page\<close>

definition first_free :: "('w \<Rightarrow> addr set) \<Rightarrow> 'w \<Rightarrow> nat \<Rightarrow> addr \<Rightarrow> addr \<Rightarrow> bool" where
  "first_free mapped w len p q \<longleftrightarrow> p \<le> q \<and> 4096 dvd q \<and> {q..<q + len} \<inter> mapped w = {}
     \<and> (\<forall>x. 4096 dvd x \<longrightarrow> p \<le> x \<longrightarrow> x < q \<longrightarrow> {x..<x + len} \<inter> mapped w \<noteq> {})"

lemma first_free_step:
  assumes "first_free mapped w len (p + 4096) q" "{p..<p + len} \<inter> mapped w \<noteq> {}" "4096 dvd p"
  shows "first_free mapped w len p q"
proof -
  have "p + 4096 \<le> x" if x: "4096 dvd x" "p \<le> x" "x \<noteq> p" for x
  proof -
    have "4096 dvd x - p" using x(1) assms(3) x(2) by simp
    moreover have "0 < x - p" using x(2,3) by simp
    ultimately have "4096 \<le> x - p" by (rule dvd_imp_le)
    then show ?thesis using x(2) by simp
  qed
  then show ?thesis using assms unfolding first_free_def by (metis add_leD1)
qed

lemma map_probe_loop_finds:
  assumes os: "os_answers os mapped L w" and len: "0 < len" "len \<le> L" "4096 dvd len" and ceiling: "ceiling \<le> 2 ^ 63"
    and g: "4096 dvd g" "g < ceiling" "g + len \<le> USER_TOP" "{g..<g + len} \<inter> mapped w = {}"
  shows "4096 dvd p \<Longrightarrow> MMAP_MIN_ADDR \<le> p \<Longrightarrow> p \<le> g \<Longrightarrow> \<exists>q w'. map_probe_loop os probe ceiling len p w = ret (PLATFORM_STATUS_OK, q, w')
     \<and> q \<le> g \<and> first_free mapped w len p q \<and> os_mmap_noreplace os w q len = (Inr q, w')"
proof (induction "g - p" arbitrary: p rule: less_induct)
  case less
  have fits: "p + len \<le> USER_TOP" using less.prems(3) g(3) by simp
  note kernel = os [unfolded os_answers_def, rule_format, OF less.prems(1) len(3) less.prems(2) len(1,2) fits]
  show ?case
  proof (cases "{p..<p + len} \<inter> mapped w = {}")
    case True
    then obtain w' where w': "os_mmap_noreplace os w p len = (Inr p, w')" using kernel by auto
    moreover have "p \<noteq> 0" using less.prems(2) by (simp add: MMAP_MIN_ADDR_def)
    ultimately have "map_probe_loop os probe ceiling len p w = ret (PLATFORM_STATUS_OK, p, w')" by (subst map_probe_loop.simps) simp
    moreover have "first_free mapped w len p p" using True less.prems(1) by (simp add: first_free_def)
    ultimately show ?thesis using w' less.prems(3) by blast
  next
    case False
    then have m: "os_mmap_noreplace os w p len = (Inl EEXIST, w)" using kernel by auto
    have "p \<noteq> g" using False g(4) by auto
    then have lt: "p < g" using less.prems(3) by simp
    have "4096 dvd g - p" using less.prems(1,3) g(1) by simp
    then have "4096 \<le> g - p" using lt by (intro dvd_imp_le) simp_all
    then have le: "p + 4096 \<le> g" using lt by simp
    then have next_page: "u64 (p + PAGE_SIZE) = p + 4096" "p + 4096 < ceiling" using g(2) ceiling by (simp_all add: PAGE_SIZE_def wrap_simps)
    have loop: "map_probe_loop os probe ceiling len p w = map_probe_loop os probe ceiling len (p + 4096) w"
      using m next_page by (subst map_probe_loop.simps) simp
    have "4096 dvd p + 4096" "MMAP_MIN_ADDR \<le> p + 4096" "g - (p + 4096) < g - p" using less.prems(1,2) lt by simp_all
    with less.hyps [of "p + 4096"] le obtain q w' where q: "map_probe_loop os probe ceiling len (p + 4096) w = ret (PLATFORM_STATUS_OK, q, w')"
      "q \<le> g" "first_free mapped w len (p + 4096) q" "os_mmap_noreplace os w q len = (Inr q, w')" by blast
    have "first_free mapped w len p q" using q(3) False less.prems(1) by (rule first_free_step)
    then show ?thesis unfolding loop using q(1,2,4) by blast
  qed
qed

lemma arena_morecore_finds:
  assumes os: "os_answers os mapped L (world m)" and len: "0 < len" "len \<le> L" "4096 dvd len" and ceiling: "ceil a \<le> 2 ^ 63"
    and g: "4096 dvd g" "g < ceil a" "g + len \<le> USER_TOP" "{g..<g + len} \<inter> mapped (world m) = {}"
    and p: "4096 dvd get_probe pp a" "MMAP_MIN_ADDR \<le> get_probe pp a" "get_probe pp a \<le> g"
  obtains q w' where "arena_morecore os pp reset len ceil a m = ret (q, set_probe pp q a, m\<lparr>world := w'\<rparr>)" "q \<le> g"
    "first_free mapped (world m) len (get_probe pp a) q" "os_mmap_noreplace os (world m) q len = (Inr q, w')"
proof -
  obtain q w' where q: "map_probe_loop os (get_probe pp a) (ceil a) len (get_probe pp a) (world m) = ret (PLATFORM_STATUS_OK, q, w')"
    "q \<le> g" "first_free mapped (world m) len (get_probe pp a) q" "os_mmap_noreplace os (world m) q len = (Inr q, w')"
    using map_probe_loop_finds [OF os len ceiling g p] by blast
  have "platform_map_probe os (world m) (get_probe pp a) (ceil a) len = ret (PLATFORM_STATUS_OK, q, w')"
    using q(1) p(3) g(2) by (simp add: platform_map_probe_def)
  then have "arena_morecore os pp reset len ceil a m = ret (q, set_probe pp q a, m\<lparr>world := w'\<rparr>)"
    by (subst arena_morecore.simps) (simp add: Let_def)
  then show thesis using that q(2-4) by blast
qed

subsection \<open>The room that is left\<close>

lemma gap_rest:
  fixes g q d n len :: nat
  assumes "{g..<g + (n + d)} \<inter> M = {}" "4096 dvd g" "4096 dvd q" "4096 dvd len" "q \<le> g" "len + 4096 \<le> d" "4096 dvd p" "q \<le> p" "p \<le> q + len + 4096"
  obtains g' where "4096 dvd g'" "g \<le> g'" "p \<le> g'" "q \<le> g'" "g' + n \<le> g + (n + d)" "{g'..<g' + n} \<inter> (M \<union> {q..<q + len}) = {}"
proof -
  let ?g = "max g (q + len + 4096)"
  have "4096 dvd ?g" using assms(2-4) by (simp add: max_def)
  moreover have "?g + n \<le> g + (n + d)" using assms(5,6) by simp
  moreover from this have "{?g..<?g + n} \<subseteq> {g..<g + (n + d)}" by auto
  then have "{?g..<?g + n} \<inter> (M \<union> {q..<q + len}) = {}" using assms(1) by fastforce
  ultimately show thesis using that [of ?g] assms(8,9) by simp
qed

lemma room_bytes_Suc: "room_bytes (Suc n) = room_bytes n + (CHUNK_SIZE_BYTES + 4096)"
  by (simp add: room_bytes_def PAGE_SIZE_def)

lemma room_after_ia:
  assumes r: "room mapped L (Suc n) b cp hp ip w" and len: "len \<le> CHUNK_SIZE_BYTES" "4096 dvd len"
    and q: "\<And>h. 4096 dvd h \<Longrightarrow> ip \<le> h \<Longrightarrow> h + room_bytes (Suc n) + L \<le> USER_TOP \<Longrightarrow> {h..<h + room_bytes (Suc n) + L} \<inter> mapped w = {} \<Longrightarrow> q \<le> h"
      "ip \<le> q" "4096 dvd q" "mapped w' = mapped w \<union> {q..<q + len}" and p: "4096 dvd p" "q \<le> p" "p \<le> q + len + 4096"
  shows "room mapped L n b cp hp p w'"
proof -
  obtain g h where R: "4096 dvd cp" "4096 dvd hp" "4096 dvd ip" "4096 dvd g" "4096 dvd h" "MMAP_MIN_ADDR \<le> cp" "cp \<le> g" "g + room_bytes (Suc n) \<le> b"
    "{g..<g + room_bytes (Suc n)} \<inter> mapped w = {}" "b \<le> hp" "b \<le> ip" "hp \<le> h" "ip \<le> h" "h + room_bytes (Suc n) + L \<le> USER_TOP"
    "{h..<h + room_bytes (Suc n) + L} \<inter> mapped w = {}"
    using r unfolding room_def by blast
  have qh: "q \<le> h" using q(1) R by blast
  have "{h..<h + (room_bytes n + L + (CHUNK_SIZE_BYTES + 4096))} \<inter> mapped w = {}" using R(15) by (simp add: room_bytes_Suc ac_simps)
  then obtain h' where h': "4096 dvd h'" "h \<le> h'" "p \<le> h'" "h' + (room_bytes n + L) \<le> h + (room_bytes n + L + (CHUNK_SIZE_BYTES + 4096))"
    "{h'..<h' + (room_bytes n + L)} \<inter> mapped w' = {}"
    unfolding q(4) by (rule gap_rest [OF _ R(5) q(3) len(2) qh _ p]) (use len(1) that in auto)
  have "{g..<g + room_bytes n} \<subseteq> {g..<g + room_bytes (Suc n)}" "{g..<g + room_bytes n} \<inter> {q..<q + len} = {}"
    using R(8,11) q(2) by (auto simp: room_bytes_Suc)
  then have "{g..<g + room_bytes n} \<inter> mapped w' = {}" using R(9) unfolding q(4) by blast
  moreover have "h' + room_bytes n + L \<le> USER_TOP" "{h'..<h' + room_bytes n + L} \<inter> mapped w' = {}" using h'(4,5) R(14) by (simp_all add: room_bytes_Suc ac_simps)
  moreover have "g + room_bytes n \<le> b" "b \<le> p" "hp \<le> h'" using R(8,11,12) q(2) p(2) h'(2) by (simp_all add: room_bytes_Suc)
  ultimately show ?thesis unfolding room_def using R(1,2,4,6,7,10) h'(1,3) p(1) by blast
qed

lemma room_after_chunk:
  assumes r: "room mapped L (Suc n) b cp hp ip w"
    and q: "\<And>g. 4096 dvd g \<Longrightarrow> cp \<le> g \<Longrightarrow> g + room_bytes (Suc n) \<le> b \<Longrightarrow> {g..<g + room_bytes (Suc n)} \<inter> mapped w = {} \<Longrightarrow> q \<le> g"
      "cp \<le> q" "4096 dvd q" "mapped w' = mapped w \<union> {q..<q + CHUNK_SIZE_BYTES}" and p: "4096 dvd p" "q \<le> p" "p \<le> q + CHUNK_SIZE_BYTES + 4096"
  shows "room mapped L n b p hp ip w'"
proof -
  obtain g h where R: "4096 dvd cp" "4096 dvd hp" "4096 dvd ip" "4096 dvd g" "4096 dvd h" "MMAP_MIN_ADDR \<le> cp" "cp \<le> g" "g + room_bytes (Suc n) \<le> b"
    "{g..<g + room_bytes (Suc n)} \<inter> mapped w = {}" "b \<le> hp" "b \<le> ip" "hp \<le> h" "ip \<le> h" "h + room_bytes (Suc n) + L \<le> USER_TOP"
    "{h..<h + room_bytes (Suc n) + L} \<inter> mapped w = {}"
    using r unfolding room_def by blast
  have C: "4096 dvd CHUNK_SIZE_BYTES" by (simp add: CHUNK_SIZE_BYTES_def)
  have qg: "q \<le> g" using q(1) R by blast
  have "{g..<g + (room_bytes n + (CHUNK_SIZE_BYTES + 4096))} \<inter> mapped w = {}" using R(9) by (simp add: room_bytes_Suc ac_simps)
  then obtain g' where g': "4096 dvd g'" "p \<le> g'" "g' + room_bytes n \<le> g + (room_bytes n + (CHUNK_SIZE_BYTES + 4096))"
    "{g'..<g' + room_bytes n} \<inter> mapped w' = {}"
    unfolding q(4) by (rule gap_rest [OF _ R(4) q(3) C qg _ p]) (use that in auto)
  have "{h..<h + room_bytes n + L} \<subseteq> {h..<h + room_bytes (Suc n) + L}" by (auto simp: room_bytes_Suc)
  moreover have "{h..<h + room_bytes n + L} \<inter> {q..<q + CHUNK_SIZE_BYTES} = {}" using R(8,10,12) qg by (auto simp: room_bytes_Suc)
  ultimately have "{h..<h + room_bytes n + L} \<inter> mapped w' = {}" using R(15) unfolding q(4) by blast
  moreover have "g' + room_bytes n \<le> b" "h + room_bytes n + L \<le> USER_TOP" "MMAP_MIN_ADDR \<le> p" using g'(3) R(6,8,14) q(2) p(2) by (simp_all add: room_bytes_Suc)
  ultimately show ?thesis unfolding room_def using R(2,3,5,10-13) g'(1,2,4) p(1) by blast
qed

subsection \<open>arena_morecore\<close>

lemma arena_morecore_ok:
  assumes os: "os_contract os mapped" and len: "4096 dvd len" and a: "brk_below B a"
    and run: "goes P (arena_morecore os pp (reset_of pp) len (ceil_of pp) a m)"
    and live: "P \<Longrightarrow> \<exists>q w'. arena_morecore os pp (reset_of pp) len (ceil_of pp) a m = ret (q, set_probe pp q a, m\<lparr>world := w'\<rparr>) \<and> Q q w'"
  obtains q a' g' w' where
    "arena_morecore os pp (reset_of pp) len (ceil_of pp) a m = ret (q, a', m\<lparr>prng := g', world := w'\<rparr>)"
    "same_arena a a'" "brk_below B a'" "0 < q" "4096 dvd q" "q + len \<le> 2 ^ 47"
    "{q..<q + len} \<inter> mapped (world m) = {}" "mapped w' = mapped (world m) \<union> {q..<q + len}"
    "P \<longrightarrow> a' = set_probe pp q a \<and> Q q w'"
proof -
  let ?X = "arena_morecore os pp (reset_of pp) len (ceil_of pp) a m"
  have "\<not> diverges ?X" using run live by (auto simp: goes_def)
  then obtain r where r: "?X = Some r" by blast
  then have "morecore_safe mapped B len a m r" using arena_morecore_safe os len a by blast
  then obtain q a' g' w' where f: "r = Inr (q, a', m\<lparr>prng := g', world := w'\<rparr>)" "same_arena a a'" "brk_below B a'"
    "maps_fresh mapped (world m) len q w'" unfolding morecore_safe_def by blast
  have "a' = set_probe pp q a \<and> Q q w'" if P
  proof -
    from live [OF that] obtain q1 w1 where l: "?X = ret (q1, set_probe pp q1 a, m\<lparr>world := w1\<rparr>)" "Q q1 w1" by blast
    then have e: "q1 = q" "a' = set_probe pp q a" "m\<lparr>world := w1\<rparr> = m\<lparr>prng := g', world := w'\<rparr>" using r f(1) by simp_all
    have "w1 = w'" using arg_cong [OF e(3), of world] by simp
    then show ?thesis using l(2) e(1,2) by simp
  qed
  then show thesis using that r f unfolding maps_fresh_def by blast
qed

text \<open>The pointer that is moved behind the new mapping.\<close>

definition bumped :: "addr \<Rightarrow> nat \<Rightarrow> addr \<Rightarrow> bool" where
  "bumped q len p \<longleftrightarrow> 4096 dvd p \<and> q \<le> p \<and> p \<le> q + len + 4096"

lemma roomD:
  assumes "room mapped L n b cp hp ip w"
  shows "4096 dvd cp" "4096 dvd hp" "4096 dvd ip" "MMAP_MIN_ADDR \<le> cp" "MMAP_MIN_ADDR \<le> hp" "MMAP_MIN_ADDR \<le> ip" "b \<le> 2 ^ 63"
    "\<exists>g. 4096 dvd g \<and> cp \<le> g \<and> g + room_bytes n \<le> b \<and> g + room_bytes n \<le> USER_TOP \<and> {g..<g + room_bytes n} \<inter> mapped w = {}"
    "\<exists>h. 4096 dvd h \<and> hp \<le> h \<and> ip \<le> h \<and> h + room_bytes n + L \<le> USER_TOP \<and> {h..<h + room_bytes n + L} \<inter> mapped w = {}"
proof -
  obtain g h where R: "4096 dvd cp" "4096 dvd hp" "4096 dvd ip" "4096 dvd g" "4096 dvd h" "MMAP_MIN_ADDR \<le> cp" "cp \<le> g" "g + room_bytes n \<le> b"
    "{g..<g + room_bytes n} \<inter> mapped w = {}" "b \<le> hp" "b \<le> ip" "hp \<le> h" "ip \<le> h" "h + room_bytes n + L \<le> USER_TOP"
    "{h..<h + room_bytes n + L} \<inter> mapped w = {}"
    using assms unfolding room_def by blast
  show "4096 dvd cp" "4096 dvd hp" "4096 dvd ip" "MMAP_MIN_ADDR \<le> cp" "MMAP_MIN_ADDR \<le> hp" "MMAP_MIN_ADDR \<le> ip" using R by simp_all
  show "b \<le> 2 ^ 63" using R(10,12,14) by (simp add: USER_TOP_def)
  show "\<exists>g. 4096 dvd g \<and> cp \<le> g \<and> g + room_bytes n \<le> b \<and> g + room_bytes n \<le> USER_TOP \<and> {g..<g + room_bytes n} \<inter> mapped w = {}"
    using R by (intro exI [of _ g]) simp
  show "\<exists>h. 4096 dvd h \<and> hp \<le> h \<and> ip \<le> h \<and> h + room_bytes n + L \<le> USER_TOP \<and> {h..<h + room_bytes n + L} \<inter> mapped w = {}"
    using R by (intro exI [of _ h]) simp
qed

text \<open>While there is room, the next mapping lies at the first free page, at or below the free pages \<open>g\<close>.\<close>

lemma morecore_supplied:
  assumes os: "os_contract os mapped" and sv: "os_serves os mapped L (Suc n) (world m)" and len: "0 < len" "len \<le> L" "4096 dvd len"
    and p: "4096 dvd get_probe pp a" "MMAP_MIN_ADDR \<le> get_probe pp a" and ceiling: "ceil_of pp a \<le> 2 ^ 63"
    and G: "\<And>g. g \<in> G \<Longrightarrow> 4096 dvd g \<and> get_probe pp a \<le> g \<and> g < ceil_of pp a \<and> g + len \<le> USER_TOP \<and> {g..<g + len} \<inter> mapped (world m) = {}" "G \<noteq> {}"
  shows "\<exists>q w'. arena_morecore os pp (reset_of pp) len (ceil_of pp) a m = ret (q, set_probe pp q a, m\<lparr>world := w'\<rparr>)
     \<and> (\<forall>g \<in> G. q \<le> g) \<and> get_probe pp a \<le> q \<and> 4096 dvd q \<and> mapped w' = mapped (world m) \<union> {q..<q + len} \<and> os_serves os mapped L n w'"
proof -
  let ?X = "arena_morecore os pp (reset_of pp) len (ceil_of pp) a m"
  have ans: "os_answers os mapped L (world m)" using sv by simp
  have find: "\<exists>q w'. ?X = ret (q, set_probe pp q a, m\<lparr>world := w'\<rparr>) \<and> q \<le> g \<and> get_probe pp a \<le> q \<and> os_mmap_noreplace os (world m) q len = (Inr q, w')"
    if "g \<in> G" for g
  proof -
    from G(1) [OF that] have g: "4096 dvd g" "g < ceil_of pp a" "g + len \<le> USER_TOP" "{g..<g + len} \<inter> mapped (world m) = {}" "get_probe pp a \<le> g"
      by blast+
    obtain q w' where "?X = ret (q, set_probe pp q a, m\<lparr>world := w'\<rparr>)" "q \<le> g"
      "first_free mapped (world m) len (get_probe pp a) q" "os_mmap_noreplace os (world m) q len = (Inr q, w')"
      by (rule arena_morecore_finds [where reset = "reset_of pp" and ceil = "ceil_of pp", OF ans len ceiling g(1-4) p g(5)]) (rule that)
    then show ?thesis by (auto simp: first_free_def)
  qed
  obtain g where "g \<in> G" using G(2) by blast
  from find [OF this] obtain q w' where q: "?X = ret (q, set_probe pp q a, m\<lparr>world := w'\<rparr>)" "get_probe pp a \<le> q"
    "os_mmap_noreplace os (world m) q len = (Inr q, w')" by blast
  have "q \<le> g" if "g \<in> G" for g using find [OF that] q(1) by auto
  moreover have "4096 dvd q" "mapped w' = mapped (world m) \<union> {q..<q + len}" using os_granted [OF os len(3) q(3)] by (simp_all add: maps_fresh_def)
  moreover have "os_serves os mapped L n w'" using sv q(3) len(1,2) unfolding os_serves.simps(2) by blast
  ultimately show ?thesis using q(1,2) by blast
qed

lemma morecore_ia_ok:
  assumes os: "os_contract os mapped" "CHUNK_SIZE_BYTES \<le> L" and len: "0 < len" "len \<le> CHUNK_SIZE_BYTES" "4096 dvd len" and a: "brk_below B a"
    and run: "goes (provision os mapped L (Suc n) a m) (arena_morecore os INTERNAL_ALLOC_PTR reset_ia_ptr_start len (\<lambda>_. MAX_USERSPACE_ADDR64) a m)"
  obtains q a' g' w' where
    "arena_morecore os INTERNAL_ALLOC_PTR reset_ia_ptr_start len (\<lambda>_. MAX_USERSPACE_ADDR64) a m = ret (q, a', m\<lparr>prng := g', world := w'\<rparr>)"
    "same_arena a a'" "brk_below B a'" "0 < q" "4096 dvd q" "q + len \<le> 2 ^ 47"
    "{q..<q + len} \<inter> mapped (world m) = {}" "mapped w' = mapped (world m) \<union> {q..<q + len}"
    "provision os mapped L (Suc n) a m \<longrightarrow> a' = set_probe INTERNAL_ALLOC_PTR q a
       \<and> (\<forall>p. bumped q len p \<longrightarrow> supplied os mapped L n (brk a) (chunk_alloc_ptr a) (huge_alloc_ptr a) p w')"
proof (rule arena_morecore_ok [where pp = INTERNAL_ALLOC_PTR, unfolded reset_of.simps ceil_of.simps, OF os(1) len(3) a run, rotated])
  assume s: "provision os mapped L (Suc n) a m"
  let ?ip = "internal_alloc_ptr a"
  have R: "room mapped L (Suc n) (brk a) (chunk_alloc_ptr a) (huge_alloc_ptr a) ?ip (world m)"
    and sv: "os_serves os mapped L (Suc (Suc n)) (world m)" using s by (simp_all add: supplied_def)
  let ?G = "{h. 4096 dvd h \<and> ?ip \<le> h \<and> h + room_bytes (Suc n) + L \<le> USER_TOP \<and> {h..<h + room_bytes (Suc n) + L} \<inter> mapped (world m) = {}}"
  have "?G \<noteq> {}" using roomD(9) [OF R] by blast
  moreover have "4096 dvd h \<and> ?ip \<le> h \<and> h < MAX_USERSPACE_ADDR64 \<and> h + len \<le> USER_TOP \<and> {h..<h + len} \<inter> mapped (world m) = {}" if h: "h \<in> ?G" for h
  proof -
    have "{h..<h + len} \<inter> mapped (world m) = {}"
      by (rule gap_sub [where n = "room_bytes (Suc n) + L"]) (use h len(2) in \<open>simp_all add: room_bytes_Suc add.assoc\<close>)
    then show ?thesis using h len(2) by (simp add: room_bytes_Suc USER_TOP_def MAX_USERSPACE_ADDR64_def)
  qed
  moreover have "len \<le> L" "MAX_USERSPACE_ADDR64 \<le> 2 ^ 63" using len(2) os(2) by (simp_all add: MAX_USERSPACE_ADDR64_def)
  ultimately have "\<exists>q w'. arena_morecore os INTERNAL_ALLOC_PTR reset_ia_ptr_start len (\<lambda>_. MAX_USERSPACE_ADDR64) a m
      = ret (q, set_probe INTERNAL_ALLOC_PTR q a, m\<lparr>world := w'\<rparr>) \<and> (\<forall>g \<in> ?G. q \<le> g) \<and> ?ip \<le> q \<and> 4096 dvd q
      \<and> mapped w' = mapped (world m) \<union> {q..<q + len} \<and> os_serves os mapped L (Suc n) w'"
    using morecore_supplied [where pp = INTERNAL_ALLOC_PTR and a = a and G = ?G, unfolded reset_of.simps ceil_of.simps get_probe.simps,
      OF os(1) sv len(1) _ len(3) roomD(3,6) [OF R]] by blast
  then obtain q w' where q: "arena_morecore os INTERNAL_ALLOC_PTR reset_ia_ptr_start len (\<lambda>_. MAX_USERSPACE_ADDR64) a m
      = ret (q, set_probe INTERNAL_ALLOC_PTR q a, m\<lparr>world := w'\<rparr>)" "\<forall>g \<in> ?G. q \<le> g" "?ip \<le> q" "4096 dvd q"
    "mapped w' = mapped (world m) \<union> {q..<q + len}" "os_serves os mapped L (Suc n) w'"
    by (elim exE conjE) (rule that)
  have "room mapped L n (brk a) (chunk_alloc_ptr a) (huge_alloc_ptr a) p w'" if p: "bumped q len p" for p
    by (rule room_after_ia [OF R len(2,3) _ q(3,4,5)]) (use q(2) p in \<open>auto simp: bumped_def\<close>)
  then show "\<exists>q w'. arena_morecore os INTERNAL_ALLOC_PTR reset_ia_ptr_start len (\<lambda>_. MAX_USERSPACE_ADDR64) a m
      = ret (q, set_probe INTERNAL_ALLOC_PTR q a, m\<lparr>world := w'\<rparr>)
     \<and> (\<forall>p. bumped q len p \<longrightarrow> supplied os mapped L n (brk a) (chunk_alloc_ptr a) (huge_alloc_ptr a) p w')"
    using q(1,6) unfolding supplied_def by blast
qed (rule that)

lemma morecore_chunk_ok:
  assumes os: "os_contract os mapped" "CHUNK_SIZE_BYTES \<le> L" and a: "brk_below B a"
    and run: "goes (provision os mapped L (Suc n) a m) (arena_morecore os CHUNK_ALLOC_PTR reset_chunk_ptr_start CHUNK_SIZE_BYTES brk a m)"
  obtains q a' g' w' where
    "arena_morecore os CHUNK_ALLOC_PTR reset_chunk_ptr_start CHUNK_SIZE_BYTES brk a m = ret (q, a', m\<lparr>prng := g', world := w'\<rparr>)"
    "same_arena a a'" "brk_below B a'" "0 < q" "4096 dvd q" "q + CHUNK_SIZE_BYTES \<le> 2 ^ 47"
    "{q..<q + CHUNK_SIZE_BYTES} \<inter> mapped (world m) = {}" "mapped w' = mapped (world m) \<union> {q..<q + CHUNK_SIZE_BYTES}"
    "provision os mapped L (Suc n) a m \<longrightarrow> a' = set_probe CHUNK_ALLOC_PTR q a
       \<and> (\<forall>p. bumped q CHUNK_SIZE_BYTES p \<longrightarrow> supplied os mapped L n (brk a) p (huge_alloc_ptr a) (internal_alloc_ptr a) w')"
proof -
  have C: "0 < CHUNK_SIZE_BYTES" "4096 dvd CHUNK_SIZE_BYTES" by (simp_all add: CHUNK_SIZE_BYTES_def)
  show thesis
  proof (rule arena_morecore_ok [where pp = CHUNK_ALLOC_PTR, unfolded reset_of.simps ceil_of.simps, OF os(1) C(2) a run, rotated])
    assume s: "provision os mapped L (Suc n) a m"
    let ?cp = "chunk_alloc_ptr a"
    have R: "room mapped L (Suc n) (brk a) ?cp (huge_alloc_ptr a) (internal_alloc_ptr a) (world m)"
      and sv: "os_serves os mapped L (Suc (Suc n)) (world m)" using s by (simp_all add: supplied_def)
    let ?G = "{g. 4096 dvd g \<and> ?cp \<le> g \<and> g + room_bytes (Suc n) \<le> brk a \<and> {g..<g + room_bytes (Suc n)} \<inter> mapped (world m) = {} \<and> g + room_bytes (Suc n) \<le> USER_TOP}"
    have "?G \<noteq> {}" using roomD(8) [OF R] by blast
    moreover have "4096 dvd g \<and> ?cp \<le> g \<and> g < brk a \<and> g + CHUNK_SIZE_BYTES \<le> USER_TOP \<and> {g..<g + CHUNK_SIZE_BYTES} \<inter> mapped (world m) = {}" if g: "g \<in> ?G" for g
    proof -
      have "{g..<g + CHUNK_SIZE_BYTES} \<inter> mapped (world m) = {}"
        by (rule gap_sub [where n = "room_bytes (Suc n)"]) (use g in \<open>simp_all add: room_bytes_Suc\<close>)
      then show ?thesis using g by (simp add: room_bytes_Suc)
    qed
    ultimately have "\<exists>q w'. arena_morecore os CHUNK_ALLOC_PTR reset_chunk_ptr_start CHUNK_SIZE_BYTES brk a m
        = ret (q, set_probe CHUNK_ALLOC_PTR q a, m\<lparr>world := w'\<rparr>) \<and> (\<forall>g \<in> ?G. q \<le> g) \<and> ?cp \<le> q \<and> 4096 dvd q
        \<and> mapped w' = mapped (world m) \<union> {q..<q + CHUNK_SIZE_BYTES} \<and> os_serves os mapped L (Suc n) w'"
      using morecore_supplied [where pp = CHUNK_ALLOC_PTR and a = a and G = ?G, unfolded reset_of.simps ceil_of.simps get_probe.simps,
        OF os(1) sv C(1) os(2) C(2) roomD(1,4,7) [OF R]] by blast
    then obtain q w' where q: "arena_morecore os CHUNK_ALLOC_PTR reset_chunk_ptr_start CHUNK_SIZE_BYTES brk a m
        = ret (q, set_probe CHUNK_ALLOC_PTR q a, m\<lparr>world := w'\<rparr>)" "\<forall>g \<in> ?G. q \<le> g" "?cp \<le> q" "4096 dvd q"
      "mapped w' = mapped (world m) \<union> {q..<q + CHUNK_SIZE_BYTES}" "os_serves os mapped L (Suc n) w'"
      by (elim exE conjE) (rule that)
    have top: "brk a \<le> USER_TOP" using R unfolding room_def by auto
    have "room mapped L n (brk a) p (huge_alloc_ptr a) (internal_alloc_ptr a) w'" if p: "bumped q CHUNK_SIZE_BYTES p" for p
      by (rule room_after_chunk [OF R _ q(3,4,5)]) (use q(2) p top in \<open>auto simp: bumped_def\<close>)
    then show "\<exists>q w'. arena_morecore os CHUNK_ALLOC_PTR reset_chunk_ptr_start CHUNK_SIZE_BYTES brk a m
        = ret (q, set_probe CHUNK_ALLOC_PTR q a, m\<lparr>world := w'\<rparr>)
       \<and> (\<forall>p. bumped q CHUNK_SIZE_BYTES p \<longrightarrow> supplied os mapped L n (brk a) p (huge_alloc_ptr a) (internal_alloc_ptr a) w')"
      using q(1,6) unfolding supplied_def by blast
  qed (rule that)
qed

text \<open>After the request for a huge mapping a call asks for nothing more.\<close>

lemma morecore_huge_ok:
  assumes os: "os_contract os mapped" and len: "0 < len" "4096 dvd len" and a: "brk_below B a"
    and run: "goes (provision os mapped L n a m \<and> len \<le> L) (arena_morecore os HUGE_ALLOC_PTR reset_huge_alloc_ptr_start len (\<lambda>_. MAX_USERSPACE_ADDR64) a m)"
  obtains q a' g' w' where
    "arena_morecore os HUGE_ALLOC_PTR reset_huge_alloc_ptr_start len (\<lambda>_. MAX_USERSPACE_ADDR64) a m = ret (q, a', m\<lparr>prng := g', world := w'\<rparr>)"
    "same_arena a a'" "brk_below B a'" "0 < q" "4096 dvd q" "q + len \<le> 2 ^ 47"
    "{q..<q + len} \<inter> mapped (world m) = {}" "mapped w' = mapped (world m) \<union> {q..<q + len}"
proof (rule arena_morecore_ok [where pp = HUGE_ALLOC_PTR and Q = "\<lambda>_ _. True", unfolded reset_of.simps ceil_of.simps, OF os len(2) a run, rotated])
  assume s: "provision os mapped L n a m \<and> len \<le> L"
  let ?hp = "huge_alloc_ptr a"
  have R: "room mapped L n (brk a) (chunk_alloc_ptr a) ?hp (internal_alloc_ptr a) (world m)"
    and sv: "os_serves os mapped L (Suc n) (world m)" using s by (simp_all add: supplied_def)
  let ?G = "{h. 4096 dvd h \<and> ?hp \<le> h \<and> h + room_bytes n + L \<le> USER_TOP \<and> {h..<h + room_bytes n + L} \<inter> mapped (world m) = {}}"
  have "?G \<noteq> {}" using roomD(9) [OF R] by blast
  moreover have "4096 dvd h \<and> ?hp \<le> h \<and> h < MAX_USERSPACE_ADDR64 \<and> h + len \<le> USER_TOP \<and> {h..<h + len} \<inter> mapped (world m) = {}" if h: "h \<in> ?G" for h
  proof -
    have "{h..<h + len} \<inter> mapped (world m) = {}"
      by (rule gap_sub [where n = "room_bytes n + L"]) (use h s in \<open>simp_all add: add.assoc\<close>)
    then show ?thesis using h s by (simp add: USER_TOP_def MAX_USERSPACE_ADDR64_def)
  qed
  moreover have "MAX_USERSPACE_ADDR64 \<le> 2 ^ 63" by (simp add: MAX_USERSPACE_ADDR64_def)
  ultimately show "\<exists>q w'. arena_morecore os HUGE_ALLOC_PTR reset_huge_alloc_ptr_start len (\<lambda>_. MAX_USERSPACE_ADDR64) a m
      = ret (q, set_probe HUGE_ALLOC_PTR q a, m\<lparr>world := w'\<rparr>) \<and> True"
    using morecore_supplied [where pp = HUGE_ALLOC_PTR and a = a and G = ?G, unfolded reset_of.simps ceil_of.simps get_probe.simps,
      OF os sv len(1) conjunct2 [OF s] len(2) roomD(2,5) [OF R]] by blast
qed (rule that)

text \<open>A kernel that refuses with another error than \<open>EEXIST\<close> is asked again for ever.\<close>

definition refuses :: "'w os \<Rightarrow> nat \<Rightarrow> bool" where
  "refuses os len \<longleftrightarrow> (\<forall>w p. \<exists>e w'. os_mmap_noreplace os w p len = (Inl e, w') \<and> e \<noteq> EEXIST)"

lemma probe_refused:
  assumes "refuses os len" "probe < ceiling"
  obtains code w' where "platform_map_probe os w probe ceiling len = ret (code, probe, w')"
    "code \<notin> {PLATFORM_STATUS_OK, PLATFORM_STATUS_CEILING_HIT, PLATFORM_DIFFERENT_ADDRESS}"
proof -
  obtain e w' where e: "os_mmap_noreplace os w probe len = (Inl e, w')" "e \<noteq> EEXIST"
    using assms(1) unfolding refuses_def by blast
  then have "platform_map_probe os w probe ceiling len = ret (get_error_from_errno e, probe, w')"
    using assms(2) by (simp add: platform_map_probe_def) (subst map_probe_loop.simps, simp)
  then show thesis using e(2) that by (cases e) auto
qed

lemma morecore_refused_aux:
  "arena_morecore os pp reset len ceil a m = Some r \<Longrightarrow> refuses os len \<longrightarrow> \<not> get_probe pp a < ceil a"
proof (erule arena_morecore.raw_induct [where P = "\<lambda>os pp reset len ceil a m r. refuses os len \<longrightarrow> \<not> get_probe pp a < ceil a", rotated])
  fix more and os :: "'a os" and pp reset len ceil a m r
  assume 1: "\<And>os :: 'a os. \<And>pp reset len ceil a m y. more os pp reset len ceil a m = Some y \<Longrightarrow> refuses os len \<longrightarrow> \<not> get_probe pp a < ceil a"
    "bindR (platform_map_probe os (world m) (get_probe pp a) (ceil a) len) (\<lambda>(code, q, w).
       let a = set_probe pp q a; m = m\<lparr>world := w\<rparr>
       in if code = PLATFORM_STATUS_OK then ret (q, a, m)
          else if code = PLATFORM_STATUS_CEILING_HIT then
            bindR (reset a (prng m)) (\<lambda>(a, g). more os pp reset len ceil a (m\<lparr>prng := g\<rparr>))
          else if code = PLATFORM_DIFFERENT_ADDRESS then
            bindR (reset a (prng m)) (\<lambda>(a, g). ret (q, a, m\<lparr>prng := g\<rparr>))
          else more os pp reset len ceil a m) = Some r"
  show "refuses os len \<longrightarrow> \<not> get_probe pp a < ceil a"
  proof (intro impI notI)
    assume asm: "refuses os len" "get_probe pp a < ceil a"
    obtain code w' where "platform_map_probe os (world m) (get_probe pp a) (ceil a) len = ret (code, get_probe pp a, w')"
      "code \<notin> {PLATFORM_STATUS_OK, PLATFORM_STATUS_CEILING_HIT, PLATFORM_DIFFERENT_ADDRESS}"
      using asm by (rule probe_refused)
    then have "more os pp reset len ceil a (m\<lparr>world := w'\<rparr>) = Some r" using 1(2) by (simp add: Let_def)
    then show False using 1(1) asm by blast
  qed
qed

lemma morecore_refused:
  "refuses os len \<Longrightarrow> get_probe pp a < ceil a \<Longrightarrow> diverges (arena_morecore os pp reset len ceil a m)"
  using morecore_refused_aux [of os pp reset len ceil a m] by (cases "arena_morecore os pp reset len ceil a m") auto

subsection \<open>A kernel for the witnesses\<close>

text \<open>
  It keeps the documented contract: the state is the list of the mapped ranges, and the errors of \<open>mmap\<close> depend on the address as on Linux.
\<close>

type_synonym ranges = "(addr \<times> nat) list"

definition linux_mmap :: "ranges \<Rightarrow> addr \<Rightarrow> nat \<Rightarrow> (errno + addr) \<times> ranges" where
  "linux_mmap w p len =
     (if len = 0 \<or> \<not> 4096 dvd p then (Inl EINVAL, w)
      else if USER_TOP < p + len then (Inl ENOMEM, w)
      else if p < MMAP_MIN_ADDR then (Inl EPERM, w)
      else if \<exists>(q, k) \<in> set w. 0 < k \<and> q < p + len \<and> p < q + k then (Inl EEXIST, w)
      else (Inr p, (p, len) # w))"

definition linux_munmap :: "ranges \<Rightarrow> addr \<Rightarrow> nat \<Rightarrow> errno option \<times> ranges" where
  "linux_munmap w p len = (None, concat (map (\<lambda>(q, k).
     [(q, min k (p - q)), (max q (p + len), (q + k) - max q (p + len))]) w))"

definition linux_os :: "ranges os" where
  "linux_os = \<lparr>os_mmap = (\<lambda>w p len. (Inl ENOMEM, w)), os_mmap_noreplace = linux_mmap, os_munmap = linux_munmap,
     os_mprotect = (\<lambda>w p len b. (None, w)), os_sbrk0 = (\<lambda>w. (Inr 93824992231424, w)), os_open_urandom = (\<lambda>w. (Inr 3, w)),
     os_read_u32 = (\<lambda>w fd. (Inr 42, w)), os_close = (\<lambda>w fd. (None, w)), os_getenv = (\<lambda>w s. None)\<rparr>"

definition linux_mapped :: "ranges \<Rightarrow> addr set" where
  "linux_mapped w = (\<Union>(q, k) \<in> set w. {q..<q + k})"

lemma ranges_meet:
  fixes p q k len :: nat
  assumes "0 < len"
  shows "{p..<p + len} \<inter> {q..<q + k} \<noteq> {} \<longleftrightarrow> 0 < k \<and> q < p + len \<and> p < q + k"
proof
  assume "0 < k \<and> q < p + len \<and> p < q + k"
  then have "max p q \<in> {p..<p + len} \<inter> {q..<q + k}" using assms by auto
  then show "{p..<p + len} \<inter> {q..<q + k} \<noteq> {}" by blast
qed auto

lemma linux_meets:
  "0 < len \<Longrightarrow> {p..<p + len} \<inter> linux_mapped w \<noteq> {} \<longleftrightarrow> (\<exists>(q, k) \<in> set w. 0 < k \<and> q < p + len \<and> p < q + k)"
proof -
  assume "0 < len"
  have "{p..<p + len} \<inter> linux_mapped w \<noteq> {} \<longleftrightarrow> (\<exists>(q, k) \<in> set w. {p..<p + len} \<inter> {q..<q + k} \<noteq> {})"
    unfolding linux_mapped_def by blast
  then show ?thesis unfolding ranges_meet [OF \<open>0 < len\<close>] .
qed

lemma linux_noreplace [simp]: "os_mmap_noreplace linux_os = linux_mmap" "os_munmap linux_os = linux_munmap"
  by (simp_all add: linux_os_def)

lemma linux_granted:
  assumes "linux_mmap w p len = (Inr q, w')"
  shows "q = p" "w' = (p, len) # w" "0 < len" "4096 dvd p" "p + len \<le> USER_TOP" "MMAP_MIN_ADDR \<le> p" "{p..<p + len} \<inter> linux_mapped w = {}"
proof -
  have len: "0 < len" using assms by (auto simp: linux_mmap_def split: if_splits)
  have "\<not> (\<exists>(q, k) \<in> set w. 0 < k \<and> q < p + len \<and> p < q + k)" using assms by (auto simp: linux_mmap_def split: if_splits)
  then show "{p..<p + len} \<inter> linux_mapped w = {}" using linux_meets [OF len, of p w] by blast
qed (use assms in \<open>auto simp: linux_mmap_def split: if_splits\<close>)

lemma linux_contract: "os_contract linux_os linux_mapped"
proof -
  have "0 < q \<and> 4096 dvd q \<and> q + len \<le> 2 ^ 47 \<and> {q..<q + len} \<inter> linux_mapped w = {} \<and> linux_mapped w' = linux_mapped w \<union> {q..<q + len}"
    if "linux_mmap w p len = (Inr q, w')" for w p len q w'
    using linux_granted [OF that] by (auto simp: linux_mapped_def USER_TOP_def MMAP_MIN_ADDR_def)
  moreover have "linux_mapped w' = linux_mapped w - {p..<p + len}" if "linux_munmap w p len = (None, w')" for w p len w'
  proof -
    have cut: "{q..<q + k} - {p..<p + len} = {q..<q + min k (p - q)} \<union> {max q (p + len)..<max q (p + len) + (q + k - max q (p + len))}" for q k
      by auto
    have "w' = concat (map (\<lambda>(q, k). [(q, min k (p - q)), (max q (p + len), q + k - max q (p + len))]) w)"
      using that by (simp add: linux_munmap_def)
    then have "linux_mapped w' = (\<Union>(q, k) \<in> set w. {q..<q + k} - {p..<p + len})"
      unfolding cut linux_mapped_def by (simp add: case_prod_unfold)
    then show ?thesis unfolding linux_mapped_def by blast
  qed
  moreover have "linux_mapped w' = linux_mapped w" if "linux_mmap w p len = (Inl e, w')" for w p len e w'
    using that by (auto simp: linux_mmap_def split: if_splits)
  ultimately show ?thesis unfolding os_contract_def os_sound_def linux_noreplace by blast
qed

lemma linux_answers: "os_answers linux_os linux_mapped L w"
  unfolding os_answers_def linux_noreplace
proof (intro allI impI)
  fix p len :: nat
  assume len: "4096 dvd p" "MMAP_MIN_ADDR \<le> p" "0 < len" "p + len \<le> USER_TOP"
  show "if {p..<p + len} \<inter> linux_mapped w = {} then \<exists>w'. linux_mmap w p len = (Inr p, w') else linux_mmap w p len = (Inl EEXIST, w)"
  proof (cases "{p..<p + len} \<inter> linux_mapped w = {}")
    case True
    then have "\<not> (\<exists>(q, k) \<in> set w. 0 < k \<and> q < p + len \<and> p < q + k)" using linux_meets [OF len(3), of p w] by blast
    then have "linux_mmap w p len = (Inr p, (p, len) # w)" using len by (auto simp: linux_mmap_def)
    then show ?thesis using True by simp
  next
    case False
    then have "\<exists>(q, k) \<in> set w. 0 < k \<and> q < p + len \<and> p < q + k" using linux_meets [OF len(3), of p w] by blast
    then have "linux_mmap w p len = (Inl EEXIST, w)" using len by (auto simp: linux_mmap_def)
    then show ?thesis using False by simp
  qed
qed

lemma linux_serves: "os_serves linux_os linux_mapped L n w"
  by (induction n arbitrary: w) (simp_all add: linux_answers)

definition ex_mem :: "'w \<Rightarrow> 'w mem" where
  "ex_mem w = \<lparr>runs = Map.empty, chunks = Map.empty, huges = Map.empty, ias = Map.empty, bytes = (\<lambda>_. 0), prng = rng.make 0 0, world = w\<rparr>"

definition ex_arena :: arena_t where
  "ex_arena = \<lparr>is_initialized = True, secret = 0, brk = 93824992231424, chunk_list = 0, huge_alloc_list = 0,
     internal_alloc_list = 0, chunk_alloc_ptr = 65536, huge_alloc_ptr = 93824992235520, internal_alloc_ptr = 93824992239616,
     bins = replicate ARENA_NO_BINS bin_zero\<rparr>"

lemma ex_arena_brk: "brk_below 93824992231424 ex_arena"
  by (simp add: brk_below_def ex_arena_def MAX_USERSPACE_ADDR64_def)

text \<open>At the start nothing is mapped, and there is room for many calls.\<close>

lemma ex_supply:
  assumes "room_bytes n + L \<le> 2 ^ 45"
  shows "provision linux_os linux_mapped L n ex_arena (ex_mem [])"
proof -
  have "room linux_mapped L n 93824992231424 65536 93824992235520 93824992239616 []"
    unfolding room_def
    by (rule exI [of _ 65536], rule exI [of _ 93824992239616])
      (use assms in \<open>simp add: linux_mapped_def MMAP_MIN_ADDR_def USER_TOP_def\<close>)
  then show ?thesis using linux_serves by (simp add: supplied_def ex_arena_def ex_mem_def del: os_serves.simps)
qed

lemma room_bytes_eq: "room_bytes n = n * 33558528"
  by (simp add: room_bytes_def CHUNK_SIZE_BYTES_def PAGE_SIZE_def)

subsection \<open>Properties\<close>

text \<open>C37: \<open>arena_morecore\<close> returns, and with the first free page, when its first probe can succeed. The
  premises are the documented answers of the kernel: from the probe pointer on, which lies above the addresses that
  it refuses with \<open>EPERM\<close>, there is a page \<open>g\<close> below the ceiling and the end of the user half where the mapping
  fits, and memory is left. Then the result is the least page from the probe pointer on where the mapping overlaps nothing; it becomes the
  probe pointer, the pages of the mapping are now mapped, and nothing else changes.\<close>

theorem arena_morecore_live:
  assumes "os_sound os mapped" "os_answers os mapped L (world m)" "0 < len" "len \<le> L" "4096 dvd len" "ceil a \<le> 2 ^ 63"
    and "4096 dvd get_probe pp a" "MMAP_MIN_ADDR \<le> get_probe pp a"
    and "4096 dvd g" "get_probe pp a \<le> g" "g < ceil a" "g + len \<le> USER_TOP" "{g..<g + len} \<inter> mapped (world m) = {}"
  shows "\<exists>q w'. arena_morecore os pp reset len ceil a m = ret (q, set_probe pp q a, m\<lparr>world := w'\<rparr>)
     \<and> get_probe pp a \<le> q \<and> q \<le> g \<and> 4096 dvd q \<and> {q..<q + len} \<inter> mapped (world m) = {}
     \<and> (\<forall>x. 4096 dvd x \<and> get_probe pp a \<le> x \<and> x < q \<longrightarrow> {x..<x + len} \<inter> mapped (world m) \<noteq> {})
     \<and> mapped w' = mapped (world m) \<union> {q..<q + len}"
proof -
  obtain q w' where q: "arena_morecore os pp reset len ceil a m = ret (q, set_probe pp q a, m\<lparr>world := w'\<rparr>)" "q \<le> g"
    "first_free mapped (world m) len (get_probe pp a) q" "os_mmap_noreplace os (world m) q len = (Inr q, w')"
    by (rule arena_morecore_finds [where reset = reset and ceil = ceil, OF assms(2-6,9,11-13,7,8,10)]) (rule that)
  have "mapped w' = mapped (world m) \<union> {q..<q + len}" using assms(1,5) q(4) unfolding os_sound_def by blast
  then show ?thesis using q(1-3) unfolding first_free_def by (intro exI [of _ q] exI [of _ w']) simp
qed

theorem arena_morecore_live_witness:
  "\<exists>a m. arena_morecore linux_os CHUNK_ALLOC_PTR reset_chunk_ptr_start CHUNK_SIZE_BYTES brk ex_arena (ex_mem [(65536, 4096)]) = ret (69632, a, m)
     \<and> linux_mapped (world m) = {65536..<65536 + 4096} \<union> {69632..<69632 + CHUNK_SIZE_BYTES}"
proof -
  have w: "world (ex_mem [(65536, 4096)]) = [(65536, 4096)]" "linux_mapped [(65536, 4096)] = {65536..<65536 + 4096}"
    by (simp_all add: ex_mem_def linux_mapped_def)
  have sound: "os_sound linux_os linux_mapped" by (rule os_contractD [OF linux_contract])
  have p: "get_probe CHUNK_ALLOC_PTR ex_arena = 65536" "brk ex_arena = 93824992231424" by (simp_all add: ex_arena_def)
  obtain q w' where q: "arena_morecore linux_os CHUNK_ALLOC_PTR reset_chunk_ptr_start CHUNK_SIZE_BYTES brk ex_arena (ex_mem [(65536, 4096)])
      = ret (q, set_probe CHUNK_ALLOC_PTR q ex_arena, (ex_mem [(65536, 4096)])\<lparr>world := w'\<rparr>)"
    "65536 \<le> q" "q \<le> 69632" "4096 dvd q" "{q..<q + CHUNK_SIZE_BYTES} \<inter> {65536..<65536 + 4096} = {}"
    "linux_mapped w' = {65536..<65536 + 4096} \<union> {q..<q + CHUNK_SIZE_BYTES}"
  proof -
    have "\<exists>q w'. arena_morecore linux_os CHUNK_ALLOC_PTR reset_chunk_ptr_start CHUNK_SIZE_BYTES brk ex_arena (ex_mem [(65536, 4096)])
      = ret (q, set_probe CHUNK_ALLOC_PTR q ex_arena, (ex_mem [(65536, 4096)])\<lparr>world := w'\<rparr>)
      \<and> get_probe CHUNK_ALLOC_PTR ex_arena \<le> q \<and> q \<le> 69632 \<and> 4096 dvd q \<and> {q..<q + CHUNK_SIZE_BYTES} \<inter> linux_mapped (world (ex_mem [(65536, 4096)])) = {}
      \<and> (\<forall>x. 4096 dvd x \<and> get_probe CHUNK_ALLOC_PTR ex_arena \<le> x \<and> x < q
           \<longrightarrow> {x..<x + CHUNK_SIZE_BYTES} \<inter> linux_mapped (world (ex_mem [(65536, 4096)])) \<noteq> {})
      \<and> linux_mapped w' = linux_mapped (world (ex_mem [(65536, 4096)])) \<union> {q..<q + CHUNK_SIZE_BYTES}"
    proof (rule arena_morecore_live [OF sound linux_answers, where L = CHUNK_SIZE_BYTES])
      show "{69632..<69632 + CHUNK_SIZE_BYTES} \<inter> linux_mapped (world (ex_mem [(65536, 4096)])) = {}" unfolding w by simp
    qed (unfold p, simp_all add: CHUNK_SIZE_BYTES_def USER_TOP_def MMAP_MIN_ADDR_def)
    then show thesis using that unfolding p w by blast
  qed
  have "65536 \<noteq> q" using q(5) by (auto simp: CHUNK_SIZE_BYTES_def)
  moreover have "4096 dvd q - 65536" using q(2,4) by (intro dvd_diff_nat) simp_all
  moreover have "q - 65536 < 4096 \<or> q = 69632" using q(3) by linarith
  ultimately have "q = 69632" using q(2) nat_dvd_not_less [of "q - 65536" 4096] by fastforce
  then show ?thesis using q(1,6) by auto
qed

text \<open>C38: when the kernel refuses the mapping with an error that does not depend on the
  place (no memory, or a length of 0), \<open>arena_morecore\<close> never returns: only an occupied range
  moves the probe on, and every other error is tried again at the same address.\<close>

theorem arena_morecore_diverges:
  assumes "refuses os len" "get_probe pp a < ceil a"
  shows "diverges (arena_morecore os pp reset len ceil a m)"
  using assms by (rule morecore_refused)

theorem arena_morecore_diverges_witness:
  "diverges (arena_morecore linux_os HUGE_ALLOC_PTR reset_huge_alloc_ptr_start 0 (\<lambda>_. MAX_USERSPACE_ADDR64) ex_arena (ex_mem []))"
proof -
  have "refuses linux_os 0" by (simp add: refuses_def linux_mmap_def)
  then show ?thesis by (rule arena_morecore_diverges) (simp add: ex_arena_def MAX_USERSPACE_ADDR64_def)
qed

end
