(* ===== verification/Arena_Meta.thy ===== *)
theory Arena_Meta
  imports Arena_Memory
begin

text \<open>
  Metadata allocation of \<open>src/src/arena.c\<close>: \<open>arena_internal_alloc\<close> and \<open>arena_internal_free\<close> over the
  list of pools. The pools together are one abstract set of live metadata blocks,
  \<open>meta_live\<close>; an allocation adds a block that overlaps no other, if need be from a new pool,
  and a free removes exactly its block.
\<close>

lemma ranges_disjoint:
  fixes a b m n :: nat
  shows "{a..<a + m} \<inter> {b..<b + n} = {} \<longleftrightarrow> m = 0 \<or> n = 0 \<or> a + m \<le> b \<or> b + n \<le> a"
proof (cases "m = 0 \<or> n = 0 \<or> a + m \<le> b \<or> b + n \<le> a")
  case False
  then have "max a b \<in> {a..<a + m} \<inter> {b..<b + n}" by auto
  then show ?thesis using False by blast
qed auto

subsection \<open>Pools\<close>

definition POOL_BYTES :: nat where
  "POOL_BYTES = alignup_page64 INT_ALLOC_T_SIZE"

lemma POOL_BYTES_eq: "POOL_BYTES = 8523776"
proof -
  have "INT_ALLOC_T_SIZE = 8519712" by (simp add: INT_ALLOC_T_SIZE_def ia_consts)
  then show ?thesis unfolding POOL_BYTES_def by (simp add: alignup_page64_eq)
qed

definition pool_space :: "addr list \<Rightarrow> addr set" where
  "pool_space ps = (\<Union>a \<in> set ps. {a..<a + POOL_BYTES})"

definition pools_ok :: "(addr \<rightharpoonup> int_alloc_t) \<Rightarrow> addr \<Rightarrow> addr list \<Rightarrow> (addr \<Rightarrow> btree) \<Rightarrow> bool" where
  "pools_ok h head ps ts \<longleftrightarrow> ll_list h head ps
     \<and> (\<forall>a \<in> set ps. ia_inv a (the (h a)) (ts a) \<and> a + POOL_BYTES \<le> 2 ^ 47)
     \<and> (\<forall>a \<in> set ps. \<forall>b \<in> set ps. a \<noteq> b \<longrightarrow> {a..<a + POOL_BYTES} \<inter> {b..<b + POOL_BYTES} = {})"

definition meta_live :: "addr list \<Rightarrow> (addr \<Rightarrow> btree) \<Rightarrow> (addr \<times> nat) set" where
  "meta_live ps ts = (\<Union>a \<in> set ps. ia_live a (ts a))"

lemma pools_okD:
  assumes "pools_ok h head ps ts"
  shows "ll_list h head ps" "distinct ps" "a \<in> set ps \<Longrightarrow> a \<noteq> 0" "a \<in> set ps \<Longrightarrow> h a = Some (the (h a))"
    "a \<in> set ps \<Longrightarrow> ia_inv a (the (h a)) (ts a)" "a \<in> set ps \<Longrightarrow> a + POOL_BYTES \<le> 2 ^ 47"
    "a \<in> set ps \<Longrightarrow> b \<in> set ps \<Longrightarrow> a \<noteq> b \<Longrightarrow> {a..<a + POOL_BYTES} \<inter> {b..<b + POOL_BYTES} = {}"
  using assms ll_list_node [of h head ps a] by (auto simp: pools_ok_def dest: ll_list_distinct)

text \<open>A live block is a part of its pool, and not empty.\<close>

lemma ia_live_range:
  assumes "ia_inv a r t" "(p, s) \<in> ia_live a t"
  shows "ia_memory a \<le> p" "p + s \<le> ia_memory a + INTERNAL_ALLOC_CHUNK_SIZE_BYTES" "32 \<le> s" "a < p" "p + s \<le> a + POOL_BYTES"
proof -
  obtain off where off: "p = ia_memory a + off" "(off, s) \<in> bt_blocks 18 t" using assms(2) by (auto simp: ia_live_def)
  have ok: "bt_ok 18 t" using assms(1) by (simp add: ia_inv_def)
  note range = bt_blocks_range [OF ok off(2)]
  then have "off + s \<le> INTERNAL_ALLOC_CHUNK_SIZE_BYTES" by (simp add: span_18)
  moreover obtain k where "s = span k" using range by blast
  moreover have "(32 :: nat) \<le> span k" for k by (simp add: span_def)
  ultimately show "ia_memory a \<le> p" "p + s \<le> ia_memory a + INTERNAL_ALLOC_CHUNK_SIZE_BYTES" "32 \<le> s" "a < p" "p + s \<le> a + POOL_BYTES"
    using off(1) by (simp_all add: ia_memory_def POOL_BYTES_eq ia_consts)
qed

lemma meta_live_range:
  assumes "pools_ok h head ps ts" "(p, s) \<in> meta_live ps ts"
  obtains a where "a \<in> set ps" "(p, s) \<in> ia_live a (ts a)" "a < p" "p + s \<le> a + POOL_BYTES" "32 \<le> s"
  using assms ia_live_range [OF pools_okD(5) [OF assms(1)]] unfolding meta_live_def by blast

lemma meta_live_space: "pools_ok h head ps ts \<Longrightarrow> (p, s) \<in> meta_live ps ts \<Longrightarrow> {p..<p + s} \<subseteq> pool_space ps"
proof -
  assume "pools_ok h head ps ts" "(p, s) \<in> meta_live ps ts"
  then obtain a where "a \<in> set ps" "a < p" "p + s \<le> a + POOL_BYTES" by (rule meta_live_range)
  then show ?thesis unfolding pool_space_def by fastforce
qed

lemma ia_live_disjoint:
  assumes "ia_inv a r t" "(p, s) \<in> ia_live a t" "(q, k) \<in> ia_live a t" "(p, s) \<noteq> (q, k)"
  shows "p + s \<le> q \<or> q + k \<le> p"
proof -
  obtain o1 o2 where o: "p = ia_memory a + o1" "(o1, s) \<in> bt_blocks 18 t" "q = ia_memory a + o2" "(o2, k) \<in> bt_blocks 18 t"
    using assms(2,3) by (auto simp: ia_live_def)
  have "bt_ok 18 t" using assms(1) by (simp add: ia_inv_def)
  from bt_blocks_disjoint [OF this o(2,4)] show ?thesis using assms(4) o(1,3) by auto
qed

lemma meta_live_disjoint:
  assumes ok: "pools_ok h head ps ts" and p: "(p, s) \<in> meta_live ps ts" and q: "(q, k) \<in> meta_live ps ts" and ne: "(p, s) \<noteq> (q, k)"
  shows "p + s \<le> q \<or> q + k \<le> p"
proof -
  obtain a where a: "a \<in> set ps" "(p, s) \<in> ia_live a (ts a)" "a < p" "p + s \<le> a + POOL_BYTES" "32 \<le> s" using ok p by (rule meta_live_range)
  obtain b where b: "b \<in> set ps" "(q, k) \<in> ia_live b (ts b)" "b < q" "q + k \<le> b + POOL_BYTES" "32 \<le> k" using ok q by (rule meta_live_range)
  show ?thesis
  proof (cases "a = b")
    case True
    then show ?thesis using ia_live_disjoint [OF pools_okD(5) [OF ok a(1)] a(2)] b(2) ne by blast
  next
    case False
    then have "{a..<a + POOL_BYTES} \<inter> {b..<b + POOL_BYTES} = {}" using pools_okD(7) [OF ok a(1) b(1)] by blast
    then have "a + POOL_BYTES \<le> b \<or> b + POOL_BYTES \<le> a" unfolding ranges_disjoint POOL_BYTES_eq by simp
    then show ?thesis using a b by linarith
  qed
qed

subsection \<open>Allocation\<close>

lemma internal_alloc_cases:
  assumes "ia_inv a r t" "1 \<le> sz" "sz \<le> 4194304"
  obtains (none) "internal_alloc a r sz = ret (0, r)" "bt_largest 18 t < sz"
  | (some) p r' s t' where "internal_alloc a r sz = ret (p, r')" "p \<noteq> 0" "ia_inv a r' t'" "ia_live a t' = insert (p, s) (ia_live a t)"
      "sz \<le> s" "(p, s) \<notin> ia_live a t" "fd r' = fd r" "bk r' = bk r" "key r' = key r"
proof -
  have ok: "bt_ok 18 t" using assms(1) by (simp add: ia_inv_def)
  have sz: "sz \<le> span 17" "sz \<le> span 18" using assms(3) by (simp_all add: span_def)
  obtain r' where eq: "internal_alloc a r sz = (case bt_alloc sz 18 t of None \<Rightarrow> ret (0, r)
       | Some (off, s, t') \<Rightarrow> ret (ia_memory a + off, r'))"
    "\<forall>off s t'. bt_alloc sz 18 t = Some (off, s, t') \<longrightarrow> ia_inv a r' t'" "fd r' = fd r" "bk r' = bk r" "key r' = key r"
    using internal_alloc_eq [OF assms(1,2) sz(1)] by blast
  show thesis
  proof (cases "bt_alloc sz 18 t")
    case None
    then show thesis using eq(1) none bt_alloc_none_iff [OF ok assms(2) sz(2)] by simp
  next
    case (Some x)
    then obtain off s t' where x: "bt_alloc sz 18 t = Some (off, s, t')" by (cases x) auto
    note blocks = bt_alloc_blocks [OF x ok sz(2)]
    have run: "internal_alloc a r sz = ret (ia_memory a + off, r')" using eq(1) x by simp
    have inv: "ia_inv a r' t'" using eq(2) x by blast
    have live: "ia_live a t' = insert (ia_memory a + off, s) (ia_live a t)" unfolding ia_live_def using blocks by auto
    have fresh: "(ia_memory a + off, s) \<notin> ia_live a t"
    proof
      assume "(ia_memory a + off, s) \<in> ia_live a t"
      then have "(off, s) \<in> bt_blocks 18 t" by (auto simp: ia_live_def)
      then have "off + s \<le> off \<or> off + s \<le> off" using blocks by fastforce
      then show False using blocks assms(2) by simp
    qed
    have "ia_memory a + off \<noteq> 0" by (simp add: ia_memory_def)
    then show thesis using some [OF run _ inv live _ fresh eq(3-5)] blocks by blast
  qed
qed

text \<open>The first pool with a large enough block.\<close>

definition pool_took ::
    "(addr \<rightharpoonup> int_alloc_t) \<Rightarrow> (addr \<Rightarrow> btree) \<Rightarrow> nat \<Rightarrow> addr set \<Rightarrow> addr \<Rightarrow> (addr \<rightharpoonup> int_alloc_t) \<Rightarrow> bool" where
  "pool_took h ts sz X p h' \<longleftrightarrow> (\<exists>a \<in> X. \<exists>r' s t'. h' = h(a \<mapsto> r') \<and> ia_inv a r' t' \<and> ia_live a t' = insert (p, s) (ia_live a (ts a))
     \<and> sz \<le> s \<and> (p, s) \<notin> ia_live a (ts a) \<and> links r' = links (the (h a)))"

lemma pool_took_mono: "pool_took h ts sz X p h' \<Longrightarrow> X \<subseteq> Y \<Longrightarrow> pool_took h ts sz Y p h'"
  unfolding pool_took_def by blast

lemma ia_alloc_loop_ok:
  assumes "dseg h pr c xs l 0" "\<And>a. a \<in> set xs \<Longrightarrow> ia_inv a (the (h a)) (ts a)" "1 \<le> sz" "sz \<le> 4194304"
  shows "ia_alloc_loop sz c h = ret (0, h)
     \<or> (\<exists>p h'. ia_alloc_loop sz c h = ret (p, h') \<and> p \<noteq> 0 \<and> pool_took h ts sz (set xs) p h')"
  using assms(1,2)
proof (induction xs arbitrary: pr c)
  case Nil
  then show ?case by (subst ia_alloc_loop.simps) simp
next
  case (Cons x xs)
  then obtain r where r: "c = x" "x \<noteq> 0" "h x = Some r" "dseg h x (fd r) xs l 0" by (auto split: option.splits)
  have inv: "ia_inv x r (ts x)" using Cons.prems(2) [of x] r(3) by simp
  from inv assms(3,4) show ?case
  proof (cases rule: internal_alloc_cases)
    case none
    have "h(x \<mapsto> r) = h" using r(3) by auto
    then have loop: "ia_alloc_loop sz c h = ia_alloc_loop sz (fd r) h"
      using none(1) r by (subst ia_alloc_loop.simps) simp
    show ?thesis
      unfolding loop using Cons.IH [OF r(4) Cons.prems(2) [OF list.set_intros(2)]] pool_took_mono [OF _ set_subset_Cons [of xs x]] by blast
  next
    case (some p r' s t')
    have "ia_alloc_loop sz c h = ret (p, h(x \<mapsto> r'))"
      using some(1,2) r by (subst ia_alloc_loop.simps) simp
    moreover have "links r' = links (the (h x))" using some(7,8) r(3) by (simp add: links_def)
    then have "pool_took h ts sz (set (x # xs)) p (h(x \<mapsto> r'))" unfolding pool_took_def using some(3-6) by auto
    ultimately show ?thesis using some(2) by blast
  qed
qed

lemma pools_ok_upd:
  assumes "pools_ok h head ps ts" "a \<in> set ps" "ia_inv a r' t'" "links r' = links (the (h a))"
  shows "pools_ok (h(a \<mapsto> r')) head ps (ts(a := t'))"
proof -
  have "ll_list (h(a \<mapsto> r')) head ps"
    using pools_okD(4) [OF assms(1,2)] assms(4)
    by (intro ll_list_frame [OF pools_okD(1) [OF assms(1)]]) (metis fun_upd_apply option.map(2))
  then show ?thesis using assms(1,3) by (auto simp: pools_ok_def)
qed

lemma meta_live_upd:
  "pools_ok h head ps ts \<Longrightarrow> a \<in> set ps \<Longrightarrow> ia_live a t' = insert x (ia_live a (ts a)) \<Longrightarrow>
     meta_live ps (ts(a := t')) = insert x (meta_live ps ts)"
  by (auto simp: meta_live_def split: if_splits)

lemma ia_inv_unlink: "ia_inv a (unlink r) t = ia_inv a r t"
  by (simp add: ia_inv_def unlink_def)

lemma pools_ok_add:
  assumes ok: "pools_ok h head ps ts" and new: "x \<noteq> 0" "h x = Some r" "ia_inv x r t" "x + POOL_BYTES \<le> 2 ^ 47"
    and apart: "{x..<x + POOL_BYTES} \<inter> pool_space ps = {}"
  obtains h' where "ll_add h head x = ret (x, h')" "pools_ok h' x (x # ps) (ts(x := t))" "links_only (set (x # ps)) h h'"
    "meta_live (x # ps) (ts(x := t)) = ia_live x t \<union> meta_live ps ts"
proof -
  have notin: "x \<notin> set ps"
  proof
    assume "x \<in> set ps"
    then have "x \<in> pool_space ps" unfolding pool_space_def POOL_BYTES_eq by force
    moreover have "x \<in> {x..<x + POOL_BYTES}" by (simp add: POOL_BYTES_eq)
    ultimately show False using apart by blast
  qed
  obtain h' where h': "ll_add h head x = ret (x, h')" "ll_list h' x (x # ps)" "links_only (set (x # ps)) h h'"
    using ll.add_law [OF pools_okD(1) [OF ok] new(1) notin new(2)] by blast
  have inv: "ia_inv a (the (h' a)) ((ts(x := t)) a)" if a: "a \<in> set (x # ps)" for a
  proof -
    obtain e where e: "h a = Some e" using a new(2) pools_okD(4) [OF ok] by auto
    obtain e' where e': "h' a = Some e'" "unlink e' = unlink e" using h'(3) e by (rule links_only_Some)
    have "ia_inv a e ((ts(x := t)) a)" using a e new(2,3) pools_okD(5) [OF ok, of a] notin by (cases "a = x") auto
    then have "ia_inv a e' ((ts(x := t)) a)" using e'(2) ia_inv_unlink by metis
    then show ?thesis using e'(1) by simp
  qed
  have sep: "{x..<x + POOL_BYTES} \<inter> {b..<b + POOL_BYTES} = {}" if "b \<in> set ps" for b
    using apart that unfolding pool_space_def by blast
  have "pools_ok h' x (x # ps) (ts(x := t))"
    unfolding pools_ok_def using h'(2) inv new(4) pools_okD(6,7) [OF ok] sep by (auto simp: Int_commute)
  moreover have "meta_live (x # ps) (ts(x := t)) = ia_live x t \<union> meta_live ps ts"
    using notin by (auto simp: meta_live_def split: if_splits)
  ultimately show thesis using that h'(1,3) by blast
qed

text \<open>What metadata allocation may change besides the pools.\<close>

definition only_meta :: "arena_t \<Rightarrow> 'w mem \<Rightarrow> arena_t \<Rightarrow> 'w mem \<Rightarrow> bool" where
  "only_meta a m a' m' \<longleftrightarrow> same_arena (a\<lparr>internal_alloc_list := internal_alloc_list a'\<rparr>) a'
     \<and> m' = m\<lparr>ias := ias m', prng := prng m', world := world m'\<rparr>"

lemma only_metaD:
  assumes "only_meta a m a' m'"
  shows "is_initialized a' = is_initialized a" "secret a' = secret a" "chunk_list a' = chunk_list a"
    "huge_alloc_list a' = huge_alloc_list a" "bins a' = bins a"
    "runs m' = runs m" "chunks m' = chunks m" "huges m' = huges m" "bytes m' = bytes m"
proof -
  have "same_arena (a\<lparr>internal_alloc_list := internal_alloc_list a'\<rparr>) a'" and m': "m' = m\<lparr>ias := ias m', prng := prng m', world := world m'\<rparr>"
    using assms by (simp_all only: only_meta_def)
  from same_arenaD [OF this(1)] show "is_initialized a' = is_initialized a" "secret a' = secret a" "chunk_list a' = chunk_list a"
    "huge_alloc_list a' = huge_alloc_list a" "bins a' = bins a" by simp_all
  show "runs m' = runs m" "chunks m' = chunks m" "huges m' = huges m" "bytes m' = bytes m"
    by (subst m', simp)+
qed

lemma meta_live_fresh:
  assumes ok: "pools_ok h head ps ts" and a: "a \<in> set ps" and t': "ia_inv a r' t'" "ia_live a t' = insert (p, s) (ia_live a (ts a))"
    and fresh: "(p, s) \<notin> ia_live a (ts a)"
  shows "(p, s) \<notin> meta_live ps ts"
proof
  assume "(p, s) \<in> meta_live ps ts"
  then obtain b where b: "b \<in> set ps" "(p, s) \<in> ia_live b (ts b)" "b < p" "p + s \<le> b + POOL_BYTES" "32 \<le> s"
    using ok by (elim meta_live_range)
  have "(p, s) \<in> ia_live a t'" using t'(2) by simp
  note pa = ia_live_range [OF t'(1) this]
  have "b \<noteq> a" using b(2) fresh by blast
  then have "{a..<a + POOL_BYTES} \<inter> {b..<b + POOL_BYTES} = {}" using pools_okD(7) [OF ok a b(1)] by blast
  then have "a + POOL_BYTES \<le> b \<or> b + POOL_BYTES \<le> a" unfolding ranges_disjoint POOL_BYTES_eq by simp
  then show False using b(3-5) pa(3-5) by linarith
qed

lemma arena_internal_alloc_ok:
  assumes os: "os_contract os mapped" "CHUNK_SIZE_BYTES \<le> L" and brk: "brk_below B a"
    and go: "goes (provision os mapped L (Suc n) a m) (arena_internal_alloc os a m sz)"
    and ok: "pools_ok (ias m) (internal_alloc_list a) ps ts" and space: "pool_space ps \<subseteq> mapped (world m)"
    and sz: "1 \<le> sz" "sz \<le> 4194304"
  obtains p s a' m' ps' ts' where "arena_internal_alloc os a m sz = ret (p, a', m')" "p \<noteq> 0" "only_meta a m a' m'" "brk_below B a'"
    "provision os mapped L (Suc n) a m \<longrightarrow> provision os mapped L n a' m'" "pools_ok (ias m') (internal_alloc_list a') ps' ts'"
    "meta_live ps' ts' = insert (p, s) (meta_live ps ts)" "sz \<le> s" "(p, s) \<notin> meta_live ps ts"
    "pool_space ps \<subseteq> pool_space ps'" "mapped (world m') = mapped (world m) \<union> pool_space ps'"
    "(pool_space ps' - pool_space ps) \<inter> mapped (world m) = {}"
proof -
  let ?h = "ias m" and ?head = "internal_alloc_list a"
  obtain l where seg: "dseg ?h 0 ?head ps l 0" using pools_okD(1) [OF ok] unfolding ll_list_alt by blast
  from ia_alloc_loop_ok [OF seg pools_okD(5) [OF ok] sz]
  consider (none) "ia_alloc_loop sz ?head ?h = ret (0, ?h)"
    | (some) p h' where "ia_alloc_loop sz ?head ?h = ret (p, h')" "p \<noteq> 0" "pool_took ?h ts sz (set ps) p h'"
    by blast
  then show thesis
  proof cases
    case some
    obtain b r' s t' where t: "b \<in> set ps" "h' = ?h(b \<mapsto> r')" "ia_inv b r' t'" "ia_live b t' = insert (p, s) (ia_live b (ts b))"
      "sz \<le> s" "(p, s) \<notin> ia_live b (ts b)" "links r' = links (the (?h b))"
      using some(3) unfolding pool_took_def by blast
    have run: "arena_internal_alloc os a m sz = ret (p, a, m\<lparr>ias := h'\<rparr>)"
      using some(1,2) by (simp add: arena_internal_alloc_def)
    show thesis
    proof (rule that [OF run some(2)])
      show "pools_ok (ias (m\<lparr>ias := h'\<rparr>)) ?head ps (ts(b := t'))" using pools_ok_upd [OF ok t(1,3,7)] t(2) by simp
      show "meta_live ps (ts(b := t')) = insert (p, s) (meta_live ps ts)" by (rule meta_live_upd [OF ok t(1,4)])
      show "(p, s) \<notin> meta_live ps ts" by (rule meta_live_fresh [OF ok t(1,3,4,6)])
      show "provision os mapped L (Suc n) a m \<longrightarrow> provision os mapped L n a (m\<lparr>ias := h'\<rparr>)" by (auto intro: supplied_Suc)
    qed (use brk t(5) space in \<open>auto simp: only_meta_def\<close>)
  next
    case none
    have L: "0 < POOL_BYTES" "POOL_BYTES \<le> CHUNK_SIZE_BYTES" "4096 dvd POOL_BYTES" by (simp_all add: POOL_BYTES_eq CHUNK_SIZE_BYTES_def)
    have go1: "goes (provision os mapped L (Suc n) a m)
        (arena_morecore os INTERNAL_ALLOC_PTR reset_ia_ptr_start POOL_BYTES (\<lambda>_. MAX_USERSPACE_ADDR64) a m)"
      using go by (rule goes_step) (use none in \<open>simp_all add: arena_internal_alloc_def flip: POOL_BYTES_def\<close>)
    obtain q a1 g1 w1 where more: "arena_morecore os INTERNAL_ALLOC_PTR reset_ia_ptr_start POOL_BYTES (\<lambda>_. MAX_USERSPACE_ADDR64) a m
          = ret (q, a1, m\<lparr>prng := g1, world := w1\<rparr>)"
      "same_arena a a1" "brk_below B a1" "0 < q" "4096 dvd q" "q + POOL_BYTES \<le> 2 ^ 47"
      "{q..<q + POOL_BYTES} \<inter> mapped (world m) = {}" "mapped w1 = mapped (world m) \<union> {q..<q + POOL_BYTES}"
      "provision os mapped L (Suc n) a m \<longrightarrow> a1 = set_probe INTERNAL_ALLOC_PTR q a
       \<and> (\<forall>p. bumped q POOL_BYTES p \<longrightarrow> supplied os mapped L n (brk a) (chunk_alloc_ptr a) (huge_alloc_ptr a) p w1)"
      by (rule morecore_ia_ok [OF os L brk go1]) (rule that)
    let ?r = "internal_allocator_init q" and ?h1 = "?h(q \<mapsto> internal_allocator_init q)"
    define a2 where "a2 = (if q = internal_alloc_ptr a1
      then a1\<lparr>internal_alloc_ptr := u64 (internal_alloc_ptr a1 + alignup_page64 INT_ALLOC_T_SIZE)\<rparr> else a1)"
    have a2: "same_arena a a2" "brk_below B a2" using more(2,3) by (auto simp: a2_def brk_below_def)
    have qnew: "q \<notin> set ps"
    proof
      assume "q \<in> set ps"
      then have "q \<in> pool_space ps" by (force simp: pool_space_def POOL_BYTES_eq)
      moreover have "q \<in> {q..<q + POOL_BYTES}" by (simp add: POOL_BYTES_eq)
      ultimately show False using space more(7) by blast
    qed
    have ok1: "pools_ok ?h1 ?head ps ts"
      unfolding pools_ok_def using ok qnew by (auto simp: pools_ok_def intro: ll_list_frame)
    have inv: "ia_inv q ?r BFree" using more(6) by (intro ia_init_inv) (simp add: POOL_BYTES_eq INT_ALLOC_T_SIZE_def ia_consts)
    obtain h2 where h2: "ll_add ?h1 ?head q = ret (q, h2)" "pools_ok h2 q (q # ps) (ts(q := BFree))" "links_only (set (q # ps)) ?h1 h2"
      "meta_live (q # ps) (ts(q := BFree)) = ia_live q BFree \<union> meta_live ps ts"
    proof (rule pools_ok_add [OF ok1 _ _ inv more(6)])
      show "{q..<q + POOL_BYTES} \<inter> pool_space ps = {}" using space more(7) by blast
    qed (use more(4) that in auto)
    have live0: "ia_live q BFree = {}" by (simp add: ia_live_def)
    obtain r2 where r2: "h2 q = Some r2" using pools_okD(4) [OF h2(2), of q] by auto
    have inv2: "ia_inv q r2 BFree" using pools_okD(5) [OF h2(2), of q] r2 by simp
    have large: "\<not> bt_largest 18 BFree < sz" using sz(2) by (simp add: span_def)
    obtain p r3 s t' where t: "internal_alloc q r2 sz = ret (p, r3)" "p \<noteq> 0" "ia_inv q r3 t'"
      "ia_live q t' = insert (p, s) (ia_live q BFree)" "sz \<le> s" "(p, s) \<notin> ia_live q BFree" "fd r3 = fd r2" "bk r3 = bk r2" "key r3 = key r2"
      by (rule internal_alloc_cases [OF inv2 sz]) (use large in blast, rule that)
    let ?ts1 = "ts(q := BFree)" and ?m' = "m\<lparr>prng := g1, world := w1, ias := h2(q \<mapsto> r3)\<rparr>"
    have run: "arena_internal_alloc os a m sz = ret (p, a2\<lparr>internal_alloc_list := q\<rparr>, ?m')"
      using none more(1,4) h2(1) r2 t(1)
      by (cases "q = internal_alloc_ptr a1")
        (simp_all add: arena_internal_alloc_def Let_def a2_def same_arenaD(5) [OF more(2)] flip: POOL_BYTES_def)
    show thesis
    proof (rule that [OF run t(2)])
      have ch: "q \<in> set (q # ps)" by simp
      have tq: "?ts1 q = BFree" by simp
      have links: "links r3 = links (the (h2 q))" using t(7,8) r2 by (simp add: links_def)
      show "pools_ok (ias ?m') (internal_alloc_list (a2\<lparr>internal_alloc_list := q\<rparr>)) (q # ps) (?ts1(q := t'))"
        using pools_ok_upd [OF h2(2) ch t(3) links] by simp
      have "ia_live q t' = insert (p, s) (ia_live q (?ts1 q))" using t(4) tq by simp
      from meta_live_upd [OF h2(2) ch this] show "meta_live (q # ps) (?ts1(q := t')) = insert (p, s) (meta_live ps ts)"
        unfolding h2(4) live0 Un_empty_left .
      show "provision os mapped L (Suc n) a m \<longrightarrow> provision os mapped L n (a2\<lparr>internal_alloc_list := q\<rparr>) ?m'"
      proof
        assume "provision os mapped L (Suc n) a m"
        then have f: "a1 = set_probe INTERNAL_ALLOC_PTR q a" "\<And>p. bumped q POOL_BYTES p \<Longrightarrow> supplied os mapped L n (brk a) (chunk_alloc_ptr a) (huge_alloc_ptr a) p w1"
          using more(9) by blast+
        have "u64 (q + alignup_page64 INT_ALLOC_T_SIZE) = q + POOL_BYTES" using more(6) unfolding POOL_BYTES_def by (intro u64_small) simp
        moreover have "bumped q POOL_BYTES (q + POOL_BYTES)" using more(5) L(3) by (simp add: bumped_def)
        ultimately show "provision os mapped L n (a2\<lparr>internal_alloc_list := q\<rparr>) ?m'" using f by (simp add: a2_def)
      qed
      have "(p, s) \<notin> meta_live (q # ps) ?ts1" using t(4,6) by (intro meta_live_fresh [OF h2(2) ch t(3)]) simp_all
      then show "(p, s) \<notin> meta_live ps ts" using h2(4) by blast
      show "only_meta a m (a2\<lparr>internal_alloc_list := q\<rparr>) ?m'"
        using a2(1) by (cases a; cases a2) (simp add: only_meta_def same_arena_def)
    qed (use a2(2) more(7,8) t(5) space in \<open>auto simp: brk_below_def pool_space_def\<close>)
  qed
qed

subsection \<open>Deallocation\<close>

text \<open>The upper bound of the test is inclusive, but the rounding of the mapping to pages keeps the
  next pool further away.\<close>

lemma ia_find_loop_ok:
  assumes ok: "pools_ok h head ps ts" and p: "b \<in> set ps" "(p, s) \<in> ia_live b (ts b)"
  shows "dseg h pr c xs l 0 \<Longrightarrow> set xs \<subseteq> set ps \<Longrightarrow> b \<in> set xs \<Longrightarrow> ia_find_loop h p c = ret b"
proof (induction xs arbitrary: pr c)
  case (Cons x xs)
  note pb = ia_live_range [OF pools_okD(5) [OF ok p(1)] p(2)]
  obtain r where r: "c = x" "x \<noteq> 0" "h x = Some r" "dseg h x (fd r) xs l 0" using Cons.prems(1) by (auto split: option.splits)
  have x: "x \<in> set ps" using Cons.prems(2) by simp
  have "x + POOL_BYTES \<le> 2 ^ 47" by (rule pools_okD(6) [OF ok x])
  then have lim: "u64 (ia_memory x + INTERNAL_ALLOC_CHUNK_SIZE_BYTES) = ia_memory x + INTERNAL_ALLOC_CHUNK_SIZE_BYTES"
    by (intro u64_small) (simp add: POOL_BYTES_eq ia_memory_def ia_consts)
  show ?case
  proof (cases "x = b")
    case True
    then show ?thesis using r pb(1,2) lim by (subst ia_find_loop.simps) simp
  next
    case False
    then have "{x..<x + POOL_BYTES} \<inter> {b..<b + POOL_BYTES} = {}" by (rule pools_okD(7) [OF ok x p(1)])
    then have "x + POOL_BYTES \<le> b \<or> b + POOL_BYTES \<le> x" unfolding ranges_disjoint POOL_BYTES_eq by simp
    then have "\<not> (ia_memory x \<le> p \<and> p \<le> ia_memory x + INTERNAL_ALLOC_CHUNK_SIZE_BYTES)"
      using pb(3-5) by (auto simp: POOL_BYTES_eq ia_memory_def ia_consts)
    then have "ia_find_loop h p c = ia_find_loop h p (fd r)" using r lim by (subst ia_find_loop.simps) auto
    then show ?thesis using Cons.IH [OF r(4)] Cons.prems(2,3) False by simp
  qed
qed simp

lemma arena_internal_free_ok:
  assumes ok: "pools_ok (ias m) (internal_alloc_list a) ps ts" and p: "(p, s) \<in> meta_live ps ts"
  obtains h' ts' where "arena_internal_free a m p = ret (forget p (m\<lparr>ias := h'\<rparr>))"
    "pools_ok h' (internal_alloc_list a) ps ts'" "meta_live ps ts' = meta_live ps ts - {(p, s)}"
proof -
  obtain b where b: "b \<in> set ps" "(p, s) \<in> ia_live b (ts b)" using p by (auto simp: meta_live_def)
  obtain l where seg: "dseg (ias m) 0 (internal_alloc_list a) ps l 0" using pools_okD(1) [OF ok] unfolding ll_list_alt by blast
  have find: "ia_find_loop (ias m) p (internal_alloc_list a) = ret b"
    using ia_find_loop_ok [OF ok b seg] b(1) by simp
  let ?r = "the (ias m b)"
  have rb: "ias m b = Some ?r" "b \<noteq> 0" "ia_inv b ?r (ts b)" using pools_okD(3-5) [OF ok b(1)] by simp_all
  obtain off where off: "p = ia_memory b + off" "(off, s) \<in> bt_blocks 18 (ts b)" using b(2) by (auto simp: ia_live_def)
  obtain r' t' where f: "internal_free b ?r (ia_memory b + off) = ret r'" "ia_inv b r' t'"
    "bt_blocks 18 t' = bt_blocks 18 (ts b) - {(off, s)}" "fd r' = fd ?r" "bk r' = bk ?r"
    by (rule internal_free_eq [OF rb(3) off(2)]) (rule that)
  have live: "ia_live b t' = ia_live b (ts b) - {(p, s)}"
    unfolding ia_live_def f(3) off(1) by (auto simp: image_iff)
  have "arena_internal_free a m p = ret (forget p (m\<lparr>ias := (ias m)(b \<mapsto> r')\<rparr>))"
    using find rb(1,2) f(1) off(1) by (simp add: arena_internal_free_def)
  moreover have "pools_ok ((ias m)(b \<mapsto> r')) (internal_alloc_list a) ps (ts(b := t'))"
    using f(4,5) by (intro pools_ok_upd [OF ok b(1) f(2)]) (simp add: links_def)
  moreover have "meta_live ps (ts(b := t')) = meta_live ps ts - {(p, s)}"
  proof -
    have other: "(p, s) \<notin> ia_live x (ts x)" if x: "x \<in> set ps" "x \<noteq> b" for x
    proof
      assume "(p, s) \<in> ia_live x (ts x)"
      note px = ia_live_range [OF pools_okD(5) [OF ok x(1)] this] and pb = ia_live_range [OF pools_okD(5) [OF ok b(1)] b(2)]
      have "{x..<x + POOL_BYTES} \<inter> {b..<b + POOL_BYTES} = {}" by (rule pools_okD(7) [OF ok x(1) b(1) x(2)])
      then have "x + POOL_BYTES \<le> b \<or> b + POOL_BYTES \<le> x" unfolding ranges_disjoint POOL_BYTES_eq by simp
      then show False using px(3-5) pb(3-5) by linarith
    qed
    then show ?thesis using live b(1) by (auto simp: meta_live_def split: if_splits)
  qed
  ultimately show thesis by (rule that)
qed

subsection \<open>Properties\<close>


lemma ex_pools: "pools_ok (ias (ex_mem w)) (internal_alloc_list ex_arena) [] (\<lambda>_. BFree)"
  by (simp add: pools_ok_def ex_arena_def)

lemma ex_provision: "provision linux_os linux_mapped CHUNK_SIZE_BYTES 1 ex_arena (ex_mem [])"
  by (rule ex_supply) (simp add: room_bytes_eq CHUNK_SIZE_BYTES_def)


text \<open>C36: freeing a block that \<open>arena_internal_alloc\<close> returned succeeds and restores the set of
  live metadata blocks; the object that was there is gone. As before, the allocation is known to return when the kernel has
  memory left and there is room above the probe pointers.\<close>

theorem arena_internal_roundtrip:
  assumes "os_contract os mapped" "CHUNK_SIZE_BYTES \<le> L" "brk_below B a"
    and "provision os mapped L 1 a m \<or> \<not> diverges (arena_internal_alloc os a m sz)"
    and "pools_ok (ias m) (internal_alloc_list a) ps ts" "pool_space ps \<subseteq> mapped (world m)" "1 \<le> sz" "sz \<le> 4194304"
  shows "\<exists>p a' m' m'' ps' ts'. arena_internal_alloc os a m sz = ret (p, a', m') \<and> arena_internal_free a' m' p = ret m''
     \<and> pools_ok (ias m'') (internal_alloc_list a') ps' ts' \<and> meta_live ps' ts' = meta_live ps ts \<and> runs m'' p = None"
proof -
  have go: "goes (provision os mapped L (Suc 0) a m) (arena_internal_alloc os a m sz)" using assms(4) by (simp add: goes_def)
  obtain p s a' m' ps' ts' where r: "arena_internal_alloc os a m sz = ret (p, a', m')" "p \<noteq> 0" "only_meta a m a' m'" "brk_below B a'"
    "pools_ok (ias m') (internal_alloc_list a') ps' ts'"
    "meta_live ps' ts' = insert (p, s) (meta_live ps ts)" "sz \<le> s" "(p, s) \<notin> meta_live ps ts"
    by (rule arena_internal_alloc_ok [OF assms(1-3) go assms(5-8)]) (rule that)
  have "(p, s) \<in> meta_live ps' ts'" unfolding r(6) by simp
  then obtain h' ts'' where f: "arena_internal_free a' m' p = ret (forget p (m'\<lparr>ias := h'\<rparr>))"
    "pools_ok h' (internal_alloc_list a') ps' ts''" "meta_live ps' ts'' = meta_live ps' ts' - {(p, s)}"
    by (rule arena_internal_free_ok [OF r(5)])
  have "meta_live ps' ts'' = meta_live ps ts" using f(3) r(6,8) by simp
  moreover have "pools_ok (ias (forget p (m'\<lparr>ias := h'\<rparr>))) (internal_alloc_list a') ps' ts''" using f(2) by (simp add: forget_def)
  moreover have "runs (forget p (m'\<lparr>ias := h'\<rparr>)) p = None" by (simp add: forget_def)
  ultimately show ?thesis using r(1) f(1) by blast
qed

theorem arena_internal_roundtrip_witness:
  "\<exists>p a' m' m''. arena_internal_alloc linux_os ex_arena (ex_mem []) 64 = ret (p, a', m') \<and> arena_internal_free a' m' p = ret m''"
  using arena_internal_roundtrip [OF linux_contract order_refl ex_arena_brk disjI1 [OF ex_provision] ex_pools, of 64] by (auto simp: pool_space_def)

end
