(* ===== verification/Arena_Inv.thy ===== *)
theory Arena_Inv
  imports Arena_Meta "HOL-Library.Disjoint_Sets"
begin

text \<open>
  What a well-formed arena is. The invariant \<open>arena_inv\<close> relates the arena and the memory to a
  ghost state: the lists of pools, chunks, huge mappings and runs, the blocks in use
  and unmapped in every chunk, and for every run its home, the chunk block it manages. Its parts say that
  every list represents, every chunk and bin is well-formed, runs and blocks in use correspond
  one to one, every metadata object has a live metadata block of its own, and the address
  space the parts own is mapped and pairwise disjoint.
\<close>

subsection \<open>The ghost state\<close>

record ghost =
  g_pools :: "addr list"
  g_trees :: "addr \<Rightarrow> btree"
  g_chunks :: "addr list"
  g_used :: "addr \<Rightarrow> nat \<rightharpoonup> nat"
  g_gone :: "addr \<Rightarrow> nat set"
  g_huges :: "addr list"
  g_act :: "nat \<Rightarrow> addr list"
  g_inact :: "nat \<Rightarrow> addr list"
  g_home :: "addr \<Rightarrow> addr \<times> nat"

definition bin_runs :: "ghost \<Rightarrow> nat \<Rightarrow> addr set" where
  "bin_runs G i = set (g_act G i) \<union> set (g_inact G i)"

definition all_runs :: "ghost \<Rightarrow> addr set" where
  "all_runs G = (\<Union>i < ARENA_NO_BINS. bin_runs G i)"

definition blocks :: "ghost \<Rightarrow> (addr \<times> nat) set" where
  "blocks G = {(x, n). x \<in> set (g_chunks G) \<and> n \<in> dom (g_used G x)}"

lemma ARENA_NO_BINS_eq: "ARENA_NO_BINS = 43"
  by (simp add: ARENA_NO_BINS_def size_consts)

subsection \<open>The parts of the invariant\<close>

definition pool_part :: "arena_t \<Rightarrow> 'w mem \<Rightarrow> ghost \<Rightarrow> bool" where
  "pool_part a m G \<longleftrightarrow> pools_ok (ias m) (internal_alloc_list a) (g_pools G) (g_trees G)"

abbreviation metas :: "ghost \<Rightarrow> (addr \<times> nat) set" where
  "metas G \<equiv> meta_live (g_pools G) (g_trees G)"

definition chunk_part :: "arena_t \<Rightarrow> 'w mem \<Rightarrow> ghost \<Rightarrow> bool" where
  "chunk_part a m G \<longleftrightarrow> ll_list (chunks m) (chunk_list a) (g_chunks G)
     \<and> (\<forall>x \<in> set (g_chunks G). chunk_inv (the (chunks m x)) (g_used G x) (g_gone G x)
          \<and> key (the (chunks m x)) + CHUNK_SIZE_BYTES \<le> 2 ^ 47 \<and> 4096 dvd key (the (chunks m x)))"

definition huge_part :: "arena_t \<Rightarrow> 'w mem \<Rightarrow> ghost \<Rightarrow> bool" where
  "huge_part a m G \<longleftrightarrow> ll_list (huges m) (huge_alloc_list a) (g_huges G)
     \<and> (\<forall>x \<in> set (g_huges G). 0 < key (the (huges m x)) \<and> LARGE_SIZE_MAX_REGION < hlen (the (huges m x)) \<and> 4096 dvd key (the (huges m x))
          \<and> key (the (huges m x)) + hlen (the (huges m x)) \<le> 2 ^ 47 \<and> 4096 dvd hlen (the (huges m x)))"

text \<open>A bin is zero until its first use.\<close>

definition bin_slot :: "bin_t \<Rightarrow> run_store \<Rightarrow> addr list \<Rightarrow> addr list \<Rightarrow> nat \<Rightarrow> bool" where
  "bin_slot b h act inact i \<longleftrightarrow> b = bin_zero \<and> act = [] \<and> inact = []
     \<or> bin_rep b h act inact \<and> bin_index (reg_size b) = i"

definition bin_part :: "arena_t \<Rightarrow> 'w mem \<Rightarrow> ghost \<Rightarrow> bool" where
  "bin_part a m G \<longleftrightarrow> length (bins a) = ARENA_NO_BINS
     \<and> (\<forall>i < ARENA_NO_BINS. bin_slot (bins a ! i) (runs m) (g_act G i) (g_inact G i) i)
     \<and> (\<forall>i < ARENA_NO_BINS. \<forall>j < ARENA_NO_BINS. i \<noteq> j \<longrightarrow> bin_runs G i \<inter> bin_runs G j = {})"

text \<open>Every run manages the block of its home; \<open>X\<close> are blocks that wait for their run or have lost it.\<close>

definition at_home :: "arena_t \<Rightarrow> 'w mem \<Rightarrow> ghost \<Rightarrow> nat \<Rightarrow> addr \<Rightarrow> bool" where
  "at_home a m G i x \<longleftrightarrow> (case g_home G x of (c, n) \<Rightarrow>
     key (the (runs m x)) = block_ptr (the (chunks m c)) n \<and> block_size n = run_size_pages (bins a ! i) * 4096
     \<and> g_used G c n = Some (reg_size (bins a ! i)))"

definition link_part :: "(addr \<times> nat) set \<Rightarrow> arena_t \<Rightarrow> 'w mem \<Rightarrow> ghost \<Rightarrow> bool" where
  "link_part X a m G \<longleftrightarrow> bij_betw (g_home G) (all_runs G) (blocks G - X)
     \<and> (\<forall>i < ARENA_NO_BINS. \<forall>x \<in> bin_runs G i. at_home a m G i x)"

definition run_bytes :: "bin_t \<Rightarrow> nat" where
  "run_bytes b = RUN_T_SIZE + BITS2BYTES_CEIL (reg_mask_size_bits b)"

text \<open>Every object has a metadata block of its own that is large enough.\<close>

definition has_meta :: "ghost \<Rightarrow> nat \<Rightarrow> addr \<Rightarrow> bool" where
  "has_meta G k x \<longleftrightarrow> (\<exists>s \<ge> k. (x, s) \<in> metas G)"

definition object_part :: "arena_t \<Rightarrow> ghost \<Rightarrow> bool" where
  "object_part a G \<longleftrightarrow> (\<forall>x \<in> set (g_chunks G). has_meta G CHUNK_T_SIZE x) \<and> (\<forall>x \<in> set (g_huges G). has_meta G HUGE_CHUNK_T_SIZE x)
     \<and> (\<forall>i < ARENA_NO_BINS. \<forall>x \<in> bin_runs G i. has_meta G (run_bytes (bins a ! i)) x)
     \<and> set (g_chunks G) \<inter> set (g_huges G) = {} \<and> set (g_chunks G) \<inter> all_runs G = {} \<and> set (g_huges G) \<inter> all_runs G = {}"

text \<open>The address space in use: what is left of each chunk, the huge mappings, and the pools.\<close>

definition chunk_space :: "'w mem \<Rightarrow> ghost \<Rightarrow> addr \<Rightarrow> addr set" where
  "chunk_space m G x = {key (the (chunks m x)) ..< key (the (chunks m x)) + CHUNK_SIZE_BYTES}
     - (\<Union>n \<in> g_gone G x. block_range (the (chunks m x)) n)"

definition huge_space :: "'w mem \<Rightarrow> addr \<Rightarrow> addr set" where
  "huge_space m x = {key (the (huges m x)) ..< key (the (huges m x)) + hlen (the (huges m x))}"

definition space_part :: "addr set \<Rightarrow> 'w mem \<Rightarrow> ghost \<Rightarrow> bool" where
  "space_part M m G \<longleftrightarrow> pool_space (g_pools G) \<subseteq> M
     \<and> (\<forall>x \<in> set (g_chunks G). chunk_space m G x \<subseteq> M - pool_space (g_pools G))
     \<and> (\<forall>x \<in> set (g_huges G). huge_space m x \<subseteq> M - pool_space (g_pools G))
     \<and> disjoint_family_on (chunk_space m G) (set (g_chunks G)) \<and> disjoint_family_on (huge_space m) (set (g_huges G))
     \<and> (\<forall>x \<in> set (g_chunks G). \<forall>y \<in> set (g_huges G). chunk_space m G x \<inter> huge_space m y = {})"

lemma space_partD:
  assumes "space_part M m G"
  shows "pool_space (g_pools G) \<subseteq> M" "x \<in> set (g_chunks G) \<Longrightarrow> chunk_space m G x \<subseteq> M - pool_space (g_pools G)"
    "y \<in> set (g_huges G) \<Longrightarrow> huge_space m y \<subseteq> M - pool_space (g_pools G)"
    "x \<in> set (g_chunks G) \<Longrightarrow> x' \<in> set (g_chunks G) \<Longrightarrow> x \<noteq> x' \<Longrightarrow> chunk_space m G x \<inter> chunk_space m G x' = {}"
    "y \<in> set (g_huges G) \<Longrightarrow> y' \<in> set (g_huges G) \<Longrightarrow> y \<noteq> y' \<Longrightarrow> huge_space m y \<inter> huge_space m y' = {}"
    "x \<in> set (g_chunks G) \<Longrightarrow> y \<in> set (g_huges G) \<Longrightarrow> chunk_space m G x \<inter> huge_space m y = {}"
  using assms by (simp_all add: space_part_def disjoint_family_on_def)

lemma space_partI:
  assumes "pool_space (g_pools G) \<subseteq> M" "\<And>x. x \<in> set (g_chunks G) \<Longrightarrow> chunk_space m G x \<subseteq> M - pool_space (g_pools G)"
    "\<And>y. y \<in> set (g_huges G) \<Longrightarrow> huge_space m y \<subseteq> M - pool_space (g_pools G)"
    "\<And>x x'. x \<in> set (g_chunks G) \<Longrightarrow> x' \<in> set (g_chunks G) \<Longrightarrow> x \<noteq> x' \<Longrightarrow> chunk_space m G x \<inter> chunk_space m G x' = {}"
    "\<And>y y'. y \<in> set (g_huges G) \<Longrightarrow> y' \<in> set (g_huges G) \<Longrightarrow> y \<noteq> y' \<Longrightarrow> huge_space m y \<inter> huge_space m y' = {}"
    "\<And>x y. x \<in> set (g_chunks G) \<Longrightarrow> y \<in> set (g_huges G) \<Longrightarrow> chunk_space m G x \<inter> huge_space m y = {}"
  shows "space_part M m G"
  using assms unfolding space_part_def disjoint_family_on_def by (intro conjI ballI impI) assumption+

definition arena_inv :: "('w \<Rightarrow> addr set) \<Rightarrow> (addr \<times> nat) set \<Rightarrow> arena_t \<Rightarrow> 'w mem \<Rightarrow> ghost \<Rightarrow> bool" where
  "arena_inv mapped X a m G \<longleftrightarrow> pool_part a m G \<and> chunk_part a m G \<and> huge_part a m G \<and> bin_part a m G
     \<and> link_part X a m G \<and> object_part a G \<and> space_part (mapped (world m)) m G"

lemma arena_invD:
  assumes "arena_inv mapped X a m G"
  shows "pool_part a m G" "chunk_part a m G" "huge_part a m G" "bin_part a m G" "link_part X a m G" "object_part a G"
    "space_part (mapped (world m)) m G"
  using assms by (simp_all add: arena_inv_def)

text \<open>The regions the program holds: the allocated regions of all runs and the huge mappings.\<close>

definition live :: "arena_t \<Rightarrow> 'w mem \<Rightarrow> ghost \<Rightarrow> (addr \<times> nat) set" where
  "live a m G = (\<Union>i < ARENA_NO_BINS. (\<lambda>p. (p, reg_size (bins a ! i))) ` bin_regions (bins a ! i) (runs m) (bin_runs G i) STATE_ALLOC)
     \<union> (\<lambda>x. (key (the (huges m x)), hlen (the (huges m x)))) ` set (g_huges G)"

subsection \<open>The empty arena\<close>

definition g_empty :: ghost where
  "g_empty = \<lparr>g_pools = [], g_trees = (\<lambda>_. BFree), g_chunks = [], g_used = (\<lambda>_. Map.empty), g_gone = (\<lambda>_. {}), g_huges = [],
     g_act = (\<lambda>_. []), g_inact = (\<lambda>_. []), g_home = (\<lambda>_. (0, 0))\<rparr>"

lemma g_empty_simps [simp]:
  "g_pools g_empty = []" "g_chunks g_empty = []" "g_huges g_empty = []" "bin_runs g_empty i = {}" "all_runs g_empty = {}"
  "blocks g_empty = {}" "g_act g_empty i = []" "g_inact g_empty i = []"
  by (simp_all add: g_empty_def bin_runs_def all_runs_def blocks_def)

lemma arena_inv_empty:
  assumes "internal_alloc_list a = 0" "chunk_list a = 0" "huge_alloc_list a = 0" "bins a = replicate ARENA_NO_BINS bin_zero"
  shows "arena_inv mapped {} a m g_empty" "live a m g_empty = {}"
  using assms
  by (simp_all add: arena_inv_def pool_part_def pools_ok_def chunk_part_def huge_part_def bin_part_def bin_slot_def link_part_def
      object_part_def space_part_def pool_space_def disjoint_family_on_def live_def bin_regions_def bij_betw_def)

subsection \<open>What follows from it\<close>

lemma bin_of_run:
  assumes "bin_part a m G" "i < ARENA_NO_BINS" "x \<in> bin_runs G i"
  shows "bin_rep (bins a ! i) (runs m) (g_act G i) (g_inact G i)" "bin_index (reg_size (bins a ! i)) = i"
  using assms by (auto simp: bin_part_def bin_slot_def bin_runs_def)

lemma run_of_bin:
  assumes "bin_part a m G" "i < ARENA_NO_BINS" "x \<in> bin_runs G i"
  shows "x \<noteq> 0" "runs m x = Some (the (runs m x))" "run_inv (bins a ! i) (the (runs m x))"
proof -
  have "x \<in> set (g_act G i) \<union> set (g_inact G i)" using assms(3) by (simp add: bin_runs_def)
  then obtain r where "runs m x = Some r" "x \<noteq> 0" "run_inv (bins a ! i) r" by (rule bin_rep_node [OF bin_of_run(1) [OF assms]])
  then show "x \<noteq> 0" "runs m x = Some (the (runs m x))" "run_inv (bins a ! i) (the (runs m x))" by simp_all
qed

lemma all_runsE:
  assumes "x \<in> all_runs G"
  obtains i where "i < ARENA_NO_BINS" "x \<in> bin_runs G i"
  using assms by (auto simp: all_runs_def)

lemma run_home:
  assumes "link_part X a m G" "i < ARENA_NO_BINS" "x \<in> bin_runs G i"
  obtains c n where "g_home G x = (c, n)" "(c, n) \<in> blocks G" "(c, n) \<notin> X" "key (the (runs m x)) = block_ptr (the (chunks m c)) n"
    "block_size n = run_size_pages (bins a ! i) * 4096" "g_used G c n = Some (reg_size (bins a ! i))"
proof -
  obtain c n where h: "g_home G x = (c, n)" by (cases "g_home G x")
  have "x \<in> all_runs G" using assms(2,3) by (auto simp: all_runs_def)
  then have "g_home G x \<in> blocks G - X" using assms(1) bij_betwE by (fastforce simp: link_part_def)
  moreover have "at_home a m G i x" using assms by (simp add: link_part_def)
  ultimately show thesis using that h by (auto simp: at_home_def)
qed

lemma home_run:
  assumes "link_part X a m G" "(c, n) \<in> blocks G - X"
  obtains i x where "i < ARENA_NO_BINS" "x \<in> bin_runs G i" "g_home G x = (c, n)"
proof -
  have "(c, n) \<in> g_home G ` all_runs G" using assms by (simp add: link_part_def bij_betw_def)
  then obtain x where "x \<in> all_runs G" "g_home G x = (c, n)" by auto
  then show thesis using that by (auto simp: all_runs_def)
qed

lemma chunk_of:
  assumes "chunk_part a m G" "x \<in> set (g_chunks G)"
  shows "x \<noteq> 0" "chunks m x = Some (the (chunks m x))" "chunk_inv (the (chunks m x)) (g_used G x) (g_gone G x)"
    "key (the (chunks m x)) + CHUNK_SIZE_BYTES \<le> 2 ^ 47" "4096 dvd key (the (chunks m x))"
  using assms ll_list_node [of "chunks m" "chunk_list a" "g_chunks G" x] by (auto simp: chunk_part_def)

lemma block_level:
  assumes "chunk_inv c A D" "n \<in> dom A \<union> D"
  obtains j where "j \<le> 11" "n \<in> lev (11 - j)" "n \<in> {1..4095}"
proof -
  have n: "n \<in> {2..4095}" using chunk_invD(3) [OF assms(1)] assms(2) by blast
  then obtain L where "L \<le> 11" "n \<in> lev L" using level_of [of n] by auto
  then show thesis using that [of "11 - L"] n by auto
qed

lemma block_in_chunk:
  assumes "chunk_inv c A D" "n \<in> dom A"
  shows "block_range c n \<subseteq> {key c ..< key c + CHUNK_SIZE_BYTES} - (\<Union>d \<in> D. block_range c d)" "block_range c n \<noteq> {}"
proof -
  obtain j where j: "j \<le> 11" "n \<in> lev (11 - j)" "n \<in> {1..4095}" using assms by (auto elim: block_level)
  note pl = block_place(1) [OF j(2,1)] block_place(2) [OF j(2,1), of c] block_place(3) [OF j(2,1), of c]
  have "block_range c n \<inter> block_range c d = {}" if d: "d \<in> D" for d
  proof -
    have "d \<in> {1..4095}" "n \<noteq> d" using assms d chunk_invD(3,4) [OF assms(1)] by auto
    then show ?thesis using chunk_invD(5) [OF assms(1), of n d] j(3) assms(2) d by (intro block_range_disjoint) auto
  qed
  moreover have "block_range c n \<subseteq> {key c ..< key c + CHUNK_SIZE_BYTES}" using pl(2,3) by (auto simp: block_range_def)
  ultimately show "block_range c n \<subseteq> {key c ..< key c + CHUNK_SIZE_BYTES} - (\<Union>d \<in> D. block_range c d)" by blast
  show "block_range c n \<noteq> {}" using pl(1) by (simp add: block_range_def CHUNK_LEAST_REGION_SIZE_BYTES_def PAGE_SIZE_def)
qed

lemma block_apart:
  assumes "chunk_inv c A D" "n \<in> dom A" "k \<in> dom A" "n \<noteq> k"
  shows "block_range c n \<inter> block_range c k = {}"
proof -
  have "n \<in> {1..4095}" "k \<in> {1..4095}" using assms chunk_invD(3) [OF assms(1)] by auto
  then show ?thesis using chunk_invD(5) [OF assms(1), of n k] assms by (intro block_range_disjoint) auto
qed

lemma blocks_apart:
  assumes inv: "arena_inv mapped X a m G" and b: "(c, n) \<in> blocks G" "(d, k) \<in> blocks G" "(c, n) \<noteq> (d, k)"
  shows "block_range (the (chunks m c)) n \<inter> block_range (the (chunks m d)) k = {}"
proof (cases "c = d")
  case True
  have "chunk_inv (the (chunks m c)) (g_used G c) (g_gone G c)" using b(1) chunk_of(3) [OF arena_invD(2) [OF inv]] by (simp add: blocks_def)
  from block_apart [OF this, of n k] show ?thesis using b True by (auto simp: blocks_def)
next
  case False
  have c: "c \<in> set (g_chunks G)" "n \<in> dom (g_used G c)" and d: "d \<in> set (g_chunks G)" "k \<in> dom (g_used G d)" using b by (auto simp: blocks_def)
  have "chunk_space m G c \<inter> chunk_space m G d = {}" using space_partD(4) [OF arena_invD(7) [OF inv] c(1) d(1) False] .
  moreover have "block_range (the (chunks m c)) n \<subseteq> chunk_space m G c" "block_range (the (chunks m d)) k \<subseteq> chunk_space m G d"
    unfolding chunk_space_def using block_in_chunk(1) [OF chunk_of(3) [OF arena_invD(2) [OF inv]]] c d by blast+
  ultimately show ?thesis by blast
qed

lemma run_range_home:
  "key r = block_ptr c n \<Longrightarrow> block_size n = run_size_pages b * 4096 \<Longrightarrow> run_addr_range b r = block_range c n"
  by (simp add: run_addr_range_def block_range_def)

lemma runs_apart:
  assumes inv: "arena_inv mapped X a m G" and x: "i < ARENA_NO_BINS" "x \<in> bin_runs G i" and y: "j < ARENA_NO_BINS" "y \<in> bin_runs G j" and ne: "x \<noteq> y"
  shows "run_addr_range (bins a ! i) (the (runs m x)) \<inter> run_addr_range (bins a ! j) (the (runs m y)) = {}"
proof -
  note link = arena_invD(5) [OF inv]
  obtain c n where cn: "g_home G x = (c, n)" "(c, n) \<in> blocks G" "key (the (runs m x)) = block_ptr (the (chunks m c)) n"
    "block_size n = run_size_pages (bins a ! i) * 4096" using run_home [OF link x] by metis
  obtain d k where dk: "g_home G y = (d, k)" "(d, k) \<in> blocks G" "key (the (runs m y)) = block_ptr (the (chunks m d)) k"
    "block_size k = run_size_pages (bins a ! j) * 4096" using run_home [OF link y] by metis
  have "x \<in> all_runs G" "y \<in> all_runs G" using x y by (auto simp: all_runs_def)
  moreover have "inj_on (g_home G) (all_runs G)" using link by (simp add: link_part_def bij_betw_def)
  ultimately have "(c, n) \<noteq> (d, k)" using ne cn(1) dk(1) by (metis inj_onD)
  from blocks_apart [OF inv cn(2) dk(2) this] show ?thesis
    unfolding run_range_home [OF cn(3,4)] run_range_home [OF dk(3,4)] .
qed

lemma run_in_chunk:
  assumes inv: "arena_inv mapped X a m G" and x: "i < ARENA_NO_BINS" "x \<in> bin_runs G i"
  obtains c where "c \<in> set (g_chunks G)" "run_addr_range (bins a ! i) (the (runs m x)) \<subseteq> chunk_space m G c"
proof -
  obtain c n where cn: "(c, n) \<in> blocks G" "key (the (runs m x)) = block_ptr (the (chunks m c)) n"
    "block_size n = run_size_pages (bins a ! i) * 4096" using run_home [OF arena_invD(5) [OF inv] x] by metis
  then have c: "c \<in> set (g_chunks G)" "n \<in> dom (g_used G c)" by (auto simp: blocks_def)
  show thesis
  proof (rule that [OF c(1)])
    show "run_addr_range (bins a ! i) (the (runs m x)) \<subseteq> chunk_space m G c"
      unfolding run_range_home [OF cn(2,3)] chunk_space_def using block_in_chunk(1) [OF chunk_of(3) [OF arena_invD(2) [OF inv] c(1)] c(2)] .
  qed
qed

subsection \<open>Live regions\<close>

lemma region_in_run:
  assumes "run_inv b r" "run_abs b r p = Some s"
  shows "{p..<p + reg_size b} \<subseteq> run_addr_range b r" "0 < reg_size b"
proof -
  note wf = run_invD(2) [OF assms(1)]
  note n = bin_wf_regions [OF wf]
  obtain i where i: "i < regions b" "p = region_addr r b i" using assms(2) wf by (rule run_absE)
  have "Suc i * reg_size b \<le> regions b * reg_size b" using i(1) by (intro mult_le_mono1) simp
  then have "i * reg_size b + reg_size b \<le> run_size_pages b * 4096" using n(5) by simp
  then show "{p..<p + reg_size b} \<subseteq> run_addr_range b r" "0 < reg_size b"
    using i(2) n(4) by (auto simp: region_addr_def run_addr_range_def)
qed

lemma regions_apart:
  assumes "run_inv b r" "run_abs b r p = Some s" "run_abs b r q = Some t" "p \<noteq> q"
  shows "{p..<p + reg_size b} \<inter> {q..<q + reg_size b} = {}"
proof -
  note wf = run_invD(2) [OF assms(1)]
  obtain i where i: "i < regions b" "p = region_addr r b i" using assms(2) wf by (rule run_absE)
  obtain j where j: "j < regions b" "q = region_addr r b j" using assms(3) wf by (rule run_absE)
  have "Suc i \<le> j \<or> Suc j \<le> i" using i(2) j(2) assms(4) by (metis Suc_leI linorder_neqE_nat)
  then have "Suc i * reg_size b \<le> j * reg_size b \<or> Suc j * reg_size b \<le> i * reg_size b" using mult_le_mono1 by blast
  then show ?thesis unfolding ranges_disjoint using i(2) j(2) by (auto simp: region_addr_def)
qed

lemma liveE:
  assumes "arena_inv mapped X a m G" "(p, s) \<in> live a m G"
  obtains (run) i x where "i < ARENA_NO_BINS" "x \<in> bin_runs G i" "run_abs (bins a ! i) (the (runs m x)) p = Some STATE_ALLOC" "s = reg_size (bins a ! i)"
      "run_inv (bins a ! i) (the (runs m x))"
  | (huge) x where "x \<in> set (g_huges G)" "p = key (the (huges m x))" "s = hlen (the (huges m x))"
  using assms(2) run_of_bin(3) [OF arena_invD(4) [OF assms(1)]] unfolding live_def bin_regions_def by auto

lemma live_space:
  assumes inv: "arena_inv mapped X a m G" and p: "(p, s) \<in> live a m G"
  shows "0 < s" "{p..<p + s} \<subseteq> mapped (world m)"
proof -
  have "0 < s \<and> {p..<p + s} \<subseteq> mapped (world m)"
    using inv p
  proof (cases rule: liveE)
    case (run i x)
    obtain c where c: "c \<in> set (g_chunks G)" "run_addr_range (bins a ! i) (the (runs m x)) \<subseteq> chunk_space m G c"
      using inv run(1,2) by (rule run_in_chunk)
    have "chunk_space m G c \<subseteq> mapped (world m)" using space_partD(2) [OF arena_invD(7) [OF inv] c(1)] by blast
    then show ?thesis using c(2) region_in_run [OF run(5,3)] run(4) by auto
  next
    case (huge x)
    then show ?thesis using arena_invD(3) [OF inv] space_partD(3) [OF arena_invD(7) [OF inv] huge(1)] by (force simp: huge_part_def huge_space_def)
  qed
  then show "0 < s" "{p..<p + s} \<subseteq> mapped (world m)" by simp_all
qed

text \<open>Two live regions never overlap.\<close>

lemma live_apart:
  assumes inv: "arena_inv mapped X a m G" and p: "(p, s) \<in> live a m G" and q: "(q, t) \<in> live a m G" and ne: "(p, s) \<noteq> (q, t)"
  shows "{p..<p + s} \<inter> {q..<q + t} = {}"
proof -
  have run_huge: "{p..<p + s} \<inter> {q..<q + t} = {}"
    if r: "i < ARENA_NO_BINS" "x \<in> bin_runs G i" "run_abs (bins a ! i) (the (runs m x)) p = Some STATE_ALLOC" "s = reg_size (bins a ! i)"
      "run_inv (bins a ! i) (the (runs m x))" and h: "y \<in> set (g_huges G)" "q = key (the (huges m y))" "t = hlen (the (huges m y))"
    for p q s t i x y
  proof -
    obtain c where c: "c \<in> set (g_chunks G)" "run_addr_range (bins a ! i) (the (runs m x)) \<subseteq> chunk_space m G c"
      using inv r(1,2) by (rule run_in_chunk)
    have "chunk_space m G c \<inter> huge_space m y = {}" using space_partD(6) [OF arena_invD(7) [OF inv] c(1) h(1)] .
    then show ?thesis using c(2) region_in_run(1) [OF r(5,3)] r(4) h(2,3) unfolding huge_space_def by blast
  qed
  from inv p show ?thesis
  proof (cases rule: liveE)
    case p1: (run i x)
    from inv q show ?thesis
    proof (cases rule: liveE)
      case (run j y)
      show ?thesis
      proof (cases "x = y")
        case True
        have "i = j"
        proof (rule ccontr)
          assume "i \<noteq> j"
          then have "bin_runs G i \<inter> bin_runs G j = {}" using arena_invD(4) [OF inv] p1(1) run(1) by (simp add: bin_part_def)
          then show False using True p1(2) run(2) by blast
        qed
        then have "p \<noteq> q" using ne p1(4) run(4) by auto
        with regions_apart [OF p1(5,3), of q STATE_ALLOC] show ?thesis using run(3,4) True \<open>i = j\<close> p1(4) by simp
      next
        case False
        have "run_addr_range (bins a ! i) (the (runs m x)) \<inter> run_addr_range (bins a ! j) (the (runs m y)) = {}"
          using inv p1(1,2) run(1,2) False by (rule runs_apart)
        then show ?thesis using region_in_run(1) [OF p1(5,3)] region_in_run(1) [OF run(5,3)] p1(4) run(4) by blast
      qed
    next
      case (huge y)
      show ?thesis using p1 huge by (rule run_huge)
    qed
  next
    case p1: (huge x)
    from inv q show ?thesis
    proof (cases rule: liveE)
      case (run j y)
      have "{q..<q + t} \<inter> {p..<p + s} = {}" using run p1 by (rule run_huge)
      then show ?thesis by blast
    next
      case (huge y)
      then have "x \<noteq> y" using p1 ne by auto
      then have "huge_space m x \<inter> huge_space m y = {}" using space_partD(5) [OF arena_invD(7) [OF inv] p1(1) huge(1)] by blast
      then show ?thesis using p1 huge by (simp add: huge_space_def)
    qed
  qed
qed

end
