(* ===== verification/Arena_Run.thy ===== *)
theory Arena_Run
  imports Arena_Inv
begin

text \<open>
  Chunks and runs of \<open>src/src/arena.c\<close>: \<open>arena_allocate_chunk\<close>, \<open>arena_allocate_run\<close> and the supply of a bin
  with runs keep the invariant of the arena and do not touch the live regions.
\<close>

subsection \<open>What allocation leaves in place\<close>

text \<open>The runs stay in their bins and at home, the chunks and huge mappings stay where they are.\<close>

definition extends :: "'w mem \<Rightarrow> ghost \<Rightarrow> 'w mem \<Rightarrow> ghost \<Rightarrow> bool" where
  "extends m G m' G' \<longleftrightarrow> (\<forall>i. bin_runs G i \<subseteq> bin_runs G' i) \<and> (\<forall>x \<in> all_runs G. g_home G' x = g_home G x)
     \<and> set (g_chunks G) \<subseteq> set (g_chunks G') \<and> (\<forall>c \<in> set (g_chunks G). key (the (chunks m' c)) = key (the (chunks m c)))
     \<and> set (g_huges G) \<subseteq> set (g_huges G')
     \<and> (\<forall>x \<in> set (g_huges G). key (the (huges m' x)) = key (the (huges m x)) \<and> hlen (the (huges m' x)) = hlen (the (huges m x)))"

lemma extends_refl [simp]: "extends m G m G"
  by (simp add: extends_def)

lemma all_runs_mono: "(\<And>i. bin_runs G i \<subseteq> bin_runs G' i) \<Longrightarrow> all_runs G \<subseteq> all_runs G'"
  unfolding all_runs_def by blast

lemma extends_trans:
  assumes "extends m G m1 G1" "extends m1 G1 m2 G2"
  shows "extends m G m2 G2"
proof -
  have "all_runs G \<subseteq> all_runs G1" using assms(1) by (intro all_runs_mono) (simp add: extends_def)
  then show ?thesis using assms unfolding extends_def by (auto simp: subset_iff)
qed

lemma extends_frame:
  assumes "bin_runs G' = bin_runs G" "g_home G' = g_home G" "g_chunks G' = g_chunks G" "g_huges G' = g_huges G" "chunks m' = chunks m" "huges m' = huges m"
  shows "extends m G m' G'"
  using assms by (simp add: extends_def)

subsection \<open>Metadata for a new object\<close>

definition objects :: "ghost \<Rightarrow> addr set" where
  "objects G = set (g_chunks G) \<union> set (g_huges G) \<union> all_runs G"

lemma object_meta:
  assumes "object_part a G" "x \<in> objects G"
  shows "\<exists>s. (x, s) \<in> metas G"
proof -
  have "\<exists>k. has_meta G k x"
    using assms(2) unfolding objects_def
  proof (elim UnE)
    assume "x \<in> all_runs G"
    then obtain i where "i < ARENA_NO_BINS" "x \<in> bin_runs G i" by (rule all_runsE)
    then show ?thesis using assms(1) unfolding object_part_def by blast
  qed (use assms(1) in \<open>simp only: object_part_def; blast\<close>)+
  then show ?thesis by (auto simp: has_meta_def)
qed

lemma has_meta_mono: "has_meta G k x \<Longrightarrow> metas G \<subseteq> metas G' \<Longrightarrow> has_meta G' k x"
  unfolding has_meta_def by blast

lemma object_part_mono:
  assumes "object_part a G" "metas G \<subseteq> metas G'" "bins a' = bins a" "g_chunks G' = g_chunks G" "g_huges G' = g_huges G"
    "g_act G' = g_act G" "g_inact G' = g_inact G"
  shows "object_part a' G'"
proof -
  have "bin_runs G' = bin_runs G" using assms(6,7) by (simp add: fun_eq_iff bin_runs_def)
  then show ?thesis using assms(1,3-5) has_meta_mono [OF _ assms(2)] by (auto simp: object_part_def all_runs_def)
qed

lemma metas_positive: "pool_part a m G \<Longrightarrow> (p, s) \<in> metas G \<Longrightarrow> 32 \<le> s"
  unfolding pool_part_def by (erule meta_live_range)

lemma metas_apart:
  "pool_part a m G \<Longrightarrow> (p, s) \<in> metas G \<Longrightarrow> (q, t) \<in> metas G \<Longrightarrow> (p, s) \<noteq> (q, t) \<Longrightarrow> p + s \<le> q \<or> q + t \<le> p"
  unfolding pool_part_def by (rule meta_live_disjoint)

lemma metas_unique: "pool_part a m G \<Longrightarrow> (p, s) \<in> metas G \<Longrightarrow> (p, t) \<in> metas G \<Longrightarrow> s = t"
  using metas_apart [of a m G p s p t] metas_positive [of a m G p s] metas_positive [of a m G p t] by auto

lemma ghost_pools_simps [simp]:
  "bin_runs (G\<lparr>g_pools := ps, g_trees := ts\<rparr>) = bin_runs G" "all_runs (G\<lparr>g_pools := ps, g_trees := ts\<rparr>) = all_runs G"
  "blocks (G\<lparr>g_pools := ps, g_trees := ts\<rparr>) = blocks G" "objects (G\<lparr>g_pools := ps, g_trees := ts\<rparr>) = objects G"
  by (simp_all add: bin_runs_def all_runs_def blocks_def objects_def fun_eq_iff)

text \<open>The parts of the invariant only depend on parts of the state.\<close>

lemma chunk_part_cong: "chunks m' = chunks m \<Longrightarrow> chunk_list a' = chunk_list a \<Longrightarrow> g_chunks G' = g_chunks G \<Longrightarrow> g_used G' = g_used G \<Longrightarrow>
    g_gone G' = g_gone G \<Longrightarrow> chunk_part a' m' G' = chunk_part a m G"
  by (simp add: chunk_part_def)

lemma huge_part_cong: "huges m' = huges m \<Longrightarrow> huge_alloc_list a' = huge_alloc_list a \<Longrightarrow> g_huges G' = g_huges G \<Longrightarrow> huge_part a' m' G' = huge_part a m G"
  by (simp add: huge_part_def)

lemma bin_part_cong: "runs m' = runs m \<Longrightarrow> bins a' = bins a \<Longrightarrow> g_act G' = g_act G \<Longrightarrow> g_inact G' = g_inact G \<Longrightarrow> bin_part a' m' G' = bin_part a m G"
  by (simp add: bin_part_def bin_runs_def)

lemma link_part_cong: "runs m' = runs m \<Longrightarrow> chunks m' = chunks m \<Longrightarrow> bins a' = bins a \<Longrightarrow> g_act G' = g_act G \<Longrightarrow> g_inact G' = g_inact G \<Longrightarrow>
    g_home G' = g_home G \<Longrightarrow> g_chunks G' = g_chunks G \<Longrightarrow> g_used G' = g_used G \<Longrightarrow> link_part X a' m' G' = link_part X a m G"
  by (simp add: link_part_def at_home_def all_runs_def bin_runs_def blocks_def)

lemma live_cong: "runs m' = runs m \<Longrightarrow> huges m' = huges m \<Longrightarrow> bins a' = bins a \<Longrightarrow> g_act G' = g_act G \<Longrightarrow> g_inact G' = g_inact G \<Longrightarrow>
    g_huges G' = g_huges G \<Longrightarrow> live a' m' G' = live a m G"
  by (simp add: live_def bin_runs_def)

lemma space_cong: "chunks m' = chunks m \<Longrightarrow> g_gone G' = g_gone G \<Longrightarrow> chunk_space m' G' = chunk_space m G"
  "huges m' = huges m \<Longrightarrow> huge_space m' = huge_space m"
  by (simp_all add: fun_eq_iff chunk_space_def huge_space_def)

lemma space_part_grow:
  assumes "space_part M m G" "M \<subseteq> M'" "(pool_space ps - pool_space (g_pools G)) \<inter> M = {}" "pool_space ps \<subseteq> M'"
    "chunks m' = chunks m" "huges m' = huges m"
  shows "space_part M' m' (G\<lparr>g_pools := ps, g_trees := ts\<rparr>)"
proof -
  have sp: "chunk_space m' (G\<lparr>g_pools := ps, g_trees := ts\<rparr>) = chunk_space m G" "huge_space m' = huge_space m"
    using assms(5,6) by (simp_all add: fun_eq_iff chunk_space_def huge_space_def)
  have le: "M - pool_space (g_pools G) \<subseteq> M' - pool_space ps" using assms(2,3) by blast
  note S = space_partD [OF assms(1)]
  show ?thesis
    by (rule space_partI) (simp_all add: sp assms(4) S(4-6) subset_trans [OF S(2) le] subset_trans [OF S(3) le])
qed

lemma inv_internal_alloc:
  assumes os: "os_contract os mapped" "CHUNK_SIZE_BYTES \<le> L" and serve: "P \<longrightarrow> provision os mapped L (Suc n) a m"
    and go: "goes P (arena_internal_alloc os a m sz)" and brk: "brk_below B a" and inv: "arena_inv mapped X a m G" and sz: "1 \<le> sz" "sz \<le> 4194304"
  obtains p s a' m' ps ts where "arena_internal_alloc os a m sz = ret (p, a', m')" "p \<noteq> 0" "only_meta a m a' m'" "brk_below B a'"
    "P \<longrightarrow> provision os mapped L n a' m'" "arena_inv mapped X a' m' (G\<lparr>g_pools := ps, g_trees := ts\<rparr>)"
    "(p, s) \<in> meta_live ps ts" "sz \<le> s" "p \<notin> objects G" "live a' m' (G\<lparr>g_pools := ps, g_trees := ts\<rparr>) = live a m G"
proof -
  note I = arena_invD [OF inv]
  have pool: "pools_ok (ias m) (internal_alloc_list a) (g_pools G) (g_trees G)" using I(1) by (simp add: pool_part_def)
  have space: "pool_space (g_pools G) \<subseteq> mapped (world m)" using I(7) by (simp add: space_part_def)
  obtain p s a' m' ps ts where r: "arena_internal_alloc os a m sz = ret (p, a', m')" "p \<noteq> 0" "only_meta a m a' m'" "brk_below B a'"
    "provision os mapped L (Suc n) a m \<longrightarrow> provision os mapped L n a' m'" "pools_ok (ias m') (internal_alloc_list a') ps ts"
    "meta_live ps ts = insert (p, s) (metas G)" "sz \<le> s" "(p, s) \<notin> metas G"
    "pool_space (g_pools G) \<subseteq> pool_space ps" "mapped (world m') = mapped (world m) \<union> pool_space ps"
    "(pool_space ps - pool_space (g_pools G)) \<inter> mapped (world m) = {}"
    using os brk goes_mono [OF go] pool space sz by (rule arena_internal_alloc_ok) (use serve in blast)
  let ?G = "G\<lparr>g_pools := ps, g_trees := ts\<rparr>"
  note same = only_metaD [OF r(3)]
  have pool': "pool_part a' m' ?G" using r(6) by (simp add: pool_part_def)
  have "arena_inv mapped X a' m' ?G" unfolding arena_inv_def
  proof (intro conjI)
    show "pool_part a' m' ?G" by (rule pool')
    show "chunk_part a' m' ?G" using I(2) chunk_part_cong [of m' m a' a ?G G] same by simp
    show "huge_part a' m' ?G" using I(3) huge_part_cong [of m' m a' a ?G G] same by simp
    show "bin_part a' m' ?G" using I(4) bin_part_cong [of m' m a' a ?G G] same by simp
    show "link_part X a' m' ?G" using I(5) link_part_cong [of m' m a' a ?G G] same by simp
    show "object_part a' ?G" using r(7) same by (intro object_part_mono [OF I(6)]) auto
    show "space_part (mapped (world m')) m' ?G" using I(7) r(11,12) same by (intro space_part_grow) auto
  qed
  moreover have "p \<notin> objects G"
  proof
    assume "p \<in> objects G"
    then obtain t where t: "(p, t) \<in> metas G" using object_meta [OF I(6)] by blast
    then have "(p, s) \<noteq> (p, t)" "(p, s) \<in> metas ?G" "(p, t) \<in> metas ?G" using r(7,9) by auto
    then show False using metas_unique [OF pool'] by auto
  qed
  moreover have "live a' m' ?G = live a m G" by (rule live_cong) (simp_all add: same)
  moreover have "(p, s) \<in> meta_live ps ts" using r(7) by simp
  moreover have "P \<longrightarrow> provision os mapped L n a' m'" using serve r(5) by blast
  ultimately show thesis using that r(1-4,8) by blast
qed

subsection \<open>A new chunk\<close>

text \<open>The links of a chunk are not part of what it is.\<close>

lemma chunk_links:
  assumes "unlink c' = unlink (c :: chunk_t)"
  shows "key c' = key c" "block_ptr c' = block_ptr c" "block_range c' = block_range c" "chunk_inv c' A D = chunk_inv c A D"
proof -
  have key: "key c' = key c" by (metis assms unlink_simps(3))
  then show "key c' = key c" "block_ptr c' = block_ptr c" "block_range c' = block_range c"
    by (simp_all add: fun_eq_iff block_ptr_def block_range_def)
  have eq: "avail_nodes_count c' = avail_nodes_count c" "reg_size_small_medium c' = reg_size_small_medium c"
    "jump_tree_first_index c' = jump_tree_first_index c" "jump_tree c' = jump_tree c" "buddy_tree c' = buddy_tree c"
    using arg_cong [OF assms, of avail_nodes_count] arg_cong [OF assms, of reg_size_small_medium]
      arg_cong [OF assms, of jump_tree_first_index] arg_cong [OF assms, of jump_tree] arg_cong [OF assms, of buddy_tree]
    by (simp_all add: unlink_def)
  show "chunk_inv c' A D = chunk_inv c A D" by (simp add: chunk_inv_def jump_ok_def eq key)
qed

lemma chunk_links_at:
  fixes h h' :: "addr \<rightharpoonup> chunk_t"
  assumes "links_only S h h'" "h x = Some c"
  shows "h' x = Some (the (h' x))" "key (the (h' x)) = key c" "block_ptr (the (h' x)) = block_ptr c"
    "block_range (the (h' x)) = block_range c" "chunk_inv (the (h' x)) A D = chunk_inv c A D"
proof -
  obtain c' where c': "h' x = Some c'" "unlink c' = unlink c" using assms by (rule links_only_Some)
  then show "h' x = Some (the (h' x))" "key (the (h' x)) = key c" "block_ptr (the (h' x)) = block_ptr c"
    "block_range (the (h' x)) = block_range c" "chunk_inv (the (h' x)) A D = chunk_inv c A D"
    using chunk_links [OF c'(2)] by simp_all
qed

text \<open>More memory and other probe pointers do no harm.\<close>

lemma space_part_mono: "space_part M m G \<Longrightarrow> M \<subseteq> M' \<Longrightarrow> space_part M' m G"
  unfolding space_part_def by blast

lemma inv_grow:
  assumes inv: "arena_inv mapped X a m G" and a': "same_arena a a'" and m': "m' = m\<lparr>prng := g, world := w\<rparr>"
    and le: "mapped (world m) \<subseteq> mapped w"
  shows "arena_inv mapped X a' m' G" "live a' m' G = live a m G"
proof -
  note I = arena_invD [OF inv] and A = same_arenaD [OF a']
  show "live a' m' G = live a m G" by (rule live_cong) (simp_all add: A m')
  have cs: "chunk_space m' G = chunk_space m G" "huge_space m' = huge_space m" by (simp_all add: fun_eq_iff chunk_space_def huge_space_def m')
  show "arena_inv mapped X a' m' G" unfolding arena_inv_def
  proof (intro conjI)
    show "pool_part a' m' G" using I(1) by (simp add: pool_part_def A m')
    show "chunk_part a' m' G" using I(2) by (simp add: chunk_part_def A m')
    show "huge_part a' m' G" using I(3) by (simp add: huge_part_def A m')
    show "bin_part a' m' G" using I(4) by (simp add: bin_part_def A m')
    show "link_part X a' m' G" using I(5) by (simp add: link_part_def at_home_def A m')
    show "object_part a' G" using I(6) by (simp add: object_part_def A)
    show "space_part (mapped (world m')) m' G"
      using space_part_mono [OF I(7) le] by (simp add: space_part_def cs) (simp add: m')
  qed
qed

definition with_chunk :: "addr \<Rightarrow> ghost \<Rightarrow> ghost" where
  "with_chunk x G = G\<lparr>g_chunks := x # g_chunks G, g_used := (g_used G)(x := Map.empty), g_gone := (g_gone G)(x := {})\<rparr>"

lemma with_chunk_simps [simp]:
  "g_pools (with_chunk x G) = g_pools G" "g_trees (with_chunk x G) = g_trees G" "g_chunks (with_chunk x G) = x # g_chunks G"
  "g_huges (with_chunk x G) = g_huges G" "g_home (with_chunk x G) = g_home G" "bin_runs (with_chunk x G) = bin_runs G"
  "all_runs (with_chunk x G) = all_runs G" "g_act (with_chunk x G) = g_act G" "g_inact (with_chunk x G) = g_inact G"
  by (simp_all add: with_chunk_def bin_runs_def all_runs_def fun_eq_iff)

lemma inv_add_chunk:
  assumes inv: "arena_inv mapped X a m G" and x: "x \<noteq> 0" "x \<notin> objects G" "has_meta G CHUNK_T_SIZE x"
    and c: "chunk_inv c Map.empty {}" "key c + CHUNK_SIZE_BYTES \<le> 2 ^ 47" "4096 dvd key c"
    and space: "{key c..<key c + CHUNK_SIZE_BYTES} \<subseteq> mapped (world m) - pool_space (g_pools G)"
      "\<And>y. y \<in> set (g_chunks G) \<Longrightarrow> {key c..<key c + CHUNK_SIZE_BYTES} \<inter> chunk_space m G y = {}"
      "\<And>y. y \<in> set (g_huges G) \<Longrightarrow> {key c..<key c + CHUNK_SIZE_BYTES} \<inter> huge_space m y = {}"
  obtains h' where "ll_add ((chunks m)(x \<mapsto> c)) (chunk_list a) x = ret (x, h')" "unlink (the (h' x)) = unlink c"
    "arena_inv mapped X (a\<lparr>chunk_list := x\<rparr>) (m\<lparr>chunks := h'\<rparr>) (with_chunk x G)"
    "live (a\<lparr>chunk_list := x\<rparr>) (m\<lparr>chunks := h'\<rparr>) (with_chunk x G) = live a m G" "extends m G (m\<lparr>chunks := h'\<rparr>) (with_chunk x G)"
proof -
  note I = arena_invD [OF inv]
  let ?h = "(chunks m)(x \<mapsto> c)" and ?G = "with_chunk x G"
  have notin: "x \<notin> set (g_chunks G)" using x(2) by (simp add: objects_def)
  have "ll_list ?h (chunk_list a) (g_chunks G)"
    using notin by (intro ll_list_frame [OF I(2) [unfolded chunk_part_def, THEN conjunct1]]) auto
  then obtain h' where h': "ll_add ?h (chunk_list a) x = ret (x, h')" "ll_list h' x (x # g_chunks G)" "links_only (set (x # g_chunks G)) ?h h'"
    using ll.add_law [of ?h "chunk_list a" "g_chunks G" x c] x(1) notin by auto
  let ?a = "a\<lparr>chunk_list := x\<rparr>" and ?m = "m\<lparr>chunks := h'\<rparr>"
  have old: "h' y = Some (the (h' y))" "key (the (h' y)) = key (the (chunks m y))" "block_ptr (the (h' y)) = block_ptr (the (chunks m y))"
    "block_range (the (h' y)) = block_range (the (chunks m y))" "chunk_inv (the (h' y)) A D = chunk_inv (the (chunks m y)) A D"
    if y: "y \<in> set (g_chunks G)" for y A D
  proof -
    have "?h y = Some (the (chunks m y))" using chunk_of(2) [OF I(2) y] notin y by auto
    from chunk_links_at [OF h'(3) this] show "h' y = Some (the (h' y))" "key (the (h' y)) = key (the (chunks m y))"
      "block_ptr (the (h' y)) = block_ptr (the (chunks m y))" "block_range (the (h' y)) = block_range (the (chunks m y))"
      "chunk_inv (the (h' y)) A D = chunk_inv (the (chunks m y)) A D" by auto
  qed
  obtain c' where c': "h' x = Some c'" "unlink c' = unlink c" using h'(3) by (rule links_only_Some [of _ _ _ x c]) simp
  note new = chunk_links [OF c'(2)]
  have blocks: "blocks ?G = blocks G" using notin by (auto simp: blocks_def with_chunk_def split: if_splits)
  have same: "g_used ?G y = g_used G y" "g_gone ?G y = g_gone G y" if "y \<in> set (g_chunks G)" for y
    using that notin by (auto simp: with_chunk_def)
  have sp: "chunk_space ?m ?G y = chunk_space m G y" if "y \<in> set (g_chunks G)" for y
    using old(2,4) [OF that] same(2) [OF that] by (simp add: chunk_space_def)
  have spx: "chunk_space ?m ?G x = {key c..<key c + CHUNK_SIZE_BYTES}"
    using c'(1) new(1) by (simp add: chunk_space_def with_chunk_def)
  have sph: "huge_space ?m = huge_space m" by (simp add: fun_eq_iff huge_space_def)
  have "arena_inv mapped X ?a ?m ?G" unfolding arena_inv_def
  proof (intro conjI)
    show "pool_part ?a ?m ?G" using I(1) by (simp add: pool_part_def)
    have "chunk_inv (the (h' y)) (g_used ?G y) (g_gone ?G y) \<and> key (the (h' y)) + CHUNK_SIZE_BYTES \<le> 2 ^ 47
        \<and> 4096 dvd key (the (h' y))" if "y \<in> set (x # g_chunks G)" for y
    proof (cases "y = x")
      case True
      then show ?thesis using c'(1) new c by (simp add: with_chunk_def)
    next
      case False
      then have y: "y \<in> set (g_chunks G)" using that by simp
      then show ?thesis using chunk_of(3,4,5) [OF I(2) y] old [OF y] same [OF y] by simp
    qed
    then show "chunk_part ?a ?m ?G" using h'(2) by (simp add: chunk_part_def)
    show "huge_part ?a ?m ?G" using I(3) by (simp add: huge_part_def)
    show "bin_part ?a ?m ?G" using I(4) by (simp add: bin_part_def)
    have "at_home ?a ?m ?G i y" if y: "i < ARENA_NO_BINS" "y \<in> bin_runs G i" for i y
    proof -
      obtain d n where "g_home G y = (d, n)" "(d, n) \<in> blocks G" using run_home [OF I(5) y] by metis
      moreover from this have "d \<in> set (g_chunks G)" by (simp add: blocks_def)
      moreover have "at_home a m G i y" using I(5) y by (simp add: link_part_def)
      ultimately show ?thesis using old(3) [of d] same(1) [of d] by (simp add: at_home_def)
    qed
    then show "link_part X ?a ?m ?G" using I(5) by (simp add: link_part_def blocks)
    show "object_part ?a ?G" using I(6) x(2,3) by (auto simp: object_part_def has_meta_def objects_def)
    show "space_part (mapped (world ?m)) ?m ?G"
    proof (rule space_partI)
      note S = space_partD [OF I(7)]
      show "pool_space (g_pools ?G) \<subseteq> mapped (world ?m)" using S(1) by simp
      show "chunk_space ?m ?G y \<subseteq> mapped (world ?m) - pool_space (g_pools ?G)" if "y \<in> set (g_chunks ?G)" for y
        using that S(2) [of y] space(1) sp spx by (cases "y = x") auto
      show "huge_space ?m y \<subseteq> mapped (world ?m) - pool_space (g_pools ?G)" if "y \<in> set (g_huges ?G)" for y
        using that S(3) [of y] by (simp add: sph)
      show "huge_space ?m y \<inter> huge_space ?m z = {}" if "y \<in> set (g_huges ?G)" "z \<in> set (g_huges ?G)" "y \<noteq> z" for y z
        using that S(5) [of y z] by (simp add: sph)
      show "chunk_space ?m ?G y \<inter> huge_space ?m z = {}" if "y \<in> set (g_chunks ?G)" "z \<in> set (g_huges ?G)" for y z
        using that S(6) [of y z] space(3) [of z] sp [of y] spx by (cases "y = x") (simp_all add: sph)
      show "chunk_space ?m ?G y \<inter> chunk_space ?m ?G z = {}" if yz: "y \<in> set (g_chunks ?G)" "z \<in> set (g_chunks ?G)" "y \<noteq> z" for y z
      proof (cases "y = x")
        case True
        then have "z \<in> set (g_chunks G)" using yz by simp
        then show ?thesis using True space(2) [of z] sp [of z] spx by simp
      next
        case False
        then have y: "y \<in> set (g_chunks G)" using yz by simp
        show ?thesis
        proof (cases "z = x")
          case True
          then show ?thesis using space(2) [OF y] sp [OF y] spx by (simp add: Int_commute)
        next
          case zx: False
          then show ?thesis using S(4) [OF y _ yz(3)] sp [OF y] sp [of z] yz(2) by simp
        qed
      qed
    qed
  qed
  moreover have "live ?a ?m ?G = live a m G" by (rule live_cong) simp_all
  moreover have "unlink (the (h' x)) = unlink c" using c' by simp
  moreover have "extends m G ?m ?G" using old(2) by (auto simp: extends_def)
  ultimately show thesis using that h'(1) by blast
qed

lemma chunk_raw_init:
  assumes "0 < q" "q + CHUNK_SIZE_BYTES \<le> 2 ^ 47"
  obtains c where "chunk_init chunk_raw q = ret c" "key c = q" "chunk_inv c Map.empty {}"
proof -
  have "q + CHUNK_SIZE_BYTES < 2 ^ 64" using assms(2) by simp
  then show thesis
    using chunk_init_ok [of chunk_raw q] assms(1) that by (auto simp: chunk_raw_def chunk_consts)
qed

lemma CHUNK_T_SIZE_le: "1 \<le> CHUNK_T_SIZE" "CHUNK_T_SIZE \<le> 4194304"
  by (simp_all add: CHUNK_T_SIZE_def chunk_consts)

lemma brk_below_upd [simp]:
  "brk_below B (a\<lparr>chunk_alloc_ptr := p\<rparr>) = brk_below B a" "brk_below B (a\<lparr>huge_alloc_ptr := p\<rparr>) = brk_below B a"
  "brk_below B (a\<lparr>chunk_list := p\<rparr>) = brk_below B a" "brk_below B (a\<lparr>bins := b\<rparr>) = brk_below B a"
  "brk_below B (a\<lparr>huge_alloc_list := p\<rparr>) = brk_below B a"
  by (simp_all add: brk_below_def)

lemma arena_allocate_chunk_ok:
  assumes os: "os_contract os mapped" "CHUNK_SIZE_BYTES \<le> L" and serve: "P \<longrightarrow> provision os mapped L (Suc (Suc n)) a m"
    and go: "goes P (arena_allocate_chunk os a m)" and brk: "brk_below B a" and inv: "arena_inv mapped X a m G"
  obtains x a' m' G' where "arena_allocate_chunk os a m = ret (x, a', m')" "arena_inv mapped X a' m' G'" "brk_below B a'"
    "P \<longrightarrow> provision os mapped L n a' m'" "x \<in> set (g_chunks G')" "g_used G' x = Map.empty" "g_gone G' x = {}" "live a' m' G' = live a m G"
    "g_act G' = g_act G" "g_inact G' = g_inact G" "bins a' = bins a" "runs m' = runs m" "bytes m' = bytes m" "extends m G m' G'"
proof -
  have go1: "goes P (arena_internal_alloc os a m CHUNK_T_SIZE)"
    using go by (rule goes_step) (simp_all add: arena_allocate_chunk_def)
  obtain x s a1 m1 ps ts where r: "arena_internal_alloc os a m CHUNK_T_SIZE = ret (x, a1, m1)" "x \<noteq> 0" "only_meta a m a1 m1" "brk_below B a1"
    "P \<longrightarrow> provision os mapped L (Suc n) a1 m1" "arena_inv mapped X a1 m1 (G\<lparr>g_pools := ps, g_trees := ts\<rparr>)"
    "(x, s) \<in> meta_live ps ts" "CHUNK_T_SIZE \<le> s" "x \<notin> objects G" "live a1 m1 (G\<lparr>g_pools := ps, g_trees := ts\<rparr>) = live a m G"
    using os serve go1 brk inv CHUNK_T_SIZE_le by (rule inv_internal_alloc)
  have go2: "goes (provision os mapped L (Suc n) a1 m1) (arena_morecore os CHUNK_ALLOC_PTR reset_chunk_ptr_start CHUNK_SIZE_BYTES brk a1 m1)"
    using go by (rule goes_step) (use r(1,5) in \<open>simp_all add: arena_allocate_chunk_def\<close>)
  let ?G1 = "G\<lparr>g_pools := ps, g_trees := ts\<rparr>"
  obtain q a2 g w where more: "arena_morecore os CHUNK_ALLOC_PTR reset_chunk_ptr_start CHUNK_SIZE_BYTES brk a1 m1 = ret (q, a2, m1\<lparr>prng := g, world := w\<rparr>)"
    "same_arena a1 a2" "brk_below B a2" "0 < q" "4096 dvd q" "q + CHUNK_SIZE_BYTES \<le> 2 ^ 47"
    "{q..<q + CHUNK_SIZE_BYTES} \<inter> mapped (world m1) = {}" "mapped w = mapped (world m1) \<union> {q..<q + CHUNK_SIZE_BYTES}"
    "provision os mapped L (Suc n) a1 m1 \<longrightarrow> a2 = set_probe CHUNK_ALLOC_PTR q a1
       \<and> (\<forall>p. bumped q CHUNK_SIZE_BYTES p \<longrightarrow> supplied os mapped L n (brk a1) p (huge_alloc_ptr a1) (internal_alloc_ptr a1) w)"
    by (rule morecore_chunk_ok [OF os r(4) go2]) (rule that)
  define a3 where "a3 = (if q = chunk_alloc_ptr a2 then a2\<lparr>chunk_alloc_ptr := u64 (chunk_alloc_ptr a2 + (CHUNK_SIZE_BYTES + PAGE_SIZE))\<rparr> else a2)"
  let ?m2 = "m1\<lparr>prng := g, world := w\<rparr>"
  have a3: "same_arena a1 a3" "brk_below B a3" using more(2,3) by (simp_all add: a3_def)
  have le: "mapped (world m1) \<subseteq> mapped w" using more(8) by blast
  note grow = inv_grow [OF r(6) a3(1) refl le]
  obtain c where c: "chunk_init chunk_raw q = ret c" "key c = q" "chunk_inv c Map.empty {}" using more(4,6) by (rule chunk_raw_init)
  have S: "S \<inter> {q..<q + CHUNK_SIZE_BYTES} = {}" if "S \<subseteq> mapped (world m1)" for S using that more(7) by blast
  note sp = space_partD [OF arena_invD(7) [OF r(6)]]
  have spaces: "chunk_space ?m2 ?G1 = chunk_space m1 ?G1" "huge_space ?m2 = huge_space m1"
    by (simp_all add: fun_eq_iff chunk_space_def huge_space_def)
  obtain h' where h': "ll_add ((chunks ?m2)(x \<mapsto> c)) (chunk_list a3) x = ret (x, h')"
    "arena_inv mapped X (a3\<lparr>chunk_list := x\<rparr>) (?m2\<lparr>chunks := h'\<rparr>) (with_chunk x ?G1)"
    "live (a3\<lparr>chunk_list := x\<rparr>) (?m2\<lparr>chunks := h'\<rparr>) (with_chunk x ?G1) = live a3 ?m2 ?G1"
    "extends ?m2 ?G1 (?m2\<lparr>chunks := h'\<rparr>) (with_chunk x ?G1)"
  proof (rule inv_add_chunk [OF grow(1) r(2) _ _ c(3)])
    show "x \<notin> objects ?G1" using r(9) by simp
    show "has_meta ?G1 CHUNK_T_SIZE x" using r(7,8) by (auto simp: has_meta_def)
    show "key c + CHUNK_SIZE_BYTES \<le> 2 ^ 47" "4096 dvd key c" using c(2) more(5,6) by simp_all
    have "pool_space ps \<inter> {q..<q + CHUNK_SIZE_BYTES} = {}" using S sp(1) by simp
    then show "{key c..<key c + CHUNK_SIZE_BYTES} \<subseteq> mapped (world ?m2) - pool_space (g_pools ?G1)" using more(8) c(2) by auto
    show "{key c..<key c + CHUNK_SIZE_BYTES} \<inter> chunk_space ?m2 ?G1 y = {}" if y: "y \<in> set (g_chunks ?G1)" for y
    proof -
      have "chunk_space m1 ?G1 y \<subseteq> mapped (world m1)" using sp(2) [OF y] by blast
      from S [OF this] show ?thesis unfolding spaces c(2) by (simp only: Int_commute)
    qed
    show "{key c..<key c + CHUNK_SIZE_BYTES} \<inter> huge_space ?m2 y = {}" if y: "y \<in> set (g_huges ?G1)" for y
    proof -
      have "huge_space m1 y \<subseteq> mapped (world m1)" using sp(3) [OF y] by blast
      from S [OF this] show ?thesis unfolding spaces c(2) by (simp only: Int_commute)
    qed
  qed (rule that)
  have list: "chunk_list a3 = chunk_list a1" "bins a3 = bins a" using same_arenaD [OF a3(1)] only_metaD [OF r(3)] by simp_all
  have run: "arena_allocate_chunk os a m = ret (x, a3\<lparr>chunk_list := x\<rparr>, ?m2\<lparr>chunks := h'\<rparr>)"
    using r(1,2) more(1) c(1) h'(1) by (simp add: arena_allocate_chunk_def Let_def flip: a3_def)
  have "P \<longrightarrow> provision os mapped L n a3 ?m2"
  proof
    assume P
    then have f: "a2 = set_probe CHUNK_ALLOC_PTR q a1"
      "\<And>p. bumped q CHUNK_SIZE_BYTES p \<Longrightarrow> supplied os mapped L n (brk a1) p (huge_alloc_ptr a1) (internal_alloc_ptr a1) w"
      using r(5) more(9) by blast+
    have "u64 (q + (CHUNK_SIZE_BYTES + PAGE_SIZE)) = q + CHUNK_SIZE_BYTES + 4096" using more(6) by (simp add: PAGE_SIZE_def wrap_simps)
    moreover have "bumped q CHUNK_SIZE_BYTES (q + CHUNK_SIZE_BYTES + 4096)" using more(5) by (simp add: bumped_def CHUNK_SIZE_BYTES_def)
    ultimately show "provision os mapped L n a3 ?m2" using f by (simp add: a3_def)
  qed
  then have supply': "P \<longrightarrow> provision os mapped L n (a3\<lparr>chunk_list := x\<rparr>) (?m2\<lparr>chunks := h'\<rparr>)" by simp
  show thesis
  proof (rule that [OF run h'(2) _ supply'])
    show "live (a3\<lparr>chunk_list := x\<rparr>) (?m2\<lparr>chunks := h'\<rparr>) (with_chunk x ?G1) = live a m G" using h'(3) grow(2) r(10) by (simp only:)
    have "extends m G ?m2 ?G1" using only_metaD [OF r(3)] by (intro extends_frame) simp_all
    then show "extends m G (?m2\<lparr>chunks := h'\<rparr>) (with_chunk x ?G1)" using h'(4) by (rule extends_trans)
  qed (use a3(2) list only_metaD [OF r(3)] in \<open>simp_all add: with_chunk_def\<close>)
qed

subsection \<open>A block for a run\<close>

definition with_block :: "addr \<Rightarrow> nat \<Rightarrow> nat \<Rightarrow> ghost \<Rightarrow> ghost" where
  "with_block x n r G = G\<lparr>g_used := (g_used G)(x := (g_used G x)(n \<mapsto> r))\<rparr>"

lemma with_block_simps [simp]:
  "g_pools (with_block x n r G) = g_pools G" "g_trees (with_block x n r G) = g_trees G" "g_chunks (with_block x n r G) = g_chunks G"
  "g_gone (with_block x n r G) = g_gone G" "g_huges (with_block x n r G) = g_huges G" "g_home (with_block x n r G) = g_home G"
  "bin_runs (with_block x n r G) = bin_runs G" "all_runs (with_block x n r G) = all_runs G"
  "g_act (with_block x n r G) = g_act G" "g_inact (with_block x n r G) = g_inact G"
  "g_used (with_block x n r G) y = (if y = x then (g_used G x)(n \<mapsto> r) else g_used G y)"
  by (simp_all add: with_block_def bin_runs_def all_runs_def fun_eq_iff)

lemma ll_list_upd:
  assumes "ll_list h head xs" "x \<in> set xs" "h x = Some e" "fd e' = fd e" "bk e' = bk e"
  shows "ll_list (h(x \<mapsto> e')) head xs"
  using assms(2-) by (intro ll_list_frame [OF assms(1)]) (auto simp: links_def)

lemma inv_take_block:
  assumes inv: "arena_inv mapped X a m G" and x: "x \<in> set (g_chunks G)" "n \<notin> dom (g_used G x)"
    and c: "chunk_inv c ((g_used G x)(n \<mapsto> r)) (g_gone G x)" "key c = key (the (chunks m x))" "fd c = fd (the (chunks m x))" "bk c = bk (the (chunks m x))"
  shows "arena_inv mapped (insert (x, n) X) a (m\<lparr>chunks := (chunks m)(x \<mapsto> c), prng := g\<rparr>) (with_block x n r G)" (is "arena_inv _ _ _ ?m ?G")
    "live a (m\<lparr>chunks := (chunks m)(x \<mapsto> c), prng := g\<rparr>) (with_block x n r G) = live a m G"
proof -
  note I = arena_invD [OF inv]
  show "live a ?m ?G = live a m G" by (rule live_cong) (simp_all add: with_block_def)
  have same: "key (the (chunks ?m y)) = key (the (chunks m y))" "block_ptr (the (chunks ?m y)) = block_ptr (the (chunks m y))"
    "block_range (the (chunks ?m y)) = block_range (the (chunks m y))" for y
    using c(2) by (simp_all add: fun_eq_iff block_ptr_def block_range_def)
  have sp: "chunk_space ?m ?G = chunk_space m G" "huge_space ?m = huge_space m"
    unfolding fun_eq_iff chunk_space_def huge_space_def same by simp_all
  have blocks: "blocks ?G = insert (x, n) (blocks G)" "(x, n) \<notin> blocks G" using x by (auto simp: blocks_def split: if_splits)
  show "arena_inv mapped (insert (x, n) X) a ?m ?G" unfolding arena_inv_def
  proof (intro conjI)
    show "pool_part a ?m ?G" using I(1) by (simp add: pool_part_def)
    have "ll_list ((chunks m)(x \<mapsto> c)) (chunk_list a) (g_chunks G)"
      using I(2) chunk_of(2) [OF I(2) x(1)] c(3,4) x(1) by (intro ll_list_upd) (auto simp: chunk_part_def)
    then show "chunk_part a ?m ?G" using c(1,2) chunk_of(3,4,5) [OF I(2)] x(1) by (simp add: chunk_part_def)
    show "huge_part a ?m ?G" using I(3) by (simp add: huge_part_def)
    show "bin_part a ?m ?G" using I(4) by (simp add: bin_part_def)
    have "at_home a ?m ?G i y" if y: "i < ARENA_NO_BINS" "y \<in> bin_runs G i" for i y
    proof -
      obtain d k where dk: "g_home G y = (d, k)" "(d, k) \<in> blocks G" using run_home [OF I(5) y] by metis
      then have "g_used ?G d k = g_used G d k" using blocks(2) by auto
      moreover have "at_home a m G i y" using I(5) y by (simp add: link_part_def)
      ultimately show ?thesis using dk(1) same(2) [of d] by (simp add: at_home_def)
    qed
    moreover have "blocks ?G - insert (x, n) X = blocks G - X" using blocks by auto
    ultimately show "link_part (insert (x, n) X) a ?m ?G" using I(5) by (simp add: link_part_def)
    show "object_part a ?G" using I(6) by (simp add: object_part_def has_meta_def)
    show "space_part (mapped (world ?m)) ?m ?G" using I(7) unfolding space_part_def sp by simp
  qed
qed

text \<open>The pages of a run are a power of two of the chunk's leaves.\<close>

lemma run_bytes_level:
  assumes "bin_wf b"
  obtains j where "j \<le> 10" "u32 (run_size_pages b * PAGE_SIZE) = CHUNK_LEAST_REGION_SIZE_BYTES * 2 ^ j" "j = 0 \<longrightarrow> reg_size b < REG_MARK_BAD_VALUE"
    "run_size_pages b * 4096 = CHUNK_LEAST_REGION_SIZE_BYTES * 2 ^ j"
proof -
  have c: "reg_size b \<in> set size_classes" "run_size_pages b = class_pages (reg_size b)" using assms by (simp_all add: bin_wf_def)
  have "class_pages (reg_size b) \<le> 256" using class_pages_le [OF c(1)] by simp
  then have u: "u32 (run_size_pages b * PAGE_SIZE) = run_size_pages b * 4096" unfolding c(2) by (simp add: PAGE_SIZE_def wrap_simps)
  have bytes: "run_size_pages b * 4096 = (if reg_size b \<le> 8192 then 16384 else reg_size b)" unfolding c(2) by (rule class_run_bytes [OF c(1)])
  from c(1) show thesis
  proof (cases rule: size_class_cases)
    case (large i)
    have "i = 0 \<longrightarrow> reg_size b < REG_MARK_BAD_VALUE" using large(2) by (simp add: REG_MARK_BAD_VALUE_def)
    then show thesis using that [of i] large u bytes by (simp add: chunk_consts)
  qed (use that [of 0] u bytes in \<open>simp_all add: chunk_consts REG_MARK_BAD_VALUE_def\<close>)
qed

text \<open>The loop: the first chunk with a block, or NULL.\<close>

lemma avail_fresh: "n \<in> avail (taken N) \<Longrightarrow> n \<notin> N"
proof
  assume n: "n \<in> avail (taken N)" "n \<in> N"
  then have "leaves n \<subseteq> taken N" by (auto simp: taken_def)
  moreover have "leaves n \<noteq> {}" "leaves n \<inter> taken N = {}" using n(1) leaves_nonempty [of n] by (auto simp: avail_def)
  ultimately show False by blast
qed

definition took_block :: "'w mem \<Rightarrow> ghost \<Rightarrow> nat \<Rightarrow> nat \<Rightarrow> addr set \<Rightarrow> addr \<Rightarrow> (addr \<rightharpoonup> chunk_t) \<Rightarrow> bool" where
  "took_block m G nb r X p h' \<longleftrightarrow> (\<exists>x \<in> X. \<exists>n c. h' = (chunks m)(x \<mapsto> c) \<and> p = block_ptr c n \<and> n \<notin> dom (g_used G x) \<and> block_size n = nb
     \<and> chunk_inv c ((g_used G x)(n \<mapsto> r)) (g_gone G x) \<and> key c = key (the (chunks m x)) \<and> fd c = fd (the (chunks m x)) \<and> bk c = bk (the (chunks m x)))"

lemma took_block_mono: "took_block m G nb r X p h' \<Longrightarrow> X \<subseteq> Y \<Longrightarrow> took_block m G nb r Y p h'"
  unfolding took_block_def by blast

lemma take_block:
  assumes c: "chunk_part a m G" "x \<in> set (g_chunks G)" and j: "j \<le> 11" "j = 0 \<longrightarrow> r < REG_MARK_BAD_VALUE"
    and free: "avail (taken (dom (g_used G x) \<union> g_gone G x)) \<inter> lev (11 - j) \<noteq> {}"
  obtains p c' g' where "chunk_allocate_run (the (chunks m x)) (CHUNK_LEAST_REGION_SIZE_BYTES * 2 ^ j) r g = ret (p, c', g')" "p \<noteq> 0"
    "took_block m G (CHUNK_LEAST_REGION_SIZE_BYTES * 2 ^ j) r {x} p ((chunks m)(x \<mapsto> c'))" "fd c' = fd (the (chunks m x))"
proof -
  let ?c = "the (chunks m x)"
  note inv = chunk_of(3) [OF c]
  have bad: "j = 0 \<Longrightarrow> r < REG_MARK_BAD_VALUE" using j(2) by simp
  obtain n c' g' where n: "n \<in> avail (taken (dom (g_used G x) \<union> g_gone G x)) \<inter> lev (11 - j)"
    "chunk_allocate_run ?c (CHUNK_LEAST_REGION_SIZE_BYTES * 2 ^ j) r g = ret (block_ptr ?c n, c', g')"
    "chunk_inv c' ((g_used G x)(n \<mapsto> r)) (g_gone G x)" "key c' = key ?c" "fd c' = fd ?c" "bk c' = bk ?c"
    using chunk_allocate_run_ok(2) [OF inv j(1) bad free] by blast
  have lev: "n \<in> lev (11 - j)" using n(1) by blast
  have ptr: "block_ptr ?c n = block_ptr c' n" using n(4) by (simp add: block_ptr_def)
  have "0 < key ?c" using chunk_invD(1) [OF inv] .
  then have "block_ptr ?c n \<noteq> 0" using block_place(2) [OF lev j(1), of ?c] by simp
  moreover have "n \<notin> dom (g_used G x)" using avail_fresh n(1) by blast
  then have "took_block m G (CHUNK_LEAST_REGION_SIZE_BYTES * 2 ^ j) r {x} (block_ptr ?c n) ((chunks m)(x \<mapsto> c'))"
    unfolding took_block_def using n(3-6) block_place(1) [OF lev j(1)] ptr by blast
  ultimately show thesis using that n(2,5) by blast
qed

lemma chunk_alloc_loop_ok:
  assumes "chunk_part a m G" "j \<le> 11" "j = 0 \<longrightarrow> r < REG_MARK_BAD_VALUE"
  shows "dseg (chunks m) pr c xs l 0 \<Longrightarrow> set xs \<subseteq> set (g_chunks G) \<Longrightarrow>
     chunk_alloc_loop (CHUNK_LEAST_REGION_SIZE_BYTES * 2 ^ j) r c (chunks m) g = ret (0, chunks m, g)
     \<or> (\<exists>p h' g'. chunk_alloc_loop (CHUNK_LEAST_REGION_SIZE_BYTES * 2 ^ j) r c (chunks m) g = ret (p, h', g') \<and> p \<noteq> 0
          \<and> took_block m G (CHUNK_LEAST_REGION_SIZE_BYTES * 2 ^ j) r (set xs) p h')"
proof (induction xs arbitrary: pr c)
  case Nil
  then show ?case by (subst chunk_alloc_loop.simps) simp
next
  case (Cons x xs)
  then obtain e where e: "c = x" "x \<noteq> 0" "chunks m x = Some e" "dseg (chunks m) x (fd e) xs l 0" by (auto split: option.splits)
  have x: "x \<in> set (g_chunks G)" using Cons.prems(2) by simp
  have ex: "the (chunks m x) = e" using e(3) by simp
  show ?case
  proof (cases "avail (taken (dom (g_used G x) \<union> g_gone G x)) \<inter> lev (11 - j) = {}")
    case True
    have "chunk_allocate_run e (CHUNK_LEAST_REGION_SIZE_BYTES * 2 ^ j) r g = ret (0, e, g)"
      using chunk_allocate_run_ok(1) [OF chunk_of(3) [OF assms(1) x] assms(2) _ True, of r g] assms(3) ex by simp
    moreover have "(chunks m)(x \<mapsto> e) = chunks m" using e(3) by auto
    ultimately have loop: "chunk_alloc_loop (CHUNK_LEAST_REGION_SIZE_BYTES * 2 ^ j) r c (chunks m) g
        = chunk_alloc_loop (CHUNK_LEAST_REGION_SIZE_BYTES * 2 ^ j) r (fd e) (chunks m) g"
      using e(1-3) by (subst chunk_alloc_loop.simps) simp
    show ?thesis
      unfolding loop using Cons.IH [OF e(4)] Cons.prems(2) by (auto intro: took_block_mono)
  next
    case False
    obtain p c' g' where t: "chunk_allocate_run e (CHUNK_LEAST_REGION_SIZE_BYTES * 2 ^ j) r g = ret (p, c', g')" "p \<noteq> 0"
      "took_block m G (CHUNK_LEAST_REGION_SIZE_BYTES * 2 ^ j) r {x} p ((chunks m)(x \<mapsto> c'))"
      using take_block [OF assms(1) x assms(2,3) False, of g] unfolding ex by metis
    have "chunk_alloc_loop (CHUNK_LEAST_REGION_SIZE_BYTES * 2 ^ j) r c (chunks m) g = ret (p, (chunks m)(x \<mapsto> c'), g')"
      using e(1-3) t(1,2) by (subst chunk_alloc_loop.simps) simp
    moreover have "took_block m G (CHUNK_LEAST_REGION_SIZE_BYTES * 2 ^ j) r (set (x # xs)) p ((chunks m)(x \<mapsto> c'))"
      using took_block_mono [OF t(3)] by simp
    ultimately show ?thesis using t(2) by blast
  qed
qed

end
