(* ===== verification/Arena_Bin.thy ===== *)
theory Arena_Bin
  imports Arena_Run
begin

text \<open>
  The bins of the arena: how a change of one bin and its runs changes the arena, the bin
  of a size class, and the runs that \<open>src/src/arena.c\<close> supplies to it.
\<close>

subsection \<open>Changing one bin\<close>

definition bin_live :: "bin_t \<Rightarrow> run_store \<Rightarrow> addr set \<Rightarrow> (addr \<times> nat) set" where
  "bin_live b h R = (\<lambda>p. (p, reg_size b)) ` bin_regions b h R STATE_ALLOC"

definition other_live :: "arena_t \<Rightarrow> 'w mem \<Rightarrow> ghost \<Rightarrow> nat \<Rightarrow> (addr \<times> nat) set" where
  "other_live a m G i = (\<Union>j \<in> {..<ARENA_NO_BINS} - {i}. bin_live (bins a ! j) (runs m) (bin_runs G j))
     \<union> (\<lambda>x. (key (the (huges m x)), hlen (the (huges m x)))) ` set (g_huges G)"

lemma live_split: "i < ARENA_NO_BINS \<Longrightarrow> live a m G = other_live a m G i \<union> bin_live (bins a ! i) (runs m) (bin_runs G i)"
  unfolding live_def other_live_def bin_live_def by auto

lemma bin_rep_cong:
  assumes "bin_rep b h act inact" "\<And>z. z \<in> set act \<union> set inact \<Longrightarrow> h' z = h z"
  shows "bin_rep b h' act inact"
proof -
  note r = bin_repD [OF assms(1)]
  have "ll_list h' (run_list_active b) act" "ll_list h' (run_list_inactive b) inact"
    using assms(2) by (auto intro: ll_list_frame [OF r(2)] ll_list_frame [OF r(3)])
  moreover have "(\<Sum>x \<in> set act. navail (run_at h' x)) = (\<Sum>x \<in> set act. navail (run_at h x))"
    using assms(2) by (intro sum.cong) simp_all
  moreover have "runs_ok b h' (set act) (set inact)" using r(8) assms(2) by (simp add: runs_ok_def)
  ultimately show ?thesis using r by (simp add: bin_rep_def)
qed

lemma bin_live_cong:
  assumes "\<And>z. z \<in> R \<Longrightarrow> h' z = h z"
  shows "bin_live b h' R = bin_live b h R"
  using assms by (simp add: bin_live_def bin_regions_def)

definition with_bin :: "nat \<Rightarrow> addr list \<Rightarrow> addr list \<Rightarrow> (addr \<Rightarrow> addr \<times> nat) \<Rightarrow> ghost \<Rightarrow> ghost" where
  "with_bin i act inact home G = G\<lparr>g_act := (g_act G)(i := act), g_inact := (g_inact G)(i := inact), g_home := home\<rparr>"

lemma with_bin_simps [simp]:
  "g_pools (with_bin i act inact home G) = g_pools G" "g_trees (with_bin i act inact home G) = g_trees G"
  "g_chunks (with_bin i act inact home G) = g_chunks G" "g_used (with_bin i act inact home G) = g_used G"
  "g_gone (with_bin i act inact home G) = g_gone G" "g_huges (with_bin i act inact home G) = g_huges G"
  "g_home (with_bin i act inact home G) = home" "blocks (with_bin i act inact home G) = blocks G"
  "bin_runs (with_bin i act inact home G) j = (if j = i then set act \<union> set inact else bin_runs G j)"
  "g_act (with_bin i act inact home G) j = (if j = i then act else g_act G j)"
  "g_inact (with_bin i act inact home G) j = (if j = i then inact else g_inact G j)"
  by (simp_all add: with_bin_def blocks_def bin_runs_def)

definition home_ok :: "bin_t \<Rightarrow> run_store \<Rightarrow> 'w mem \<Rightarrow> ghost \<Rightarrow> addr \<times> nat \<Rightarrow> addr \<Rightarrow> bool" where
  "home_ok b h m G cn x \<longleftrightarrow> (case cn of (c, n) \<Rightarrow> key (the (h x)) = block_ptr (the (chunks m c)) n
     \<and> block_size n = run_size_pages b * 4096 \<and> g_used G c n = Some (reg_size b))"

lemma at_home_ok: "at_home a m G i x = home_ok (bins a ! i) (runs m) m G (g_home G x) x"
  by (simp add: at_home_def home_ok_def)

lemma inv_update_bin:
  assumes inv: "arena_inv mapped X a m G" and i: "i < ARENA_NO_BINS"
    and rep: "bin_rep b' h' act inact" "bin_index (reg_size b') = i"
    and other: "\<And>z. z \<notin> bin_runs G i \<union> (set act \<union> set inact) \<Longrightarrow> h' z = runs m z"
    and new: "\<And>z. z \<in> set act \<union> set inact \<Longrightarrow> z \<in> bin_runs G i \<or> z \<notin> objects G"
      "\<And>z. z \<in> set act \<union> set inact \<Longrightarrow> has_meta G (run_bytes b') z"
    and bij: "bij_betw home ((all_runs G - bin_runs G i) \<union> (set act \<union> set inact)) (blocks G - X')"
    and homes: "\<And>z. z \<in> all_runs G - bin_runs G i \<Longrightarrow> home z = g_home G z"
      "\<And>z. z \<in> set act \<union> set inact \<Longrightarrow> home_ok b' h' m G (home z) z"
  shows "arena_inv mapped X' (a\<lparr>bins := (bins a)[i := b']\<rparr>) (m\<lparr>runs := h'\<rparr>) (with_bin i act inact home G)" (is "arena_inv _ _ ?a ?m ?G")
    "live (a\<lparr>bins := (bins a)[i := b']\<rparr>) (m\<lparr>runs := h'\<rparr>) (with_bin i act inact home G)
       = other_live a m G i \<union> bin_live b' h' (set act \<union> set inact)"
proof -
  note I = arena_invD [OF inv]
  have len: "length (bins a) = ARENA_NO_BINS" using I(4) by (simp add: bin_part_def)
  have bj: "bins ?a ! j = (if j = i then b' else bins a ! j)" for j using i len by simp
  have apart: "bin_runs G j \<inter> bin_runs G i = {}" if "j < ARENA_NO_BINS" "j \<noteq> i" for j using I(4) that i by (simp add: bin_part_def)
  have new_apart: "bin_runs G j \<inter> (set act \<union> set inact) = {}" if j: "j < ARENA_NO_BINS" "j \<noteq> i" for j
  proof -
    have "bin_runs G j \<subseteq> objects G" using j(1) by (auto simp: objects_def all_runs_def)
    then show ?thesis using new(1) apart [OF j] by blast
  qed
  have same: "h' z = runs m z" if "j < ARENA_NO_BINS" "j \<noteq> i" "z \<in> bin_runs G j" for j z
    using other [of z] that apart [OF that(1,2)] new_apart [OF that(1,2)] by blast
  have all: "all_runs ?G = (all_runs G - bin_runs G i) \<union> (set act \<union> set inact)"
    using i apart by (auto simp: all_runs_def split: if_splits)
  show "arena_inv mapped X' ?a ?m ?G" unfolding arena_inv_def
  proof (intro conjI)
    show "pool_part ?a ?m ?G" using I(1) by (simp add: pool_part_def)
    show "chunk_part ?a ?m ?G" using I(2) by (simp add: chunk_part_def)
    show "huge_part ?a ?m ?G" using I(3) by (simp add: huge_part_def)
    have "bin_slot (bins ?a ! j) h' (g_act ?G j) (g_inact ?G j) j" if j: "j < ARENA_NO_BINS" for j
    proof (cases "j = i")
      case True
      then show ?thesis using rep bj by (simp add: bin_slot_def)
    next
      case False
      have "bin_slot (bins a ! j) (runs m) (g_act G j) (g_inact G j) j" using I(4) j by (simp add: bin_part_def)
      moreover have "bin_rep (bins a ! j) h' (g_act G j) (g_inact G j)" if "bin_rep (bins a ! j) (runs m) (g_act G j) (g_inact G j)"
        using that by (rule bin_rep_cong) (use same [OF j False] in \<open>simp add: bin_runs_def\<close>)
      ultimately show ?thesis using False by (auto simp: bin_slot_def bj)
    qed
    moreover have "bin_runs ?G j \<inter> bin_runs ?G k = {}" if "j < ARENA_NO_BINS" "k < ARENA_NO_BINS" "j \<noteq> k" for j k
      using that I(4) new_apart [of j] new_apart [of k] by (auto simp: bin_part_def)
    ultimately show "bin_part ?a ?m ?G" using len unfolding bin_part_def by simp
    have "at_home ?a ?m ?G j z" if z: "j < ARENA_NO_BINS" "z \<in> bin_runs ?G j" for j z
    proof (cases "j = i")
      case True
      then show ?thesis using homes(2) [of z] z(2) unfolding at_home_ok by (simp add: home_ok_def bj i len)
    next
      case False
      then have zj: "z \<in> bin_runs G j" using z(2) by simp
      then have "z \<in> all_runs G - bin_runs G i" using z(1) apart [OF z(1) False] by (auto simp: all_runs_def)
      moreover have "at_home a m G j z" using I(5) z(1) zj by (simp add: link_part_def)
      ultimately show ?thesis using homes(1) [of z] same [OF z(1) False zj] False by (simp add: at_home_def)
    qed
    then show "link_part X' ?a ?m ?G" using bij by (simp add: link_part_def all)
    show "object_part ?a ?G" unfolding object_part_def
    proof (intro conjI ballI allI impI)
      note O = I(6) [unfolded object_part_def]
      have eq: "has_meta ?G k z = has_meta G k z" for k z by (simp add: has_meta_def)
      have sub: "all_runs ?G \<subseteq> all_runs G \<union> - objects G" using new(1) i unfolding all by (auto simp: all_runs_def)
      show "set (g_chunks ?G) \<inter> all_runs ?G = {}" "set (g_huges ?G) \<inter> all_runs ?G = {}" "set (g_chunks ?G) \<inter> set (g_huges ?G) = {}"
        using sub O unfolding objects_def with_bin_simps by blast+
      show "has_meta ?G CHUNK_T_SIZE z" if "z \<in> set (g_chunks ?G)" for z using that O unfolding eq with_bin_simps by blast
      show "has_meta ?G HUGE_CHUNK_T_SIZE z" if "z \<in> set (g_huges ?G)" for z using that O unfolding eq with_bin_simps by blast
      show "has_meta ?G (run_bytes (bins ?a ! j)) z" if jz: "j < ARENA_NO_BINS" "z \<in> bin_runs ?G j" for j z
      proof (cases "j = i")
        case True
        then show ?thesis using jz(2) new(2) [of z] unfolding eq bj by simp
      next
        case False
        then show ?thesis using jz O unfolding eq bj by simp
      qed
    qed
    have "chunk_space ?m ?G = chunk_space m G" "huge_space ?m = huge_space m" by (simp_all add: fun_eq_iff chunk_space_def huge_space_def)
    then show "space_part (mapped (world ?m)) ?m ?G" using I(7) by (simp add: space_part_def)
  qed
  have "bin_live (bins ?a ! j) h' (bin_runs ?G j) = bin_live (bins a ! j) (runs m) (bin_runs G j)" if "j < ARENA_NO_BINS" "j \<noteq> i" for j
    unfolding bj with_bin_simps using that(2) bin_live_cong [of "bin_runs G j" h' "runs m" "bins a ! j", OF same [OF that]] by simp
  then have "other_live ?a ?m ?G i = other_live a m G i" by (simp add: other_live_def)
  then show "live ?a ?m ?G = other_live a m G i \<union> bin_live b' h' (set act \<union> set inact)"
    using live_split [OF i, of ?a ?m ?G] i len by simp
qed

subsection \<open>A new run\<close>

lemma inv_other_run:
  assumes inv: "arena_inv mapped X a m G" and y: "y \<notin> all_runs G"
  shows "arena_inv mapped X a (m\<lparr>runs := (runs m)(y \<mapsto> r), prng := g\<rparr>) G" (is "arena_inv _ _ _ ?m _")
    "live a (m\<lparr>runs := (runs m)(y \<mapsto> r), prng := g\<rparr>) G = live a m G"
proof -
  note I = arena_invD [OF inv]
  have same: "runs ?m z = runs m z" if "j < ARENA_NO_BINS" "z \<in> bin_runs G j" for j z using that y by (auto simp: all_runs_def)
  have sp: "chunk_space ?m G = chunk_space m G" "huge_space ?m = huge_space m" by (simp_all add: fun_eq_iff chunk_space_def huge_space_def)
  have "bin_slot (bins a ! j) (runs ?m) (g_act G j) (g_inact G j) j" if j: "j < ARENA_NO_BINS" for j
  proof -
    have "bin_slot (bins a ! j) (runs m) (g_act G j) (g_inact G j) j" using I(4) j by (simp add: bin_part_def)
    moreover have "bin_rep (bins a ! j) (runs ?m) (g_act G j) (g_inact G j)" if "bin_rep (bins a ! j) (runs m) (g_act G j) (g_inact G j)"
      using that by (rule bin_rep_cong) (use same [OF j] in \<open>simp add: bin_runs_def\<close>)
    ultimately show ?thesis unfolding bin_slot_def by blast
  qed
  then have "bin_part a ?m G" using I(4) by (simp add: bin_part_def)
  moreover have "at_home a ?m G j z" if z: "j < ARENA_NO_BINS" "z \<in> bin_runs G j" for j z
    using I(5) z same [OF z] by (simp add: link_part_def at_home_def)
  then have "link_part X a ?m G" using I(5) by (simp add: link_part_def)
  ultimately show "arena_inv mapped X a ?m G"
    using I by (simp add: arena_inv_def pool_part_def chunk_part_def huge_part_def space_part_def sp)
  have "bin_live (bins a ! j) (runs ?m) (bin_runs G j) = bin_live (bins a ! j) (runs m) (bin_runs G j)" if "j < ARENA_NO_BINS" for j
    by (rule bin_live_cong) (rule same [OF that])
  then show "live a ?m G = live a m G" by (simp add: live_def bin_live_def)
qed

lemma run_bytes_le: "bin_wf b \<Longrightarrow> 1 \<le> run_bytes b \<and> run_bytes b \<le> 4194304"
  using bin_wf_regions(3) [of b] by (simp add: run_bytes_def bitmap_bytes RUN_T_SIZE_def)

text \<open>The block of the run: from a chunk with room, or from a new chunk.\<close>

lemma arena_run_block:
  assumes os: "os_contract os mapped" "CHUNK_SIZE_BYTES \<le> L" and serve: "P \<longrightarrow> provision os mapped L (Suc (Suc n)) a m"
    and go: "goes P (arena_allocate_run os a m b)" and brk: "brk_below B a" and inv: "arena_inv mapped {} a m G" and wf: "bin_wf b"
  obtains p a' m' G' x k where "arena_allocate_run os a m b = new_run os a' m' b p" "arena_inv mapped {(x, k)} a' m' G'" "brk_below B a'"
    "P \<longrightarrow> provision os mapped L n a' m'" "(x, k) \<in> blocks G'" "p = block_ptr (the (chunks m' x)) k" "block_size k = run_size_pages b * 4096"
    "g_used G' x k = Some (reg_size b)" "live a' m' G' = live a m G" "g_act G' = g_act G" "g_inact G' = g_inact G" "bins a' = bins a"
    "runs m' = runs m" "bytes m' = bytes m" "extends m G m' G'"
proof -
  note I = arena_invD [OF inv]
  note result = that
  obtain j where j: "j \<le> 10" "u32 (run_size_pages b * PAGE_SIZE) = CHUNK_LEAST_REGION_SIZE_BYTES * 2 ^ j" "j = 0 \<longrightarrow> reg_size b < REG_MARK_BAD_VALUE"
    "run_size_pages b * 4096 = CHUNK_LEAST_REGION_SIZE_BYTES * 2 ^ j"
    using wf by (rule run_bytes_level)
  let ?nb = "CHUNK_LEAST_REGION_SIZE_BYTES * 2 ^ j"
  have j11: "j \<le> 11" using j(1) by simp
  have finish: thesis
    if inv1: "arena_inv mapped {} a1 m1 G1" and x: "x \<in> set (g_chunks G1)" and t: "took_block m1 G1 ?nb (reg_size b) {x} p h'"
      and run: "arena_allocate_run os a m b = new_run os a1 (m1\<lparr>chunks := h', prng := g'\<rparr>) b p"
      and rest: "brk_below B a1" "P \<longrightarrow> provision os mapped L n a1 m1" "live a1 m1 G1 = live a m G" "g_act G1 = g_act G" "g_inact G1 = g_inact G"
        "bins a1 = bins a" "runs m1 = runs m" "bytes m1 = bytes m" "extends m G m1 G1"
    for a1 m1 G1 x p h' g'
  proof -
    obtain k c where k: "h' = (chunks m1)(x \<mapsto> c)" "p = block_ptr c k" "k \<notin> dom (g_used G1 x)" "block_size k = ?nb"
      "chunk_inv c ((g_used G1 x)(k \<mapsto> reg_size b)) (g_gone G1 x)" "key c = key (the (chunks m1 x))" "fd c = fd (the (chunks m1 x))" "bk c = bk (the (chunks m1 x))"
      using t unfolding took_block_def by blast
    note take = inv_take_block [OF inv1 x k(3,5-8), of g']
    show thesis
    proof (rule result [OF run [unfolded k(1)] take(1)])
      show "(x, k) \<in> blocks (with_block x k (reg_size b) G1)" using x by (simp add: blocks_def)
      have "extends m1 G1 (m1\<lparr>chunks := (chunks m1)(x \<mapsto> c), prng := g'\<rparr>) (with_block x k (reg_size b) G1)" using k(6) by (simp add: extends_def)
      with rest(9) show "extends m G (m1\<lparr>chunks := (chunks m1)(x \<mapsto> c), prng := g'\<rparr>) (with_block x k (reg_size b) G1)" by (rule extends_trans)
    qed (use take(2) rest k(2,4) j(4) in simp_all)
  qed
  obtain l where seg: "dseg (chunks m) 0 (chunk_list a) (g_chunks G) l 0" using I(2) unfolding chunk_part_def ll_list_alt by blast
  from chunk_alloc_loop_ok [OF I(2) j11 j(3) seg order_refl, of "prng m"]
  consider (full) "chunk_alloc_loop ?nb (reg_size b) (chunk_list a) (chunks m) (prng m) = ret (0, chunks m, prng m)"
    | (room) p h' g' where "chunk_alloc_loop ?nb (reg_size b) (chunk_list a) (chunks m) (prng m) = ret (p, h', g')" "p \<noteq> 0"
        "took_block m G ?nb (reg_size b) (set (g_chunks G)) p h'"
    by blast
  then show thesis
  proof cases
    case room
    obtain x where x: "x \<in> set (g_chunks G)" "took_block m G ?nb (reg_size b) {x} p h'"
      using room(3) unfolding took_block_def by blast
    have "arena_allocate_run os a m b = new_run os a (m\<lparr>chunks := h', prng := g'\<rparr>) b p"
      using room(1,2) by (simp add: arena_allocate_run_def j(2))
    moreover have "P \<longrightarrow> provision os mapped L n a m" using serve by (auto intro: supplied_Suc)
    ultimately show thesis using finish [OF inv x] brk by simp
  next
    case full
    have go1: "goes P (arena_allocate_chunk os a m)"
      using go by (rule goes_step) (use full in \<open>simp_all add: arena_allocate_run_def j(2)\<close>)
    obtain x a1 m1 G1 where c: "arena_allocate_chunk os a m = ret (x, a1, m1)" "arena_inv mapped {} a1 m1 G1" "brk_below B a1"
      "P \<longrightarrow> provision os mapped L n a1 m1" "x \<in> set (g_chunks G1)" "g_used G1 x = Map.empty" "g_gone G1 x = {}" "live a1 m1 G1 = live a m G"
      "g_act G1 = g_act G" "g_inact G1 = g_inact G" "bins a1 = bins a" "runs m1 = runs m" "bytes m1 = bytes m" "extends m G m1 G1"
      using os serve go1 brk inv by (rule arena_allocate_chunk_ok)
    have "avail (taken (dom (g_used G1 x) \<union> g_gone G1 x)) \<inter> lev (11 - j) \<noteq> {}"
      using level_nonempty [of "11 - j"] j(1) by (simp add: c(6,7) taken_def)
    then obtain p c' g' where t: "chunk_allocate_run (the (chunks m1 x)) ?nb (reg_size b) (prng m1) = ret (p, c', g')" "p \<noteq> 0"
      "took_block m1 G1 ?nb (reg_size b) {x} p ((chunks m1)(x \<mapsto> c'))"
      using take_block [OF arena_invD(2) [OF c(2)] c(5) j11 j(3)] by metis
    note x = chunk_of(1,2) [OF arena_invD(2) [OF c(2)] c(5)]
    have "arena_allocate_run os a m b = new_run os a1 (m1\<lparr>chunks := (chunks m1)(x \<mapsto> c'), prng := g'\<rparr>) b p"
      using full c(1) t(1) x by (simp add: arena_allocate_run_def j(2))
    then show thesis using finish [OF c(2,5) t(3)] c by simp
  qed
qed

lemma arena_allocate_run_ok:
  assumes os: "os_contract os mapped" "CHUNK_SIZE_BYTES \<le> L" and serve: "P \<longrightarrow> provision os mapped L (Suc (Suc (Suc n))) a m"
    and go: "goes P (arena_allocate_run os a m b)" and brk: "brk_below B a" and inv: "arena_inv mapped {} a m G" and wf: "bin_wf b"
  obtains y r a' m' G' x k where "arena_allocate_run os a m b = ret (y, a', m')" "arena_inv mapped {(x, k)} a' m' G'" "brk_below B a'"
    "P \<longrightarrow> provision os mapped L n a' m'" "(x, k) \<in> blocks G'" "block_size k = run_size_pages b * 4096" "g_used G' x k = Some (reg_size b)"
    "live a' m' G' = live a m G" "g_act G' = g_act G" "g_inact G' = g_inact G" "bins a' = bins a" "bytes m' = bytes m"
    "y \<noteq> 0" "y \<notin> objects G'" "has_meta G' (run_bytes b) y" "runs m' = (runs m)(y \<mapsto> r)" "run_inv b r" "navail r = regions b"
    "key r = block_ptr (the (chunks m' x)) k" "\<And>p. run_abs b r p \<noteq> Some STATE_ALLOC" "extends m G m' G'"
proof -
  obtain p a1 m1 G1 x k where B: "arena_allocate_run os a m b = new_run os a1 m1 b p" "arena_inv mapped {(x, k)} a1 m1 G1" "brk_below B a1"
    "P \<longrightarrow> provision os mapped L (Suc n) a1 m1" "(x, k) \<in> blocks G1" "p = block_ptr (the (chunks m1 x)) k" "block_size k = run_size_pages b * 4096"
    "g_used G1 x k = Some (reg_size b)" "live a1 m1 G1 = live a m G" "g_act G1 = g_act G" "g_inact G1 = g_inact G" "bins a1 = bins a"
    "runs m1 = runs m" "bytes m1 = bytes m" "extends m G m1 G1"
    using os serve go brk inv wf by (rule arena_run_block)
  have go1: "goes P (arena_internal_alloc os a1 m1 (run_bytes b))"
    using go by (rule goes_step) (simp_all add: B(1) new_run_def flip: run_bytes_def)
  obtain y s a2 m2 ps ts where r: "arena_internal_alloc os a1 m1 (run_bytes b) = ret (y, a2, m2)" "y \<noteq> 0" "only_meta a1 m1 a2 m2" "brk_below B a2"
    "P \<longrightarrow> provision os mapped L n a2 m2" "arena_inv mapped {(x, k)} a2 m2 (G1\<lparr>g_pools := ps, g_trees := ts\<rparr>)"
    "(y, s) \<in> meta_live ps ts" "run_bytes b \<le> s" "y \<notin> objects G1" "live a2 m2 (G1\<lparr>g_pools := ps, g_trees := ts\<rparr>) = live a1 m1 G1"
    using os B(4) go1 B(3,2) run_bytes_le [OF wf, THEN conjunct1] run_bytes_le [OF wf, THEN conjunct2] by (rule inv_internal_alloc)
  let ?G = "G1\<lparr>g_pools := ps, g_trees := ts\<rparr>"
  note same = only_metaD [OF r(3)]
  have x: "x \<in> set (g_chunks G1)" "k \<in> dom (g_used G1 x)" using B(5) by (auto simp: blocks_def)
  note cx = chunk_of [OF arena_invD(2) [OF B(2)] x(1)]
  obtain j where lev: "k \<in> lev (11 - j)" "j \<le> 11" using block_level [OF cx(3), of k] x(2) by blast
  have "p + run_size_pages b * 4096 \<le> 2 ^ 47"
    using block_place(3) [OF lev, of "the (chunks m1 x)"] cx(4) B(6,7) by simp
  then have "p + run_size_pages b * 4096 < 2 ^ 63" by simp
  from run_init_ok [OF wf this, of run_raw "prng m2"]
  obtain r' g' where ri: "run_init run_raw b p (prng m2) = ret (r', g')" "run_inv b r'" "key r' = p" "navail r' = regions b"
    "\<forall>i < regions b. region_state r' i = STATE_FREE" by blast
  have abs: "run_abs b r' q \<noteq> Some STATE_ALLOC" for q
  proof
    assume "run_abs b r' q = Some STATE_ALLOC"
    then obtain i where "i < regions b" "region_state r' i = STATE_ALLOC" using wf by (rule run_absE)
    then show False using ri(5) by simp
  qed
  let ?m = "m2\<lparr>runs := (runs m2)(y \<mapsto> r'), prng := g'\<rparr>"
  have y: "y \<notin> all_runs ?G" using r(9) by (simp add: objects_def)
  note other = inv_other_run [OF r(6) y, where r = r' and g = g']
  have run: "arena_allocate_run os a m b = ret (y, a2, ?m)"
    using r(1,2) ri(1) by (simp add: B(1) new_run_def flip: run_bytes_def)
  show thesis
  proof (rule that [OF run other(1)])
    show "has_meta ?G (run_bytes b) y" using r(7,8) by (auto simp: has_meta_def)
    show "live a2 ?m ?G = live a m G" using other(2) r(10) B(9) by simp
    have "extends m1 G1 ?m ?G" using same by (intro extends_frame) simp_all
    with B(15) show "extends m G ?m ?G" by (rule extends_trans)
  qed (use r B same ri abs in simp_all)
qed

subsection \<open>Supplying runs\<close>

lemma bin_live_none: "(\<And>p. run_abs b (the (h y)) p \<noteq> Some STATE_ALLOC) \<Longrightarrow> bin_live b h (insert y R) = bin_live b h R"
  by (auto simp: bin_live_def bin_regions_def)

lemma bin_live_links:
  assumes "same_geometry b b'" "\<And>z. z \<in> R \<Longrightarrow> unlink (the (h' z)) = unlink (the (h z))"
  shows "bin_live b' h' R = bin_live b h R"
proof -
  have "run_abs b' (the (h' z)) = run_abs b (the (h z))" if "z \<in> R" for z
    using geometry_cong(3) [OF assms(1)] unlink_observed(2) [OF assms(2) [OF that], of b] by simp
  moreover have "reg_size b' = reg_size b" using assms(1) by (simp add: same_geometry_def)
  ultimately show ?thesis by (simp add: bin_live_def bin_regions_def)
qed

lemma run_bytes_geometry: "same_geometry b b' \<Longrightarrow> run_bytes b' = run_bytes b"
  by (simp add: run_bytes_def same_geometry_def)

lemma home_ok_links:
  assumes "same_geometry b b'" "unlink (the (h' z)) = unlink (the (h z))"
  shows "home_ok b' h' m G cn z = home_ok b h m G cn z"
  using assms(1) unlink_observed(6) [OF assms(2)] by (simp add: home_ok_def same_geometry_def split: prod.split)

lemma add_run_to_bin_ok:
  assumes os: "os_contract os mapped" "CHUNK_SIZE_BYTES \<le> L" and serve: "P \<longrightarrow> provision os mapped L (Suc (Suc (Suc n))) a m"
    and go: "goes P (add_run_to_bin os a m i)" and brk: "brk_below B a" and inv: "arena_inv mapped {} a m G" and i: "i < ARENA_NO_BINS"
    and rep: "bin_rep (bins a ! i) (runs m) (g_act G i) (g_inact G i)" "bin_index (reg_size (bins a ! i)) = i"
    and lim: "avail_regs (bins a ! i) + 1024 < 2 ^ 32"
  obtains a' m' G' where "add_run_to_bin os a m i = ret (True, a', m')" "arena_inv mapped {} a' m' G'" "brk_below B a'"
    "P \<longrightarrow> provision os mapped L n a' m'" "live a' m' G' = live a m G" "bin_rep (bins a' ! i) (runs m') (g_act G' i) (g_inact G' i)"
    "same_geometry (bins a ! i) (bins a' ! i)" "avail_regs (bins a' ! i) = avail_regs (bins a ! i) + regions (bins a ! i)" "bytes m' = bytes m"
    "\<And>j. j \<noteq> i \<Longrightarrow> bins a' ! j = bins a ! j" "extends m G m' G'"
proof -
  let ?b = "bins a ! i"
  note wf = bin_repD(1) [OF rep(1)]
  have "i < length (bins a)" using arena_invD(4) [OF inv] i by (simp add: bin_part_def)
  then have go1: "goes P (arena_allocate_run os a m ?b)"
    using go by (intro goes_step [OF go]) (simp_all add: add_run_to_bin_def arr_get_def)
  obtain y a1 m1 x k G1 r where R: "arena_allocate_run os a m ?b = ret (y, a1, m1)" "arena_inv mapped {(x, k)} a1 m1 G1" "brk_below B a1"
    "P \<longrightarrow> provision os mapped L n a1 m1" "(x, k) \<in> blocks G1" "block_size k = run_size_pages ?b * 4096" "g_used G1 x k = Some (reg_size ?b)"
    "live a1 m1 G1 = live a m G" "g_act G1 = g_act G" "g_inact G1 = g_inact G" "bins a1 = bins a" "bytes m1 = bytes m"
    "y \<noteq> 0" "y \<notin> objects G1" "has_meta G1 (run_bytes ?b) y" "runs m1 = (runs m)(y \<mapsto> r)" "run_inv ?b r" "navail r = regions ?b"
    "key r = block_ptr (the (chunks m1 x)) k" "\<And>p. run_abs ?b r p \<noteq> Some STATE_ALLOC" "extends m G m1 G1"
    by (rule arena_allocate_run_ok [OF os serve go1 brk inv wf]) (rule that)
  let ?act = "g_act G1 i" and ?in = "g_inact G1 i"
  note I = arena_invD [OF R(2)]
  have len: "length (bins a) = ARENA_NO_BINS" using arena_invD(4) [OF inv] by (simp add: bin_part_def)
  have br: "bin_runs G1 i = set ?act \<union> set ?in" by (simp add: bin_runs_def)
  have yall: "y \<notin> all_runs G1" using R(14) by (simp add: objects_def)
  have ybin: "y \<notin> bin_runs G1 i" using yall i by (auto simp: all_runs_def)
  have rep1: "bin_rep ?b (runs m1) ?act ?in"
    unfolding R(9,10) by (rule bin_rep_cong [OF rep(1)]) (use ybin R(9,10,16) in \<open>auto simp: bin_runs_def\<close>)
  have y1: "runs m1 y = Some r" using R(16) by simp
  have apart: "run_addr_range ?b (the (runs m1 z)) \<inter> run_addr_range ?b r = {}" if z: "z \<in> set ?act \<union> set ?in" for z
  proof -
    have "z \<in> bin_runs G1 i" using z br by simp
    then obtain d l where dl: "(d, l) \<in> blocks G1" "(d, l) \<notin> {(x, k)}" "key (the (runs m1 z)) = block_ptr (the (chunks m1 d)) l"
      "block_size l = run_size_pages (bins a1 ! i) * 4096" using run_home [OF I(5) i] by metis
    have "block_range (the (chunks m1 d)) l \<inter> block_range (the (chunks m1 x)) k = {}"
      using dl(2) by (intro blocks_apart [OF R(2) dl(1) R(5)]) simp
    then show ?thesis
      using run_range_home [OF dl(3,4)] run_range_home [OF R(19,6)] by (simp add: R(11))
  qed
  have "navail r = regions ?b" "regions ?b \<le> 1024" "0 < regions ?b" using R(18) bin_wf_regions(2,3) [OF wf] by simp_all
  then have nav: "\<not> run_is_depleted r" "avail_regs ?b + navail r < 2 ^ 32" using lim by (simp_all add: run_is_depleted_def)
  obtain b' h' where A: "bin_add_run ?b (runs m1) y = ret (b', h')" "bin_rep b' h' (y # ?act) ?in" "same_geometry ?b b'"
    "avail_regs b' = avail_regs ?b + navail r" "links_only (set (y # ?act)) (runs m1) h'"
    using bin_add_run_ok [OF rep1 y1 R(13) ybin [unfolded br] R(17) nav(1) apart nav(2)] by blast
  let ?home = "(g_home G1)(y := (x, k))" and ?a = "a1\<lparr>bins := (bins a1)[i := b']\<rparr>" and ?m = "m1\<lparr>runs := h'\<rparr>"
  let ?G = "with_bin i (y # ?act) ?in ?home G1"
  have at: "unlink (the (h' z)) = unlink (the (runs m1 z))" if "z \<in> insert y (bin_runs G1 i)" for z
  proof -
    have "runs m1 z = Some (the (runs m1 z))" using that y1 run_of_bin(2) [OF I(4) i] by auto
    then show ?thesis by (rule links_only_at [OF A(5)])
  qed
  have eqset: "(all_runs G1 - bin_runs G1 i) \<union> (set (y # ?act) \<union> set ?in) = all_runs G1 \<union> {y}"
    using i br by (auto simp: all_runs_def)
  have "bij_betw ?home (all_runs G1 \<union> {y}) ((blocks G1 - {(x, k)}) \<union> {(x, k)})"
  proof -
    have "bij_betw (g_home G1) (all_runs G1) (blocks G1 - {(x, k)})" using I(5) by (simp add: link_part_def)
    then have "bij_betw ?home (all_runs G1) (blocks G1 - {(x, k)})" using yall by (subst bij_betw_cong [of _ _ "g_home G1"]) auto
    from notIn_Un_bij_betw [OF yall _ this] show ?thesis by simp
  qed
  moreover have "(blocks G1 - {(x, k)}) \<union> {(x, k)} = blocks G1 - {}" using R(5) by auto
  ultimately have bij: "bij_betw ?home ((all_runs G1 - bin_runs G1 i) \<union> (set (y # ?act) \<union> set ?in)) (blocks G1 - {})"
    unfolding eqset by simp
  have idx: "bin_index (reg_size b') = i" using rep(2) A(3) by (simp add: same_geometry_def)
  have other: "h' z = runs m1 z" if "z \<notin> bin_runs G1 i \<union> (set (y # ?act) \<union> set ?in)" for z
    using A(5) that by (simp add: links_only_def)
  have meta: "has_meta G1 (run_bytes b') z" if "z \<in> set (y # ?act) \<union> set ?in" for z
  proof (cases "z = y")
    case True
    then show ?thesis using R(15) run_bytes_geometry [OF A(3)] by simp
  next
    case False
    then have "z \<in> bin_runs G1 i" using that br by auto
    then show ?thesis using I(6) i run_bytes_geometry [OF A(3)] by (simp add: object_part_def R(11))
  qed
  have homes: "home_ok b' h' m1 G1 (?home z) z" if z: "z \<in> set (y # ?act) \<union> set ?in" for z
  proof -
    have "unlink (the (h' z)) = unlink (the (runs m1 z))" using z br by (intro at) auto
    moreover have "home_ok ?b (runs m1) m1 G1 (?home z) z"
    proof (cases "z = y")
      case True
      then show ?thesis using R(6,7,19) y1 by (simp add: home_ok_def)
    next
      case False
      then have "z \<in> bin_runs G1 i" using z br by auto
      then have "at_home a1 m1 G1 i z" using I(5) i by (simp add: link_part_def)
      then show ?thesis using False unfolding at_home_ok by (simp add: R(11))
    qed
    ultimately show ?thesis using home_ok_links [OF A(3)] by blast
  qed
  have newz: "z \<in> bin_runs G1 i \<or> z \<notin> objects G1" if "z \<in> set (y # ?act) \<union> set ?in" for z
    using that R(14) br by auto
  have keep: "?home z = g_home G1 z" if "z \<in> all_runs G1 - bin_runs G1 i" for z using that yall by auto
  note upd = inv_update_bin [OF R(2) i A(2) idx other newz meta bij keep homes]
  have "bin_live b' h' (set (y # ?act) \<union> set ?in) = bin_live ?b (runs m1) (insert y (bin_runs G1 i))"
    using at by (subst bin_live_links [OF A(3), of _ _ "runs m1"]) (auto simp: br)
  also have "\<dots> = bin_live ?b (runs m1) (bin_runs G1 i)" using R(20) y1 by (intro bin_live_none) simp
  finally have live: "live ?a ?m ?G = live a m G"
    using upd(2) live_split [OF i, of a1 m1 G1] R(8) by (simp add: R(11) fun_upd_def)
  have run: "add_run_to_bin os a m i = ret (True, ?a, ?m)"
    using R(1,13) A(1) i len by (simp add: add_run_to_bin_def arr_get_def R(11))
  show thesis
  proof (rule that [OF run upd(1) _ _ live])
    show "bin_rep (bins ?a ! i) (runs ?m) (g_act ?G i) (g_inact ?G i)" using A(2) i len by (simp add: R(11))
    show "same_geometry ?b (bins ?a ! i)" using A(3) i len by (simp add: R(11))
    have "extends m1 G1 ?m ?G" using yall br by (auto simp: extends_def)
    with R(21) show "extends m G ?m ?G" by (rule extends_trans)
    show "avail_regs (bins ?a ! i) = avail_regs ?b + regions ?b" using A(4) R(18) i len by (simp add: R(11))
  qed (use R(3,4,12) R(11) in simp_all)
qed

end
