(* ===== verification/Sealloc.thy ===== *)
theory Sealloc
  imports Arena
begin

text \<open>
  \<open>src/src/sealloc.c\<close>: allocation, deallocation and reallocation on an arena, and
  \<open>src/src/malloc_api.c\<close>: the exported functions on the program's one arena. The build without
  memory tagging, debug log and statistics file is modelled.
\<close>

subsection \<open>Allocation\<close>

definition sealloc_allocate_with_bin :: "'w os \<Rightarrow> arena_t \<Rightarrow> 'w mem \<Rightarrow> nat \<Rightarrow> (addr \<times> arena_t \<times> 'w mem) res" where
  "sealloc_allocate_with_bin os arena m i =
     bindR (arr_get (bins arena) i) (\<lambda>bin.
     bindR (if avail_regs bin < BIN_MINIMUM_REGIONS then add_run_to_bin os arena m i else ret (True, arena, m)) (\<lambda>(ok, arena, m).
     if \<not> ok then ret (0, arena, m)
     else
       bindR (arr_get (bins arena) i) (\<lambda>bin.
       bindR (allocate_from_runs bin (runs m) (prng m)) (\<lambda>(ptr, bin, h, g).
       ret (ptr, arena\<lparr>bins := (bins arena)[i := bin]\<rparr>, m\<lparr>runs := h, prng := g\<rparr>)))))"

text \<open>The bin of a size class with runs in it; False when no run could be supplied.\<close>

definition prepared_bin :: "'w os \<Rightarrow> arena_t \<Rightarrow> 'w mem \<Rightarrow> nat \<Rightarrow> ((bool \<times> nat) \<times> arena_t \<times> 'w mem) res" where
  "prepared_bin os arena m sz =
     bindR (arena_get_bin_by_reg_size arena sz) (\<lambda>(i, arena).
     bindR (arr_get (bins arena) i) (\<lambda>bin.
       if avail_regs bin = 0 then
         bindR (arena_supply_runs os arena m i) (\<lambda>(ok, arena, m). ret ((ok, i), arena, m))
       else ret ((True, i), arena, m)))"

definition sealloc_malloc :: "'w os \<Rightarrow> arena_t \<Rightarrow> 'w mem \<Rightarrow> nat \<Rightarrow> (addr \<times> arena_t \<times> 'w mem) res" where
  "sealloc_malloc os arena m sz =
     (let sz = (if sz = 0 then SMALL_SIZE_MIN_REGION else sz)
      in if IS_SIZE_HUGE sz then
           bindR (arena_allocate_huge_mapping os arena m (alignup_page64 sz)) (\<lambda>(huge, arena, m).
           bindR (load (huges m) huge) (\<lambda>x. ret (key x, arena, m)))
         else
           bindR (prepared_bin os arena m (u32 (aligned_size sz))) (\<lambda>((ok, i), arena, m).
             if ok then sealloc_allocate_with_bin os arena m i else ret (0, arena, m)))"

subsection \<open>Finding the metadata of a pointer\<close>

text \<open>The kinds carry the out-parameters: chunk, run and bin, or the huge mapping.\<close>

datatype metadata_t =
    METADATA_INVALID
  | METADATA_REGULAR (md_chunk: addr) (md_run: addr) (md_bin: nat)
  | METADATA_HUGE (md_huge: addr)

partial_function (option) locate_loop :: "arena_t \<Rightarrow> 'w mem \<Rightarrow> addr \<Rightarrow> addr \<Rightarrow> (addr \<times> addr \<times> nat \<times> nat) res" where
  "locate_loop arena m ptr chunk =
     (if chunk = 0 then ret (0, 0, 0, 0)
      else bindR (load (chunks m) chunk) (\<lambda>c.
           bindR (chunk_get_run_ptr c ptr) (\<lambda>(run_ptr, run_size, rs).
             if run_ptr \<noteq> 0 then ret (chunk, run_ptr, run_size, rs)
             else bindR (arena_get_chunk_from_ptr arena m ptr chunk) (locate_loop arena m ptr))))"

definition locate_metadata_for_ptr :: "arena_t \<Rightarrow> 'w mem \<Rightarrow> addr \<Rightarrow> (metadata_t \<times> arena_t) res" where
  "locate_metadata_for_ptr arena m ptr =
     bindR (arena_get_chunk_from_ptr arena m ptr 0) (\<lambda>chunk.
     bindR (locate_loop arena m ptr chunk) (\<lambda>(chunk, run_ptr, run_size, rs).
       if chunk = 0 then
         bindR (arena_find_huge_mapping arena m ptr) (\<lambda>huge.
           ret (if huge = 0 then METADATA_INVALID else METADATA_HUGE huge, arena))
       else
         bindR (arena_get_bin_by_reg_size arena (if 0 < rs then rs else run_size)) (\<lambda>(i, arena).
         bindR (arr_get (bins arena) i) (\<lambda>bin.
         bindR (bin_get_run_by_addr bin (runs m) run_ptr) (\<lambda>run.
         ret (METADATA_REGULAR chunk run i, arena))))))"

subsection \<open>Deallocation\<close>

text \<open>A run that has become freeable: its block is unmapped, then its metadata is freed.\<close>

definition release_run :: "'w os \<Rightarrow> arena_t \<Rightarrow> 'w mem \<Rightarrow> addr \<Rightarrow> addr \<Rightarrow> (arena_t \<times> 'w mem) res" where
  "release_run os arena m chunk run =
     bindR (load (runs m) run) (\<lambda>r.
     bindR (load (chunks m) chunk) (\<lambda>c.
     bindR (chunk_deallocate_run os (world m) c (key r)) (\<lambda>(whole, c, w).
     let m = m\<lparr>chunks := (chunks m)(chunk \<mapsto> c), world := w\<rparr>
     in bindR (if whole then arena_deallocate_chunk arena m chunk else ret (arena, m)) (\<lambda>(arena, m).
        bindR (arena_internal_free arena m run) (\<lambda>m. ret (arena, m))))))"

definition sealloc_free_with_metadata ::
    "'w os \<Rightarrow> arena_t \<Rightarrow> 'w mem \<Rightarrow> addr \<Rightarrow> nat \<Rightarrow> addr \<Rightarrow> addr \<Rightarrow> (arena_t \<times> 'w mem) res" where
  "sealloc_free_with_metadata os arena m chunk i run ptr =
     bindR (arr_get (bins arena) i) (\<lambda>bin.
     bindR (deallocate_in_run bin (runs m) run ptr) (\<lambda>(freeable, bin, h).
     let arena = arena\<lparr>bins := (bins arena)[i := bin]\<rparr>; m = m\<lparr>runs := h\<rparr>
     in if \<not> freeable then ret (arena, m) else release_run os arena m chunk run))"

definition sealloc_free :: "'w os \<Rightarrow> arena_t \<Rightarrow> 'w mem \<Rightarrow> addr \<Rightarrow> (arena_t \<times> 'w mem) res" where
  "sealloc_free os arena m ptr =
     (if ptr = 0 then ret (arena, m)
      else bindR (locate_metadata_for_ptr arena m ptr) (\<lambda>(meta, arena).
        case meta of
          METADATA_INVALID \<Rightarrow> fail Abort
        | METADATA_HUGE huge \<Rightarrow> arena_deallocate_huge_mapping os arena m huge
        | METADATA_REGULAR chunk run i \<Rightarrow> sealloc_free_with_metadata os arena m chunk i run ptr))"

subsection \<open>Reallocation\<close>

definition realloc_huge :: "'w os \<Rightarrow> arena_t \<Rightarrow> 'w mem \<Rightarrow> addr \<Rightarrow> nat \<Rightarrow> (addr \<times> arena_t \<times> 'w mem) res" where
  "realloc_huge os arena m huge new_size =
     (if IS_SIZE_HUGE new_size then
        bindR (arena_reallocate_huge_mapping os arena m huge new_size) (\<lambda>(arena, m).
        bindR (load (huges m) huge) (\<lambda>x. ret (key x, arena, m)))
      else
        bindR (sealloc_malloc os arena m new_size) (\<lambda>(new_reg, arena, m).
          if new_reg = 0 then ret (0, arena, m)
          else bindR (load (huges m) huge) (\<lambda>x.
               bindR (arena_deallocate_huge_mapping os arena
                        (m\<lparr>bytes := mem_copy (bytes m) new_reg (key x) new_size\<rparr>) huge) (\<lambda>(arena, m).
               ret (new_reg, arena, m)))))"

definition realloc_regular ::
    "'w os \<Rightarrow> arena_t \<Rightarrow> 'w mem \<Rightarrow> addr \<Rightarrow> nat \<Rightarrow> addr \<Rightarrow> addr \<Rightarrow> nat \<Rightarrow> (addr \<times> arena_t \<times> 'w mem) res" where
  "realloc_regular os arena m chunk i run old_ptr new_size =
     bindR (arr_get (bins arena) i) (\<lambda>bin_old.
     bindR (load (runs m) run) (\<lambda>r.
     bindR (run_validate_ptr r bin_old old_ptr) (\<lambda>idx.
       if idx = SIZE_MAX then fail Abort
       else if IS_SIZE_HUGE new_size then
         bindR (arena_allocate_huge_mapping os arena m (alignup_page64 new_size)) (\<lambda>(huge, arena, m).
         bindR (load (huges m) huge) (\<lambda>x.
         bindR (arr_get (bins arena) i) (\<lambda>bin_old.
         bindR (sealloc_free_with_metadata os arena
                  (m\<lparr>bytes := mem_copy (bytes m) (key x) old_ptr (reg_size bin_old)\<rparr>) chunk i run old_ptr) (\<lambda>(arena, m).
         bindR (load (huges m) huge) (\<lambda>x. ret (key x, arena, m))))))
       else
         bindR (prepared_bin os arena m (u32 (aligned_size new_size))) (\<lambda>((ok, j), arena, m).
           if \<not> ok then ret (0, arena, m)
           else
             bindR (sealloc_allocate_with_bin os arena m j) (\<lambda>(new_ptr, arena, m).
               if new_ptr = 0 then ret (0, arena, m)
               else
                 bindR (arr_get (bins arena) i) (\<lambda>bin_old.
                 bindR (arr_get (bins arena) j) (\<lambda>bin_new.
                 let n = (if reg_size bin_old < reg_size bin_new then reg_size bin_old else reg_size bin_new)
                 in bindR (sealloc_free_with_metadata os arena
                            (m\<lparr>bytes := mem_copy (bytes m) new_ptr old_ptr n\<rparr>) chunk i run old_ptr) (\<lambda>(arena, m).
                    ret (new_ptr, arena, m)))))))))"

definition sealloc_realloc :: "'w os \<Rightarrow> arena_t \<Rightarrow> 'w mem \<Rightarrow> addr \<Rightarrow> nat \<Rightarrow> (addr \<times> arena_t \<times> 'w mem) res" where
  "sealloc_realloc os arena m old_ptr new_size =
     (if old_ptr = 0 then sealloc_malloc os arena m new_size
      else bindR (locate_metadata_for_ptr arena m old_ptr) (\<lambda>(meta, arena).
        case meta of
          METADATA_INVALID \<Rightarrow> fail Abort
        | METADATA_HUGE huge \<Rightarrow> realloc_huge os arena m huge (alignup_page64 new_size)
        | METADATA_REGULAR chunk run i \<Rightarrow> realloc_regular os arena m chunk i run old_ptr new_size))"

definition sealloc_calloc :: "'w os \<Rightarrow> arena_t \<Rightarrow> 'w mem \<Rightarrow> nat \<Rightarrow> nat \<Rightarrow> (addr \<times> arena_t \<times> 'w mem) res" where
  "sealloc_calloc os arena m nmemb sz =
     (if nmemb = 0 \<or> sz = 0 then ret (0, arena, m)
      else bindR (sealloc_malloc os arena m (u64 (nmemb * sz))) (\<lambda>(ptr, arena, m).
        if ptr = 0 then ret (0, arena, m)
        else ret (ptr, arena, m\<lparr>bytes := mem_set (bytes m) ptr 0 (u64 (nmemb * sz))\<rparr>)))"

subsection \<open>The exported functions\<close>

text \<open>\<open>malloc\<close>, \<open>free\<close>, \<open>calloc\<close> and \<open>realloc\<close> of \<open>malloc_api.c\<close>; its static arena starts zeroed.\<close>

definition static_arena :: arena_t where
  "static_arena = \<lparr>is_initialized = False, secret = 0, brk = 0, chunk_list = 0, huge_alloc_list = 0,
     internal_alloc_list = 0, chunk_alloc_ptr = 0, huge_alloc_ptr = 0, internal_alloc_ptr = 0,
     bins = replicate ARENA_NO_BINS bin_zero\<rparr>"

definition with_init :: "'w os \<Rightarrow> arena_t \<Rightarrow> 'w mem \<Rightarrow> (arena_t \<times> 'w mem) res" where
  "with_init os arena m = (if \<not> is_initialized arena then arena_init os arena m else ret (arena, m))"

definition api_malloc :: "'w os \<Rightarrow> arena_t \<Rightarrow> 'w mem \<Rightarrow> nat \<Rightarrow> (addr \<times> arena_t \<times> 'w mem) res" where
  "api_malloc os arena m sz = bindR (with_init os arena m) (\<lambda>(arena, m). sealloc_malloc os arena m sz)"

definition api_free :: "'w os \<Rightarrow> arena_t \<Rightarrow> 'w mem \<Rightarrow> addr \<Rightarrow> (arena_t \<times> 'w mem) res" where
  "api_free os arena m ptr = sealloc_free os arena m ptr"

definition api_calloc :: "'w os \<Rightarrow> arena_t \<Rightarrow> 'w mem \<Rightarrow> nat \<Rightarrow> nat \<Rightarrow> (addr \<times> arena_t \<times> 'w mem) res" where
  "api_calloc os arena m nmemb sz = bindR (with_init os arena m) (\<lambda>(arena, m). sealloc_calloc os arena m nmemb sz)"

definition api_realloc :: "'w os \<Rightarrow> arena_t \<Rightarrow> 'w mem \<Rightarrow> addr \<Rightarrow> nat \<Rightarrow> (addr \<times> arena_t \<times> 'w mem) res" where
  "api_realloc os arena m ptr sz = bindR (with_init os arena m) (\<lambda>(arena, m). sealloc_realloc os arena m ptr sz)"

end
