(* ===== verification/Arena_Malloc.thy ===== *)
theory Arena_Malloc
  imports Arena_Bin Sealloc
begin

text \<open>
  Allocation on a well-formed arena: the bin of a size class, the supply of its runs
  (\<open>src/src/arena.c\<close>), and \<open>malloc\<close> of \<open>src/src/sealloc.c\<close> for regular and huge sizes.
\<close>

subsection \<open>The bin of a size class\<close>

lemma bin_index_small: "i < 32 \<Longrightarrow> bin_index (16 * Suc i) = i"
  using class_tests(1) [of "16 * Suc i"] SIZE_TO_IDX_SMALL_class [of i] by (auto simp: bin_index_def set_small_classes)

lemma bin_index_medium: "i < 4 \<Longrightarrow> bin_index (1024 * 2 ^ i) = 32 + i"
  using class_tests(2) [of "1024 * 2 ^ i"] size_to_idx_medium_class [of i]
  by (auto simp: bin_index_def set_medium_classes NO_SMALL_SIZE_CLASSES_def)

lemma bin_index_large: "i < 7 \<Longrightarrow> bin_index (16384 * 2 ^ i) = 36 + i"
  using class_tests(3) [of "16384 * 2 ^ i"] size_to_idx_large_class [of i]
  by (auto simp: bin_index_def set_large_classes NO_SMALL_SIZE_CLASSES_def NO_MEDIUM_SIZE_CLASSES_def)

lemmas bin_index_class = bin_index_small bin_index_medium bin_index_large

lemma bin_index_less: "c \<in> set size_classes \<Longrightarrow> bin_index c < ARENA_NO_BINS"
  by (erule size_class_cases) (use bin_index_class in \<open>auto simp: ARENA_NO_BINS_eq\<close>)

lemma bin_index_inj:
  assumes "c \<in> set size_classes" "d \<in> set size_classes" "bin_index c = bin_index d"
  shows "c = d"
  using assms(1)
proof (cases rule: size_class_cases)
  case (small i)
  show ?thesis using assms(2) small assms(3) bin_index_class by (cases rule: size_class_cases) auto
next
  case (medium i)
  show ?thesis using assms(2) medium assms(3) bin_index_class by (cases rule: size_class_cases) auto
next
  case (large i)
  show ?thesis using assms(2) large assms(3) bin_index_class by (cases rule: size_class_cases) auto
qed

lemma with_bin_same: "with_bin i (g_act G i) (g_inact G i) (g_home G) G = G"
  by (simp add: with_bin_def fun_upd_idem)

lemma bin_rep_new:
  assumes "bin_wf b" "run_list_active b = 0" "run_list_inactive b = 0" "run_list_active_cnt b = 0" "avail_regs b = 0"
  shows "bin_rep b h [] []"
  using assms by (simp add: bin_rep_def runs_ok_def)

lemma arena_get_bin_ok:
  assumes inv: "arena_inv mapped X a m G" and c: "sz \<in> set size_classes"
  obtains i a' where "arena_get_bin_by_reg_size a sz = ret (i, a')" "i = bin_index sz" "i < ARENA_NO_BINS" "arena_inv mapped X a' m G"
    "live a' m G = live a m G" "bin_rep (bins a' ! i) (runs m) (g_act G i) (g_inact G i)" "reg_size (bins a' ! i) = sz"
    "\<And>B. brk_below B a' = brk_below B a" "\<And>j. bins a ! j \<noteq> bin_zero \<Longrightarrow> bins a' ! j = bins a ! j"
    "brk a' = brk a \<and> chunk_alloc_ptr a' = chunk_alloc_ptr a \<and> huge_alloc_ptr a' = huge_alloc_ptr a \<and> internal_alloc_ptr a' = internal_alloc_ptr a"
proof -
  let ?i = "bin_index sz"
  note i = bin_index_less [OF c]
  note I = arena_invD [OF inv]
  have len: "length (bins a) = ARENA_NO_BINS" using I(4) by (simp add: bin_part_def)
  have slot: "bin_slot (bins a ! ?i) (runs m) (g_act G ?i) (g_inact G ?i) ?i" using I(4) i by (simp add: bin_part_def)
  have pos: "d \<noteq> 0" if "d \<in> set size_classes" for d using size_class_bounds [OF that] by simp
  show thesis
  proof (cases "bins a ! ?i = bin_zero")
    case True
    obtain b where b: "bin_init (bins a ! ?i) sz = ret b" "bin_wf b" "reg_size b = sz" "avail_regs b = 0"
      "run_list_active b = 0" "run_list_inactive b = 0" "run_list_active_cnt b = 0"
      using bin_init_wf [OF c] by blast
    have e: "g_act G ?i = [] \<and> g_inact G ?i = []"
      using slot True by (auto simp: bin_slot_def bin_rep_def bin_wf_def bin_zero_def dest: pos)
    then have e': "bin_runs G ?i = {}" by (simp add: bin_runs_def)
    let ?a = "a\<lparr>bins := (bins a)[?i := b]\<rparr>"
    have rep: "bin_rep b (runs m) (g_act G ?i) (g_inact G ?i)" using e bin_rep_new b by simp
    have bij: "bij_betw (g_home G) ((all_runs G - bin_runs G ?i) \<union> (set (g_act G ?i) \<union> set (g_inact G ?i))) (blocks G - X)"
      using I(5) e e' by (simp add: link_part_def)
    have idx: "bin_index (reg_size b) = ?i" using b(3) by simp
    have upd: "arena_inv mapped X ?a (m\<lparr>runs := runs m\<rparr>) (with_bin ?i (g_act G ?i) (g_inact G ?i) (g_home G) G)"
      "live ?a (m\<lparr>runs := runs m\<rparr>) (with_bin ?i (g_act G ?i) (g_inact G ?i) (g_home G) G)
         = other_live a m G ?i \<union> bin_live b (runs m) (set (g_act G ?i) \<union> set (g_inact G ?i))"
      by (rule inv_update_bin [OF inv i rep idx _ _ _ bij]; use e in simp)+
    note upd = upd [unfolded with_bin_same]
    have get: "arena_get_bin_by_reg_size a sz = ret (?i, ?a)"
      using b(1) i len True by (simp add: arena_get_bin_by_reg_size_def arr_get_def Let_def bin_zero_def)
    show thesis
    proof (rule that [OF get refl i])
      show "arena_inv mapped X ?a m G" using upd(1) by simp
      show "live ?a m G = live a m G"
        using upd(2) live_split [OF i, of a m G] e e' by (simp add: bin_live_def bin_regions_def)
      show "bins ?a ! j = bins a ! j" if "bins a ! j \<noteq> bin_zero" for j using that True by (cases "j = ?i") auto
    qed (use rep b(3) i len in \<open>simp_all add: brk_below_upd\<close>)
  next
    case False
    then have rep: "bin_rep (bins a ! ?i) (runs m) (g_act G ?i) (g_inact G ?i)" "bin_index (reg_size (bins a ! ?i)) = ?i"
      using slot by (simp_all add: bin_slot_def)
    have d: "reg_size (bins a ! ?i) \<in> set size_classes" using bin_repD(1) [OF rep(1)] by (simp add: bin_wf_def)
    have "reg_size (bins a ! ?i) = sz" using bin_index_inj [OF d c rep(2)] .
    moreover have "arena_get_bin_by_reg_size a sz = ret (?i, a)"
      using pos [OF d] i len by (simp add: arena_get_bin_by_reg_size_def arr_get_def Let_def)
    ultimately show thesis using that [of ?i a] i inv rep(1) by simp
  qed
qed
subsection \<open>Supplying the runs of a bin\<close>

lemma same_geometry_trans: "same_geometry a b \<Longrightarrow> same_geometry b c \<Longrightarrow> same_geometry a c"
  by (simp add: same_geometry_def)

lemma supply_loop_ok:
  assumes os: "os_contract os mapped" "CHUNK_SIZE_BYTES \<le> L" and i: "i < ARENA_NO_BINS"
    and serve: "P \<longrightarrow> provision os mapped L (3 * k + n) a m" and go: "goes P (supply_loop os i a m k)" and brk: "brk_below B a" and inv: "arena_inv mapped {} a m G"
    and rep: "bin_rep (bins a ! i) (runs m) (g_act G i) (g_inact G i)" "bin_index (reg_size (bins a ! i)) = i"
    and lim: "avail_regs (bins a ! i) + k * 1024 < 2 ^ 32"
  obtains a' m' G' where "supply_loop os i a m k = ret (True, a', m')" "arena_inv mapped {} a' m' G'" "brk_below B a'"
    "P \<longrightarrow> provision os mapped L n a' m'" "live a' m' G' = live a m G" "bin_rep (bins a' ! i) (runs m') (g_act G' i) (g_inact G' i)"
    "same_geometry (bins a ! i) (bins a' ! i)" "avail_regs (bins a' ! i) = avail_regs (bins a ! i) + k * regions (bins a ! i)"
    "bytes m' = bytes m" "\<And>j. j \<noteq> i \<Longrightarrow> bins a' ! j = bins a ! j" "extends m G m' G'"
  using serve go brk inv rep lim
proof (induction k arbitrary: a m G thesis)
  case 0
  show ?case by (rule 0(1) [of a m G]) (use 0 in \<open>simp_all add: same_geometry_def\<close>)
next
  case (Suc k)
  have s: "P \<longrightarrow> provision os mapped L (Suc (Suc (Suc (3 * k + n)))) a m" using Suc.prems(2) by (simp add: numeral_3_eq_3)
  have lim1: "avail_regs (bins a ! i) + 1024 < 2 ^ 32" using Suc.prems(8) by simp
  have go1: "goes P (add_run_to_bin os a m i)" using Suc.prems(3) by (rule goes_step) simp_all
  obtain a1 m1 G1 where 1: "add_run_to_bin os a m i = ret (True, a1, m1)" "arena_inv mapped {} a1 m1 G1" "brk_below B a1"
    "P \<longrightarrow> provision os mapped L (3 * k + n) a1 m1" "live a1 m1 G1 = live a m G" "bin_rep (bins a1 ! i) (runs m1) (g_act G1 i) (g_inact G1 i)"
    "same_geometry (bins a ! i) (bins a1 ! i)" "avail_regs (bins a1 ! i) = avail_regs (bins a ! i) + regions (bins a ! i)" "bytes m1 = bytes m"
    "\<And>j. j \<noteq> i \<Longrightarrow> bins a1 ! j = bins a ! j" "extends m G m1 G1"
    by (rule add_run_to_bin_ok [OF os s go1 Suc.prems(4,5) i Suc.prems(6,7) lim1]) (rule that)
  have go2: "goes P (supply_loop os i a1 m1 k)" using Suc.prems(3) by (rule goes_step) (simp_all add: 1(1))
  have g: "reg_size (bins a1 ! i) = reg_size (bins a ! i)" "regions (bins a1 ! i) = regions (bins a ! i)" using 1(7) by (simp_all add: same_geometry_def)
  have lim2: "avail_regs (bins a1 ! i) + k * 1024 < 2 ^ 32"
    using Suc.prems(8) bin_wf_regions(3) [OF bin_repD(1) [OF Suc.prems(6)]] by (simp add: 1(8))
  have idx: "bin_index (reg_size (bins a1 ! i)) = i" using Suc.prems(7) g by simp
  obtain a2 m2 G2 where 2: "supply_loop os i a1 m1 k = ret (True, a2, m2)" "arena_inv mapped {} a2 m2 G2" "brk_below B a2"
    "P \<longrightarrow> provision os mapped L n a2 m2" "live a2 m2 G2 = live a1 m1 G1" "bin_rep (bins a2 ! i) (runs m2) (g_act G2 i) (g_inact G2 i)"
    "same_geometry (bins a1 ! i) (bins a2 ! i)" "avail_regs (bins a2 ! i) = avail_regs (bins a1 ! i) + k * regions (bins a1 ! i)"
    "bytes m2 = bytes m1" "\<And>j. j \<noteq> i \<Longrightarrow> bins a2 ! j = bins a1 ! j" "extends m1 G1 m2 G2"
    by (rule Suc.IH [OF _ 1(4) go2 1(3,2,6) idx lim2]) (rule that)
  show ?case
  proof (rule Suc.prems(1) [OF _ 2(2,3,4) _ 2(6)])
    show "same_geometry (bins a ! i) (bins a2 ! i)" using 1(7) 2(7) by (rule same_geometry_trans)
    show "extends m G m2 G2" using 1(11) 2(11) by (rule extends_trans)
  qed (use 1 2 g in simp_all)
qed

lemma arena_supply_runs_ok:
  assumes os: "os_contract os mapped" "CHUNK_SIZE_BYTES \<le> L" and i: "i < ARENA_NO_BINS"
    and serve: "P \<longrightarrow> provision os mapped L (768 + n) a m" and go: "goes P (arena_supply_runs os a m i)" and brk: "brk_below B a" and inv: "arena_inv mapped {} a m G"
    and rep: "bin_rep (bins a ! i) (runs m) (g_act G i) (g_inact G i)" "bin_index (reg_size (bins a ! i)) = i"
    and empty: "avail_regs (bins a ! i) = 0"
  obtains a' m' G' where "arena_supply_runs os a m i = ret (True, a', m')" "arena_inv mapped {} a' m' G'" "brk_below B a'"
    "P \<longrightarrow> provision os mapped L n a' m'" "live a' m' G' = live a m G" "bin_rep (bins a' ! i) (runs m') (g_act G' i) (g_inact G' i)"
    "same_geometry (bins a ! i) (bins a' ! i)" "BIN_MINIMUM_REGIONS \<le> avail_regs (bins a' ! i)" "bytes m' = bytes m"
    "\<And>j. j \<noteq> i \<Longrightarrow> bins a' ! j = bins a ! j" "extends m G m' G'"
proof -
  note wf = bin_repD(1) [OF rep(1)]
  let ?u = "regions (bins a ! i)"
  define k where "k = ceil_div 256 ?u"
  have u: "0 < ?u" using bin_wf_regions(2) [OF wf] .
  have le: "k \<le> m \<longleftrightarrow> 256 \<le> ?u * m" for m unfolding k_def by (rule ceil_div_le_iff [OF u]) simp
  have k: "k \<le> 256" "256 \<le> k * ?u" using le [of 256] le [of k] u by (simp_all add: mult.commute)
  have len: "length (bins a) = ARENA_NO_BINS" using arena_invD(4) [OF inv] by (simp add: bin_part_def)
  have s: "P \<longrightarrow> provision os mapped L (3 * k + n) a m" using serve k(1) by (auto intro: supplied_mono)
  have ks: "ceil_div (sub32 BIN_MINIMUM_REGIONS (avail_regs (bins a ! i))) ?u = k" using empty by (simp add: k_def BIN_MINIMUM_REGIONS_def sub32_def)
  have go1: "goes P (supply_loop os i a m k)"
    using go by (rule goes_step) (use u i len empty ks in \<open>simp_all add: arena_supply_runs_def arr_get_def\<close>)
  have lim: "avail_regs (bins a ! i) + k * 1024 < 2 ^ 32" using k(1) empty by simp
  obtain a' m' G' where R: "supply_loop os i a m k = ret (True, a', m')" "arena_inv mapped {} a' m' G'" "brk_below B a'"
    "P \<longrightarrow> provision os mapped L n a' m'" "live a' m' G' = live a m G" "bin_rep (bins a' ! i) (runs m') (g_act G' i) (g_inact G' i)"
    "same_geometry (bins a ! i) (bins a' ! i)" "avail_regs (bins a' ! i) = avail_regs (bins a ! i) + k * ?u"
    "bytes m' = bytes m" "\<And>j. j \<noteq> i \<Longrightarrow> bins a' ! j = bins a ! j" "extends m G m' G'"
    by (rule supply_loop_ok [OF os i s go1 brk inv rep lim]) (rule that)
  have run: "arena_supply_runs os a m i = ret (True, a', m')"
    using R(1) u i len empty by (simp add: arena_supply_runs_def arr_get_def k_def BIN_MINIMUM_REGIONS_def wrap_simps)
  have "BIN_MINIMUM_REGIONS \<le> avail_regs (bins a' ! i)" using R(8) k(2) empty by (simp add: BIN_MINIMUM_REGIONS_def)
  from that [OF run R(2-7) this R(9,10,11)] show thesis .
qed
subsection \<open>Regions of a bin\<close>

text \<open>The bin keeps its geometry and loses the runs \<open>R\<close>; their blocks are then without a run.\<close>

lemma inv_shrink_bin:
  assumes inv: "arena_inv mapped X a m G" and i: "i < ARENA_NO_BINS"
    and old: "bin_rep (bins a ! i) (runs m) (g_act G i) (g_inact G i)" "bin_index (reg_size (bins a ! i)) = i"
    and new: "bin_rep b' h' act' inact'" "same_geometry (bins a ! i) b'" "set act' \<union> set inact' = bin_runs G i - R" "R \<subseteq> bin_runs G i"
    and frame: "\<And>y. y \<notin> bin_runs G i \<Longrightarrow> h' y = runs m y" "\<And>y. y \<in> bin_runs G i - R \<Longrightarrow> key (run_at h' y) = key (run_at (runs m) y)"
  shows "arena_inv mapped (X \<union> g_home G ` R) (a\<lparr>bins := (bins a)[i := b']\<rparr>) (m\<lparr>runs := h'\<rparr>) (with_bin i act' inact' (g_home G) G)"
    "live (a\<lparr>bins := (bins a)[i := b']\<rparr>) (m\<lparr>runs := h'\<rparr>) (with_bin i act' inact' (g_home G) G)
       = other_live a m G i \<union> bin_live b' h' (bin_runs G i - R)"
proof -
  note I = arena_invD [OF inv]
  have sub: "bin_runs G i \<subseteq> all_runs G" using i by (auto simp: all_runs_def)
  have rest: "(all_runs G - bin_runs G i) \<union> (set act' \<union> set inact') = all_runs G - R" using sub new(3,4) by auto
  have hb: "bij_betw (g_home G) (all_runs G) (blocks G - X)" using I(5) by (simp add: link_part_def)
  have "g_home G ` (all_runs G - R) = blocks G - X - g_home G ` R"
    using hb inj_on_image_set_diff [of "g_home G" "all_runs G" "all_runs G" R] new(4) sub
    by (auto simp: bij_betw_def)
  then have "bij_betw (g_home G) (all_runs G - R) (blocks G - (X \<union> g_home G ` R))"
    using hb by (auto simp: bij_betw_def Diff_eq intro: inj_on_subset)
  then have bij: "bij_betw (g_home G) ((all_runs G - bin_runs G i) \<union> (set act' \<union> set inact')) (blocks G - (X \<union> g_home G ` R))"
    unfolding rest .
  have idx: "bin_index (reg_size b') = i" using old(2) new(2) by (simp add: same_geometry_def)
  have homes: "home_ok b' h' m G (g_home G z) z" if "z \<in> set act' \<union> set inact'" for z
  proof -
    have z: "z \<in> bin_runs G i - R" using that new(3) by simp
    then have "at_home a m G i z" using I(5) i by (simp add: link_part_def)
    then show ?thesis using frame(2) [OF z] new(2) by (simp add: at_home_ok home_ok_def same_geometry_def split: prod.split)
  qed
  have meta: "has_meta G (run_bytes b') z" if "z \<in> set act' \<union> set inact'" for z
    using that I(6) i run_bytes_geometry [OF new(2)] new(3) by (simp add: object_part_def)
  have other: "h' z = runs m z" if "z \<notin> bin_runs G i \<union> (set act' \<union> set inact')" for z using that frame(1) by simp
  have inold: "z \<in> bin_runs G i \<or> z \<notin> objects G" if "z \<in> set act' \<union> set inact'" for z using that new(3) by simp
  note upd = inv_update_bin [OF inv i new(1) idx other inold meta bij refl homes]
  show "arena_inv mapped (X \<union> g_home G ` R) (a\<lparr>bins := (bins a)[i := b']\<rparr>) (m\<lparr>runs := h'\<rparr>) (with_bin i act' inact' (g_home G) G)" by (rule upd(1))
  show "live (a\<lparr>bins := (bins a)[i := b']\<rparr>) (m\<lparr>runs := h'\<rparr>) (with_bin i act' inact' (g_home G) G)
       = other_live a m G i \<union> bin_live b' h' (bin_runs G i - R)" using upd(2) unfolding new(3) .
qed

lemma inv_regions_bin:
  assumes "arena_inv mapped X a m G" "i < ARENA_NO_BINS"
    and "bin_rep (bins a ! i) (runs m) (g_act G i) (g_inact G i)" "bin_index (reg_size (bins a ! i)) = i"
    and "bin_rep b' h' act' inact'" "same_geometry (bins a ! i) b'" "set act' \<union> set inact' = bin_runs G i"
    and "\<And>y. y \<notin> bin_runs G i \<Longrightarrow> h' y = runs m y" "\<And>y. y \<in> bin_runs G i \<Longrightarrow> key (run_at h' y) = key (run_at (runs m) y)"
  shows "arena_inv mapped X (a\<lparr>bins := (bins a)[i := b']\<rparr>) (m\<lparr>runs := h'\<rparr>) (with_bin i act' inact' (g_home G) G)"
    "live (a\<lparr>bins := (bins a)[i := b']\<rparr>) (m\<lparr>runs := h'\<rparr>) (with_bin i act' inact' (g_home G) G)
       = other_live a m G i \<union> bin_live b' h' (bin_runs G i)"
  using inv_shrink_bin [where R = "{}", OF assms(1-6)] assms(7-9) by simp_all

text \<open>Changing the state of one region of one run changes the regions of the bin accordingly.\<close>

lemma bin_live_step:
  assumes x: "x \<in> R" and other: "\<And>y. y \<in> R \<Longrightarrow> y \<noteq> x \<Longrightarrow> unlink (run_at h' y) = unlink (run_at h y)" and geo: "same_geometry b b'"
    and step: "run_abs b (run_at h' x) = (run_abs b (run_at h x))(p \<mapsto> s)"
    and alone: "\<And>y. y \<in> R \<Longrightarrow> y \<noteq> x \<Longrightarrow> run_abs b (run_at h y) p = None"
  shows "bin_live b' h' R = (if s = STATE_ALLOC then insert (p, reg_size b) (bin_live b h R) else bin_live b h R - {(p, reg_size b)})"
proof -
  have at: "run_abs b' (run_at h' y) = (if y = x then (run_abs b (run_at h x))(p \<mapsto> s) else run_abs b (run_at h y))" if "y \<in> R" for y
    using step unlink_observed(2) [OF other [OF that], of b] by (simp add: geometry_cong(3) [OF geo])
  have mem: "q \<in> bin_regions b' h' R STATE_ALLOC \<longleftrightarrow> (\<exists>y \<in> R. (if y = x then (run_abs b (run_at h x))(p \<mapsto> s) else run_abs b (run_at h y)) q = Some STATE_ALLOC)" for q
    using at by (simp add: bin_regions_def)
  have "bin_regions b' h' R STATE_ALLOC = (if s = STATE_ALLOC then insert p (bin_regions b h R STATE_ALLOC) else bin_regions b h R STATE_ALLOC - {p})" (is "?L = ?R")
  proof (rule set_eqI)
    fix q
    show "q \<in> ?L \<longleftrightarrow> q \<in> ?R"
    proof (cases "q = p")
      case True
      have "q \<in> ?L \<longleftrightarrow> s = STATE_ALLOC" unfolding mem using x alone True by (auto split: if_splits)
      then show ?thesis using True by simp
    next
      case False
      have "q \<in> ?L \<longleftrightarrow> q \<in> bin_regions b h R STATE_ALLOC" unfolding mem using False by (auto simp: bin_regions_def)
      then show ?thesis using False by simp
    qed
  qed
  moreover have "reg_size b' = reg_size b" using geo by (simp add: same_geometry_def)
  ultimately show ?thesis by (auto simp: bin_live_def)
qed

lemma region_alone:
  assumes inv: "arena_inv mapped X a m G" and i: "i < ARENA_NO_BINS" and x: "x \<in> bin_runs G i" "run_abs (bins a ! i) (run_at (runs m) x) p = Some s"
    and y: "j < ARENA_NO_BINS" "y \<in> bin_runs G j" "y \<noteq> x"
  shows "run_abs (bins a ! j) (run_at (runs m) y) p = None"
proof (rule ccontr)
  assume "run_abs (bins a ! j) (run_at (runs m) y) p \<noteq> None"
  then obtain t where t: "run_abs (bins a ! j) (run_at (runs m) y) p = Some t" by auto
  note rx = run_of_bin(3) [OF arena_invD(4) [OF inv] i x(1)] and ry = run_of_bin(3) [OF arena_invD(4) [OF inv] y(1,2)]
  have "p \<in> run_addr_range (bins a ! i) (the (runs m x))" "p \<in> run_addr_range (bins a ! j) (the (runs m y))"
    using run_abs_range [OF rx] run_abs_range [OF ry] x(2) t by simp_all
  then show False using runs_apart [OF inv i x(1) y(1,2)] y(3) by blast
qed
lemma region_not_other:
  assumes inv: "arena_inv mapped X a m G" and i: "i < ARENA_NO_BINS" and x: "x \<in> bin_runs G i" "run_abs (bins a ! i) (run_at (runs m) x) p = Some s"
  shows "(p, t) \<notin> other_live a m G i"
proof
  assume "(p, t) \<in> other_live a m G i"
  then consider (run) j y where "j < ARENA_NO_BINS" "j \<noteq> i" "y \<in> bin_runs G j" "run_abs (bins a ! j) (run_at (runs m) y) p = Some STATE_ALLOC"
    | (huge) y where "y \<in> set (g_huges G)" "p = key (the (huges m y))"
    by (auto simp: other_live_def bin_live_def bin_regions_def)
  then show False
  proof cases
    case (run j y)
    have "bin_runs G j \<inter> bin_runs G i = {}" using arena_invD(4) [OF inv] run(1,2) i by (simp add: bin_part_def)
    then have "y \<noteq> x" using run(3) x(1) by blast
    then show False using region_alone [OF inv i x run(1,3)] run(4) by simp
  next
    case (huge y)
    obtain c where c: "c \<in> set (g_chunks G)" "run_addr_range (bins a ! i) (the (runs m x)) \<subseteq> chunk_space m G c"
      using inv i x(1) by (rule run_in_chunk)
    have "p \<in> chunk_space m G c" using c(2) run_abs_range [OF run_of_bin(3) [OF arena_invD(4) [OF inv] i x(1)]] x(2) by auto
    moreover have "p \<in> huge_space m y" using huge arena_invD(3) [OF inv] by (force simp: huge_space_def huge_part_def)
    ultimately show False using space_partD(6) [OF arena_invD(7) [OF inv] c(1) huge(1)] by blast
  qed
qed

lemma region_not_live:
  assumes inv: "arena_inv mapped X a m G" and i: "i < ARENA_NO_BINS" and x: "x \<in> bin_runs G i" "run_abs (bins a ! i) (run_at (runs m) x) p = Some s"
    and s: "s \<noteq> STATE_ALLOC"
  shows "(p, t) \<notin> live a m G"
proof -
  have "run_abs (bins a ! i) (run_at (runs m) y) p \<noteq> Some STATE_ALLOC" if "y \<in> bin_runs G i" for y
    using region_alone [OF inv i x i that] x(2) s by (cases "y = x") simp_all
  then have "(p, t) \<notin> bin_live (bins a ! i) (runs m) (bin_runs G i)" by (auto simp: bin_live_def bin_regions_def)
  then show ?thesis using region_not_other [OF inv i x] live_split [OF i, of a m G] by blast
qed

subsection \<open>Allocation of a region\<close>

lemma inv_prng: "arena_inv mapped X a (m\<lparr>prng := g\<rparr>) G = arena_inv mapped X a m G"
proof -
  have "chunk_space (m\<lparr>prng := g\<rparr>) = chunk_space m" "huge_space (m\<lparr>prng := g\<rparr>) = huge_space m"
    "at_home a (m\<lparr>prng := g\<rparr>) = at_home a m"
    by (simp_all add: fun_eq_iff chunk_space_def huge_space_def at_home_def)
  then show ?thesis
    by (simp add: arena_inv_def pool_part_def chunk_part_def huge_part_def bin_part_def link_part_def object_part_def space_part_def)
qed

lemma live_prng: "live a (m\<lparr>prng := g\<rparr>) G = live a m G"
  by (simp add: live_def)

lemma take_region_ok:
  assumes inv: "arena_inv mapped {} a m G" and i: "i < ARENA_NO_BINS"
    and rep: "bin_rep (bins a ! i) (runs m) (g_act G i) (g_inact G i)" "bin_index (reg_size (bins a ! i)) = i"
    and pos: "0 < avail_regs (bins a ! i)"
  obtains p b' h' g' G' where "allocate_from_runs (bins a ! i) (runs m) (prng m) = ret (p, b', h', g')" "p \<noteq> 0"
    "arena_inv mapped {} (a\<lparr>bins := (bins a)[i := b']\<rparr>) (m\<lparr>runs := h', prng := g'\<rparr>) G'"
    "live (a\<lparr>bins := (bins a)[i := b']\<rparr>) (m\<lparr>runs := h', prng := g'\<rparr>) G' = insert (p, reg_size (bins a ! i)) (live a m G)"
    "(p, reg_size (bins a ! i)) \<notin> live a m G" "same_geometry (bins a ! i) b'" "extends m G (m\<lparr>runs := h', prng := g'\<rparr>) G'"
    "bin_runs G' = bin_runs G"
proof -
  let ?b = "bins a ! i"
  obtain x p b' h' g' act' inact' where A: "allocate_from_runs ?b (runs m) (prng m) = ret (p, b', h', g')" "bin_rep b' h' act' inact'" "same_geometry ?b b'"
    "set act' \<union> set inact' = set (g_act G i) \<union> set (g_inact G i)" "avail_regs ?b = Suc (avail_regs b')"
    "x \<in> set (g_act G i)" "run_abs ?b (run_at (runs m) x) p = Some STATE_FREE"
    "run_abs ?b (run_at h' x) = (run_abs ?b (run_at (runs m) x))(p \<mapsto> STATE_ALLOC)"
    "\<And>y. y \<in> set (g_act G i) \<union> set (g_inact G i) \<Longrightarrow> y \<noteq> x \<Longrightarrow> unlink (run_at h' y) = unlink (run_at (runs m) y)"
    "\<And>y. y \<notin> set (g_act G i) \<union> set (g_inact G i) \<Longrightarrow> h' y = runs m y" "key (run_at h' x) = key (run_at (runs m) x)"
    by (rule allocate_from_runs_ok [OF rep(1) pos, of "prng m"]) (rule that)
  have br: "set (g_act G i) \<union> set (g_inact G i) = bin_runs G i" by (simp add: bin_runs_def)
  have x: "x \<in> bin_runs G i" using A(6) br by blast
  have key: "key (run_at h' y) = key (run_at (runs m) y)" if "y \<in> bin_runs G i" for y
    using A(11) unlink_observed(6) [OF A(9)] that br by (cases "y = x") auto
  have frame: "h' y = runs m y" if "y \<notin> bin_runs G i" for y using A(10) that br by simp
  note upd = inv_regions_bin [OF inv i rep A(2,3) A(4) [unfolded br] frame key]
  have alone: "run_abs ?b (run_at (runs m) y) p = None" if "y \<in> bin_runs G i" "y \<noteq> x" for y
    using region_alone [OF inv i x A(7) i that] .
  have "bin_live b' h' (bin_runs G i) = insert (p, reg_size ?b) (bin_live ?b (runs m) (bin_runs G i))"
    by (subst bin_live_step [where h = "runs m" and h' = h' and b = ?b and p = p and s = STATE_ALLOC, OF x _ A(3,8)])
      (use alone A(9) br in simp_all)
  then have lv: "live (a\<lparr>bins := (bins a)[i := b']\<rparr>) (m\<lparr>runs := h'\<rparr>) (with_bin i act' inact' (g_home G) G) = insert (p, reg_size ?b) (live a m G)"
    using upd(2) live_split [OF i, of a m G] by simp
  have fresh: "(p, reg_size ?b) \<notin> live a m G" using region_not_live [OF inv i x A(7)] by simp
  have "p \<in> run_addr_range ?b (the (runs m x))" using run_abs_range [OF run_of_bin(3) [OF arena_invD(4) [OF inv] i x]] A(7) by simp
  moreover obtain c where "c \<in> set (g_chunks G)" "run_addr_range ?b (the (runs m x)) \<subseteq> chunk_space m G c"
    using inv i x by (rule run_in_chunk)
  moreover have "0 < key (the (chunks m c))" if "c \<in> set (g_chunks G)" for c
    using chunk_invD(1) [OF chunk_of(3) [OF arena_invD(2) [OF inv] that]] by simp
  ultimately have "p \<noteq> 0" by (fastforce simp: chunk_space_def)
  have g: "arena_inv mapped {} (a\<lparr>bins := (bins a)[i := b']\<rparr>) (m\<lparr>runs := h', prng := g'\<rparr>) (with_bin i act' inact' (g_home G) G)"
    using upd(1) inv_prng [where m = "m\<lparr>runs := h'\<rparr>" and g = g'] by simp
  have l: "live (a\<lparr>bins := (bins a)[i := b']\<rparr>) (m\<lparr>runs := h', prng := g'\<rparr>) (with_bin i act' inact' (g_home G) G) = insert (p, reg_size ?b) (live a m G)"
    using lv live_prng [where m = "m\<lparr>runs := h'\<rparr>" and g = g'] by simp
  have "extends m G (m\<lparr>runs := h', prng := g'\<rparr>) (with_bin i act' inact' (g_home G) G)" using A(4) br by (simp add: extends_def)
  moreover have "bin_runs (with_bin i act' inact' (g_home G) G) = bin_runs G" using A(4) br by (simp add: fun_eq_iff)
  ultimately show thesis by (rule that [OF A(1) \<open>p \<noteq> 0\<close> g l fresh A(3)])
qed
subsection \<open>Regular sizes\<close>

lemma prepared_bin_ok:
  assumes os: "os_contract os mapped" "CHUNK_SIZE_BYTES \<le> L" and c: "sz \<in> set size_classes"
    and serve: "P \<longrightarrow> provision os mapped L (768 + (3 + n)) a m" and go: "goes P (prepared_bin os a m sz)" and brk: "brk_below B a" and inv: "arena_inv mapped {} a m G"
  obtains i a' m' G' where "prepared_bin os a m sz = ret ((True, i), a', m')" "i < ARENA_NO_BINS" "arena_inv mapped {} a' m' G'" "brk_below B a'"
    "P \<longrightarrow> provision os mapped L (3 + n) a' m'" "live a' m' G' = live a m G"
    "bin_rep (bins a' ! i) (runs m') (g_act G' i) (g_inact G' i)" "bin_index (reg_size (bins a' ! i)) = i"
    "reg_size (bins a' ! i) = sz" "0 < avail_regs (bins a' ! i)" "bytes m' = bytes m"
    "\<And>j. j \<noteq> i \<Longrightarrow> bins a ! j \<noteq> bin_zero \<Longrightarrow> bins a' ! j = bins a ! j" "extends m G m' G'"
proof -
  obtain i a1 where g: "arena_get_bin_by_reg_size a sz = ret (i, a1)" "i = bin_index sz" "i < ARENA_NO_BINS" "arena_inv mapped {} a1 m G"
    "live a1 m G = live a m G" "bin_rep (bins a1 ! i) (runs m) (g_act G i) (g_inact G i)" "reg_size (bins a1 ! i) = sz"
    "\<And>B. brk_below B a1 = brk_below B a" "\<And>j. bins a ! j \<noteq> bin_zero \<Longrightarrow> bins a1 ! j = bins a ! j"
    "brk a1 = brk a \<and> chunk_alloc_ptr a1 = chunk_alloc_ptr a \<and> huge_alloc_ptr a1 = huge_alloc_ptr a \<and> internal_alloc_ptr a1 = internal_alloc_ptr a"
    by (rule arena_get_bin_ok [OF inv c]) (rule that)
  have idx: "bin_index (reg_size (bins a1 ! i)) = i" using g(2,7) by simp
  have len: "length (bins a1) = ARENA_NO_BINS" using arena_invD(4) [OF g(4)] by (simp add: bin_part_def)
  have brk1: "brk_below B a1" using brk g(8) by simp
  show thesis
  proof (cases "avail_regs (bins a1 ! i) = 0")
    case True
    have s1: "P \<longrightarrow> provision os mapped L (768 + (3 + n)) a1 m" using serve g(10) by simp
    have go1: "goes P (arena_supply_runs os a1 m i)"
      using go by (rule goes_step) (use g(1,3) len True in \<open>simp_all add: prepared_bin_def arr_get_def\<close>)
    obtain a' m' G' where R: "arena_supply_runs os a1 m i = ret (True, a', m')" "arena_inv mapped {} a' m' G'" "brk_below B a'"
      "P \<longrightarrow> provision os mapped L (3 + n) a' m'" "live a' m' G' = live a1 m G" "bin_rep (bins a' ! i) (runs m') (g_act G' i) (g_inact G' i)"
      "same_geometry (bins a1 ! i) (bins a' ! i)" "BIN_MINIMUM_REGIONS \<le> avail_regs (bins a' ! i)" "bytes m' = bytes m"
      "\<And>j. j \<noteq> i \<Longrightarrow> bins a' ! j = bins a1 ! j" "extends m G m' G'"
      by (rule arena_supply_runs_ok [OF os g(3) s1 go1 brk1 g(4,6) idx True]) (rule that)
    have "prepared_bin os a m sz = ret ((True, i), a', m')"
      using g(1,3) len True R(1) by (simp add: prepared_bin_def arr_get_def)
    then show thesis
      by (rule that [OF _ g(3) R(2-4) _ R(6)]) (use R g idx in \<open>simp_all add: same_geometry_def BIN_MINIMUM_REGIONS_def\<close>)
  next
    case False
    have "prepared_bin os a m sz = ret ((True, i), a1, m)"
      using g(1,3) len False by (simp add: prepared_bin_def arr_get_def)
    moreover have "P \<longrightarrow> provision os mapped L (3 + n) a1 m" using serve g(10) by (auto intro: supplied_mono)
    ultimately show thesis
      by (rule that [OF _ g(3,4) brk1 _ g(5,6) idx g(7)]) (use False g(9) in simp_all)
  qed
qed

text \<open>A bin with few regions gets another run first.\<close>

lemma refill_ok:
  assumes os: "os_contract os mapped" "CHUNK_SIZE_BYTES \<le> L" and i: "i < ARENA_NO_BINS"
    and serve: "P \<longrightarrow> provision os mapped L (3 + n) a m"
    and go: "goes P (if avail_regs (bins a ! i) < BIN_MINIMUM_REGIONS then add_run_to_bin os a m i else ret (True, a, m))"
    and brk: "brk_below B a" and inv: "arena_inv mapped {} a m G"
    and rep: "bin_rep (bins a ! i) (runs m) (g_act G i) (g_inact G i)" "bin_index (reg_size (bins a ! i)) = i"
    and pos: "0 < avail_regs (bins a ! i)"
  obtains a1 m1 G1 where "(if avail_regs (bins a ! i) < BIN_MINIMUM_REGIONS then add_run_to_bin os a m i else ret (True, a, m)) = ret (True, a1, m1)"
    "arena_inv mapped {} a1 m1 G1" "brk_below B a1" "P \<longrightarrow> provision os mapped L n a1 m1" "live a1 m1 G1 = live a m G"
    "bin_rep (bins a1 ! i) (runs m1) (g_act G1 i) (g_inact G1 i)" "same_geometry (bins a ! i) (bins a1 ! i)"
    "0 < avail_regs (bins a1 ! i)" "bytes m1 = bytes m" "\<And>j. j \<noteq> i \<Longrightarrow> bins a1 ! j = bins a ! j" "extends m G m1 G1"
proof (cases "avail_regs (bins a ! i) < BIN_MINIMUM_REGIONS")
  case True
  have s: "P \<longrightarrow> provision os mapped L (Suc (Suc (Suc n))) a m" using serve by (simp add: numeral_3_eq_3)
  have go1: "goes P (add_run_to_bin os a m i)" using go True by simp
  have lim: "avail_regs (bins a ! i) + 1024 < 2 ^ 32" using True by (simp add: BIN_MINIMUM_REGIONS_def)
  obtain a' m' G' where R: "add_run_to_bin os a m i = ret (True, a', m')" "arena_inv mapped {} a' m' G'" "brk_below B a'"
    "P \<longrightarrow> provision os mapped L n a' m'" "live a' m' G' = live a m G" "bin_rep (bins a' ! i) (runs m') (g_act G' i) (g_inact G' i)"
    "same_geometry (bins a ! i) (bins a' ! i)" "avail_regs (bins a' ! i) = avail_regs (bins a ! i) + regions (bins a ! i)" "bytes m' = bytes m"
    "\<And>j. j \<noteq> i \<Longrightarrow> bins a' ! j = bins a ! j" "extends m G m' G'"
    by (rule add_run_to_bin_ok [OF os s go1 brk inv i rep lim]) (rule that)
  show thesis by (rule that [OF _ R(2-7)]) (use R True pos in simp_all)
next
  case False
  have "P \<longrightarrow> provision os mapped L n a m" using serve by (auto intro: supplied_mono)
  then show thesis by (intro that [of a m G]) (use False brk inv rep pos in \<open>simp_all add: same_geometry_def\<close>)
qed

lemma allocate_with_bin_ok:
  assumes os: "os_contract os mapped" "CHUNK_SIZE_BYTES \<le> L" and i: "i < ARENA_NO_BINS"
    and serve: "P \<longrightarrow> provision os mapped L (3 + n) a m" and go: "goes P (sealloc_allocate_with_bin os a m i)" and brk: "brk_below B a" and inv: "arena_inv mapped {} a m G"
    and rep: "bin_rep (bins a ! i) (runs m) (g_act G i) (g_inact G i)" "bin_index (reg_size (bins a ! i)) = i"
    and pos: "0 < avail_regs (bins a ! i)"
  obtains p a' m' G' where "sealloc_allocate_with_bin os a m i = ret (p, a', m')" "p \<noteq> 0" "arena_inv mapped {} a' m' G'" "brk_below B a'"
    "P \<longrightarrow> provision os mapped L n a' m'" "live a' m' G' = insert (p, reg_size (bins a ! i)) (live a m G)" "(p, reg_size (bins a ! i)) \<notin> live a m G"
    "bytes m' = bytes m" "reg_size (bins a' ! i) = reg_size (bins a ! i)" "\<And>j. j \<noteq> i \<Longrightarrow> bins a' ! j = bins a ! j" "extends m G m' G'"
proof -
  let ?b = "bins a ! i"
  have len: "i < length (bins a'')" if "arena_inv mapped {} a'' m'' G''" for a'' m'' G''
    using arena_invD(4) [OF that] i by (simp add: bin_part_def)
  have go1: "goes P (if avail_regs ?b < BIN_MINIMUM_REGIONS then add_run_to_bin os a m i else ret (True, a, m))"
    using go by (rule goes_step) (use len [OF inv] in \<open>simp_all add: sealloc_allocate_with_bin_def arr_get_def\<close>)
  obtain a1 m1 G1 where 1: "(if avail_regs ?b < BIN_MINIMUM_REGIONS then add_run_to_bin os a m i else ret (True, a, m)) = ret (True, a1, m1)"
    "arena_inv mapped {} a1 m1 G1" "brk_below B a1" "P \<longrightarrow> provision os mapped L n a1 m1" "live a1 m1 G1 = live a m G"
    "bin_rep (bins a1 ! i) (runs m1) (g_act G1 i) (g_inact G1 i)" "same_geometry ?b (bins a1 ! i)"
    "0 < avail_regs (bins a1 ! i)" "bytes m1 = bytes m" "\<And>j. j \<noteq> i \<Longrightarrow> bins a1 ! j = bins a ! j" "extends m G m1 G1"
    by (rule refill_ok [OF os i serve go1 brk inv rep pos]) (rule that)
  have idx: "bin_index (reg_size (bins a1 ! i)) = i" and sz: "reg_size (bins a1 ! i) = reg_size ?b"
    using rep(2) 1(7) by (simp_all add: same_geometry_def)
  obtain p b' h' g' G' where T: "allocate_from_runs (bins a1 ! i) (runs m1) (prng m1) = ret (p, b', h', g')" "p \<noteq> 0"
    "arena_inv mapped {} (a1\<lparr>bins := (bins a1)[i := b']\<rparr>) (m1\<lparr>runs := h', prng := g'\<rparr>) G'"
    "live (a1\<lparr>bins := (bins a1)[i := b']\<rparr>) (m1\<lparr>runs := h', prng := g'\<rparr>) G' = insert (p, reg_size (bins a1 ! i)) (live a1 m1 G1)"
    "(p, reg_size (bins a1 ! i)) \<notin> live a1 m1 G1" "same_geometry (bins a1 ! i) b'" "extends m1 G1 (m1\<lparr>runs := h', prng := g'\<rparr>) G'"
    by (rule take_region_ok [OF 1(2) i 1(6) idx 1(8)]) (rule that)
  have run: "sealloc_allocate_with_bin os a m i = ret (p, a1\<lparr>bins := (bins a1)[i := b']\<rparr>, m1\<lparr>runs := h', prng := g'\<rparr>)"
    using 1(1) T(1) len [OF inv] len [OF 1(2)] by (simp add: sealloc_allocate_with_bin_def arr_get_def)
  show thesis
    by (rule that [OF run T(2,3)]) (use 1 T sz len [OF 1(2)] extends_trans [OF 1(11) T(7)] in \<open>simp_all add: brk_below_upd same_geometry_def\<close>)
qed

end
