(* ===== verification/Arena_Huge.thy ===== *)
theory Arena_Huge
  imports Arena_Malloc
begin

text \<open>
  Huge mappings of \<open>src/src/arena.c\<close>: how a change of their list changes the arena, and that
  \<open>arena_allocate_huge_mapping\<close>, \<open>arena_reallocate_huge_mapping\<close> and
  \<open>arena_deallocate_huge_mapping\<close> add, move and remove one live region.
\<close>

subsection \<open>Changing the huge mappings\<close>

definition huge_of :: "huge_chunk_t \<Rightarrow> addr set" where
  "huge_of x = {key x..<key x + hlen x}"

lemma huge_space_of: "huge_space m x = huge_of (the (huges m x))"
  by (simp add: huge_space_def huge_of_def)

definition with_huges :: "addr list \<Rightarrow> ghost \<Rightarrow> ghost" where
  "with_huges hs G = G\<lparr>g_huges := hs\<rparr>"

lemma with_huges_simps [simp]:
  "g_pools (with_huges hs G) = g_pools G" "g_trees (with_huges hs G) = g_trees G" "g_chunks (with_huges hs G) = g_chunks G"
  "g_used (with_huges hs G) = g_used G" "g_gone (with_huges hs G) = g_gone G" "g_huges (with_huges hs G) = hs"
  "g_act (with_huges hs G) = g_act G" "g_inact (with_huges hs G) = g_inact G" "g_home (with_huges hs G) = g_home G"
  "bin_runs (with_huges hs G) = bin_runs G" "all_runs (with_huges hs G) = all_runs G" "blocks (with_huges hs G) = blocks G"
  by (simp_all add: with_huges_def bin_runs_def all_runs_def blocks_def fun_eq_iff)

definition run_live :: "arena_t \<Rightarrow> 'w mem \<Rightarrow> ghost \<Rightarrow> (addr \<times> nat) set" where
  "run_live a m G = (\<Union>j < ARENA_NO_BINS. bin_live (bins a ! j) (runs m) (bin_runs G j))"

definition huge_live :: "(addr \<rightharpoonup> huge_chunk_t) \<Rightarrow> addr set \<Rightarrow> (addr \<times> nat) set" where
  "huge_live h S = (\<lambda>x. (key (the (h x)), hlen (the (h x)))) ` S"

lemma live_huges: "live a m G = run_live a m G \<union> huge_live (huges m) (set (g_huges G))"
  by (simp add: live_def run_live_def bin_live_def huge_live_def)

lemma inv_set_huges:
  assumes inv: "arena_inv mapped X a m G" and list: "ll_list h' head hs"
    and ok: "\<And>x. x \<in> set hs \<Longrightarrow> 0 < key (the (h' x)) \<and> LARGE_SIZE_MAX_REGION < hlen (the (h' x)) \<and> 4096 dvd key (the (h' x)) \<and> key (the (h' x)) + hlen (the (h' x)) \<le> 2 ^ 47 \<and> 4096 dvd hlen (the (h' x)) \<and> has_meta G HUGE_CHUNK_T_SIZE x \<and> x \<notin> set (g_chunks G) \<union> all_runs G"
    and kept: "pool_space (g_pools G) \<subseteq> mapped w" "\<And>x. x \<in> set (g_chunks G) \<Longrightarrow> chunk_space m G x \<subseteq> mapped w"
    and space: "\<And>x. x \<in> set hs \<Longrightarrow> huge_of (the (h' x)) \<subseteq> mapped w - pool_space (g_pools G)"
      "\<And>x y. x \<in> set hs \<Longrightarrow> y \<in> set hs \<Longrightarrow> x \<noteq> y \<Longrightarrow> huge_of (the (h' x)) \<inter> huge_of (the (h' y)) = {}"
      "\<And>x c. x \<in> set hs \<Longrightarrow> c \<in> set (g_chunks G) \<Longrightarrow> huge_of (the (h' x)) \<inter> chunk_space m G c = {}"
  shows "arena_inv mapped X (a\<lparr>huge_alloc_list := head\<rparr>) (m\<lparr>world := w, huges := h', bytes := b\<rparr>) (with_huges hs G)" (is "arena_inv _ _ ?a ?m ?G")
    "live (a\<lparr>huge_alloc_list := head\<rparr>) (m\<lparr>world := w, huges := h', bytes := b\<rparr>) (with_huges hs G) = run_live a m G \<union> huge_live h' (set hs)"
proof -
  note I = arena_invD [OF inv]
  note S = space_partD [OF I(7)]
  have cs: "chunk_space ?m ?G = chunk_space m G" by (simp add: fun_eq_iff chunk_space_def)
  show "arena_inv mapped X ?a ?m ?G" unfolding arena_inv_def
  proof (intro conjI)
    show "pool_part ?a ?m ?G" using I(1) by (simp add: pool_part_def)
    show "chunk_part ?a ?m ?G" using I(2) by (simp add: chunk_part_def)
    show "huge_part ?a ?m ?G" using list ok by (simp add: huge_part_def)
    show "bin_part ?a ?m ?G" using I(4) by (simp add: bin_part_def)
    show "link_part X ?a ?m ?G" using I(5) by (simp add: link_part_def at_home_def)
    show "object_part ?a ?G" using I(6) ok by (auto simp: object_part_def has_meta_def)
    show "space_part (mapped (world ?m)) ?m ?G"
    proof (rule space_partI)
      show "pool_space (g_pools ?G) \<subseteq> mapped (world ?m)" using kept(1) by simp
      show "chunk_space ?m ?G x \<subseteq> mapped (world ?m) - pool_space (g_pools ?G)" if "x \<in> set (g_chunks ?G)" for x
        using that kept(2) [of x] S(2) [of x] by (auto simp: cs)
      show "huge_space ?m y \<subseteq> mapped (world ?m) - pool_space (g_pools ?G)" if "y \<in> set (g_huges ?G)" for y
        using that space(1) [of y] by (simp add: huge_space_of)
      show "chunk_space ?m ?G x \<inter> chunk_space ?m ?G y = {}" if "x \<in> set (g_chunks ?G)" "y \<in> set (g_chunks ?G)" "x \<noteq> y" for x y
        using that S(4) [of x y] by (simp add: cs)
      show "huge_space ?m x \<inter> huge_space ?m y = {}" if "x \<in> set (g_huges ?G)" "y \<in> set (g_huges ?G)" "x \<noteq> y" for x y
        using that space(2) [of x y] by (simp add: huge_space_of)
      show "chunk_space ?m ?G x \<inter> huge_space ?m y = {}" if "x \<in> set (g_chunks ?G)" "y \<in> set (g_huges ?G)" for x y
        using that space(3) [of y x] by (simp add: huge_space_of cs Int_commute)
    qed
  qed
  show "live ?a ?m ?G = run_live a m G \<union> huge_live h' (set hs)" by (simp add: live_huges run_live_def)
qed
subsection \<open>A new mapping\<close>

lemma huge_links_at:
  fixes h h' :: "addr \<rightharpoonup> huge_chunk_t"
  assumes "links_only S h h'" "h x = Some e"
  shows "h' x = Some (the (h' x))" "key (the (h' x)) = key e" "hlen (the (h' x)) = hlen e" "huge_of (the (h' x)) = huge_of e"
proof -
  obtain e' where e': "h' x = Some e'" "unlink e' = unlink e" using assms by (rule links_only_Some)
  have "key e' = key e" by (metis e'(2) unlink_simps(3))
  moreover have "hlen e' = hlen e" using arg_cong [OF e'(2), of hlen] by (simp add: unlink_def)
  ultimately show "h' x = Some (the (h' x))" "key (the (h' x)) = key e" "hlen (the (h' x)) = hlen e" "huge_of (the (h' x)) = huge_of e"
    using e'(1) by (simp_all add: huge_of_def)
qed

lemma huge_at:
  assumes "huge_part a m G" "x \<in> set (g_huges G)"
  shows "x \<noteq> 0" "huges m x = Some (the (huges m x))" "0 < key (the (huges m x))" "0 < hlen (the (huges m x))" "4096 dvd key (the (huges m x))" "key (the (huges m x)) + hlen (the (huges m x)) \<le> 2 ^ 47"
    "LARGE_SIZE_MAX_REGION < hlen (the (huges m x))" "4096 dvd hlen (the (huges m x))"
  using assms ll_list_node [of "huges m" "huge_alloc_list a" "g_huges G" x] by (auto simp: huge_part_def)

lemma inv_add_huge:
  assumes inv: "arena_inv mapped X a m G" and x: "x \<noteq> 0" "x \<notin> objects G" "has_meta G HUGE_CHUNK_T_SIZE x"
    and e: "0 < key e" "LARGE_SIZE_MAX_REGION < hlen e" "4096 dvd key e" "key e + hlen e \<le> 2 ^ 47" "4096 dvd hlen e" "huge_of e \<subseteq> mapped (world m) - pool_space (g_pools G)"
      "\<And>c. c \<in> set (g_chunks G) \<Longrightarrow> huge_of e \<inter> chunk_space m G c = {}" "\<And>y. y \<in> set (g_huges G) \<Longrightarrow> huge_of e \<inter> huge_space m y = {}"
  obtains h' where "ll_add ((huges m)(x \<mapsto> e)) (huge_alloc_list a) x = ret (x, h')" "h' x = Some (the (h' x))" "key (the (h' x)) = key e"
    "arena_inv mapped X (a\<lparr>huge_alloc_list := x\<rparr>) (m\<lparr>huges := h'\<rparr>) (with_huges (x # g_huges G) G)"
    "live (a\<lparr>huge_alloc_list := x\<rparr>) (m\<lparr>huges := h'\<rparr>) (with_huges (x # g_huges G) G) = insert (key e, hlen e) (live a m G)"
    "extends m G (m\<lparr>huges := h'\<rparr>) (with_huges (x # g_huges G) G)"
proof -
  note I = arena_invD [OF inv]
  note S = space_partD [OF I(7)]
  let ?h = "(huges m)(x \<mapsto> e)"
  have notin: "x \<notin> set (g_huges G)" "x \<notin> set (g_chunks G) \<union> all_runs G" using x(2) by (simp_all add: objects_def)
  have "ll_list ?h (huge_alloc_list a) (g_huges G)"
    using notin by (intro ll_list_frame [OF I(3) [unfolded huge_part_def, THEN conjunct1]]) auto
  then obtain h' where h': "ll_add ?h (huge_alloc_list a) x = ret (x, h')" "ll_list h' x (x # g_huges G)" "links_only (set (x # g_huges G)) ?h h'"
    using ll.add_law [of ?h "huge_alloc_list a" "g_huges G" x e] x(1) notin by auto
  have old: "key (the (h' y)) = key (the (huges m y))" "hlen (the (h' y)) = hlen (the (huges m y))" "huge_of (the (h' y)) = huge_of (the (huges m y))"
    if y: "y \<in> set (g_huges G)" for y
  proof -
    have "?h y = Some (the (huges m y))" using huge_at(2) [OF I(3) y] notin y by auto
    from huge_links_at [OF h'(3) this] show "key (the (h' y)) = key (the (huges m y))"
      "hlen (the (h' y)) = hlen (the (huges m y))" "huge_of (the (h' y)) = huge_of (the (huges m y))" by auto
  qed
  have "?h x = Some e" by simp
  note new = huge_links_at [OF h'(3) this]
  have of_old: "huge_of (the (h' y)) = huge_space m y" if "y \<in> set (g_huges G)" for y using old(3) [OF that] by (simp add: huge_space_of)
  have ok: "0 < key (the (h' y)) \<and> LARGE_SIZE_MAX_REGION < hlen (the (h' y)) \<and> 4096 dvd key (the (h' y)) \<and> key (the (h' y)) + hlen (the (h' y)) \<le> 2 ^ 47 \<and> 4096 dvd hlen (the (h' y)) \<and> has_meta G HUGE_CHUNK_T_SIZE y \<and> y \<notin> set (g_chunks G) \<union> all_runs G"
    if "y \<in> set (x # g_huges G)" for y
    using that x(3) e(1-5) new old [of y] huge_at [OF I(3), of y] notin(2) I(6) by (auto simp: object_part_def)
  have kept: "chunk_space m G c \<subseteq> mapped (world m)" if "c \<in> set (g_chunks G)" for c using S(2) [OF that] by blast
  have sub: "huge_of (the (h' y)) \<subseteq> mapped (world m) - pool_space (g_pools G)" if "y \<in> set (x # g_huges G)" for y
    using that e(6) new(4) of_old [of y] S(3) [of y] by auto
  have apart: "huge_of (the (h' y)) \<inter> huge_of (the (h' z)) = {}" if "y \<in> set (x # g_huges G)" "z \<in> set (x # g_huges G)" "y \<noteq> z" for y z
    using that e(8) [of y] e(8) [of z] new(4) of_old [of y] of_old [of z] S(5) [of y z] by (auto simp del: Int_iff simp: Int_commute)
  have chunk: "huge_of (the (h' y)) \<inter> chunk_space m G c = {}" if "y \<in> set (x # g_huges G)" "c \<in> set (g_chunks G)" for y c
    using that e(7) [of c] new(4) of_old [of y] S(6) [of c y] by (auto simp del: Int_iff simp: Int_commute)
  note set = inv_set_huges [OF inv h'(2) ok S(1) kept sub apart chunk, of "bytes m"]
  have "huge_live h' (set (x # g_huges G)) = insert (key e, hlen e) (huge_live (huges m) (set (g_huges G)))"
    using new(2,3) old(1,2) by (simp add: huge_live_def)
  then have "live (a\<lparr>huge_alloc_list := x\<rparr>) (m\<lparr>huges := h'\<rparr>) (with_huges (x # g_huges G) G) = insert (key e, hlen e) (live a m G)"
    using set(2) live_huges [of a m G] by simp
  moreover have "arena_inv mapped X (a\<lparr>huge_alloc_list := x\<rparr>) (m\<lparr>huges := h'\<rparr>) (with_huges (x # g_huges G) G)" using set(1) by simp
  moreover have "extends m G (m\<lparr>huges := h'\<rparr>) (with_huges (x # g_huges G) G)" using old(1,2) by (auto simp: extends_def)
  ultimately show thesis using that [OF h'(1) new(1,2)] by blast
qed
lemma HUGE_CHUNK_T_SIZE_le: "1 \<le> HUGE_CHUNK_T_SIZE" "HUGE_CHUNK_T_SIZE \<le> 4194304"
  by (simp_all add: HUGE_CHUNK_T_SIZE_def)

lemma live_mapped: "arena_inv mapped X a m G \<Longrightarrow> (p, s) \<in> live a m G \<Longrightarrow> p \<in> mapped (world m)"
  using live_space [of mapped X a m G p s] by (auto simp: subset_iff)

lemma allocate_huge_ok:
  assumes os: "os_contract os mapped" "CHUNK_SIZE_BYTES \<le> L" and serve: "P \<longrightarrow> provision os mapped L (Suc n) a m \<and> len \<le> L"
    and go: "goes P (arena_allocate_huge_mapping os a m len)" and brk: "brk_below B a"
    and inv: "arena_inv mapped X a m G" and len: "LARGE_SIZE_MAX_REGION < len" "4096 dvd len"
  obtains x q a' m' G' where "arena_allocate_huge_mapping os a m len = ret (x, a', m')" "load (huges m') x = ret (the (huges m' x))"
    "key (the (huges m' x)) = q" "0 < q" "q + len \<le> 2 ^ 47" "arena_inv mapped X a' m' G'" "brk_below B a'"
    "live a' m' G' = insert (q, len) (live a m G)" "(q, len) \<notin> live a m G" "bytes m' = bytes m" "bins a' = bins a" "extends m G m' G'" "x \<in> set (g_huges G')"
proof -
  have serve1: "P \<longrightarrow> provision os mapped L (Suc n) a m" using serve by blast
  have go1: "goes P (arena_internal_alloc os a m HUGE_CHUNK_T_SIZE)"
    using go by (rule goes_step) (simp_all add: arena_allocate_huge_mapping_def)
  obtain x s a1 m1 ps ts where r: "arena_internal_alloc os a m HUGE_CHUNK_T_SIZE = ret (x, a1, m1)" "x \<noteq> 0" "only_meta a m a1 m1" "brk_below B a1"
    "P \<longrightarrow> provision os mapped L n a1 m1" "arena_inv mapped X a1 m1 (G\<lparr>g_pools := ps, g_trees := ts\<rparr>)"
    "(x, s) \<in> meta_live ps ts" "HUGE_CHUNK_T_SIZE \<le> s" "x \<notin> objects G" "live a1 m1 (G\<lparr>g_pools := ps, g_trees := ts\<rparr>) = live a m G"
    using os serve1 go1 brk inv HUGE_CHUNK_T_SIZE_le by (rule inv_internal_alloc)
  have go2: "goes (provision os mapped L n a1 m1 \<and> len \<le> L) (arena_morecore os HUGE_ALLOC_PTR reset_huge_alloc_ptr_start len (\<lambda>_. MAX_USERSPACE_ADDR64) a1 m1)"
    using go by (rule goes_step) (use r(1,2,5) serve in \<open>simp_all add: arena_allocate_huge_mapping_def\<close>)
  have len0: "0 < len" using len(1) by simp
  let ?G1 = "G\<lparr>g_pools := ps, g_trees := ts\<rparr>"
  obtain q a2 g w where more: "arena_morecore os HUGE_ALLOC_PTR reset_huge_alloc_ptr_start len (\<lambda>_. MAX_USERSPACE_ADDR64) a1 m1 = ret (q, a2, m1\<lparr>prng := g, world := w\<rparr>)"
    "same_arena a1 a2" "brk_below B a2" "0 < q" "4096 dvd q" "q + len \<le> 2 ^ 47"
    "{q..<q + len} \<inter> mapped (world m1) = {}" "mapped w = mapped (world m1) \<union> {q..<q + len}"
    using os(1) len0 len(2) r(4) go2 by (rule morecore_huge_ok)
  define a3 where "a3 = (if q = huge_alloc_ptr a2 then a2\<lparr>huge_alloc_ptr := u64 (huge_alloc_ptr a2 + u64 (len + PAGE_SIZE))\<rparr> else a2)"
  let ?m2 = "m1\<lparr>prng := g, world := w\<rparr>" and ?e = "\<lparr>fd = 0, bk = 0, key = q, hlen = len\<rparr>"
  have a3: "same_arena a1 a3" "brk_below B a3" using more(2,3) by (simp_all add: a3_def)
  have le: "mapped (world m1) \<subseteq> mapped w" using more(8) by blast
  note grow = inv_grow [OF r(6) a3(1) refl le]
  have S: "{q..<q + len} \<inter> S = {}" if "S \<subseteq> mapped (world m1)" for S using that more(7) by blast
  note sp = space_partD [OF arena_invD(7) [OF r(6)]]
  have spaces: "chunk_space ?m2 ?G1 = chunk_space m1 ?G1" "huge_space ?m2 = huge_space m1"
    by (simp_all add: fun_eq_iff chunk_space_def huge_space_def)
  have e: "huge_of ?e = {q..<q + len}" by (simp add: huge_of_def)
  obtain h' where h': "ll_add ((huges ?m2)(x \<mapsto> ?e)) (huge_alloc_list a3) x = ret (x, h')" "h' x = Some (the (h' x))" "key (the (h' x)) = key ?e"
    "arena_inv mapped X (a3\<lparr>huge_alloc_list := x\<rparr>) (?m2\<lparr>huges := h'\<rparr>) (with_huges (x # g_huges ?G1) ?G1)"
    "live (a3\<lparr>huge_alloc_list := x\<rparr>) (?m2\<lparr>huges := h'\<rparr>) (with_huges (x # g_huges ?G1) ?G1) = insert (key ?e, hlen ?e) (live a3 ?m2 ?G1)"
    "extends ?m2 ?G1 (?m2\<lparr>huges := h'\<rparr>) (with_huges (x # g_huges ?G1) ?G1)"
  proof (rule inv_add_huge [OF grow(1) r(2)])
    show "x \<notin> objects ?G1" using r(9) by simp
    show "has_meta ?G1 HUGE_CHUNK_T_SIZE x" using r(7,8) by (auto simp: has_meta_def)
    have "{q..<q + len} \<inter> pool_space ps = {}" using S sp(1) by simp
    then show "huge_of ?e \<subseteq> mapped (world ?m2) - pool_space (g_pools ?G1)" unfolding e using more(8) by auto
    show "huge_of ?e \<inter> chunk_space ?m2 ?G1 c = {}" if "c \<in> set (g_chunks ?G1)" for c
      unfolding e spaces using sp(2) [OF that] by (intro S) blast
    show "huge_of ?e \<inter> huge_space ?m2 y = {}" if "y \<in> set (g_huges ?G1)" for y
      unfolding e spaces using sp(3) [OF that] by (intro S) blast
    show "0 < key ?e" "LARGE_SIZE_MAX_REGION < hlen ?e" "4096 dvd key ?e" "key ?e + hlen ?e \<le> 2 ^ 47" "4096 dvd hlen ?e" using more(4,5,6) len by simp_all
  qed (rule that)
  have list: "huge_alloc_list a3 = huge_alloc_list a1" "bins a3 = bins a" using same_arenaD [OF a3(1)] only_metaD [OF r(3)] by simp_all
  have run: "arena_allocate_huge_mapping os a m len = ret (x, a3\<lparr>huge_alloc_list := x\<rparr>, ?m2\<lparr>huges := h'\<rparr>)"
    using r(1,2) more(1) h'(1) by (simp add: arena_allocate_huge_mapping_def Let_def flip: a3_def)
  have "q \<in> {q..<q + len}" using len0 by simp
  then have "q \<notin> mapped (world m1)" using more(7) by blast
  then have fresh: "(q, len) \<notin> live a m G" using live_mapped [OF r(6)] r(10) by auto
  show thesis
  proof (rule that [OF run _ _ more(4,6) h'(4) _ _ fresh])
    show "live (a3\<lparr>huge_alloc_list := x\<rparr>) (?m2\<lparr>huges := h'\<rparr>) (with_huges (x # g_huges ?G1) ?G1) = insert (q, len) (live a m G)"
      using h'(5) grow(2) r(10) by simp
    have "extends m G ?m2 ?G1" using only_metaD [OF r(3)] by (intro extends_frame) simp_all
    then show "extends m G (?m2\<lparr>huges := h'\<rparr>) (with_huges (x # g_huges ?G1) ?G1)" using h'(6) by (rule extends_trans)
  qed (use r(2) h'(2,3) a3(2) list only_metaD [OF r(3)] in simp_all)
qed
subsection \<open>\<open>malloc\<close>\<close>

text \<open>The size of the region that a request gets.\<close>

definition region_size :: "nat \<Rightarrow> nat" where
  "region_size sz = (if sz = 0 then 16 else if IS_SIZE_HUGE sz then alignup_page64 sz else aligned_size sz)"

lemma alignup_page64_bounds:
  assumes "n + 4095 < 2 ^ 64"
  shows "n \<le> alignup_page64 n" "alignup_page64 n < n + 4096" "4096 dvd alignup_page64 n"
  using assms by (simp_all add: alignup_page64_eq)

lemma region_size_bounds:
  assumes "sz + 4095 < 2 ^ 64"
  shows "sz \<le> region_size sz" "16 \<le> region_size sz"
proof -
  have "sz \<le> region_size sz \<and> 16 \<le> region_size sz"
  proof (cases "sz = 0 \<or> IS_SIZE_HUGE sz")
    case True
    then show ?thesis
      using alignup_page64_bounds [OF assms] by (auto simp: region_size_def IS_SIZE_HUGE_def LARGE_SIZE_MAX_REGION_def)
  next
    case False
    then have "1 \<le> sz" "sz \<le> LARGE_SIZE_MAX_REGION" by (simp_all add: IS_SIZE_HUGE_def)
    then show ?thesis
      using aligned_size_least(1,2) [of sz] size_class_bounds [of "aligned_size sz"] False by (simp add: region_size_def)
  qed
  then show "sz \<le> region_size sz" "16 \<le> region_size sz" by simp_all
qed

lemma region_size_rounded:
  "region_size sz = (let z = (if sz = 0 then SMALL_SIZE_MIN_REGION else sz) in if IS_SIZE_HUGE z then alignup_page64 z else aligned_size z)"
proof -
  have "(16 :: nat) \<in> set small_classes" unfolding set_small_classes by (rule exI [of _ 0]) simp
  then have "aligned_size 16 = 16" by (intro aligned_size_fixed) (simp add: size_classes_def)
  then show ?thesis by (simp add: region_size_def IS_SIZE_HUGE_def size_consts)
qed

lemma sealloc_malloc_ok:
  assumes os: "os_contract os mapped" "CHUNK_SIZE_BYTES \<le> L" and serve: "P \<longrightarrow> provision os mapped L 771 a m \<and> sz + 4096 \<le> L"
    and go: "goes P (sealloc_malloc os a m sz)" and brk: "brk_below B a"
    and inv: "arena_inv mapped {} a m G" and sz: "sz + 4096 \<le> 2 ^ 64"
  obtains p a' m' G' where "sealloc_malloc os a m sz = ret (p, a', m')" "p \<noteq> 0" "arena_inv mapped {} a' m' G'" "brk_below B a'"
    "live a' m' G' = insert (p, region_size sz) (live a m G)" "(p, region_size sz) \<notin> live a m G"
    "bytes m' = bytes m" "extends m G m' G'"
proof -
  let ?z = "if sz = 0 then SMALL_SIZE_MIN_REGION else sz"
  have z: "region_size sz = (if IS_SIZE_HUGE ?z then alignup_page64 ?z else aligned_size ?z)" "sz + 4095 < 2 ^ 64" "1 \<le> ?z"
    using region_size_rounded [of sz] sz by (simp_all add: SMALL_SIZE_MIN_REGION_def)
  show thesis
  proof (cases "IS_SIZE_HUGE ?z")
    case True
    then have zz: "?z = sz" by (auto simp: IS_SIZE_HUGE_def size_consts split: if_splits)
    note al = alignup_page64_bounds [OF z(2)]
    have len: "LARGE_SIZE_MAX_REGION < alignup_page64 sz" using al(1) True zz by (simp add: IS_SIZE_HUGE_def)
    have s: "P \<longrightarrow> provision os mapped L (Suc 0) a m \<and> alignup_page64 sz \<le> L" using serve al(2) by (auto intro: supplied_mono)
    have go1: "goes P (arena_allocate_huge_mapping os a m (alignup_page64 sz))"
      using go by (rule goes_step) (use True zz in \<open>simp_all add: sealloc_malloc_def Let_def\<close>)
    obtain x q a' m' G' where R: "arena_allocate_huge_mapping os a m (alignup_page64 sz) = ret (x, a', m')" "load (huges m') x = ret (the (huges m' x))"
      "key (the (huges m' x)) = q" "0 < q" "q + alignup_page64 sz \<le> 2 ^ 47" "arena_inv mapped {} a' m' G'" "brk_below B a'"
      "live a' m' G' = insert (q, alignup_page64 sz) (live a m G)" "(q, alignup_page64 sz) \<notin> live a m G" "bytes m' = bytes m" "bins a' = bins a" "extends m G m' G'"
      by (rule allocate_huge_ok [OF os s go1 brk inv len al(3)]) (rule that)
    have run: "sealloc_malloc os a m sz = ret (q, a', m')"
      using True zz R(1-3) by (simp add: sealloc_malloc_def Let_def del: load_ret_iff)
    show thesis by (rule that [OF run _ R(6,7)]) (use R True zz z(1) in simp_all)
  next
    case False
    have zr: "1 \<le> ?z" "?z \<le> LARGE_SIZE_MAX_REGION" using z(3) False by (simp_all add: IS_SIZE_HUGE_def)
    note c = aligned_size_least(1) [OF zr]
    have u: "u32 (aligned_size ?z) = aligned_size ?z" using size_class_bounds [OF c] by (simp add: wrap_simps)
    have s: "P \<longrightarrow> provision os mapped L (768 + (3 + 0)) a m" using serve by simp
    have go1: "goes P (prepared_bin os a m (aligned_size ?z))"
      using go by (rule goes_step) (use False u in \<open>simp_all add: sealloc_malloc_def Let_def split: if_splits\<close>)
    obtain i a1 m1 G1 where P: "prepared_bin os a m (aligned_size ?z) = ret ((True, i), a1, m1)" "i < ARENA_NO_BINS" "arena_inv mapped {} a1 m1 G1" "brk_below B a1"
      "P \<longrightarrow> provision os mapped L (3 + 0) a1 m1" "live a1 m1 G1 = live a m G"
      "bin_rep (bins a1 ! i) (runs m1) (g_act G1 i) (g_inact G1 i)" "bin_index (reg_size (bins a1 ! i)) = i"
      "reg_size (bins a1 ! i) = aligned_size ?z" "0 < avail_regs (bins a1 ! i)" "bytes m1 = bytes m" "extends m G m1 G1"
      by (rule prepared_bin_ok [OF os c s go1 brk inv]) (rule that)
    have go2: "goes P (sealloc_allocate_with_bin os a1 m1 i)"
      using go by (rule goes_step) (use False P(1) u in \<open>simp_all add: sealloc_malloc_def Let_def split: if_splits\<close>)
    obtain p a' m' G' where A: "sealloc_allocate_with_bin os a1 m1 i = ret (p, a', m')" "p \<noteq> 0" "arena_inv mapped {} a' m' G'" "brk_below B a'"
      "P \<longrightarrow> provision os mapped L 0 a' m'" "live a' m' G' = insert (p, reg_size (bins a1 ! i)) (live a1 m1 G1)" "(p, reg_size (bins a1 ! i)) \<notin> live a1 m1 G1"
      "bytes m' = bytes m1" "extends m1 G1 m' G'"
      by (rule allocate_with_bin_ok [OF os P(2,5) go2 P(4,3,7,8,10)]) (rule that)
    have run: "sealloc_malloc os a m sz = ret (p, a', m')"
      using False P(1) A(1) u by (simp add: sealloc_malloc_def Let_def del: split_paired_All split: if_splits)
    show thesis by (rule that [OF run A(2-4)]) (use A P False z(1) extends_trans [OF P(12) A(9)] in simp_all)
  qed
qed

end
