(* ===== verification/Arena_Free.thy ===== *)
theory Arena_Free
  imports Arena_Huge
begin

text \<open>
  Deallocation on a well-formed arena: how \<open>src/src/sealloc.c\<close> finds the chunk, the run and
  the bin, or the huge mapping of a pointer, and that \<open>free\<close> of a live region removes exactly
  that region while every other pointer of a run or chunk aborts.
\<close>

subsection \<open>The chunk of a pointer\<close>

lemma sint64:
  assumes "p < 2 ^ 64"
  shows "sint (of_nat p :: 64 word) = (if p < 2 ^ 63 then int p else int p - 2 ^ 64)"
proof (cases "p < 2 ^ 63")
  case True
  then show ?thesis using sint_diff [of 0 p] by simp
next
  case False
  have "take_bit 64 (int p) = take_bit 64 (int p - 2 ^ 64)"
    unfolding take_bit_eq_mod by (rule minus_mod_self2 [symmetric])
  then have "(word_of_int (int p) :: 64 word) = word_of_int (int p - 2 ^ 64)"
    unfolding word_of_int_eq_iff by simp
  then have "(of_nat p :: 64 word) = word_of_int (int p - 2 ^ 64)" by simp
  also have "sint \<dots> = int p - 2 ^ 64"
    using assms False by (subst sint_sbintrunc') (simp add: signed_take_bit_int_eq_self)
  finally show ?thesis using False by simp
qed

lemma signed_range:
  assumes "p < 2 ^ 64" "k + CHUNK_SIZE_BYTES \<le> 2 ^ 47"
  shows "sint (of_nat k :: 64 word) \<le> sint (of_nat p :: 64 word) \<and> sint (of_nat p :: 64 word) < sint (of_nat k :: 64 word) + int CHUNK_SIZE_BYTES
     \<longleftrightarrow> k \<le> p \<and> p < k + CHUNK_SIZE_BYTES"
proof -
  have "k < 2 ^ 63" using assms(2) by simp
  then show ?thesis using sint64 [of k] sint64 [OF assms(1)] assms by (cases "p < 2 ^ 63") auto
qed
text \<open>Where a lookup in a chunk succeeds: in the first 16 KiB of a block in use.\<close>

definition in_first_leaf :: "chunk_t \<Rightarrow> nat \<Rightarrow> addr \<Rightarrow> bool" where
  "in_first_leaf c n p \<longleftrightarrow> block_ptr c n \<le> p \<and> p < block_ptr c n + CHUNK_LEAST_REGION_SIZE_BYTES"

definition noted_size :: "(nat \<rightharpoonup> nat) \<Rightarrow> nat \<Rightarrow> nat" where
  "noted_size A n = (if CHUNK_IS_LEAF n \<and> A n \<noteq> Some CHUNK_LEAST_REGION_SIZE_BYTES then the (A n) else 0)"

lemma first_leaf_in_block:
  assumes "chunk_inv c A D" "n \<in> dom A" "in_first_leaf c n p"
  shows "p \<in> block_range c n" "key c \<le> p" "p < key c + CHUNK_SIZE_BYTES"
proof -
  obtain j where j: "j \<le> 11" "n \<in> lev (11 - j)" using block_level [OF assms(1), of n] assms(2) by auto
  have "CHUNK_LEAST_REGION_SIZE_BYTES \<le> block_size n" using block_place(1) [OF j(2,1)] by simp
  then show p: "p \<in> block_range c n" using assms(3) by (auto simp: in_first_leaf_def block_range_def)
  show "key c \<le> p" "p < key c + CHUNK_SIZE_BYTES" using p block_in_chunk(1) [OF assms(1,2)] by auto
qed

lemma get_run_ptr_hit:
  assumes "chunk_inv c A D" "n \<in> dom A" "in_first_leaf c n p"
  shows "chunk_get_run_ptr c p = ret (block_ptr c n, block_size n, noted_size A n)"
proof -
  note r = first_leaf_in_block [OF assms]
  have "n \<in> {1..4095}" using chunk_invD(3) [OF assms(1)] assms(2) by auto
  then have "Min (leaves n) = 2048 + (p - key c) div 16384" using first_leaf_iff [of n c p] r(2) assms(3) by (simp add: in_first_leaf_def)
  then show ?thesis unfolding noted_size_def by (rule chunk_get_run_ptr_eq(1) [OF assms(1) r(2,3) assms(2)])
qed

lemma get_run_ptr_miss:
  assumes "chunk_inv c A D" "key c \<le> p" "p < key c + CHUNK_SIZE_BYTES" "\<And>n. n \<in> dom A \<Longrightarrow> \<not> in_first_leaf c n p"
  shows "chunk_get_run_ptr c p = ret (0, 0, 0)"
proof (rule chunk_get_run_ptr_eq(2) [OF assms(1-3)])
  show "Min (leaves n) \<noteq> 2048 + (p - key c) div 16384" if "n \<in> dom A" for n
    using first_leaf_iff [of n c p] chunk_invD(3) [OF assms(1)] that assms(2) assms(4) [OF that] by (auto simp: in_first_leaf_def)
qed

text \<open>The alternation of the two loops from a list position on.\<close>

definition locate_from :: "arena_t \<Rightarrow> 'w mem \<Rightarrow> addr \<Rightarrow> addr \<Rightarrow> (addr \<times> addr \<times> nat \<times> nat) res" where
  "locate_from a m p start = bindR (chunk_of_loop (chunks m) p start) (locate_loop a m p)"

lemma locate_from_Nil: "locate_from a m p 0 = ret (0, 0, 0, 0)"
  by (simp add: locate_from_def chunk_of_loop.simps locate_loop.simps)

lemma locate_from_Cons:
  assumes x: "x \<noteq> 0" "chunks m x = Some e" and p: "p < 2 ^ 64" "key e + CHUNK_SIZE_BYTES \<le> 2 ^ 47"
    and run: "key e \<le> p \<Longrightarrow> p < key e + CHUNK_SIZE_BYTES \<Longrightarrow> chunk_get_run_ptr e p = ret (q, s, rs)"
  shows "locate_from a m p x = (if key e \<le> p \<and> p < key e + CHUNK_SIZE_BYTES \<and> q \<noteq> 0 then ret (x, q, s, rs) else locate_from a m p (fd e))"
proof (cases "key e \<le> p \<and> p < key e + CHUNK_SIZE_BYTES")
  case True
  have 1: "chunk_of_loop (chunks m) p x = ret x"
    using True x signed_range [OF p] by (subst chunk_of_loop.simps) (simp add: Let_def)
  have "locate_loop a m p x = (if q \<noteq> 0 then ret (x, q, s, rs) else locate_from a m p (fd e))"
    using x run True by (subst locate_loop.simps) (simp add: arena_get_chunk_from_ptr_def locate_from_def)
  then show ?thesis using True by (simp add: locate_from_def 1)
next
  case False
  have "chunk_of_loop (chunks m) p x = chunk_of_loop (chunks m) p (fd e)"
    using False x signed_range [OF p] by (subst chunk_of_loop.simps) (auto simp: Let_def)
  then show ?thesis using False by (auto simp: locate_from_def)
qed

lemma locate_from_miss:
  assumes c: "chunk_part a m G" and p: "p < 2 ^ 64"
  shows "dseg (chunks m) pr s xs l 0 \<Longrightarrow> set xs \<subseteq> set (g_chunks G) \<Longrightarrow>
     (\<And>x n. x \<in> set xs \<Longrightarrow> n \<in> dom (g_used G x) \<Longrightarrow> \<not> in_first_leaf (the (chunks m x)) n p) \<Longrightarrow> locate_from a m p s = ret (0, 0, 0, 0)"
proof (induction xs arbitrary: pr s)
  case Nil
  then show ?case by (simp add: locate_from_Nil)
next
  case (Cons x xs)
  then obtain e where e: "s = x" "x \<noteq> 0" "chunks m x = Some e" "dseg (chunks m) x (fd e) xs l 0" by (auto split: option.splits)
  have x: "x \<in> set (g_chunks G)" using Cons.prems(2) by simp
  have ex: "the (chunks m x) = e" using e(3) by simp
  note ch = chunk_of [OF c x, unfolded ex]
  have miss: "\<not> in_first_leaf e n p" if "n \<in> dom (g_used G x)" for n using Cons.prems(3) [of x n] that ex by simp
  have "locate_from a m p (fd e) = ret (0, 0, 0, 0)" using Cons.prems(2,3) by (intro Cons.IH [OF e(4)]) auto
  then show ?case
    using locate_from_Cons [OF e(2,3) p ch(4), of 0 0 0 a] get_run_ptr_miss [OF ch(3) _ _ miss] e(1) by simp
qed

lemma locate_from_hit:
  assumes inv: "arena_inv mapped X a m G" and p: "p < 2 ^ 64" and n: "(y, n) \<in> blocks G" "in_first_leaf (the (chunks m y)) n p"
  shows "dseg (chunks m) pr s xs l 0 \<Longrightarrow> set xs \<subseteq> set (g_chunks G) \<Longrightarrow> y \<in> set xs \<Longrightarrow>
     locate_from a m p s = ret (y, block_ptr (the (chunks m y)) n, block_size n, noted_size (g_used G y) n)"
proof (induction xs arbitrary: pr s)
  case (Cons x xs)
  then obtain e where e: "s = x" "x \<noteq> 0" "chunks m x = Some e" "dseg (chunks m) x (fd e) xs l 0" by (auto split: option.splits)
  note c = arena_invD(2) [OF inv]
  have y: "y \<in> set (g_chunks G)" "n \<in> dom (g_used G y)" using n(1) by (simp_all add: blocks_def)
  note py = first_leaf_in_block [OF chunk_of(3) [OF c y(1)] y(2) n(2)]
  have x: "x \<in> set (g_chunks G)" using Cons.prems(2) by simp
  have ex: "the (chunks m x) = e" using e(3) by simp
  note ch = chunk_of [OF c x, unfolded ex]
  show ?case
  proof (cases "x = y")
    case True
    note y' = y(2) [folded True] n(2) [folded True, unfolded ex]
    note get = get_run_ptr_hit [OF ch(3) y']
    have "0 < key e" using chunk_invD(1) [OF ch(3)] .
    then have "block_ptr e n \<noteq> 0" by (simp add: block_ptr_def)
    then show ?thesis
      using locate_from_Cons [OF e(2,3) p ch(4) get, of a] first_leaf_in_block [OF ch(3) y'] e(1) True ex by simp
  next
    case False
    have miss: "\<not> in_first_leaf e k p" if k: "k \<in> dom (g_used G x)" for k
    proof
      assume "in_first_leaf e k p"
      then have "p \<in> block_range e k" by (rule first_leaf_in_block(1) [OF ch(3) k])
      moreover have "block_range e k \<inter> block_range (the (chunks m y)) n = {}"
        using blocks_apart [OF inv _ n(1), of x k] False k x by (auto simp: ex blocks_def)
      ultimately show False using py(1) by blast
    qed
    have "y \<in> set xs" using Cons.prems(3) False by simp
    then have "locate_from a m p (fd e) = ret (y, block_ptr (the (chunks m y)) n, block_size n, noted_size (g_used G y) n)"
      using Cons.prems(2) by (intro Cons.IH [OF e(4)]) auto
    then show ?thesis
      using locate_from_Cons [OF e(2,3) p ch(4), of 0 0 0 a] get_run_ptr_miss [OF ch(3) _ _ miss] e(1) by simp
  qed
qed simp
subsection \<open>The metadata of a pointer\<close>

lemma region_in_first_leaf:
  assumes "run_inv b r" "run_abs b r p = Some s" "key r = block_ptr c n"
  shows "in_first_leaf c n p"
proof -
  note wf = run_invD(2) [OF assms(1)]
  note nr = bin_wf_regions [OF wf]
  obtain k where k: "k < regions b" "p = region_addr r b k" using assms(2) wf by (rule run_absE)
  have "k * reg_size b < 16384"
  proof (cases "reg_size b \<le> 8192")
    case True
    then have "regions b * reg_size b \<le> 16384" using nr(1) by (simp add: class_regions_def)
    moreover have "k * reg_size b < regions b * reg_size b" using k(1) nr(4) by simp
    ultimately show ?thesis by (rule less_le_trans [rotated])
  next
    case False
    then show ?thesis using k(1) nr(1) by (simp add: class_regions_def)
  qed
  then show ?thesis using k(2) assms(3) by (simp add: in_first_leaf_def region_addr_def chunk_consts)
qed

text \<open>The size class is read off the chunk: the noted size of a leaf, or else the block size.\<close>

lemma noted_class:
  assumes "bin_wf b" "n \<in> {1..4095}" "block_size n = run_size_pages b * 4096" "A n = Some (reg_size b)"
  shows "(if 0 < noted_size A n then noted_size A n else block_size n) = reg_size b"
proof -
  have c: "reg_size b \<in> set size_classes" "run_size_pages b = class_pages (reg_size b)" using assms(1) by (simp_all add: bin_wf_def)
  have bytes: "block_size n = (if reg_size b \<le> 8192 then 16384 else reg_size b)" unfolding assms(3) c(2) by (rule class_run_bytes [OF c(1)])
  obtain L where L: "L \<le> 11" "n \<in> lev L" using level_of [of n] assms(2) by auto
  have leaf: "CHUNK_IS_LEAF n \<longleftrightarrow> block_size n = 16384"
    using leaf_iff [OF L(2,1)] block_of(1) [OF L(2,1)] L(1) by (cases "L = 11") auto
  have pos: "0 < reg_size b" using size_class_bounds [OF c(1)] by simp
  show ?thesis
  proof (cases "reg_size b \<le> 8192")
    case True
    then show ?thesis using leaf bytes assms(4) pos by (simp add: noted_size_def chunk_consts)
  next
    case False
    then show ?thesis using leaf bytes assms(4) by (simp add: noted_size_def chunk_consts)
  qed
qed

lemma get_bin_same:
  assumes "bin_part a m G" "i < ARENA_NO_BINS" "bin_index (reg_size (bins a ! i)) = i" "bin_wf (bins a ! i)"
  shows "arena_get_bin_by_reg_size a (reg_size (bins a ! i)) = ret (i, a)"
proof -
  have "i < length (bins a)" using assms(1,2) by (simp add: bin_part_def)
  then show ?thesis using assms(3) bin_wf_regions(4) [OF assms(4)] by (simp add: arena_get_bin_by_reg_size_def arr_get_def Let_def)
qed

lemma chunk_list_seg:
  assumes "chunk_part a m G"
  obtains l where "dseg (chunks m) 0 (chunk_list a) (g_chunks G) l 0"
  using assms by (auto simp: chunk_part_def ll_list_alt)

lemma locate_block:
  assumes inv: "arena_inv mapped X a m G" and i: "i < ARENA_NO_BINS" "x \<in> bin_runs G i" and h: "g_home G x = (c, n)"
    and p: "p < 2 ^ 64" "in_first_leaf (the (chunks m c)) n p"
  shows "locate_metadata_for_ptr a m p = ret (METADATA_REGULAR c x i, a)"
proof -
  note I = arena_invD [OF inv]
  have hm: "(c, n) \<in> blocks G" "key (the (runs m x)) = block_ptr (the (chunks m c)) n"
    "block_size n = run_size_pages (bins a ! i) * 4096" "g_used G c n = Some (reg_size (bins a ! i))"
    using run_home [OF I(5) i] h by (metis prod.inject)+
  have c: "c \<in> set (g_chunks G)" "n \<in> dom (g_used G c)" using hm(1) by (simp_all add: blocks_def)
  note rep = bin_of_run [OF I(4) i]
  note wf = bin_repD(1) [OF rep(1)]
  obtain l where seg: "dseg (chunks m) 0 (chunk_list a) (g_chunks G) l 0" using I(2) by (rule chunk_list_seg)
  have loc: "locate_from a m p (chunk_list a) = ret (c, block_ptr (the (chunks m c)) n, block_size n, noted_size (g_used G c) n)"
    by (rule locate_from_hit [OF inv p(1) hm(1) p(2) seg subset_refl c(1)])
  have "n \<in> {1..4095}" using chunk_invD(3) [OF chunk_of(3) [OF I(2) c(1)]] c(2) by auto
  note size = noted_class [where A = "g_used G c", OF wf this hm(3,4)]
  have run: "bin_get_run_by_addr (bins a ! i) (runs m) (block_ptr (the (chunks m c)) n) = ret x"
    using i(2) hm(2) by (intro bin_get_run_by_addr_ok(1) [OF rep(1)]) (simp_all add: bin_runs_def)
  have len: "i < length (bins a)" using I(4) i(1) by (simp add: bin_part_def)
  have "c \<noteq> 0" using chunk_of(1) [OF I(2) c(1)] .
  then show ?thesis
    using loc run len get_bin_same [OF I(4) i(1) rep(2) wf] size
    by (simp add: locate_metadata_for_ptr_def arena_get_chunk_from_ptr_def locate_from_def arr_get_def flip: bindR_assoc)
qed

lemma locate_outside:
  assumes inv: "arena_inv mapped X a m G" and p: "p < 2 ^ 64" "\<And>c n. (c, n) \<in> blocks G \<Longrightarrow> \<not> in_first_leaf (the (chunks m c)) n p"
  shows "locate_metadata_for_ptr a m p = bindR (arena_find_huge_mapping a m p) (\<lambda>huge.
    ret (if huge = 0 then METADATA_INVALID else METADATA_HUGE huge, a))"
proof -
  note I = arena_invD [OF inv]
  obtain l where seg: "dseg (chunks m) 0 (chunk_list a) (g_chunks G) l 0" using I(2) by (rule chunk_list_seg)
  have "locate_from a m p (chunk_list a) = ret (0, 0, 0, 0)"
    by (rule locate_from_miss [OF I(2) p(1) seg subset_refl]) (use p(2) in \<open>auto simp: blocks_def\<close>)
  then show ?thesis
    by (simp add: locate_metadata_for_ptr_def arena_get_chunk_from_ptr_def locate_from_def flip: bindR_assoc)
qed

end
