(* ===== verification/Arena_Drop.thy ===== *)
theory Arena_Drop
  imports Arena_Free
begin

text \<open>
  What deallocation takes apart: the metadata of an object that is on no list any more, the
  block of a run, a whole chunk. Each step keeps the invariant of the arena and the live regions.
\<close>

subsection \<open>Metadata\<close>

text \<open>Only the objects on the lists matter.\<close>

lemma inv_agree:
  assumes inv: "arena_inv mapped X a m G" and G': "G' = G\<lparr>g_trees := ts\<rparr>" and pool: "pool_part a m' G'"
    and meta: "\<And>x s. x \<in> objects G \<Longrightarrow> (x, s) \<in> metas G \<Longrightarrow> (x, s) \<in> metas G'" "world m' = world m"
    and same: "\<And>x. x \<in> objects G \<Longrightarrow> chunks m' x = chunks m x \<and> huges m' x = huges m x \<and> runs m' x = runs m x"
  shows "arena_inv mapped X a m' G'" "live a m' G' = live a m G"
proof -
  note I = arena_invD [OF inv]
  have [simp]: "g_chunks G' = g_chunks G" "g_used G' = g_used G" "g_gone G' = g_gone G" "g_huges G' = g_huges G" "g_home G' = g_home G"
    "g_act G' = g_act G" "g_inact G' = g_inact G" "g_pools G' = g_pools G" "bin_runs G' = bin_runs G" "all_runs G' = all_runs G" "blocks G' = blocks G"
    by (simp_all add: G' bin_runs_def all_runs_def blocks_def fun_eq_iff)
  have ch: "chunks m' x = chunks m x" if "x \<in> set (g_chunks G)" for x using same [of x] that by (simp add: objects_def)
  have hu: "huges m' x = huges m x" if "x \<in> set (g_huges G)" for x using same [of x] that by (simp add: objects_def)
  have ru: "runs m' x = runs m x" if "i < ARENA_NO_BINS" "x \<in> bin_runs G i" for i x using same [of x] that by (auto simp: objects_def all_runs_def)
  show "arena_inv mapped X a m' G'" unfolding arena_inv_def
  proof (intro conjI)
    show "pool_part a m' G'" by (rule pool)
    have "ll_list (chunks m') (chunk_list a) (g_chunks G)"
      by (rule ll_list_frame [OF I(2) [unfolded chunk_part_def, THEN conjunct1]]) (simp add: ch)
    then show "chunk_part a m' G'" using I(2) ch by (simp add: chunk_part_def)
    have "ll_list (huges m') (huge_alloc_list a) (g_huges G)"
      by (rule ll_list_frame [OF I(3) [unfolded huge_part_def, THEN conjunct1]]) (simp add: hu)
    then show "huge_part a m' G'" using I(3) hu by (simp add: huge_part_def)
    have "bin_slot (bins a ! j) (runs m') (g_act G j) (g_inact G j) j" if j: "j < ARENA_NO_BINS" for j
    proof -
      have "bin_slot (bins a ! j) (runs m) (g_act G j) (g_inact G j) j" using I(4) j by (simp add: bin_part_def)
      moreover have "bin_rep (bins a ! j) (runs m') (g_act G j) (g_inact G j)" if "bin_rep (bins a ! j) (runs m) (g_act G j) (g_inact G j)"
        using that by (rule bin_rep_cong) (use ru [OF j] in \<open>simp add: bin_runs_def\<close>)
      ultimately show ?thesis unfolding bin_slot_def by blast
    qed
    then show "bin_part a m' G'" using I(4) by (simp add: bin_part_def)
    have "at_home a m' G' i x" if x: "i < ARENA_NO_BINS" "x \<in> bin_runs G i" for i x
    proof -
      obtain c n where h: "g_home G x = (c, n)" "(c, n) \<in> blocks G" using run_home [OF I(5) x] by metis
      have "chunks m' c = chunks m c" using h(2) ch by (simp add: blocks_def)
      moreover have "at_home a m G i x" using I(5) x by (simp add: link_part_def)
      ultimately show ?thesis using ru [OF x] h(1) by (simp add: at_home_def)
    qed
    then show "link_part X a m' G'" using I(5) by (simp add: link_part_def)
    have keep: "has_meta G' k x" if "x \<in> objects G" "has_meta G k x" for k x
      using that meta(1) unfolding has_meta_def by blast
    have "x \<in> objects G" if "i < ARENA_NO_BINS" "x \<in> bin_runs G i" for i x using that by (auto simp: objects_def all_runs_def)
    moreover have "set (g_chunks G) \<subseteq> objects G" "set (g_huges G) \<subseteq> objects G" by (auto simp: objects_def)
    ultimately show "object_part a G'" using I(6) keep by (simp add: object_part_def subset_iff)
    have "chunk_space m' G' x = chunk_space m G x" if "x \<in> set (g_chunks G)" for x using ch [OF that] by (simp add: chunk_space_def)
    moreover have "huge_space m' x = huge_space m x" if "x \<in> set (g_huges G)" for x using hu [OF that] by (simp add: huge_space_def)
    ultimately show "space_part (mapped (world m')) m' G'"
      using I(7) meta(2) by (simp add: space_part_def disjoint_family_on_def)
  qed
  have "bin_live (bins a ! j) (runs m') (bin_runs G j) = bin_live (bins a ! j) (runs m) (bin_runs G j)" if "j < ARENA_NO_BINS" for j
    by (rule bin_live_cong) (rule ru [OF that])
  then show "live a m' G' = live a m G" using hu by (simp add: live_huges run_live_def huge_live_def)
qed
lemma inv_free_meta:
  assumes inv: "arena_inv mapped X a m G" and y: "y \<notin> objects G" "has_meta G k y"
  obtains h' ts where "arena_internal_free a m y = ret (forget y (m\<lparr>ias := h'\<rparr>))"
    "arena_inv mapped X a (forget y (m\<lparr>ias := h'\<rparr>)) (G\<lparr>g_trees := ts\<rparr>)" "live a (forget y (m\<lparr>ias := h'\<rparr>)) (G\<lparr>g_trees := ts\<rparr>) = live a m G"
    "\<And>z l. z \<noteq> y \<Longrightarrow> has_meta G l z \<Longrightarrow> has_meta (G\<lparr>g_trees := ts\<rparr>) l z"
proof -
  note I = arena_invD [OF inv]
  obtain s where s: "(y, s) \<in> metas G" using y(2) by (auto simp: has_meta_def)
  obtain h' ts' where f: "arena_internal_free a m y = ret (forget y (m\<lparr>ias := h'\<rparr>))"
    "pools_ok h' (internal_alloc_list a) (g_pools G) ts'" "meta_live (g_pools G) ts' = metas G - {(y, s)}"
    by (rule arena_internal_free_ok [OF I(1) [unfolded pool_part_def] s]) (rule that)
  have pool: "pool_part a (forget y (m\<lparr>ias := h'\<rparr>)) (G\<lparr>g_trees := ts'\<rparr>)" using f(2) by (simp add: pool_part_def forget_def)
  have ne: "x \<noteq> y" if "x \<in> objects G" for x using that y(1) by blast
  have keep: "(x, t) \<in> metas (G\<lparr>g_trees := ts'\<rparr>)" if "x \<in> objects G" "(x, t) \<in> metas G" for x t
    using that f(3) ne by auto
  show thesis
  proof (rule that [OF f(1)])
    show "arena_inv mapped X a (forget y (m\<lparr>ias := h'\<rparr>)) (G\<lparr>g_trees := ts'\<rparr>)"
      by (rule inv_agree(1) [OF inv refl pool keep]) (use ne in \<open>auto simp: forget_def\<close>)
    show "live a (forget y (m\<lparr>ias := h'\<rparr>)) (G\<lparr>g_trees := ts'\<rparr>) = live a m G"
      by (rule inv_agree(2) [OF inv refl pool keep]) (use ne in \<open>auto simp: forget_def\<close>)
    show "has_meta (G\<lparr>g_trees := ts'\<rparr>) l z" if "z \<noteq> y" "has_meta G l z" for z l
      using that f(3) by (auto simp: has_meta_def)
  qed
qed
subsection \<open>The block of a run\<close>

definition without_block :: "addr \<Rightarrow> nat \<Rightarrow> ghost \<Rightarrow> ghost" where
  "without_block x n G = G\<lparr>g_used := (g_used G)(x := (g_used G x)(n := None)), g_gone := (g_gone G)(x := insert n (g_gone G x))\<rparr>"

lemma without_block_simps [simp]:
  "g_pools (without_block x n G) = g_pools G" "g_trees (without_block x n G) = g_trees G" "g_chunks (without_block x n G) = g_chunks G"
  "g_huges (without_block x n G) = g_huges G" "g_home (without_block x n G) = g_home G" "g_act (without_block x n G) = g_act G"
  "g_inact (without_block x n G) = g_inact G" "bin_runs (without_block x n G) = bin_runs G" "all_runs (without_block x n G) = all_runs G"
  "objects (without_block x n G) = objects G" "has_meta (without_block x n G) = has_meta G"
  "g_used (without_block x n G) y = (if y = x then (g_used G x)(n := None) else g_used G y)"
  "g_gone (without_block x n G) y = (if y = x then insert n (g_gone G x) else g_gone G y)"
  by (simp_all add: without_block_def bin_runs_def all_runs_def objects_def has_meta_def fun_eq_iff)

lemma inv_drop_block:
  assumes inv: "arena_inv mapped {(x, n)} a m G" and x: "(x, n) \<in> blocks G"
    and c: "chunk_inv c ((g_used G x)(n := None)) (insert n (g_gone G x))" "key c = key (the (chunks m x))" "fd c = fd (the (chunks m x))" "bk c = bk (the (chunks m x))"
    and w: "mapped w = mapped (world m) - block_range (the (chunks m x)) n"
  shows "arena_inv mapped {} a (m\<lparr>chunks := (chunks m)(x \<mapsto> c), world := w\<rparr>) (without_block x n G)" (is "arena_inv _ _ _ ?m ?G")
    "live a (m\<lparr>chunks := (chunks m)(x \<mapsto> c), world := w\<rparr>) (without_block x n G) = live a m G"
proof -
  note I = arena_invD [OF inv] and S = space_partD [OF arena_invD(7) [OF inv]]
  let ?R = "block_range (the (chunks m x)) n"
  have xn: "x \<in> set (g_chunks G)" "n \<in> dom (g_used G x)" using x by (simp_all add: blocks_def)
  show "live a ?m ?G = live a m G" by (rule live_cong) simp_all
  have same: "key (the (chunks ?m y)) = key (the (chunks m y))" "block_ptr (the (chunks ?m y)) = block_ptr (the (chunks m y))"
    "block_range (the (chunks ?m y)) = block_range (the (chunks m y))" for y
    using c(2) by (simp_all add: fun_eq_iff block_ptr_def block_range_def)
  have R: "?R \<subseteq> chunk_space m G x"
    unfolding chunk_space_def by (rule block_in_chunk(1) [OF chunk_of(3) [OF I(2) xn(1)] xn(2)])
  have sp: "chunk_space ?m ?G y = (if y = x then chunk_space m G x - ?R else chunk_space m G y)" for y
    unfolding chunk_space_def same by auto
  have hs: "huge_space ?m = huge_space m" by (simp add: fun_eq_iff huge_space_def)
  have blocks: "blocks ?G = blocks G - {(x, n)}" by (auto simp: blocks_def split: if_splits)
  show "arena_inv mapped {} a ?m ?G" unfolding arena_inv_def
  proof (intro conjI)
    show "pool_part a ?m ?G" using I(1) by (simp add: pool_part_def)
    have "ll_list ((chunks m)(x \<mapsto> c)) (chunk_list a) (g_chunks G)"
      using I(2) chunk_of(2) [OF I(2) xn(1)] c(3,4) xn(1) by (intro ll_list_upd) (auto simp: chunk_part_def)
    then show "chunk_part a ?m ?G" using c(1,2) chunk_of(3,4,5) [OF I(2)] xn(1) by (simp add: chunk_part_def)
    show "huge_part a ?m ?G" using I(3) by (simp add: huge_part_def)
    show "bin_part a ?m ?G" using I(4) by (simp add: bin_part_def)
    have "at_home a ?m ?G i y" if y: "i < ARENA_NO_BINS" "y \<in> bin_runs G i" for i y
    proof -
      obtain d k where dk: "g_home G y = (d, k)" "(d, k) \<notin> {(x, n)}" using run_home [OF I(5) y] by metis
      then have "g_used ?G d k = g_used G d k" by auto
      moreover have "at_home a m G i y" using I(5) y by (simp add: link_part_def)
      ultimately show ?thesis using dk(1) same(2) [of d] by (simp add: at_home_def)
    qed
    then show "link_part {} a ?m ?G" using I(5) by (simp add: link_part_def blocks)
    show "object_part a ?G" using I(6) by (simp add: object_part_def)
    show "space_part (mapped (world ?m)) ?m ?G"
    proof (rule space_partI)
      show "pool_space (g_pools ?G) \<subseteq> mapped (world ?m)" using S(1) S(2) [OF xn(1)] R w by auto
      show "chunk_space ?m ?G y \<subseteq> mapped (world ?m) - pool_space (g_pools ?G)" if "y \<in> set (g_chunks ?G)" for y
        using that S(2) [of y] S(4) [of x y] R w xn(1) by (auto simp: sp)
      show "huge_space ?m y \<subseteq> mapped (world ?m) - pool_space (g_pools ?G)" if "y \<in> set (g_huges ?G)" for y
        using that S(3) [of y] S(6) [OF xn(1), of y] R w by (auto simp: hs)
      show "chunk_space ?m ?G y \<inter> chunk_space ?m ?G z = {}" if "y \<in> set (g_chunks ?G)" "z \<in> set (g_chunks ?G)" "y \<noteq> z" for y z
        using that S(4) [of y z] by (auto simp: sp)
      show "huge_space ?m y \<inter> huge_space ?m z = {}" if "y \<in> set (g_huges ?G)" "z \<in> set (g_huges ?G)" "y \<noteq> z" for y z
        using that S(5) [of y z] by (simp add: hs)
      show "chunk_space ?m ?G y \<inter> huge_space ?m z = {}" if "y \<in> set (g_chunks ?G)" "z \<in> set (g_huges ?G)" for y z
        using that S(6) [of y z] by (auto simp: sp hs)
    qed
  qed
qed

subsection \<open>A chunk without blocks\<close>

definition without_chunk :: "addr \<Rightarrow> ghost \<Rightarrow> ghost" where
  "without_chunk x G = G\<lparr>g_chunks := remove1 x (g_chunks G)\<rparr>"

lemma without_chunk_simps [simp]:
  "g_pools (without_chunk x G) = g_pools G" "g_trees (without_chunk x G) = g_trees G" "g_chunks (without_chunk x G) = remove1 x (g_chunks G)"
  "g_huges (without_chunk x G) = g_huges G" "g_home (without_chunk x G) = g_home G" "g_act (without_chunk x G) = g_act G"
  "g_inact (without_chunk x G) = g_inact G" "bin_runs (without_chunk x G) = bin_runs G" "all_runs (without_chunk x G) = all_runs G"
  "has_meta (without_chunk x G) = has_meta G" "g_used (without_chunk x G) = g_used G" "g_gone (without_chunk x G) = g_gone G"
  by (simp_all add: without_chunk_def bin_runs_def all_runs_def has_meta_def fun_eq_iff)

lemma inv_drop_chunk:
  assumes inv: "arena_inv mapped X a m G" and x: "x \<in> set (g_chunks G)" "g_used G x = Map.empty"
  obtains head h' where "ll_del (chunks m) (chunk_list a) x = ret (head, h')"
    "arena_inv mapped X (a\<lparr>chunk_list := head\<rparr>) (m\<lparr>chunks := h'\<rparr>) (without_chunk x G)"
    "live (a\<lparr>chunk_list := head\<rparr>) (m\<lparr>chunks := h'\<rparr>) (without_chunk x G) = live a m G"
proof -
  note I = arena_invD [OF inv] and S = space_partD [OF arena_invD(7) [OF inv]]
  have list: "ll_list (chunks m) (chunk_list a) (g_chunks G)" using I(2) by (simp add: chunk_part_def)
  obtain head h' where h': "ll_del (chunks m) (chunk_list a) x = ret (head, h')" "ll_list h' head (remove1 x (g_chunks G))"
    "links_only (set (g_chunks G)) (chunks m) h'" using ll.del_law [OF list x(1)] by blast
  let ?a = "a\<lparr>chunk_list := head\<rparr>" and ?m = "m\<lparr>chunks := h'\<rparr>" and ?G = "without_chunk x G"
  have set: "set (remove1 x (g_chunks G)) = set (g_chunks G) - {x}" using ll_list_distinct [OF list] by (rule set_remove1_eq)
  have old: "key (the (h' y)) = key (the (chunks m y))" "block_ptr (the (h' y)) = block_ptr (the (chunks m y))"
    "block_range (the (h' y)) = block_range (the (chunks m y))" "chunk_inv (the (h' y)) A D = chunk_inv (the (chunks m y)) A D"
    if y: "y \<in> set (g_chunks G)" for y A D
    using chunk_links_at [OF h'(3) chunk_of(2) [OF I(2) y]] by auto
  have sp: "chunk_space ?m ?G y = chunk_space m G y" if "y \<in> set (g_chunks G)" for y using old(1,3) [OF that] by (simp add: chunk_space_def)
  have hs: "huge_space ?m = huge_space m" by (simp add: fun_eq_iff huge_space_def)
  have "n \<notin> dom (g_used G x)" for n using x(2) by simp
  then have blocks: "blocks ?G = blocks G" unfolding blocks_def without_chunk_simps set by blast
  have "arena_inv mapped X ?a ?m ?G" unfolding arena_inv_def
  proof (intro conjI)
    show "pool_part ?a ?m ?G" using I(1) by (simp add: pool_part_def)
    show "chunk_part ?a ?m ?G" using h'(2) chunk_of(3,4,5) [OF I(2)] old(1,4) set by (simp add: chunk_part_def)
    show "huge_part ?a ?m ?G" using I(3) by (simp add: huge_part_def)
    show "bin_part ?a ?m ?G" using I(4) by (simp add: bin_part_def)
    have "at_home ?a ?m ?G i y" if y: "i < ARENA_NO_BINS" "y \<in> bin_runs G i" for i y
    proof -
      obtain d k where dk: "g_home G y = (d, k)" "(d, k) \<in> blocks G" using run_home [OF I(5) y] by metis
      then have "d \<in> set (g_chunks G)" by (simp add: blocks_def)
      moreover have "at_home a m G i y" using I(5) y by (simp add: link_part_def)
      ultimately show ?thesis using dk(1) old(2) [of d] by (simp add: at_home_def)
    qed
    then show "link_part X ?a ?m ?G" using I(5) by (simp add: link_part_def blocks)
    have "set (g_chunks ?G) \<subseteq> set (g_chunks G)" using set by auto
    then show "object_part ?a ?G" using I(6) unfolding object_part_def without_chunk_simps by simp blast
    show "space_part (mapped (world ?m)) ?m ?G"
    proof (rule space_partI)
      show "pool_space (g_pools ?G) \<subseteq> mapped (world ?m)" using S(1) by simp
      show "chunk_space ?m ?G y \<subseteq> mapped (world ?m) - pool_space (g_pools ?G)" if "y \<in> set (g_chunks ?G)" for y
        using that S(2) [of y] sp [of y] set by simp
      show "huge_space ?m y \<subseteq> mapped (world ?m) - pool_space (g_pools ?G)" if "y \<in> set (g_huges ?G)" for y
        using that S(3) [of y] by (simp add: hs)
      show "chunk_space ?m ?G y \<inter> chunk_space ?m ?G z = {}" if "y \<in> set (g_chunks ?G)" "z \<in> set (g_chunks ?G)" "y \<noteq> z" for y z
        using that S(4) [of y z] sp [of y] sp [of z] set by simp
      show "huge_space ?m y \<inter> huge_space ?m z = {}" if "y \<in> set (g_huges ?G)" "z \<in> set (g_huges ?G)" "y \<noteq> z" for y z
        using that S(5) [of y z] by (simp add: hs)
      show "chunk_space ?m ?G y \<inter> huge_space ?m z = {}" if "y \<in> set (g_chunks ?G)" "z \<in> set (g_huges ?G)" for y z
        using that S(6) [of y z] sp [of y] set by (simp add: hs)
    qed
  qed
  moreover have "live ?a ?m ?G = live a m G" by (rule live_cong) simp_all
  ultimately show thesis using that h'(1) by blast
qed

text \<open>Deallocation only takes runs away and moves none.\<close>

definition keeps_runs :: "arena_t \<Rightarrow> 'w mem \<Rightarrow> ghost \<Rightarrow> arena_t \<Rightarrow> 'w mem \<Rightarrow> ghost \<Rightarrow> bool" where
  "keeps_runs a m G a' m' G' \<longleftrightarrow> (\<forall>i. bin_runs G' i \<subseteq> bin_runs G i) \<and> (\<forall>x \<in> all_runs G'. key (the (runs m' x)) = key (the (runs m x)))
     \<and> (\<forall>j. reg_size (bins a' ! j) = reg_size (bins a ! j))"

lemma keeps_runsI:
  assumes "bin_runs G' = bin_runs G" "\<And>x. x \<in> all_runs G \<Longrightarrow> runs m' x = runs m x" "bins a' = bins a"
  shows "keeps_runs a m G a' m' G'"
proof -
  have "all_runs G' = all_runs G" using assms(1) by (simp add: all_runs_def)
  then show ?thesis using assms by (simp add: keeps_runs_def)
qed

lemma keeps_runs_trans:
  assumes "keeps_runs a m G a1 m1 G1" "keeps_runs a1 m1 G1 a2 m2 G2"
  shows "keeps_runs a m G a2 m2 G2"
proof -
  have "all_runs G2 \<subseteq> all_runs G1" using assms(2) by (intro all_runs_mono) (simp add: keeps_runs_def)
  then show ?thesis using assms unfolding keeps_runs_def by (auto simp: subset_iff)
qed

lemma keeps_runs_forget:
  assumes "x \<notin> all_runs G" "bin_runs G' = bin_runs G" "runs m' = runs m" "bins a' = bins a"
  shows "keeps_runs a m G a' (forget x m') G'"
  using assms by (intro keeps_runsI) (auto simp: forget_def)

text \<open>What a step of deallocation leaves alone besides the live regions.\<close>

definition settles :: "('w \<Rightarrow> addr set) \<Rightarrow> arena_t \<Rightarrow> 'w mem \<Rightarrow> ghost \<Rightarrow> arena_t \<Rightarrow> 'w mem \<Rightarrow> ghost \<Rightarrow> bool" where
  "settles mapped a m G a' m' G' \<longleftrightarrow> arena_inv mapped {} a' m' G' \<and> (\<forall>B. brk_below B a' = brk_below B a) \<and> bytes m' = bytes m
     \<and> keeps_runs a m G a' m' G' \<and> g_huges G' = g_huges G
     \<and> (\<forall>z \<in> set (g_huges G). huges m' z = huges m z)"

lemma settlesD:
  assumes "settles mapped a m G a' m' G'"
  shows "arena_inv mapped {} a' m' G'" "brk_below B a' = brk_below B a" "bytes m' = bytes m" "reg_size (bins a' ! j) = reg_size (bins a ! j)"
    "g_huges G' = g_huges G" "z \<in> set (g_huges G) \<Longrightarrow> huges m' z = huges m z"
    "keeps_runs a m G a' m' G'"
  using assms by (simp_all add: settles_def keeps_runs_def)

lemma objects_cases: "z \<in> objects G \<longleftrightarrow> z \<in> set (g_chunks G) \<or> z \<in> set (g_huges G) \<or> z \<in> all_runs G"
  by (simp add: objects_def)

lemma objects_apart:
  assumes "object_part a G" "z \<in> set (g_huges G)"
  shows "z \<notin> set (g_chunks G)" "z \<notin> all_runs G"
  using assms by (auto simp: object_part_def)

lemma deallocate_chunk_ok:
  assumes inv: "arena_inv mapped {} a m G" and c: "c \<in> set (g_chunks G)" "g_used G c = Map.empty"
  obtains a' m' G' where "arena_deallocate_chunk a m c = ret (a', m')" "settles mapped a m G a' m' G'" "live a' m' G' = live a m G"
    "objects G' \<subseteq> objects G" "\<And>z l. z \<noteq> c \<Longrightarrow> has_meta G l z \<Longrightarrow> has_meta G' l z" "world m' = world m"
proof -
  obtain head h' where d: "ll_del (chunks m) (chunk_list a) c = ret (head, h')"
    "arena_inv mapped {} (a\<lparr>chunk_list := head\<rparr>) (m\<lparr>chunks := h'\<rparr>) (without_chunk c G)"
    "live (a\<lparr>chunk_list := head\<rparr>) (m\<lparr>chunks := h'\<rparr>) (without_chunk c G) = live a m G"
    by (rule inv_drop_chunk [OF inv c]) (rule that)
  let ?G1 = "without_chunk c G" and ?m1 = "m\<lparr>chunks := h'\<rparr>"
  note O = arena_invD(6) [OF inv]
  have "distinct (g_chunks G)" using arena_invD(2) [OF inv] ll_list_distinct by (auto simp: chunk_part_def)
  then have set: "set (remove1 c (g_chunks G)) = set (g_chunks G) - {c}" by (rule set_remove1_eq)
  have sub: "objects ?G1 \<subseteq> objects G" using set by (auto simp: objects_def)
  have notin: "c \<notin> objects ?G1" using set O c(1) by (auto simp: objects_def object_part_def)
  have meta: "has_meta ?G1 CHUNK_T_SIZE c" using O c(1) by (simp add: object_part_def)
  obtain h2 ts where f: "arena_internal_free (a\<lparr>chunk_list := head\<rparr>) ?m1 c = ret (forget c (?m1\<lparr>ias := h2\<rparr>))"
    "arena_inv mapped {} (a\<lparr>chunk_list := head\<rparr>) (forget c (?m1\<lparr>ias := h2\<rparr>)) (?G1\<lparr>g_trees := ts\<rparr>)"
    "live (a\<lparr>chunk_list := head\<rparr>) (forget c (?m1\<lparr>ias := h2\<rparr>)) (?G1\<lparr>g_trees := ts\<rparr>) = live (a\<lparr>chunk_list := head\<rparr>) ?m1 ?G1"
    "\<And>z l. z \<noteq> c \<Longrightarrow> has_meta ?G1 l z \<Longrightarrow> has_meta (?G1\<lparr>g_trees := ts\<rparr>) l z"
    by (rule inv_free_meta [OF d(2) notin meta]) (rule that)
  have "z \<noteq> c" if "z \<in> set (g_huges G)" for z using objects_apart(1) [OF O that] c(1) by blast
  moreover have "c \<notin> all_runs G" using O c(1) by (auto simp: object_part_def)
  then have kept: "keeps_runs a m G (a\<lparr>chunk_list := head\<rparr>) (forget c (?m1\<lparr>ias := h2\<rparr>)) (?G1\<lparr>g_trees := ts\<rparr>)"
    by (rule keeps_runs_forget) (simp_all add: bin_runs_def fun_eq_iff)
  ultimately have settles: "settles mapped a m G (a\<lparr>chunk_list := head\<rparr>) (forget c (?m1\<lparr>ias := h2\<rparr>)) (?G1\<lparr>g_trees := ts\<rparr>)"
    using f(2) kept by (simp add: settles_def forget_def)
  have run: "arena_deallocate_chunk a m c = ret (a\<lparr>chunk_list := head\<rparr>, forget c (?m1\<lparr>ias := h2\<rparr>))"
    using d(1) f(1) by (simp add: arena_deallocate_chunk_def Let_def)
  have "objects (?G1\<lparr>g_trees := ts\<rparr>) = objects ?G1" by (simp add: objects_def all_runs_def bin_runs_def)
  then have "objects (?G1\<lparr>g_trees := ts\<rparr>) \<subseteq> objects G" using sub by simp
  from that [OF run settles _ this] show thesis using f(3,4) d(3) by (simp add: forget_def)
qed

end
