(* ===== verification/Arena_Release.thy ===== *)
theory Arena_Release
  imports Arena_Drop
begin

text \<open>
  \<open>free\<close> of \<open>src/src/sealloc.c\<close> on a well-formed arena: regions of runs, the release of a run
  whose regions have all been freed, and huge mappings.
\<close>

subsection \<open>Releasing a run\<close>

definition os_unmaps :: "'w os \<Rightarrow> bool" where
  "os_unmaps os \<longleftrightarrow> (\<forall>w p n. fst (os_munmap os w p n) = None)"

lemma unmap_refused:
  assumes "platform_unmap os w p n = (code, w')" "code \<noteq> PLATFORM_STATUS_OK"
  shows "\<not> os_unmaps os"
proof -
  have "fst (os_munmap os w p n) \<noteq> None" using assms by (auto simp: platform_unmap_def split: prod.splits option.splits)
  then show ?thesis unfolding os_unmaps_def by metis
qed

lemma unmap_ok:
  assumes "os_sound os mapped" "platform_unmap os w p n = (PLATFORM_STATUS_OK, w')" "4096 dvd p" "4096 dvd n"
  shows "mapped w' = mapped w - {p..<p + n}"
proof -
  obtain r w1 where m: "os_munmap os w p n = (r, w1)" by force
  have "get_error_from_errno e \<noteq> PLATFORM_STATUS_OK" for e by (cases e) simp_all
  then have "r = None" "w1 = w'" using assms(2) m by (cases r; simp add: platform_unmap_def)+
  then have "os_munmap os w p n = (None, w')" using m by simp
  with assms(3,4) show ?thesis by (rule assms(1) [unfolded os_sound_def, THEN conjunct2, rule_format])
qed

text \<open>Blocks of a chunk are whole pages.\<close>

lemma block_pages:
  assumes "4096 dvd key c"
  shows "4096 dvd block_ptr c n" "4096 dvd block_size n"
proof -
  have "4096 dvd 16384 * (k :: nat)" for k by (rule dvd_mult2) simp
  then show "4096 dvd block_ptr c n" "4096 dvd block_size n" using assms by (simp_all only: block_ptr_def block_size_def dvd_add)
qed

lemma whole_chunk_unused:
  assumes "chunk_inv c A D" "taken D = lev 11"
  shows "A = Map.empty"
proof -
  have False if n: "n \<in> dom A" for n
  proof -
    have "n \<in> {1..4095}" using chunk_invD(3) [OF assms(1)] n by auto
    then have "Min (leaves n) \<in> leaves n" by (rule min_leaf)
    moreover have "leaves n \<subseteq> lev 11" by (auto simp: leaves_def)
    ultimately obtain d where d: "d \<in> D" "Min (leaves n) \<in> leaves d" using assms(2) by (auto simp: taken_def)
    then have "n \<noteq> d" using chunk_invD(4) [OF assms(1)] n by blast
    then show False using chunk_invD(5) [OF assms(1), of n d] n d \<open>Min (leaves n) \<in> leaves n\<close> by blast
  qed
  then show ?thesis by (metis domIff ext)
qed

lemma settles_trans:
  assumes "settles mapped a m G a1 m1 G1" "settles mapped a1 m1 G1 a2 m2 G2"
  shows "settles mapped a m G a2 m2 G2"
  using assms keeps_runs_trans [of a m G a1 m1 G1 a2 m2 G2] by (simp add: settles_def)

lemma forget_settles:
  assumes inv: "arena_inv mapped {} a m G" and x: "x \<notin> objects G" "has_meta G k x"
  obtains h ts where "arena_internal_free a m x = ret (forget x (m\<lparr>ias := h\<rparr>))" "settles mapped a m G a (forget x (m\<lparr>ias := h\<rparr>)) (G\<lparr>g_trees := ts\<rparr>)"
    "live a (forget x (m\<lparr>ias := h\<rparr>)) (G\<lparr>g_trees := ts\<rparr>) = live a m G"
proof -
  obtain h ts where f: "arena_internal_free a m x = ret (forget x (m\<lparr>ias := h\<rparr>))"
    "arena_inv mapped {} a (forget x (m\<lparr>ias := h\<rparr>)) (G\<lparr>g_trees := ts\<rparr>)" "live a (forget x (m\<lparr>ias := h\<rparr>)) (G\<lparr>g_trees := ts\<rparr>) = live a m G"
    by (rule inv_free_meta [OF inv x]) (rule that)
  have "z \<noteq> x" if "z \<in> set (g_huges G)" for z using that x(1) by (auto simp: objects_def)
  moreover have "keeps_runs a m G a (forget x (m\<lparr>ias := h\<rparr>)) (G\<lparr>g_trees := ts\<rparr>)"
    using x(1) by (intro keeps_runs_forget) (simp_all add: objects_def bin_runs_def fun_eq_iff)
  ultimately have "settles mapped a m G a (forget x (m\<lparr>ias := h\<rparr>)) (G\<lparr>g_trees := ts\<rparr>)" using f(2) by (simp add: settles_def forget_def)
  with that f(1,3) show thesis by blast
qed

lemma release_run_ok:
  assumes os: "os_sound os mapped" and inv: "arena_inv mapped {(c, n)} a m G" and cn: "(c, n) \<in> blocks G"
    and x: "runs m x = Some r" "x \<noteq> 0" "x \<notin> objects G" "has_meta G k x" "key r = block_ptr (the (chunks m c)) n"
  shows "\<not> os_unmaps os \<and> release_run os a m c x = fail Exit
     \<or> (\<exists>a' m' G'. release_run os a m c x = ret (a', m') \<and> settles mapped a m G a' m' G' \<and> live a' m' G' = live a m G
          \<and> mapped (world m') = mapped (world m) - block_range (the (chunks m c)) n)"
proof -
  note I = arena_invD [OF inv]
  let ?c = "the (chunks m c)"
  have c: "c \<in> set (g_chunks G)" "n \<in> dom (g_used G c)" using cn by (simp_all add: blocks_def)
  note ch = chunk_of [OF I(2) c(1)]
  obtain code w where un: "platform_unmap os (world m) (block_ptr ?c n) (block_size n) = (code, w)" by force
  have load: "load (runs m) x = ret r" "load (chunks m) c = ret ?c" using x(1,2) ch(1,2) by simp_all
  show ?thesis
  proof (cases "code = PLATFORM_STATUS_OK")
    case False
    then have "chunk_deallocate_run os (world m) ?c (block_ptr ?c n) = fail Exit"
      using chunk_deallocate_run_ok(1) [OF ch(3) c(2), of os "world m"] un by simp
    then show ?thesis using load x(5) unmap_refused [OF un False] by (simp add: release_run_def del: load_ret_iff)
  next
    case True
    let ?whole = "taken (insert n (g_gone G c)) = lev 11"
    obtain c' where d: "chunk_deallocate_run os (world m) ?c (block_ptr ?c n) = ret (?whole, c', w)"
      "chunk_inv c' ((g_used G c)(n := None)) (insert n (g_gone G c))" "key c' = key ?c" "fd c' = fd ?c" "bk c' = bk ?c"
      using chunk_deallocate_run_ok(2) [OF ch(3) c(2), of os "world m"] un True by auto
    have w: "mapped w = mapped (world m) - block_range ?c n"
      using unmap_ok [OF os un [unfolded True] block_pages [OF ch(5)]] by (simp add: block_range_def)
    let ?m1 = "m\<lparr>chunks := (chunks m)(c \<mapsto> c'), world := w\<rparr>" and ?G1 = "without_block c n G"
    note s1 = inv_drop_block [OF inv cn d(2-5) w]
    have set1: "settles mapped a m G a ?m1 ?G1" using s1(1) by (simp add: settles_def keeps_runsI)
    obtain a2 m2 G2 where 2: "(if ?whole then arena_deallocate_chunk a ?m1 c else ret (a, ?m1)) = ret (a2, m2)"
      "settles mapped a ?m1 ?G1 a2 m2 G2" "live a2 m2 G2 = live a m G" "x \<notin> objects G2" "has_meta G2 k x" "world m2 = w"
    proof (cases ?whole)
      case True
      have c1: "c \<in> set (g_chunks ?G1)" "g_used ?G1 c = Map.empty" using whole_chunk_unused [OF d(2) True] c(1) by simp_all
      note result = that
      obtain a' m' G' where e: "arena_deallocate_chunk a ?m1 c = ret (a', m')" "settles mapped a ?m1 ?G1 a' m' G'"
        "live a' m' G' = live a ?m1 ?G1" "objects G' \<subseteq> objects ?G1" "\<And>z l. z \<noteq> c \<Longrightarrow> has_meta ?G1 l z \<Longrightarrow> has_meta G' l z" "world m' = world ?m1"
        by (rule deallocate_chunk_ok [OF s1(1) c1]) (rule that)
      have "x \<noteq> c" using x(3) c(1) by (auto simp: objects_def)
      then show thesis using result [OF _ e(2)] True e s1(2) x(3,4) by auto
    next
      case False
      have "settles mapped a ?m1 ?G1 a ?m1 ?G1" using s1(1) by (simp add: settles_def keeps_runsI)
      then show thesis using that False s1(2) x(3,4) by simp
    qed
    obtain h ts where 3: "arena_internal_free a2 m2 x = ret (forget x (m2\<lparr>ias := h\<rparr>))"
      "settles mapped a2 m2 G2 a2 (forget x (m2\<lparr>ias := h\<rparr>)) (G2\<lparr>g_trees := ts\<rparr>)"
      "live a2 (forget x (m2\<lparr>ias := h\<rparr>)) (G2\<lparr>g_trees := ts\<rparr>) = live a2 m2 G2"
      by (rule forget_settles [OF settlesD(1) [OF 2(2)] 2(4,5)]) (rule that)
    have "release_run os a m c x = ret (a2, forget x (m2\<lparr>ias := h\<rparr>))"
      using load x(5) d(1) 2(1) 3(1) by (simp add: release_run_def Let_def del: load_ret_iff)
    moreover have "settles mapped a m G a2 (forget x (m2\<lparr>ias := h\<rparr>)) (G2\<lparr>g_trees := ts\<rparr>)"
      by (rule settles_trans [OF settles_trans [OF set1 2(2)] 3(2)])
    moreover have "live a2 (forget x (m2\<lparr>ias := h\<rparr>)) (G2\<lparr>g_trees := ts\<rparr>) = live a m G" using 2(3) 3(3) by simp
    moreover have "mapped (world (forget x (m2\<lparr>ias := h\<rparr>))) = mapped (world m) - block_range ?c n" using 2(6) w by (simp add: forget_def)
    ultimately show ?thesis by metis
  qed
qed
subsection \<open>A region of a run\<close>

text \<open>After it has been freed a region is unmapped, or its run marks it as freed.\<close>

definition was_freed :: "('w \<Rightarrow> addr set) \<Rightarrow> arena_t \<Rightarrow> 'w mem \<Rightarrow> ghost \<Rightarrow> addr \<Rightarrow> bool" where
  "was_freed mapped a m G p \<longleftrightarrow> p \<notin> mapped (world m)
     \<or> (\<exists>i < ARENA_NO_BINS. \<exists>x \<in> bin_runs G i. run_abs (bins a ! i) (run_at (runs m) x) p = Some STATE_ALLOC_FREE)"

lemma free_region_ok:
  assumes os: "os_sound os mapped" and inv: "arena_inv mapped {} a m G" and i: "i < ARENA_NO_BINS" and x: "x \<in> bin_runs G i"
    and h: "g_home G x = (c, n)" and p: "run_abs (bins a ! i) (run_at (runs m) x) p = Some STATE_ALLOC"
  shows "\<not> os_unmaps os \<and> sealloc_free_with_metadata os a m c i x p = fail Exit
     \<or> (\<exists>a' m' G'. sealloc_free_with_metadata os a m c i x p = ret (a', m') \<and> settles mapped a m G a' m' G'
          \<and> live a' m' G' = live a m G - {(p, reg_size (bins a ! i))} \<and> was_freed mapped a' m' G' p)"
proof -
  let ?b = "bins a ! i"
  note I = arena_invD [OF inv]
  note rep = bin_of_run [OF I(4) i x]
  have br: "set (g_act G i) \<union> set (g_inact G i) = bin_runs G i" by (simp add: bin_runs_def)
  have len: "i < length (bins a)" using I(4) i by (simp add: bin_part_def)
  note ri = run_of_bin(3) [OF I(4) i x]
  have xs: "x \<in> set (g_act G i) \<union> set (g_inact G i)" using x br by simp
  obtain j where "j < regions ?b" "p = region_addr (run_at (runs m) x) ?b j" using p run_invD(2) [OF ri] by (rule run_absE)
  then have pc: "ptr_checked ?b (run_at (runs m) x) p" using ptr_checked_region [OF ri] by simp
  obtain r' fr b' h' where D: "deallocate_in_run ?b (runs m) x p = ret (fr, b', h')" "same_geometry ?b b'" "run_inv ?b r'" "fr = run_is_freeable r' ?b"
    "run_abs ?b r' = (run_abs ?b (run_at (runs m) x))(p \<mapsto> STATE_ALLOC_FREE)" "key r' = key (run_at (runs m) x)"
    "unlink (run_at h' x) = unlink r'" "fr \<longrightarrow> x \<in> set (g_inact G i)"
    "bin_rep b' h' (g_act G i) (if fr then remove1 x (g_inact G i) else g_inact G i)" "avail_regs b' = avail_regs ?b"
    "\<And>y. y \<noteq> x \<Longrightarrow> y \<in> set (g_act G i) \<union> set (g_inact G i) \<Longrightarrow> unlink (run_at h' y) = unlink (run_at (runs m) y)"
    "\<And>y. y \<notin> set (g_act G i) \<union> set (g_inact G i) \<Longrightarrow> h' y = runs m y" "x \<noteq> 0" "h' x = Some (run_at h' x)"
    by (rule deallocate_in_run_ok [OF rep(1) xs pc p]) (rule that)
  let ?a = "a\<lparr>bins := (bins a)[i := b']\<rparr>" and ?m = "m\<lparr>runs := h'\<rparr>"
  have key: "key (run_at h' y) = key (run_at (runs m) y)" if "y \<in> bin_runs G i" for y
    using unlink_observed(6) [OF D(7)] D(6) unlink_observed(6) [OF D(11)] that br by (cases "y = x") auto
  have frame: "h' y = runs m y" if "y \<notin> bin_runs G i" for y using D(12) that br by simp
  have abs: "run_abs ?b (run_at h' x) = (run_abs ?b (run_at (runs m) x))(p \<mapsto> STATE_ALLOC_FREE)"
    using unlink_observed(2) [OF D(7)] D(5) by simp
  have "bin_live b' h' (bin_runs G i) = bin_live ?b (runs m) (bin_runs G i) - {(p, reg_size ?b)}"
    by (subst bin_live_step [where h = "runs m" and h' = h' and b = ?b and p = p and s = STATE_ALLOC_FREE, OF x _ D(2) abs])
      (use region_alone [OF inv i x p i] D(11) br in simp_all)
  then have lv: "other_live a m G i \<union> bin_live b' h' (bin_runs G i) = live a m G - {(p, reg_size ?b)}"
    using region_not_other [OF inv i x p] live_split [OF i, of a m G] by blast
  have rs: "reg_size (bins ?a ! k) = reg_size (bins a ! k)" for k
    using D(2) by (cases "k = i") (auto simp: same_geometry_def nth_list_update len)
  have kept: "keeps_runs a m G ?a ?m (with_bin i act' inact' (g_home G) G)" if "set act' \<union> set inact' \<subseteq> bin_runs G i" for act' inact'
    using that rs key frame unfolding keeps_runs_def by (simp; metis)
  show ?thesis
  proof (cases fr)
    case False
    let ?G = "with_bin i (g_act G i) (g_inact G i) (g_home G) G"
    have rep': "bin_rep b' h' (g_act G i) (g_inact G i)" using D(9) False by simp
    note upd = inv_regions_bin [OF inv i rep rep' D(2) br frame key]
    have "sealloc_free_with_metadata os a m c i x p = ret (?a, ?m)"
      using D(1) False len by (simp add: sealloc_free_with_metadata_def arr_get_def Let_def)
    moreover have "settles mapped a m G ?a ?m ?G" using upd(1) kept [of "g_act G i" "g_inact G i"] br by (simp add: settles_def)
    moreover have "run_abs (bins ?a ! i) (run_at (runs ?m) x) p = Some STATE_ALLOC_FREE" using abs len geometry_cong(3) [OF D(2)] by simp
    then have "was_freed mapped ?a ?m ?G p" unfolding was_freed_def using i x br by (intro disjI2 exI [of _ i] conjI bexI [of _ x]) simp_all
    moreover have "live ?a ?m ?G = live a m G - {(p, reg_size ?b)}" using upd(2) lv by simp
    ultimately show ?thesis by metis
  next
    case True
    let ?G = "with_bin i (g_act G i) (remove1 x (g_inact G i)) (g_home G) G"
    have rep': "bin_rep b' h' (g_act G i) (remove1 x (g_inact G i))" using D(9) True by simp
    have "set (remove1 x (g_inact G i)) = set (g_inact G i) - {x}" using ll_list_distinct [OF bin_repD(3) [OF rep(1)]] by (rule set_remove1_eq)
    moreover have "x \<notin> set (g_act G i)" using D(8) True bin_repD(4) [OF rep(1)] by blast
    ultimately have sets: "set (g_act G i) \<union> set (remove1 x (g_inact G i)) = bin_runs G i - {x}" using br by auto
    have key': "key (run_at h' y) = key (run_at (runs m) y)" if "y \<in> bin_runs G i - {x}" for y using key that by blast
    have "{x} \<subseteq> bin_runs G i" using x by simp
    note upd = inv_shrink_bin [OF inv i rep rep' D(2) sets this frame key']
    have freed: "\<forall>q \<in> dom (run_abs ?b r'). run_abs ?b r' q = Some STATE_ALLOC_FREE"
      using True D(4) run_freed_all [OF D(3)] run_abs_all [OF run_invD(2) [OF ri], of r' STATE_ALLOC_FREE] by simp
    have "run_abs b' (the (h' x)) = run_abs ?b r'" using geometry_cong(3) [OF D(2)] unlink_observed(2) [OF D(7)] by simp
    then have none: "run_abs b' (the (h' x)) q \<noteq> Some STATE_ALLOC" for q using freed by (auto dest: bspec [of _ _ q])
    have "bin_live b' h' (bin_runs G i) = bin_live b' h' (insert x (bin_runs G i - {x}))" using x by (simp add: insert_absorb)
    also have "\<dots> = bin_live b' h' (bin_runs G i - {x})" by (rule bin_live_none) (rule none)
    finally have lv': "live ?a ?m ?G = live a m G - {(p, reg_size ?b)}" using upd(2) lv by simp
    have inv1: "arena_inv mapped {(c, n)} ?a ?m ?G" using upd(1) h by simp
    have hm: "(c, n) \<in> blocks G" "key (run_at (runs m) x) = block_ptr (the (chunks m c)) n" "block_size n = run_size_pages ?b * 4096"
      using run_home [OF I(5) i x] h by (metis prod.inject)+
    have "x \<in> all_runs G" using x i by (auto simp: all_runs_def)
    moreover have "all_runs ?G = all_runs G - {x}"
    proof -
      have "bin_runs G k \<inter> bin_runs G i = {}" if "k < ARENA_NO_BINS" "k \<noteq> i" for k using I(4) that i by (simp add: bin_part_def)
      then show ?thesis using sets x i by (auto simp: all_runs_def split: if_splits)
    qed
    ultimately have out: "x \<notin> objects ?G" using I(6) by (auto simp: objects_def object_part_def)
    have meta: "has_meta ?G (run_bytes ?b) x" using I(6) i x by (simp add: object_part_def has_meta_def)
    have k: "key (run_at h' x) = block_ptr (the (chunks ?m c)) n" using key [OF x] hm(2) by simp
    have free: "sealloc_free_with_metadata os a m c i x p = release_run os ?a ?m c x"
      using D(1) True len by (simp add: sealloc_free_with_metadata_def arr_get_def Let_def)
    have cn: "(c, n) \<in> blocks ?G" using hm(1) by simp
    have x': "runs ?m x = Some (run_at h' x)" using D(14) by simp
    have "keeps_runs a m G ?a ?m ?G" using sets by (intro kept) simp
    then have "settles mapped a m G a2 m2 G2" if "settles mapped ?a ?m ?G a2 m2 G2" for a2 m2 G2
      using that keeps_runs_trans [of a m G ?a ?m ?G a2 m2 G2] unfolding settles_def by simp
    moreover have "p \<in> block_range (the (chunks ?m c)) n"
      using run_abs_range [OF ri p] run_range_home [OF hm(2,3)] by simp
    then have "was_freed mapped a2 m2 G2 p" if "mapped (world m2) = mapped (world ?m) - block_range (the (chunks ?m c)) n" for a2 m2 G2
      unfolding was_freed_def that by blast
    ultimately show ?thesis unfolding free using release_run_ok [OF os inv1 cn x' D(13) out meta k] lv' by metis
  qed
qed

subsection \<open>A huge mapping\<close>

lemma find_unique:
  assumes "x \<in> set xs" "P x" "\<And>y. y \<in> set xs \<Longrightarrow> P y \<Longrightarrow> y = x"
  shows "find P xs = Some x"
proof (cases "find P xs")
  case None
  then show ?thesis using assms(1,2) by (auto simp: find_None_iff)
next
  case (Some y)
  then have "y \<in> set xs \<and> P y" by (auto simp: find_Some_iff)
  then show ?thesis using Some assms(3) by simp
qed

lemma find_huge:
  assumes "arena_inv mapped X a m G"
  shows "x \<in> set (g_huges G) \<Longrightarrow> arena_find_huge_mapping a m (key (the (huges m x))) = ret x"
    and "(\<And>x. x \<in> set (g_huges G) \<Longrightarrow> key (the (huges m x)) \<noteq> p) \<Longrightarrow> arena_find_huge_mapping a m p = ret 0"
proof -
  note I = arena_invD [OF assms]
  have list: "ll_list (huges m) (huge_alloc_list a) (g_huges G)" using I(3) by (simp add: huge_part_def)
  have at: "map_option key (huges m y) = Some q \<longleftrightarrow> key (the (huges m y)) = q" if y: "y \<in> set (g_huges G)" for y q
  proof -
    obtain e where "huges m y = Some e" using huge_at(2) [OF I(3) y] by blast
    then show ?thesis by simp
  qed
  show "arena_find_huge_mapping a m (key (the (huges m x))) = ret x" if x: "x \<in> set (g_huges G)"
  proof -
    have "find (\<lambda>y. map_option key (huges m y) = Some (key (the (huges m x)))) (g_huges G) = Some x"
    proof (rule find_unique [OF x])
      show "map_option key (huges m x) = Some (key (the (huges m x)))" using at [OF x] by simp
      fix y assume y: "y \<in> set (g_huges G)" "map_option key (huges m y) = Some (key (the (huges m x)))"
      then have "key (the (huges m x)) \<in> huge_space m x \<inter> huge_space m y"
        using at [OF y(1)] huge_at(4) [OF I(3)] x by (simp add: huge_space_def)
      then show "y = x" using space_partD(5) [OF I(7) x y(1)] by blast
    qed
    then show ?thesis using ll_find_correct [OF list] by (simp add: arena_find_huge_mapping_def)
  qed
  show "arena_find_huge_mapping a m p = ret 0" if "\<And>x. x \<in> set (g_huges G) \<Longrightarrow> key (the (huges m x)) \<noteq> p"
  proof -
    have "find (\<lambda>y. map_option key (huges m y) = Some p) (g_huges G) = None" unfolding find_None_iff using at that by blast
    then show ?thesis using ll_find_correct [OF list, of p] by (simp add: arena_find_huge_mapping_def)
  qed
qed

lemma locate_huge:
  assumes inv: "arena_inv mapped X a m G" and x: "x \<in> set (g_huges G)" "key (the (huges m x)) < 2 ^ 64"
  shows "locate_metadata_for_ptr a m (key (the (huges m x))) = ret (METADATA_HUGE x, a)"
proof -
  note I = arena_invD [OF inv]
  let ?p = "key (the (huges m x))"
  have "\<not> in_first_leaf (the (chunks m c)) n ?p" if cn: "(c, n) \<in> blocks G" for c n
  proof
    assume hit: "in_first_leaf (the (chunks m c)) n ?p"
    have c: "c \<in> set (g_chunks G)" "n \<in> dom (g_used G c)" using cn by (simp_all add: blocks_def)
    note ch = chunk_of(3) [OF I(2) c(1)]
    have "?p \<in> block_range (the (chunks m c)) n" by (rule first_leaf_in_block(1) [OF ch c(2) hit])
    then have "?p \<in> chunk_space m G c" using block_in_chunk(1) [OF ch c(2)] unfolding chunk_space_def by blast
    moreover have "?p \<in> huge_space m x" using huge_at(4) [OF I(3) x(1)] by (simp add: huge_space_def)
    ultimately show False using space_partD(6) [OF I(7) c(1) x(1)] by blast
  qed
  from locate_outside [OF inv x(2) this] show ?thesis using find_huge(1) [OF inv x(1)] huge_at(1) [OF I(3) x(1)] by simp
qed

lemma live_without_huge:
  assumes inv: "arena_inv mapped X a m G" and x: "x \<in> set (g_huges G)"
  shows "run_live a m G \<union> huge_live (huges m) (set (g_huges G) - {x}) = live a m G - {(key (the (huges m x)), hlen (the (huges m x)))}"
proof -
  have one: "(key (the (huges m x)), hlen (the (huges m x))) \<notin> huge_live (huges m) (set (g_huges G) - {x})"
  proof
    assume "(key (the (huges m x)), hlen (the (huges m x))) \<in> huge_live (huges m) (set (g_huges G) - {x})"
    then obtain y where y: "y \<in> set (g_huges G)" "y \<noteq> x" "key (the (huges m y)) = key (the (huges m x))"
      unfolding huge_live_def by (elim imageE DiffE) simp
    then show False using find_huge(1) [OF inv x] find_huge(1) [OF inv y(1)] by simp
  qed
  have two: "(key (the (huges m x)), t) \<notin> run_live a m G" for t
  proof
    assume "(key (the (huges m x)), t) \<in> run_live a m G"
    then obtain i z where z: "i < ARENA_NO_BINS" "z \<in> bin_runs G i" "run_abs (bins a ! i) (run_at (runs m) z) (key (the (huges m x))) = Some STATE_ALLOC"
      by (auto simp: run_live_def bin_live_def bin_regions_def)
    have "(key (the (huges m x)), hlen (the (huges m x))) \<in> other_live a m G i" using x by (auto simp: other_live_def)
    then show False using region_not_other [OF inv z] by blast
  qed
  have "huge_live (huges m) (set (g_huges G)) = insert (key (the (huges m x)), hlen (the (huges m x))) (huge_live (huges m) (set (g_huges G) - {x}))"
    using x by (auto simp: huge_live_def)
  then show ?thesis unfolding live_huges using one two by blast
qed

lemma inv_drop_huge:
  assumes inv: "arena_inv mapped {} a m G" and x: "x \<in> set (g_huges G)" and w: "mapped w = mapped (world m) - huge_space m x"
  obtains head h' where "ll_del (huges m) (huge_alloc_list a) x = ret (head, h')"
    "arena_inv mapped {} (a\<lparr>huge_alloc_list := head\<rparr>) (m\<lparr>world := w, huges := h'\<rparr>) (with_huges (remove1 x (g_huges G)) G)"
    "live (a\<lparr>huge_alloc_list := head\<rparr>) (m\<lparr>world := w, huges := h'\<rparr>) (with_huges (remove1 x (g_huges G)) G)
       = live a m G - {(key (the (huges m x)), hlen (the (huges m x)))}"
proof -
  note I = arena_invD [OF inv] and S = space_partD [OF arena_invD(7) [OF inv]]
  have list: "ll_list (huges m) (huge_alloc_list a) (g_huges G)" using I(3) by (simp add: huge_part_def)
  obtain head h' where h': "ll_del (huges m) (huge_alloc_list a) x = ret (head, h')" "ll_list h' head (remove1 x (g_huges G))"
    "links_only (set (g_huges G)) (huges m) h'" using ll.del_law [OF list x] by blast
  have set: "set (remove1 x (g_huges G)) = set (g_huges G) - {x}" using ll_list_distinct [OF list] by (rule set_remove1_eq)
  have old: "key (the (h' y)) = key (the (huges m y))" "hlen (the (h' y)) = hlen (the (huges m y))" "huge_of (the (h' y)) = huge_space m y"
    if y: "y \<in> set (g_huges G)" for y
    using huge_links_at [OF h'(3) huge_at(2) [OF I(3) y]] by (simp_all add: huge_space_of)
  have ok: "0 < key (the (h' y)) \<and> LARGE_SIZE_MAX_REGION < hlen (the (h' y)) \<and> 4096 dvd key (the (h' y)) \<and> key (the (h' y)) + hlen (the (h' y)) \<le> 2 ^ 47 \<and> 4096 dvd hlen (the (h' y)) \<and> has_meta G HUGE_CHUNK_T_SIZE y \<and> y \<notin> set (g_chunks G) \<union> all_runs G"
    if "y \<in> set (remove1 x (g_huges G))" for y
    using that set old(1,2) [of y] huge_at(3,5-8) [OF I(3), of y] objects_apart [OF I(6), of y] I(6) by (auto simp: object_part_def)
  have pools: "pool_space (g_pools G) \<subseteq> mapped w" using S(1) S(3) [OF x] w by blast
  have kept: "chunk_space m G c \<subseteq> mapped w" if "c \<in> set (g_chunks G)" for c using S(2) [OF that] S(6) [OF that x] w by blast
  have sub: "huge_of (the (h' y)) \<subseteq> mapped w - pool_space (g_pools G)" if "y \<in> set (remove1 x (g_huges G))" for y
    using that set S(3) [of y] S(5) [OF x, of y] w old(3) [of y] by auto
  have apart: "huge_of (the (h' y)) \<inter> huge_of (the (h' z)) = {}"
    if "y \<in> set (remove1 x (g_huges G))" "z \<in> set (remove1 x (g_huges G))" "y \<noteq> z" for y z
    using that set S(5) [of y z] old(3) [of y] old(3) [of z] by simp
  have chunk: "huge_of (the (h' y)) \<inter> chunk_space m G c = {}" if "y \<in> set (remove1 x (g_huges G))" "c \<in> set (g_chunks G)" for y c
    using that set S(6) [of c y] old(3) [of y] by (simp add: Int_commute)
  note upd = inv_set_huges [OF inv h'(2) ok pools kept sub apart chunk, of "bytes m"]
  have hl: "huge_live h' (set (g_huges G) - {x}) = huge_live (huges m) (set (g_huges G) - {x})"
    unfolding huge_live_def by (rule image_cong) (use old in auto)
  have "run_live a m G \<union> huge_live h' (set (remove1 x (g_huges G))) = live a m G - {(key (the (huges m x)), hlen (the (huges m x)))}"
    unfolding set hl by (rule live_without_huge [OF inv x])
  moreover have "arena_inv mapped {} (a\<lparr>huge_alloc_list := head\<rparr>) (m\<lparr>world := w, huges := h'\<rparr>) (with_huges (remove1 x (g_huges G)) G)"
    using upd(1) by simp
  ultimately show thesis using that [OF h'(1)] upd(2) by simp
qed

lemma deallocate_huge_ok:
  assumes os: "os_sound os mapped" and inv: "arena_inv mapped {} a m G" and x: "x \<in> set (g_huges G)"
  shows "\<not> os_unmaps os \<and> arena_deallocate_huge_mapping os a m x = fail Exit
     \<or> (\<exists>a' m' G'. arena_deallocate_huge_mapping os a m x = ret (a', m') \<and> arena_inv mapped {} a' m' G' \<and> (\<forall>B. brk_below B a' = brk_below B a)
          \<and> bytes m' = bytes m \<and> live a' m' G' = live a m G - {(key (the (huges m x)), hlen (the (huges m x)))}
          \<and> was_freed mapped a' m' G' (key (the (huges m x))) \<and> keeps_runs a m G a' m' G')"
proof -
  note I = arena_invD [OF inv]
  note at = huge_at [OF I(3) x]
  obtain code w where un: "platform_unmap os (world m) (key (the (huges m x))) (hlen (the (huges m x))) = (code, w)" by force
  have load: "load (huges m) x = ret (the (huges m x))" using at(1,2) by simp
  show ?thesis
  proof (cases "code = PLATFORM_STATUS_OK")
    case False
    then show ?thesis using load un unmap_refused [OF un False] by (simp add: arena_deallocate_huge_mapping_def del: load_ret_iff)
  next
    case True
    have w: "mapped w = mapped (world m) - huge_space m x" using unmap_ok [OF os un [unfolded True] at(5,8)] by (simp add: huge_space_def)
    obtain head h' where d: "ll_del (huges m) (huge_alloc_list a) x = ret (head, h')"
      "arena_inv mapped {} (a\<lparr>huge_alloc_list := head\<rparr>) (m\<lparr>world := w, huges := h'\<rparr>) (with_huges (remove1 x (g_huges G)) G)"
      "live (a\<lparr>huge_alloc_list := head\<rparr>) (m\<lparr>world := w, huges := h'\<rparr>) (with_huges (remove1 x (g_huges G)) G)
         = live a m G - {(key (the (huges m x)), hlen (the (huges m x)))}"
      by (rule inv_drop_huge [where w = w, OF inv x w]) (rule that)
    let ?a = "a\<lparr>huge_alloc_list := head\<rparr>" and ?m = "m\<lparr>world := w, huges := h'\<rparr>" and ?G = "with_huges (remove1 x (g_huges G)) G"
    have "distinct (g_huges G)" using I(3) ll_list_distinct by (auto simp: huge_part_def)
    then have "set (g_huges ?G) = set (g_huges G) - {x}" by simp
    then have out: "x \<notin> objects ?G" using objects_apart [OF I(6) x] by (simp add: objects_def)
    have meta: "has_meta ?G HUGE_CHUNK_T_SIZE x" using I(6) x by (simp add: object_part_def has_meta_def)
    obtain h ts where f: "arena_internal_free ?a ?m x = ret (forget x (?m\<lparr>ias := h\<rparr>))" "settles mapped ?a ?m ?G ?a (forget x (?m\<lparr>ias := h\<rparr>)) (?G\<lparr>g_trees := ts\<rparr>)"
      "live ?a (forget x (?m\<lparr>ias := h\<rparr>)) (?G\<lparr>g_trees := ts\<rparr>) = live ?a ?m ?G"
      by (rule forget_settles [OF d(2) out meta]) (rule that)
    have "arena_deallocate_huge_mapping os a m x = ret (?a, forget x (?m\<lparr>ias := h\<rparr>))"
      using load un True d(1) f(1) by (simp add: arena_deallocate_huge_mapping_def Let_def del: load_ret_iff)
    moreover have "key (the (huges m x)) \<notin> mapped w" using w at(4) by (simp add: huge_space_def)
    then have "was_freed mapped ?a (forget x (?m\<lparr>ias := h\<rparr>)) (?G\<lparr>g_trees := ts\<rparr>) (key (the (huges m x)))" by (simp add: was_freed_def forget_def)
    moreover have "keeps_runs a m G ?a ?m ?G" by (rule keeps_runsI) simp_all
    then have "keeps_runs a m G ?a (forget x (?m\<lparr>ias := h\<rparr>)) (?G\<lparr>g_trees := ts\<rparr>)" using settlesD(7) [OF f(2)] by (rule keeps_runs_trans)
    ultimately show ?thesis using settlesD(1,2,3) [OF f(2)] f(3) d(3) by (intro disjI2 exI conjI allI) (assumption | simp)+
  qed
qed
subsection \<open>\<open>free\<close>\<close>

lemma live_positive:
  assumes inv: "arena_inv mapped X a m G" and p: "(p, s) \<in> live a m G"
  shows "p \<noteq> 0"
  using inv p
proof (cases rule: liveE)
  case (run i x)
  obtain c where c: "c \<in> set (g_chunks G)" "run_addr_range (bins a ! i) (the (runs m x)) \<subseteq> chunk_space m G c"
    using inv run(1,2) by (rule run_in_chunk)
  have "p \<in> chunk_space m G c" using c(2) run_abs_range [OF run(5,3)] by blast
  moreover have "0 < key (the (chunks m c))" using chunk_invD(1) [OF chunk_of(3) [OF arena_invD(2) [OF inv] c(1)]] .
  ultimately show ?thesis by (auto simp: chunk_space_def)
next
  case (huge x)
  then show ?thesis using huge_at(3) [OF arena_invD(3) [OF inv]] by simp
qed

lemma live_bound:
  assumes inv: "arena_inv mapped X a m G" and p: "(p, s) \<in> live a m G"
  shows "p + s \<le> 2 ^ 47" "p < 2 ^ 64"
proof -
  have "0 < s \<and> p + s \<le> 2 ^ 47"
    using inv p
  proof (cases rule: liveE)
    case (run i x)
    obtain c where c: "c \<in> set (g_chunks G)" "run_addr_range (bins a ! i) (the (runs m x)) \<subseteq> chunk_space m G c"
      using inv run(1,2) by (rule run_in_chunk)
    note r = region_in_run [OF run(5,3)]
    have "p + s - 1 \<in> {p..<p + reg_size (bins a ! i)}" using r(2) run(4) by auto
    then have "p + s - 1 \<in> chunk_space m G c" using c(2) r(1) by blast
    then show ?thesis using chunk_of(4) [OF arena_invD(2) [OF inv] c(1)] r(2) run(4) by (auto simp: chunk_space_def)
  next
    case (huge x)
    then show ?thesis using huge_at(4,6) [OF arena_invD(3) [OF inv] huge(1)] by simp
  qed
  then show "p + s \<le> 2 ^ 47" "p < 2 ^ 64" by simp_all
qed

text \<open>The metadata that the code finds for a live region.\<close>

lemma locate_live:
  assumes inv: "arena_inv mapped X a m G" and p: "(p, s) \<in> live a m G"
  obtains (run) i x c n where "locate_metadata_for_ptr a m p = ret (METADATA_REGULAR c x i, a)" "i < ARENA_NO_BINS" "x \<in> bin_runs G i"
      "g_home G x = (c, n)" "run_abs (bins a ! i) (run_at (runs m) x) p = Some STATE_ALLOC" "s = reg_size (bins a ! i)"
  | (huge) x where "locate_metadata_for_ptr a m p = ret (METADATA_HUGE x, a)" "x \<in> set (g_huges G)" "p = key (the (huges m x))" "s = hlen (the (huges m x))"
  using inv p
proof (cases rule: liveE)
  case r: (run i x)
  obtain c n where h: "g_home G x = (c, n)" "key (the (runs m x)) = block_ptr (the (chunks m c)) n"
    using run_home [OF arena_invD(5) [OF inv] r(1,2)] by metis
  have "in_first_leaf (the (chunks m c)) n p" by (rule region_in_first_leaf [OF r(5,3) h(2)])
  from locate_block [OF inv r(1,2) h(1) live_bound(2) [OF inv p] this] show thesis by (rule run) (use r h in simp_all)
next
  case h: (huge x)
  have "key (the (huges m x)) < 2 ^ 64" using h(2) live_bound(2) [OF inv p] by simp
  from locate_huge [OF inv h(1) this] show thesis using h by (intro huge) simp_all
qed

lemma sealloc_free_ok:
  assumes os: "os_sound os mapped" and inv: "arena_inv mapped {} a m G" and p: "(p, s) \<in> live a m G"
  shows "\<not> os_unmaps os \<and> sealloc_free os a m p = fail Exit
     \<or> (\<exists>a' m' G'. sealloc_free os a m p = ret (a', m') \<and> arena_inv mapped {} a' m' G' \<and> (\<forall>B. brk_below B a' = brk_below B a)
          \<and> bytes m' = bytes m \<and> live a' m' G' = live a m G - {(p, s)} \<and> was_freed mapped a' m' G' p \<and> keeps_runs a m G a' m' G')"
  using inv p
proof (cases rule: locate_live)
  case (run i x c n)
  have "sealloc_free os a m p = sealloc_free_with_metadata os a m c i x p"
    using run(1) live_positive [OF inv p] by (simp add: sealloc_free_def)
  then show ?thesis using free_region_ok [OF os inv run(2-5)] unfolding settles_def run(6) by metis
next
  case (huge x)
  have "sealloc_free os a m p = arena_deallocate_huge_mapping os a m x"
    using huge(1) live_positive [OF inv p] by (simp add: sealloc_free_def)
  then show ?thesis using deallocate_huge_ok [OF os inv huge(2)] huge(3,4) by metis
qed

text \<open>Any other pointer aborts, if it does not point to the unchecked tail of a run.\<close>

lemma sealloc_free_abort:
  assumes inv: "arena_inv mapped {} a m G" and p: "p \<noteq> 0" "p < 2 ^ 64" "\<And>s. (p, s) \<notin> live a m G"
    and tail: "\<And>i x. i < ARENA_NO_BINS \<Longrightarrow> x \<in> bin_runs G i \<Longrightarrow> p \<in> run_addr_range (bins a ! i) (run_at (runs m) x) \<Longrightarrow>
      ptr_checked (bins a ! i) (run_at (runs m) x) p"
  shows "sealloc_free os a m p = fail Abort"
proof (cases "\<exists>c n. (c, n) \<in> blocks G \<and> in_first_leaf (the (chunks m c)) n p")
  case True
  then obtain c n where cn: "(c, n) \<in> blocks G" "in_first_leaf (the (chunks m c)) n p" by blast
  note I = arena_invD [OF inv]
  obtain i x where x: "i < ARENA_NO_BINS" "x \<in> bin_runs G i" "g_home G x = (c, n)" using home_run [OF I(5), of c n] cn(1) by auto
  have hm: "key (the (runs m x)) = block_ptr (the (chunks m c)) n" "block_size n = run_size_pages (bins a ! i) * 4096"
    using run_home [OF I(5) x(1,2)] x(3) by (metis prod.inject)+
  have c: "c \<in> set (g_chunks G)" "n \<in> dom (g_used G c)" using cn(1) by (simp_all add: blocks_def)
  have "p \<in> block_range (the (chunks m c)) n" by (rule first_leaf_in_block(1) [OF chunk_of(3) [OF I(2) c(1)] c(2) cn(2)])
  then have "p \<in> run_addr_range (bins a ! i) (run_at (runs m) x)" using run_range_home [OF hm] by simp
  then have pc: "ptr_checked (bins a ! i) (run_at (runs m) x) p" by (rule tail [OF x(1,2)])
  have no: "run_abs (bins a ! i) (run_at (runs m) x) p \<noteq> Some STATE_ALLOC"
  proof
    assume "run_abs (bins a ! i) (run_at (runs m) x) p = Some STATE_ALLOC"
    then have "(p, reg_size (bins a ! i)) \<in> bin_live (bins a ! i) (runs m) (bin_runs G i)" using x(2) by (auto simp: bin_live_def bin_regions_def)
    then show False using p(3) live_split [OF x(1), of a m G] by blast
  qed
  note rep = bin_of_run(1) [OF I(4) x(1,2)]
  have "x \<in> set (g_act G i) \<union> set (g_inact G i)" using x(2) by (simp add: bin_runs_def)
  from deallocate_in_run_abort [OF rep this pc no] have "deallocate_in_run (bins a ! i) (runs m) x p = fail Abort" .
  moreover have "i < length (bins a)" using I(4) x(1) by (simp add: bin_part_def)
  ultimately have "sealloc_free_with_metadata os a m c i x p = fail Abort" by (simp add: sealloc_free_with_metadata_def arr_get_def)
  then show ?thesis using locate_block [OF inv x p(2) cn(2)] p(1) by (simp add: sealloc_free_def)
next
  case False
  have "key (the (huges m x)) \<noteq> p" if "x \<in> set (g_huges G)" for x
    using p(3) [of "hlen (the (huges m x))"] that by (auto simp: live_def)
  then have "arena_find_huge_mapping a m p = ret 0" by (rule find_huge(2) [OF inv])
  moreover have "locate_metadata_for_ptr a m p = bindR (arena_find_huge_mapping a m p) (\<lambda>huge. ret (if huge = 0 then METADATA_INVALID else METADATA_HUGE huge, a))"
    using False by (intro locate_outside [OF inv p(2)]) blast
  ultimately show ?thesis using p(1) by (simp add: sealloc_free_def)
qed

text \<open>So a second free aborts, as long as the address has not been handed out again.\<close>

lemma run_range_mapped:
  assumes "arena_inv mapped X a m G" "i < ARENA_NO_BINS" "x \<in> bin_runs G i"
  shows "run_addr_range (bins a ! i) (run_at (runs m) x) \<subseteq> mapped (world m)"
proof -
  obtain c where c: "c \<in> set (g_chunks G)" "run_addr_range (bins a ! i) (the (runs m x)) \<subseteq> chunk_space m G c"
    using assms by (rule run_in_chunk)
  then show ?thesis using space_partD(2) [OF arena_invD(7) [OF assms(1)] c(1)] by blast
qed

lemma freed_abort:
  assumes inv: "arena_inv mapped {} a m G" and p: "p \<noteq> 0" "p < 2 ^ 64" "was_freed mapped a m G p"
  shows "sealloc_free os a m p = fail Abort"
proof -
  have notin: "(p, s) \<notin> live a m G" for s
    using p(3) live_mapped [OF inv, of p s] region_not_live [OF inv] unfolding was_freed_def by (metis bstate_t.distinct(7))
  have "ptr_checked (bins a ! i) (run_at (runs m) x) p"
    if x: "i < ARENA_NO_BINS" "x \<in> bin_runs G i" "p \<in> run_addr_range (bins a ! i) (run_at (runs m) x)" for i x
  proof -
    have "p \<in> mapped (world m)" using run_range_mapped [OF inv x(1,2)] x(3) by blast
    then obtain j y where y: "j < ARENA_NO_BINS" "y \<in> bin_runs G j" "run_abs (bins a ! j) (run_at (runs m) y) p = Some STATE_ALLOC_FREE"
      using p(3) unfolding was_freed_def by blast
    note ry = run_of_bin(3) [OF arena_invD(4) [OF inv] y(1,2)]
    have "y = x"
      using runs_apart [OF inv x(1,2) y(1,2)] run_abs_range [OF ry y(3)] x(3) by blast
    moreover from this have "j = i" using arena_invD(4) [OF inv] x(1,2) y(1,2) unfolding bin_part_def by blast
    moreover obtain k where "k < regions (bins a ! j)" "p = region_addr (run_at (runs m) y) (bins a ! j) k"
      using y(3) run_invD(2) [OF ry] by (rule run_absE)
    ultimately show ?thesis using ptr_checked_region [OF ry] by simp
  qed
  from sealloc_free_abort [OF inv p(1,2) notin this] show ?thesis .
qed

end
