(* ===== verification/Arena_Realloc.thy ===== *)
theory Arena_Realloc
  imports Arena_Release
begin

text \<open>
  Reallocation on a well-formed arena (\<open>src/src/sealloc.c\<close>, \<open>src/src/arena.c\<close>): the metadata found
  before the new allocation is still right after it, and the contents move with the region.
\<close>

subsection \<open>The user's memory\<close>

lemma inv_bytes: "arena_inv mapped X a (m\<lparr>bytes := b\<rparr>) G = arena_inv mapped X a m G"
proof -
  have "chunk_space (m\<lparr>bytes := b\<rparr>) = chunk_space m" "huge_space (m\<lparr>bytes := b\<rparr>) = huge_space m" "at_home a (m\<lparr>bytes := b\<rparr>) = at_home a m"
    by (simp_all add: fun_eq_iff chunk_space_def huge_space_def at_home_def)
  then show ?thesis
    by (simp add: arena_inv_def pool_part_def chunk_part_def huge_part_def bin_part_def link_part_def object_part_def space_part_def)
qed

lemma live_bytes: "live a (m\<lparr>bytes := b\<rparr>) G = live a m G"
  by (simp add: live_def)

lemma mem_copy_at: "k < n \<Longrightarrow> mem_copy b dst src n (dst + k) = b (src + k)"
  by (simp add: mem_copy_def)

lemma mem_copy_frame: "x \<notin> {dst..<dst + n} \<Longrightarrow> mem_copy b dst src n x = b x"
  by (auto simp: mem_copy_def)

text \<open>The contents of a region of \<open>n\<close> bytes at \<open>p\<close> are at \<open>q\<close> now, and nothing outside the new region has changed.\<close>

definition moved :: "(addr \<Rightarrow> 8 word) \<Rightarrow> addr \<Rightarrow> nat \<Rightarrow> (addr \<Rightarrow> 8 word) \<Rightarrow> addr \<Rightarrow> nat \<Rightarrow> bool" where
  "moved b p n b' q t \<longleftrightarrow> (\<forall>k < n. b' (q + k) = b (p + k)) \<and> (\<forall>x. x \<notin> {q..<q + t} \<longrightarrow> b' x = b x)"

lemma moved_copy: "n \<le> l \<Longrightarrow> l \<le> t \<Longrightarrow> moved b p n (mem_copy b q p l) q t"
  unfolding moved_def by (auto simp: mem_copy_at mem_copy_frame)

subsection \<open>The metadata after an allocation\<close>

text \<open>A live region that starts inside of a run is a region of this run.\<close>

lemma live_in_run:
  assumes inv: "arena_inv mapped X a m G" and i: "i < ARENA_NO_BINS" "x \<in> bin_runs G i"
    and p: "(p, s) \<in> live a m G" "p \<in> run_addr_range (bins a ! i) (run_at (runs m) x)"
  shows "run_abs (bins a ! i) (run_at (runs m) x) p = Some STATE_ALLOC" "reg_size (bins a ! i) = s"
proof -
  note I = arena_invD [OF inv]
  have "run_abs (bins a ! i) (run_at (runs m) x) p = Some STATE_ALLOC \<and> reg_size (bins a ! i) = s"
    using inv p(1)
  proof (cases rule: liveE)
    case (run j y)
    have "x = y" using runs_apart [OF inv i run(1,2)] run_abs_range [OF run(5,3)] p(2) by blast
    moreover from this have "i = j" using I(4) i run(1,2) unfolding bin_part_def by blast
    ultimately show ?thesis using run by simp
  next
    case (huge y)
    obtain d where d: "d \<in> set (g_chunks G)" "run_addr_range (bins a ! i) (the (runs m x)) \<subseteq> chunk_space m G d"
      using inv i by (rule run_in_chunk)
    moreover have "p \<in> huge_space m y" using huge(2) huge_at(4) [OF I(3) huge(1)] by (simp add: huge_space_def)
    ultimately show ?thesis using space_partD(6) [OF I(7) d(1) huge(1)] p(2) by blast
  qed
  then show "run_abs (bins a ! i) (run_at (runs m) x) p = Some STATE_ALLOC" "reg_size (bins a ! i) = s" by simp_all
qed

lemma located_extends:
  assumes inv: "arena_inv mapped {} a m G" and i: "i < ARENA_NO_BINS" "x \<in> bin_runs G i" "g_home G x = (c, n)"
    "run_abs (bins a ! i) (run_at (runs m) x) p = Some st"
    and new: "arena_inv mapped {} a' m' G'" "extends m G m' G'" "(p, s) \<in> live a' m' G'"
  shows "x \<in> bin_runs G' i" "g_home G' x = (c, n)" "run_abs (bins a' ! i) (run_at (runs m') x) p = Some STATE_ALLOC" "reg_size (bins a' ! i) = s"
    "key (run_at (runs m') x) = key (run_at (runs m) x)"
proof -
  note I = arena_invD [OF inv] and I' = arena_invD [OF new(1)]
  have all: "x \<in> all_runs G" using i(1,2) by (auto simp: all_runs_def)
  show x: "x \<in> bin_runs G' i" and h: "g_home G' x = (c, n)" using new(2) i(2,3) all by (auto simp: extends_def)
  have hm: "(c, n) \<in> blocks G" "key (run_at (runs m) x) = block_ptr (the (chunks m c)) n" "block_size n = run_size_pages (bins a ! i) * 4096"
    using run_home [OF I(5) i(1,2)] i(3) by (metis prod.inject)+
  have hm': "(c, n) \<in> blocks G'" "key (run_at (runs m') x) = block_ptr (the (chunks m' c)) n" "block_size n = run_size_pages (bins a' ! i) * 4096"
    using run_home [OF I'(5) i(1) x] h by (metis prod.inject)+
  have "c \<in> set (g_chunks G)" using hm(1) by (simp add: blocks_def)
  then have "key (the (chunks m' c)) = key (the (chunks m c))" using new(2) by (simp add: extends_def)
  then show "key (run_at (runs m') x) = key (run_at (runs m) x)" using hm(2) hm'(2) by (simp add: block_ptr_def)
  then have range: "run_addr_range (bins a' ! i) (run_at (runs m') x) = run_addr_range (bins a ! i) (run_at (runs m) x)"
    using hm(3) hm'(3) by (simp add: run_addr_range_def)
  have p: "p \<in> run_addr_range (bins a' ! i) (run_at (runs m') x)"
    using run_abs_range [OF run_of_bin(3) [OF I(4) i(1,2)] i(4)] range by simp
  show "run_abs (bins a' ! i) (run_at (runs m') x) p = Some STATE_ALLOC" "reg_size (bins a' ! i) = s"
    using live_in_run [OF new(1) i(1) x new(3) p] by simp_all
qed

lemma validate_allocated:
  assumes "run_inv b r" "run_abs b r p = Some STATE_ALLOC"
  obtains j where "run_validate_ptr r b p = ret j" "j \<noteq> SIZE_MAX"
proof -
  note wf = run_invD(2) [OF assms(1)]
  obtain j where j: "j < regions b" "p = region_addr r b j" "region_state r j = STATE_ALLOC" using assms(2) wf by (rule run_absE)
  have "key r \<le> p" "p < 2 ^ 63" using run_range_bound [OF assms(1), of p] run_abs_range [OF assms] by simp_all
  moreover have "(p - key r) mod reg_size b = 0" "(p - key r) div reg_size b = j" using j(2) bin_wf_regions(4) [OF wf] by (simp_all add: region_addr_def)
  ultimately have "run_validate_ptr r b p = ret j"
    using j bin_wf_regions(4) [OF wf] run_geom_valid [OF run_invD(1) [OF assms(1)] j(1)] by (simp add: run_validate_ptr_eq)
  moreover have "j \<noteq> SIZE_MAX" using j(1) bin_wf_regions(3) [OF wf] by (simp add: SIZE_MAX_def)
  ultimately show thesis using that by blast
qed
lemma live_inj: "arena_inv mapped {} a m G \<Longrightarrow> inj_on fst (live a m G)"
proof (rule inj_onI)
  fix x y
  assume inv: "arena_inv mapped {} a m G" and x: "x \<in> live a m G" "y \<in> live a m G" "fst x = fst y"
  obtain p s t where xy: "x = (p, s)" "y = (p, t)" using x(3) by (cases x; cases y) simp
  have "0 < s" "0 < t" using live_space(1) [OF inv] x xy by blast+
  then show "x = y" using live_apart [OF inv, of p s p t] x xy by fastforce
qed

lemma live_new:
  assumes "arena_inv mapped {} a' m' G'" "live a' m' G' = insert (p, t) R" "(p, t) \<notin> R"
  shows "p \<notin> fst ` R"
proof
  assume "p \<in> fst ` R"
  then obtain u where u: "(p, u) \<in> R" by auto
  then have "(p, t) = (p, u)" using inj_onD [OF live_inj [OF assms(1), unfolded assms(2)], of "(p, t)" "(p, u)"] by simp
  then show False using u assms(3) by simp
qed

subsection \<open>Huge mappings\<close>

lemma inv_move_huge:
  assumes inv: "arena_inv mapped {} a m G" and x: "x \<in> set (g_huges G)" and q: "0 < q" "4096 dvd q" "q + t \<le> 2 ^ 47" "LARGE_SIZE_MAX_REGION < t" "4096 dvd t"
    and w: "mapped w = mapped (world m) - huge_space m x" and at_q: "{q..<q + t} \<subseteq> mapped (world m)" "{q..<q + t} \<inter> pool_space (g_pools G) = {}"
      "\<And>c. c \<in> set (g_chunks G) \<Longrightarrow> {q..<q + t} \<inter> chunk_space m G c = {}" "\<And>y. y \<in> set (g_huges G) \<Longrightarrow> {q..<q + t} \<inter> huge_space m y = {}"
  shows "arena_inv mapped {} a (m\<lparr>world := w, huges := (huges m)(x \<mapsto> (the (huges m x))\<lparr>key := q, hlen := t\<rparr>), bytes := b\<rparr>) G"
    "live a (m\<lparr>world := w, huges := (huges m)(x \<mapsto> (the (huges m x))\<lparr>key := q, hlen := t\<rparr>), bytes := b\<rparr>) G
       = insert (q, t) (live a m G - {(key (the (huges m x)), hlen (the (huges m x)))})"
proof -
  note I = arena_invD [OF inv] and S = space_partD [OF arena_invD(7) [OF inv]]
  let ?e = "(the (huges m x))\<lparr>key := q, hlen := t\<rparr>" let ?h = "(huges m)(x \<mapsto> ?e)"
  have list: "ll_list (huges m) (huge_alloc_list a) (g_huges G)" using I(3) by (simp add: huge_part_def)
  have list': "ll_list ?h (huge_alloc_list a) (g_huges G)" by (rule ll_list_upd [OF list x huge_at(2) [OF I(3) x]]) simp_all
  have of: "huge_of (the (?h y)) = (if y = x then {q..<q + t} else huge_space m y)" for y by (simp add: huge_of_def huge_space_of)
  have ok: "0 < key (the (?h y)) \<and> LARGE_SIZE_MAX_REGION < hlen (the (?h y)) \<and> 4096 dvd key (the (?h y)) \<and> key (the (?h y)) + hlen (the (?h y)) \<le> 2 ^ 47
      \<and> 4096 dvd hlen (the (?h y)) \<and> has_meta G HUGE_CHUNK_T_SIZE y \<and> y \<notin> set (g_chunks G) \<union> all_runs G" if "y \<in> set (g_huges G)" for y
    using that q huge_at(3,5-8) [OF I(3) that] objects_apart [OF I(6) that] I(6) by (simp add: object_part_def)
  have pools: "pool_space (g_pools G) \<subseteq> mapped w" using S(1) S(3) [OF x] w by blast
  have kept: "chunk_space m G c \<subseteq> mapped w" if "c \<in> set (g_chunks G)" for c using S(2) [OF that] S(6) [OF that x] w by blast
  have sub: "huge_of (the (?h y)) \<subseteq> mapped w - pool_space (g_pools G)" if y: "y \<in> set (g_huges G)" for y
  proof (cases "y = x")
    case True
    then show ?thesis using at_q(1,2) at_q(4) [OF x] w unfolding of by auto
  next
    case False
    then show ?thesis using S(3) [OF y] S(5) [OF x y] w unfolding of by auto
  qed
  have apart: "huge_of (the (?h y)) \<inter> huge_of (the (?h z)) = {}" if "y \<in> set (g_huges G)" "z \<in> set (g_huges G)" "y \<noteq> z" for y z
    using that S(5) [of y z] at_q(4) [of y] at_q(4) [of z] unfolding of by (simp add: Int_commute)
  have chunk: "huge_of (the (?h y)) \<inter> chunk_space m G c = {}" if "y \<in> set (g_huges G)" "c \<in> set (g_chunks G)" for y c
    using that S(6) [of c y] at_q(3) [of c] unfolding of by (simp add: Int_commute)
  note upd = inv_set_huges [OF inv list' ok pools kept sub apart chunk, of b]
  have same: "with_huges (g_huges G) G = G" by (simp add: with_huges_def)
  have head: "a\<lparr>huge_alloc_list := huge_alloc_list a\<rparr> = a" by simp
  show "arena_inv mapped {} a (m\<lparr>world := w, huges := ?h, bytes := b\<rparr>) G" using upd(1) unfolding same head by (simp add: fun_upd_def)
  have "huge_live ?h (set (g_huges G)) = insert (q, t) (huge_live (huges m) (set (g_huges G) - {x}))"
    using x by (auto simp: huge_live_def)
  then have "live a (m\<lparr>world := w, huges := ?h, bytes := b\<rparr>) G = insert (q, t) (run_live a m G \<union> huge_live (huges m) (set (g_huges G) - {x}))"
    using upd(2) unfolding same head by (simp add: fun_upd_def)
  also have "run_live a m G \<union> huge_live (huges m) (set (g_huges G) - {x}) = live a m G - {(key (the (huges m x)), hlen (the (huges m x)))}"
    by (rule live_without_huge [OF inv x])
  finally show "live a (m\<lparr>world := w, huges := ?h, bytes := b\<rparr>) G
       = insert (q, t) (live a m G - {(key (the (huges m x)), hlen (the (huges m x)))})" .
qed

lemma reallocate_huge_ok:
  assumes os: "os_contract os mapped" and go: "goes (provision os mapped L n a m \<and> t \<le> L) (arena_reallocate_huge_mapping os a m x t)"
    and brk: "brk_below B a" and inv: "arena_inv mapped {} a m G"
    and x: "x \<in> set (g_huges G)" and t: "LARGE_SIZE_MAX_REGION < t" "4096 dvd t"
  shows "\<not> os_unmaps os \<and> arena_reallocate_huge_mapping os a m x t = fail Exit
     \<or> (\<exists>q a' m'. arena_reallocate_huge_mapping os a m x t = ret (a', m') \<and> load (huges m') x = ret (the (huges m' x)) \<and> key (the (huges m' x)) = q \<and> 0 < q
          \<and> arena_inv mapped {} a' m' G \<and> brk_below B a' \<and> live a' m' G = insert (q, t) (live a m G - {(key (the (huges m x)), hlen (the (huges m x)))})
          \<and> q \<notin> fst ` live a m G \<and> moved (bytes m) (key (the (huges m x))) (min t (hlen (the (huges m x)))) (bytes m') q t
          \<and> keeps_runs a m G a' m' G \<and> q + t \<le> 2 ^ 47)"
proof -
  let ?e = "the (huges m x)"
  have t0: "0 < t" using t(1) by simp
  have go1: "goes (provision os mapped L n a m \<and> t \<le> L) (arena_morecore os HUGE_ALLOC_PTR reset_huge_alloc_ptr_start t (\<lambda>_. MAX_USERSPACE_ADDR64) a m)"
    using go by (rule goes_step) (simp_all add: arena_reallocate_huge_mapping_def)
  obtain q a1 g w where more: "arena_morecore os HUGE_ALLOC_PTR reset_huge_alloc_ptr_start t (\<lambda>_. MAX_USERSPACE_ADDR64) a m = ret (q, a1, m\<lparr>prng := g, world := w\<rparr>)"
    "same_arena a a1" "brk_below B a1" "0 < q" "4096 dvd q" "q + t \<le> 2 ^ 47"
    "{q..<q + t} \<inter> mapped (world m) = {}" "mapped w = mapped (world m) \<union> {q..<q + t}"
    using os t0 t(2) brk go1 by (rule morecore_huge_ok)
  define a2 where "a2 = (if q = huge_alloc_ptr a1 then a1\<lparr>huge_alloc_ptr := u64 (huge_alloc_ptr a1 + u64 (t + PAGE_SIZE))\<rparr> else a1)"
  let ?m1 = "m\<lparr>prng := g, world := w\<rparr>"
  have a2: "same_arena a a2" "brk_below B a2" using more(2,3) by (simp_all add: a2_def)
  have "mapped (world m) \<subseteq> mapped w" using more(8) by blast
  note grow = inv_grow [OF inv a2(1) refl this]
  note S = space_partD [OF arena_invD(7) [OF inv]] and at = huge_at [OF arena_invD(3) [OF inv] x]
  have spaces: "chunk_space ?m1 G = chunk_space m G" "huge_space ?m1 = huge_space m" by (simp_all add: fun_eq_iff chunk_space_def huge_space_def)
  have Q: "{q..<q + t} \<inter> T = {}" if "T \<subseteq> mapped (world m)" for T using that more(7) by blast
  let ?b = "if t < hlen ?e then mem_copy (bytes m) q (key ?e) t else mem_copy (bytes m) q (key ?e) (hlen ?e)"
  obtain code w' where un: "platform_unmap os w (key ?e) (hlen ?e) = (code, w')" by force
  have load: "load (huges m) x = ret ?e" using at(1,2) by simp
  show ?thesis
  proof (cases "code = PLATFORM_STATUS_OK")
    case False
    then show ?thesis using load un more(1) unmap_refused [OF un False] by (simp add: arena_reallocate_huge_mapping_def del: load_ret_iff)
  next
    case True
    have w': "mapped w' = mapped (world ?m1) - huge_space ?m1 x" using unmap_ok [OF os_contractD [OF os] un [unfolded True] at(5,8)] by (simp add: huge_space_def)
    let ?m2 = "?m1\<lparr>world := w', huges := (huges ?m1)(x \<mapsto> (the (huges ?m1 x))\<lparr>key := q, hlen := t\<rparr>), bytes := ?b\<rparr>"
    have s1: "{q..<q + t} \<subseteq> mapped (world ?m1)" using more(8) by simp
    have s2: "{q..<q + t} \<inter> pool_space (g_pools G) = {}" using S(1) by (rule Q)
    have s3: "{q..<q + t} \<inter> chunk_space ?m1 G c = {}" if "c \<in> set (g_chunks G)" for c unfolding spaces using S(2) [OF that] by (intro Q) blast
    have s4: "{q..<q + t} \<inter> huge_space ?m1 y = {}" if "y \<in> set (g_huges G)" for y unfolding spaces using S(3) [OF that] by (intro Q) blast
    note mv = inv_move_huge [OF grow(1) x more(4,5,6) t w' s1 s2 s3 s4, of ?b]
    have run: "arena_reallocate_huge_mapping os a m x t = ret (a2, ?m2)"
      using load un True more(1) by (simp add: arena_reallocate_huge_mapping_def Let_def del: load_ret_iff flip: a2_def)
    have "moved (bytes m) (key ?e) (min t (hlen ?e)) ?b q t" by (simp add: moved_copy)
    moreover have "q \<notin> fst ` live a m G" using live_space [OF inv, of q] more(7) t0 by fastforce
    moreover have "keeps_runs a m G a2 ?m2 G" by (rule keeps_runsI) (simp_all add: same_arenaD(6) [OF a2(1)])
    ultimately show ?thesis using run mv grow(2) a2(2) more(4,6) at(1) by (intro disjI2 exI [of _ q] exI [of _ a2] exI [of _ ?m2]) simp
  qed
qed
subsection \<open>\<open>realloc\<close>\<close>

definition reallocated :: "('w \<Rightarrow> addr set) \<Rightarrow> nat \<Rightarrow> arena_t \<Rightarrow> 'w mem \<Rightarrow> ghost \<Rightarrow> addr \<Rightarrow> nat \<Rightarrow> nat \<Rightarrow> (addr \<times> arena_t \<times> 'w mem) res \<Rightarrow> bool" where
  "reallocated mapped B a m G p s n r \<longleftrightarrow> (\<exists>q t a' m' G'. r = ret (q, a', m') \<and> q \<noteq> 0 \<and> n \<le> t \<and> arena_inv mapped {} a' m' G' \<and> brk_below B a'
     \<and> live a' m' G' = insert (q, t) (live a m G - {(p, s)}) \<and> q \<notin> fst ` live a m G \<and> moved (bytes m) p (min n s) (bytes m') q t)"

lemma reallocatedI:
  assumes "r = ret (q, a', m')" "q \<noteq> 0" "n \<le> t" "arena_inv mapped {} a' m' G'" "brk_below B a'"
    "live a' m' G' = insert (q, t) (live a m G) - {(p, s)}" "q \<notin> fst ` live a m G" "(p, s) \<in> live a m G" "moved (bytes m) p (min n s) (bytes m') q t"
  shows "reallocated mapped B a m G p s n r"
proof -
  have "live a' m' G' = insert (q, t) (live a m G - {(p, s)})" using assms(6-8) by force
  then show ?thesis using assms unfolding reallocated_def by blast
qed

text \<open>The old region is freed after the copy, and its metadata is still the same.\<close>

lemma free_old_region:
  assumes os: "os_sound os mapped" and inv: "arena_inv mapped {} a m G" and i: "i < ARENA_NO_BINS" "x \<in> bin_runs G i" "g_home G x = (c, k)"
    "run_abs (bins a ! i) (run_at (runs m) x) p = Some STATE_ALLOC"
    and new: "arena_inv mapped {} a1 m1 G1" "extends m G m1 G1" "live a1 m1 G1 = insert (q, t) (live a m G)" "(p, s) \<in> live a m G"
  shows "reg_size (bins a1 ! i) = s \<and> (\<not> os_unmaps os \<and> sealloc_free_with_metadata os a1 (m1\<lparr>bytes := b\<rparr>) c i x p = fail Exit
     \<or> (\<exists>a2 m2 G2. sealloc_free_with_metadata os a1 (m1\<lparr>bytes := b\<rparr>) c i x p = ret (a2, m2) \<and> settles mapped a1 (m1\<lparr>bytes := b\<rparr>) G1 a2 m2 G2
          \<and> live a2 m2 G2 = insert (q, t) (live a m G) - {(p, s)}))"
proof -
  have "(p, s) \<in> live a1 m1 G1" using new(3,4) by simp
  note loc = located_extends [OF inv i new(1,2) this]
  have inv1: "arena_inv mapped {} a1 (m1\<lparr>bytes := b\<rparr>) G1" using new(1) by (simp add: inv_bytes)
  have abs: "run_abs (bins a1 ! i) (run_at (runs (m1\<lparr>bytes := b\<rparr>)) x) p = Some STATE_ALLOC" using loc(3) by simp
  show ?thesis
    using free_region_ok [OF os inv1 i(1) loc(1,2) abs] loc(4) unfolding live_bytes new(3) by blast
qed

lemma realloc_regular_ok:
  assumes os: "os_contract os mapped" "CHUNK_SIZE_BYTES \<le> L" and serve: "P \<longrightarrow> provision os mapped L 771 a m \<and> n + 4096 \<le> L"
    and go: "goes P (realloc_regular os a m c i x p n)" and brk: "brk_below B a" and inv: "arena_inv mapped {} a m G" and i: "i < ARENA_NO_BINS" "x \<in> bin_runs G i" "g_home G x = (c, k)"
    "run_abs (bins a ! i) (run_at (runs m) x) p = Some STATE_ALLOC" and live: "(p, s) \<in> live a m G"
    and n: "1 \<le> n" "n + 4096 \<le> 2 ^ 64"
  shows "\<not> os_unmaps os \<and> realloc_regular os a m c i x p n = fail Exit \<or> reallocated mapped B a m G p s n (realloc_regular os a m c i x p n)"
proof -
  note I = arena_invD [OF inv]
  have len: "i < length (bins a')" if "arena_inv mapped {} a' m' G'" for a' m' G' using arena_invD(4) [OF that] i(1) by (simp add: bin_part_def)
  have r: "load (runs m) x = ret (the (runs m x))" using run_of_bin(1,2) [OF I(4) i(1,2)] by simp
  obtain j where val: "run_validate_ptr (the (runs m x)) (bins a ! i) p = ret j" "j \<noteq> SIZE_MAX"
    using validate_allocated [OF run_of_bin(3) [OF I(4) i(1,2)] i(4)] by blast
  have z: "n + 4095 < 2 ^ 64" using n(2) by simp
  show ?thesis
  proof (cases "IS_SIZE_HUGE n")
    case True
    note al = alignup_page64_bounds [OF z]
    have t: "LARGE_SIZE_MAX_REGION < alignup_page64 n" using al(1) True by (simp add: IS_SIZE_HUGE_def)
    have sv: "P \<longrightarrow> provision os mapped L (Suc 0) a m \<and> alignup_page64 n \<le> L" using serve al(2) by (auto intro: supplied_mono)
    have go1: "goes P (arena_allocate_huge_mapping os a m (alignup_page64 n))"
      using go by (rule goes_step) (use r val True len [OF inv] in \<open>simp_all add: realloc_regular_def arr_get_def del: load_ret_iff\<close>)
    obtain h q a1 m1 G1 where A: "arena_allocate_huge_mapping os a m (alignup_page64 n) = ret (h, a1, m1)" "load (huges m1) h = ret (the (huges m1 h))"
      "key (the (huges m1 h)) = q" "0 < q" "q + alignup_page64 n \<le> 2 ^ 47" "arena_inv mapped {} a1 m1 G1" "brk_below B a1"
      "live a1 m1 G1 = insert (q, alignup_page64 n) (live a m G)" "(q, alignup_page64 n) \<notin> live a m G" "bytes m1 = bytes m" "bins a1 = bins a"
      "extends m G m1 G1" "h \<in> set (g_huges G1)"
      by (rule allocate_huge_ok [OF os sv go1 brk inv t al(3)]) (rule that)
    let ?b = "mem_copy (bytes m1) q p (reg_size (bins a1 ! i))"
    note F = free_old_region [OF os_contractD [OF os(1)] inv i A(6,12,8) live, of ?b]
    have s: "reg_size (bins a1 ! i) = s" "s \<le> alignup_page64 n"
    proof -
      show s: "reg_size (bins a1 ! i) = s" using F by blast
      have "x \<in> bin_runs G1 i" using A(12) i(2) by (auto simp: extends_def)
      from bin_wf_regions(6) [OF bin_repD(1) [OF bin_of_run(1) [OF arena_invD(4) [OF A(6)] i(1) this]]]
      show "s \<le> alignup_page64 n" using s al(1) True by (simp add: IS_SIZE_HUGE_def LARGE_SIZE_MAX_REGION_def)
    qed
    have run: "realloc_regular os a m c i x p n = bindR (sealloc_free_with_metadata os a1 (m1\<lparr>bytes := ?b\<rparr>) c i x p) (\<lambda>(arena, m).
        bindR (load (huges m) h) (\<lambda>y. ret (key y, arena, m)))"
      using r val True A(1,2,3) len [OF inv] len [OF A(6)] by (simp add: realloc_regular_def arr_get_def del: load_ret_iff)
    from F [THEN conjunct2] show ?thesis
    proof (elim disjE exE conjE)
      fix a2 m2 G2
      assume f: "sealloc_free_with_metadata os a1 (m1\<lparr>bytes := ?b\<rparr>) c i x p = ret (a2, m2)" "settles mapped a1 (m1\<lparr>bytes := ?b\<rparr>) G1 a2 m2 G2"
        "live a2 m2 G2 = insert (q, alignup_page64 n) (live a m G) - {(p, s)}"
      have "huges m2 h = huges m1 h" using settlesD(6) [OF f(2) A(13)] by simp
      then have ld: "load (huges m2) h = ret (the (huges m1 h))" using A(2) by simp
      have res: "realloc_regular os a m c i x p n = ret (q, a2, m2)" unfolding run using f(1) ld A(3) by (simp del: load_ret_iff)
      have "moved (bytes m) p (min n s) (bytes m2) q (alignup_page64 n)"
        unfolding settlesD(3) [OF f(2)] using A(10) s by (simp add: moved_copy)
      moreover have "brk_below B a2" using settlesD(2) [OF f(2)] A(7) by simp
      ultimately show ?thesis using reallocatedI [OF res _ al(1) settlesD(1) [OF f(2)] _ f(3) live_new [OF A(6,8,9)] live] A(4) by simp
    qed (simp add: run)
  next
    case False
    have zr: "n \<le> LARGE_SIZE_MAX_REGION" using False by (simp add: IS_SIZE_HUGE_def)
    note cl = aligned_size_least(1,2) [OF n(1) zr]
    have u: "u32 (aligned_size n) = aligned_size n" using size_class_bounds [OF cl(1)] by (simp add: wrap_simps)
    have sv: "P \<longrightarrow> provision os mapped L (768 + (3 + 0)) a m" using serve by simp
    have go1: "goes P (prepared_bin os a m (aligned_size n))"
      using go by (rule goes_step) (use r val False len [OF inv] u in \<open>simp_all add: realloc_regular_def arr_get_def del: load_ret_iff\<close>)
    obtain j a1 m1 G1 where P: "prepared_bin os a m (aligned_size n) = ret ((True, j), a1, m1)" "j < ARENA_NO_BINS" "arena_inv mapped {} a1 m1 G1" "brk_below B a1"
      "P \<longrightarrow> provision os mapped L (3 + 0) a1 m1" "live a1 m1 G1 = live a m G"
      "bin_rep (bins a1 ! j) (runs m1) (g_act G1 j) (g_inact G1 j)" "bin_index (reg_size (bins a1 ! j)) = j"
      "reg_size (bins a1 ! j) = aligned_size n" "0 < avail_regs (bins a1 ! j)" "bytes m1 = bytes m" "extends m G m1 G1"
      by (rule prepared_bin_ok [OF os cl(1) sv go1 brk inv]) (rule that)
    have go2: "goes P (sealloc_allocate_with_bin os a1 m1 j)"
      using go by (rule goes_step) (use r val False len [OF inv] u P(1) in \<open>simp_all add: realloc_regular_def arr_get_def del: load_ret_iff\<close>)
    obtain q a2 m2 G2 where A: "sealloc_allocate_with_bin os a1 m1 j = ret (q, a2, m2)" "q \<noteq> 0" "arena_inv mapped {} a2 m2 G2" "brk_below B a2"
      "P \<longrightarrow> provision os mapped L 0 a2 m2" "live a2 m2 G2 = insert (q, reg_size (bins a1 ! j)) (live a1 m1 G1)" "(q, reg_size (bins a1 ! j)) \<notin> live a1 m1 G1"
      "bytes m2 = bytes m1" "reg_size (bins a2 ! j) = reg_size (bins a1 ! j)" "extends m1 G1 m2 G2"
      by (rule allocate_with_bin_ok [OF os P(2,5) go2 P(4,3,7,8,10)]) (rule that)
    have ext: "extends m G m2 G2" using P(12) A(10) by (rule extends_trans)
    have lv: "live a2 m2 G2 = insert (q, aligned_size n) (live a m G)" using A(6) P(6,9) by simp
    let ?l = "if reg_size (bins a2 ! i) < reg_size (bins a2 ! j) then reg_size (bins a2 ! i) else reg_size (bins a2 ! j)"
    let ?b = "mem_copy (bytes m2) q p ?l"
    note F = free_old_region [OF os_contractD [OF os(1)] inv i A(3) ext lv live, of ?b]
    have "j < length (bins a2)" using arena_invD(4) [OF A(3)] P(2) by (simp add: bin_part_def)
    then have run: "realloc_regular os a m c i x p n = bindR (sealloc_free_with_metadata os a2 (m2\<lparr>bytes := ?b\<rparr>) c i x p) (\<lambda>(arena, m). ret (q, arena, m))"
      using r val False P(1) A(1,2) len [OF inv] len [OF A(3)] u by (simp add: realloc_regular_def arr_get_def Let_def del: load_ret_iff)
    from F [THEN conjunct2] show ?thesis
    proof (elim disjE exE conjE)
      fix a3 m3 G3
      assume f: "sealloc_free_with_metadata os a2 (m2\<lparr>bytes := ?b\<rparr>) c i x p = ret (a3, m3)" "settles mapped a2 (m2\<lparr>bytes := ?b\<rparr>) G2 a3 m3 G3"
        "live a3 m3 G3 = insert (q, aligned_size n) (live a m G) - {(p, s)}"
      have res: "realloc_regular os a m c i x p n = ret (q, a3, m3)" unfolding run using f(1) by simp
      have l: "?l = min s (aligned_size n)" using F A(9) P(9) by auto
      have "moved (bytes m) p (min n s) (mem_copy (bytes m) q p (min s (aligned_size n))) q (aligned_size n)"
        using cl(2) by (intro moved_copy) auto
      then have "moved (bytes m) p (min n s) (bytes m3) q (aligned_size n)" unfolding settlesD(3) [OF f(2)] using A(8) P(11) l by simp
      moreover have "brk_below B a3" using settlesD(2) [OF f(2)] A(4) by simp
      moreover have "q \<notin> fst ` live a m G" using A(3) lv by (rule live_new) (use A(7) P(6,9) in simp)
      ultimately show ?thesis using reallocatedI [OF res A(2) cl(2) settlesD(1) [OF f(2)] _ f(3) _ live] by simp
    qed (simp add: run)
  qed
qed

lemma realloc_huge_ok:
  assumes os: "os_contract os mapped" "CHUNK_SIZE_BYTES \<le> L" and serve: "P \<longrightarrow> provision os mapped L 771 a m \<and> t \<le> L"
    and go: "goes P (realloc_huge os a m x t)" and brk: "brk_below B a" and inv: "arena_inv mapped {} a m G" and x: "x \<in> set (g_huges G)" "p = key (the (huges m x))" "s = hlen (the (huges m x))"
    and n: "n \<le> t" "4096 dvd t"
  shows "\<not> os_unmaps os \<and> realloc_huge os a m x t = fail Exit \<or> reallocated mapped B a m G p s n (realloc_huge os a m x t)"
proof -
  have live: "(p, s) \<in> live a m G" using x by (auto simp: live_def)
  show ?thesis
  proof (cases "IS_SIZE_HUGE t")
    case True
    have t: "LARGE_SIZE_MAX_REGION < t" using True by (simp add: IS_SIZE_HUGE_def)
    have go1: "goes (provision os mapped L 771 a m \<and> t \<le> L) (arena_reallocate_huge_mapping os a m x t)"
      using go by (rule goes_step) (use True serve in \<open>simp_all add: realloc_huge_def\<close>)
    have run: "realloc_huge os a m x t = bindR (arena_reallocate_huge_mapping os a m x t) (\<lambda>(arena, m). bindR (load (huges m) x) (\<lambda>y. ret (key y, arena, m)))"
      using True by (simp add: realloc_huge_def)
    from reallocate_huge_ok [OF os(1) go1 brk inv x(1) t n(2)] show ?thesis
    proof (elim disjE exE conjE)
      fix q a' m'
      assume f: "arena_reallocate_huge_mapping os a m x t = ret (a', m')" "load (huges m') x = ret (the (huges m' x))" "key (the (huges m' x)) = q" "0 < q"
        "arena_inv mapped {} a' m' G" "brk_below B a'" "live a' m' G = insert (q, t) (live a m G - {(key (the (huges m x)), hlen (the (huges m x)))})"
        "q \<notin> fst ` live a m G" "moved (bytes m) (key (the (huges m x))) (min t (hlen (the (huges m x)))) (bytes m') q t"
      have "realloc_huge os a m x t = ret (q, a', m')" using f(1-3) by (simp add: run del: load_ret_iff)
      moreover have "moved (bytes m) p (min n s) (bytes m') q t" using f(9) n(1) unfolding x(2,3) moved_def by auto
      moreover have "live a' m' G = insert (q, t) (live a m G - {(p, s)})" using f(7) x(2,3) by simp
      ultimately show ?thesis unfolding reallocated_def using f(4-6,8) n(1) by blast
    qed (simp add: run)
  next
    case False
    have tL: "t \<le> LARGE_SIZE_MAX_REGION" using False by (simp add: IS_SIZE_HUGE_def)
    then have t64: "t + 4096 \<le> 2 ^ 64" "t + 4096 \<le> L" using os(2) by (simp_all add: LARGE_SIZE_MAX_REGION_def CHUNK_SIZE_BYTES_def)
    then have sv: "P \<longrightarrow> provision os mapped L 771 a m \<and> t + 4096 \<le> L" using serve by blast
    have load: "load (huges m) x = ret (the (huges m x))" using huge_at(1,2) [OF arena_invD(3) [OF inv] x(1)] by simp
    have go1: "goes P (sealloc_malloc os a m t)"
      using go by (rule goes_step) (use False load in \<open>simp_all add: realloc_huge_def del: load_ret_iff\<close>)
    obtain q a1 m1 G1 where A: "sealloc_malloc os a m t = ret (q, a1, m1)" "q \<noteq> 0" "arena_inv mapped {} a1 m1 G1" "brk_below B a1"
      "live a1 m1 G1 = insert (q, region_size t) (live a m G)" "(q, region_size t) \<notin> live a m G" "bytes m1 = bytes m" "extends m G m1 G1"
      by (rule sealloc_malloc_ok [OF os sv go1 brk inv t64(1)]) (rule that)
    have rs: "t \<le> region_size t" using t64(1) by (intro region_size_bounds) simp
    have x1: "x \<in> set (g_huges G1)" "key (the (huges m1 x)) = p" "hlen (the (huges m1 x)) = s" using A(8) x by (auto simp: extends_def)
    note at = huge_at [OF arena_invD(3) [OF A(3)] x1(1)]
    let ?b = "mem_copy (bytes m1) q p t"
    have inv1: "arena_inv mapped {} a1 (m1\<lparr>bytes := ?b\<rparr>) G1" using A(3) by (simp add: inv_bytes)
    have run: "realloc_huge os a m x t = bindR (arena_deallocate_huge_mapping os a1 (m1\<lparr>bytes := ?b\<rparr>) x) (\<lambda>(arena, m). ret (q, arena, m))"
    proof -
      have "load (huges m1) x = ret (the (huges m1 x))" using at(1,2) by simp
      then show ?thesis using False A(1,2) x1(2) by (simp add: realloc_huge_def del: load_ret_iff)
    qed
    from deallocate_huge_ok [OF os_contractD [OF os(1)] inv1 x1(1)] show ?thesis
    proof (elim disjE exE conjE)
      fix a2 m2 G2
      assume f: "arena_deallocate_huge_mapping os a1 (m1\<lparr>bytes := ?b\<rparr>) x = ret (a2, m2)" "arena_inv mapped {} a2 m2 G2" "\<forall>B. brk_below B a2 = brk_below B a1"
        "bytes m2 = bytes (m1\<lparr>bytes := ?b\<rparr>)"
        "live a2 m2 G2 = live a1 (m1\<lparr>bytes := ?b\<rparr>) G1 - {(key (the (huges (m1\<lparr>bytes := ?b\<rparr>) x)), hlen (the (huges (m1\<lparr>bytes := ?b\<rparr>) x)))}"
      have lv: "live a2 m2 G2 = insert (q, region_size t) (live a m G) - {(p, s)}" using f(5) x1(2,3) A(5) by (simp add: live_bytes)
      have res: "realloc_huge os a m x t = ret (q, a2, m2)" unfolding run using f(1) by simp
      have "moved (bytes m) p (min n s) (bytes m2) q (region_size t)" using f(4) A(7) n(1) rs by (simp add: moved_copy)
      moreover have "brk_below B a2" using f(3) A(4) by simp
      moreover have "n \<le> region_size t" using n(1) rs by simp
      ultimately show ?thesis using reallocatedI [OF res A(2) _ f(2) _ lv live_new [OF A(3,5,6)] live] by simp
    qed (simp add: run)
  qed
qed

lemma sealloc_realloc_ok:
  assumes os: "os_contract os mapped" "CHUNK_SIZE_BYTES \<le> L" and serve: "P \<longrightarrow> provision os mapped L 771 a m \<and> n + 4096 \<le> L"
    and go: "goes P (sealloc_realloc os a m p n)" and brk: "brk_below B a"
    and inv: "arena_inv mapped {} a m G" and p: "(p, s) \<in> live a m G" and n: "1 \<le> n" "n + 4096 \<le> 2 ^ 64"
  shows "\<not> os_unmaps os \<and> sealloc_realloc os a m p n = fail Exit \<or> reallocated mapped B a m G p s n (sealloc_realloc os a m p n)"
  using inv p
proof (cases rule: locate_live)
  case (run i x c k)
  have "sealloc_realloc os a m p n = realloc_regular os a m c i x p n"
    using run(1) live_positive [OF inv p] by (simp add: sealloc_realloc_def)
  moreover have "goes P (realloc_regular os a m c i x p n)" using go unfolding calculation .
  ultimately show ?thesis using realloc_regular_ok [OF os serve _ brk inv run(2-5) p n] by simp
next
  case (huge x)
  have z: "n + 4095 < 2 ^ 64" using n(2) by simp
  note al = alignup_page64_bounds [OF z]
  have sv: "P \<longrightarrow> provision os mapped L 771 a m \<and> alignup_page64 n \<le> L" using serve al(2) by auto
  have "sealloc_realloc os a m p n = realloc_huge os a m x (alignup_page64 n)"
    using huge(1) live_positive [OF inv p] by (simp add: sealloc_realloc_def)
  moreover have "goes P (realloc_huge os a m x (alignup_page64 n))" using go unfolding calculation .
  ultimately show ?thesis using realloc_huge_ok [OF os sv _ brk inv huge(2-4) al(1,3)] by simp
qed

subsection \<open>Size 0\<close>

text \<open>Size 0 rounds to 0, which the code takes for a large class: the slot of the class of 16 KiB.\<close>

lemma aligned_size_zero: "aligned_size 0 = 0"
  by (simp add: aligned_size_def IS_SIZE_SMALL_def IS_SIZE_MEDIUM_def alignup_large_size_def ceil_div_def npow2_def u32_def Let_def)

lemma bin_index_zero: "bin_index 0 = 36" "bin_index 16384 = 36"
proof -
  show "bin_index 16384 = 36" using bin_index_large [of 0] by simp
  show "bin_index 0 = 36"
    by (simp add: bin_index_def IS_SIZE_SMALL_def IS_SIZE_MEDIUM_def size_to_idx_large_def ctz_def ctz_loop.simps NO_SMALL_SIZE_CLASSES_def NO_MEDIUM_SIZE_CLASSES_def)
qed

lemma first_large_class: "16384 \<in> set size_classes" "aligned_size 16384 = 16384"
proof -
  have "16384 \<in> set large_classes" unfolding set_large_classes by (intro CollectI exI [of _ 0]) simp
  then show c: "16384 \<in> set size_classes" by (simp add: size_classes_def)
  show "aligned_size 16384 = 16384" using c by (rule aligned_size_fixed)
qed

lemma prepared_bin_zero:
  assumes "bin_part a m G"
  shows "prepared_bin os a m 0 = (if reg_size (bins a ! 36) = 0 then fail DivByZero else prepared_bin os a m 16384)"
proof -
  have len: "36 < length (bins a)" using assms by (simp add: bin_part_def ARENA_NO_BINS_eq)
  then have "arena_get_bin_by_reg_size a 0 = (if reg_size (bins a ! 36) = 0 then fail DivByZero else arena_get_bin_by_reg_size a 16384)"
    by (simp add: arena_get_bin_by_reg_size_def arr_get_def bin_index_zero bin_init_def Let_def)
  then show ?thesis unfolding prepared_bin_def by (cases "reg_size (bins a ! 36) = 0") simp_all
qed

lemma sealloc_realloc_zero:
  assumes inv: "arena_inv mapped {} a m G" and p: "(p, s) \<in> live a m G" "s \<le> LARGE_SIZE_MAX_REGION"
  shows "sealloc_realloc os a m p 0 = (if reg_size (bins a ! 36) = 0 then fail DivByZero else sealloc_realloc os a m p 16384)"
  using inv p(1)
proof (cases rule: locate_live)
  case (run i x c k)
  note I = arena_invD [OF inv]
  have r: "load (runs m) x = ret (the (runs m x))" using run_of_bin(1,2) [OF I(4) run(2,3)] by simp
  obtain j where val: "run_validate_ptr (the (runs m x)) (bins a ! i) p = ret j" "j \<noteq> SIZE_MAX"
    using validate_allocated [OF run_of_bin(3) [OF I(4) run(2,3)] run(5)] by blast
  have "i < length (bins a)" using I(4) run(2) by (simp add: bin_part_def)
  then have "realloc_regular os a m c i x p 0 = (if reg_size (bins a ! 36) = 0 then fail DivByZero else realloc_regular os a m c i x p 16384)"
    using r val prepared_bin_zero [OF I(4), of os]
    by (simp add: realloc_regular_def arr_get_def IS_SIZE_HUGE_def LARGE_SIZE_MAX_REGION_def aligned_size_zero first_large_class u32_def del: load_ret_iff)
  then show ?thesis using run(1) live_positive [OF inv p(1)] by (simp add: sealloc_realloc_def)
next
  case (huge x)
  then show ?thesis using p(2) huge_at(7) [OF arena_invD(3) [OF inv] huge(2)] by simp
qed

end
