(* ===== verification/Session.thy ===== *)
theory Session
  imports Arena_Realloc
begin

text \<open>
  Sessions of the exported functions of \<open>src/src/malloc_api.c\<close>: the first call initialises the
  static arena, no later call does so again, and every call keeps the arena well-formed.
\<close>

subsection \<open>The arena stays initialised\<close>

named_theorems init_kept "calls that leave the flag of the arena as it is"

lemma reset_kept [init_kept]:
  "reset_ia_ptr_start a g = ret (a', g') \<Longrightarrow> is_initialized a' = is_initialized a"
  "reset_huge_alloc_ptr_start a g = ret (a', g') \<Longrightarrow> is_initialized a' = is_initialized a"
  "reset_chunk_ptr_start a g = ret (a', g') \<Longrightarrow> is_initialized a' = is_initialized a"
  by (auto simp: reset_ia_ptr_start_def reset_huge_alloc_ptr_start_def reset_chunk_ptr_start_def Let_def
      split: prod.splits if_splits)

lemma set_probe_kept [simp]: "is_initialized (set_probe pp q a) = is_initialized a"
  by (cases pp) simp_all

definition keeps_init :: "reset_fun \<Rightarrow> bool" where
  "keeps_init reset \<longleftrightarrow> (\<forall>a g a' g'. reset a g = ret (a', g') \<longrightarrow> is_initialized a' = is_initialized a)"

lemma keeps_initD: "keeps_init reset \<Longrightarrow> reset a g = ret (a', g') \<Longrightarrow> is_initialized a' = is_initialized a"
  by (auto simp: keeps_init_def)

lemma morecore_kept_aux:
  assumes "arena_morecore os pp reset sz ceil a m = Some r"
  shows "keeps_init reset \<longrightarrow> (\<forall>q a' m'. r = Inr (q, a', m') \<longrightarrow> is_initialized a' = is_initialized a)"
  using assms
proof (rule arena_morecore.raw_induct [where P = "\<lambda>os pp reset sz ceil a m r. keeps_init reset \<longrightarrow>
    (\<forall>q a' m'. r = Inr (q, a', m') \<longrightarrow> is_initialized a' = is_initialized a)", rotated], goal_cases)
  case (1 more os pp reset sz ceil a m r)
  show ?case
  proof (intro impI allI)
    fix q a' m'
    assume k: "keeps_init reset" and r: "r = Inr (q, a', m')"
    note eq = 1(2) [unfolded r]
    note IH = 1(1) [THEN mp, OF _ k, rule_format]
    from eq obtain code q1 w where "platform_map_probe os (world m) (get_probe pp a) (ceil a) sz = ret (code, q1, w)"
      by (auto simp: bindR_ret_iff)
    with eq show "is_initialized a' = is_initialized a"
      by (auto simp: Let_def split: if_splits dest!: IH keeps_initD [OF k])
  qed
qed

lemma morecore_kept [init_kept]:
  "arena_morecore os INTERNAL_ALLOC_PTR reset_ia_ptr_start sz ceil a m = ret (q, a', m') \<Longrightarrow> is_initialized a' = is_initialized a"
  "arena_morecore os HUGE_ALLOC_PTR reset_huge_alloc_ptr_start sz ceil a m = ret (q, a', m') \<Longrightarrow> is_initialized a' = is_initialized a"
  "arena_morecore os CHUNK_ALLOC_PTR reset_chunk_ptr_start sz ceil a m = ret (q, a', m') \<Longrightarrow> is_initialized a' = is_initialized a"
  by (auto dest!: morecore_kept_aux simp: keeps_init_def reset_kept)
lemma internal_alloc_kept [init_kept]:
  "arena_internal_alloc os a m sz = ret (p, a', m') \<Longrightarrow> is_initialized a' = is_initialized a"
  by (auto simp: arena_internal_alloc_def Let_def split: if_splits dest!: init_kept)

lemma huge_kept [init_kept]:
  "arena_allocate_huge_mapping os a m sz = ret (p, a', m') \<Longrightarrow> is_initialized a' = is_initialized a"
  "arena_reallocate_huge_mapping os a m x sz = ret (a', m') \<Longrightarrow> is_initialized a' = is_initialized a"
  "arena_deallocate_huge_mapping os a m x = ret (a', m') \<Longrightarrow> is_initialized a' = is_initialized a"
  by (auto simp: arena_allocate_huge_mapping_def arena_reallocate_huge_mapping_def arena_deallocate_huge_mapping_def Let_def
      split: if_splits prod.splits dest!: init_kept)

lemma run_kept [init_kept]:
  "arena_allocate_chunk os a m = ret (p, a', m') \<Longrightarrow> is_initialized a' = is_initialized a"
  "new_run os a m b q = ret (p, a', m') \<Longrightarrow> is_initialized a' = is_initialized a"
  by (auto simp: arena_allocate_chunk_def new_run_def Let_def split: if_splits dest!: init_kept)

lemma allocate_run_kept [init_kept]:
  "arena_allocate_run os a m b = ret (p, a', m') \<Longrightarrow> is_initialized a' = is_initialized a"
  by (auto simp: arena_allocate_run_def Let_def split: if_splits dest!: init_kept)

lemma bin_kept [init_kept]:
  "add_run_to_bin os a m i = ret (ok, a', m') \<Longrightarrow> is_initialized a' = is_initialized a"
  "arena_get_bin_by_reg_size a sz = ret (i, a') \<Longrightarrow> is_initialized a' = is_initialized a"
  by (auto simp: add_run_to_bin_def arena_get_bin_by_reg_size_def Let_def split: if_splits dest!: init_kept)

lemma supply_kept [init_kept]:
  "supply_loop os i a m n = ret (ok, a', m') \<Longrightarrow> is_initialized a' = is_initialized a"
  by (induction n arbitrary: a m) (auto split: if_splits dest!: init_kept)

lemma allocate_kept [init_kept]:
  "prepared_bin os a m sz = ret (r, a', m') \<Longrightarrow> is_initialized a' = is_initialized a"
  "sealloc_allocate_with_bin os a m i = ret (p, a', m') \<Longrightarrow> is_initialized a' = is_initialized a"
  by (auto simp: prepared_bin_def arena_supply_runs_def sealloc_allocate_with_bin_def Let_def split: if_splits dest!: init_kept)

lemma malloc_kept [init_kept]:
  "sealloc_malloc os a m sz = ret (p, a', m') \<Longrightarrow> is_initialized a' = is_initialized a"
  by (auto simp: sealloc_malloc_def Let_def split: if_splits dest!: init_kept)

lemma locate_kept [init_kept]:
  "locate_metadata_for_ptr a m p = ret (r, a') \<Longrightarrow> is_initialized a' = is_initialized a"
  by (auto simp: locate_metadata_for_ptr_def Let_def split: if_splits dest!: init_kept)

lemma free_kept [init_kept]:
  "sealloc_free_with_metadata os a m c i x p = ret (a', m') \<Longrightarrow> is_initialized a' = is_initialized a"
  by (auto simp: sealloc_free_with_metadata_def release_run_def arena_deallocate_chunk_def Let_def
      split: if_splits prod.splits dest!: init_kept)

lemma realloc_kept [init_kept]:
  "realloc_huge os a m x sz = ret (p, a', m') \<Longrightarrow> is_initialized a' = is_initialized a"
  "realloc_regular os a m c i x q sz = ret (p, a', m') \<Longrightarrow> is_initialized a' = is_initialized a"
  by (auto simp: realloc_huge_def realloc_regular_def Let_def split: if_splits dest!: init_kept)

lemma sealloc_kept [init_kept]:
  "sealloc_free os a m p = ret (a', m') \<Longrightarrow> is_initialized a' = is_initialized a"
  "sealloc_realloc os a m p sz = ret (q, a', m') \<Longrightarrow> is_initialized a' = is_initialized a"
  "sealloc_calloc os a m k sz = ret (q, a', m') \<Longrightarrow> is_initialized a' = is_initialized a"
  by (auto simp: sealloc_free_def sealloc_realloc_def sealloc_calloc_def Let_def split: if_splits metadata_t.splits dest!: init_kept)

subsection \<open>\<open>calloc\<close>\<close>

text \<open>The product of the arguments wraps around; what is served is the wrapped size.\<close>

lemma sealloc_calloc_serves:
  assumes os: "os_contract os mapped" "CHUNK_SIZE_BYTES \<le> L" and serve: "P \<longrightarrow> provision os mapped L 771 a m \<and> u64 (nmemb * sz) + 4096 \<le> L"
    and go: "goes P (sealloc_calloc os a m nmemb sz)" and brk: "brk_below B a"
    and inv: "arena_inv mapped {} a m G" and n: "nmemb \<noteq> 0" "sz \<noteq> 0" "u64 (nmemb * sz) + 4096 \<le> 2 ^ 64"
  obtains p a' m' G' where "sealloc_calloc os a m nmemb sz = ret (p, a', m')" "p \<noteq> 0" "arena_inv mapped {} a' m' G'" "brk_below B a'"
    "live a' m' G' = insert (p, region_size (u64 (nmemb * sz))) (live a m G)" "(p, region_size (u64 (nmemb * sz))) \<notin> live a m G"
    "bytes m' = mem_set (bytes m) p 0 (u64 (nmemb * sz))"
proof -
  have go1: "goes P (sealloc_malloc os a m (u64 (nmemb * sz)))"
    using go by (rule goes_step) (use n in \<open>simp_all add: sealloc_calloc_def\<close>)
  obtain p a' m' G' where A: "sealloc_malloc os a m (u64 (nmemb * sz)) = ret (p, a', m')" "p \<noteq> 0" "arena_inv mapped {} a' m' G'" "brk_below B a'"
    "live a' m' G' = insert (p, region_size (u64 (nmemb * sz))) (live a m G)"
    "(p, region_size (u64 (nmemb * sz))) \<notin> live a m G" "bytes m' = bytes m"
    by (rule sealloc_malloc_ok [OF os serve go1 brk inv n(3)]) (rule that)
  have "sealloc_calloc os a m nmemb sz = ret (p, a', m'\<lparr>bytes := mem_set (bytes m) p 0 (u64 (nmemb * sz))\<rparr>)"
    using A(1,2,7) n by (simp add: sealloc_calloc_def)
  then show thesis by (rule that) (use A in \<open>simp_all add: inv_bytes live_bytes\<close>)
qed

lemma sealloc_calloc_ok:
  assumes os: "os_contract os mapped" "CHUNK_SIZE_BYTES \<le> L" and serve: "P \<longrightarrow> provision os mapped L 771 a m \<and> nmemb * sz + 4096 \<le> L"
    and go: "goes P (sealloc_calloc os a m nmemb sz)" and brk: "brk_below B a"
    and inv: "arena_inv mapped {} a m G" and n: "nmemb \<noteq> 0" "sz \<noteq> 0" "nmemb * sz + 4096 \<le> 2 ^ 64"
  obtains p a' m' G' where "sealloc_calloc os a m nmemb sz = ret (p, a', m')" "p \<noteq> 0" "arena_inv mapped {} a' m' G'" "brk_below B a'"
    "live a' m' G' = insert (p, region_size (nmemb * sz)) (live a m G)" "(p, region_size (nmemb * sz)) \<notin> live a m G"
    "bytes m' = mem_set (bytes m) p 0 (nmemb * sz)"
proof -
  have u: "u64 (nmemb * sz) = nmemb * sz" using n(3) by (simp add: wrap_simps)
  show thesis using sealloc_calloc_serves [OF os _ go brk inv n(1,2)] serve n(3) that unfolding u by blast
qed

subsection \<open>Initialisation\<close>

text \<open>The kernel, or the environment variable, supplies a seed, and a program break below the bound.\<close>

definition os_boots :: "'w os \<Rightarrow> addr \<Rightarrow> 'w \<Rightarrow> bool" where
  "os_boots os B w \<longleftrightarrow> (\<exists>w1. (if os_getenv os w ''SEALLOC_SEED'' = None then \<exists>v. platform_get_random os w = (PLATFORM_STATUS_OK, Some v, w1) else w1 = w)
     \<and> (\<exists>p w2. platform_get_program_break os w1 = (PLATFORM_STATUS_OK, p, w2) \<and> p \<le> B))"

lemma arena_init_ok:
  assumes boots: "os_boots os B (world m)" and B: "2 ^ 45 \<le> B" "B < MAX_USERSPACE_ADDR64"
  obtains a' m' where "arena_init os a m = ret (a', m')" "is_initialized a'" "brk_below B a'" "bytes m' = bytes m"
    "internal_alloc_list a' = 0" "chunk_list a' = 0" "huge_alloc_list a' = 0" "bins a' = replicate ARENA_NO_BINS bin_zero"
proof -
  note result = that
  obtain w1 p w2 where w: "if os_getenv os (world m) ''SEALLOC_SEED'' = None then \<exists>v. platform_get_random os (world m) = (PLATFORM_STATUS_OK, Some v, w1) else w1 = world m"
    "platform_get_program_break os w1 = (PLATFORM_STATUS_OK, p, w2)" "p \<le> B"
    using boots unfolding os_boots_def by blast
  have seeded: "\<exists>s. (case os_getenv os (world m) ''SEALLOC_SEED'' of Some user_rand \<Rightarrow> ret (a\<lparr>secret := str2u32 user_rand\<rparr>, world m)
      | None \<Rightarrow> (case platform_get_random os (world m) of (code, buf, w) \<Rightarrow> if code \<noteq> PLATFORM_STATUS_OK then fail Exit
          else ret (case buf of Some v \<Rightarrow> a\<lparr>secret := v\<rparr> | None \<Rightarrow> a, w))) = ret (a\<lparr>secret := s\<rparr>, w1)"
    using w(1) by (auto split: option.splits if_splits)
  then obtain s where s: "(case os_getenv os (world m) ''SEALLOC_SEED'' of Some user_rand \<Rightarrow> ret (a\<lparr>secret := str2u32 user_rand\<rparr>, world m)
      | None \<Rightarrow> (case platform_get_random os (world m) of (code, buf, w) \<Rightarrow> if code \<noteq> PLATFORM_STATUS_OK then fail Exit
          else ret (case buf of Some v \<Rightarrow> a\<lparr>secret := v\<rparr> | None \<Rightarrow> a, w))) = ret (a\<lparr>secret := s\<rparr>, w1)" by blast
  let ?a = "a\<lparr>secret := s, brk := p, internal_alloc_list := 0, chunk_list := 0, huge_alloc_list := 0, is_initialized := True\<rparr>"
  have b: "brk_below B ?a" using w(3) B by (simp add: brk_below_def)
  let ?g = "init_splitmix64 (ucast s) (init_splitmix32 s (prng m))"
  obtain a1 g1 where 1: "reset_chunk_ptr_start ?a ?g = ret (a1, g1)" "same_arena ?a a1" "brk_below B a1"
    using reset_ret [OF b, of CHUNK_ALLOC_PTR ?g] by auto
  obtain a2 g2 where 2: "reset_ia_ptr_start a1 g1 = ret (a2, g2)" "same_arena a1 a2" "brk_below B a2"
    using reset_ret [OF 1(3), of INTERNAL_ALLOC_PTR g1] by auto
  obtain a3 g3 where 3: "reset_huge_alloc_ptr_start a2 g2 = ret (a3, g3)" "same_arena a2 a3" "brk_below B a3"
    using reset_ret [OF 2(3), of HUGE_ALLOC_PTR g2] by auto
  have run: "arena_init os a m = ret (a3\<lparr>bins := replicate ARENA_NO_BINS bin_zero\<rparr>, m\<lparr>prng := g3, world := w2\<rparr>)"
    unfolding arena_init_def s using w(2) 1(1) 2(1) 3(1) by (simp add: ll_init_def Let_def)
  have "same_arena ?a a3" using 1(2) 2(2) 3(2) by (blast intro: same_arena_trans)
  from same_arenaD [OF this] show thesis by (intro result [OF run]) (use 3(3) in \<open>simp_all add: brk_below_def\<close>)
qed

text \<open>The program break lies below a bound. Without a seed or a break the process exits.\<close>

definition os_break :: "'w os \<Rightarrow> addr \<Rightarrow> bool" where
  "os_break os B \<longleftrightarrow> (\<forall>w p w'. os_sbrk0 os w = (Inr p, w') \<longrightarrow> p \<le> B)"

lemma break_below:
  assumes "os_break os B" "platform_get_program_break os w = (PLATFORM_STATUS_OK, p, w')"
  shows "p \<le> B"
proof -
  have "get_error_from_errno e \<noteq> PLATFORM_STATUS_OK" for e by (cases e) simp_all
  then have "os_sbrk0 os w = (Inr p, w')" using assms(2) by (auto simp: platform_get_program_break_def split: prod.splits sum.splits)
  then show ?thesis using assms(1) unfolding os_break_def by blast
qed

lemma random_seed:
  assumes "platform_get_random os w = (PLATFORM_STATUS_OK, buf, w')"
  obtains v where "buf = Some v"
proof -
  have "get_error_from_errno e \<noteq> PLATFORM_STATUS_OK" for e by (cases e) simp_all
  then show thesis using assms that by (auto simp: platform_get_random_def split: prod.splits sum.splits option.splits)
qed

lemma arena_init_exit:
  assumes "os_break os B" "\<not> os_boots os B (world m)"
  shows "arena_init os a m = fail Exit"
proof (cases "os_getenv os (world m) ''SEALLOC_SEED''")
  case (Some seed)
  obtain code p w where b: "platform_get_program_break os (world m) = (code, p, w)" by (cases "platform_get_program_break os (world m)")
  have "code \<noteq> PLATFORM_STATUS_OK"
  proof
    assume "code = PLATFORM_STATUS_OK"
    with b break_below [OF assms(1)] have "\<exists>p w2. platform_get_program_break os (world m) = (PLATFORM_STATUS_OK, p, w2) \<and> p \<le> B" by blast
    then show False using assms(2) Some by (simp add: os_boots_def)
  qed
  then show ?thesis using Some b by (simp add: arena_init_def)
next
  case None
  obtain code buf w where r: "platform_get_random os (world m) = (code, buf, w)" by (cases "platform_get_random os (world m)")
  show ?thesis
  proof (cases "code = PLATFORM_STATUS_OK")
    case True
    obtain v where v: "buf = Some v" using random_seed [OF r [unfolded True]] .
    obtain c2 p w2 where b: "platform_get_program_break os w = (c2, p, w2)" by (cases "platform_get_program_break os w")
    have "c2 \<noteq> PLATFORM_STATUS_OK"
    proof
      assume "c2 = PLATFORM_STATUS_OK"
      with b break_below [OF assms(1)] have "\<exists>p w2. platform_get_program_break os w = (PLATFORM_STATUS_OK, p, w2) \<and> p \<le> B" by blast
      then show False using assms(2) None r True v unfolding os_boots_def by auto
    qed
    then show ?thesis using None r True v b by (simp add: arena_init_def)
  qed (use None r in \<open>simp add: arena_init_def\<close>)
qed

lemma arena_init_inv:
  assumes "os_boots os B (world m)" "2 ^ 45 \<le> B" "B < MAX_USERSPACE_ADDR64"
  obtains a' m' where "arena_init os a m = ret (a', m')" "is_initialized a'" "brk_below B a'" "bytes m' = bytes m"
    "arena_inv mapped {} a' m' g_empty" "live a' m' g_empty = {}"
  using arena_init_ok [OF assms, of a] arena_inv_empty by metis

subsection \<open>Calls of a program\<close>

text \<open>The calls, as the code of \<open>malloc_api.c\<close> answers them; \<open>free\<close> returns nothing.\<close>

datatype call = Malloc nat | Calloc nat nat | Realloc addr nat | Free addr

fun do_call :: "'w os \<Rightarrow> arena_t \<Rightarrow> 'w mem \<Rightarrow> call \<Rightarrow> (addr \<times> arena_t \<times> 'w mem) res" where
  "do_call os a m (Malloc n) = api_malloc os a m n"
| "do_call os a m (Calloc k n) = api_calloc os a m k n"
| "do_call os a m (Realloc p n) = api_realloc os a m p n"
| "do_call os a m (Free p) = bindR (api_free os a m p) (\<lambda>(a, m). ret (0, a, m))"

text \<open>
  The blocks a program holds, with the sizes it asked for: what it may free or reallocate,
  and what it holds after a call that returned \<open>p\<close>.
\<close>

type_synonym holding = "(addr \<times> nat) set"

text \<open>What a call may pass: a block that is held, and a size that stays a \<open>size_t\<close> when it is rounded up to pages.\<close>

fun call_size :: "call \<Rightarrow> nat" where
  "call_size (Malloc n) = n"
| "call_size (Calloc k n) = k * n"
| "call_size (Realloc p n) = n"
| "call_size (Free p) = 0"

fun valid_args :: "holding \<Rightarrow> call \<Rightarrow> bool" where
  "valid_args H (Realloc p n) \<longleftrightarrow> p = 0 \<or> p \<in> fst ` H \<and> 1 \<le> n"
| "valid_args H (Free p) \<longleftrightarrow> p = 0 \<or> p \<in> fst ` H"
| "valid_args H c \<longleftrightarrow> True"

definition valid_call :: "holding \<Rightarrow> call \<Rightarrow> bool" where
  "valid_call H c \<longleftrightarrow> valid_args H c \<and> call_size c + 4096 \<le> 2 ^ 64"

definition without :: "addr \<Rightarrow> holding \<Rightarrow> holding" where
  "without p H = {x \<in> H. fst x \<noteq> p}"

fun holding_after :: "call \<Rightarrow> addr \<Rightarrow> holding \<Rightarrow> holding" where
  "holding_after (Malloc n) p H = insert (p, n) H"
| "holding_after (Calloc k n) p H = (if k * n = 0 then H else insert (p, k * n) H)"
| "holding_after (Realloc q n) p H = insert (p, n) (without q H)"
| "holding_after (Free q) p H = without q H"

text \<open>What a call promises: its result, and the memory \<open>b'\<close> after it.\<close>

fun promised :: "call \<Rightarrow> addr \<Rightarrow> holding \<Rightarrow> (addr \<Rightarrow> 8 word) \<Rightarrow> (addr \<Rightarrow> 8 word) \<Rightarrow> bool" where
  "promised (Malloc n) p H b b' \<longleftrightarrow> p \<noteq> 0"
| "promised (Calloc k n) p H b b' \<longleftrightarrow> (if k * n = 0 then p = 0 else p \<noteq> 0 \<and> (\<forall>i < k * n. b' (p + i) = 0))"
| "promised (Realloc q n) p H b b' \<longleftrightarrow> p \<noteq> 0 \<and> (\<forall>s i. (q, s) \<in> H \<longrightarrow> i < min n s \<longrightarrow> b' (p + i) = b (q + i))"
| "promised (Free q) p H b b' \<longleftrightarrow> True"

definition untouched :: "holding \<Rightarrow> (addr \<Rightarrow> 8 word) \<Rightarrow> (addr \<Rightarrow> 8 word) \<Rightarrow> bool" where
  "untouched H b b' \<longleftrightarrow> (\<forall>(p, n) \<in> H. \<forall>x \<in> {p..<p + n}. b' x = b x)"

text \<open>The blocks held are starts of the live regions, one for each.\<close>

definition holds :: "holding \<Rightarrow> (addr \<times> nat) set \<Rightarrow> bool" where
  "holds H R \<longleftrightarrow> inj_on fst H \<and> fst ` H = fst ` R \<and> (\<forall>(p, n) \<in> H. \<exists>t. (p, t) \<in> R \<and> n \<le> t)"

lemma holds_insert: "holds H R \<Longrightarrow> n \<le> t \<Longrightarrow> p \<notin> fst ` R \<Longrightarrow> holds (insert (p, n) H) (insert (p, t) R)"
  by (auto simp: holds_def)

lemma fst_without: "fst ` without p S = fst ` S - {p}"
  by (auto simp: without_def image_iff)

lemma without_region:
  assumes "(p, t) \<in> R" "inj_on fst R"
  shows "R - {(p, t)} = without p R"
proof -
  have "u = t" if "(p, u) \<in> R" for u using inj_onD [OF assms(2) _ that assms(1)] by simp
  then have "fst x \<noteq> p \<longleftrightarrow> x \<noteq> (p, t)" if "x \<in> R" for x using that by (metis fst_conv prod.collapse)
  then show ?thesis unfolding without_def by blast
qed

lemma holds_without:
  assumes "holds H R" "(p, t) \<in> R" "inj_on fst R"
  shows "holds (without p H) (R - {(p, t)})"
proof -
  note R = without_region [OF assms(2,3)] and f = fst_without
  have "\<exists>u. (q, u) \<in> without p R \<and> n \<le> u" if "(q, n) \<in> without p H" for q n
    using that assms(1) by (force simp: holds_def without_def)
  moreover have "inj_on fst (without p H)" using assms(1) by (auto simp: holds_def without_def inj_on_def)
  moreover have "fst ` without p H = fst ` without p R" using assms(1) unfolding f by (simp add: holds_def)
  ultimately show ?thesis unfolding R holds_def by blast
qed

subsection \<open>Sessions\<close>

type_synonym 'w session_state = "arena_t \<times> 'w mem \<times> holding"

text \<open>
  The program makes any valid call that returns, or stores a byte in a block it holds. Nothing is asked of the kernel here.
\<close>

inductive api_step :: "'w os \<Rightarrow> 'w session_state \<Rightarrow> 'w session_state \<Rightarrow> bool" for os where
  call: "valid_call H c \<Longrightarrow> do_call os a m c = ret (p, a', m') \<Longrightarrow> api_step os (a, m, H) (a', m', holding_after c p H)"
| store: "(p, n) \<in> H \<Longrightarrow> x \<in> {p..<p + n} \<Longrightarrow> api_step os (a, m, H) (a, m\<lparr>bytes := (bytes m)(x := v)\<rparr>, H)"

inductive_cases api_stepE: "api_step os (a, m, H) s"

inductive session :: "'w os \<Rightarrow> 'w session_state \<Rightarrow> bool" for os where
  start: "session os (static_arena, m, {})"
| step: "session os s \<Longrightarrow> api_step os s s' \<Longrightarrow> session os s'"

text \<open>
  The kernel is ready for a call: for the arena, initialised if it was not, there is room above the probe pointers
  and memory for what one call may ask for, of at most \<open>L\<close> bytes at once. \<open>free\<close> asks for nothing.
\<close>

definition os_ready :: "'w os \<Rightarrow> ('w \<Rightarrow> addr set) \<Rightarrow> nat \<Rightarrow> arena_t \<Rightarrow> 'w mem \<Rightarrow> call \<Rightarrow> bool" where
  "os_ready os mapped L a m c \<longleftrightarrow> (\<exists>p. c = Free p)
     \<or> call_size c + 4096 \<le> L \<and> (\<forall>a1 m1. with_init os a m = ret (a1, m1) \<longrightarrow> provision os mapped L 771 a1 m1)"

text \<open>The invariant: the arena is untouched, or initialised and well-formed, with a live region for every block held.\<close>

definition well_held :: "('w \<Rightarrow> addr set) \<Rightarrow> addr \<Rightarrow> arena_t \<Rightarrow> 'w mem \<Rightarrow> holding \<Rightarrow> bool" where
  "well_held mapped B a m H \<longleftrightarrow> is_initialized a \<and> brk_below B a \<and> (\<exists>G. arena_inv mapped {} a m G \<and> holds H (live a m G))"

definition session_inv :: "('w \<Rightarrow> addr set) \<Rightarrow> addr \<Rightarrow> arena_t \<Rightarrow> 'w mem \<Rightarrow> holding \<Rightarrow> bool" where
  "session_inv mapped B a m H \<longleftrightarrow> a = static_arena \<and> H = {} \<or> well_held mapped B a m H"

lemma well_heldI:
  "is_initialized a \<Longrightarrow> brk_below B a \<Longrightarrow> arena_inv mapped {} a m G \<Longrightarrow> holds H (live a m G) \<Longrightarrow> well_held mapped B a m H"
  by (auto simp: well_held_def)

text \<open>The first call that allocates initialises the arena.\<close>

lemma with_init_cases:
  assumes inv: "session_inv mapped B a m H" and c: "\<And>p. c \<noteq> Free p" and os: "os_break os B" and B: "2 ^ 45 \<le> B" "B < MAX_USERSPACE_ADDR64"
  obtains (exit) "do_call os a m c = fail Exit" "with_init os a m = fail Exit" "\<not> is_initialized a" "\<not> os_boots os B (world m)"
  | (init) a1 m1 where "with_init os a m = ret (a1, m1)" "well_held mapped B a1 m1 H" "bytes m1 = bytes m" "do_call os a m c = do_call os a1 m1 c"
proof (cases "is_initialized a \<or> os_boots os B (world m)")
  case True
  have "\<exists>a1 m1. with_init os a m = ret (a1, m1) \<and> well_held mapped B a1 m1 H \<and> bytes m1 = bytes m"
  proof (cases "is_initialized a")
    case True
    then show ?thesis using inv by (auto simp: with_init_def session_inv_def static_arena_def)
  next
    case False
    then have s: "a = static_arena" "H = {}" "os_boots os B (world m)"
      using inv True by (auto simp: session_inv_def well_held_def)
    obtain a1 m1 where "arena_init os a m = ret (a1, m1)" "is_initialized a1" "brk_below B a1" "bytes m1 = bytes m"
      "arena_inv mapped {} a1 m1 g_empty" "live a1 m1 g_empty = {}"
      by (rule arena_init_inv [OF s(3) B]) (rule that)
    moreover have "holds {} {}" by (simp add: holds_def)
    ultimately show ?thesis using False s(2) by (auto simp: with_init_def intro: well_heldI)
  qed
  then obtain a1 m1 where r: "with_init os a m = ret (a1, m1)" "well_held mapped B a1 m1 H" "bytes m1 = bytes m" by blast
  have "with_init os a1 m1 = ret (a1, m1)" using r(2) by (simp add: with_init_def well_held_def)
  then have "do_call os a m c = do_call os a1 m1 c"
  proof (cases c)
    case (Free p)
    then show ?thesis using c by blast
  qed (simp_all add: r(1) api_malloc_def api_calloc_def api_realloc_def)
  then show thesis using r init by blast
next
  case False
  then have "with_init os a m = fail Exit" using arena_init_exit [OF os] by (simp add: with_init_def)
  moreover from this have "do_call os a m c = fail Exit"
  proof (cases c)
    case (Free p)
    then show ?thesis using c by blast
  qed (simp_all add: api_malloc_def api_calloc_def api_realloc_def)
  ultimately show thesis using exit False by blast
qed

text \<open>An initialised arena keeps its flag, so its calls go to the allocator at once.\<close>

lemma do_call_initialized:
  assumes "is_initialized a"
  shows "do_call os a m (Malloc n) = sealloc_malloc os a m n" "do_call os a m (Calloc k n) = sealloc_calloc os a m k n"
    "do_call os a m (Realloc p n) = sealloc_realloc os a m p n"
  using assms by (simp_all add: api_malloc_def api_calloc_def api_realloc_def with_init_def)

definition call_ok :: "'w os \<Rightarrow> ('w \<Rightarrow> addr set) \<Rightarrow> addr \<Rightarrow> arena_t \<Rightarrow> 'w mem \<Rightarrow> holding \<Rightarrow> call \<Rightarrow> bool" where
  "call_ok os mapped B a m H c \<longleftrightarrow>
     (\<not> os_unmaps os \<or> \<not> is_initialized a \<and> \<not> os_boots os B (world m)) \<and> do_call os a m c = fail Exit
     \<or> (\<exists>p a' m'. do_call os a m c = ret (p, a', m') \<and> session_inv mapped B a' m' (holding_after c p H)
          \<and> promised c p H (bytes m) (bytes m') \<and> untouched (H \<inter> holding_after c p H) (bytes m) (bytes m'))"

lemma call_okI:
  "do_call os a m c = ret (p, a', m') \<Longrightarrow> well_held mapped B a' m' (holding_after c p H) \<Longrightarrow> promised c p H (bytes m) (bytes m')
     \<Longrightarrow> untouched (H \<inter> holding_after c p H) (bytes m) (bytes m') \<Longrightarrow> call_ok os mapped B a m H c"
  by (auto simp: call_ok_def session_inv_def)

text \<open>The bytes of the other blocks stay when only the new region is written.\<close>

lemma untouched_new:
  assumes inv: "arena_inv mapped {} a m G" and new: "(q, t) \<in> live a m G" and H: "\<And>p n. (p, n) \<in> H \<Longrightarrow> \<exists>s. (p, s) \<in> live a m G - {(q, t)} \<and> n \<le> s"
    and b: "\<And>x. x \<notin> {q..<q + t} \<Longrightarrow> b' x = b x"
  shows "untouched H b b'"
  unfolding untouched_def
proof (intro ballI, clarify)
  fix p n x
  assume p: "(p, n) \<in> H" and x: "x \<in> {p..<p + n}"
  obtain s where s: "(p, s) \<in> live a m G - {(q, t)}" "n \<le> s" using H [OF p] by blast
  then have "{q..<q + t} \<inter> {p..<p + s} = {}" using live_apart [OF inv new, of p s] by auto
  then show "b' x = b x" using x s(2) by (intro b) auto
qed

lemma call_new_ok:
  assumes r: "do_call os a m c = ret (p, a', m')" "holding_after c p H = insert (p, n) H" and H: "is_initialized a'" "holds H (live a m G)"
    and inv: "arena_inv mapped {} a' m' G'" "brk_below B a'" "live a' m' G' = insert (p, t) (live a m G)" "(p, t) \<notin> live a m G" "n \<le> t"
    and bytes: "promised c p H (bytes m) (bytes m')" "\<And>x. x \<notin> {p..<p + t} \<Longrightarrow> bytes m' x = bytes m x"
  shows "call_ok os mapped B a m H c"
proof (rule call_okI [OF r(1)])
  have p: "p \<notin> fst ` live a m G" using inv(1,3,4) by (rule live_new)
  show "well_held mapped B a' m' (holding_after c p H)"
    unfolding r(2) using H(1) inv(2,1) holds_insert [OF H(2) inv(5) p] unfolding inv(3) [symmetric] by (rule well_heldI)
  show "untouched (H \<inter> holding_after c p H) (bytes m) (bytes m')"
  proof (rule untouched_new [OF inv(1) _ _ bytes(2)])
    fix q k
    assume "(q, k) \<in> H \<inter> holding_after c p H"
    then show "\<exists>s. (q, s) \<in> live a' m' G' - {(p, t)} \<and> k \<le> s" using H(2) inv(3,4) by (fastforce simp: holds_def)
  qed (simp add: inv(3))
qed (rule bytes(1))

lemma malloc_call_ok:
  assumes os: "os_contract os mapped" "CHUNK_SIZE_BYTES \<le> L" and w: "well_held mapped B a m H" and serve: "P \<longrightarrow> provision os mapped L 771 a m \<and> n + 4096 \<le> L"
    and go: "goes P (do_call os a m (Malloc n))" and n: "n + 4096 \<le> 2 ^ 64"
  shows "call_ok os mapped B a m H (Malloc n)"
proof -
  obtain G where W: "is_initialized a" "brk_below B a" "arena_inv mapped {} a m G" "holds H (live a m G)" using w by (auto simp: well_held_def)
  have go1: "goes P (sealloc_malloc os a m n)" using go do_call_initialized(1) [OF W(1)] by metis
  obtain p a' m' G' where A: "sealloc_malloc os a m n = ret (p, a', m')" "p \<noteq> 0" "arena_inv mapped {} a' m' G'" "brk_below B a'"
    "live a' m' G' = insert (p, region_size n) (live a m G)" "(p, region_size n) \<notin> live a m G" "bytes m' = bytes m"
    by (rule sealloc_malloc_ok [OF os serve go1 W(2,3) n]) (rule that)
  have "n \<le> region_size n" using n by (intro region_size_bounds) simp
  moreover have "is_initialized a'" using malloc_kept [OF A(1)] W(1) by simp
  moreover have "do_call os a m (Malloc n) = ret (p, a', m')" using W(1) A(1) by (simp add: do_call_initialized del: do_call.simps)
  ultimately show ?thesis using A W(4) by (intro call_new_ok [where G' = G' and m' = m']) simp_all
qed

lemma calloc_call_ok:
  assumes os: "os_contract os mapped" "CHUNK_SIZE_BYTES \<le> L" and w: "well_held mapped B a m H" and serve: "P \<longrightarrow> provision os mapped L 771 a m \<and> k * n + 4096 \<le> L"
    and go: "goes P (do_call os a m (Calloc k n))" and n: "k * n + 4096 \<le> 2 ^ 64"
  shows "call_ok os mapped B a m H (Calloc k n)"
proof -
  obtain G where W: "is_initialized a" "brk_below B a" "arena_inv mapped {} a m G" "holds H (live a m G)" using w by (auto simp: well_held_def)
  show ?thesis
  proof (cases "k * n = 0")
    case True
    then have "do_call os a m (Calloc k n) = ret (0, a, m)" using W(1) by (auto simp: do_call_initialized sealloc_calloc_def simp del: do_call.simps)
    then show ?thesis using True w by (intro call_okI [where p = 0 and m' = m]) (auto simp: untouched_def)
  next
    case False
    then have kn: "k \<noteq> 0" "n \<noteq> 0" by simp_all
    have go1: "goes P (sealloc_calloc os a m k n)" using go do_call_initialized(2) [OF W(1)] by metis
    obtain p a' m' G' where A: "sealloc_calloc os a m k n = ret (p, a', m')" "p \<noteq> 0" "arena_inv mapped {} a' m' G'" "brk_below B a'"
      "live a' m' G' = insert (p, region_size (k * n)) (live a m G)" "(p, region_size (k * n)) \<notin> live a m G" "bytes m' = mem_set (bytes m) p 0 (k * n)"
      by (rule sealloc_calloc_ok [OF os serve go1 W(2,3) kn n]) (rule that)
    have "k * n \<le> region_size (k * n)" using n by (intro region_size_bounds) simp
    moreover have "is_initialized a'" using sealloc_kept(3) [OF A(1)] W(1) by simp
    moreover have "do_call os a m (Calloc k n) = ret (p, a', m')" using W(1) A(1) by (simp add: do_call_initialized del: do_call.simps)
    moreover have "promised (Calloc k n) p H (bytes m) (bytes m')" using A(2) False unfolding A(7) by (simp add: mem_set_def)
    moreover have "bytes m' x = bytes m x" if "x \<notin> {p..<p + region_size (k * n)}" for x
      using that calculation(1) unfolding A(7) by (auto simp: mem_set_def)
    moreover have "holding_after (Calloc k n) p H = insert (p, k * n) H" using False by simp
    ultimately show ?thesis using A(3-6) W(4) by (intro call_new_ok [where G' = G' and m' = m'])
  qed
qed

text \<open>A block held is the start of a live region of at least its size.\<close>

lemma held_live:
  assumes "holds H R" "p \<in> fst ` H"
  obtains t where "(p, t) \<in> R" "\<And>n. (p, n) \<in> H \<Longrightarrow> n \<le> t"
proof -
  obtain n where n: "(p, n) \<in> H" using assms(2) by auto
  obtain t where t: "(p, t) \<in> R" "n \<le> t" using n assms(1) by (auto simp: holds_def)
  have "k = n" if "(p, k) \<in> H" for k using inj_onD [of fst H "(p, k)" "(p, n)"] assms(1) n that by (simp add: holds_def)
  then show thesis using t that by blast
qed

lemma free_call_ok:
  assumes os: "os_sound os mapped" and w: "well_held mapped B a m H" "p \<in> fst ` H"
  shows "call_ok os mapped B a m H (Free p)"
proof -
  obtain G where W: "is_initialized a" "brk_below B a" "arena_inv mapped {} a m G" "holds H (live a m G)" using w(1) by (auto simp: well_held_def)
  obtain t where t: "(p, t) \<in> live a m G" using held_live [OF W(4) w(2)] by blast
  from sealloc_free_ok [OF os W(3) t] show ?thesis
  proof (elim disjE exE conjE)
    fix a' m' G'
    assume f: "sealloc_free os a m p = ret (a', m')" "arena_inv mapped {} a' m' G'" "\<forall>B. brk_below B a' = brk_below B a" "bytes m' = bytes m"
      "live a' m' G' = live a m G - {(p, t)}"
    have "is_initialized a'" using sealloc_kept(1) [OF f(1)] W(1) by simp
    moreover have "holds (without p H) (live a' m' G')" unfolding f(5) using W(4) t live_inj [OF W(3)] by (rule holds_without)
    ultimately have "well_held mapped B a' m' (without p H)" using f(2,3) W(2) by (intro well_heldI) simp_all
    then show ?thesis using f(1,4) by (intro call_okI [where p = 0 and m' = m']) (simp_all add: api_free_def untouched_def case_prod_unfold)
  qed (simp add: call_ok_def api_free_def)
qed

lemma realloc_call_ok:
  assumes os: "os_contract os mapped" "CHUNK_SIZE_BYTES \<le> L" and w: "well_held mapped B a m H" "p \<in> fst ` H" "1 \<le> n" "n + 4096 \<le> 2 ^ 64"
    and serve: "P \<longrightarrow> provision os mapped L 771 a m \<and> n + 4096 \<le> L" and go: "goes P (do_call os a m (Realloc p n))"
  shows "call_ok os mapped B a m H (Realloc p n)"
proof -
  obtain G where W: "is_initialized a" "brk_below B a" "arena_inv mapped {} a m G" "holds H (live a m G)" using w(1) by (auto simp: well_held_def)
  obtain s where s: "(p, s) \<in> live a m G" "\<And>k. (p, k) \<in> H \<Longrightarrow> k \<le> s" by (rule held_live [OF W(4) w(2)]) (rule that)
  have eq: "do_call os a m (Realloc p n) = sealloc_realloc os a m p n" using W(1) by (rule do_call_initialized)
  have "goes P (sealloc_realloc os a m p n)" using go unfolding eq .
  from sealloc_realloc_ok [OF os serve this W(2,3) s(1) w(3,4)] show ?thesis
  proof
    assume "\<not> os_unmaps os \<and> sealloc_realloc os a m p n = fail Exit"
    then show ?thesis unfolding call_ok_def eq by blast
  next
    assume "reallocated mapped B a m G p s n (sealloc_realloc os a m p n)"
    then obtain q t a' m' G' where A: "sealloc_realloc os a m p n = ret (q, a', m')" "q \<noteq> 0" "n \<le> t" "arena_inv mapped {} a' m' G'" "brk_below B a'"
      "live a' m' G' = insert (q, t) (live a m G - {(p, s)})" "q \<notin> fst ` live a m G" "moved (bytes m) p (min n s) (bytes m') q t"
      unfolding reallocated_def by blast
    have q: "q \<notin> fst ` (live a m G - {(p, s)})" using A(4,6) by (rule live_new) (use A(7) in force)
    have init: "is_initialized a'" using sealloc_kept(2) [OF A(1)] W(1) by simp
    have h: "holds (without p H) (live a m G - {(p, s)})" using W(4) s(1) live_inj [OF W(3)] by (rule holds_without)
    have "well_held mapped B a' m' (insert (q, n) (without p H))"
      using init A(5,4) holds_insert [OF h A(3) q] unfolding A(6) [symmetric] by (rule well_heldI)
    moreover have "promised (Realloc p n) q H (bytes m) (bytes m')"
    proof -
      have "bytes m' (q + i) = bytes m (p + i)" if "(p, k) \<in> H" "i < min n k" for k i
        using A(8) s(2) [OF that(1)] that(2) by (simp add: moved_def)
      then show ?thesis using A(2) by simp
    qed
    moreover have "untouched (H \<inter> insert (q, n) (without p H)) (bytes m) (bytes m')"
    proof (rule untouched_new [OF A(4)])
      fix r k
      assume r: "(r, k) \<in> H \<inter> insert (q, n) (without p H)"
      have "(q, n) \<notin> H" using W(4) A(7) by (force simp: holds_def)
      then have "(r, k) \<in> without p H" using r by auto
      then obtain u where "(r, u) \<in> live a m G - {(p, s)}" "k \<le> u" using h unfolding holds_def by blast
      then show "\<exists>u. (r, u) \<in> live a' m' G' - {(q, t)} \<and> k \<le> u" using A(6,7) by force
    qed (use A(6,8) in \<open>simp_all add: moved_def\<close>)
    ultimately show ?thesis using A(1) unfolding eq [symmetric] by (intro call_okI [where p = q and m' = m']) simp_all
  qed
qed

subsection \<open>Every valid call is answered\<close>

lemma null_not_held:
  assumes "session_inv mapped B a m H"
  shows "0 \<notin> fst ` H" "without 0 H = H"
proof -
  show n: "0 \<notin> fst ` H"
  proof (cases "H = {}")
    case False
    then obtain G where "arena_inv mapped {} a m G" "fst ` H = fst ` live a m G"
      using assms by (auto simp: session_inv_def well_held_def holds_def)
    then show ?thesis using live_positive by fastforce
  qed simp
  then show "without 0 H = H" by (auto simp: without_def image_iff)
qed

lemma call_ok_ready:
  assumes os: "os_contract os mapped" "CHUNK_SIZE_BYTES \<le> L" "os_break os B" and B: "2 ^ 45 \<le> B" "B < MAX_USERSPACE_ADDR64"
    and inv: "session_inv mapped B a m H" and c: "valid_call H c" and go: "goes (os_ready os mapped L a m c) (do_call os a m c)"
  shows "call_ok os mapped B a m H c"
proof (cases "\<exists>p. c = Free p")
  case True
  then obtain p where p: "c = Free p" by blast
  show ?thesis
  proof (cases "p = 0")
    case True
    with null_not_held [OF inv] inv p show ?thesis by (simp add: call_ok_def api_free_def sealloc_free_def untouched_def)
  next
    case False
    then have "p \<in> fst ` H" using c p by (simp add: valid_call_def)
    moreover from this have "well_held mapped B a m H" using inv by (auto simp: session_inv_def)
    ultimately show ?thesis unfolding p by (intro free_call_ok [OF os_contractD [OF os(1)]])
  qed
next
  case False
  then have nf: "c \<noteq> Free p" for p by blast
  from inv nf os(3) B show ?thesis
  proof (cases rule: with_init_cases)
    case exit
    then show ?thesis by (simp add: call_ok_def)
  next
    case i: (init a1 m1)
    have serve: "os_ready os mapped L a m c \<longrightarrow> provision os mapped L 771 a1 m1 \<and> call_size c + 4096 \<le> L"
      using i(1) nf by (auto simp: os_ready_def)
    have go1: "goes (os_ready os mapped L a m c) (do_call os a1 m1 c)" using go unfolding i(4) .
    have "call_ok os mapped B a1 m1 H c"
    proof (cases c)
      case (Realloc p n)
      show ?thesis
      proof (cases "p = 0")
        case True
        have "session_inv mapped B a1 m1 H" using i(2) by (simp add: session_inv_def)
        note null = null_not_held [OF this]
        have "(0, s) \<notin> H" for s using null(1) by force
        moreover note null(2)
        moreover have eq: "do_call os a1 m1 (Realloc 0 n) = do_call os a1 m1 (Malloc n)"
          using i(2) by (simp add: do_call_initialized well_held_def sealloc_realloc_def del: do_call.simps)
        moreover have "call_ok os mapped B a1 m1 H (Malloc n)"
        proof (rule malloc_call_ok [OF os(1,2) i(2)])
          show "goes (os_ready os mapped L a m c) (do_call os a1 m1 (Malloc n))" using go1 unfolding Realloc True eq .
        qed (use serve c Realloc in \<open>simp_all add: valid_call_def\<close>)
        ultimately show ?thesis unfolding Realloc True call_ok_def by (simp del: do_call.simps)
      next
        case False
        show ?thesis unfolding Realloc
          by (rule realloc_call_ok [OF os(1,2) i(2)]) (use c Realloc False serve go1 in \<open>simp_all add: valid_call_def del: do_call.simps\<close>)
      qed
    next
      case (Malloc n)
      then show ?thesis using malloc_call_ok [OF os(1,2) i(2), of "os_ready os mapped L a m c" n] serve go1 c
        by (simp add: valid_call_def del: do_call.simps)
    next
      case (Calloc k n)
      then show ?thesis using calloc_call_ok [OF os(1,2) i(2), of "os_ready os mapped L a m c" k n] serve go1 c
        by (simp add: valid_call_def del: do_call.simps)
    qed (use nf in blast)
    moreover have "is_initialized a1" using i(2) by (simp add: well_held_def)
    ultimately show ?thesis unfolding call_ok_def i(3,4) by blast
  qed
qed

lemma session_keeps_inv:
  assumes os: "os_contract os mapped" "os_break os B" and B: "2 ^ 45 \<le> B" "B < MAX_USERSPACE_ADDR64" and s: "session os s"
  shows "case s of (a, m, H) \<Rightarrow> session_inv mapped B a m H"
  using s
proof (induction rule: session.induct)
  case (start m)
  then show ?case by (simp add: session_inv_def)
next
  case (step s s')
  obtain a m H where s: "s = (a, m, H)" by (cases s)
  have inv: "session_inv mapped B a m H" using step.IH s by simp
  from step.hyps(2) [unfolded s] show ?case
  proof (rule api_stepE)
    fix c p a' m'
    assume r: "s' = (a', m', holding_after c p H)" "valid_call H c" "do_call os a m c = ret (p, a', m')"
    have "goes (os_ready os mapped CHUNK_SIZE_BYTES a m c) (do_call os a m c)" by (rule goesI) (simp add: r(3) del: do_call.simps)
    from call_ok_ready [OF os(1) order_refl os(2) B inv r(2) this] show ?thesis unfolding call_ok_def r(1,3) by auto
  next
    fix p n x v
    assume "s' = (a, m\<lparr>bytes := (bytes m)(x := v)\<rparr>, H)"
    with inv show ?thesis by (auto simp: session_inv_def well_held_def inv_bytes live_bytes)
  qed
qed

end
