(* ===== verification/Sealloc_Spec.thy ===== *)
theory Sealloc_Spec
  imports Session
begin

text \<open>
  What the allocator promises its callers (\<open>src/src/sealloc.c\<close>, \<open>src/src/malloc_api.c\<close>), stated over
  the set of live regions of a well-formed arena.
\<close>

subsection \<open>Alignment\<close>

lemma live_aligned:
  assumes inv: "arena_inv mapped X a m G" and p: "(p, s) \<in> live a m G"
  shows "16 dvd p"
  using inv p
proof (cases rule: liveE)
  case (run i x)
  note wf = run_invD(2) [OF run(5)]
  obtain k where k: "p = region_addr (the (runs m x)) (bins a ! i) k" using run(3) wf by (rule run_absE)
  obtain c n where h: "(c, n) \<in> blocks G" "key (the (runs m x)) = block_ptr (the (chunks m c)) n"
    using run_home [OF arena_invD(5) [OF inv] run(1,2)] by metis
  have "4096 dvd key (the (chunks m c))" using h(1) chunk_of(5) [OF arena_invD(2) [OF inv]] by (simp add: blocks_def)
  then have "16 dvd key (the (chunks m c))" by (rule dvd_trans [rotated]) simp
  then have "16 dvd key (the (runs m x))" unfolding h(2) block_ptr_def by (intro dvd_add dvd_mult2) simp_all
  moreover have "16 dvd reg_size (bins a ! i)" using wf by (simp add: bin_wf_def size_class_dvd)
  ultimately show ?thesis unfolding k region_addr_def by (intro dvd_add dvd_mult) simp_all
next
  case (huge x)
  have "4096 dvd key (the (huges m x))" using huge_at(5) [OF arena_invD(3) [OF inv] huge(1)] .
  then show ?thesis unfolding huge(2) by (rule dvd_trans [rotated]) simp
qed

subsection \<open>\<open>malloc\<close>\<close>

text \<open>C3: on a well-formed arena, \<open>malloc\<close> of any size of at most \<open>2 ^ 64 - 4096\<close> bytes, 0 included, that
  comes back returns a pointer aligned to 16 bytes to a
  region of at least the requested size; the region is mapped, it meets none of the live
  regions and becomes the only new one, their contents stay, and the arena is well-formed again.
  This takes only the contract of \<open>mmap\<close> and \<open>munmap\<close>, whatever errors the kernel answers with; there is no fault, no NULL, no exit
  and no abort. The call does come back when the kernel has memory and room for it (\<open>provision\<close>);
  otherwise it may run for ever.\<close>

theorem sealloc_malloc_correct:
  assumes "os_contract os mapped" "CHUNK_SIZE_BYTES \<le> L" "brk_below B a" "arena_inv mapped {} a m G" "sz + 4096 \<le> 2 ^ 64"
    and "(provision os mapped L 771 a m \<and> sz + 4096 \<le> L) \<or> \<not> diverges (sealloc_malloc os a m sz)"
  shows "\<exists>p n a' m' G'. sealloc_malloc os a m sz = ret (p, a', m') \<and> p \<noteq> 0 \<and> 16 dvd p \<and> sz \<le> n \<and> 16 \<le> n
     \<and> arena_inv mapped {} a' m' G' \<and> live a' m' G' = insert (p, n) (live a m G) \<and> (p, n) \<notin> live a m G
     \<and> {p..<p + n} \<subseteq> mapped (world m') \<and> (\<forall>(q, t) \<in> live a m G. {p..<p + n} \<inter> {q..<q + t} = {}) \<and> bytes m' = bytes m"
proof -
  have sz: "sz + 4095 < 2 ^ 64" using assms(5) by simp
  obtain p a' m' G' where r: "sealloc_malloc os a m sz = ret (p, a', m')" "p \<noteq> 0" "arena_inv mapped {} a' m' G'"
    "live a' m' G' = insert (p, region_size sz) (live a m G)" "(p, region_size sz) \<notin> live a m G" "bytes m' = bytes m"
    by (rule sealloc_malloc_ok [OF assms(1,2) impI assms(6) [folded goes_def] assms(3-5)]) (assumption, rule that)
  have new: "(p, region_size sz) \<in> live a' m' G'" using r(4) by simp
  have "{p..<p + region_size sz} \<inter> {q..<q + t} = {}" if "(q, t) \<in> live a m G" for q t
    using that r(4,5) by (intro live_apart [OF r(3) new]) auto
  then have "\<forall>(q, t) \<in> live a m G. {p..<p + region_size sz} \<inter> {q..<q + t} = {}" by blast
  with r show ?thesis using live_aligned [OF r(3) new] live_space(2) [OF r(3) new] region_size_bounds [OF sz] by blast
qed

text \<open>The empty arena over the example kernel, for the witnesses, and one with a live region of 112 bytes.\<close>

lemma ex_world [simp]: "world (ex_mem w) = w"
  by (simp add: ex_mem_def)

lemma ex_empty: "arena_inv mapped {} ex_arena (ex_mem w) g_empty" "live ex_arena (ex_mem w) g_empty = {}"
  by (rule arena_inv_empty; simp add: ex_arena_def)+

lemma ex_chunk: "CHUNK_SIZE_BYTES \<le> 2 ^ 32"
  by (simp add: CHUNK_SIZE_BYTES_def)

lemma ex_ready: "provision linux_os linux_mapped (2 ^ 32) 771 ex_arena (ex_mem [])"
  by (rule ex_supply) (simp add: room_bytes_eq)

lemma linux_unmaps: "os_unmaps linux_os"
  by (simp add: os_unmaps_def linux_munmap_def)

theorem sealloc_malloc_correct_witness:
  "\<exists>p n a' m'. sealloc_malloc linux_os ex_arena (ex_mem []) 100 = ret (p, a', m') \<and> p \<noteq> 0 \<and> 16 dvd p \<and> (100 :: nat) \<le> n
     \<and> {p..<p + n} \<subseteq> linux_mapped (world m')"
proof -
  have "(provision linux_os linux_mapped (2 ^ 32) 771 ex_arena (ex_mem []) \<and> 100 + 4096 \<le> (2 :: nat) ^ 32)
      \<or> \<not> diverges (sealloc_malloc linux_os ex_arena (ex_mem []) 100)" using ex_ready by simp
  moreover have "100 + 4096 \<le> (2 :: nat) ^ 64" by simp
  ultimately show ?thesis using sealloc_malloc_correct [OF linux_contract ex_chunk ex_arena_brk ex_empty(1), of 100] by blast
qed

lemma ex_live:
  obtains p n a m G where "arena_inv linux_mapped {} a m G" "live a m G = {(p, n)}" "brk_below 93824992231424 a" "100 \<le> n" "n \<le> 512"
    "provision linux_os linux_mapped (2 ^ 32) 771 a m"
proof -
  have "112 \<in> set small_classes" unfolding set_small_classes by (intro CollectI exI [of _ 6]) simp
  then have c: "112 \<in> set size_classes" by (simp add: size_classes_def)
  have s: "True \<longrightarrow> provision linux_os linux_mapped (2 ^ 32) (768 + (3 + 774)) ex_arena (ex_mem [])"
    by (rule impI, rule ex_supply) (simp add: room_bytes_eq)
  have t: "goes True r" for r :: "'a res" by (simp add: goes_def)
  obtain i a1 m1 G1 where A: "prepared_bin linux_os ex_arena (ex_mem []) 112 = ret ((True, i), a1, m1)" "i < ARENA_NO_BINS" "arena_inv linux_mapped {} a1 m1 G1"
    "brk_below 93824992231424 a1" "True \<longrightarrow> provision linux_os linux_mapped (2 ^ 32) (3 + 774) a1 m1" "live a1 m1 G1 = live ex_arena (ex_mem ([] :: ranges)) g_empty"
    "bin_rep (bins a1 ! i) (runs m1) (g_act G1 i) (g_inact G1 i)" "bin_index (reg_size (bins a1 ! i)) = i"
    "reg_size (bins a1 ! i) = 112" "0 < avail_regs (bins a1 ! i)"
    by (rule prepared_bin_ok [OF linux_contract ex_chunk c s t ex_arena_brk ex_empty(1)]) (rule that)
  obtain p a m G where B: "sealloc_allocate_with_bin linux_os a1 m1 i = ret (p, a, m)" "p \<noteq> 0" "arena_inv linux_mapped {} a m G"
    "brk_below 93824992231424 a" "True \<longrightarrow> provision linux_os linux_mapped (2 ^ 32) 774 a m"
    "live a m G = insert (p, reg_size (bins a1 ! i)) (live a1 m1 G1)"
    by (rule allocate_with_bin_ok [OF linux_contract ex_chunk A(2,5) t A(4,3,7,8,10)]) (rule that)
  have "live a m G = {(p, 112)}" unfolding B(6) A(6,9) ex_empty(2) ..
  moreover have "provision linux_os linux_mapped (2 ^ 32) 771 a m" by (rule supplied_mono [OF B(5) [THEN mp, OF TrueI]]) simp
  ultimately show thesis using B(3,4) that [of a m G p 112] by simp
qed

subsection \<open>\<open>free\<close>\<close>

text \<open>C4: freeing the start of a live region removes exactly that region: every other
  live region stays and keeps its contents, and the arena is well-formed. This covers regions of
  all size classes and huge mappings, runs and chunks that become empty included. The only
  other outcome is the exit of the process when the kernel refuses to unmap pages.\<close>

theorem sealloc_free_correct:
  assumes "os_sound os mapped" "arena_inv mapped {} a m G" "(p, n) \<in> live a m G"
  shows "(\<exists>a' m' G'. sealloc_free os a m p = ret (a', m') \<and> arena_inv mapped {} a' m' G' \<and> live a' m' G' = live a m G - {(p, n)} \<and> bytes m' = bytes m)
     \<or> sealloc_free os a m p = fail Exit \<and> \<not> os_unmaps os"
  using sealloc_free_ok [OF assms] by blast

theorem sealloc_free_correct_witness:
  "\<exists>a m G p n a' m' G'. live a m G = {(p, n)} \<and> sealloc_free linux_os a m p = ret (a', m') \<and> arena_inv linux_mapped {} a' m' G' \<and> live a' m' G' = {}"
proof -
  obtain p n a m G where e: "arena_inv linux_mapped {} a m G" "live a m G = {(p, n)}" by (rule ex_live)
  then have "(p, n) \<in> live a m G" by simp
  from sealloc_free_correct [OF os_contractD [OF linux_contract] e(1) this] linux_unmaps
  obtain a' m' G' where "sealloc_free linux_os a m p = ret (a', m')" "arena_inv linux_mapped {} a' m' G'" "live a' m' G' = {}"
    unfolding e(2) by auto
  then show ?thesis using e(2) by blast
qed

text \<open>C7: \<open>free\<close> of an address that is not the start of a live region aborts: an address never returned, the inside of
  a region, a region that has been freed before. \<open>free(NULL)\<close> does nothing. The property leaves out the
  addresses that are not \<open>ptr_checked\<close>: multiples of the region size in the unused tail of a run, past the states of the bitmap, where
  the code reads a byte behind the bitmap instead (\<open>run_validate_tail\<close> shows that it does).\<close>

theorem sealloc_free_invalid:
  assumes "arena_inv mapped {} a m G" "p < 2 ^ 64" "\<And>n. (p, n) \<notin> live a m G"
    and "\<And>i x. i < ARENA_NO_BINS \<Longrightarrow> x \<in> bin_runs G i \<Longrightarrow> p \<in> run_addr_range (bins a ! i) (run_at (runs m) x) \<Longrightarrow>
      ptr_checked (bins a ! i) (run_at (runs m) x) p"
  shows "sealloc_free os a m p = (if p = 0 then ret (a, m) else fail Abort)"
  using sealloc_free_abort [OF assms(1) _ assms(2-4)] by (simp add: sealloc_free_def)

text \<open>The inside of a live region is checked.\<close>

lemma inside_checked:
  assumes inv: "arena_inv mapped {} a m G" and p: "(p, n) \<in> live a m G" "n \<le> LARGE_SIZE_MAX_REGION" and k: "0 < k" "k < n"
    and y: "j < ARENA_NO_BINS" "y \<in> bin_runs G j" "p + k \<in> run_addr_range (bins a ! j) (run_at (runs m) y)"
  shows "ptr_checked (bins a ! j) (run_at (runs m) y) (p + k)"
  using inv p(1)
proof (cases rule: liveE)
  case (run i x)
  have "p + k \<in> run_addr_range (bins a ! i) (the (runs m x))" using region_in_run [OF run(5,3)] run(4) k by force
  then have yx: "y = x" using runs_apart [OF inv run(1,2) y(1,2)] y(3) by force
  have ji: "j = i" using arena_invD(4) [OF inv] y(1,2) run(1,2) unfolding yx bin_part_def by blast
  obtain l where l: "p = region_addr (the (runs m x)) (bins a ! i) l" using run(3) run_invD(2) [OF run(5)] by (rule run_absE)
  have "(p + k - key (the (runs m x))) mod reg_size (bins a ! i) = k" using k run(4) unfolding l region_addr_def by simp
  then show ?thesis using y(3) k unfolding yx ji by (simp add: ptr_checked_def)
next
  case (huge x)
  then show ?thesis using huge_at(7) [OF arena_invD(3) [OF inv] huge(1)] p(2) by simp
qed

theorem sealloc_free_invalid_witness:
  "\<exists>a m G p n. live a m G = {(p, n)} \<and> 100 \<le> n \<and> sealloc_free linux_os a m (p + 1) = fail Abort"
proof -
  obtain p n a m G where e: "arena_inv linux_mapped {} a m G" "live a m G = {(p, n)}" "100 \<le> n" "n \<le> 512" by (rule ex_live)
  have p: "(p, n) \<in> live a m G" "n \<le> LARGE_SIZE_MAX_REGION" using e(2,4) by (simp_all add: LARGE_SIZE_MAX_REGION_def)
  have "p + 1 < 2 ^ 64" using live_bound(1) [OF e(1) p(1)] e(3) by simp
  moreover have "(p + 1, k) \<notin> live a m G" for k using e(2) by simp
  moreover note inside_checked [OF e(1) p, of 1]
  ultimately have "sealloc_free linux_os a m (p + 1) = (if p + 1 = 0 then ret (a, m) else fail Abort)"
    using e(3) by (intro sealloc_free_invalid [OF e(1)]) simp_all
  moreover have "p + 1 \<noteq> 0" by simp
  ultimately have "sealloc_free linux_os a m (p + 1) = fail Abort" by presburger
  then show ?thesis using e(2,3) by blast
qed

text \<open>C6: freeing a live region a second time aborts, whatever the region was: after the
  first free its run marks it as freed, or the pages are gone with the run or the mapping.\<close>

theorem sealloc_double_free:
  assumes "os_sound os mapped" "arena_inv mapped {} a m G" "(p, n) \<in> live a m G" "sealloc_free os a m p = ret (a', m')"
  shows "sealloc_free os a' m' p = fail Abort"
proof -
  obtain G' where "arena_inv mapped {} a' m' G'" "was_freed mapped a' m' G' p"
    using sealloc_free_ok [OF assms(1-3)] assms(4) by auto
  then show ?thesis using live_positive [OF assms(2,3)] live_bound(2) [OF assms(2,3)] by (intro freed_abort)
qed

theorem sealloc_double_free_witness:
  "\<exists>a m p a' m'. sealloc_free linux_os a m p = ret (a', m') \<and> sealloc_free linux_os a' m' p = fail Abort"
proof -
  obtain p n a m G where e: "arena_inv linux_mapped {} a m G" "live a m G = {(p, n)}" by (rule ex_live)
  then have l: "(p, n) \<in> live a m G" by simp
  obtain a' m' where f: "sealloc_free linux_os a m p = ret (a', m')" using sealloc_free_ok [OF os_contractD [OF linux_contract] e(1) l] linux_unmaps by blast
  then show ?thesis using sealloc_double_free [OF os_contractD [OF linux_contract] e(1) l f] by blast
qed

subsection \<open>\<open>realloc\<close>\<close>

text \<open>C5: reallocating a live region to \<open>n\<close> bytes, for \<open>n\<close> from 1 to \<open>2 ^ 64 - 4096\<close>, has two outcomes, if it has one. It returns a new region of at least
  \<open>n\<close> bytes at another address, with the contents of the old one up to the smaller of both sizes; the
  old region is gone, all others stay and keep their contents, and the arena is well-formed. All
  moves between size classes and huge mappings are covered. Or the process exits, because the kernel refused to unmap pages.
  There is no third outcome, whatever errors the kernel answers with; and the call does come back when the
  kernel has memory and room for it (\<open>provision\<close>).\<close>

theorem sealloc_realloc_correct:
  assumes "os_contract os mapped" "CHUNK_SIZE_BYTES \<le> L" "brk_below B a" "arena_inv mapped {} a m G" "(p, s) \<in> live a m G" "1 \<le> n" "n + 4096 \<le> 2 ^ 64"
    and "(provision os mapped L 771 a m \<and> n + 4096 \<le> L) \<or> \<not> diverges (sealloc_realloc os a m p n)"
  shows "(\<exists>q t a' m' G'. sealloc_realloc os a m p n = ret (q, a', m') \<and> q \<noteq> 0 \<and> 16 dvd q \<and> n \<le> t \<and> arena_inv mapped {} a' m' G'
       \<and> live a' m' G' = insert (q, t) (live a m G - {(p, s)}) \<and> q \<notin> fst ` live a m G
       \<and> (\<forall>i < min n s. bytes m' (q + i) = bytes m (p + i))
       \<and> (\<forall>(r, k) \<in> live a m G - {(p, s)}. \<forall>x \<in> {r..<r + k}. bytes m' x = bytes m x))
     \<or> sealloc_realloc os a m p n = fail Exit \<and> \<not> os_unmaps os"
  using sealloc_realloc_ok [OF assms(1,2) impI assms(8) [folded goes_def] assms(3-7)]
proof (elim meta_impE disjE)
  assume "reallocated mapped B a m G p s n (sealloc_realloc os a m p n)"
  then obtain q t a' m' G' where A: "sealloc_realloc os a m p n = ret (q, a', m')" "q \<noteq> 0" "n \<le> t" "arena_inv mapped {} a' m' G'"
    "live a' m' G' = insert (q, t) (live a m G - {(p, s)})" "q \<notin> fst ` live a m G" "moved (bytes m) p (min n s) (bytes m') q t"
    unfolding reallocated_def by blast
  have new: "(q, t) \<in> live a' m' G'" using A(5) by simp
  have "bytes m' x = bytes m x" if r: "(r, k) \<in> live a m G - {(p, s)}" "x \<in> {r..<r + k}" for r k x
  proof -
    have "(r, k) \<noteq> (q, t)" "(r, k) \<in> live a' m' G'" using A(5,6) r(1) by force+
    then have "x \<notin> {q..<q + t}" using live_apart [OF A(4) new, of r k] r(2) by blast
    then show ?thesis using A(7) by (simp add: moved_def)
  qed
  then have "\<forall>(r, k) \<in> live a m G - {(p, s)}. \<forall>x \<in> {r..<r + k}. bytes m' x = bytes m x" by blast
  moreover have "\<forall>i < min n s. bytes m' (q + i) = bytes m (p + i)" using A(7) by (simp add: moved_def)
  ultimately show ?thesis using A(1-6) live_aligned [OF A(4) new] by blast
qed blast+

theorem sealloc_realloc_correct_witness:
  "\<exists>a m p q t a' m' G'. sealloc_realloc linux_os a m p 3000000 = ret (q, a', m') \<and> 3000000 \<le> t \<and> live a' m' G' = {(q, t)}
     \<and> (\<forall>i < 100. bytes m' (q + i) = bytes m (p + i))"
proof -
  obtain p n a m G where e: "arena_inv linux_mapped {} a m G" "live a m G = {(p, n)}" "brk_below 93824992231424 a" "100 \<le> n" "n \<le> 512"
    "provision linux_os linux_mapped (2 ^ 32) 771 a m" by (rule ex_live)
  have p: "(p, n) \<in> live a m G" using e(2) by simp
  have "(provision linux_os linux_mapped (2 ^ 32) 771 a m \<and> 3000000 + 4096 \<le> (2 :: nat) ^ 32) \<or> \<not> diverges (sealloc_realloc linux_os a m p 3000000)"
    using e(6) by simp
  from sealloc_realloc_correct [OF linux_contract ex_chunk e(3,1) p _ _ this] linux_unmaps
  obtain q t a' m' G' where r: "sealloc_realloc linux_os a m p 3000000 = ret (q, a', m')" "3000000 \<le> t" "live a' m' G' = {(q, t)}"
    "\<forall>i < min 3000000 n. bytes m' (q + i) = bytes m (p + i)"
    unfolding e(2) by auto
  have "bytes m' (q + i) = bytes m (p + i)" if "i < 100" for i using r(4) that e(4) by simp
  then show ?thesis using r(1-3) by blast
qed

text \<open>C9: \<open>realloc\<close> of a small, medium or large region to size 0 is not caught: the
  process dies from a division by zero in \<open>bin_init\<close> unless the bin of the regions of 16 KiB has been
  used before, and then the call does what \<open>realloc\<close> to 16 KiB does.\<close>

theorem sealloc_realloc_zero_size:
  assumes "arena_inv mapped {} a m G" "(p, s) \<in> live a m G" "s \<le> LARGE_SIZE_MAX_REGION"
  shows "sealloc_realloc os a m p 0 = (if reg_size (bins a ! bin_index 16384) = 0 then fail DivByZero else sealloc_realloc os a m p 16384)"
  using sealloc_realloc_zero [OF assms] by (simp add: bin_index_zero)

theorem sealloc_realloc_zero_size_witness:
  "\<exists>a m p. sealloc_realloc linux_os a m p 0 = (if reg_size (bins a ! bin_index 16384) = 0 then fail DivByZero else sealloc_realloc linux_os a m p 16384)
     \<and> (\<exists>G s. (p, s) \<in> live a m G)"
proof -
  obtain p n a m G where e: "arena_inv linux_mapped {} a m G" "live a m G = {(p, n)}" "n \<le> 512" by (rule ex_live)
  have p: "(p, n) \<in> live a m G" "n \<le> LARGE_SIZE_MAX_REGION" using e(2,3) by (simp_all add: LARGE_SIZE_MAX_REGION_def)
  show ?thesis using sealloc_realloc_zero_size [OF e(1) p, of linux_os] p(1) by blast
qed

subsection \<open>\<open>calloc\<close>\<close>

text \<open>C8: \<open>calloc\<close> returns NULL without a change when a factor is 0, and otherwise, if it comes back, a
  region that is as large as the product of its arguments taken modulo \<open>2 ^ 64\<close> (when that is at most \<open>2 ^ 64 - 4096\<close>), with as many zero bytes; no
  byte outside the region changes. The wrap-around is not caught: when the product is \<open>2 ^ 64\<close> or more, the
  region is smaller than the array asked for. The call comes back when the kernel has memory and room for it (\<open>provision\<close>).\<close>

theorem sealloc_calloc_correct:
  assumes "os_contract os mapped" "CHUNK_SIZE_BYTES \<le> L" "brk_below B a" "arena_inv mapped {} a m G" "u64 (nmemb * sz) + 4096 \<le> 2 ^ 64"
    and "(provision os mapped L 771 a m \<and> u64 (nmemb * sz) + 4096 \<le> L) \<or> \<not> diverges (sealloc_calloc os a m nmemb sz)"
  shows "if nmemb = 0 \<or> sz = 0 then sealloc_calloc os a m nmemb sz = ret (0, a, m)
     else \<exists>p n a' m' G'. sealloc_calloc os a m nmemb sz = ret (p, a', m') \<and> p \<noteq> 0 \<and> 16 dvd p \<and> arena_inv mapped {} a' m' G'
       \<and> live a' m' G' = insert (p, n) (live a m G) \<and> (p, n) \<notin> live a m G \<and> u64 (nmemb * sz) \<le> n
       \<and> (\<forall>i < u64 (nmemb * sz). bytes m' (p + i) = 0) \<and> (\<forall>x. x \<notin> {p..<p + n} \<longrightarrow> bytes m' x = bytes m x)
       \<and> (2 ^ 64 \<le> nmemb * sz \<longrightarrow> n < nmemb * sz)"
proof (cases "nmemb = 0 \<or> sz = 0")
  case True
  then show ?thesis by (auto simp: sealloc_calloc_def)
next
  case False
  let ?z = "u64 (nmemb * sz)"
  have n: "nmemb \<noteq> 0" "sz \<noteq> 0" using False by simp_all
  obtain p a' m' G' where A: "sealloc_calloc os a m nmemb sz = ret (p, a', m')" "p \<noteq> 0" "arena_inv mapped {} a' m' G'" "brk_below B a'"
    "live a' m' G' = insert (p, region_size ?z) (live a m G)" "(p, region_size ?z) \<notin> live a m G" "bytes m' = mem_set (bytes m) p 0 ?z"
    by (rule sealloc_calloc_serves [OF assms(1,2) impI assms(6) [folded goes_def] assms(3,4) n assms(5)]) (assumption, rule that)
  have new: "(p, region_size ?z) \<in> live a' m' G'" using A(5) by simp
  have "?z + 4095 < 2 ^ 64" using assms(5) by simp
  then have z: "?z \<le> region_size ?z" by (rule region_size_bounds)
  have "region_size ?z < 2 ^ 64" using live_bound(1) [OF A(3) new] by simp
  then have "2 ^ 64 \<le> nmemb * sz \<longrightarrow> region_size ?z < nmemb * sz" by linarith
  moreover have "\<forall>i < ?z. bytes m' (p + i) = 0" unfolding A(7) by (simp add: mem_set_def)
  moreover have "\<forall>x. x \<notin> {p..<p + region_size ?z} \<longrightarrow> bytes m' x = bytes m x" unfolding A(7) using z by (auto simp: mem_set_def)
  ultimately show ?thesis using A z live_aligned [OF A(3) new] False by auto
qed

theorem sealloc_calloc_correct_witness:
  "\<exists>p n a' m' G'. sealloc_calloc linux_os ex_arena (ex_mem []) (2 ^ 32) (2 ^ 32 + 1) = ret (p, a', m') \<and> live a' m' G' = {(p, n)}
     \<and> n < 2 ^ 32 * (2 ^ 32 + 1)"
proof -
  have L: "CHUNK_SIZE_BYTES \<le> 2 ^ 33" by (simp add: CHUNK_SIZE_BYTES_def)
  have u: "u64 (2 ^ 32 * (2 ^ 32 + 1)) = 2 ^ 32" by (simp add: u64_def)
  have "provision linux_os linux_mapped (2 ^ 33) 771 ex_arena (ex_mem [])" by (rule ex_supply) (simp add: room_bytes_eq)
  then have "(provision linux_os linux_mapped (2 ^ 33) 771 ex_arena (ex_mem []) \<and> u64 (2 ^ 32 * (2 ^ 32 + 1)) + 4096 \<le> 2 ^ 33)
      \<or> \<not> diverges (sealloc_calloc linux_os ex_arena (ex_mem []) (2 ^ 32) (2 ^ 32 + 1))" unfolding u by simp
  from sealloc_calloc_correct [OF linux_contract L ex_arena_brk ex_empty(1) _ this]
  obtain p n a' m' G' where "sealloc_calloc linux_os ex_arena (ex_mem []) (2 ^ 32) (2 ^ 32 + 1) = ret (p, a', m')"
    "live a' m' G' = {(p, n)}" "2 ^ 64 \<le> (2 ^ 32 * (2 ^ 32 + 1) :: nat) \<longrightarrow> n < 2 ^ 32 * (2 ^ 32 + 1)"
    unfolding u ex_empty(2) by (auto simp del: One_nat_def)
  moreover have "(2 :: nat) ^ 64 \<le> 2 ^ 32 * (2 ^ 32 + 1)" by simp
  ultimately show ?thesis by blast
qed

subsection \<open>The metadata of a region\<close>

text \<open>C10: the metadata found for a live region has the type of its size: regular with the run
  it lies in and the bin of its size class when it has at most 1 MiB, huge with its own
  mapping when it is larger. The arena does not change.\<close>

theorem locate_metadata_typed:
  assumes "arena_inv mapped {} a m G" "(p, s) \<in> live a m G"
  shows "if IS_SIZE_HUGE s then \<exists>x h. locate_metadata_for_ptr a m p = ret (METADATA_HUGE x, a) \<and> huges m x = Some h \<and> key h = p \<and> hlen h = s
     else s \<in> set size_classes \<and> (\<exists>c x r. locate_metadata_for_ptr a m p = ret (METADATA_REGULAR c x (bin_index s), a) \<and> runs m x = Some r
       \<and> reg_size (bins a ! bin_index s) = s \<and> p \<in> run_addr_range (bins a ! bin_index s) r)"
  using assms
proof (cases rule: locate_live)
  case (run i x c n)
  note I = arena_invD [OF assms(1)] and r = run_of_bin [OF arena_invD(4) [OF assms(1)] run(2,3)]
  have s: "s \<in> set size_classes" using run_invD(2) [OF r(3)] run(6) by (simp add: bin_wf_def)
  have i: "bin_index s = i" using bin_of_run(2) [OF I(4) run(2,3)] run(6) by simp
  have "\<not> IS_SIZE_HUGE s" using size_class_bounds [OF s] by (simp add: IS_SIZE_HUGE_def LARGE_SIZE_MAX_REGION_def)
  then show ?thesis using s i run(1,6) r(2) run_abs_range [OF r(3) run(5)] by auto
next
  case (huge x)
  note at = huge_at [OF arena_invD(3) [OF assms(1)] huge(2)]
  have "IS_SIZE_HUGE s" using at(7) huge(4) by (simp add: IS_SIZE_HUGE_def)
  then show ?thesis using huge at(2) by auto
qed

theorem locate_metadata_typed_witness:
  "\<exists>a m p s c x. s \<in> set size_classes \<and> locate_metadata_for_ptr a (m :: ranges mem) p = ret (METADATA_REGULAR c x (bin_index s), a)"
proof -
  obtain p n a m G where e: "arena_inv linux_mapped {} a m G" "live a m G = {(p, n)}" "n \<le> 512" by (rule ex_live)
  have p: "(p, n) \<in> live a m G" using e(2) by simp
  have "\<not> IS_SIZE_HUGE n" using e(3) by (simp add: IS_SIZE_HUGE_def LARGE_SIZE_MAX_REGION_def)
  then obtain c x where "n \<in> set size_classes" "locate_metadata_for_ptr a m p = ret (METADATA_REGULAR c x (bin_index n), a)"
    using locate_metadata_typed [OF e(1) p] by auto
  then show ?thesis by blast
qed

end
