(* ===== verification/Tagging.thy ===== *)
theory Tagging
  imports Run
begin

text \<open>
  Memory tagging in the AArch64 build: the tag functions and the tagging part of \<open>run_allocate\<close> and
  \<open>run_validate_ptr\<close> in \<open>src/src/run.c\<close>, \<open>init_aarch64\<close> in \<open>src/src/platform.c\<close>, and the macros of
  \<open>src/src/sealloc/arch/aarch64.h\<close>.

  The tag instructions are not part of the program: they are the parameter \<open>hw\<close>, one
  function per instruction over an arbitrary type \<open>'t\<close> of tag memories. \<open>mte_sound\<close> is what the
  architecture documents of them.
\<close>

subsection \<open>Macros\<close>

definition TAG_OFFSET_BITS :: nat where "TAG_OFFSET_BITS = 56"
definition MEMORY_GRANULE_SIZE :: nat where "MEMORY_GRANULE_SIZE = 16"
definition MEMORY_2_GRANULE_SIZE :: nat where "MEMORY_2_GRANULE_SIZE = 32"
definition PLATFORM_AARCH64_TAGS :: nat where "PLATFORM_AARCH64_TAGS = 65534"

definition PTR_CLEAR_TAG :: "addr \<Rightarrow> addr" where
  "PTR_CLEAR_TAG ptr = unat ((of_nat ptr :: 64 word) AND (push_bit TAG_OFFSET_BITS 1 - 1))"

subsection \<open>The tag instructions\<close>

record 't mte =
  hw_stg :: "'t \<Rightarrow> addr \<Rightarrow> addr \<Rightarrow> 't"
  hw_st2g :: "'t \<Rightarrow> addr \<Rightarrow> addr \<Rightarrow> 't"
  hw_ldg :: "'t \<Rightarrow> addr \<Rightarrow> addr"
  hw_irg :: "'t \<Rightarrow> addr \<Rightarrow> 64 word \<Rightarrow> addr \<times> 't"
  hw_gmi :: "addr \<Rightarrow> 64 word \<Rightarrow> 64 word"

text \<open>The tag of a pointer, and the granule of 16 bytes an address lies in.\<close>

definition tag_of :: "addr \<Rightarrow> nat" where
  "tag_of p = p div 2 ^ 56 mod 16"

definition granule :: "addr \<Rightarrow> nat" where
  "granule a = PTR_CLEAR_TAG a div 16"

definition mte_sound :: "'t mte \<Rightarrow> ('t \<Rightarrow> nat \<Rightarrow> nat) \<Rightarrow> bool" where
  "mte_sound hw tag_at \<longleftrightarrow>
     (\<forall>t p a g. tag_at (hw_stg hw t p a) g = (if g = granule a then tag_of p else tag_at t g))
     \<and> (\<forall>t p a g. tag_at (hw_st2g hw t p a) g = (if g = granule a \<or> g = Suc (granule a) then tag_of p else tag_at t g))
     \<and> (\<forall>t a. tag_of (hw_ldg hw t a) = tag_at t (granule a))
     \<and> (\<forall>p x k. k < 16 \<longrightarrow> bit (hw_gmi hw p x) k = (bit x k \<or> k = tag_of p))
     \<and> (\<forall>t p x p' t'. hw_irg hw t p x = (p', t') \<longrightarrow> tag_at t' = tag_at t \<and> p' < 2 ^ 64 \<and> PTR_CLEAR_TAG p' = PTR_CLEAR_TAG p
          \<and> ((\<exists>k < 16. \<not> bit x k) \<longrightarrow> \<not> bit x (tag_of p')))"

subsection \<open>Tagging a region\<close>

fun st2g_loop :: "'t mte \<Rightarrow> addr \<Rightarrow> nat \<Rightarrow> 't \<Rightarrow> addr \<Rightarrow> 't \<times> addr" where
  "st2g_loop hw tagged_ptr 0 t a = (t, a)"
| "st2g_loop hw tagged_ptr (Suc n) t a = st2g_loop hw tagged_ptr n (hw_st2g hw t tagged_ptr a) (u64 (a + MEMORY_2_GRANULE_SIZE))"

fun stg_loop :: "'t mte \<Rightarrow> addr \<Rightarrow> nat \<Rightarrow> 't \<Rightarrow> addr \<Rightarrow> 't \<times> addr" where
  "stg_loop hw tagged_ptr 0 t a = (t, a)"
| "stg_loop hw tagged_ptr (Suc n) t a = stg_loop hw tagged_ptr n (hw_stg hw t tagged_ptr a) (u64 (a + MEMORY_GRANULE_SIZE))"

definition set_tag_n :: "'t mte \<Rightarrow> 't \<Rightarrow> addr \<Rightarrow> addr \<Rightarrow> nat \<Rightarrow> 't" where
  "set_tag_n hw t tagged_ptr a n =
     (let n2g = n div MEMORY_2_GRANULE_SIZE;
          n1g = (n - MEMORY_2_GRANULE_SIZE * n2g) div MEMORY_GRANULE_SIZE;
          (t, a) = st2g_loop hw tagged_ptr n2g t a
      in fst (stg_loop hw tagged_ptr n1g t a))"

text \<open>
  \<open>run_allocate\<close> of this build: the pointer gets a random tag other than 0 and the tags of
  the allocated neighbours, and the region gets the tag of the pointer.
\<close>

definition exclude_neighbour :: "'t mte \<Rightarrow> 't \<Rightarrow> addr \<Rightarrow> 64 word \<Rightarrow> 64 word" where
  "exclude_neighbour hw t a excludes = hw_gmi hw (hw_ldg hw t a) excludes"

definition run_allocate_mte :: "'t mte \<Rightarrow> bool \<Rightarrow> run_t \<Rightarrow> bin_t \<Rightarrow> 't \<Rightarrow> (addr \<times> run_t \<times> 't) res" where
  "run_allocate_mte hw is_mte_enabled run bin t =
     bindR (run_allocate run bin) (\<lambda>(ptr, run).
       if \<not> is_mte_enabled then ret (ptr, run, t)
       else
         let idx = current_idx run;
             excludes = 1;
             excludes = (if 0 < idx \<and> get_bitmap_item (reg_bitmap run) (idx - 1) = STATE_ALLOC
                         then exclude_neighbour hw t (sub64 ptr (reg_size bin)) excludes else excludes);
             excludes = (if idx < reg_mask_size_bits bin div 2 - 1 \<and> get_bitmap_item (reg_bitmap run) (idx + 1) = STATE_ALLOC
                         then exclude_neighbour hw t (u64 (ptr + reg_size bin)) excludes else excludes);
             (ptr, t) = hw_irg hw t ptr excludes
         in ret (ptr, run, set_tag_n hw t ptr ptr (reg_size bin)))"

text \<open>\<open>run_validate_ptr\<close> and \<open>run_deallocate\<close> see the address without its tag.\<close>

definition run_validate_ptr_mte :: "bool \<Rightarrow> run_t \<Rightarrow> bin_t \<Rightarrow> addr \<Rightarrow> nat res" where
  "run_validate_ptr_mte is_mte_enabled run bin ptr = run_validate_ptr run bin (if is_mte_enabled then PTR_CLEAR_TAG ptr else ptr)"

subsection \<open>Start of the process\<close>

text \<open>
  The constructor \<open>init_aarch64\<close>: the hardware capabilities and the answer of \<open>prctl\<close> to the request for
  synchronous tag checks with the given mask of tags decide whether tagging is on and the
  mappings get \<open>PROT_MTE\<close>.
\<close>

definition init_aarch64 :: "bool \<Rightarrow> (nat \<Rightarrow> bool) \<Rightarrow> bool \<times> bool" where
  "init_aarch64 hwcap2_mte prctl_ok =
     (if hwcap2_mte then (if \<not> prctl_ok PLATFORM_AARCH64_TAGS then (False, False) else (True, True)) else (False, False))"

subsection \<open>Tags and addresses\<close>

lemma PTR_CLEAR_TAG_eq: "PTR_CLEAR_TAG p = p mod 2 ^ 56"
proof -
  have "(push_bit TAG_OFFSET_BITS 1 - 1 :: 64 word) = mask 56" by (simp add: TAG_OFFSET_BITS_def mask_eq_exp_minus_1 push_bit_eq_mult)
  then have "PTR_CLEAR_TAG p = unat (take_bit 56 (of_nat p :: 64 word))" by (simp add: PTR_CLEAR_TAG_def take_bit_eq_mask)
  also have "\<dots> = take_bit 56 (unat (of_nat p :: 64 word))" by (simp add: unsigned_take_bit_eq)
  also have "\<dots> = p mod 2 ^ 64 mod 2 ^ 56" by (simp add: take_bit_eq_mod unsigned_of_nat)
  also have "\<dots> = p mod 2 ^ 56" by (simp add: mod_mod_cancel)
  finally show ?thesis .
qed

lemma tag_of_less [simp]: "tag_of p < 16"
  by (simp add: tag_of_def)

lemma granule_eq: "granule a = a mod 2 ^ 56 div 16"
  by (simp add: granule_def PTR_CLEAR_TAG_eq)

text \<open>Moving a pointer inside the 56 bits of the address keeps its tag and moves the granule.\<close>

lemma pointer_add:
  assumes "p < 2 ^ 64" "p mod 2 ^ 56 + n < 2 ^ 56"
  shows "u64 (p + n) = p + n" "p + n < 2 ^ 64" "(p + n) mod 2 ^ 56 = p mod 2 ^ 56 + n" "tag_of (p + n) = tag_of p"
proof -
  have p: "p = p div 2 ^ 56 * 2 ^ 56 + p mod 2 ^ 56" by simp
  have "p div 2 ^ 56 < 2 ^ 8" using assms(1) by (simp add: less_mult_imp_div_less)
  then have "p div 2 ^ 56 * 2 ^ 56 + 2 ^ 56 \<le> 2 ^ 64" by simp
  then show lt: "p + n < 2 ^ 64" using assms(2) p by linarith
  then show "u64 (p + n) = p + n" by (simp add: wrap_simps)
  have e: "p + n = p div 2 ^ 56 * 2 ^ 56 + (p mod 2 ^ 56 + n)" using p by linarith
  show "(p + n) mod 2 ^ 56 = p mod 2 ^ 56 + n" using assms(2) mod_add_left_eq [of p "2 ^ 56" n] by (metis mod_less)
  have "(q * 2 ^ 56 + y) div 2 ^ 56 = q" if "y < 2 ^ 56" for q y :: nat using that by simp
  then have "(p + n) div 2 ^ 56 = p div 2 ^ 56" using e assms(2) by metis
  then show "tag_of (p + n) = tag_of p" by (simp add: tag_of_def)
qed

lemma stg_loop_ok:
  assumes "mte_sound hw tag_at"
  shows "16 dvd a \<Longrightarrow> a < 2 ^ 64 \<Longrightarrow> a mod 2 ^ 56 + 16 * n < 2 ^ 56 \<Longrightarrow>
    tag_at (fst (stg_loop hw p n t a)) g = (if g \<in> {granule a..<granule a + n} then tag_of p else tag_at t g)"
proof (induction n arbitrary: t a)
  case (Suc n)
  note add = pointer_add [of a 16]
  have a: "a mod 2 ^ 56 + 16 < 2 ^ 56" using Suc.prems(3) by simp
  have g: "granule (a + 16) = Suc (granule a)" using add(3) [OF Suc.prems(2) a] by (simp add: granule_eq)
  have "tag_at (fst (stg_loop hw p (Suc n) t a)) g =
      (if g \<in> {granule (a + 16)..<granule (a + 16) + n} then tag_of p else tag_at (hw_stg hw t p a) g)"
    using Suc.IH [of "a + 16" "hw_stg hw t p a"] Suc.prems add [OF Suc.prems(2) a] by (simp add: MEMORY_GRANULE_SIZE_def)
  moreover have "tag_at (hw_stg hw t p a) g = (if g = granule a then tag_of p else tag_at t g)" using assms by (simp add: mte_sound_def)
  ultimately show ?case unfolding g by (auto split: if_splits)
qed simp

lemma st2g_loop_ok:
  assumes "mte_sound hw tag_at"
  shows "16 dvd a \<Longrightarrow> a < 2 ^ 64 \<Longrightarrow> a mod 2 ^ 56 + 32 * n < 2 ^ 56 \<Longrightarrow>
    tag_at (fst (st2g_loop hw p n t a)) g = (if g \<in> {granule a..<granule a + 2 * n} then tag_of p else tag_at t g)
    \<and> snd (st2g_loop hw p n t a) = a + 32 * n"
proof (induction n arbitrary: t a)
  case (Suc n)
  note add = pointer_add [of a 32]
  have a: "a mod 2 ^ 56 + 32 < 2 ^ 56" using Suc.prems(3) by simp
  have g: "granule (a + 32) = Suc (Suc (granule a))" using add(3) [OF Suc.prems(2) a] by (simp add: granule_eq)
  have "tag_at (fst (st2g_loop hw p (Suc n) t a)) g =
      (if g \<in> {granule (a + 32)..<granule (a + 32) + 2 * n} then tag_of p else tag_at (hw_st2g hw t p a) g)
      \<and> snd (st2g_loop hw p (Suc n) t a) = a + 32 + 32 * n"
    using Suc.IH [of "a + 32" "hw_st2g hw t p a"] Suc.prems add [OF Suc.prems(2) a] by (simp add: MEMORY_2_GRANULE_SIZE_def)
  moreover have "tag_at (hw_st2g hw t p a) g = (if g = granule a \<or> g = Suc (granule a) then tag_of p else tag_at t g)"
    using assms by (simp add: mte_sound_def)
  ultimately show ?case unfolding g by (auto split: if_splits)
qed simp

lemma set_tag_n_ok:
  assumes hw: "mte_sound hw tag_at" and a: "16 dvd a" "a < 2 ^ 64" "a mod 2 ^ 56 + n < 2 ^ 56" and n: "16 dvd n"
  shows "tag_at (set_tag_n hw t p a n) g = (if g \<in> {granule a..<granule a + n div 16} then tag_of p else tag_at t g)"
proof -
  let ?n2 = "n div 32" and ?n1 = "(n - 32 * (n div 32)) div 16"
  have split: "n div 16 = 2 * ?n2 + ?n1" "32 * ?n2 + 16 * ?n1 = n" using n by (auto elim!: dvdE)
  have lt: "a mod 2 ^ 56 + 32 * ?n2 < 2 ^ 56" using a(3) by linarith
  note s2 = st2g_loop_ok [OF hw a(1,2) lt]
  note add = pointer_add [OF a(2) lt]
  have "(a + 32 * ?n2) mod 2 ^ 56 + 16 * ?n1 < 2 ^ 56" using add(3) split(2) a(3) by simp
  then have s1: "tag_at (fst (stg_loop hw p ?n1 t' (a + 32 * ?n2))) g
      = (if g \<in> {granule (a + 32 * ?n2)..<granule (a + 32 * ?n2) + ?n1} then tag_of p else tag_at t' g)" for t'
    using a(1) add(2) by (intro stg_loop_ok [OF hw]) simp_all
  have g: "granule (a + 32 * ?n2) = granule a + 2 * ?n2"
  proof -
    have "(x + 32 * k) div 16 = x div 16 + 2 * k" for x k :: nat by presburger
    then show ?thesis using add(3) by (simp add: granule_eq)
  qed
  have "set_tag_n hw t p a n = fst (stg_loop hw p ?n1 (fst (st2g_loop hw p ?n2 t a)) (a + 32 * ?n2))"
    using s2 [of p t g] by (simp add: set_tag_n_def MEMORY_2_GRANULE_SIZE_def MEMORY_GRANULE_SIZE_def case_prod_unfold Let_def)
  then have "tag_at (set_tag_n hw t p a n) g = (if g \<in> {granule a + 2 * ?n2..<granule a + 2 * ?n2 + ?n1} then tag_of p
      else if g \<in> {granule a..<granule a + 2 * ?n2} then tag_of p else tag_at t g)"
    using s1 [of "fst (st2g_loop hw p ?n2 t a)"] s2 [of p t g] unfolding g by simp
  then show ?thesis unfolding split(1) by (auto split: if_splits)
qed
subsection \<open>Tags of a run\<close>

text \<open>The granules the bytes of a region lie in, and the tag of its first granule.\<close>

definition region_granules :: "bin_t \<Rightarrow> run_t \<Rightarrow> nat \<Rightarrow> nat set" where
  "region_granules b r j = granule ` {region_addr r b j..<region_addr r b j + reg_size b}"

definition region_tag :: "(nat \<Rightarrow> nat) \<Rightarrow> bin_t \<Rightarrow> run_t \<Rightarrow> nat \<Rightarrow> nat" where
  "region_tag T b r j = T (granule (region_addr r b j))"

text \<open>
  Every allocated region has one tag on all of its granules, which is not 0, and two allocated
  neighbours have different tags.
\<close>

definition tagged_run :: "(nat \<Rightarrow> nat) \<Rightarrow> bin_t \<Rightarrow> run_t \<Rightarrow> bool" where
  "tagged_run T b r \<longleftrightarrow> (\<forall>j < regions b. region_state r j = STATE_ALLOC \<longrightarrow>
     region_tag T b r j \<noteq> 0 \<and> (\<forall>g \<in> region_granules b r j. T g = region_tag T b r j)
     \<and> (Suc j < regions b \<longrightarrow> region_state r (Suc j) = STATE_ALLOC \<longrightarrow> region_tag T b r (Suc j) \<noteq> region_tag T b r j))"

definition placed :: "bin_t \<Rightarrow> run_t \<Rightarrow> bool" where
  "placed b r \<longleftrightarrow> 16 dvd key r \<and> key r + run_size_pages b * 4096 \<le> 2 ^ 47"

lemma region_bounds:
  assumes "run_inv b r" "placed b r" "j < regions b"
  shows "16 dvd region_addr r b j" "16 dvd reg_size b" "region_addr r b j + reg_size b \<le> 2 ^ 47" "0 < reg_size b div 16"
    "granule (region_addr r b j) = key r div 16 + j * (reg_size b div 16)"
proof -
  note wf = run_invD(2) [OF assms(1)]
  have "reg_size b \<in> set size_classes" using wf by (simp add: bin_wf_def)
  then show d: "16 dvd reg_size b" by (rule size_class_dvd)
  then show a: "16 dvd region_addr r b j" using assms(2) by (simp add: region_addr_def placed_def)
  have "Suc j * reg_size b \<le> regions b * reg_size b" using assms(3) by (intro mult_right_mono) simp_all
  then have "Suc j * reg_size b \<le> run_size_pages b * 4096" using bin_wf_regions(5) [OF wf] by linarith
  then show le: "region_addr r b j + reg_size b \<le> 2 ^ 47" using assms(2) by (simp add: region_addr_def placed_def)
  show "0 < reg_size b div 16" using d bin_wf_regions(4) [OF wf] by (auto elim!: dvdE)
  have "granule (region_addr r b j) = region_addr r b j div 16" using le by (simp add: granule_eq)
  also have "\<dots> = key r div 16 + j * (reg_size b div 16)"
    using d assms(2) unfolding region_addr_def placed_def by (elim conjE dvdE) (simp add: div_mult_self1 algebra_simps)
  finally show "granule (region_addr r b j) = key r div 16 + j * (reg_size b div 16)" .
qed

lemma region_granules_eq:
  assumes "run_inv b r" "placed b r" "j < regions b"
  shows "region_granules b r j = {granule (region_addr r b j)..<granule (region_addr r b j) + reg_size b div 16}"
proof -
  note B = region_bounds [OF assms]
  have g: "granule x = x div 16" if "x < region_addr r b j + reg_size b" for x using that B(3) by (simp add: granule_eq)
  have s: "16 * (region_addr r b j div 16) = region_addr r b j" "16 * (reg_size b div 16) = reg_size b" using B(1,2) by simp_all
  have 1: "granule (region_addr r b j) = region_addr r b j div 16" using B(4) s(2) by (intro g) linarith
  show ?thesis
  proof (intro equalityI subsetI)
    fix y
    assume "y \<in> region_granules b r j"
    then obtain x where x: "region_addr r b j \<le> x" "x < region_addr r b j + reg_size b" "y = granule x" by (auto simp: region_granules_def)
    then show "y \<in> {granule (region_addr r b j)..<granule (region_addr r b j) + reg_size b div 16}"
      unfolding 1 x(3) g [OF x(2)] using s by auto
  next
    fix y
    assume y: "y \<in> {granule (region_addr r b j)..<granule (region_addr r b j) + reg_size b div 16}"
    have b: "region_addr r b j \<le> 16 * y" "16 * y < region_addr r b j + reg_size b" using y s unfolding 1 by auto
    then have "granule (16 * y) = y" by (simp add: g)
    then show "y \<in> region_granules b r j" unfolding region_granules_def using b by (intro image_eqI [of _ _ "16 * y"]) simp_all
  qed
qed

lemma region_granules_disjoint:
  assumes "run_inv b r" "placed b r" "i < regions b" "j < regions b" "i \<noteq> j"
  shows "region_granules b r i \<inter> region_granules b r j = {}"
proof -
  have "region_granules b r i \<inter> region_granules b r j = {}" if "i < j" "i < regions b" "j < regions b" for i j
  proof -
    have "Suc i * (reg_size b div 16) \<le> j * (reg_size b div 16)" using that(1) by (intro mult_right_mono) simp_all
    then show ?thesis using region_bounds(5) [OF assms(1,2)] that(2,3) by (auto simp: region_granules_eq [OF assms(1,2)])
  qed
  then show ?thesis using assms(3-5) by (metis Int_commute nat_neq_iff)
qed

lemma region_granules_first: "run_inv b r \<Longrightarrow> placed b r \<Longrightarrow> j < regions b \<Longrightarrow> granule (region_addr r b j) \<in> region_granules b r j"
  using region_bounds(4) by (simp add: region_granules_eq)

lemma tagged_runD:
  assumes "tagged_run T b r" "j < regions b" "region_state r j = STATE_ALLOC"
  shows "region_tag T b r j \<noteq> 0" "g \<in> region_granules b r j \<Longrightarrow> T g = region_tag T b r j"
    "Suc j < regions b \<Longrightarrow> region_state r (Suc j) = STATE_ALLOC \<Longrightarrow> region_tag T b r (Suc j) \<noteq> region_tag T b r j"
  using assms unfolding tagged_run_def by blast+

subsection \<open>Allocating and freeing with tags\<close>

lemma exclude_neighbour_bit:
  assumes "mte_sound hw tag_at" "k < 16"
  shows "bit (exclude_neighbour hw t a x) k \<longleftrightarrow> bit x k \<or> k = tag_at t (granule a)"
  using assms by (simp add: exclude_neighbour_def mte_sound_def)

lemma mte_irgD:
  assumes "mte_sound hw tag_at" "hw_irg hw t p x = (p', t')"
  shows "tag_at t' = tag_at t \<and> p' < 2 ^ 64 \<and> PTR_CLEAR_TAG p' = PTR_CLEAR_TAG p \<and> ((\<exists>k < 16. \<not> bit x k) \<longrightarrow> \<not> bit x (tag_of p'))"
  using assms unfolding mte_sound_def by blast

lemma irg_ok:
  assumes hw: "mte_sound hw tag_at" and x: "\<And>k. k < 16 \<Longrightarrow> bit x k \<longleftrightarrow> k = 0 \<or> k \<in> S" and S: "card S \<le> 2" "finite S"
    and irg: "hw_irg hw t p x = (p', t')"
  shows "tag_at t' = tag_at t" "p' < 2 ^ 64" "PTR_CLEAR_TAG p' = PTR_CLEAR_TAG p" "tag_of p' \<noteq> 0" "tag_of p' \<notin> S"
proof -
  have "card (insert 0 S) < card {..<16 :: nat}" using S card_insert_le_m1 [of 3 S 0] by (simp add: card_insert_if)
  then have "\<not> {..<16} \<subseteq> insert 0 S" using card_mono [of "insert 0 S" "{..<16 :: nat}"] S(2) by auto
  then obtain k where k: "k < 16" "\<not> bit x k" using x by blast
  note D = mte_irgD [OF hw irg]
  show "tag_at t' = tag_at t" "p' < 2 ^ 64" "PTR_CLEAR_TAG p' = PTR_CLEAR_TAG p" using D by blast+
  have "\<not> bit x (tag_of p')" using D k by blast
  then show "tag_of p' \<noteq> 0" "tag_of p' \<notin> S" using x [of "tag_of p'"] by auto
qed

lemma run_allocate_mte_ok:
  assumes hw: "mte_sound hw tag_at" and inv: "run_inv b r" "placed b r" "0 < navail r" and tags: "tagged_run (tag_at t) b r"
  obtains p r' t' where "run_allocate_mte hw True r b t = ret (p, r', t')" "run_allocate r b = ret (PTR_CLEAR_TAG p, r')" "run_inv b r'" "placed b r'"
    "PTR_CLEAR_TAG p = region_addr r b (next_idx b r)" "tagged_run (tag_at t') b r'" "tag_of p = region_tag (tag_at t') b r' (next_idx b r)"
    "\<And>g. g \<notin> region_granules b r (next_idx b r) \<Longrightarrow> tag_at t' g = tag_at t g"
proof -
  let ?i = "next_idx b r" and ?T = "tag_at t"
  let ?r = "r\<lparr>current_idx := ?i, navail := navail r - 1, reg_bitmap := set_bitmap_item (reg_bitmap r) ?i STATE_ALLOC\<rparr>"
  note alloc = run_allocate_eq [OF inv(1,3)] and inv' = run_allocate_inv [OF inv(1,3) refl] and geom = run_invD(1) [OF inv(1)]
  have i: "?i < regions b" "region_state r ?i = STATE_FREE" using run_next_free [OF inv(1,3)] by simp_all
  note B = region_bounds [OF inv(1,2)]
  have state: "region_state ?r j = (if j = ?i then STATE_ALLOC else region_state r j)" if "j < regions b" for j
    using region_state_set [OF geom i(1) run_geom_valid [OF geom that]] by (auto simp: region_state_def)
  define left where "left \<longleftrightarrow> 0 < ?i \<and> region_state r (?i - 1) = STATE_ALLOC"
  define right where "right \<longleftrightarrow> Suc ?i < regions b \<and> region_state r (Suc ?i) = STATE_ALLOC"
  define S where "S = (if left then {region_tag ?T b r (?i - 1)} else {}) \<union> (if right then {region_tag ?T b r (Suc ?i)} else {})"
  have S: "finite S" "card S \<le> 2" by (simp_all add: S_def card_insert_if)
  define x1 where "x1 = (if left then exclude_neighbour hw t (sub64 (region_addr r b ?i) (reg_size b)) 1 else 1)"
  define x2 where "x2 = (if right then exclude_neighbour hw t (u64 (region_addr r b ?i + reg_size b)) x1 else x1)"
  have below: "sub64 (region_addr r b ?i) (reg_size b) = region_addr r b (?i - 1)" if left
  proof -
    have "\<exists>j. ?i = Suc j" using that unfolding left_def gr0_conv_Suc by blast
    then obtain j where j: "?i = Suc j" by blast
    have "region_addr r b (Suc j) = region_addr r b j + reg_size b" by (simp add: region_addr_def)
    moreover have "region_addr r b (Suc j) < 18446744073709551616" using B(3) [OF i(1)] unfolding j by simp
    ultimately show ?thesis unfolding j by (simp add: sub64_small)
  qed
  have above: "u64 (region_addr r b ?i + reg_size b) = region_addr r b (Suc ?i)"
    using B(3) [OF i(1)] by (simp add: u64_small region_addr_def ac_simps)
  have x2: "bit x2 k \<longleftrightarrow> k = 0 \<or> k \<in> S" if "k < 16" for k
    using that exclude_neighbour_bit [OF hw that] below above by (auto simp: x2_def x1_def S_def region_tag_def bit_1_iff)
  obtain p t1 where irg: "hw_irg hw t (region_addr r b ?i) x2 = (p, t1)" by force
  note I = irg_ok [OF hw x2 S(2,1) irg]
  let ?t = "set_tag_n hw t1 p p (reg_size b)"
  have p: "PTR_CLEAR_TAG p = region_addr r b ?i" using I(3) B(3) [OF i(1)] by (simp add: PTR_CLEAR_TAG_eq)
  have pm: "p mod 2 ^ 56 = region_addr r b ?i" using p by (simp add: PTR_CLEAR_TAG_eq)
  have gp: "granule p = granule (region_addr r b ?i)" using p B(3) [OF i(1)] by (simp add: granule_def PTR_CLEAR_TAG_eq)
  have "16 dvd p mod 2 ^ 56" using pm B(1) [OF i(1)] by simp
  then have "16 dvd p" by (simp add: dvd_mod_iff)
  moreover have "p mod 2 ^ 56 + reg_size b < 2 ^ 56" using pm B(3) [OF i(1)] by simp
  ultimately have T: "tag_at ?t g = (if g \<in> region_granules b r ?i then tag_of p else ?T g)" for g
    using set_tag_n_ok [OF hw _ I(2) _ B(2) [OF i(1)], of t1 p g] unfolding gp region_granules_eq [OF inv(1,2) i(1)] by (simp add: I(1))
  have same: "region_addr ?r b = region_addr r b" "region_granules b ?r = region_granules b r" "region_tag U b ?r = region_tag U b r" for U
    by (simp_all add: fun_eq_iff region_addr_def region_granules_def region_tag_def)
  have new: "region_tag (tag_at ?t) b r ?i = tag_of p" using region_granules_first [OF inv(1,2) i(1)] by (simp add: region_tag_def T)
  have old: "tag_at ?t g = ?T g" if "g \<in> region_granules b r j" "j < regions b" "j \<noteq> ?i" for g j
    using region_granules_disjoint [OF inv(1,2) that(2) i(1) that(3)] that(1) T by auto
  have old_tag: "region_tag (tag_at ?t) b r j = region_tag ?T b r j" if "j < regions b" "j \<noteq> ?i" for j
    using old [OF region_granules_first [OF inv(1,2) that(1)] that] by (simp add: region_tag_def)
  have "tagged_run (tag_at ?t) b ?r"
    unfolding tagged_run_def same
  proof (intro allI impI)
    fix j
    assume j: "j < regions b" "region_state ?r j = STATE_ALLOC"
    show "region_tag (tag_at ?t) b r j \<noteq> 0 \<and> (\<forall>g\<in>region_granules b r j. tag_at ?t g = region_tag (tag_at ?t) b r j) \<and>
        (Suc j < regions b \<longrightarrow> region_state ?r (Suc j) = STATE_ALLOC \<longrightarrow> region_tag (tag_at ?t) b r (Suc j) \<noteq> region_tag (tag_at ?t) b r j)"
    proof (cases "j = ?i")
      case True
      have "region_tag (tag_at ?t) b r (Suc ?i) \<noteq> tag_of p" if "Suc ?i < regions b" "region_state ?r (Suc ?i) = STATE_ALLOC"
        using I(5) that old_tag [OF that(1)] state [OF that(1)] by (auto simp: S_def right_def)
      then show ?thesis using I(4) new T unfolding True by simp
    next
      case False
      have a: "region_state r j = STATE_ALLOC" using j state False by simp
      note D = tagged_runD [OF tags j(1) a]
      have "region_tag (tag_at ?t) b r (Suc j) \<noteq> region_tag ?T b r j" if "Suc j < regions b" "region_state ?r (Suc j) = STATE_ALLOC"
      proof (cases "Suc j = ?i")
        case True
        then have "left" "?i - 1 = j" using a by (simp_all add: left_def flip: True)
        then have "region_tag ?T b r j \<in> S" by (simp add: S_def)
        then show ?thesis using I(5) new unfolding True by auto
      next
        case False
        then show ?thesis using D(3) that state [OF that(1)] old_tag [OF that(1)] by simp
      qed
      then show ?thesis using D(1,2) old [OF _ j(1) False] old_tag [OF j(1) False] by simp
    qed
  qed
  moreover have "run_allocate_mte hw True r b t = ret (p, ?r, ?t)"
  proof -
    have l: "(0 < ?i \<and> get_bitmap_item (set_bitmap_item (reg_bitmap r) ?i STATE_ALLOC) (?i - 1) = STATE_ALLOC) = left"
      using state [of "?i - 1"] i(1) by (auto simp: left_def region_state_def)
    have rt: "(?i < reg_mask_size_bits b div 2 - 1 \<and> get_bitmap_item (set_bitmap_item (reg_bitmap r) ?i STATE_ALLOC) (?i + 1) = STATE_ALLOC) = right"
      using state [of "Suc ?i"] i(1) by (auto simp: right_def region_state_def less_diff_conv)
    show ?thesis unfolding run_allocate_mte_def alloc using irg
      by (cases right) (simp_all add: Let_def l [simplified] rt [simplified] x2_def flip: x1_def)
  qed
  moreover have "tag_of p = region_tag (tag_at ?t) b ?r ?i" unfolding same new ..
  ultimately show thesis
    using that [of p ?r ?t] alloc p inv' inv(2) T by (simp add: placed_def)
qed

definition run_deallocate_mte :: "bool \<Rightarrow> run_t \<Rightarrow> bin_t \<Rightarrow> addr \<Rightarrow> (bool \<times> run_t) res" where
  "run_deallocate_mte is_mte_enabled run bin ptr =
     bindR (run_validate_ptr_mte is_mte_enabled run bin ptr) (\<lambda>bitmap_idx.
       if bitmap_idx = SIZE_MAX then ret (False, run)
       else ret (True, run\<lparr>reg_bitmap := set_bitmap_item (reg_bitmap run) bitmap_idx STATE_ALLOC_FREE, nfreed := u16 (nfreed run + 1)\<rparr>))"

lemma run_deallocate_mte_eq:
  "run_deallocate_mte e r b p = run_deallocate r b (if e then PTR_CLEAR_TAG p else p)"
  by (simp add: run_deallocate_mte_def run_validate_ptr_mte_def run_deallocate_def)

lemma tagged_run_mono:
  assumes "tagged_run T b r" "key r' = key r" "\<And>j. j < regions b \<Longrightarrow> region_state r' j = STATE_ALLOC \<Longrightarrow> region_state r j = STATE_ALLOC"
  shows "tagged_run T b r'"
proof -
  have "region_tag T b r' = region_tag T b r" "region_granules b r' = region_granules b r"
    using assms(2) by (simp_all add: fun_eq_iff region_tag_def region_granules_def region_addr_def)
  then show ?thesis using assms(1,3) unfolding tagged_run_def by simp
qed

subsection \<open>An example\<close>

definition ex_tag :: "64 word \<Rightarrow> nat" where
  "ex_tag x = (case find (\<lambda>k. \<not> bit x k) [0..<16] of Some k \<Rightarrow> k | None \<Rightarrow> 0)"

definition ex_mte :: "(nat \<Rightarrow> nat) mte" where
  "ex_mte = \<lparr>hw_stg = (\<lambda>t p a. t(granule a := tag_of p)), hw_st2g = (\<lambda>t p a. t(granule a := tag_of p, Suc (granule a) := tag_of p)),
     hw_ldg = (\<lambda>t a. t (granule a) mod 16 * 2 ^ 56), hw_irg = (\<lambda>t p x. (PTR_CLEAR_TAG p + 2 ^ 56 * ex_tag x, t)),
     hw_gmi = (\<lambda>p x. set_bit (tag_of p) x)\<rparr>"

lemma ex_tag: "ex_tag x < 16" "k < 16 \<Longrightarrow> \<not> bit x k \<Longrightarrow> \<not> bit x (ex_tag x)"
  by (auto simp: ex_tag_def find_Some_iff find_None_iff split: option.split)

lemma ex_mte_sound: "mte_sound ex_mte (\<lambda>t g. t g mod 16)"
proof -
  have stg: "(hw_stg ex_mte t p a) g mod 16 = (if g = granule a then tag_of p else t g mod 16)"
    "(hw_st2g ex_mte t p a) g mod 16 = (if g = granule a \<or> g = Suc (granule a) then tag_of p else t g mod 16)" for t p a g
    by (simp_all add: ex_mte_def)
  have ldg: "tag_of (hw_ldg ex_mte t a) = t (granule a) mod 16" for t a by (simp add: tag_of_def ex_mte_def)
  have gmi: "bit (hw_gmi ex_mte p x) k = (bit x k \<or> k = tag_of p)" if "k < 16" for p x k
    using that by (auto simp: ex_mte_def bit_set_bit_iff)
  have clear: "PTR_CLEAR_TAG p < 2 ^ 56" for p by (simp add: PTR_CLEAR_TAG_eq)
  have add: "a + 2 ^ 56 * k < 2 ^ 64" "PTR_CLEAR_TAG (a + 2 ^ 56 * k) = a" "tag_of (a + 2 ^ 56 * k) = k" if "a < 2 ^ 56" "k < 16" for a k
    using that by (simp_all add: PTR_CLEAR_TAG_eq tag_of_def)
  have irg: "t' = t \<and> p' < 2 ^ 64 \<and> PTR_CLEAR_TAG p' = PTR_CLEAR_TAG p \<and> tag_of p' = ex_tag x" if "hw_irg ex_mte t p x = (p', t')" for t p x p' t'
    using that add [OF clear ex_tag(1), of p x] by (auto simp: ex_mte_def)
  have "t' = t \<and> p' < 2 ^ 64 \<and> PTR_CLEAR_TAG p' = PTR_CLEAR_TAG p \<and> ((\<exists>k < 16. \<not> bit x k) \<longrightarrow> \<not> bit x (tag_of p'))"
    if "hw_irg ex_mte t p x = (p', t')" for t p x p' t'
    using irg [OF that] ex_tag(2) [of _ x] by auto
  then show ?thesis unfolding mte_sound_def by (intro conjI allI impI) (simp_all add: stg ldg gmi, blast+)
qed

subsection \<open>Properties\<close>

text \<open>C14: with tagging enabled, \<open>run_allocate\<close> makes the same choice as without it and returns
  the address with a tag that is not 0; the granules of the region get this tag, no other granule
  changes, and the tag differs from the tag of every byte of an allocated neighbour region, so that an
  overflow into it faults. The run stays well tagged.\<close>

theorem run_allocate_mte_correct:
  assumes "mte_sound hw tag_at" "run_inv b r" "placed b r" "\<not> run_is_depleted r" "tagged_run (tag_at t) b r"
  shows "\<exists>p r' t' i. run_allocate_mte hw True r b t = ret (p, r', t') \<and> run_allocate r b = ret (PTR_CLEAR_TAG p, r')
     \<and> i < regions b \<and> PTR_CLEAR_TAG p = region_addr r b i \<and> tag_of p \<noteq> 0 \<and> tagged_run (tag_at t') b r'
     \<and> (\<forall>g. tag_at t' g = (if g \<in> region_granules b r i then tag_of p else tag_at t g))
     \<and> (\<forall>j < regions b. (j = Suc i \<or> Suc j = i) \<longrightarrow> region_state r j = STATE_ALLOC \<longrightarrow>
          (\<forall>x \<in> {region_addr r b j..<region_addr r b j + reg_size b}. tag_at t' (granule x) \<noteq> tag_of p))"
proof -
  have nav: "0 < navail r" using assms(4) by (simp add: run_is_depleted_def)
  let ?i = "next_idx b r"
  obtain p r' t' where A: "run_allocate_mte hw True r b t = ret (p, r', t')" "run_allocate r b = ret (PTR_CLEAR_TAG p, r')" "run_inv b r'" "placed b r'"
    "PTR_CLEAR_TAG p = region_addr r b ?i" "tagged_run (tag_at t') b r'" "tag_of p = region_tag (tag_at t') b r' ?i"
    "\<And>g. g \<notin> region_granules b r ?i \<Longrightarrow> tag_at t' g = tag_at t g"
    by (rule run_allocate_mte_ok [OF assms(1-3) nav assms(5)]) (rule that)
  have i: "?i < regions b" using run_next_free [OF assms(2) nav] by simp
  note r' = A(2) [unfolded run_allocate_eq [OF assms(2) nav]]
  have same: "region_granules b r' = region_granules b r" "region_state r' j = (if j = ?i then STATE_ALLOC else region_state r j)" if "j < regions b" for j
    using r' region_state_set [OF run_invD(1) [OF assms(2)] i run_geom_valid [OF run_invD(1) [OF assms(2)] that]]
    by (auto simp: fun_eq_iff region_granules_def region_addr_def region_state_def)
  note D = tagged_runD [OF A(6)]
  have own: "region_state r' ?i = STATE_ALLOC" using same(2) [OF i] by simp
  have "tag_at t' (granule x) \<noteq> tag_of p"
    if j: "j < regions b" "j = Suc ?i \<or> Suc j = ?i" "region_state r j = STATE_ALLOC" and x: "x \<in> {region_addr r b j..<region_addr r b j + reg_size b}" for j x
  proof -
    have "region_state r' j = STATE_ALLOC" "granule x \<in> region_granules b r' j"
      using j same(2) [OF j(1)] x unfolding same(1) [OF i] by (auto simp: region_granules_def)
    then have "tag_at t' (granule x) = region_tag (tag_at t') b r' j" "region_state r' j = STATE_ALLOC" using D(2) [OF j(1)] by blast+
    then show ?thesis using j(2) D(3) [OF i own] D(3) [OF j(1)] j(1) i own A(7) by auto
  qed
  moreover have "tag_at t' g = (if g \<in> region_granules b r ?i then tag_of p else tag_at t g)" for g
    using A(7,8) D(2) [OF i own, of g] same(1) [OF i] by simp
  moreover have "tag_of p \<noteq> 0" using A(7) D(1) [OF i own] by simp
  ultimately show ?thesis using A(1,2,5,6) i by (intro exI [of _ p] exI [of _ r'] exI [of _ t'] exI [of _ ?i] conjI) blast+
qed

lemma ex_placed: "placed ex_bin ex_run" "tagged_run T ex_bin ex_run"
  using ex_run_states by (auto simp: placed_def tagged_run_def ex_bin_def ex_run_def)

theorem run_allocate_mte_correct_witness:
  "\<exists>p r' t'. run_allocate_mte ex_mte True ex_run ex_bin (\<lambda>_. 0) = ret (p, r', t') \<and> tag_of p \<noteq> 0"
  using run_allocate_mte_correct [OF ex_mte_sound ex_run_inv ex_placed(1), of "\<lambda>_. 0"] ex_placed(2)
  by (auto simp: run_is_depleted_def ex_run_def)

text \<open>C15: with tagging enabled, \<open>run_deallocate\<close> accepts the tagged pointer of an
  allocated region whatever its tag is, frees exactly that region, leaves the run well tagged without
  any change of tags, and refuses the same pointer the next time.\<close>

theorem run_deallocate_mte_correct:
  assumes "run_inv b r" "tagged_run T b r" "run_abs b r (PTR_CLEAR_TAG p) = Some STATE_ALLOC"
  shows "\<exists>r'. run_deallocate_mte True r b p = ret (True, r') \<and> run_inv b r' \<and> tagged_run T b r'
     \<and> run_abs b r' = (run_abs b r)(PTR_CLEAR_TAG p \<mapsto> STATE_ALLOC_FREE) \<and> run_deallocate_mte True r' b p = ret (False, r')"
proof -
  let ?p = "PTR_CLEAR_TAG p"
  note wf = run_invD(2) [OF assms(1)]
  obtain i where i: "i < regions b" "?p = region_addr r b i" using assms(3) wf by (rule run_absE)
  have c: "ptr_checked b r ?p" using ptr_checked_region [OF assms(1) i(1)] i(2) by simp
  obtain r' where A: "run_deallocate r b ?p = ret (True, r')" "run_inv b r'" "run_abs b r' = (run_abs b r)(?p \<mapsto> STATE_ALLOC_FREE)"
    "key r' = key r" "length (reg_bitmap r') = length (reg_bitmap r)"
    using run_deallocate_spec(2) [OF assms(1) c assms(3)] by blast
  have "region_state r j = STATE_ALLOC" if j: "j < regions b" "region_state r' j = STATE_ALLOC" for j
  proof -
    have "run_abs b r' (region_addr r b j) = Some STATE_ALLOC" using run_abs_region [OF wf j(1), of r'] j(2) A(4) by (simp add: region_addr_def)
    then have "run_abs b r (region_addr r b j) = Some STATE_ALLOC" unfolding A(3) by (simp split: if_splits)
    then show ?thesis using run_abs_region [OF wf j(1), of r] by simp
  qed
  then have "tagged_run T b r'" by (rule tagged_run_mono [OF assms(2) A(4)])
  moreover have "run_deallocate r' b ?p = ret (False, r')"
    using run_deallocate_spec(1) [OF A(2)] ptr_checked_cong [OF A(4,5)] c A(3) by simp
  ultimately show ?thesis using A(1-3) by (simp add: run_deallocate_mte_eq)
qed

theorem run_deallocate_mte_correct_witness:
  "\<exists>p r t r'. run_allocate_mte ex_mte True ex_run ex_bin (\<lambda>_. 0) = ret (p, r, t) \<and> run_deallocate_mte True r ex_bin p = ret (True, r')
     \<and> run_deallocate_mte True r' ex_bin p = ret (False, r')"
proof -
  have nav: "0 < navail ex_run" by (simp add: ex_run_def)
  obtain p r t where A: "run_allocate_mte ex_mte True ex_run ex_bin (\<lambda>_. 0) = ret (p, r, t)" "run_allocate ex_run ex_bin = ret (PTR_CLEAR_TAG p, r)"
    "run_inv ex_bin r" "tagged_run (\<lambda>g. t g mod 16) ex_bin r"
    by (rule run_allocate_mte_ok [OF ex_mte_sound ex_run_inv ex_placed(1) nav ex_placed(2), of "\<lambda>_. 0"]) (rule that)
  have "\<not> run_is_depleted ex_run" using nav by (simp add: run_is_depleted_def)
  then obtain p' r' where B: "run_allocate ex_run ex_bin = ret (p', r')" "run_abs ex_bin r' = (run_abs ex_bin ex_run)(p' \<mapsto> STATE_ALLOC)"
    using run_allocate_spec [OF ex_run_inv] by blast
  then have "run_abs ex_bin r (PTR_CLEAR_TAG p) = Some STATE_ALLOC" using A(2) by simp
  from run_deallocate_mte_correct [OF A(3,4) this] show ?thesis using A(1) by blast
qed

end
