(* ===== verification/Tagged_Arena.thy ===== *)
theory Tagged_Arena
  imports Sealloc_Spec Tagging
begin

text \<open>
  The allocator with memory tagging: the functions of \<open>src/src/sealloc.c\<close> in the AArch64 build, where
  \<open>run_allocate\<close> tags regions and \<open>free\<close> and \<open>realloc\<close> clear the tag of a pointer before they
  look it up. \<open>tagged_arena\<close> says that all runs are well tagged; every call keeps it and
  returns what the build without tagging returns, up to the tag of the pointer.
\<close>

subsection \<open>The functions\<close>

text \<open>The address behind a pointer: loads and stores ignore the tag but for the check.\<close>

definition untagged :: "bool \<Rightarrow> addr \<Rightarrow> addr" where
  "untagged is_mte_enabled ptr = (if is_mte_enabled then PTR_CLEAR_TAG ptr else ptr)"

definition allocate_from_runs_mte ::
    "'t mte \<Rightarrow> bool \<Rightarrow> bin_t \<Rightarrow> run_store \<Rightarrow> rng \<Rightarrow> 't \<Rightarrow> (addr \<times> bin_t \<times> run_store \<times> rng \<times> 't) res" where
  "allocate_from_runs_mte hw e bin h g t =
     bindR (bin_get_run_for_allocation bin h g) (\<lambda>(run, bin, g).
     bindR (load h run) (\<lambda>r.
     bindR (run_allocate_mte hw e r bin t) (\<lambda>(ptr, r, t).
     let h = h(run \<mapsto> r) in
     if run_is_depleted r then
       bindR (bin_retire_run bin h run) (\<lambda>(bin, h). ret (ptr, bin, h, g, t))
     else ret (ptr, bin, h, g, t))))"

definition sealloc_allocate_with_bin_mte ::
    "'t mte \<Rightarrow> bool \<Rightarrow> 'w os \<Rightarrow> arena_t \<Rightarrow> 'w mem \<Rightarrow> 't \<Rightarrow> nat \<Rightarrow> (addr \<times> arena_t \<times> 'w mem \<times> 't) res" where
  "sealloc_allocate_with_bin_mte hw e os arena m t i =
     bindR (arr_get (bins arena) i) (\<lambda>bin.
     bindR (if avail_regs bin < BIN_MINIMUM_REGIONS then add_run_to_bin os arena m i else ret (True, arena, m)) (\<lambda>(ok, arena, m).
     if \<not> ok then ret (0, arena, m, t)
     else
       bindR (arr_get (bins arena) i) (\<lambda>bin.
       bindR (allocate_from_runs_mte hw e bin (runs m) (prng m) t) (\<lambda>(ptr, bin, h, g, t).
       ret (ptr, arena\<lparr>bins := (bins arena)[i := bin]\<rparr>, m\<lparr>runs := h, prng := g\<rparr>, t)))))"

definition sealloc_malloc_mte ::
    "'t mte \<Rightarrow> bool \<Rightarrow> 'w os \<Rightarrow> arena_t \<Rightarrow> 'w mem \<Rightarrow> 't \<Rightarrow> nat \<Rightarrow> (addr \<times> arena_t \<times> 'w mem \<times> 't) res" where
  "sealloc_malloc_mte hw e os arena m t sz =
     (let sz = (if sz = 0 then SMALL_SIZE_MIN_REGION else sz)
      in if IS_SIZE_HUGE sz then
           bindR (arena_allocate_huge_mapping os arena m (alignup_page64 sz)) (\<lambda>(huge, arena, m).
           bindR (load (huges m) huge) (\<lambda>x. ret (key x, arena, m, t)))
         else
           bindR (prepared_bin os arena m (u32 (aligned_size sz))) (\<lambda>((ok, i), arena, m).
             if ok then sealloc_allocate_with_bin_mte hw e os arena m t i else ret (0, arena, m, t)))"

definition deallocate_in_run_mte :: "bool \<Rightarrow> bin_t \<Rightarrow> run_store \<Rightarrow> addr \<Rightarrow> addr \<Rightarrow> (bool \<times> bin_t \<times> run_store) res" where
  "deallocate_in_run_mte e bin h run ptr =
     bindR (load h run) (\<lambda>r.
     bindR (run_deallocate_mte e r bin ptr) (\<lambda>(ok, r).
     if \<not> ok then fail Abort
     else let h = h(run \<mapsto> r) in
       if run_is_freeable r bin then
         bindR (bin_delete_run bin h run) (\<lambda>(bin, h). ret (True, bin, h))
       else ret (False, bin, h)))"

definition sealloc_free_with_metadata_mte ::
    "bool \<Rightarrow> 'w os \<Rightarrow> arena_t \<Rightarrow> 'w mem \<Rightarrow> addr \<Rightarrow> nat \<Rightarrow> addr \<Rightarrow> addr \<Rightarrow> (arena_t \<times> 'w mem) res" where
  "sealloc_free_with_metadata_mte e os arena m chunk i run ptr =
     bindR (arr_get (bins arena) i) (\<lambda>bin.
     bindR (deallocate_in_run_mte e bin (runs m) run ptr) (\<lambda>(freeable, bin, h).
     let arena = arena\<lparr>bins := (bins arena)[i := bin]\<rparr>; m = m\<lparr>runs := h\<rparr>
     in if \<not> freeable then ret (arena, m) else release_run os arena m chunk run))"

definition sealloc_free_mte :: "bool \<Rightarrow> 'w os \<Rightarrow> arena_t \<Rightarrow> 'w mem \<Rightarrow> addr \<Rightarrow> (arena_t \<times> 'w mem) res" where
  "sealloc_free_mte e os arena m ptr =
     (if ptr = 0 then ret (arena, m)
      else let ptr = (if e then PTR_CLEAR_TAG ptr else ptr) in
        bindR (locate_metadata_for_ptr arena m ptr) (\<lambda>(meta, arena).
        case meta of
          METADATA_INVALID \<Rightarrow> fail Abort
        | METADATA_HUGE huge \<Rightarrow> arena_deallocate_huge_mapping os arena m huge
        | METADATA_REGULAR chunk run i \<Rightarrow> sealloc_free_with_metadata_mte e os arena m chunk i run ptr))"

definition realloc_huge_mte ::
    "'t mte \<Rightarrow> bool \<Rightarrow> 'w os \<Rightarrow> arena_t \<Rightarrow> 'w mem \<Rightarrow> 't \<Rightarrow> addr \<Rightarrow> nat \<Rightarrow> (addr \<times> arena_t \<times> 'w mem \<times> 't) res" where
  "realloc_huge_mte hw e os arena m t huge new_size =
     (if IS_SIZE_HUGE new_size then
        bindR (arena_reallocate_huge_mapping os arena m huge new_size) (\<lambda>(arena, m).
        bindR (load (huges m) huge) (\<lambda>x. ret (key x, arena, m, t)))
      else
        bindR (sealloc_malloc_mte hw e os arena m t new_size) (\<lambda>(new_reg, arena, m, t).
          if new_reg = 0 then ret (0, arena, m, t)
          else bindR (load (huges m) huge) (\<lambda>x.
               bindR (arena_deallocate_huge_mapping os arena
                        (m\<lparr>bytes := mem_copy (bytes m) (untagged e new_reg) (key x) new_size\<rparr>) huge) (\<lambda>(arena, m).
               ret (new_reg, arena, m, t)))))"

definition realloc_regular_mte ::
    "'t mte \<Rightarrow> bool \<Rightarrow> 'w os \<Rightarrow> arena_t \<Rightarrow> 'w mem \<Rightarrow> 't \<Rightarrow> addr \<Rightarrow> nat \<Rightarrow> addr \<Rightarrow> addr \<Rightarrow> addr \<Rightarrow> nat \<Rightarrow>
      (addr \<times> arena_t \<times> 'w mem \<times> 't) res" where
  "realloc_regular_mte hw e os arena m t chunk i run old_ptr tagged_ptr new_size =
     bindR (arr_get (bins arena) i) (\<lambda>bin_old.
     bindR (load (runs m) run) (\<lambda>r.
     bindR (run_validate_ptr_mte e r bin_old old_ptr) (\<lambda>idx.
       if idx = SIZE_MAX then fail Abort
       else if IS_SIZE_HUGE new_size then
         bindR (arena_allocate_huge_mapping os arena m (alignup_page64 new_size)) (\<lambda>(huge, arena, m).
         bindR (load (huges m) huge) (\<lambda>x.
         bindR (arr_get (bins arena) i) (\<lambda>bin_old.
         bindR (sealloc_free_with_metadata_mte e os arena
                  (m\<lparr>bytes := mem_copy (bytes m) (key x) (untagged e tagged_ptr) (reg_size bin_old)\<rparr>) chunk i run old_ptr) (\<lambda>(arena, m).
         bindR (load (huges m) huge) (\<lambda>x. ret (key x, arena, m, t))))))
       else
         bindR (prepared_bin os arena m (u32 (aligned_size new_size))) (\<lambda>((ok, j), arena, m).
           if \<not> ok then ret (0, arena, m, t)
           else
             bindR (sealloc_allocate_with_bin_mte hw e os arena m t j) (\<lambda>(new_ptr, arena, m, t).
               if new_ptr = 0 then ret (0, arena, m, t)
               else
                 bindR (arr_get (bins arena) i) (\<lambda>bin_old.
                 bindR (arr_get (bins arena) j) (\<lambda>bin_new.
                 let n = (if reg_size bin_old < reg_size bin_new then reg_size bin_old else reg_size bin_new)
                 in bindR (sealloc_free_with_metadata_mte e os arena
                            (m\<lparr>bytes := mem_copy (bytes m) (untagged e new_ptr) (untagged e tagged_ptr) n\<rparr>) chunk i run old_ptr) (\<lambda>(arena, m).
                    ret (new_ptr, arena, m, t)))))))))"

definition sealloc_realloc_mte ::
    "'t mte \<Rightarrow> bool \<Rightarrow> 'w os \<Rightarrow> arena_t \<Rightarrow> 'w mem \<Rightarrow> 't \<Rightarrow> addr \<Rightarrow> nat \<Rightarrow> (addr \<times> arena_t \<times> 'w mem \<times> 't) res" where
  "sealloc_realloc_mte hw e os arena m t old_ptr new_size =
     (if old_ptr = 0 then sealloc_malloc_mte hw e os arena m t new_size
      else let tagged_ptr = old_ptr; old_ptr = (if e then PTR_CLEAR_TAG old_ptr else old_ptr) in
        bindR (locate_metadata_for_ptr arena m old_ptr) (\<lambda>(meta, arena).
        case meta of
          METADATA_INVALID \<Rightarrow> fail Abort
        | METADATA_HUGE huge \<Rightarrow> realloc_huge_mte hw e os arena m t huge (alignup_page64 new_size)
        | METADATA_REGULAR chunk run i \<Rightarrow> realloc_regular_mte hw e os arena m t chunk i run old_ptr tagged_ptr new_size))"

definition sealloc_calloc_mte ::
    "'t mte \<Rightarrow> bool \<Rightarrow> 'w os \<Rightarrow> arena_t \<Rightarrow> 'w mem \<Rightarrow> 't \<Rightarrow> nat \<Rightarrow> nat \<Rightarrow> (addr \<times> arena_t \<times> 'w mem \<times> 't) res" where
  "sealloc_calloc_mte hw e os arena m t nmemb sz =
     (if nmemb = 0 \<or> sz = 0 then ret (0, arena, m, t)
      else bindR (sealloc_malloc_mte hw e os arena m t (u64 (nmemb * sz))) (\<lambda>(ptr, arena, m, t).
        if ptr = 0 then ret (0, arena, m, t)
        else ret (ptr, arena, m\<lparr>bytes := mem_set (bytes m) (untagged e ptr) 0 (u64 (nmemb * sz))\<rparr>, t)))"

subsection \<open>Tags and runs\<close>

lemma clear_twice [simp]: "PTR_CLEAR_TAG (PTR_CLEAR_TAG p) = PTR_CLEAR_TAG p"
  by (simp add: PTR_CLEAR_TAG_eq)

lemma clear_small: "p \<le> 2 ^ 47 \<Longrightarrow> PTR_CLEAR_TAG p = p"
  by (simp add: PTR_CLEAR_TAG_eq)

text \<open>An aligned range of bytes owns its granules.\<close>

lemma granule_in:
  assumes "16 dvd p" "16 dvd n" "p + n \<le> 2 ^ 47" "x < 2 ^ 47" "granule x \<in> granule ` {p..<p + n}"
  shows "x \<in> {p..<p + n}"
proof -
  obtain y where y: "p \<le> y" "y < p + n" "granule x = granule y" using assms(5) by auto
  have g: "x div 16 = y div 16" using y assms(3,4) by (simp add: granule_eq)
  obtain q k where qk: "p = 16 * q" "n = 16 * k" using assms(1,2) by (auto elim!: dvdE)
  have "q \<le> y div 16" "y div 16 < q + k" using y(1,2) unfolding qk by (simp_all add: less_eq_div_iff_mult_less_eq div_less_iff_less_mult algebra_simps)
  moreover have "16 * (x div 16) \<le> x" "x < 16 * (x div 16) + 16" by simp_all
  ultimately show ?thesis unfolding qk g by auto
qed

text \<open>The granules of the region behind \<open>p\<close> have the tag of \<open>p\<close>, which is not 0; the others are as before.\<close>

definition retagged :: "(nat \<Rightarrow> nat) \<Rightarrow> (nat \<Rightarrow> nat) \<Rightarrow> addr \<Rightarrow> nat \<Rightarrow> bool" where
  "retagged T T' p n \<longleftrightarrow> tag_of p \<noteq> 0 \<and> (\<forall>g. T' g = (if g \<in> granule ` {PTR_CLEAR_TAG p..<PTR_CLEAR_TAG p + n} then tag_of p else T g))"

lemma retaggedD:
  assumes "retagged T T' p n"
  shows "tag_of p \<noteq> 0" "g \<in> granule ` {PTR_CLEAR_TAG p..<PTR_CLEAR_TAG p + n} \<Longrightarrow> T' g = tag_of p"
    "g \<notin> granule ` {PTR_CLEAR_TAG p..<PTR_CLEAR_TAG p + n} \<Longrightarrow> T' g = T g"
  using assms by (simp_all add: retagged_def)

lemma run_allocate_mte_retags:
  assumes hw: "mte_sound hw tag_at" and inv: "run_inv b r" "placed b r" "0 < navail r" and tags: "tagged_run (tag_at t) b r"
  obtains p r' t' where "run_allocate_mte hw True r b t = ret (p, r', t')" "run_allocate r b = ret (PTR_CLEAR_TAG p, r')"
    "tagged_run (tag_at t') b r'" "retagged (tag_at t) (tag_at t') p (reg_size b)"
proof -
  let ?i = "next_idx b r"
  obtain p r' t' where A: "run_allocate_mte hw True r b t = ret (p, r', t')" "run_allocate r b = ret (PTR_CLEAR_TAG p, r')"
    "PTR_CLEAR_TAG p = region_addr r b ?i" "tagged_run (tag_at t') b r'" "tag_of p = region_tag (tag_at t') b r' ?i"
    "\<And>g. g \<notin> region_granules b r ?i \<Longrightarrow> tag_at t' g = tag_at t g"
    by (rule run_allocate_mte_ok [OF hw inv tags]) (rule that)
  have i: "?i < regions b" using run_next_free [OF inv(1,3)] by simp
  note r' = A(2) [unfolded run_allocate_eq [OF inv(1,3)]] and geom = run_invD(1) [OF inv(1)]
  have own: "region_state r' ?i = STATE_ALLOC" and same: "region_granules b r' = region_granules b r"
    using r' region_state_set [OF geom i run_geom_valid [OF geom i]] by (auto simp: fun_eq_iff region_granules_def region_addr_def region_state_def)
  note D = tagged_runD(1,2) [OF A(4) i own]
  have rg: "region_granules b r ?i = granule ` {PTR_CLEAR_TAG p..<PTR_CLEAR_TAG p + reg_size b}" unfolding A(3) region_granules_def ..
  have "retagged (tag_at t) (tag_at t') p (reg_size b)"
    using D A(5,6) unfolding retagged_def same rg by auto
  with that A(1,2,4) show thesis by blast
qed

text \<open>Whether a run is well tagged depends on its allocated regions only.\<close>

lemma tagged_run_abs_mono:
  assumes "tagged_run T b r" "bin_wf b" "bin_wf b'" "reg_size b' = reg_size b" "key r' = key r"
    and "\<And>q. run_abs b' r' q = Some STATE_ALLOC \<Longrightarrow> run_abs b r q = Some STATE_ALLOC"
  shows "tagged_run T b' r'"
proof -
  have n: "regions b' = regions b" using bin_wf_regions(1) assms(2-4) by simp
  have at: "region_addr r' b' j = region_addr r b j" for j using assms(4,5) by (simp add: region_addr_def)
  have same: "region_tag T b' r' = region_tag T b r" "region_granules b' r' = region_granules b r"
    using assms(4) by (simp_all add: fun_eq_iff region_tag_def region_granules_def at)
  have "region_state r j = STATE_ALLOC" if "j < regions b" "region_state r' j = STATE_ALLOC" for j
    using assms(6) [of "region_addr r b j"] run_abs_region [OF assms(2) that(1), of r] run_abs_region [OF assms(3), of j r'] that n by (simp add: at)
  then show ?thesis using assms(1) unfolding tagged_run_def same n by simp
qed
subsection \<open>A region of a bin\<close>

lemma run_allocate_mte_geometry:
  assumes "same_geometry b b'"
  shows "run_allocate_mte hw e r b' t = run_allocate_mte hw e r b t"
proof -
  have "reg_size b' = reg_size b" "reg_mask_size_bits b' = reg_mask_size_bits b" using assms by (simp_all add: same_geometry_def)
  then show ?thesis unfolding run_allocate_mte_def geometry_cong(5) [OF assms] by (simp only:)
qed

lemma allocate_from_runs_mte_ok:
  assumes hw: "mte_sound hw tag_at" and rep: "bin_rep b h act inact" and pos: "0 < avail_regs b"
    and tags: "\<And>y. y \<in> set act \<Longrightarrow> placed b (run_at h y) \<and> tagged_run (tag_at t) b (run_at h y)"
  obtains x p b' h' g' t' where "allocate_from_runs_mte hw True b h g t = ret (p, b', h', g', t')"
    "allocate_from_runs b h g = ret (PTR_CLEAR_TAG p, b', h', g')" "x \<in> set act" "tagged_run (tag_at t') b (run_at h' x)"
    "retagged (tag_at t) (tag_at t') p (reg_size b)" "run_abs b (run_at h x) (PTR_CLEAR_TAG p) = Some STATE_FREE"
    "\<And>y. y \<in> set act \<union> set inact \<Longrightarrow> y \<noteq> x \<Longrightarrow> unlink (run_at h' y) = unlink (run_at h y)"
    "\<And>y. y \<notin> set act \<union> set inact \<Longrightarrow> h' y = h y"
proof -
  obtain v g1 where g: "splitmix32 g = (v, g1)" by (cases "splitmix32 g")
  define z where "z = act ! (unat v mod length act)"
  let ?b1 = "b\<lparr>avail_regs := avail_regs b - 1\<rparr>"
  have get: "bin_get_run_for_allocation b h g = ret (z, ?b1, g1)" and ne: "act \<noteq> []"
    using bin_get_run_ok [OF rep pos g] by (simp_all add: z_def)
  have z: "z \<in> set act" using ne by (simp add: z_def)
  then obtain r where r: "h z = Some r" "z \<noteq> 0" "run_inv b r" using bin_rep_node [OF rep] by (metis Un_iff)
  have nd: "\<not> run_is_depleted r" using bin_repD(8) [OF rep] z r(1) by (auto simp: runs_ok_def)
  then have nav: "0 < navail r" by (simp add: run_is_depleted_def)
  have tr: "placed b r" "tagged_run (tag_at t) b r" using tags [OF z] r(1) by simp_all
  obtain p r' t' where R: "run_allocate_mte hw True r b t = ret (p, r', t')" "run_allocate r b = ret (PTR_CLEAR_TAG p, r')"
    "tagged_run (tag_at t') b r'" "retagged (tag_at t) (tag_at t') p (reg_size b)"
    by (rule run_allocate_mte_retags [OF hw r(3) tr(1) nav tr(2)]) (rule that)
  obtain p1 r1 where S: "run_allocate r b = ret (p1, r1)" "run_abs b r p1 = Some STATE_FREE" "run_abs b r1 = (run_abs b r)(p1 \<mapsto> STATE_ALLOC)" "key r1 = key r"
    by (rule run_allocate_spec [OF r(3) nd]) (rule that)
  then have q: "run_abs b r (PTR_CLEAR_TAG p) = Some STATE_FREE" "run_abs b r' = (run_abs b r)(PTR_CLEAR_TAG p \<mapsto> STATE_ALLOC)" "key r' = key r"
    using R(2) by simp_all
  have geo: "same_geometry b ?b1" by simp
  have a1: "run_allocate r ?b1 = ret (PTR_CLEAR_TAG p, r')" "run_allocate_mte hw True r ?b1 t = ret (p, r', t')"
    by (simp_all only: R(1,2) geometry_cong(5) [OF geo] run_allocate_mte_geometry [OF geo])
  obtain x q0 b' h' g' act' inact' where A: "allocate_from_runs b h g = ret (q0, b', h', g')" "x \<in> set act" "run_abs b (run_at h x) q0 = Some STATE_FREE"
    "run_abs b (run_at h' x) = (run_abs b (run_at h x))(q0 \<mapsto> STATE_ALLOC)"
    "\<And>y. y \<in> set act \<union> set inact \<Longrightarrow> y \<noteq> x \<Longrightarrow> unlink (run_at h' y) = unlink (run_at h y)" "key (run_at h' x) = key (run_at h x)"
    "\<And>y. y \<notin> set act \<union> set inact \<Longrightarrow> h' y = h y"
    by (rule allocate_from_runs_ok [OF rep pos, of g]) (rule that)
  have both: "q0 = PTR_CLEAR_TAG p" "allocate_from_runs_mte hw True b h g t = ret (p, b', h', g', t')"
    using A(1) get r(1,2) a1 by (auto simp: allocate_from_runs_def allocate_from_runs_mte_def Let_def bindR_ret_iff split: if_splits)
  have "x = z" using runs_ok_single [OF bin_repD(8) [OF rep], of x z q0] A(2,3) z q(1) r(1) both(1) by simp
  then have "run_abs b (run_at h' x) = run_abs b r'" "key (run_at h' x) = key r'" using A(4,6) q(2,3) r(1) both(1) by simp_all
  then have "tagged_run (tag_at t') b (run_at h' x)"
    by (intro tagged_run_abs_mono [OF R(3) bin_repD(1) [OF rep] bin_repD(1) [OF rep] refl]) simp_all
  then show thesis using that both A(1-3,5,7) R(4) by simp
qed

subsection \<open>The arena\<close>

definition tagged_arena :: "(nat \<Rightarrow> nat) \<Rightarrow> arena_t \<Rightarrow> 'w mem \<Rightarrow> ghost \<Rightarrow> bool" where
  "tagged_arena T a m G \<longleftrightarrow> (\<forall>i < ARENA_NO_BINS. \<forall>x \<in> bin_runs G i. tagged_run T (bins a ! i) (run_at (runs m) x))"

lemma run_placed:
  assumes "arena_inv mapped X a m G" "i < ARENA_NO_BINS" "x \<in> bin_runs G i"
  shows "placed (bins a ! i) (run_at (runs m) x)"
proof -
  note I = arena_invD [OF assms(1)]
  obtain c n where cn: "(c, n) \<in> blocks G" "key (the (runs m x)) = block_ptr (the (chunks m c)) n" "block_size n = run_size_pages (bins a ! i) * 4096"
    using run_home [OF I(5) assms(2,3)] by metis
  then have c: "c \<in> set (g_chunks G)" "n \<in> dom (g_used G c)" by (auto simp: blocks_def)
  note ch = chunk_of [OF I(2) c(1)]
  obtain j where j: "j \<le> 11" "n \<in> lev (11 - j)" using block_level [OF ch(3), of n] c(2) by auto
  have "16 dvd key (the (chunks m c))" using ch(5) by (rule dvd_trans [rotated]) simp
  moreover have "key (the (runs m x)) + run_size_pages (bins a ! i) * 4096 \<le> key (the (chunks m c)) + CHUNK_SIZE_BYTES"
    using block_place(3) [OF j(2,1)] cn(2,3) by simp
  ultimately show ?thesis using ch(4) cn(2) unfolding placed_def block_ptr_def by (intro conjI dvd_add dvd_mult2) simp_all
qed

lemma tagged_step:
  assumes tags: "tagged_arena T a m G" and inv: "arena_inv mapped X a m G" "arena_inv mapped X' a' m' G'"
    and old: "\<And>i x q. i < ARENA_NO_BINS \<Longrightarrow> x \<in> bin_runs G' i \<Longrightarrow> run_abs (bins a' ! i) (run_at (runs m') x) q = Some STATE_ALLOC \<Longrightarrow>
      x \<in> bin_runs G i \<and> key (run_at (runs m') x) = key (run_at (runs m) x) \<and> reg_size (bins a' ! i) = reg_size (bins a ! i)
      \<and> run_abs (bins a ! i) (run_at (runs m) x) q = Some STATE_ALLOC"
  shows "tagged_arena T a' m' G'"
  unfolding tagged_arena_def
proof (intro allI impI ballI)
  fix i x
  assume i: "i < ARENA_NO_BINS" "x \<in> bin_runs G' i"
  note wf' = bin_repD(1) [OF bin_of_run(1) [OF arena_invD(4) [OF inv(2)] i]]
  show "tagged_run T (bins a' ! i) (run_at (runs m') x)"
  proof (cases "\<exists>q. run_abs (bins a' ! i) (run_at (runs m') x) q = Some STATE_ALLOC")
    case True
    then have x: "x \<in> bin_runs G i" "key (run_at (runs m') x) = key (run_at (runs m) x)" "reg_size (bins a' ! i) = reg_size (bins a ! i)"
      using old [OF i] by blast+
    note wf = bin_repD(1) [OF bin_of_run(1) [OF arena_invD(4) [OF inv(1)] i(1) x(1)]]
    have "tagged_run T (bins a ! i) (run_at (runs m) x)" using tags i(1) x(1) by (simp add: tagged_arena_def)
    then show ?thesis by (rule tagged_run_abs_mono [OF _ wf wf' x(3,2)]) (use old [OF i] in blast)
  next
    case False
    then have "region_state (run_at (runs m') x) j \<noteq> STATE_ALLOC" if "j < regions (bins a' ! i)" for j
      using run_abs_region [OF wf' that, of "run_at (runs m') x"] by auto
    then show ?thesis by (simp add: tagged_run_def)
  qed
qed
text \<open>Allocation of anything but a region of a run keeps the tags right.\<close>

lemma tagged_extends:
  assumes tags: "tagged_arena T a m G" and inv: "arena_inv mapped {} a m G" "arena_inv mapped {} a' m' G'" and ext: "extends m G m' G'"
    and live: "\<And>q s. (q, s) \<in> live a' m' G' \<Longrightarrow> s \<le> LARGE_SIZE_MAX_REGION \<Longrightarrow> (q, s) \<in> live a m G"
  shows "tagged_arena T a' m' G'"
proof (rule tagged_step [OF tags inv])
  fix i x q
  assume i: "i < ARENA_NO_BINS" "x \<in> bin_runs G' i" and q: "run_abs (bins a' ! i) (run_at (runs m') x) q = Some STATE_ALLOC"
  note wf' = bin_repD(1) [OF bin_of_run(1) [OF arena_invD(4) [OF inv(2)] i]]
  let ?s = "reg_size (bins a' ! i)"
  have "(q, ?s) \<in> bin_live (bins a' ! i) (runs m') (bin_runs G' i)" using i(2) q by (auto simp: bin_live_def bin_regions_def)
  then have l': "(q, ?s) \<in> live a' m' G'" using live_split [OF i(1), of a' m' G'] by blast
  have s: "?s \<le> LARGE_SIZE_MAX_REGION" using bin_wf_regions(6) [OF wf'] by (simp add: LARGE_SIZE_MAX_REGION_def)
  note l = live [OF l' s]
  show "x \<in> bin_runs G i \<and> key (run_at (runs m') x) = key (run_at (runs m) x) \<and> ?s = reg_size (bins a ! i)
      \<and> run_abs (bins a ! i) (run_at (runs m) x) q = Some STATE_ALLOC"
    using inv(1) l
  proof (cases rule: liveE)
    case (run j y)
    obtain c n where h: "g_home G y = (c, n)" by (cases "g_home G y")
    note loc = located_extends [OF inv(1) run(1,2) h run(3) inv(2) ext l']
    have "x = y" using region_alone [OF inv(2) run(1) loc(1,3) i] q by (metis option.distinct(1))
    moreover from this have "i = j" using arena_invD(4) [OF inv(2)] i run(1) loc(1) unfolding bin_part_def by blast
    ultimately show ?thesis using run loc(5) by simp
  next
    case (huge y)
    then show ?thesis using huge_at(7) [OF arena_invD(3) [OF inv(1)] huge(1)] s by simp
  qed
qed

text \<open>So does deallocation.\<close>

lemma tagged_keeps:
  assumes tags: "tagged_arena T a m G" and inv: "arena_inv mapped {} a m G" "arena_inv mapped {} a' m' G'" and kept: "keeps_runs a m G a' m' G'"
    and live: "\<And>q s. (q, s) \<in> live a' m' G' \<Longrightarrow> s \<le> LARGE_SIZE_MAX_REGION \<Longrightarrow> (q, s) \<in> live a m G"
  shows "tagged_arena T a' m' G'"
proof (rule tagged_step [OF tags inv])
  fix i x q
  assume i: "i < ARENA_NO_BINS" "x \<in> bin_runs G' i" and q: "run_abs (bins a' ! i) (run_at (runs m') x) q = Some STATE_ALLOC"
  have x: "x \<in> bin_runs G i" "key (run_at (runs m') x) = key (run_at (runs m) x)" "reg_size (bins a' ! i) = reg_size (bins a ! i)"
    using kept i by (auto simp: keeps_runs_def all_runs_def)
  note wf' = bin_repD(1) [OF bin_of_run(1) [OF arena_invD(4) [OF inv(2)] i]]
    and wf = bin_repD(1) [OF bin_of_run(1) [OF arena_invD(4) [OF inv(1)] i(1) x(1)]]
  have "(q, reg_size (bins a' ! i)) \<in> bin_live (bins a' ! i) (runs m') (bin_runs G' i)" using i(2) q by (auto simp: bin_live_def bin_regions_def)
  then have "(q, reg_size (bins a' ! i)) \<in> live a' m' G'" using live_split [OF i(1), of a' m' G'] by blast
  then have l: "(q, reg_size (bins a' ! i)) \<in> live a m G" using bin_wf_regions(6) [OF wf'] by (intro live) (simp_all add: LARGE_SIZE_MAX_REGION_def)
  have "run_addr_range (bins a ! i) (run_at (runs m) x) = run_addr_range (bins a' ! i) (run_at (runs m') x)"
    using x(2,3) wf wf' by (simp add: run_addr_range_def bin_wf_def)
  then have "q \<in> run_addr_range (bins a ! i) (run_at (runs m) x)"
    using run_abs_range [OF run_of_bin(3) [OF arena_invD(4) [OF inv(2)] i] q] by simp
  with live_in_run(1) [OF inv(1) i(1) x(1) l] x
  show "x \<in> bin_runs G i \<and> key (run_at (runs m') x) = key (run_at (runs m) x) \<and> reg_size (bins a' ! i) = reg_size (bins a ! i)
      \<and> run_abs (bins a ! i) (run_at (runs m) x) q = Some STATE_ALLOC" by simp
qed

subsection \<open>Allocation of a region\<close>

lemma live_granules:
  assumes inv: "arena_inv mapped X a m G" and p: "(p, n) \<in> live a m G" "n \<le> LARGE_SIZE_MAX_REGION"
  shows "16 dvd p" "16 dvd n" "p + n \<le> 2 ^ 47"
proof -
  show "16 dvd p" using live_aligned [OF inv p(1)] . show "p + n \<le> 2 ^ 47" using live_bound(1) [OF inv p(1)] .
  show "16 dvd n" using inv p(1)
  proof (cases rule: liveE)
    case (run i x)
    then show ?thesis using run_invD(2) [OF run(5)] by (simp add: bin_wf_def size_class_dvd)
  next
    case (huge x)
    then show ?thesis using huge_at(7) [OF arena_invD(3) [OF inv] huge(1)] p(2) by simp
  qed
qed

text \<open>Tagging one live region leaves the granules of all bytes outside of it alone.\<close>

lemma retagged_outside:
  assumes inv: "arena_inv mapped X a m G" and p: "(PTR_CLEAR_TAG p, n) \<in> live a m G" "n \<le> LARGE_SIZE_MAX_REGION"
    and tags: "retagged T T' p n" and x: "x < 2 ^ 47" "x \<notin> {PTR_CLEAR_TAG p..<PTR_CLEAR_TAG p + n}"
  shows "T' (granule x) = T (granule x)"
proof -
  have "granule x \<notin> granule ` {PTR_CLEAR_TAG p..<PTR_CLEAR_TAG p + n}" using granule_in [OF live_granules [OF inv p] x(1)] x(2) by blast
  then show ?thesis using retaggedD(3) [OF tags] by blast
qed
lemma tagged_run_cong:
  assumes "tagged_run T b r" "\<And>j. j < regions b \<Longrightarrow> region_state r j = STATE_ALLOC \<Longrightarrow> \<forall>g \<in> region_granules b r j. T' g = T g" "run_inv b r" "placed b r"
  shows "tagged_run T' b r"
proof -
  have "region_tag T' b r j = region_tag T b r j" if "j < regions b" "region_state r j = STATE_ALLOC" for j
    using assms(2) [OF that] region_granules_first [OF assms(3,4) that(1)] by (simp add: region_tag_def)
  then show ?thesis using assms(1,2) unfolding tagged_run_def by simp
qed

lemma region_live:
  assumes inv: "arena_inv mapped X a m G" and x: "i < ARENA_NO_BINS" "x \<in> bin_runs G i"
    and k: "k < regions (bins a ! i)" "region_state (run_at (runs m) x) k = STATE_ALLOC"
  shows "(region_addr (run_at (runs m) x) (bins a ! i) k, reg_size (bins a ! i)) \<in> live a m G"
proof -
  have "run_abs (bins a ! i) (run_at (runs m) x) (region_addr (run_at (runs m) x) (bins a ! i) k) = Some STATE_ALLOC"
    using run_abs_region [OF bin_repD(1) [OF bin_of_run(1) [OF arena_invD(4) [OF inv] x]] k(1)] k(2) by simp
  then have "(region_addr (run_at (runs m) x) (bins a ! i) k, reg_size (bins a ! i)) \<in> bin_live (bins a ! i) (runs m) (bin_runs G i)"
    using x(2) by (auto simp: bin_live_def bin_regions_def)
  then show ?thesis using live_split [OF x(1), of a m G] by blast
qed

lemma take_region_mte_ok:
  assumes hw: "mte_sound hw tag_at" and inv: "arena_inv mapped {} a m G" and i: "i < ARENA_NO_BINS"
    and rep: "bin_rep (bins a ! i) (runs m) (g_act G i) (g_inact G i)" "bin_index (reg_size (bins a ! i)) = i"
    and pos: "0 < avail_regs (bins a ! i)" and tags: "tagged_arena (tag_at t) a m G"
  obtains p b' h' g' t' G' where "allocate_from_runs_mte hw True (bins a ! i) (runs m) (prng m) t = ret (p, b', h', g', t')"
    "allocate_from_runs (bins a ! i) (runs m) (prng m) = ret (PTR_CLEAR_TAG p, b', h', g')" "PTR_CLEAR_TAG p \<noteq> 0"
    "arena_inv mapped {} (a\<lparr>bins := (bins a)[i := b']\<rparr>) (m\<lparr>runs := h', prng := g'\<rparr>) G'"
    "live (a\<lparr>bins := (bins a)[i := b']\<rparr>) (m\<lparr>runs := h', prng := g'\<rparr>) G' = insert (PTR_CLEAR_TAG p, reg_size (bins a ! i)) (live a m G)"
    "(PTR_CLEAR_TAG p, reg_size (bins a ! i)) \<notin> live a m G" "same_geometry (bins a ! i) b'" "extends m G (m\<lparr>runs := h', prng := g'\<rparr>) G'"
    "tagged_arena (tag_at t') (a\<lparr>bins := (bins a)[i := b']\<rparr>) (m\<lparr>runs := h', prng := g'\<rparr>) G'"
    "retagged (tag_at t) (tag_at t') p (reg_size (bins a ! i))"
proof -
  let ?b = "bins a ! i"
  note I = arena_invD [OF inv]
  have br: "set (g_act G i) \<union> set (g_inact G i) = bin_runs G i" by (simp add: bin_runs_def)
  obtain q b' h' g' G' where T: "allocate_from_runs ?b (runs m) (prng m) = ret (q, b', h', g')" "q \<noteq> 0"
    "arena_inv mapped {} (a\<lparr>bins := (bins a)[i := b']\<rparr>) (m\<lparr>runs := h', prng := g'\<rparr>) G'"
    "live (a\<lparr>bins := (bins a)[i := b']\<rparr>) (m\<lparr>runs := h', prng := g'\<rparr>) G' = insert (q, reg_size ?b) (live a m G)"
    "(q, reg_size ?b) \<notin> live a m G" "same_geometry ?b b'" "extends m G (m\<lparr>runs := h', prng := g'\<rparr>) G'" "bin_runs G' = bin_runs G"
    by (rule take_region_ok [OF inv i rep pos]) (rule that)
  let ?a = "a\<lparr>bins := (bins a)[i := b']\<rparr>" and ?m = "m\<lparr>runs := h', prng := g'\<rparr>"
  have len: "i < length (bins a)" using I(4) i by (simp add: bin_part_def)
  have at: "placed ?b (run_at (runs m) y) \<and> tagged_run (tag_at t) ?b (run_at (runs m) y)" if "y \<in> set (g_act G i)" for y
    using run_placed [OF inv i] tags i that by (simp add: tagged_arena_def bin_runs_def)
  obtain x p b1 h1 g1 t' where M: "allocate_from_runs_mte hw True ?b (runs m) (prng m) t = ret (p, b1, h1, g1, t')"
    "allocate_from_runs ?b (runs m) (prng m) = ret (PTR_CLEAR_TAG p, b1, h1, g1)" "x \<in> set (g_act G i)"
    "tagged_run (tag_at t') ?b (run_at h1 x)" "retagged (tag_at t) (tag_at t') p (reg_size ?b)" "run_abs ?b (run_at (runs m) x) (PTR_CLEAR_TAG p) = Some STATE_FREE"
    "\<And>y. y \<in> set (g_act G i) \<union> set (g_inact G i) \<Longrightarrow> y \<noteq> x \<Longrightarrow> unlink (run_at h1 y) = unlink (run_at (runs m) y)"
    "\<And>y. y \<notin> set (g_act G i) \<union> set (g_inact G i) \<Longrightarrow> h1 y = runs m y"
    by (rule allocate_from_runs_mte_ok [OF hw rep(1) pos at, of "prng m"]) (assumption, rule that)
  have eq: "q = PTR_CLEAR_TAG p" "b1 = b'" "h1 = h'" "g1 = g'" using M(2) T(1) by simp_all
  note M = M [unfolded eq(2-4) br] and T = T [unfolded eq(1)]
  have new: "(PTR_CLEAR_TAG p, reg_size ?b) \<in> live ?a ?m G'" using T(4) by simp
  have s: "reg_size ?b \<le> LARGE_SIZE_MAX_REGION" using bin_wf_regions(6) [OF bin_repD(1) [OF rep(1)]] by (simp add: LARGE_SIZE_MAX_REGION_def)
  have kept: "tagged_run (tag_at t') (bins a ! j) (run_at (runs m) y)" if y: "j < ARENA_NO_BINS" "y \<in> bin_runs G j" for j y
  proof (rule tagged_run_cong [OF _ _ run_of_bin(3) [OF I(4) y] run_placed [OF inv y]])
    show "tagged_run (tag_at t) (bins a ! j) (run_at (runs m) y)" using tags y by (simp add: tagged_arena_def)
    fix k
    let ?r = "region_addr (run_at (runs m) y) (bins a ! j) k"
    assume k: "k < regions (bins a ! j)" "region_state (run_at (runs m) y) k = STATE_ALLOC"
    have l: "(?r, reg_size (bins a ! j)) \<in> live a m G" by (rule region_live [OF inv y k])
    then have l': "(?r, reg_size (bins a ! j)) \<in> live ?a ?m G'" "(PTR_CLEAR_TAG p, reg_size ?b) \<noteq> (?r, reg_size (bins a ! j))" using T(4,5) by auto
    have out: "tag_at t' (granule z) = tag_at t (granule z)" if "z \<in> {?r..<?r + reg_size (bins a ! j)}" for z
      using live_apart [OF T(3) new l'] live_bound(1) [OF T(3) l'(1)] that by (intro retagged_outside [OF T(3) new s M(5)]) auto
    then show "\<forall>g \<in> region_granules (bins a ! j) (run_at (runs m) y) k. tag_at t' g = tag_at t g" by (auto simp: region_granules_def)
  qed
  have "tagged_arena (tag_at t') ?a ?m G'" unfolding tagged_arena_def T(8)
  proof (intro allI impI ballI)
    fix j y
    assume y: "j < ARENA_NO_BINS" "y \<in> bin_runs G j"
    note wf = bin_repD(1) [OF bin_of_run(1) [OF I(4) y]]
    have geo: "same_geometry (bins a ! j) (bins ?a ! j)" using T(6) len by (cases "j = i") (simp_all add: same_geometry_def)
    have U: "tagged_run (tag_at t') (bins a ! j) (run_at h' y)"
    proof (cases "y = x")
      case True
      then have "j = i" using I(4) i y M(3) unfolding bin_part_def bin_runs_def by blast
      then show ?thesis using M(4) True by simp
    next
      case False
      have "key (run_at h' y) = key (run_at (runs m) y) \<and> run_abs b (run_at h' y) = run_abs b (run_at (runs m) y)" for b
        using M(7) [of y] M(8) [of y] unlink_observed(2,6) [of "run_at h' y" "run_at (runs m) y"] False by (cases "y \<in> bin_runs G i") auto
      then show ?thesis by (intro tagged_run_abs_mono [OF kept [OF y] wf wf refl]) simp_all
    qed
    show "tagged_run (tag_at t') (bins ?a ! j) (run_at (runs ?m) y)"
      using geo wf geometry_cong(1,3) [OF geo] by (intro tagged_run_abs_mono [OF U wf]) (simp_all add: same_geometry_def)
  qed
  with that M(1,2,5) T show thesis by blast
qed
subsection \<open>\<open>malloc\<close>\<close>

lemma allocate_with_bin_mte_ok:
  assumes hw: "mte_sound hw tag_at" and os: "os_contract os mapped" "CHUNK_SIZE_BYTES \<le> L" and i: "i < ARENA_NO_BINS"
    and serve: "P \<longrightarrow> provision os mapped L (3 + n) a m" and go: "goes P (sealloc_allocate_with_bin_mte hw True os a m t i)" and brk: "brk_below B a" and inv: "arena_inv mapped {} a m G"
    and rep: "bin_rep (bins a ! i) (runs m) (g_act G i) (g_inact G i)" "bin_index (reg_size (bins a ! i)) = i"
    and pos: "0 < avail_regs (bins a ! i)" and tags: "tagged_arena (tag_at t) a m G"
  obtains p a' m' t' G' where "sealloc_allocate_with_bin_mte hw True os a m t i = ret (p, a', m', t')"
    "sealloc_allocate_with_bin os a m i = ret (PTR_CLEAR_TAG p, a', m')" "PTR_CLEAR_TAG p \<noteq> 0" "arena_inv mapped {} a' m' G'"
    "live a' m' G' = insert (PTR_CLEAR_TAG p, reg_size (bins a ! i)) (live a m G)" "(PTR_CLEAR_TAG p, reg_size (bins a ! i)) \<notin> live a m G"
    "bytes m' = bytes m" "reg_size (bins a' ! i) = reg_size (bins a ! i)" "extends m G m' G'" "tagged_arena (tag_at t') a' m' G'"
    "retagged (tag_at t) (tag_at t') p (reg_size (bins a ! i))"
proof -
  have len: "i < length (bins a'')" if "arena_inv mapped {} a'' m'' G''" for a'' m'' G''
    using arena_invD(4) [OF that] i by (simp add: bin_part_def)
  have go1: "goes P (if avail_regs (bins a ! i) < BIN_MINIMUM_REGIONS then add_run_to_bin os a m i else ret (True, a, m))"
    using go by (rule goes_step) (use len [OF inv] in \<open>simp_all add: sealloc_allocate_with_bin_mte_def arr_get_def\<close>)
  obtain a1 m1 G1 where 1: "(if avail_regs (bins a ! i) < BIN_MINIMUM_REGIONS then add_run_to_bin os a m i else ret (True, a, m)) = ret (True, a1, m1)"
    "arena_inv mapped {} a1 m1 G1" "brk_below B a1" "P \<longrightarrow> provision os mapped L n a1 m1" "live a1 m1 G1 = live a m G"
    "bin_rep (bins a1 ! i) (runs m1) (g_act G1 i) (g_inact G1 i)" "same_geometry (bins a ! i) (bins a1 ! i)"
    "0 < avail_regs (bins a1 ! i)" "bytes m1 = bytes m" "extends m G m1 G1"
    by (rule refill_ok [OF os i serve go1 brk inv rep pos]) (rule that)
  have idx: "bin_index (reg_size (bins a1 ! i)) = i" and sz: "reg_size (bins a1 ! i) = reg_size (bins a ! i)"
    using rep(2) 1(7) by (simp_all add: same_geometry_def)
  have tags1: "tagged_arena (tag_at t) a1 m1 G1" using tagged_extends [OF tags inv 1(2,10)] 1(5) by simp
  obtain p b' h' g' t' G' where T: "allocate_from_runs_mte hw True (bins a1 ! i) (runs m1) (prng m1) t = ret (p, b', h', g', t')"
    "allocate_from_runs (bins a1 ! i) (runs m1) (prng m1) = ret (PTR_CLEAR_TAG p, b', h', g')" "PTR_CLEAR_TAG p \<noteq> 0"
    "arena_inv mapped {} (a1\<lparr>bins := (bins a1)[i := b']\<rparr>) (m1\<lparr>runs := h', prng := g'\<rparr>) G'"
    "live (a1\<lparr>bins := (bins a1)[i := b']\<rparr>) (m1\<lparr>runs := h', prng := g'\<rparr>) G' = insert (PTR_CLEAR_TAG p, reg_size (bins a1 ! i)) (live a1 m1 G1)"
    "(PTR_CLEAR_TAG p, reg_size (bins a1 ! i)) \<notin> live a1 m1 G1" "same_geometry (bins a1 ! i) b'" "extends m1 G1 (m1\<lparr>runs := h', prng := g'\<rparr>) G'"
    "tagged_arena (tag_at t') (a1\<lparr>bins := (bins a1)[i := b']\<rparr>) (m1\<lparr>runs := h', prng := g'\<rparr>) G'"
    "retagged (tag_at t) (tag_at t') p (reg_size (bins a1 ! i))"
    by (rule take_region_mte_ok [OF hw 1(2) i 1(6) idx 1(8) tags1]) (rule that)
  have run: "sealloc_allocate_with_bin_mte hw True os a m t i = ret (p, a1\<lparr>bins := (bins a1)[i := b']\<rparr>, m1\<lparr>runs := h', prng := g'\<rparr>, t')"
    "sealloc_allocate_with_bin os a m i = ret (PTR_CLEAR_TAG p, a1\<lparr>bins := (bins a1)[i := b']\<rparr>, m1\<lparr>runs := h', prng := g'\<rparr>)"
    using 1(1) T(1,2) len [OF inv] len [OF 1(2)] by (simp_all add: sealloc_allocate_with_bin_mte_def sealloc_allocate_with_bin_def arr_get_def)
  show thesis
    by (rule that [OF run T(3,4)]) (use 1 T sz len [OF 1(2)] extends_trans [OF 1(10) T(8)] in \<open>simp_all add: same_geometry_def\<close>)
qed

text \<open>
  What an allocation of \<open>n\<close> bytes does to the tags: a regular region is tagged like its pointer, a
  huge mapping has a pointer with tag 0 and its granules are not touched.
\<close>

definition tags_region :: "(nat \<Rightarrow> nat) \<Rightarrow> (nat \<Rightarrow> nat) \<Rightarrow> addr \<Rightarrow> nat \<Rightarrow> bool" where
  "tags_region T T' p n \<longleftrightarrow> (if n \<le> LARGE_SIZE_MAX_REGION then retagged T T' p n else T' = T \<and> PTR_CLEAR_TAG p = p)"

lemma sealloc_malloc_mte_ok:
  assumes hw: "mte_sound hw tag_at" and os: "os_contract os mapped" "CHUNK_SIZE_BYTES \<le> L" and serve: "P \<longrightarrow> provision os mapped L 771 a m \<and> sz + 4096 \<le> L"
    and go: "goes P (sealloc_malloc_mte hw True os a m t sz)"
    and brk: "brk_below B a" and inv: "arena_inv mapped {} a m G" and sz: "sz + 4096 \<le> 2 ^ 64" and tags: "tagged_arena (tag_at t) a m G"
  obtains p a' m' t' G' where "sealloc_malloc_mte hw True os a m t sz = ret (p, a', m', t')" "sealloc_malloc os a m sz = ret (PTR_CLEAR_TAG p, a', m')"
    "PTR_CLEAR_TAG p \<noteq> 0" "arena_inv mapped {} a' m' G'" "live a' m' G' = insert (PTR_CLEAR_TAG p, region_size sz) (live a m G)"
    "(PTR_CLEAR_TAG p, region_size sz) \<notin> live a m G" "bytes m' = bytes m" "extends m G m' G'" "tagged_arena (tag_at t') a' m' G'"
    "tags_region (tag_at t) (tag_at t') p (region_size sz)"
proof -
  let ?z = "if sz = 0 then SMALL_SIZE_MIN_REGION else sz"
  have z: "region_size sz = (if IS_SIZE_HUGE ?z then alignup_page64 ?z else aligned_size ?z)" "sz + 4095 < 2 ^ 64" "1 \<le> ?z"
    using region_size_rounded [of sz] sz by (simp_all add: SMALL_SIZE_MIN_REGION_def)
  show thesis
  proof (cases "IS_SIZE_HUGE ?z")
    case True
    then have zz: "?z = sz" by (auto simp: IS_SIZE_HUGE_def size_consts split: if_splits)
    note al = alignup_page64_bounds [OF z(2)]
    have len: "LARGE_SIZE_MAX_REGION < alignup_page64 sz" using al(1) True zz by (simp add: IS_SIZE_HUGE_def)
    have s: "P \<longrightarrow> provision os mapped L (Suc 0) a m \<and> alignup_page64 sz \<le> L" using serve al(2) by (auto intro: supplied_mono)
    have go1: "goes P (arena_allocate_huge_mapping os a m (alignup_page64 sz))"
      using go by (rule goes_step) (use True zz in \<open>simp_all add: sealloc_malloc_mte_def Let_def\<close>)
    obtain x q a' m' G' where R: "arena_allocate_huge_mapping os a m (alignup_page64 sz) = ret (x, a', m')" "load (huges m') x = ret (the (huges m' x))"
      "key (the (huges m' x)) = q" "0 < q" "q + alignup_page64 sz \<le> 2 ^ 47" "arena_inv mapped {} a' m' G'" "brk_below B a'"
      "live a' m' G' = insert (q, alignup_page64 sz) (live a m G)" "(q, alignup_page64 sz) \<notin> live a m G" "bytes m' = bytes m" "bins a' = bins a" "extends m G m' G'"
      by (rule allocate_huge_ok [OF os s go1 brk inv len al(3)]) (rule that)
    have q: "PTR_CLEAR_TAG q = q" using R(5) by (intro clear_small) simp
    have run: "sealloc_malloc_mte hw True os a m t sz = ret (q, a', m', t)" "sealloc_malloc os a m sz = ret (PTR_CLEAR_TAG q, a', m')"
      using True zz R(1,2,3) q by (simp_all add: sealloc_malloc_mte_def sealloc_malloc_def Let_def del: load_ret_iff)
    have "tagged_arena (tag_at t) a' m' G'" by (rule tagged_extends [OF tags inv R(6,12)]) (use R(8) len in auto)
    then show thesis by (intro that [OF run _ R(6)]) (use R True zz z(1) q len in \<open>simp_all add: tags_region_def\<close>)
  next
    case False
    have zr: "1 \<le> ?z" "?z \<le> LARGE_SIZE_MAX_REGION" using z(3) False by (simp_all add: IS_SIZE_HUGE_def)
    note c = aligned_size_least(1) [OF zr]
    have u: "u32 (aligned_size ?z) = aligned_size ?z" using size_class_bounds [OF c] by (simp add: wrap_simps)
    have s: "P \<longrightarrow> provision os mapped L (768 + (3 + 0)) a m" using serve by simp
    have go1: "goes P (prepared_bin os a m (aligned_size ?z))"
      using go by (rule goes_step) (use False u in \<open>simp_all add: sealloc_malloc_mte_def Let_def split: if_splits\<close>)
    obtain i a1 m1 G1 where P: "prepared_bin os a m (aligned_size ?z) = ret ((True, i), a1, m1)" "i < ARENA_NO_BINS" "arena_inv mapped {} a1 m1 G1" "brk_below B a1"
      "P \<longrightarrow> provision os mapped L (3 + 0) a1 m1" "live a1 m1 G1 = live a m G"
      "bin_rep (bins a1 ! i) (runs m1) (g_act G1 i) (g_inact G1 i)" "bin_index (reg_size (bins a1 ! i)) = i"
      "reg_size (bins a1 ! i) = aligned_size ?z" "0 < avail_regs (bins a1 ! i)" "bytes m1 = bytes m" "extends m G m1 G1"
      by (rule prepared_bin_ok [OF os c s go1 brk inv]) (rule that)
    have tags1: "tagged_arena (tag_at t) a1 m1 G1" using tagged_extends [OF tags inv P(3,12)] P(6) by simp
    have go2: "goes P (sealloc_allocate_with_bin_mte hw True os a1 m1 t i)"
      using go by (rule goes_step) (use False P(1) u in \<open>simp_all add: sealloc_malloc_mte_def Let_def split: if_splits\<close>)
    obtain p a' m' t' G' where A: "sealloc_allocate_with_bin_mte hw True os a1 m1 t i = ret (p, a', m', t')"
      "sealloc_allocate_with_bin os a1 m1 i = ret (PTR_CLEAR_TAG p, a', m')" "PTR_CLEAR_TAG p \<noteq> 0" "arena_inv mapped {} a' m' G'"
      "live a' m' G' = insert (PTR_CLEAR_TAG p, reg_size (bins a1 ! i)) (live a1 m1 G1)" "(PTR_CLEAR_TAG p, reg_size (bins a1 ! i)) \<notin> live a1 m1 G1"
      "bytes m' = bytes m1" "extends m1 G1 m' G'" "tagged_arena (tag_at t') a' m' G'" "retagged (tag_at t) (tag_at t') p (reg_size (bins a1 ! i))"
      by (rule allocate_with_bin_mte_ok [OF hw os P(2,5) go2 P(4,3,7,8,10) tags1]) (rule that)
    have run: "sealloc_malloc_mte hw True os a m t sz = ret (p, a', m', t')" "sealloc_malloc os a m sz = ret (PTR_CLEAR_TAG p, a', m')"
      using False P(1) A(1,2) u by (simp_all add: sealloc_malloc_mte_def sealloc_malloc_def Let_def del: split_paired_All split: if_splits)
    have "aligned_size ?z \<le> LARGE_SIZE_MAX_REGION" using size_class_bounds [OF c] by (simp add: LARGE_SIZE_MAX_REGION_def)
    then show thesis
      by (intro that [OF run A(3,4)]) (use A P False z(1) extends_trans [OF P(12) A(8)] in \<open>simp_all add: tags_region_def\<close>)
  qed
qed
subsection \<open>\<open>free\<close>\<close>

lemma sealloc_free_with_metadata_mte_eq:
  "sealloc_free_with_metadata_mte e os a m c i x p = sealloc_free_with_metadata os a m c i x (untagged e p)"
  by (simp add: sealloc_free_with_metadata_mte_def sealloc_free_with_metadata_def deallocate_in_run_mte_def deallocate_in_run_def
      run_deallocate_mte_eq untagged_def)

lemma sealloc_free_mte_eq:
  assumes "PTR_CLEAR_TAG p \<noteq> 0"
  shows "sealloc_free_mte True os a m p = sealloc_free os a m (PTR_CLEAR_TAG p)"
proof -
  have "p \<noteq> 0" using assms by (auto simp: PTR_CLEAR_TAG_eq)
  then show ?thesis using assms
    by (simp add: sealloc_free_mte_def sealloc_free_def sealloc_free_with_metadata_mte_eq untagged_def Let_def cong: metadata_t.case_cong)
qed

lemma tagged_bytes [simp]: "tagged_arena T a (m\<lparr>bytes := b\<rparr>) G = tagged_arena T a m G"
  by (simp add: tagged_arena_def)

lemma tagged_settles:
  assumes "tagged_arena T a m G" "arena_inv mapped {} a m G" "settles mapped a (m\<lparr>bytes := b\<rparr>) G a' m' G'" "live a' m' G' \<subseteq> live a m G"
  shows "tagged_arena T a' m' G'"
proof -
  have "tagged_arena T a (m\<lparr>bytes := b\<rparr>) G" "arena_inv mapped {} a (m\<lparr>bytes := b\<rparr>) G" using assms(1,2) by (simp_all add: inv_bytes)
  then show ?thesis by (rule tagged_keeps [OF _ _ settlesD(1,7) [OF assms(3)]]) (use assms(4) in \<open>auto simp: live_bytes\<close>)
qed

subsection \<open>\<open>realloc\<close>\<close>

text \<open>A region of \<open>k\<close> bytes for a request of \<open>n\<close> bytes is large enough, and a regular region for a regular request.\<close>

definition fits :: "nat \<Rightarrow> nat \<Rightarrow> bool" where
  "fits n k \<longleftrightarrow> n \<le> k \<and> (n \<le> LARGE_SIZE_MAX_REGION \<longrightarrow> k \<le> LARGE_SIZE_MAX_REGION)"

lemma fits_rounded:
  assumes "n + 4095 < 2 ^ 64"
  shows "fits n (region_size n)" "fits n (alignup_page64 n)"
proof -
  have r: "region_size n \<le> LARGE_SIZE_MAX_REGION" if "n \<le> LARGE_SIZE_MAX_REGION"
  proof -
    let ?z = "if n = 0 then SMALL_SIZE_MIN_REGION else n"
    have z: "1 \<le> ?z" "?z \<le> LARGE_SIZE_MAX_REGION" using that by (simp_all add: size_consts)
    have "aligned_size ?z \<le> LARGE_SIZE_MAX_REGION"
      using size_class_bounds [OF aligned_size_least(1) [OF z]] by (simp add: LARGE_SIZE_MAX_REGION_def)
    then show ?thesis using z unfolding region_size_rounded by (simp add: Let_def IS_SIZE_HUGE_def)
  qed
  show "fits n (region_size n)" using r region_size_bounds(1) [OF assms] by (simp add: fits_def)
  note al = alignup_page64_bounds [OF assms]
  have "alignup_page64 n \<le> LARGE_SIZE_MAX_REGION" if "n \<le> LARGE_SIZE_MAX_REGION"
  proof -
    obtain j where j: "alignup_page64 n = 4096 * j" using al(3) by (auto elim: dvdE)
    have "4096 * j < 4096 * 257" using al(2) that unfolding j by (simp add: LARGE_SIZE_MAX_REGION_def)
    then show ?thesis unfolding j by (simp add: LARGE_SIZE_MAX_REGION_def)
  qed
  then show "fits n (alignup_page64 n)" using al(1) by (simp add: fits_def)
qed

lemma fits_trans: "fits n k \<Longrightarrow> fits k l \<Longrightarrow> fits n l"
  by (auto simp: fits_def)

text \<open>The outcome: that of the build without tagging up to the tag, with the new region tagged.\<close>

definition reallocated_mte ::
    "('t \<Rightarrow> nat \<Rightarrow> nat) \<Rightarrow> ('w \<Rightarrow> addr set) \<Rightarrow> arena_t \<Rightarrow> 'w mem \<Rightarrow> ghost \<Rightarrow> 't \<Rightarrow> addr \<Rightarrow> nat \<Rightarrow> nat \<Rightarrow>
      (addr \<times> arena_t \<times> 'w mem \<times> 't) res \<Rightarrow> (addr \<times> arena_t \<times> 'w mem) res \<Rightarrow> bool" where
  "reallocated_mte tag_at mapped a m G t p s n r r0 \<longleftrightarrow> (\<exists>q k a' m' t' G'. r = ret (q, a', m', t') \<and> r0 = ret (PTR_CLEAR_TAG q, a', m')
     \<and> PTR_CLEAR_TAG q \<noteq> 0 \<and> fits n k \<and> arena_inv mapped {} a' m' G' \<and> live a' m' G' = insert (PTR_CLEAR_TAG q, k) (live a m G - {(p, s)})
     \<and> PTR_CLEAR_TAG q \<notin> fst ` live a m G \<and> tagged_arena (tag_at t') a' m' G' \<and> tags_region (tag_at t) (tag_at t') q k)"

lemma reallocated_mteI:
  assumes "r = ret (q, a', m', t')" "r0 = ret (PTR_CLEAR_TAG q, a', m')" "PTR_CLEAR_TAG q \<noteq> 0" "fits n k" "arena_inv mapped {} a' m' G'"
    "live a' m' G' = insert (PTR_CLEAR_TAG q, k) (live a m G) - {(p, s)}" "PTR_CLEAR_TAG q \<notin> fst ` live a m G" "(p, s) \<in> live a m G"
    "tagged_arena (tag_at t') a' m' G'" "tags_region (tag_at t) (tag_at t') q k"
  shows "reallocated_mte tag_at mapped a m G t p s n r r0"
proof -
  have "live a' m' G' = insert (PTR_CLEAR_TAG q, k) (live a m G - {(p, s)})" using assms(6-8) by force
  then show ?thesis using assms unfolding reallocated_mte_def by blast
qed

lemma realloc_regular_mte_ok:
  assumes hw: "mte_sound hw tag_at" and os: "os_contract os mapped" "CHUNK_SIZE_BYTES \<le> L" and serve: "P \<longrightarrow> provision os mapped L 771 a m \<and> n + 4096 \<le> L"
    and go: "goes P (realloc_regular_mte hw True os a m t c i x p tp n)"
    and brk: "brk_below B a" and inv: "arena_inv mapped {} a m G" and i: "i < ARENA_NO_BINS" "x \<in> bin_runs G i" "g_home G x = (c, k)"
    "run_abs (bins a ! i) (run_at (runs m) x) p = Some STATE_ALLOC" and live: "(p, s) \<in> live a m G" and p: "PTR_CLEAR_TAG tp = p"
    and n: "1 \<le> n" "n + 4096 \<le> 2 ^ 64" and tags: "tagged_arena (tag_at t) a m G"
  shows "\<not> os_unmaps os \<and> realloc_regular_mte hw True os a m t c i x p tp n = fail Exit
     \<or> reallocated_mte tag_at mapped a m G t p s n (realloc_regular_mte hw True os a m t c i x p tp n) (realloc_regular os a m c i x p n)"
proof -
  note I = arena_invD [OF inv]
  have cp: "PTR_CLEAR_TAG p = p" "untagged True tp = p" "untagged True p = p" using p by (auto simp: untagged_def)
  have len: "i < length (bins a')" if "arena_inv mapped {} a' m' G'" for a' m' G' using arena_invD(4) [OF that] i(1) by (simp add: bin_part_def)
  have r: "load (runs m) x = ret (the (runs m x))" using run_of_bin(1,2) [OF I(4) i(1,2)] by simp
  obtain j where val: "run_validate_ptr (the (runs m x)) (bins a ! i) p = ret j" "j \<noteq> SIZE_MAX"
    using validate_allocated [OF run_of_bin(3) [OF I(4) i(1,2)] i(4)] by blast
  note unf = realloc_regular_mte_def realloc_regular_def run_validate_ptr_mte_def cp sealloc_free_with_metadata_mte_eq arr_get_def Let_def
  have z: "n + 4095 < 2 ^ 64" using n(2) by simp
  show ?thesis
  proof (cases "IS_SIZE_HUGE n")
    case True
    note al = alignup_page64_bounds [OF z]
    have len': "LARGE_SIZE_MAX_REGION < alignup_page64 n" using al(1) True by (simp add: IS_SIZE_HUGE_def)
    have sv: "P \<longrightarrow> provision os mapped L (Suc 0) a m \<and> alignup_page64 n \<le> L" using serve al(2) by (auto intro: supplied_mono)
    have go1: "goes P (arena_allocate_huge_mapping os a m (alignup_page64 n))"
      using go by (rule goes_step) (use r val True len [OF inv] in \<open>simp_all add: unf del: load_ret_iff\<close>)
    obtain h q a1 m1 G1 where A: "arena_allocate_huge_mapping os a m (alignup_page64 n) = ret (h, a1, m1)" "load (huges m1) h = ret (the (huges m1 h))"
      "key (the (huges m1 h)) = q" "0 < q" "q + alignup_page64 n \<le> 2 ^ 47" "arena_inv mapped {} a1 m1 G1" "brk_below B a1"
      "live a1 m1 G1 = insert (q, alignup_page64 n) (live a m G)" "(q, alignup_page64 n) \<notin> live a m G" "bytes m1 = bytes m" "bins a1 = bins a"
      "extends m G m1 G1" "h \<in> set (g_huges G1)"
      by (rule allocate_huge_ok [OF os sv go1 brk inv len' al(3)]) (rule that)
    have q: "PTR_CLEAR_TAG q = q" using A(5) by (intro clear_small) simp
    have tags1: "tagged_arena (tag_at t) a1 m1 G1" by (rule tagged_extends [OF tags inv A(6,12)]) (use A(8) len' in auto)
    let ?b = "mem_copy (bytes m1) q p (reg_size (bins a1 ! i))"
    note F = free_old_region [OF os_contractD [OF os(1)] inv i A(6,12,8) live, of ?b]
    let ?free = "sealloc_free_with_metadata os a1 (m1\<lparr>bytes := ?b\<rparr>) c i x p"
    have run: "realloc_regular_mte hw True os a m t c i x p tp n = bindR ?free (\<lambda>(arena, m). bindR (load (huges m) h) (\<lambda>y. ret (key y, arena, m, t)))"
      "realloc_regular os a m c i x p n = bindR ?free (\<lambda>(arena, m). bindR (load (huges m) h) (\<lambda>y. ret (key y, arena, m)))"
      using r val True A(1,2,3) len [OF inv] len [OF A(6)] by (simp_all add: unf del: load_ret_iff)
    from F [THEN conjunct2] show ?thesis
    proof (elim disjE exE conjE)
      fix a2 m2 G2
      assume f: "?free = ret (a2, m2)" "settles mapped a1 (m1\<lparr>bytes := ?b\<rparr>) G1 a2 m2 G2" "live a2 m2 G2 = insert (q, alignup_page64 n) (live a m G) - {(p, s)}"
      have "huges m2 h = huges m1 h" using settlesD(6) [OF f(2) A(13)] by simp
      then have ld: "load (huges m2) h = ret (the (huges m1 h))" using A(2) by simp
      have res: "realloc_regular_mte hw True os a m t c i x p tp n = ret (q, a2, m2, t)" "realloc_regular os a m c i x p n = ret (PTR_CLEAR_TAG q, a2, m2)"
        unfolding run using f(1) ld A(3) q by (simp_all del: load_ret_iff)
      have tg: "tagged_arena (tag_at t) a2 m2 G2" by (rule tagged_settles [OF tags1 A(6) f(2)]) (simp add: f(3) A(8) Diff_subset)
      have new: "PTR_CLEAR_TAG q \<notin> fst ` live a m G" using live_new [OF A(6,8,9)] q by simp
      show ?thesis
        by (rule disjI2, rule reallocated_mteI [where tag_at = tag_at and t = t and t' = t, OF res _ fits_rounded(2) [OF z] settlesD(1) [OF f(2)] _ new live tg]) (use q A(4) f(3) len' in \<open>simp_all add: tags_region_def\<close>)
    qed (simp add: run)
  next
    case False
    have zr: "n \<le> LARGE_SIZE_MAX_REGION" using False by (simp add: IS_SIZE_HUGE_def)
    note cl = aligned_size_least(1,2) [OF n(1) zr]
    have u: "u32 (aligned_size n) = aligned_size n" "aligned_size n \<le> LARGE_SIZE_MAX_REGION"
      using size_class_bounds [OF cl(1)] by (simp_all add: wrap_simps LARGE_SIZE_MAX_REGION_def)
    have sv: "P \<longrightarrow> provision os mapped L (768 + (3 + 0)) a m" using serve by simp
    have go1: "goes P (prepared_bin os a m (aligned_size n))"
      using go by (rule goes_step) (use r val False len [OF inv] u in \<open>simp_all add: unf del: load_ret_iff\<close>)
    obtain j a1 m1 G1 where P: "prepared_bin os a m (aligned_size n) = ret ((True, j), a1, m1)" "j < ARENA_NO_BINS" "arena_inv mapped {} a1 m1 G1" "brk_below B a1"
      "P \<longrightarrow> provision os mapped L (3 + 0) a1 m1" "live a1 m1 G1 = live a m G"
      "bin_rep (bins a1 ! j) (runs m1) (g_act G1 j) (g_inact G1 j)" "bin_index (reg_size (bins a1 ! j)) = j"
      "reg_size (bins a1 ! j) = aligned_size n" "0 < avail_regs (bins a1 ! j)" "bytes m1 = bytes m" "extends m G m1 G1"
      by (rule prepared_bin_ok [OF os cl(1) sv go1 brk inv]) (rule that)
    have tags1: "tagged_arena (tag_at t) a1 m1 G1" using tagged_extends [OF tags inv P(3,12)] P(6) by simp
    have go2: "goes P (sealloc_allocate_with_bin_mte hw True os a1 m1 t j)"
      using go by (rule goes_step) (use r val False len [OF inv] u P(1) in \<open>simp_all add: unf del: load_ret_iff\<close>)
    obtain q a2 m2 t' G2 where A: "sealloc_allocate_with_bin_mte hw True os a1 m1 t j = ret (q, a2, m2, t')"
      "sealloc_allocate_with_bin os a1 m1 j = ret (PTR_CLEAR_TAG q, a2, m2)" "PTR_CLEAR_TAG q \<noteq> 0" "arena_inv mapped {} a2 m2 G2"
      "live a2 m2 G2 = insert (PTR_CLEAR_TAG q, reg_size (bins a1 ! j)) (live a1 m1 G1)" "(PTR_CLEAR_TAG q, reg_size (bins a1 ! j)) \<notin> live a1 m1 G1"
      "bytes m2 = bytes m1" "reg_size (bins a2 ! j) = reg_size (bins a1 ! j)" "extends m1 G1 m2 G2"
      "tagged_arena (tag_at t') a2 m2 G2" "retagged (tag_at t) (tag_at t') q (reg_size (bins a1 ! j))"
      by (rule allocate_with_bin_mte_ok [OF hw os P(2,5) go2 P(4,3,7,8,10) tags1]) (rule that)
    have ext: "extends m G m2 G2" using P(12) A(9) by (rule extends_trans)
    have lv: "live a2 m2 G2 = insert (PTR_CLEAR_TAG q, aligned_size n) (live a m G)" using A(5) P(6,9) by simp
    let ?l = "if reg_size (bins a2 ! i) < reg_size (bins a2 ! j) then reg_size (bins a2 ! i) else reg_size (bins a2 ! j)"
    let ?b = "mem_copy (bytes m2) (PTR_CLEAR_TAG q) p ?l"
    note F = free_old_region [OF os_contractD [OF os(1)] inv i A(4) ext lv live, of ?b]
    let ?free = "sealloc_free_with_metadata os a2 (m2\<lparr>bytes := ?b\<rparr>) c i x p"
    have q: "q \<noteq> 0" "untagged True q = PTR_CLEAR_TAG q" using A(3) by (auto simp: PTR_CLEAR_TAG_eq untagged_def)
    have "j < length (bins a2)" using arena_invD(4) [OF A(4)] P(2) by (simp add: bin_part_def)
    then have run: "realloc_regular_mte hw True os a m t c i x p tp n = bindR ?free (\<lambda>(arena, m). ret (q, arena, m, t'))"
      "realloc_regular os a m c i x p n = bindR ?free (\<lambda>(arena, m). ret (PTR_CLEAR_TAG q, arena, m))"
      using r val False P(1) A(1-3) q len [OF inv] len [OF A(4)] u(1) by (simp_all add: unf del: load_ret_iff)
    from F [THEN conjunct2] show ?thesis
    proof (elim disjE exE conjE)
      fix a3 m3 G3
      assume f: "?free = ret (a3, m3)" "settles mapped a2 (m2\<lparr>bytes := ?b\<rparr>) G2 a3 m3 G3"
        "live a3 m3 G3 = insert (PTR_CLEAR_TAG q, aligned_size n) (live a m G) - {(p, s)}"
      have res: "realloc_regular_mte hw True os a m t c i x p tp n = ret (q, a3, m3, t')" "realloc_regular os a m c i x p n = ret (PTR_CLEAR_TAG q, a3, m3)"
        unfolding run using f(1) by simp_all
      have tg: "tagged_arena (tag_at t') a3 m3 G3" by (rule tagged_settles [OF A(10,4) f(2)]) (simp add: f(3) lv Diff_subset)
      have new: "PTR_CLEAR_TAG q \<notin> fst ` live a m G" using A(4) lv by (rule live_new) (use A(6) P(6,9) in simp)
      have "fits n (aligned_size n)" "tags_region (tag_at t) (tag_at t') q (aligned_size n)"
        using A(11) P(9) u(2) cl(2) by (simp_all add: tags_region_def fits_def)
      then show ?thesis by (intro disjI2 reallocated_mteI [where tag_at = tag_at, OF res A(3) _ settlesD(1) [OF f(2)] f(3) new live tg])
    qed (simp add: run)
  qed
qed
lemma realloc_huge_mte_ok:
  assumes hw: "mte_sound hw tag_at" and os: "os_contract os mapped" "CHUNK_SIZE_BYTES \<le> L" and serve: "P \<longrightarrow> provision os mapped L 771 a m \<and> t \<le> L"
    and go: "goes P (realloc_huge_mte hw True os a m T x t)"
    and brk: "brk_below B a" and inv: "arena_inv mapped {} a m G" and x: "x \<in> set (g_huges G)" "p = key (the (huges m x))" "s = hlen (the (huges m x))"
    and n: "fits n t" "4096 dvd t" and tags: "tagged_arena (tag_at T) a m G"
  shows "\<not> os_unmaps os \<and> realloc_huge_mte hw True os a m T x t = fail Exit
     \<or> reallocated_mte tag_at mapped a m G T p s n (realloc_huge_mte hw True os a m T x t) (realloc_huge os a m x t)"
proof -
  have live: "(p, s) \<in> live a m G" using x by (auto simp: live_def)
  show ?thesis
  proof (cases "IS_SIZE_HUGE t")
    case True
    have t: "LARGE_SIZE_MAX_REGION < t" using True by (simp add: IS_SIZE_HUGE_def)
    have go1: "goes (provision os mapped L 771 a m \<and> t \<le> L) (arena_reallocate_huge_mapping os a m x t)"
      using go by (rule goes_step) (use True serve in \<open>simp_all add: realloc_huge_mte_def\<close>)
    note run = realloc_huge_mte_def [of hw True os a m T x t] realloc_huge_def [of os a m x t]
    from reallocate_huge_ok [OF os(1) go1 brk inv x(1) t n(2)] show ?thesis
    proof (elim disjE exE conjE)
      fix q a' m'
      assume f: "arena_reallocate_huge_mapping os a m x t = ret (a', m')" "load (huges m') x = ret (the (huges m' x))" "key (the (huges m' x)) = q" "0 < q"
        "arena_inv mapped {} a' m' G" "brk_below B a'" "live a' m' G = insert (q, t) (live a m G - {(key (the (huges m x)), hlen (the (huges m x)))})"
        "q \<notin> fst ` live a m G" "keeps_runs a m G a' m' G" "q + t \<le> 2 ^ 47"
      have q: "PTR_CLEAR_TAG q = q" using f(10) by (intro clear_small) simp
      have res: "realloc_huge_mte hw True os a m T x t = ret (q, a', m', T)" "realloc_huge os a m x t = ret (PTR_CLEAR_TAG q, a', m')"
        using True f(1-3) q by (simp_all add: run del: load_ret_iff)
      have tg: "tagged_arena (tag_at T) a' m' G" by (rule tagged_keeps [OF tags inv f(5,9)]) (use f(7) t in auto)
      have "live a' m' G = insert (q, t) (live a m G - {(p, s)})" using f(7) x(2,3) by simp
      then show ?thesis unfolding reallocated_mte_def using res f(4,5,8) n(1) q tg t
        by (intro disjI2 exI [of _ q] exI [of _ t] exI [of _ a'] exI [of _ m'] exI [of _ T] exI [of _ G]) (simp add: tags_region_def)
    qed (simp add: run True)
  next
    case False
    have tL: "t \<le> LARGE_SIZE_MAX_REGION" using False by (simp add: IS_SIZE_HUGE_def)
    then have t64: "t + 4096 \<le> 2 ^ 64" "t + 4096 \<le> L" using os(2) by (simp_all add: LARGE_SIZE_MAX_REGION_def CHUNK_SIZE_BYTES_def)
    then have sv: "P \<longrightarrow> provision os mapped L 771 a m \<and> t + 4096 \<le> L" using serve by blast
    have load: "load (huges m) x = ret (the (huges m x))" using huge_at(1,2) [OF arena_invD(3) [OF inv] x(1)] by simp
    have go1: "goes P (sealloc_malloc_mte hw True os a m T t)"
      using go by (rule goes_step) (use False load in \<open>simp_all add: realloc_huge_mte_def del: load_ret_iff\<close>)
    obtain q a1 m1 T' G1 where A: "sealloc_malloc_mte hw True os a m T t = ret (q, a1, m1, T')" "sealloc_malloc os a m t = ret (PTR_CLEAR_TAG q, a1, m1)"
      "PTR_CLEAR_TAG q \<noteq> 0" "arena_inv mapped {} a1 m1 G1" "live a1 m1 G1 = insert (PTR_CLEAR_TAG q, region_size t) (live a m G)"
      "(PTR_CLEAR_TAG q, region_size t) \<notin> live a m G" "bytes m1 = bytes m" "extends m G m1 G1" "tagged_arena (tag_at T') a1 m1 G1"
      "tags_region (tag_at T) (tag_at T') q (region_size t)"
      by (rule sealloc_malloc_mte_ok [OF hw os sv go1 brk inv t64(1) tags]) (rule that)
    have "t + 4095 < 2 ^ 64" using t64(1) by simp
    from fits_trans [OF n(1) fits_rounded(1) [OF this]] have rs: "fits n (region_size t)" .
    have q: "q \<noteq> 0" "untagged True q = PTR_CLEAR_TAG q" using A(3) by (auto simp: PTR_CLEAR_TAG_eq untagged_def)
    have x1: "x \<in> set (g_huges G1)" "key (the (huges m1 x)) = p" "hlen (the (huges m1 x)) = s" using A(8) x by (auto simp: extends_def)
    have ld: "load (huges m1) x = ret (the (huges m1 x))" using huge_at(1,2) [OF arena_invD(3) [OF A(4)] x1(1)] by simp
    let ?m1 = "m1\<lparr>bytes := mem_copy (bytes m1) (PTR_CLEAR_TAG q) p t\<rparr>"
    have inv1: "arena_inv mapped {} a1 ?m1 G1" and tags1: "tagged_arena (tag_at T') a1 ?m1 G1" using A(4,9) by (simp_all add: inv_bytes)
    have run: "realloc_huge_mte hw True os a m T x t = bindR (arena_deallocate_huge_mapping os a1 ?m1 x) (\<lambda>(arena, m). ret (q, arena, m, T'))"
      "realloc_huge os a m x t = bindR (arena_deallocate_huge_mapping os a1 ?m1 x) (\<lambda>(arena, m). ret (PTR_CLEAR_TAG q, arena, m))"
      using False A(1-3) x1(2) ld q by (simp_all add: realloc_huge_mte_def realloc_huge_def del: load_ret_iff)
    from deallocate_huge_ok [OF os_contractD [OF os(1)] inv1 x1(1)] show ?thesis
    proof (elim disjE exE conjE)
      fix a2 m2 G2
      assume f: "arena_deallocate_huge_mapping os a1 ?m1 x = ret (a2, m2)" "arena_inv mapped {} a2 m2 G2"
        "live a2 m2 G2 = live a1 ?m1 G1 - {(key (the (huges ?m1 x)), hlen (the (huges ?m1 x)))}" "keeps_runs a1 ?m1 G1 a2 m2 G2"
      have lv: "live a2 m2 G2 = insert (PTR_CLEAR_TAG q, region_size t) (live a m G) - {(p, s)}" using f(3) x1(2,3) A(5) by (simp add: live_bytes)
      have res: "realloc_huge_mte hw True os a m T x t = ret (q, a2, m2, T')" "realloc_huge os a m x t = ret (PTR_CLEAR_TAG q, a2, m2)"
        unfolding run using f(1) by simp_all
      have tg: "tagged_arena (tag_at T') a2 m2 G2" by (rule tagged_keeps [OF tags1 inv1 f(2,4)]) (use f(3) in simp)
      show ?thesis
        by (rule disjI2, rule reallocated_mteI [where tag_at = tag_at, OF res A(3) rs f(2) lv live_new [OF A(4-6)] live tg A(10)])
    qed (simp add: run)
  qed
qed

lemma sealloc_realloc_mte_ok:
  assumes hw: "mte_sound hw tag_at" and os: "os_contract os mapped" "CHUNK_SIZE_BYTES \<le> L" and serve: "P \<longrightarrow> provision os mapped L 771 a m \<and> n + 4096 \<le> L"
    and go: "goes P (sealloc_realloc_mte hw True os a m t p n)"
    and brk: "brk_below B a" and inv: "arena_inv mapped {} a m G" and p: "(PTR_CLEAR_TAG p, s) \<in> live a m G" and n: "1 \<le> n" "n + 4096 \<le> 2 ^ 64"
    and tags: "tagged_arena (tag_at t) a m G"
  shows "\<not> os_unmaps os \<and> sealloc_realloc_mte hw True os a m t p n = fail Exit
     \<or> reallocated_mte tag_at mapped a m G t (PTR_CLEAR_TAG p) s n (sealloc_realloc_mte hw True os a m t p n) (sealloc_realloc os a m (PTR_CLEAR_TAG p) n)"
proof -
  have p0: "PTR_CLEAR_TAG p \<noteq> 0" "p \<noteq> 0" using live_positive [OF inv p] by (auto simp: PTR_CLEAR_TAG_eq)
  from inv p show ?thesis
  proof (cases rule: locate_live)
    case (run i x c k)
    have eq: "sealloc_realloc_mte hw True os a m t p n = realloc_regular_mte hw True os a m t c i x (PTR_CLEAR_TAG p) p n"
      "sealloc_realloc os a m (PTR_CLEAR_TAG p) n = realloc_regular os a m c i x (PTR_CLEAR_TAG p) n"
      using run(1) p0 by (simp_all add: sealloc_realloc_mte_def sealloc_realloc_def Let_def)
    have "goes P (realloc_regular_mte hw True os a m t c i x (PTR_CLEAR_TAG p) p n)" using go unfolding eq(1) .
    from realloc_regular_mte_ok [OF hw os serve this brk inv run(2-5) p refl n tags] show ?thesis unfolding eq .
  next
    case (huge x)
    have z: "n + 4095 < 2 ^ 64" using n(2) by simp
    note al = alignup_page64_bounds [OF z]
    have sv: "P \<longrightarrow> provision os mapped L 771 a m \<and> alignup_page64 n \<le> L" using serve al(2) by auto
    have eq: "sealloc_realloc_mte hw True os a m t p n = realloc_huge_mte hw True os a m t x (alignup_page64 n)"
      "sealloc_realloc os a m (PTR_CLEAR_TAG p) n = realloc_huge os a m x (alignup_page64 n)"
      using huge(1) p0 by (simp_all add: sealloc_realloc_mte_def sealloc_realloc_def Let_def)
    have "goes P (realloc_huge_mte hw True os a m t x (alignup_page64 n))" using go unfolding eq(1) .
    from realloc_huge_mte_ok [OF hw os sv this brk inv huge(2-4) fits_rounded(2) [OF z] al(3) tags] show ?thesis unfolding eq .
  qed
qed
subsection \<open>\<open>calloc\<close>\<close>

lemma sealloc_calloc_mte_ok:
  assumes hw: "mte_sound hw tag_at" and os: "os_contract os mapped" "CHUNK_SIZE_BYTES \<le> L" and serve: "P \<longrightarrow> provision os mapped L 771 a m \<and> k * n + 4096 \<le> L"
    and go: "goes P (sealloc_calloc_mte hw True os a m t k n)"
    and brk: "brk_below B a" and inv: "arena_inv mapped {} a m G" and kn: "k \<noteq> 0" "n \<noteq> 0" "k * n + 4096 \<le> 2 ^ 64" and tags: "tagged_arena (tag_at t) a m G"
  obtains p a' m' t' G' where "sealloc_calloc_mte hw True os a m t k n = ret (p, a', m', t')" "sealloc_calloc os a m k n = ret (PTR_CLEAR_TAG p, a', m')"
    "PTR_CLEAR_TAG p \<noteq> 0" "arena_inv mapped {} a' m' G'" "live a' m' G' = insert (PTR_CLEAR_TAG p, region_size (k * n)) (live a m G)"
    "(PTR_CLEAR_TAG p, region_size (k * n)) \<notin> live a m G" "tagged_arena (tag_at t') a' m' G'" "tags_region (tag_at t) (tag_at t') p (region_size (k * n))"
proof -
  have "k * n < 2 ^ 64" using kn(3) by simp
  then have u: "u64 (k * n) = k * n" by (simp add: wrap_simps)
  have go1: "goes P (sealloc_malloc_mte hw True os a m t (k * n))"
    using go by (rule goes_step) (use kn u in \<open>simp_all add: sealloc_calloc_mte_def\<close>)
  obtain p a' m' t' G' where A: "sealloc_malloc_mte hw True os a m t (k * n) = ret (p, a', m', t')" "sealloc_malloc os a m (k * n) = ret (PTR_CLEAR_TAG p, a', m')"
    "PTR_CLEAR_TAG p \<noteq> 0" "arena_inv mapped {} a' m' G'" "live a' m' G' = insert (PTR_CLEAR_TAG p, region_size (k * n)) (live a m G)"
    "(PTR_CLEAR_TAG p, region_size (k * n)) \<notin> live a m G" "tagged_arena (tag_at t') a' m' G'" "tags_region (tag_at t) (tag_at t') p (region_size (k * n))"
    by (rule sealloc_malloc_mte_ok [OF hw os serve go1 brk inv kn(3) tags]) (rule that)
  let ?m = "m'\<lparr>bytes := mem_set (bytes m') (PTR_CLEAR_TAG p) 0 (k * n)\<rparr>"
  have p: "p \<noteq> 0" using A(3) by (auto simp: PTR_CLEAR_TAG_eq)
  have "sealloc_calloc_mte hw True os a m t k n = ret (p, a', ?m, t')" "sealloc_calloc os a m k n = ret (PTR_CLEAR_TAG p, a', ?m)"
    using A(1-3) kn(1,2) p u by (simp_all add: sealloc_calloc_mte_def sealloc_calloc_def untagged_def)
  then show thesis using that [where G' = G'] A by (simp add: inv_bytes live_bytes)
qed
subsection \<open>Tagging disabled\<close>

text \<open>When the hardware or the kernel has no tags, the functions do what the build without tagging does.\<close>

lemma bindR_if: "bindR (if c then x else y) f = (if c then bindR x f else bindR y f)"
  by simp

lemma run_allocate_mte_off: "run_allocate_mte hw False r b t = bindR (run_allocate r b) (\<lambda>(p, r). ret (p, r, t))"
  by (simp add: run_allocate_mte_def)

lemma allocate_from_runs_mte_off:
  "allocate_from_runs_mte hw False b h g t = bindR (allocate_from_runs b h g) (\<lambda>(p, b, h, g). ret (p, b, h, g, t))"
  by (simp add: allocate_from_runs_mte_def allocate_from_runs_def run_allocate_mte_off bindR_assoc bindR_if Let_def case_prod_unfold cong: if_cong)

lemma sealloc_malloc_mte_off:
  "sealloc_allocate_with_bin_mte hw False os a m t i = bindR (sealloc_allocate_with_bin os a m i) (\<lambda>(p, a, m). ret (p, a, m, t))"
  "sealloc_malloc_mte hw False os a m t sz = bindR (sealloc_malloc os a m sz) (\<lambda>(p, a, m). ret (p, a, m, t))"
proof -
  show 1: "sealloc_allocate_with_bin_mte hw False os a m t i = bindR (sealloc_allocate_with_bin os a m i) (\<lambda>(p, a, m). ret (p, a, m, t))" for a m i
    by (simp add: sealloc_allocate_with_bin_mte_def sealloc_allocate_with_bin_def allocate_from_runs_mte_off bindR_assoc bindR_if Let_def case_prod_unfold cong: if_cong)
  show "sealloc_malloc_mte hw False os a m t sz = bindR (sealloc_malloc os a m sz) (\<lambda>(p, a, m). ret (p, a, m, t))"
    by (simp add: sealloc_malloc_mte_def sealloc_malloc_def 1 bindR_assoc bindR_if Let_def case_prod_unfold cong: if_cong)
qed

lemma sealloc_free_mte_off: "sealloc_free_mte False os a m p = sealloc_free os a m p"
  by (simp add: sealloc_free_mte_def sealloc_free_def sealloc_free_with_metadata_mte_eq untagged_def cong: metadata_t.case_cong)

lemma sealloc_calloc_mte_off:
  "sealloc_calloc_mte hw False os a m t k n = bindR (sealloc_calloc os a m k n) (\<lambda>(p, a, m). ret (p, a, m, t))"
  by (simp add: sealloc_calloc_mte_def sealloc_calloc_def sealloc_malloc_mte_off bindR_assoc bindR_if untagged_def case_prod_unfold cong: if_cong)

lemma sealloc_realloc_mte_off:
  "sealloc_realloc_mte hw False os a m t p n = bindR (sealloc_realloc os a m p n) (\<lambda>(p, a, m). ret (p, a, m, t))"
proof -
  have huge: "realloc_huge_mte hw False os a m t h n = bindR (realloc_huge os a m h n) (\<lambda>(p, a, m). ret (p, a, m, t))" for a h n
    by (simp add: realloc_huge_mte_def realloc_huge_def sealloc_malloc_mte_off bindR_assoc bindR_if untagged_def case_prod_unfold cong: if_cong)
  have regular: "realloc_regular_mte hw False os a m t c i x p p n = bindR (realloc_regular os a m c i x p n) (\<lambda>(p, a, m). ret (p, a, m, t))" for a c i x
    by (simp add: realloc_regular_mte_def realloc_regular_def run_validate_ptr_mte_def sealloc_malloc_mte_off sealloc_free_with_metadata_mte_eq
        bindR_assoc bindR_if untagged_def Let_def case_prod_unfold cong: if_cong)
  have "(case meta of METADATA_INVALID \<Rightarrow> fail Abort | METADATA_REGULAR c x i \<Rightarrow> realloc_regular_mte hw False os a m t c i x p p n
       | METADATA_HUGE h \<Rightarrow> realloc_huge_mte hw False os a m t h (alignup_page64 n))
     = bindR (case meta of METADATA_INVALID \<Rightarrow> fail Abort | METADATA_REGULAR c x i \<Rightarrow> realloc_regular os a m c i x p n
       | METADATA_HUGE h \<Rightarrow> realloc_huge os a m h (alignup_page64 n)) (\<lambda>(p, a, m). ret (p, a, m, t))" for meta a
    by (cases meta) (simp_all add: huge regular)
  then show ?thesis
    by (simp add: sealloc_realloc_mte_def sealloc_realloc_def sealloc_malloc_mte_off bindR_assoc bindR_if Let_def case_prod_unfold cong: if_cong)
qed

end
