(* ===== verification/Session_Spec.thy ===== *)
theory Session_Spec
  imports Sealloc_Spec
begin

text \<open>
  What the exported functions promise a program that starts with the static arena and calls
  them in any order (\<open>src/src/malloc_api.c\<close>): the invariant of the reachable states, and that every
  valid call is answered.
\<close>

subsection \<open>Initialisation\<close>

text \<open>C11: when a seed and a program break below the bound are available,
  \<open>arena_init\<close> returns and leaves a well-formed arena without live regions, whatever the
  arena and the memory held before.\<close>

theorem arena_init_correct:
  assumes "os_boots os B (world m)" "2 ^ 45 \<le> B" "B < MAX_USERSPACE_ADDR64"
  shows "\<exists>a' m'. arena_init os a m = ret (a', m') \<and> is_initialized a' \<and> brk_below B a' \<and> arena_inv mapped {} a' m' g_empty
     \<and> live a' m' g_empty = {} \<and> bytes m' = bytes m"
  using arena_init_inv [OF assms, of a mapped] by metis

lemma linux_boots: "os_boots linux_os 93824992231424 w"
  by (simp add: os_boots_def linux_os_def platform_get_random_def platform_get_program_break_def)

theorem arena_init_correct_witness:
  "\<exists>a' m'. arena_init linux_os static_arena (ex_mem []) = ret (a', m') \<and> is_initialized a' \<and> live a' m' g_empty = {}"
  using arena_init_correct [OF linux_boots, where a = static_arena and m = "ex_mem []" and mapped = linux_mapped] unfolding MAX_USERSPACE_ADDR64_def by auto

text \<open>The example kernel hands out the seed 42, from which the arena gets these pointers.\<close>

lemma ex_random:
  "splitmix32 (rng.make 42 42) = (551831576, rng.make 2654435811 42)"
  "splitmix64 (rng.make s 42) = (13679457532755275413, rng.make s 11400714819323198527)"
  "splitmix64 (rng.make s 11400714819323198527) = (2949826092126892291, rng.make s 4354685564936845396)"
  by (simp_all add: splitmix32_def splitmix64_def rng.defs drop_bit_eq_div)

lemma ex_resets:
  assumes "brk a = 93824992231424"
  shows "reset_chunk_ptr_start a (rng.make 42 42) = ret (a\<lparr>chunk_alloc_ptr := 551833600\<rparr>, rng.make 2654435811 42)"
    "reset_ia_ptr_start a (rng.make s 42) = ret (a\<lparr>internal_alloc_ptr := 102050498015232\<rparr>, rng.make s 11400714819323198527)"
    "reset_huge_alloc_ptr_start a (rng.make s 11400714819323198527) = ret (a\<lparr>huge_alloc_ptr := 109073344229376\<rparr>, rng.make s 4354685564936845396)"
proof -
  have align: "unat (ALIGNUP_PAGE (551831576 :: 32 word)) = 551833600" by (simp add: ALIGNUP_PAGE_def)
  show "reset_chunk_ptr_start a (rng.make 42 42) = ret (a\<lparr>chunk_alloc_ptr := 551833600\<rparr>, rng.make 2654435811 42)"
    by (simp add: reset_chunk_ptr_start_def ex_random assms MASK_44_BITS_def align)
  have "brk_below 93824992231424 a" using assms by (simp add: brk_below_def MAX_USERSPACE_ADDR64_def)
  note r = random_above_brk_eq(1) [OF this, unfolded assms MAX_USERSPACE_ADDR64_def]
  show "reset_ia_ptr_start a (rng.make s 42) = ret (a\<lparr>internal_alloc_ptr := 102050498015232\<rparr>, rng.make s 11400714819323198527)"
    by (simp add: reset_ia_ptr_start_def r ex_random alignup_page64_eq)
  show "reset_huge_alloc_ptr_start a (rng.make s 11400714819323198527) = ret (a\<lparr>huge_alloc_ptr := 109073344229376\<rparr>, rng.make s 4354685564936845396)"
    by (simp add: reset_huge_alloc_ptr_start_def r ex_random alignup_page64_eq)
qed

lemma ex_init:
  obtains a1 m1 where "with_init linux_os static_arena (ex_mem []) = ret (a1, m1)" "brk a1 = 93824992231424" "chunk_alloc_ptr a1 = 551833600"
    "internal_alloc_ptr a1 = 102050498015232" "huge_alloc_ptr a1 = 109073344229376" "world m1 = []"
proof -
  have g: "init_splitmix64 42 (init_splitmix32 42 (rng.make 0 0)) = rng.make 42 42"
    by (simp add: init_splitmix64_def init_splitmix32_def rng.defs)
  have r: "platform_get_random linux_os [] = (PLATFORM_STATUS_OK, Some 42, [])" "prng (ex_mem []) = rng.make 0 0"
    "platform_get_program_break linux_os [] = (PLATFORM_STATUS_OK, 93824992231424, [])" "os_getenv linux_os [] ''SEALLOC_SEED'' = None"
    by (simp_all add: linux_os_def platform_get_random_def platform_get_program_break_def ex_mem_def)
  show thesis
    by (rule that, simp add: with_init_def arena_init_def static_arena_def ex_world r g ex_resets, simp_all)
qed

lemma ex_os_ready:
  assumes "call_size c + 4096 \<le> 2 ^ 32"
  shows "os_ready linux_os linux_mapped (2 ^ 32) static_arena (ex_mem []) c"
proof -
  obtain a1 m1 where i: "with_init linux_os static_arena (ex_mem []) = ret (a1, m1)" "brk a1 = 93824992231424" "chunk_alloc_ptr a1 = 551833600"
    "internal_alloc_ptr a1 = 102050498015232" "huge_alloc_ptr a1 = 109073344229376" "world m1 = []" by (rule ex_init)
  have "room linux_mapped (2 ^ 32) 771 93824992231424 551833600 109073344229376 102050498015232 []"
    unfolding room_def
    by (rule exI [of _ 551833600], rule exI [of _ 109073344229376])
      (simp add: linux_mapped_def MMAP_MIN_ADDR_def USER_TOP_def room_bytes_eq)
  then have "provision linux_os linux_mapped (2 ^ 32) 771 a1 m1"
    using linux_serves by (simp add: supplied_def i del: os_serves.simps)
  then show ?thesis using assms i(1) by (simp add: os_ready_def)
qed

subsection \<open>Safety of a session\<close>

lemma session_reached:
  assumes "os_contract os mapped" "os_break os B" "2 ^ 45 \<le> B" "B < MAX_USERSPACE_ADDR64" "session os (a, m, H)"
  shows "session_inv mapped B a m H"
  using session_keeps_inv [OF assms] by simp

text \<open>C1: in every state that a program reaches by valid calls that returned and by stores into its own
  blocks, whatever their order and whatever the kernel answered on the way, every block it holds starts at a non-null address aligned to 16 bytes, is
  mapped by the kernel, and overlaps no other block it holds. The kernel only has to keep the contract of
  \<open>mmap\<close> and \<open>munmap\<close> and to place the program break at a bound between \<open>2 ^ 45\<close> and the end of the user half or below.\<close>

theorem session_safe:
  assumes "os_contract os mapped" "os_break os B" "2 ^ 45 \<le> B" "B < MAX_USERSPACE_ADDR64" "session os (a, m, H)"
  shows "\<forall>(p, n) \<in> H. p \<noteq> 0 \<and> 16 dvd p \<and> {p..<p + n} \<subseteq> mapped (world m)
     \<and> (\<forall>(q, k) \<in> H. (q, k) \<noteq> (p, n) \<longrightarrow> q \<noteq> p \<and> {p..<p + n} \<inter> {q..<q + k} = {})"
proof (cases "H = {}")
  case False
  then obtain G where inv: "arena_inv mapped {} a m G" "holds H (live a m G)"
    using session_reached [OF assms] by (auto simp: session_inv_def well_held_def)
  have "p \<noteq> 0 \<and> 16 dvd p \<and> {p..<p + n} \<subseteq> mapped (world m)
     \<and> (\<forall>(q, k) \<in> H. (q, k) \<noteq> (p, n) \<longrightarrow> q \<noteq> p \<and> {p..<p + n} \<inter> {q..<q + k} = {})" if p: "(p, n) \<in> H" for p n
  proof -
    obtain t where t: "(p, t) \<in> live a m G" "n \<le> t" using inv(2) p by (auto simp: holds_def)
    have "q \<noteq> p \<and> {p..<p + n} \<inter> {q..<q + k} = {}" if q: "(q, k) \<in> H" "(q, k) \<noteq> (p, n)" for q k
    proof -
      obtain u where u: "(q, u) \<in> live a m G" "k \<le> u" using inv(2) q(1) by (auto simp: holds_def)
      have qp: "q \<noteq> p" using inj_onD [of fst H "(q, k)" "(p, n)"] inv(2) p q by (auto simp: holds_def)
      then have "{p..<p + t} \<inter> {q..<q + u} = {}" using live_apart [OF inv(1) t(1) u(1)] by auto
      moreover have "{p..<p + n} \<subseteq> {p..<p + t}" "{q..<q + k} \<subseteq> {q..<q + u}" using t(2) u(2) by auto
      ultimately show ?thesis using qp by blast
    qed
    moreover have "{p..<p + n} \<subseteq> {p..<p + t}" using t(2) by auto
    ultimately show ?thesis using live_positive [OF inv(1) t(1)] live_aligned [OF inv(1) t(1)] live_space(2) [OF inv(1) t(1)] by blast
  qed
  then show ?thesis by blast
qed simp

text \<open>A program over the example kernel that has allocated 100 bytes.\<close>

lemma ex_bounds: "os_break linux_os 93824992231424" "(2 :: nat) ^ 45 \<le> 93824992231424" "93824992231424 < MAX_USERSPACE_ADDR64"
  by (simp_all add: os_break_def linux_os_def MAX_USERSPACE_ADDR64_def)

lemma ex_session:
  obtains a m p where "session linux_os (a, m, {(p, 100)})"
proof -
  have inv: "session_inv linux_mapped 93824992231424 static_arena (ex_mem []) {}" by (simp add: session_inv_def)
  have valid: "valid_call {} (Malloc 100)" by (simp add: valid_call_def)
  have "os_ready linux_os linux_mapped (2 ^ 32) static_arena (ex_mem []) (Malloc 100)" by (rule ex_os_ready) simp
  then have "goes (os_ready linux_os linux_mapped (2 ^ 32) static_arena (ex_mem []) (Malloc 100)) (do_call linux_os static_arena (ex_mem []) (Malloc 100))"
    by (rule goesI)
  with linux_contract ex_chunk ex_bounds inv valid have "call_ok linux_os linux_mapped 93824992231424 static_arena (ex_mem []) {} (Malloc 100)"
    by (rule call_ok_ready)
  then obtain p a m where "do_call linux_os static_arena (ex_mem []) (Malloc 100) = ret (p, a, m)"
    using linux_unmaps linux_boots unfolding call_ok_def by blast
  from session.step [OF session.start api_step.call [OF valid this]] show thesis using that by simp
qed

theorem session_safe_witness:
  "\<exists>a m p. session linux_os (a, m, {(p, 100)}) \<and> p \<noteq> 0 \<and> 16 dvd p \<and> {p..<p + 100} \<subseteq> linux_mapped (world m)"
proof -
  obtain a m p where s: "session linux_os (a, m, {(p, 100)})" by (rule ex_session)
  from session_safe [OF linux_contract ex_bounds s] s show ?thesis by blast
qed

text \<open>C2: in every such state a valid call has one of three outcomes. It returns and keeps its promises: \<open>malloc\<close> and \<open>realloc\<close> return a block,
  \<open>calloc\<close> a block of zeros or NULL when a factor is 0, \<open>realloc\<close> moves the contents, and the bytes of every other block held stay. Or the process
  exits, because the kernel refused to unmap pages or, in the first call, to give a seed or a break. Or the call runs for ever, and then
  the kernel was not ready for it: it lacked the memory or the room above the probe pointers (\<open>os_ready\<close>).
  Nothing faults, aborts, or returns NULL for want of memory, whatever errors the kernel answers with.\<close>

theorem session_answers:
  assumes "os_contract os mapped" "CHUNK_SIZE_BYTES \<le> L" "os_break os B" "2 ^ 45 \<le> B" "B < MAX_USERSPACE_ADDR64" "session os (a, m, H)"
    and "valid_call H c"
  shows "(\<exists>p a' m'. do_call os a m c = ret (p, a', m') \<and> session os (a', m', holding_after c p H)
       \<and> promised c p H (bytes m) (bytes m') \<and> untouched (H \<inter> holding_after c p H) (bytes m) (bytes m'))
     \<or> do_call os a m c = fail Exit \<and> (\<not> os_unmaps os \<or> \<not> is_initialized a \<and> \<not> os_boots os B (world m))
     \<or> diverges (do_call os a m c) \<and> \<not> os_ready os mapped L a m c"
proof (cases "diverges (do_call os a m c) \<and> \<not> os_ready os mapped L a m c")
  case False
  then have "goes (os_ready os mapped L a m c) (do_call os a m c)" by (auto intro: goesI)
  then have "call_ok os mapped B a m H c"
    by (rule call_ok_ready [OF assms(1-5) session_reached [OF assms(1,3-6)] assms(7)])
  moreover have "session os (a', m', holding_after c p H)" if "do_call os a m c = ret (p, a', m')" for p a' m'
    using assms(6) api_step.call [OF assms(7) that] by (rule session.step)
  ultimately show ?thesis unfolding call_ok_def by blast
qed blast

theorem session_answers_witness:
  "\<exists>p a m a' m'. do_call linux_os static_arena (ex_mem []) (Malloc 100) = ret (p, a, m) \<and> p \<noteq> 0 \<and> session linux_os (a, m, {(p, 100)})
     \<and> do_call linux_os a m (Free p) = ret (0, a', m') \<and> session linux_os (a', m', {})"
proof -
  have "valid_call {} (Malloc 100)" by (simp add: valid_call_def)
  from session_answers [OF linux_contract ex_chunk ex_bounds session.start this, of "ex_mem []"]
  obtain p a m where m: "do_call linux_os static_arena (ex_mem []) (Malloc 100) = ret (p, a, m)" "session linux_os (a, m, {(p, 100)})" "p \<noteq> 0"
    using linux_unmaps linux_boots ex_os_ready [of "Malloc 100"] by (auto simp del: do_call.simps)
  have "valid_call {(p, 100)} (Free p)" by (simp add: valid_call_def)
  from session_answers [OF linux_contract ex_chunk ex_bounds m(2) this] linux_unmaps linux_boots
  obtain q a' m' where f: "do_call linux_os a m (Free p) = ret (q, a', m')" "session linux_os (a', m', without p {(p, 100)})"
    by (auto simp: os_ready_def simp del: do_call.simps)
  have "q = 0" using f(1) by auto
  moreover have "without p {(p, 100)} = {}" by (auto simp: without_def)
  ultimately show ?thesis using m f by metis
qed

end
