(* ===== verification/Tagged_Session.thy ===== *)
theory Tagged_Session
  imports Tagged_Arena Session_Spec
begin

text \<open>
  Programs that use the AArch64 build with memory tagging (\<open>src/src/malloc_api.c\<close> over \<open>src/src/sealloc.c\<close>).
  Every such session is a session of the build without tagging whose pointers lost
  their tags; besides, every pointer held carries the tag of its region, and neighbours in a
  run have different tags.
\<close>

subsection \<open>The exported functions\<close>

fun do_call_mte :: "'t mte \<Rightarrow> 'w os \<Rightarrow> arena_t \<Rightarrow> 'w mem \<Rightarrow> 't \<Rightarrow> call \<Rightarrow> (addr \<times> arena_t \<times> 'w mem \<times> 't) res" where
  "do_call_mte hw os a m t (Malloc n) = bindR (with_init os a m) (\<lambda>(a, m). sealloc_malloc_mte hw True os a m t n)"
| "do_call_mte hw os a m t (Calloc k n) = bindR (with_init os a m) (\<lambda>(a, m). sealloc_calloc_mte hw True os a m t k n)"
| "do_call_mte hw os a m t (Realloc p n) = bindR (with_init os a m) (\<lambda>(a, m). sealloc_realloc_mte hw True os a m t p n)"
| "do_call_mte hw os a m t (Free p) = bindR (sealloc_free_mte True os a m p) (\<lambda>(a, m). ret (0, a, m, t))"

text \<open>Forgetting the tags of a call and of the blocks held.\<close>

fun untag_call :: "call \<Rightarrow> call" where
  "untag_call (Realloc p n) = Realloc (PTR_CLEAR_TAG p) n"
| "untag_call (Free p) = Free (PTR_CLEAR_TAG p)"
| "untag_call c = c"

definition untag :: "holding \<Rightarrow> holding" where
  "untag H = map_prod PTR_CLEAR_TAG id ` H"

subsection \<open>Sessions\<close>

text \<open>The program calls the allocator with pointers it holds, tags included, or stores through one of them. Nothing is asked of the kernel here.\<close>

inductive mte_session :: "'t mte \<Rightarrow> 'w os \<Rightarrow> arena_t \<Rightarrow> 'w mem \<Rightarrow> 't \<Rightarrow> holding \<Rightarrow> bool" for hw os where
  start: "mte_session hw os static_arena m t {}"
| call: "mte_session hw os a m t H \<Longrightarrow> valid_call H c \<Longrightarrow> do_call_mte hw os a m t c = ret (p, a', m', t')
     \<Longrightarrow> mte_session hw os a' m' t' (holding_after c p H)"
| store: "mte_session hw os a m t H \<Longrightarrow> (p, n) \<in> H \<Longrightarrow> x \<in> {PTR_CLEAR_TAG p..<PTR_CLEAR_TAG p + n}
     \<Longrightarrow> mte_session hw os a (m\<lparr>bytes := (bytes m)(x := v)\<rparr>) t H"

text \<open>The pointers held fit the tags \<open>T\<close>, where the live regions are \<open>R\<close>.\<close>

definition tags_fit :: "(nat \<Rightarrow> nat) \<Rightarrow> holding \<Rightarrow> (addr \<times> nat) set \<Rightarrow> bool" where
  "tags_fit T H R \<longleftrightarrow> (\<forall>(p, n) \<in> H. \<exists>k. (PTR_CLEAR_TAG p, k) \<in> R \<and> fits n k
     \<and> (k \<le> LARGE_SIZE_MAX_REGION \<longrightarrow> tag_of p \<noteq> 0 \<and> (\<forall>x \<in> {PTR_CLEAR_TAG p..<PTR_CLEAR_TAG p + k}. T (granule x) = tag_of p)))"

definition mte_held :: "('t \<Rightarrow> nat \<Rightarrow> nat) \<Rightarrow> ('w \<Rightarrow> addr set) \<Rightarrow> arena_t \<Rightarrow> 'w mem \<Rightarrow> 't \<Rightarrow> holding \<Rightarrow> bool" where
  "mte_held tag_at mapped a m t H \<longleftrightarrow> (\<exists>G. arena_inv mapped {} a m G \<and> tagged_arena (tag_at t) a m G
     \<and> inj_on (PTR_CLEAR_TAG \<circ> fst) H \<and> fst ` untag H = fst ` live a m G \<and> tags_fit (tag_at t) H (live a m G))"

definition mte_inv :: "('t \<Rightarrow> nat \<Rightarrow> nat) \<Rightarrow> ('w \<Rightarrow> addr set) \<Rightarrow> arena_t \<Rightarrow> 'w mem \<Rightarrow> 't \<Rightarrow> holding \<Rightarrow> bool" where
  "mte_inv tag_at mapped a m t H \<longleftrightarrow> a = static_arena \<and> H = {} \<or> mte_held tag_at mapped a m t H"

lemma untag_fst: "fst ` untag H = PTR_CLEAR_TAG ` fst ` H"
  by (simp add: untag_def image_image)

lemma untag_insert [simp]: "untag (insert (p, n) H) = insert (PTR_CLEAR_TAG p, n) (untag H)" "untag {} = {}"
  by (simp_all add: untag_def)

lemma untag_without:
  assumes "inj_on (PTR_CLEAR_TAG \<circ> fst) H" "p \<in> fst ` H"
  shows "untag (without p H) = without (PTR_CLEAR_TAG p) (untag H)"
proof -
  obtain n where n: "(p, n) \<in> H" using assms(2) by auto
  have "q = p" if "(q, k) \<in> H" "PTR_CLEAR_TAG q = PTR_CLEAR_TAG p" for q k using inj_onD [OF assms(1) _ that(1) n] that(2) by simp
  then show ?thesis by (auto simp: untag_def without_def)
qed

text \<open>A new region: its pointer fits, and the tags of the others stay.\<close>

lemma mte_held_insert:
  assumes inv: "arena_inv mapped {} a m G" "tagged_arena (tag_at t) a m G" and H: "inj_on (PTR_CLEAR_TAG \<circ> fst) H" "fst ` untag H = fst ` R" "tags_fit T H R"
    and new: "live a m G = insert (PTR_CLEAR_TAG p, k) R" "PTR_CLEAR_TAG p \<notin> fst ` R" "fits n k" "tags_region T (tag_at t) p k"
  shows "mte_held tag_at mapped a m t (insert (p, n) H)"
  unfolding mte_held_def
proof (intro exI conjI)
  have p: "(PTR_CLEAR_TAG p, k) \<in> live a m G" using new(1) by simp
  show "arena_inv mapped {} a m G" "tagged_arena (tag_at t) a m G" by (fact inv)+
  have "PTR_CLEAR_TAG q \<noteq> PTR_CLEAR_TAG p" if "(q, j) \<in> H" for q j
  proof -
    have "PTR_CLEAR_TAG q \<in> fst ` untag H" using that unfolding untag_fst by force
    then show ?thesis using new(2) unfolding H(2) by metis
  qed
  then show "inj_on (PTR_CLEAR_TAG \<circ> fst) (insert (p, n) H)" using H(1) by (fastforce simp: inj_on_def)
  show "fst ` untag (insert (p, n) H) = fst ` live a m G" using H(2) new(1) by simp
  have own: "k \<le> LARGE_SIZE_MAX_REGION \<longrightarrow> tag_of p \<noteq> 0 \<and> (\<forall>x \<in> {PTR_CLEAR_TAG p..<PTR_CLEAR_TAG p + k}. tag_at t (granule x) = tag_of p)"
    using new(4) retaggedD(1,2) [of T "tag_at t" p k] unfolding tags_region_def by auto
  have other: "tag_at t (granule x) = T (granule x)" if q: "(q, j) \<in> R" "x \<in> {q..<q + j}" for q j x
  proof (cases "k \<le> LARGE_SIZE_MAX_REGION")
    case True
    have l: "(q, j) \<in> live a m G" "(PTR_CLEAR_TAG p, k) \<noteq> (q, j)" using q(1) new(1,2) by force+
    then have "x \<notin> {PTR_CLEAR_TAG p..<PTR_CLEAR_TAG p + k}" "x < 2 ^ 47" using live_apart [OF inv(1) p l] live_bound(1) [OF inv(1) l(1)] q(2) by auto
    then show ?thesis using retagged_outside [OF inv(1) p True] new(4) True by (simp add: tags_region_def)
  next
    case False
    then show ?thesis using new(4) by (simp add: tags_region_def)
  qed
  show "tags_fit (tag_at t) (insert (p, n) H) (live a m G)"
    unfolding tags_fit_def
  proof (intro ballI, clarify)
    fix q j
    assume "(q, j) \<in> insert (p, n) H"
    then consider "q = p" "j = n" | "(q, j) \<in> H" by blast
    then show "\<exists>k. (PTR_CLEAR_TAG q, k) \<in> live a m G \<and> fits j k
        \<and> (k \<le> LARGE_SIZE_MAX_REGION \<longrightarrow> tag_of q \<noteq> 0 \<and> (\<forall>x \<in> {PTR_CLEAR_TAG q..<PTR_CLEAR_TAG q + k}. tag_at t (granule x) = tag_of q))"
    proof cases
      case 1
      then show ?thesis using p new(3) own by blast
    next
      case 2
      then obtain l where l: "(PTR_CLEAR_TAG q, l) \<in> R" "fits j l"
        "l \<le> LARGE_SIZE_MAX_REGION \<longrightarrow> tag_of q \<noteq> 0 \<and> (\<forall>x \<in> {PTR_CLEAR_TAG q..<PTR_CLEAR_TAG q + l}. T (granule x) = tag_of q)"
        using H(3) unfolding tags_fit_def by blast
      then show ?thesis using new(1) other [OF l(1)] by (intro exI [of _ l]) simp
    qed
  qed
qed

lemma mte_held_without:
  assumes H: "inj_on (PTR_CLEAR_TAG \<circ> fst) H" "fst ` untag H = fst ` R" "tags_fit T H R" and p: "p \<in> fst ` H" "(PTR_CLEAR_TAG p, k) \<in> R" "inj_on fst R"
  shows "inj_on (PTR_CLEAR_TAG \<circ> fst) (without p H)" "fst ` untag (without p H) = fst ` (R - {(PTR_CLEAR_TAG p, k)})" "tags_fit T (without p H) (R - {(PTR_CLEAR_TAG p, k)})"
proof -
  note R = without_region [OF p(2,3)]
  show "inj_on (PTR_CLEAR_TAG \<circ> fst) (without p H)" using H(1) by (rule inj_on_subset) (auto simp: without_def)
  show "fst ` untag (without p H) = fst ` (R - {(PTR_CLEAR_TAG p, k)})" unfolding R untag_without [OF H(1) p(1)] fst_without H(2) ..
  obtain n where n: "(p, n) \<in> H" using p(1) by auto
  have ne: "PTR_CLEAR_TAG q \<noteq> PTR_CLEAR_TAG p" if "(q, j) \<in> without p H" for q j
    using that inj_onD [OF H(1), of "(q, j)" "(p, n)"] n by (auto simp: without_def)
  show "tags_fit T (without p H) (R - {(PTR_CLEAR_TAG p, k)})"
    unfolding tags_fit_def
  proof (intro ballI, clarify)
    fix q j
    assume q: "(q, j) \<in> without p H"
    then have "(q, j) \<in> H" by (simp add: without_def)
    then obtain l where "(PTR_CLEAR_TAG q, l) \<in> R" "fits j l"
      "l \<le> LARGE_SIZE_MAX_REGION \<longrightarrow> tag_of q \<noteq> 0 \<and> (\<forall>x \<in> {PTR_CLEAR_TAG q..<PTR_CLEAR_TAG q + l}. T (granule x) = tag_of q)"
      using H(3) unfolding tags_fit_def by blast
    then show "\<exists>l. (PTR_CLEAR_TAG q, l) \<in> R - {(PTR_CLEAR_TAG p, k)} \<and> fits j l
        \<and> (l \<le> LARGE_SIZE_MAX_REGION \<longrightarrow> tag_of q \<noteq> 0 \<and> (\<forall>x \<in> {PTR_CLEAR_TAG q..<PTR_CLEAR_TAG q + l}. T (granule x) = tag_of q))"
      using ne [OF q] by (intro exI [of _ l]) simp
  qed
qed
subsection \<open>A call keeps the tags right\<close>

definition mte_call_ok ::
    "'t mte \<Rightarrow> ('t \<Rightarrow> nat \<Rightarrow> nat) \<Rightarrow> 'w os \<Rightarrow> ('w \<Rightarrow> addr set) \<Rightarrow> addr \<Rightarrow> arena_t \<Rightarrow> 'w mem \<Rightarrow> 't \<Rightarrow> holding \<Rightarrow> call \<Rightarrow> bool" where
  "mte_call_ok hw tag_at os mapped B a m t H c \<longleftrightarrow> (\<not> os_unmaps os \<or> \<not> is_initialized a \<and> \<not> os_boots os B (world m)) \<and> do_call_mte hw os a m t c = fail Exit
     \<or> (\<exists>p a' m' t'. do_call_mte hw os a m t c = ret (p, a', m', t') \<and> do_call os a m (untag_call c) = ret (PTR_CLEAR_TAG p, a', m')
          \<and> mte_inv tag_at mapped a' m' t' (holding_after c p H) \<and> untag (holding_after c p H) = holding_after (untag_call c) (PTR_CLEAR_TAG p) (untag H))"

lemma mte_call_okI:
  assumes "do_call_mte hw os a m t c = ret (p, a', m', t')" "do_call os a m (untag_call c) = ret (PTR_CLEAR_TAG p, a', m')"
    "mte_held tag_at mapped a' m' t' (holding_after c p H)" "untag (holding_after c p H) = holding_after (untag_call c) (PTR_CLEAR_TAG p) (untag H)"
  shows "mte_call_ok hw tag_at os mapped B a m t H c"
  using assms unfolding mte_call_ok_def mte_inv_def by blast

lemma mte_heldE:
  assumes "mte_held tag_at mapped a m t H"
  obtains G where "arena_inv mapped {} a m G" "tagged_arena (tag_at t) a m G" "inj_on (PTR_CLEAR_TAG \<circ> fst) H"
    "fst ` untag H = fst ` live a m G" "tags_fit (tag_at t) H (live a m G)"
  using assms unfolding mte_held_def by blast

lemma do_call_mte_initialized:
  assumes "is_initialized a"
  shows "do_call_mte hw os a m t (Malloc n) = sealloc_malloc_mte hw True os a m t n" "do_call_mte hw os a m t (Calloc k n) = sealloc_calloc_mte hw True os a m t k n"
    "do_call_mte hw os a m t (Realloc p n) = sealloc_realloc_mte hw True os a m t p n"
  using assms by (simp_all add: with_init_def)

lemma clear_0 [simp]: "PTR_CLEAR_TAG 0 = 0"
  by (simp add: PTR_CLEAR_TAG_eq)

lemma mte_malloc_call:
  assumes hw: "mte_sound hw tag_at" and os: "os_contract os mapped" "CHUNK_SIZE_BYTES \<le> L"
    and serve: "P \<longrightarrow> provision os mapped L 771 a m \<and> n + 4096 \<le> L" and go: "goes P (do_call_mte hw os a m t (Malloc n))"
    and ready: "is_initialized a" "brk_below B a"
    and held: "mte_held tag_at mapped a m t H" and n: "n + 4096 \<le> 2 ^ 64"
  shows "mte_call_ok hw tag_at os mapped B a m t H (Malloc n)"
proof -
  obtain G where W: "arena_inv mapped {} a m G" "tagged_arena (tag_at t) a m G" "inj_on (PTR_CLEAR_TAG \<circ> fst) H"
    "fst ` untag H = fst ` live a m G" "tags_fit (tag_at t) H (live a m G)" using held by (rule mte_heldE)
  have go1: "goes P (sealloc_malloc_mte hw True os a m t n)" using go unfolding do_call_mte_initialized [OF ready(1)] .
  obtain p a' m' t' G' where A: "sealloc_malloc_mte hw True os a m t n = ret (p, a', m', t')" "sealloc_malloc os a m n = ret (PTR_CLEAR_TAG p, a', m')"
    "arena_inv mapped {} a' m' G'" "live a' m' G' = insert (PTR_CLEAR_TAG p, region_size n) (live a m G)"
    "(PTR_CLEAR_TAG p, region_size n) \<notin> live a m G" "tagged_arena (tag_at t') a' m' G'" "tags_region (tag_at t) (tag_at t') p (region_size n)"
    by (rule sealloc_malloc_mte_ok [OF hw os serve go1 ready(2) W(1) n W(2)]) (rule that)
  have z: "n + 4095 < 2 ^ 64" using n by simp
  note h = mte_held_insert [where tag_at = tag_at, OF A(3,6) W(3-5) A(4) live_new [OF A(3-5)] fits_rounded(1) [OF z] A(7)]
  show ?thesis
    by (rule mte_call_okI [where p = p and t' = t'])
      (use A(1,2) h ready(1) in \<open>simp_all add: do_call_initialized do_call_mte_initialized del: do_call.simps do_call_mte.simps\<close>)
qed

lemma mte_calloc_call:
  assumes hw: "mte_sound hw tag_at" and os: "os_contract os mapped" "CHUNK_SIZE_BYTES \<le> L"
    and serve: "P \<longrightarrow> provision os mapped L 771 a m \<and> k * n + 4096 \<le> L" and go: "goes P (do_call_mte hw os a m t (Calloc k n))"
    and ready: "is_initialized a" "brk_below B a"
    and held: "mte_held tag_at mapped a m t H" and n: "k * n + 4096 \<le> 2 ^ 64"
  shows "mte_call_ok hw tag_at os mapped B a m t H (Calloc k n)"
proof (cases "k * n = 0")
  case True
  then show ?thesis
    by (intro mte_call_okI [where p = 0 and t' = t])
      (use held ready(1) in \<open>auto simp: do_call_initialized do_call_mte_initialized sealloc_calloc_def sealloc_calloc_mte_def simp del: do_call.simps do_call_mte.simps\<close>)
next
  case False
  then have kn: "k \<noteq> 0" "n \<noteq> 0" by simp_all
  obtain G where W: "arena_inv mapped {} a m G" "tagged_arena (tag_at t) a m G" "inj_on (PTR_CLEAR_TAG \<circ> fst) H"
    "fst ` untag H = fst ` live a m G" "tags_fit (tag_at t) H (live a m G)" using held by (rule mte_heldE)
  have go1: "goes P (sealloc_calloc_mte hw True os a m t k n)" using go unfolding do_call_mte_initialized [OF ready(1)] .
  obtain p a' m' t' G' where A: "sealloc_calloc_mte hw True os a m t k n = ret (p, a', m', t')" "sealloc_calloc os a m k n = ret (PTR_CLEAR_TAG p, a', m')"
    "arena_inv mapped {} a' m' G'" "live a' m' G' = insert (PTR_CLEAR_TAG p, region_size (k * n)) (live a m G)"
    "(PTR_CLEAR_TAG p, region_size (k * n)) \<notin> live a m G" "tagged_arena (tag_at t') a' m' G'" "tags_region (tag_at t) (tag_at t') p (region_size (k * n))"
    by (rule sealloc_calloc_mte_ok [OF hw os serve go1 ready(2) W(1) kn n W(2)]) (rule that)
  have z: "k * n + 4095 < 2 ^ 64" using n by simp
  note h = mte_held_insert [where tag_at = tag_at, OF A(3,6) W(3-5) A(4) live_new [OF A(3-5)] fits_rounded(1) [OF z] A(7)]
  show ?thesis
    by (rule mte_call_okI [where p = p and t' = t'])
      (use A(1,2) h ready(1) False in \<open>simp_all add: do_call_initialized do_call_mte_initialized del: do_call.simps do_call_mte.simps\<close>)
qed

text \<open>The live region behind a pointer held.\<close>

lemma mte_held_live:
  assumes "fst ` untag H = fst ` R" "p \<in> fst ` H"
  obtains k where "(PTR_CLEAR_TAG p, k) \<in> R"
proof -
  have "PTR_CLEAR_TAG p \<in> fst ` R" using assms unfolding assms(1) [symmetric] untag_fst by blast
  then show thesis using that by auto
qed

lemma mte_free_call:
  assumes os: "os_sound os mapped" and held: "mte_held tag_at mapped a m t H" and p: "p \<in> fst ` H"
  shows "mte_call_ok hw tag_at os mapped B a m t H (Free p)"
proof -
  obtain G where W: "arena_inv mapped {} a m G" "tagged_arena (tag_at t) a m G" "inj_on (PTR_CLEAR_TAG \<circ> fst) H"
    "fst ` untag H = fst ` live a m G" "tags_fit (tag_at t) H (live a m G)" using held by (rule mte_heldE)
  obtain k where k: "(PTR_CLEAR_TAG p, k) \<in> live a m G" using W(4) p by (rule mte_held_live)
  note eq = sealloc_free_mte_eq [OF live_positive [OF W(1) k], of os a m]
  from sealloc_free_ok [OF os W(1) k] show ?thesis
  proof (elim disjE exE conjE)
    fix a' m' G'
    assume f: "sealloc_free os a m (PTR_CLEAR_TAG p) = ret (a', m')" "arena_inv mapped {} a' m' G'"
      "live a' m' G' = live a m G - {(PTR_CLEAR_TAG p, k)}" "keeps_runs a m G a' m' G'"
    have "tagged_arena (tag_at t) a' m' G'" by (rule tagged_keeps [OF W(2,1) f(2,4)]) (use f(3) in simp)
    then have h: "mte_held tag_at mapped a' m' t (without p H)"
      using f(2) mte_held_without [OF W(3-5) p k live_inj [OF W(1)]] unfolding mte_held_def f(3) [symmetric] by blast
    show ?thesis
      by (rule mte_call_okI [where p = 0 and t' = t]) (use f(1) eq h untag_without [OF W(3) p] in \<open>simp_all add: api_free_def\<close>)
  qed (simp add: mte_call_ok_def eq)
qed

lemma mte_realloc_call:
  assumes hw: "mte_sound hw tag_at" and os: "os_contract os mapped" "CHUNK_SIZE_BYTES \<le> L"
    and serve: "P \<longrightarrow> provision os mapped L 771 a m \<and> n + 4096 \<le> L" and go: "goes P (do_call_mte hw os a m t (Realloc p n))"
    and ready: "is_initialized a" "brk_below B a"
    and held: "mte_held tag_at mapped a m t H" and p: "p \<in> fst ` H" and n: "1 \<le> n" "n + 4096 \<le> 2 ^ 64"
  shows "mte_call_ok hw tag_at os mapped B a m t H (Realloc p n)"
proof -
  obtain G where W: "arena_inv mapped {} a m G" "tagged_arena (tag_at t) a m G" "inj_on (PTR_CLEAR_TAG \<circ> fst) H"
    "fst ` untag H = fst ` live a m G" "tags_fit (tag_at t) H (live a m G)" using held by (rule mte_heldE)
  obtain k where k: "(PTR_CLEAR_TAG p, k) \<in> live a m G" using W(4) p by (rule mte_held_live)
  have "goes P (sealloc_realloc_mte hw True os a m t p n)" using go unfolding do_call_mte_initialized [OF ready(1)] .
  from sealloc_realloc_mte_ok [OF hw os serve this ready(2) W(1) k n W(2)] show ?thesis
  proof
    assume "\<not> os_unmaps os \<and> sealloc_realloc_mte hw True os a m t p n = fail Exit"
    then show ?thesis unfolding mte_call_ok_def do_call_mte_initialized [OF ready(1)] by blast
  next
    assume "reallocated_mte tag_at mapped a m G t (PTR_CLEAR_TAG p) k n (sealloc_realloc_mte hw True os a m t p n) (sealloc_realloc os a m (PTR_CLEAR_TAG p) n)"
    then obtain q l a' m' t' G' where A: "sealloc_realloc_mte hw True os a m t p n = ret (q, a', m', t')"
      "sealloc_realloc os a m (PTR_CLEAR_TAG p) n = ret (PTR_CLEAR_TAG q, a', m')" "fits n l" "arena_inv mapped {} a' m' G'"
      "live a' m' G' = insert (PTR_CLEAR_TAG q, l) (live a m G - {(PTR_CLEAR_TAG p, k)})" "PTR_CLEAR_TAG q \<notin> fst ` live a m G"
      "tagged_arena (tag_at t') a' m' G'" "tags_region (tag_at t) (tag_at t') q l"
      unfolding reallocated_mte_def by blast
    have "PTR_CLEAR_TAG q \<notin> fst ` (live a m G - {(PTR_CLEAR_TAG p, k)})" using A(6) by blast
    note h = mte_held_insert [where tag_at = tag_at, OF A(4,7) mte_held_without [OF W(3-5) p k live_inj [OF W(1)]] A(5) this A(3,8)]
    show ?thesis
      by (rule mte_call_okI [where p = q and t' = t'])
        (use A(1,2) h ready(1) untag_without [OF W(3) p] in \<open>simp_all add: do_call_initialized do_call_mte_initialized del: do_call.simps do_call_mte.simps\<close>)
  qed
qed
subsection \<open>Every call\<close>

lemma with_init_again: "well_held mapped B a m H \<Longrightarrow> with_init os a m = ret (a, m)"
  by (auto simp: with_init_def well_held_def)

lemma mte_init_cases:
  assumes inv: "mte_inv tag_at mapped a m t H" "session_inv mapped B a m (untag H)" and c: "\<And>p. c \<noteq> Free p"
    and os: "os_break os B" and B: "2 ^ 45 \<le> B" "B < MAX_USERSPACE_ADDR64"
  obtains (exit) "do_call_mte hw os a m t c = fail Exit" "\<not> is_initialized a" "\<not> os_boots os B (world m)"
  | (init) a1 m1 where "with_init os a m = ret (a1, m1)" "mte_held tag_at mapped a1 m1 t H" "well_held mapped B a1 m1 (untag H)"
    "do_call_mte hw os a m t c = do_call_mte hw os a1 m1 t c" "do_call os a m (untag_call c) = do_call os a1 m1 (untag_call c)"
proof -
  have c': "untag_call c \<noteq> Free p" for p using c by (cases c) auto
  from inv(2) c' os B show thesis
  proof (cases rule: with_init_cases)
    case e: exit
    have "do_call_mte hw os a m t c = fail Exit"
    proof (cases c)
      case (Free p)
      then show ?thesis using c by blast
    qed (simp_all add: e(2))
    then show thesis using exit e(3,4) by blast
  next
    case i: (init a1 m1)
    have "mte_held tag_at mapped a1 m1 t H"
    proof (cases "is_initialized a")
      case True
      then show ?thesis using inv(1) i(1) by (auto simp: with_init_def mte_inv_def static_arena_def)
    next
      case False
      then have H: "H = {}" using inv(2) by (auto simp: session_inv_def well_held_def untag_def)
      have boots: "os_boots os B (world m)"
      proof (rule ccontr)
        assume "\<not> os_boots os B (world m)"
        then show False using i(1) False arena_init_exit [OF os] by (simp add: with_init_def)
      qed
      obtain a2 m2 where "arena_init os a m = ret (a2, m2)" "arena_inv mapped {} a2 m2 g_empty" "live a2 m2 g_empty = {}"
        by (rule arena_init_inv [OF boots B]) (rule that)
      then have e: "arena_inv mapped {} a1 m1 g_empty" "live a1 m1 g_empty = {}" using i(1) False by (simp_all add: with_init_def)
      have "tagged_arena (tag_at t) a1 m1 g_empty" by (simp add: tagged_arena_def)
      with e H show ?thesis unfolding mte_held_def by (intro exI [of _ g_empty]) (simp add: tags_fit_def)
    qed
    moreover have "do_call_mte hw os a m t c = do_call_mte hw os a1 m1 t c"
    proof (cases c)
      case (Free p)
      then show ?thesis using c by blast
    qed (simp_all add: i(1) with_init_again [OF i(2)])
    ultimately show thesis using init i(1,2,4) by blast
  qed
qed

lemma mte_call_ready:
  assumes hw: "mte_sound hw tag_at" and os: "os_contract os mapped" "CHUNK_SIZE_BYTES \<le> L" "os_break os B" and B: "2 ^ 45 \<le> B" "B < MAX_USERSPACE_ADDR64"
    and inv: "mte_inv tag_at mapped a m t H" "session_inv mapped B a m (untag H)" and c: "valid_call H c"
    and go: "goes (os_ready os mapped L a m c) (do_call_mte hw os a m t c)"
  shows "mte_call_ok hw tag_at os mapped B a m t H c"
proof (cases "\<exists>p. c = Free p")
  case True
  then obtain p where p: "c = Free p" by blast
  show ?thesis
  proof (cases "p = 0")
    case True
    note null = null_not_held [OF inv(2)]
    have "0 \<notin> fst ` H" using null(1) unfolding untag_fst by force
    then have "without 0 H = H" by (auto simp: without_def image_iff)
    then show ?thesis using null(2) inv(1) p True by (simp add: mte_call_ok_def sealloc_free_mte_def api_free_def sealloc_free_def)
  next
    case False
    then have "p \<in> fst ` H" using c p by (simp add: valid_call_def)
    moreover from this have "mte_held tag_at mapped a m t H" using inv(1) by (auto simp: mte_inv_def)
    ultimately show ?thesis unfolding p by (intro mte_free_call [OF os_contractD [OF os(1)]])
  qed
next
  case False
  then have nf: "c \<noteq> Free p" for p by blast
  from inv nf os(3) B show ?thesis
  proof (cases rule: mte_init_cases [where hw = hw])
    case exit
    then show ?thesis by (simp add: mte_call_ok_def del: do_call_mte.simps)
  next
    case i: (init a1 m1)
    let ?P = "os_ready os mapped L a m c"
    have w: "is_initialized a1" "brk_below B a1" using i(3) by (auto simp: well_held_def)
    have serve: "?P \<longrightarrow> provision os mapped L 771 a1 m1 \<and> call_size c + 4096 \<le> L" using i(1) nf by (auto simp: os_ready_def)
    have go1: "goes ?P (do_call_mte hw os a1 m1 t c)" using go unfolding i(4) .
    have "mte_call_ok hw tag_at os mapped B a1 m1 t H c"
    proof (cases c)
      case (Realloc p n)
      show ?thesis
      proof (cases "p = 0")
        case True
        have "session_inv mapped B a1 m1 (untag H)" using i(3) by (simp add: session_inv_def)
        note null = null_not_held [OF this]
        have "0 \<notin> fst ` H" using null(1) unfolding untag_fst by force
        then have "without 0 H = H" by (auto simp: without_def image_iff)
        moreover have eq: "do_call_mte hw os a1 m1 t (Realloc 0 n) = do_call_mte hw os a1 m1 t (Malloc n)" "do_call os a1 m1 (Realloc 0 n) = do_call os a1 m1 (Malloc n)"
          using w(1) by (simp_all add: do_call_mte_initialized do_call_initialized sealloc_realloc_mte_def sealloc_realloc_def del: do_call_mte.simps do_call.simps)
        moreover have "mte_call_ok hw tag_at os mapped B a1 m1 t H (Malloc n)"
        proof (rule mte_malloc_call [OF hw os(1,2) _ _ w i(2)])
          show "goes ?P (do_call_mte hw os a1 m1 t (Malloc n))" using go1 unfolding Realloc True eq .
        qed (use serve c Realloc in \<open>simp_all add: valid_call_def\<close>)
        ultimately show ?thesis using null(2) unfolding Realloc True mte_call_ok_def by (simp del: do_call_mte.simps do_call.simps)
      next
        case False
        show ?thesis unfolding Realloc
          by (rule mte_realloc_call [OF hw os(1,2) _ _ w i(2)]) (use c Realloc False serve go1 in \<open>simp_all add: valid_call_def del: do_call_mte.simps\<close>)
      qed
    next
      case (Malloc n)
      show ?thesis unfolding Malloc
        by (rule mte_malloc_call [OF hw os(1,2) _ _ w i(2)]) (use c Malloc serve go1 in \<open>simp_all add: valid_call_def del: do_call_mte.simps\<close>)
    next
      case (Calloc k n)
      show ?thesis unfolding Calloc
        by (rule mte_calloc_call [OF hw os(1,2) _ _ w i(2)]) (use c Calloc serve go1 in \<open>simp_all add: valid_call_def del: do_call_mte.simps\<close>)
    qed (use False in blast)
    then show ?thesis using w(1) unfolding mte_call_ok_def i(4,5) by blast
  qed
qed

lemma valid_untag: "valid_call H c \<Longrightarrow> valid_call (untag H) (untag_call c)"
  by (cases c) (auto simp: untag_fst valid_call_def)

lemma mte_session_inv:
  assumes hw: "mte_sound hw tag_at" and os: "os_contract os mapped" "os_break os B" and B: "2 ^ 45 \<le> B" "B < MAX_USERSPACE_ADDR64"
    and s: "mte_session hw os a m t H"
  shows "mte_inv tag_at mapped a m t H \<and> session os (a, m, untag H)"
  using s
proof (induction rule: mte_session.induct)
  case (start m t)
  have "session os (static_arena, m, untag {})" unfolding untag_insert by (rule session.start)
  then show ?case by (simp add: mte_inv_def)
next
  case (call a m t H c p a' m' t')
  then have inv: "mte_inv tag_at mapped a m t H" "session os (a, m, untag H)" by blast+
  note plain = session_reached [OF os B inv(2)]
  have ok: "do_call os a m (untag_call c) = ret (PTR_CLEAR_TAG p, a', m')" "mte_inv tag_at mapped a' m' t' (holding_after c p H)"
    "untag (holding_after c p H) = holding_after (untag_call c) (PTR_CLEAR_TAG p) (untag H)"
    using mte_call_ready [OF hw os(1) order_refl os(2) B inv(1) plain call.hyps(2) goesI] call.hyps(3) by (auto simp: mte_call_ok_def)
  from session.step [OF inv(2) api_step.call [OF valid_untag [OF call.hyps(2)] ok(1)]] show ?case using ok(2) unfolding ok(3) [symmetric] by blast
next
  case (store a m t H p n x v)
  have "(PTR_CLEAR_TAG p, n) \<in> untag H" using store.hyps(2) by (force simp: untag_def)
  then have "session os (a, m\<lparr>bytes := (bytes m)(x := v)\<rparr>, untag H)" using store.IH store.hyps(3) by (blast intro: session.step api_step.store)
  moreover have "mte_inv tag_at mapped a (m\<lparr>bytes := (bytes m)(x := v)\<rparr>) t H" using store.IH by (simp add: mte_inv_def mte_held_def inv_bytes live_bytes)
  ultimately show ?case by blast
qed

subsection \<open>Properties\<close>

text \<open>Two pointers are neighbours when the code finds the same run for both and the second region follows the first.\<close>

definition neighbours :: "arena_t \<Rightarrow> 'w mem \<Rightarrow> addr \<Rightarrow> addr \<Rightarrow> bool" where
  "neighbours a m p q \<longleftrightarrow> (\<exists>c x i. locate_metadata_for_ptr a m (PTR_CLEAR_TAG p) = ret (METADATA_REGULAR c x i, a)
     \<and> locate_metadata_for_ptr a m (PTR_CLEAR_TAG q) = ret (METADATA_REGULAR c x i, a) \<and> PTR_CLEAR_TAG q = PTR_CLEAR_TAG p + reg_size (bins a ! i))"

lemma neighbour_tags:
  assumes inv: "arena_inv mapped {} a m G" "tagged_arena T a m G" and p: "(PTR_CLEAR_TAG p, k) \<in> live a m G" and q: "(PTR_CLEAR_TAG q, l) \<in> live a m G"
    and nb: "neighbours a m p q"
  shows "T (granule (PTR_CLEAR_TAG q)) \<noteq> T (granule (PTR_CLEAR_TAG p))" "k \<le> LARGE_SIZE_MAX_REGION" "l \<le> LARGE_SIZE_MAX_REGION"
proof -
  obtain c x i where L: "locate_metadata_for_ptr a m (PTR_CLEAR_TAG p) = ret (METADATA_REGULAR c x i, a)"
    "locate_metadata_for_ptr a m (PTR_CLEAR_TAG q) = ret (METADATA_REGULAR c x i, a)" "PTR_CLEAR_TAG q = PTR_CLEAR_TAG p + reg_size (bins a ! i)"
    using nb unfolding neighbours_def by blast
  have at: "i < ARENA_NO_BINS \<and> x \<in> bin_runs G i \<and> run_abs (bins a ! i) (run_at (runs m) x) s = Some STATE_ALLOC \<and> j = reg_size (bins a ! i)"
    if "(s, j) \<in> live a m G" "locate_metadata_for_ptr a m s = ret (METADATA_REGULAR c x i, a)" for s j
    using inv(1) that(1) by (cases rule: locate_live) (use that(2) in auto)
  note P = at [OF p L(1)] and Q = at [OF q L(2)]
  let ?b = "bins a ! i" and ?r = "run_at (runs m) x"
  have wf: "bin_wf ?b" using P bin_repD(1) [OF bin_of_run(1) [OF arena_invD(4) [OF inv(1)]]] by blast
  show "k \<le> LARGE_SIZE_MAX_REGION" "l \<le> LARGE_SIZE_MAX_REGION" using P Q bin_wf_regions(6) [OF wf] by (simp_all add: LARGE_SIZE_MAX_REGION_def)
  obtain u where u: "u < regions ?b" "PTR_CLEAR_TAG p = region_addr ?r ?b u" "region_state ?r u = STATE_ALLOC" using P wf by (blast elim: run_absE)
  obtain v where v: "v < regions ?b" "PTR_CLEAR_TAG q = region_addr ?r ?b v" "region_state ?r v = STATE_ALLOC" using Q wf by (blast elim: run_absE)
  have "v * reg_size ?b = Suc u * reg_size ?b" using L(3) unfolding u(2) v(2) by (simp add: region_addr_def)
  then have "v = Suc u" using bin_wf_regions(4) [OF wf] by (metis mult_cancel2 not_gr_zero)
  moreover have "tagged_run T ?b ?r" using inv(2) P by (simp add: tagged_arena_def)
  ultimately show "T (granule (PTR_CLEAR_TAG q)) \<noteq> T (granule (PTR_CLEAR_TAG p))"
    using tagged_runD(3) [of T ?b ?r u] u v unfolding region_tag_def u(2) v(2) by simp
qed
text \<open>C12: with memory tagging, in every state that a program reaches by valid calls that returned and by
  stores into its blocks, whatever the kernel answered on the way, forgetting the tags gives a state of the build without tagging; every
  pointer held to a block of at most 1 MiB has a tag that is not 0 and that all bytes of the block carry, so no
  access inside the block faults; and the tags of neighbours in a run differ, so that running
  from one into the other faults. The kernel has to keep the contract of \<open>mmap\<close> and \<open>munmap\<close> and to place the program
  break below the bound, and the tag instructions to do what is documented.\<close>

theorem mte_session_safe:
  assumes "mte_sound hw tag_at" "os_contract os mapped" "os_break os B" "2 ^ 45 \<le> B" "B < MAX_USERSPACE_ADDR64"
    and "mte_session hw os a m t H"
  shows "session os (a, m, untag H)
     \<and> (\<forall>(p, n) \<in> H. n \<le> LARGE_SIZE_MAX_REGION \<longrightarrow> tag_of p \<noteq> 0 \<and> (\<forall>x \<in> {PTR_CLEAR_TAG p..<PTR_CLEAR_TAG p + n}. tag_at t (granule x) = tag_of p))
     \<and> (\<forall>(p, n) \<in> H. \<forall>(q, k) \<in> H. neighbours a m p q \<longrightarrow> tag_of q \<noteq> tag_of p)"
proof -
  note R = mte_session_inv [OF assms]
  show ?thesis
  proof (cases "H = {}")
    case False
    then obtain G where W: "arena_inv mapped {} a m G" "tagged_arena (tag_at t) a m G" "tags_fit (tag_at t) H (live a m G)"
      using R unfolding mte_inv_def mte_held_def by blast
    have fit: "\<exists>k. (PTR_CLEAR_TAG p, k) \<in> live a m G \<and> fits n k
       \<and> (k \<le> LARGE_SIZE_MAX_REGION \<longrightarrow> tag_of p \<noteq> 0 \<and> (\<forall>x \<in> {PTR_CLEAR_TAG p..<PTR_CLEAR_TAG p + k}. tag_at t (granule x) = tag_of p))"
      if "(p, n) \<in> H" for p n using W(3) that unfolding tags_fit_def by blast
    have own: "tag_of p \<noteq> 0 \<and> (\<forall>x \<in> {PTR_CLEAR_TAG p..<PTR_CLEAR_TAG p + n}. tag_at t (granule x) = tag_of p)"
      if "(p, n) \<in> H" "n \<le> LARGE_SIZE_MAX_REGION" for p n
      using fit [OF that(1)] that(2) by (auto simp: fits_def)
    have "tag_of q \<noteq> tag_of p" if h: "(p, n) \<in> H" "(q, k) \<in> H" and nb: "neighbours a m p q" for p n q k
    proof -
      obtain i j where l: "(PTR_CLEAR_TAG p, i) \<in> live a m G" "(PTR_CLEAR_TAG q, j) \<in> live a m G" using fit h by blast
      note N = neighbour_tags [OF W(1,2) l nb]
      have "tag_at t (granule (PTR_CLEAR_TAG s)) = tag_of s" if s: "(s, n) \<in> H" "(PTR_CLEAR_TAG s, i) \<in> live a m G" "i \<le> LARGE_SIZE_MAX_REGION" for s n i
      proof -
        obtain u where u: "(PTR_CLEAR_TAG s, u) \<in> live a m G"
          "u \<le> LARGE_SIZE_MAX_REGION \<longrightarrow> (\<forall>x \<in> {PTR_CLEAR_TAG s..<PTR_CLEAR_TAG s + u}. tag_at t (granule x) = tag_of s)" using fit [OF s(1)] by blast
        have "u = i" using inj_onD [OF live_inj [OF W(1)] _ u(1) s(2)] by simp
        then show ?thesis using u s(3) live_space(1) [OF W(1) u(1)] by simp
      qed
      then show ?thesis using N l h by metis
    qed
    then show ?thesis using R own by blast
  qed (use R in simp)
qed

lemma ex_mte_session:
  obtains a m t p where "mte_session ex_mte linux_os a m (t :: nat \<Rightarrow> nat) {(p, 100)}"
proof -
  let ?m = "ex_mem ([] :: ranges)" and ?T = "\<lambda>t g. t g mod 16 :: nat" and ?t = "\<lambda>_ :: nat. 0 :: nat"
  have inv: "mte_inv ?T linux_mapped static_arena ?m ?t {}" "session_inv linux_mapped 93824992231424 static_arena ?m (untag {})"
    by (simp_all add: session_inv_def mte_inv_def)
  have valid: "valid_call {} (Malloc 100)" by (simp add: valid_call_def)
  have "os_ready linux_os linux_mapped (2 ^ 32) static_arena ?m (Malloc 100)" by (rule ex_os_ready) simp
  then have "goes (os_ready linux_os linux_mapped (2 ^ 32) static_arena ?m (Malloc 100)) (do_call_mte ex_mte linux_os static_arena ?m ?t (Malloc 100))"
    by (rule goesI)
  with ex_mte_sound linux_contract ex_chunk ex_bounds inv valid
  have "mte_call_ok ex_mte ?T linux_os linux_mapped 93824992231424 static_arena ?m ?t {} (Malloc 100)"
    by (rule mte_call_ready)
  then obtain p a m t where "do_call_mte ex_mte linux_os static_arena ?m ?t (Malloc 100) = ret (p, a, m, t)"
    using linux_unmaps linux_boots unfolding mte_call_ok_def by blast
  from mte_session.call [OF mte_session.start valid this] show thesis using that by simp
qed

theorem mte_session_safe_witness:
  "\<exists>a m (t :: nat \<Rightarrow> nat) p. mte_session ex_mte linux_os a m t {(p, 100)} \<and> tag_of p \<noteq> 0
     \<and> (\<forall>x \<in> {PTR_CLEAR_TAG p..<PTR_CLEAR_TAG p + 100}. t (granule x) mod 16 = tag_of p)"
proof -
  obtain a m p and t :: "nat \<Rightarrow> nat" where s: "mte_session ex_mte linux_os a m t {(p, 100)}" by (rule ex_mte_session)
  have "(100 :: nat) \<le> LARGE_SIZE_MAX_REGION" by (simp add: LARGE_SIZE_MAX_REGION_def)
  with mte_session_safe [OF ex_mte_sound linux_contract ex_bounds s] s show ?thesis by blast
qed

text \<open>C13: in every such state a valid call with tagged pointers has one of three outcomes. It returns, and what it returns is what the build
  without tagging returns to the call with the tags cleared: the same address, the same arena and memory. Or the process exits, because
  the kernel refused to unmap pages or, in the first call, to give a seed or a break. Or the call runs for ever, and then the
  kernel was not ready for it. No call faults or aborts.\<close>

theorem mte_session_answers:
  assumes "mte_sound hw tag_at" "os_contract os mapped" "CHUNK_SIZE_BYTES \<le> L" "os_break os B" "2 ^ 45 \<le> B" "B < MAX_USERSPACE_ADDR64"
    and "mte_session hw os a m t H" "valid_call H c"
  shows "(\<exists>p a' m' t'. do_call_mte hw os a m t c = ret (p, a', m', t') \<and> mte_session hw os a' m' t' (holding_after c p H)
       \<and> do_call os a m (untag_call c) = ret (PTR_CLEAR_TAG p, a', m'))
     \<or> do_call_mte hw os a m t c = fail Exit \<and> (\<not> os_unmaps os \<or> \<not> is_initialized a \<and> \<not> os_boots os B (world m))
     \<or> diverges (do_call_mte hw os a m t c) \<and> \<not> os_ready os mapped L a m c"
proof (cases "diverges (do_call_mte hw os a m t c) \<and> \<not> os_ready os mapped L a m c")
  case False
  then have go: "goes (os_ready os mapped L a m c) (do_call_mte hw os a m t c)" by (auto intro: goesI)
  note R = mte_session_inv [OF assms(1,2,4-7)]
  have "mte_call_ok hw tag_at os mapped B a m t H c"
    using mte_call_ready [OF assms(1-6) R [THEN conjunct1] session_reached [OF assms(2,4-6) R [THEN conjunct2]] assms(8) go] .
  moreover have "mte_session hw os a' m' t' (holding_after c p H)" if "do_call_mte hw os a m t c = ret (p, a', m', t')" for p a' m' t'
    using assms(7,8) that by (rule mte_session.call)
  ultimately show ?thesis unfolding mte_call_ok_def by blast
qed blast

theorem mte_session_answers_witness:
  "\<exists>p a m t a' m'. do_call_mte ex_mte linux_os static_arena (ex_mem []) (\<lambda>_. 0) (Malloc 100) = ret (p, a, m, t) \<and> mte_session ex_mte linux_os a m t {(p, 100)}
     \<and> do_call_mte ex_mte linux_os a m t (Free p) = ret (0, a', m', t) \<and> mte_session ex_mte linux_os a' m' t {}"
proof -
  have "valid_call {} (Malloc 100)" by (simp add: valid_call_def)
  from mte_session_answers [OF ex_mte_sound linux_contract ex_chunk ex_bounds mte_session.start this, of "ex_mem []" "\<lambda>_. 0"]
  obtain p a m t where m: "do_call_mte ex_mte linux_os static_arena (ex_mem []) (\<lambda>_. 0) (Malloc 100) = ret (p, a, m, t)"
    "mte_session ex_mte linux_os a m t {(p, 100)}"
    using linux_unmaps linux_boots ex_os_ready [of "Malloc 100"] by (auto simp del: do_call_mte.simps do_call.simps)
  have "valid_call {(p, 100)} (Free p)" by (simp add: valid_call_def)
  from mte_session_answers [OF ex_mte_sound linux_contract ex_chunk ex_bounds m(2) this] linux_unmaps linux_boots
  obtain q a' m' t' where r: "do_call_mte ex_mte linux_os a m t (Free p) = ret (q, a', m', t')" "mte_session ex_mte linux_os a' m' t' (without p {(p, 100)})"
    by (auto simp: os_ready_def simp del: do_call_mte.simps do_call.simps)
  have "q = 0 \<and> t' = t" using r(1) by auto
  moreover have "without p {(p, 100)} = {}" by (auto simp: without_def)
  ultimately show ?thesis using m r by metis
qed

end
