(* ===== verification/Logging.thy ===== *)
theory Logging
  imports Utils
begin

text \<open>
  \<open>src/src/logging.c\<close> and \<open>src/src/sealloc/logging.h\<close>: the allocation-free formatter behind the error
  and debug messages. A variadic argument carries its type; reading one that is missing or of
  another type is undefined in C and a fault here. A message is the list of its characters,
  the output the list of the calls of \<open>write\<close>, whose results the code ignores.
\<close>

subsection \<open>Numbers\<close>

definition NIL_STR :: string where "NIL_STR = ''(nil)''"
definition BUFSIZE :: nat where "BUFSIZE = 201"
definition hex :: string where "hex = ''0123456789abcdef''"

definition digit :: "nat \<Rightarrow> char" where
  "digit d = char_of (d + 48)"

text \<open>The loops fill the buffer from the end; they return the last index not written.\<close>

fun zu2str_loop :: "nat \<Rightarrow> nat \<Rightarrow> string \<Rightarrow> nat \<times> string" where
  "zu2str_loop idx n buf =
     (if 0 < idx \<and> 0 < n then zu2str_loop (idx - 1) (n div 10) (buf[idx := digit (n mod 10)]) else (idx, buf))"

fun p2str_loop :: "nat \<Rightarrow> nat \<Rightarrow> string \<Rightarrow> nat \<times> string" where
  "p2str_loop idx n buf =
     (if 1 < idx \<and> 0 < n then p2str_loop (idx - 1) (n div 16) (buf[idx := hex ! (n mod 16)]) else (idx, buf))"

declare zu2str_loop.simps [simp del] p2str_loop.simps [simp del]

text \<open>The results are the length, the index of \<open>*begin\<close> in the buffer, and the buffer.\<close>

definition zu2str :: "nat \<Rightarrow> string \<Rightarrow> nat \<times> nat \<times> string" where
  "zu2str n buf =
     (let idx = BUFSIZE - 1
      in if n = 0 then (BUFSIZE - idx, idx, buf[idx := CHR ''0''])
         else (let (idx, buf) = zu2str_loop idx n buf in (BUFSIZE - (idx + 1), idx + 1, buf)))"

definition u2str :: "nat \<Rightarrow> string \<Rightarrow> nat \<times> nat \<times> string" where
  "u2str n buf = zu2str n buf"

definition p2str :: "addr \<Rightarrow> string \<Rightarrow> nat \<times> nat \<times> string" where
  "p2str ptr buf =
     (if ptr = 0 then (length NIL_STR, 0, NIL_STR @ drop (length NIL_STR) buf)
      else
        let (idx, buf) = p2str_loop (BUFSIZE - 1) ptr buf; idx = idx - 1; buf = buf[idx := CHR ''0'', idx + 1 := CHR ''x'']
        in (BUFSIZE - idx, idx, buf))"

text \<open>\<open>write(fd, p, n)\<close> of \<open>n\<close> characters from index \<open>i\<close>.\<close>

definition slice :: "nat \<Rightarrow> nat \<Rightarrow> string \<Rightarrow> string" where
  "slice i n buf = take n (drop i buf)"

definition shown :: "nat \<times> nat \<times> string \<Rightarrow> string" where
  "shown r = (case r of (len, i, buf) \<Rightarrow> slice i len buf)"

subsection \<open>The formatter\<close>

datatype va_arg = VA_UINT nat | VA_SIZE nat | VA_PTR addr | VA_STR string

fun va_uint :: "va_arg list \<Rightarrow> (nat \<times> va_arg list) res" where
  "va_uint (VA_UINT n # args) = ret (n, args)"
| "va_uint args = fail Segv"

fun va_size :: "va_arg list \<Rightarrow> (nat \<times> va_arg list) res" where
  "va_size (VA_SIZE n # args) = ret (n, args)"
| "va_size args = fail Segv"

fun va_ptr :: "va_arg list \<Rightarrow> (addr \<times> va_arg list) res" where
  "va_ptr (VA_PTR p # args) = ret (p, args)"
| "va_ptr args = fail Segv"

fun va_str :: "va_arg list \<Rightarrow> (string \<times> va_arg list) res" where
  "va_str (VA_STR s # args) = ret (s, args)"
| "va_str args = fail Segv"

fun va_skip :: "va_arg list \<Rightarrow> va_arg list res" where
  "va_skip (VA_PTR p # args) = ret args"
| "va_skip (VA_STR s # args) = ret args"
| "va_skip args = fail Segv"

definition emit :: "string list \<Rightarrow> string list res \<Rightarrow> string list res" where
  "emit out r = bindR r (\<lambda>s. ret (out @ s))"

text \<open>
  The loop: \<open>pending\<close> is the text between \<open>begin\<close> and \<open>msg\<close>. The buffer is reused by every
  conversion. In the \<open>default\<close> branch \<open>begin\<close> stays where it is.
\<close>

function vfse_log_loop :: "string \<Rightarrow> string \<Rightarrow> va_arg list \<Rightarrow> string \<Rightarrow> string list res" where
  "vfse_log_loop pending msg args buf =
     (if msg = [] then ret (if pending = [] then [] else [pending])
      else if hd msg \<noteq> CHR ''%'' then vfse_log_loop (pending @ [hd msg]) (tl msg) args buf
      else
        let next = (if tl msg = [] then CHR 0x00 else hd (tl msg))
        in if next = CHR ''%'' then emit [pending, ''%''] (vfse_log_loop [] (drop 2 msg) args buf)
           else if next = CHR ''u'' then
             bindR (va_uint args) (\<lambda>(n, args).
             let r = u2str n buf in emit [pending, shown r] (vfse_log_loop [] (drop 2 msg) args (snd (snd r))))
           else if next = CHR ''p'' then
             bindR (va_ptr args) (\<lambda>(p, args).
             let r = p2str p buf in emit [pending, shown r] (vfse_log_loop [] (drop 2 msg) args (snd (snd r))))
           else if next = CHR ''z'' then
             (if 2 < length msg \<and> msg ! 2 = CHR ''u'' then
                bindR (va_size args) (\<lambda>(n, args).
                let r = zu2str n buf in emit [pending, shown r] (vfse_log_loop [] (drop 3 msg) args (snd (snd r))))
              else emit [pending] (vfse_log_loop [] (drop 2 msg) args buf))
           else if next = CHR ''s'' then
             bindR (va_str args) (\<lambda>(s, args).
             emit [pending, take (msg_len s) s] (vfse_log_loop [] (drop 2 msg) args buf))
           else
             bindR (va_skip args) (\<lambda>args. emit [pending] (vfse_log_loop (pending @ [hd msg]) (tl msg) args buf)))"
  by pat_completeness auto
termination
  by (relation "measure (\<lambda>(pending, msg, args, buf). length msg)") (auto simp: neq_Nil_conv)

declare vfse_log_loop.simps [simp del]

text \<open>A null message is ignored. The uninitialised buffer is a parameter.\<close>

definition vfse_log :: "string \<Rightarrow> int \<Rightarrow> string option \<Rightarrow> va_arg list \<Rightarrow> (int \<times> string) list res" where
  "vfse_log buf fd msg args =
     (case msg of None \<Rightarrow> ret []
      | Some m \<Rightarrow> bindR (vfse_log_loop [] m args buf) (\<lambda>out. ret (map (Pair fd) out)))"

definition STDERR_FILENO :: int where "STDERR_FILENO = 2"

definition se_log :: "string \<Rightarrow> string option \<Rightarrow> va_arg list \<Rightarrow> (int \<times> string) list res" where
  "se_log buf msg args = vfse_log buf STDERR_FILENO msg args"

definition fse_log :: "string \<Rightarrow> int \<Rightarrow> string option \<Rightarrow> va_arg list \<Rightarrow> (int \<times> string) list res" where
  "fse_log buf fd msg args = vfse_log buf fd msg args"

text \<open>\<open>se_error\<close>: where, what, a newline, and the end of the process.\<close>

definition se_error ::
    "string \<Rightarrow> string \<Rightarrow> nat \<Rightarrow> string \<Rightarrow> string \<Rightarrow> va_arg list \<Rightarrow> ((int \<times> string) list \<times> fault) res" where
  "se_error buf file line func msg args =
     bindR (se_log buf (Some ''[ERROR] %s:%u (%s) '') [VA_STR file, VA_UINT line, VA_STR func]) (\<lambda>w1.
     bindR (se_log buf (Some msg) args) (\<lambda>w2.
     bindR (se_log buf (Some [CHR 0x0A]) []) (\<lambda>w3.
     ret (w1 @ w2 @ w3, Exit))))"

subsection \<open>The conversions print the number\<close>

text \<open>Both loops are one loop over the base, and print the number in it.\<close>

fun fill :: "nat \<Rightarrow> nat \<Rightarrow> (nat \<Rightarrow> char) \<Rightarrow> nat \<Rightarrow> nat \<Rightarrow> string \<Rightarrow> nat \<times> string" where
  "fill lo b f idx n buf =
     (if lo < idx \<and> 0 < n then fill lo b f (idx - 1) (n div b) (buf[idx := f (n mod b)]) else (idx, buf))"

declare fill.simps [simp del]

lemma zu2str_loop_fill: "zu2str_loop idx n buf = fill 0 10 digit idx n buf"
  by (induction idx n buf rule: zu2str_loop.induct) (subst zu2str_loop.simps, subst fill.simps, simp)

lemma p2str_loop_fill: "p2str_loop idx n buf = fill 1 16 ((!) hex) idx n buf"
  by (induction idx n buf rule: p2str_loop.induct) (subst p2str_loop.simps, subst fill.simps, simp)

function in_base :: "nat \<Rightarrow> (nat \<Rightarrow> char) \<Rightarrow> nat \<Rightarrow> string" where
  "in_base b f n = (if n = 0 \<or> b < 2 then [] else in_base b f (n div b) @ [f (n mod b)])"
  by pat_completeness auto
termination
  by (relation "measure (\<lambda>(b, f, n). n)") auto

declare in_base.simps [simp del]

lemma in_base_0 [simp]: "in_base b f 0 = []"
  by (simp add: in_base.simps)

lemma in_base_pos: "0 < n \<Longrightarrow> 2 \<le> b \<Longrightarrow> in_base b f n = in_base b f (n div b) @ [f (n mod b)]"
  by (subst in_base.simps) simp

lemma in_base_length: "2 \<le> b \<Longrightarrow> n < b ^ k \<Longrightarrow> length (in_base b f n) \<le> k"
proof (induction k arbitrary: n)
  case (Suc k)
  show ?case
  proof (cases "n = 0")
    case False
    have "n div b < b ^ k" using Suc.prems by (simp add: less_mult_imp_div_less mult.commute)
    then show ?thesis using Suc.IH [of "n div b"] Suc.prems(1) False by (simp add: in_base_pos)
  qed simp
qed (simp add: in_base.simps)

lemma fill_prints:
  assumes "2 \<le> b" "n < b ^ (idx - lo)" "lo \<le> idx" "idx < length buf"
  shows "\<exists>buf'. fill lo b f idx n buf = (idx - length (in_base b f n), buf') \<and> length buf' = length buf
     \<and> drop (Suc idx - length (in_base b f n)) buf' = in_base b f n @ drop (Suc idx) buf
     \<and> take (Suc idx - length (in_base b f n)) buf' = take (Suc idx - length (in_base b f n)) buf"
  using assms(2-)
proof (induction "idx" arbitrary: n buf)
  case 0
  then show ?case using assms(1) by (subst fill.simps) simp
next
  case (Suc i)
  show ?case
  proof (cases "n = 0 \<or> \<not> lo < Suc i")
    case True
    then have "n = 0" using Suc.prems by auto
    then show ?thesis by (subst fill.simps) simp
  next
    case False
    then have lt: "lo \<le> i" "0 < n" by auto
    have "n div b < b ^ (i - lo)"
      using Suc.prems(1) lt(1) by (simp add: Suc_diff_le less_mult_imp_div_less mult.commute)
    then obtain buf' where b': "fill lo b f i (n div b) (buf[Suc i := f (n mod b)]) = (i - length (in_base b f (n div b)), buf')"
      "length buf' = length buf"
      "drop (Suc i - length (in_base b f (n div b))) buf' = in_base b f (n div b) @ drop (Suc i) (buf[Suc i := f (n mod b)])"
      "take (Suc i - length (in_base b f (n div b))) buf' = take (Suc i - length (in_base b f (n div b))) (buf[Suc i := f (n mod b)])"
      using Suc.IH [of "n div b" "buf[Suc i := f (n mod b)]"] lt(1) Suc.prems(3) by auto
    have "drop (Suc i) (buf[Suc i := f (n mod b)]) = f (n mod b) # drop (Suc (Suc i)) buf"
      using Suc.prems(3) by (metis Cons_nth_drop_Suc drop_update_cancel length_list_update lessI nth_list_update_eq)
    moreover have "fill lo b f (Suc i) n buf = fill lo b f i (n div b) (buf[Suc i := f (n mod b)])"
      using lt by (subst fill.simps) simp
    moreover have "in_base b f n = in_base b f (n div b) @ [f (n mod b)]" using lt(2) assms(1) by (rule in_base_pos)
    ultimately show ?thesis using b' by simp
  qed
qed

lemma slice_end:
  "drop i buf = s @ drop m buf' \<Longrightarrow> length s = k \<Longrightarrow> slice i k buf = s"
  by (simp add: slice_def)

definition decimal_text :: "nat \<Rightarrow> string" where
  "decimal_text n = (if n = 0 then ''0'' else in_base 10 digit n)"

definition pointer_text :: "addr \<Rightarrow> string" where
  "pointer_text p = (if p = 0 then ''(nil)'' else ''0x'' @ in_base 16 ((!) hex) p)"

lemma zu2str_prints:
  assumes "length buf = BUFSIZE" "n < 2 ^ 64"
  shows "\<exists>i buf'. zu2str n buf = (length (decimal_text n), i, buf') \<and> i + length (decimal_text n) = BUFSIZE
     \<and> length (decimal_text n) \<le> 20 \<and> length buf' = BUFSIZE \<and> take i buf' = take i buf
     \<and> shown (zu2str n buf) = decimal_text n"
proof (cases "n = 0")
  case True
  have "drop 200 (buf[200 := CHR ''0'']) = [CHR ''0'']"
    using assms(1) Cons_nth_drop_Suc [of 200 "buf[200 := CHR ''0'']"] by (simp add: BUFSIZE_def)
  then show ?thesis using True assms(1)
    by (simp add: zu2str_def BUFSIZE_def decimal_text_def shown_def slice_def)
next
  case False
  let ?s = "in_base 10 digit n"
  have "n < 10 ^ 20" using assms(2) by simp
  then have len: "length ?s \<le> 20" by (intro in_base_length) simp_all
  have "0 < length ?s" using False by (simp add: in_base_pos)
  moreover have "n < 10 ^ (200 - 0)" using \<open>n < 10 ^ 20\<close> power_increasing [of 20 200 "10 :: nat"] by (simp del: power_increasing_iff)
  ultimately obtain buf' where "zu2str_loop 200 n buf = (200 - length ?s, buf')" "length buf' = 201"
    "drop (201 - length ?s) buf' = ?s" "take (201 - length ?s) buf' = take (201 - length ?s) buf"
    using fill_prints [of 10 n 200 0 buf digit] assms(1) by (auto simp: zu2str_loop_fill BUFSIZE_def)
  moreover have "Suc (200 - length ?s) = 201 - length ?s" using len by simp
  ultimately show ?thesis using False len
    by (simp add: zu2str_def BUFSIZE_def decimal_text_def shown_def slice_def Suc_diff_le)
qed

lemma p2str_prints:
  assumes "length buf = BUFSIZE" "p < 2 ^ 64"
  shows "\<exists>i buf'. p2str p buf = (length (pointer_text p), i, buf') \<and> i + length (pointer_text p) \<le> BUFSIZE
     \<and> length (pointer_text p) \<le> 18 \<and> length buf' = BUFSIZE \<and> shown (p2str p buf) = pointer_text p"
proof (cases "p = 0")
  case True
  then show ?thesis using assms(1)
    by (simp add: p2str_def pointer_text_def NIL_STR_def BUFSIZE_def shown_def slice_def)
next
  case False
  let ?s = "in_base 16 ((!) hex) p"
  have "p < 16 ^ 16" using assms(2) by simp
  then have len: "length ?s \<le> 16" by (intro in_base_length) simp_all
  have lt: "p < 16 ^ (200 - 1)" using \<open>p < 16 ^ 16\<close> power_increasing [of 16 199 "16 :: nat"] by (simp del: power_increasing_iff)
  obtain buf' where r: "p2str_loop 200 p buf = (200 - length ?s, buf')" "length buf' = 201"
    "drop (201 - length ?s) buf' = ?s"
    using fill_prints [of 16 p 200 1 buf "(!) hex"] assms(1) lt by (auto simp: p2str_loop_fill BUFSIZE_def)
  let ?i = "199 - length ?s"
  have i: "200 - length ?s - 1 = ?i" "Suc ?i = 200 - length ?s" "Suc (Suc ?i) = 201 - length ?s" "?i < 199 \<or> ?i = 199" using len by auto
  let ?b = "buf'[?i := CHR ''0'', Suc ?i := CHR ''x'']"
  have "drop ?i ?b = CHR ''0'' # CHR ''x'' # drop (Suc (Suc ?i)) ?b"
    using r(2) by (subst Cons_nth_drop_Suc [symmetric], simp, subst Cons_nth_drop_Suc [symmetric], simp, simp)
  also have "drop (Suc (Suc ?i)) ?b = drop (Suc (Suc ?i)) buf'" by simp
  also have "\<dots> = ?s" unfolding i(3) by (rule r(3))
  finally have "drop ?i ?b = CHR ''0'' # CHR ''x'' # ?s" .
  moreover have "p2str p buf = (201 - ?i, ?i, ?b)"
    unfolding p2str_def BUFSIZE_def using False r(1) i(1) by (simp add: Let_def i(2) [symmetric])
  moreover have "201 - ?i = Suc (Suc (length ?s))" using len by simp
  ultimately show ?thesis using False len r(2)
    by (simp add: pointer_text_def shown_def slice_def BUFSIZE_def)
qed

text \<open>Reading a number back.\<close>

lemma digit_value: "d < 10 \<Longrightarrow> schar (digit d) = int d + 48"
  by (simp add: schar_def digit_def)

lemma decimal_in_base: "decimal (in_base 10 digit n) = int n"
proof (induction n rule: less_induct)
  case (less n)
  show ?case
  proof (cases "n = 0")
    case False
    then have "decimal (in_base 10 digit n) = decimal (in_base 10 digit (n div 10)) * 10 + (schar (digit (n mod 10)) - 48)"
      by (simp add: in_base_pos decimal_snoc)
    also have "\<dots> = int (n div 10) * 10 + int (n mod 10)" using False less.IH by (simp add: digit_value)
    also have "\<dots> = int n" by presburger
    finally show ?thesis .
  qed (simp add: decimal_def)
qed

definition hex_value :: "char \<Rightarrow> nat" where
  "hex_value c = length (takeWhile (\<lambda>x. x \<noteq> c) hex)"

definition hexadecimal :: "string \<Rightarrow> nat" where
  "hexadecimal str = foldl (\<lambda>a c. a * 16 + hex_value c) 0 str"

lemma hex_value_hex: "d < 16 \<Longrightarrow> hex_value (hex ! d) = d"
proof -
  have "\<forall>d \<in> set [0..<16]. hex_value (hex ! d) = d" by (simp add: upt_rec hex_value_def hex_def)
  then show "d < 16 \<Longrightarrow> hex_value (hex ! d) = d" by simp
qed

lemma hexadecimal_in_base: "hexadecimal (in_base 16 ((!) hex) n) = n"
proof (induction n rule: less_induct)
  case (less n)
  show ?case
    using less.IH [of "n div 16"] by (cases "n = 0") (simp_all add: in_base_pos hexadecimal_def hex_value_hex)
qed

subsection \<open>The formatter prints its template\<close>

text \<open>A message as the caller means it: a list of directives, each of which determines a piece of the
  format string, its argument, and the text to print.\<close>

datatype directive = Literal char | Percent | Unsigned nat | Size nat | Pointer addr | Str string

fun template :: "directive \<Rightarrow> string" where
  "template (Literal c) = [c]"
| "template Percent = ''%%''"
| "template (Unsigned n) = ''%u''"
| "template (Size n) = ''%zu''"
| "template (Pointer p) = ''%p''"
| "template (Str s) = ''%s''"

fun argument :: "directive \<Rightarrow> va_arg list" where
  "argument (Unsigned n) = [VA_UINT n]"
| "argument (Size n) = [VA_SIZE n]"
| "argument (Pointer p) = [VA_PTR p]"
| "argument (Str s) = [VA_STR s]"
| "argument _ = []"

fun printed :: "directive \<Rightarrow> string" where
  "printed (Literal c) = [c]"
| "printed Percent = ''%''"
| "printed (Unsigned n) = decimal_text n"
| "printed (Size n) = decimal_text n"
| "printed (Pointer p) = pointer_text p"
| "printed (Str s) = s"

fun proper :: "directive \<Rightarrow> bool" where
  "proper (Literal c) \<longleftrightarrow> c \<noteq> CHR ''%'' \<and> c \<noteq> CHR 0x00"
| "proper Percent \<longleftrightarrow> True"
| "proper (Unsigned n) \<longleftrightarrow> n < 2 ^ 32"
| "proper (Size n) \<longleftrightarrow> n < 2 ^ 64"
| "proper (Pointer p) \<longleftrightarrow> p < 2 ^ 64"
| "proper (Str s) \<longleftrightarrow> length s < 2 ^ 32"

definition templates :: "directive list \<Rightarrow> string" where
  "templates ds = concat (map template ds)"

definition arguments :: "directive list \<Rightarrow> va_arg list" where
  "arguments ds = concat (map argument ds)"

lemma directives_simps [simp]:
  "templates [] = []" "templates (d # ds) = template d @ templates ds"
  "arguments [] = []" "arguments (d # ds) = argument d @ arguments ds"
  by (simp_all add: templates_def arguments_def)

lemma loop_literal:
  "c \<noteq> CHR ''%'' \<Longrightarrow> vfse_log_loop pending (c # msg) args buf = vfse_log_loop (pending @ [c]) msg args buf"
  by (subst vfse_log_loop.simps) simp

lemma loop_literals:
  "CHR ''%'' \<notin> set str \<Longrightarrow> vfse_log_loop pending (str @ msg) args buf = vfse_log_loop (pending @ str) msg args buf"
  by (induction str arbitrary: pending) (auto simp: loop_literal)

lemma loop_done: "vfse_log_loop pending [] args buf = ret (if pending = [] then [] else [pending])"
  by (subst vfse_log_loop.simps) simp

text \<open>One conversion: the pending text and the argument are written, and nothing is pending.\<close>

lemma loop_conversion:
  assumes "length buf = BUFSIZE" "proper d" "\<And>c. d \<noteq> Literal c"
  obtains buf' where "length buf' = BUFSIZE"
    "vfse_log_loop pending (template d @ msg) (argument d @ args) buf = emit [pending, printed d] (vfse_log_loop [] msg args buf')"
proof (cases d)
  case (Unsigned n)
  then have "n < 2 ^ 64" using assms(2) by simp
  then obtain i buf' where "zu2str n buf = (length (decimal_text n), i, buf')" "length buf' = BUFSIZE" "shown (zu2str n buf) = decimal_text n"
    using zu2str_prints [OF assms(1)] by blast
  then show ?thesis using Unsigned by (intro that [of buf']) (auto simp: vfse_log_loop.simps [of pending "CHR ''%'' # _"] u2str_def)
next
  case (Size n)
  then have "n < 2 ^ 64" using assms(2) by simp
  then obtain i buf' where "zu2str n buf = (length (decimal_text n), i, buf')" "length buf' = BUFSIZE" "shown (zu2str n buf) = decimal_text n"
    using zu2str_prints [OF assms(1)] by blast
  then show ?thesis using Size by (intro that [of buf']) (auto simp: vfse_log_loop.simps [of pending "CHR ''%'' # _"])
next
  case (Pointer p)
  then have "p < 2 ^ 64" using assms(2) by simp
  then obtain i buf' where "p2str p buf = (length (pointer_text p), i, buf')" "length buf' = BUFSIZE" "shown (p2str p buf) = pointer_text p"
    using p2str_prints [OF assms(1)] by blast
  then show ?thesis using Pointer by (intro that [of buf']) (auto simp: vfse_log_loop.simps [of pending "CHR ''%'' # _"])
next
  case (Str s)
  then have "msg_len s = length s" using assms(2) by (simp add: msg_len_eq)
  then show ?thesis using Str assms(1) by (intro that [of buf]) (auto simp: vfse_log_loop.simps [of pending "CHR ''%'' # _"])
next
  case Percent
  then show ?thesis using assms(1) by (intro that [of buf]) (auto simp: vfse_log_loop.simps [of pending "CHR ''%'' # _"])
qed (use assms(3) in auto)

lemma loop_prints:
  "list_all proper ds \<Longrightarrow> length buf = BUFSIZE \<Longrightarrow>
     \<exists>out. vfse_log_loop pending (templates ds) (arguments ds) buf = ret out \<and> concat out = pending @ concat (map printed ds)"
proof (induction ds arbitrary: pending buf)
  case (Cons d ds)
  show ?case
  proof (cases "\<exists>c. d = Literal c")
    case True
    then show ?thesis using Cons.IH [of buf "pending @ printed d"] Cons.prems by (auto simp: loop_literal)
  next
    case False
    then obtain buf' where b: "length buf' = BUFSIZE"
      "vfse_log_loop pending (template d @ templates ds) (argument d @ arguments ds) buf =
         emit [pending, printed d] (vfse_log_loop [] (templates ds) (arguments ds) buf')"
      using loop_conversion [of buf d pending "templates ds" "arguments ds"] Cons.prems by auto
    obtain out where "vfse_log_loop [] (templates ds) (arguments ds) buf' = ret out" "concat out = concat (map printed ds)"
      using Cons.IH [of buf' "[]"] Cons.prems(1) b(1) by auto
    then show ?thesis using b(2) by (simp add: emit_def)
  qed
qed (simp add: loop_done)

subsection \<open>Properties\<close>

text \<open>C39: \<open>zu2str\<close> writes only behind the index it returns, at most 20 characters at the end
  of the buffer, and they are the decimal digits of the number: they denote it, and on 32 bits
  \<open>str2u32\<close>, which reads the seed from the environment, reads them back.\<close>

theorem zu2str_roundtrip:
  assumes "length buf = BUFSIZE" "n < 2 ^ 64"
  shows "\<exists>len i buf'. zu2str n buf = (len, i, buf') \<and> 1 \<le> len \<and> len \<le> 20 \<and> i + len = BUFSIZE
     \<and> length buf' = BUFSIZE \<and> take i buf' = take i buf \<and> decimal (slice i len buf') = int n
     \<and> str2u32 (slice i len buf') = of_nat n"
proof -
  obtain i buf' where z: "zu2str n buf = (length (decimal_text n), i, buf')" "i + length (decimal_text n) = BUFSIZE"
    "length (decimal_text n) \<le> 20" "length buf' = BUFSIZE" "take i buf' = take i buf"
    "slice i (length (decimal_text n)) buf' = decimal_text n"
    using zu2str_prints [OF assms] by (auto simp: shown_def)
  have "decimal (decimal_text n) = int n" using decimal_in_base [of n] by (auto simp: decimal_text_def decimal_def schar_def)
  moreover from this have "str2u32 (decimal_text n) = of_nat n" using z(3) by (simp add: str2u32_eq)
  moreover have "1 \<le> length (decimal_text n)" by (auto simp: decimal_text_def in_base_pos)
  ultimately show ?thesis using z by simp
qed

theorem zu2str_roundtrip_witness:
  "\<exists>len i buf. zu2str 4294967295 (replicate BUFSIZE (CHR 0x00)) = (len, i, buf) \<and> str2u32 (slice i len buf) = 4294967295"
  using zu2str_roundtrip [of "replicate BUFSIZE (CHR 0x00)" 4294967295] by auto

text \<open>C35: \<open>p2str\<close> prints a pointer as \<open>(nil)\<close> or as \<open>0x\<close> and the hexadecimal digits that denote it, inside
  the buffer.\<close>

theorem p2str_correct:
  assumes "length buf = BUFSIZE" "p < 2 ^ 64"
  shows "\<exists>len i buf'. p2str p buf = (len, i, buf') \<and> i + len \<le> BUFSIZE \<and> length buf' = BUFSIZE
     \<and> (if p = 0 then slice i len buf' = ''(nil)''
        else \<exists>s. slice i len buf' = ''0x'' @ s \<and> length s \<le> 16 \<and> hexadecimal s = p)"
proof -
  obtain i buf' where "p2str p buf = (length (pointer_text p), i, buf')" "i + length (pointer_text p) \<le> BUFSIZE"
    "length (pointer_text p) \<le> 18" "length buf' = BUFSIZE" "slice i (length (pointer_text p)) buf' = pointer_text p"
    using p2str_prints [OF assms] by (auto simp: shown_def)
  then show ?thesis using hexadecimal_in_base [of p]
    by (intro exI [of _ "length (pointer_text p)"] exI [of _ i] exI [of _ buf'] conjI) (auto simp: pointer_text_def)
qed

theorem p2str_correct_witness:
  "\<exists>len i buf s. p2str 48879 (replicate BUFSIZE (CHR 0x00)) = (len, i, buf) \<and> slice i len buf = ''0x'' @ s \<and> hexadecimal s = 48879"
  using p2str_correct [of "replicate BUFSIZE (CHR 0x00)" 48879] by auto

text \<open>C39: given the format string and the arguments of a list of directives, \<open>vfse_log\<close> terminates
  without reading a missing or mistyped argument, writes to the given file descriptor only,
  and the writes together are the text the directives denote.\<close>

theorem vfse_log_prints:
  assumes "list_all proper ds" "length buf = BUFSIZE"
  shows "\<exists>out. vfse_log buf fd (Some (templates ds)) (arguments ds) = ret out
     \<and> concat (map snd out) = concat (map printed ds) \<and> fst ` set out \<subseteq> {fd}"
proof -
  obtain out where "vfse_log_loop [] (templates ds) (arguments ds) buf = ret out" "concat out = concat (map printed ds)"
    using loop_prints [OF assms, of "[]"] by auto
  moreover have "map snd (map (Pair fd) out) = out" by (induction out) auto
  ultimately show ?thesis by (auto simp: vfse_log_def)
qed

theorem vfse_log_prints_witness:
  "\<exists>out. vfse_log (replicate BUFSIZE (CHR 0x00)) 2 (Some ''S %zu%%'') [VA_SIZE 0] = ret out \<and> concat (map snd out) = ''S 0%''"
  using vfse_log_prints [of "[Literal (CHR ''S''), Literal (CHR '' ''), Size 0, Percent]" "replicate BUFSIZE (CHR 0x00)" 2]
  by (auto simp: decimal_text_def)

text \<open>C40: an unknown conversion consumes an argument and is meant to be printed as it
  stands, but the text before it is written twice: once at the \<open>%\<close>, and again with the
  conversion.\<close>

theorem vfse_log_unknown:
  assumes "CHR ''%'' \<notin> set before" "CHR ''%'' \<notin> set after"
    "c \<notin> {CHR ''%'', CHR ''u'', CHR ''p'', CHR ''z'', CHR ''s''}"
  shows "vfse_log buf fd (Some (before @ CHR ''%'' # c # after)) [VA_PTR p] = ret [(fd, before), (fd, before @ CHR ''%'' # c # after)]"
proof -
  have "vfse_log_loop [] (before @ CHR ''%'' # c # after) [VA_PTR p] buf = vfse_log_loop before (CHR ''%'' # c # after) [VA_PTR p] buf"
    using loop_literals [OF assms(1), of "[]"] by simp
  also have "\<dots> = emit [before] (vfse_log_loop (before @ ''%'') ((c # after) @ []) [] buf)"
    using assms(3) by (subst vfse_log_loop.simps) simp
  also have "\<dots> = ret [before, before @ CHR ''%'' # c # after]"
    using assms(2,3) by (subst loop_literals) (auto simp: loop_done emit_def)
  finally show ?thesis by (simp add: vfse_log_def)
qed

theorem vfse_log_unknown_witness:
  "vfse_log [] 2 (Some ''size %x'') [VA_PTR 7] = ret [(2, ''size ''), (2, ''size %x'')]"
  using vfse_log_unknown [of "''size ''" "[]" "CHR ''x''" "[]" 2 7] by simp

end
