(* ===== verification/Statistics.thy ===== *)
theory Statistics
  imports Logging Sealloc
begin

text \<open>
  The build with \<open>STATISTICS\<close>: the file opened by \<open>arena_init\<close> (\<open>src/src/arena.c\<close>), and \<open>log_allocation\<close>, the
  exported functions and the destructor of \<open>src/src/malloc_api.c\<close>. The arena has one more field,
  \<open>stats_fd\<close>, which is passed beside it. \<open>opened\<close> is what \<open>open\<close> returns, \<open>buf\<close> the uninitialised
  buffer of the formatter, and a result carries the writes in order.
\<close>

type_synonym writes = "(int \<times> string) list"

definition open_stats :: "string \<Rightarrow> int \<Rightarrow> (int \<times> writes) res" where
  "open_stats buf opened =
     (if opened < 0 then
        bindR (se_log buf (Some (''Couldn'' @ [CHR 0x27] @ ''t open file to write heap statistics to'' @ [CHR 0x0A])) []) (\<lambda>w. ret (-1, w))
      else bindR (se_log buf (Some (''Opened heap_stats.sealloc file for statistics'' @ [CHR 0x0A])) []) (\<lambda>w. ret (opened, w)))"

definition stats_class :: "nat \<Rightarrow> string" where
  "stats_class sz =
     (if IS_SIZE_SMALL sz then ''S'' else if IS_SIZE_MEDIUM sz then ''M'' else if IS_SIZE_LARGE sz then ''L'' else ''H'')"

definition log_allocation :: "string \<Rightarrow> int \<Rightarrow> nat \<Rightarrow> writes res" where
  "log_allocation buf stats_fd sz =
     (if 0 \<le> stats_fd then fse_log buf stats_fd (Some (''%s %zu'' @ [CHR 0x0A])) [VA_STR (stats_class sz), VA_SIZE sz] else ret [])"

text \<open>The destructor: the descriptor it closes, if any.\<close>

definition close_stats_file :: "bool \<Rightarrow> int \<Rightarrow> int option" where
  "close_stats_file initialized stats_fd = (if initialized \<and> 0 \<le> stats_fd then Some stats_fd else None)"

text \<open>Initialisation, log and call, as \<open>malloc\<close>, \<open>calloc\<close> and \<open>realloc\<close> do them.\<close>

definition with_init_stats :: "'w os \<Rightarrow> string \<Rightarrow> int \<Rightarrow> arena_t \<Rightarrow> int \<Rightarrow> 'w mem \<Rightarrow> (arena_t \<times> int \<times> 'w mem \<times> writes) res" where
  "with_init_stats os buf opened arena stats_fd m =
     (if \<not> is_initialized arena then
        bindR (open_stats buf opened) (\<lambda>(stats_fd, w).
        bindR (arena_init os arena m) (\<lambda>(arena, m). ret (arena, stats_fd, m, w)))
      else ret (arena, stats_fd, m, []))"

definition malloc_stats ::
    "'w os \<Rightarrow> string \<Rightarrow> int \<Rightarrow> arena_t \<Rightarrow> int \<Rightarrow> 'w mem \<Rightarrow> nat \<Rightarrow> ((addr \<times> arena_t \<times> 'w mem) \<times> int \<times> writes \<times> writes) res" where
  "malloc_stats os buf opened arena stats_fd m sz =
     bindR (with_init_stats os buf opened arena stats_fd m) (\<lambda>(arena, stats_fd, m, w1).
     bindR (log_allocation buf stats_fd sz) (\<lambda>w2.
     bindR (sealloc_malloc os arena m sz) (\<lambda>r. ret (r, stats_fd, w1, w2))))"

definition calloc_stats ::
    "'w os \<Rightarrow> string \<Rightarrow> int \<Rightarrow> arena_t \<Rightarrow> int \<Rightarrow> 'w mem \<Rightarrow> nat \<Rightarrow> nat \<Rightarrow> ((addr \<times> arena_t \<times> 'w mem) \<times> int \<times> writes \<times> writes) res" where
  "calloc_stats os buf opened arena stats_fd m nmemb sz =
     bindR (with_init_stats os buf opened arena stats_fd m) (\<lambda>(arena, stats_fd, m, w1).
     bindR (log_allocation buf stats_fd (u64 (nmemb * sz))) (\<lambda>w2.
     bindR (sealloc_calloc os arena m nmemb sz) (\<lambda>r. ret (r, stats_fd, w1, w2))))"

definition realloc_stats ::
    "'w os \<Rightarrow> string \<Rightarrow> int \<Rightarrow> arena_t \<Rightarrow> int \<Rightarrow> 'w mem \<Rightarrow> addr \<Rightarrow> nat \<Rightarrow> ((addr \<times> arena_t \<times> 'w mem) \<times> int \<times> writes \<times> writes) res" where
  "realloc_stats os buf opened arena stats_fd m ptr sz =
     bindR (with_init_stats os buf opened arena stats_fd m) (\<lambda>(arena, stats_fd, m, w1).
     bindR (log_allocation buf stats_fd sz) (\<lambda>w2.
     bindR (sealloc_realloc os arena m ptr sz) (\<lambda>r. ret (r, stats_fd, w1, w2))))"

subsection \<open>What is written\<close>

lemma log_text:
  assumes "list_all proper ds" "length buf = BUFSIZE"
  obtains out where "vfse_log buf sfd (Some (templates ds)) (arguments ds) = ret out" "concat (map snd out) = concat (map printed ds)" "fst ` set out \<subseteq> {sfd}"
proof -
  obtain out where "vfse_log_loop [] (templates ds) (arguments ds) buf = ret out" "concat out = concat (map printed ds)"
    using loop_prints [OF assms, of "[]"] by auto
  moreover have "map snd (map (Pair sfd) out) = out" by (induction out) auto
  ultimately show thesis by (intro that [of "map (Pair sfd) out"]) (auto simp add: vfse_log_def simp del: map_map)
qed

lemma literal_text: "templates (map Literal s) = s" "arguments (map Literal s) = []" "concat (map printed (map Literal s)) = s"
  by (induction s) (simp_all add: templates_def arguments_def)

lemma open_stats_ok:
  assumes "length buf = BUFSIZE"
  obtains w where "open_stats buf opened = ret (if opened < 0 then -1 else opened, w)"
proof -
  have "\<exists>w. se_log buf (Some s) [] = ret w" if "list_all (\<lambda>c. c \<noteq> CHR ''%'' \<and> c \<noteq> CHR 0x00) s" for s
    using log_text [of "map Literal s" buf STDERR_FILENO] assms that
    unfolding literal_text se_log_def by (auto simp: list.pred_map comp_def)
  then obtain f where f: "se_log buf (Some s) [] = ret (f s)" if "list_all (\<lambda>c. c \<noteq> CHR ''%'' \<and> c \<noteq> CHR 0x00) s" for s
    by metis
  show thesis
    by (rule that [of "if opened < 0 then f (''Couldn'' @ [CHR 0x27] @ ''t open file to write heap statistics to'' @ [CHR 0x0A])
        else f (''Opened heap_stats.sealloc file for statistics'' @ [CHR 0x0A])"]) (simp add: open_stats_def f)
qed

lemma log_allocation_ok:
  assumes "length buf = BUFSIZE" "n < 2 ^ 64"
  obtains w where "log_allocation buf sfd n = ret w"
    "concat (map snd w) = (if 0 \<le> sfd then stats_class n @ '' '' @ decimal_text n @ [CHR 0x0A] else [])" "fst ` set w \<subseteq> {sfd}"
proof (cases "0 \<le> sfd")
  case True
  let ?ds = "[Str (stats_class n), Literal (CHR '' ''), Size n, Literal (CHR 0x0A)]"
  have "length (stats_class n) = 1" by (simp add: stats_class_def)
  then have "list_all proper ?ds" using assms(2) by simp
  then obtain w where "vfse_log buf sfd (Some (templates ?ds)) (arguments ?ds) = ret w" "concat (map snd w) = concat (map printed ?ds)" "fst ` set w \<subseteq> {sfd}"
    using assms(1) by (rule log_text)
  then show thesis using True by (intro that [of w]) (simp_all add: log_allocation_def fse_log_def templates_def arguments_def)
qed (use that in \<open>simp add: log_allocation_def\<close>)

text \<open>
  The line of a request of \<open>n\<close> bytes: the letter of the class that serves it, by the bounds of 512 bytes, 8 KiB and 1 MiB, and the
  size. A request of 0 bytes is served from the smallest class, but it is written with the letter of the huge mappings.
\<close>

definition stats_line :: "nat \<Rightarrow> string" where
  "stats_line n = (if n = 0 \<or> 1048576 < n then CHR ''H'' else if n \<le> 512 then CHR ''S'' else if n \<le> 8192 then CHR ''M'' else CHR ''L'')
     # CHR '' '' # decimal_text n @ [CHR 0x0A]"

lemma stats_line_eq: "stats_class n @ '' '' @ decimal_text n @ [CHR 0x0A] = stats_line n"
  by (simp add: stats_class_def stats_line_def size_tests size_consts)

text \<open>The log changes nothing: erased, each call is the one of the default build.\<close>

definition logged :: "'a res \<Rightarrow> int \<Rightarrow> nat \<Rightarrow> ('a \<times> int \<times> writes \<times> writes) res \<Rightarrow> bool" where
  "logged r sfd n r' \<longleftrightarrow> (\<exists>w1 w2. r' = bindR r (\<lambda>x. ret (x, sfd, w1, w2)) \<and> fst ` set w2 \<subseteq> {sfd}
     \<and> concat (map snd w2) = (if 0 \<le> sfd then stats_line n else []))"

definition stats_fd_after :: "arena_t \<Rightarrow> int \<Rightarrow> int \<Rightarrow> int" where
  "stats_fd_after arena stats_fd opened = (if is_initialized arena then stats_fd else if opened < 0 then -1 else opened)"

lemma logged_call:
  assumes "length buf = BUFSIZE" "n < 2 ^ 64"
  shows "logged (bindR (with_init os a m) (\<lambda>(a, m). f a m)) (stats_fd_after a sfd opened) n
     (bindR (with_init_stats os buf opened a sfd m) (\<lambda>(a, sfd, m, w1).
      bindR (log_allocation buf sfd n) (\<lambda>w2. bindR (f a m) (\<lambda>r. ret (r, sfd, w1, w2)))))"
proof -
  let ?sfd = "stats_fd_after a sfd opened"
  obtain w1 where i: "with_init_stats os buf opened a sfd m = bindR (with_init os a m) (\<lambda>(a, m). ret (a, ?sfd, m, w1))"
  proof (rule open_stats_ok [OF assms(1), of opened])
    fix w
    assume "open_stats buf opened = ret (if opened < 0 then -1 else opened, w)"
    then show thesis
      by (intro that [of "if is_initialized a then [] else w"]) (simp add: with_init_stats_def with_init_def stats_fd_after_def)
  qed
  obtain w2 where l: "log_allocation buf ?sfd n = ret w2" "fst ` set w2 \<subseteq> {?sfd}"
    "concat (map snd w2) = (if 0 \<le> ?sfd then stats_class n @ '' '' @ decimal_text n @ [CHR 0x0A] else [])"
    by (rule log_allocation_ok [OF assms]) (rule that)
  show ?thesis unfolding logged_def i using l stats_line_eq by (intro exI [of _ w1] exI [of _ w2]) (simp add: bindR_assoc case_prod_unfold)
qed

subsection \<open>Properties\<close>

text \<open>C16: in the statistics build, \<open>malloc\<close>, \<open>calloc\<close> and \<open>realloc\<close> compute exactly what they
  compute in the default build. When the statistics file is open, each call also writes one line to it and to no other file: \<open>S\<close> for 1 to 512 bytes, \<open>M\<close> up to
  8 KiB, \<open>L\<close> up to 1 MiB, \<open>H\<close> above and for 0 bytes, and the size in decimal. When the file could not be opened, nothing is written; the
  file is opened by the first call only.\<close>

theorem statistics_transparent:
  assumes "length buf = BUFSIZE" "n < 2 ^ 64"
  shows "logged (api_malloc os a m n) (stats_fd_after a sfd opened) n (malloc_stats os buf opened a sfd m n)
     \<and> logged (api_realloc os a m p n) (stats_fd_after a sfd opened) n (realloc_stats os buf opened a sfd m p n)
     \<and> logged (api_calloc os a m k n) (stats_fd_after a sfd opened) (u64 (k * n)) (calloc_stats os buf opened a sfd m k n)"
proof -
  have "u64 (k * n) < 2 ^ 64" by (simp add: u64_def)
  then show ?thesis
    unfolding api_malloc_def api_calloc_def api_realloc_def malloc_stats_def calloc_stats_def realloc_stats_def
    by (intro conjI logged_call [OF assms(1)] assms(2))
qed

theorem statistics_transparent_witness:
  "\<exists>os :: unit os. \<exists>a m w1 w2. malloc_stats os (replicate BUFSIZE (CHR 0x00)) 3 a 7 m 0 = bindR (api_malloc os a m 0) (\<lambda>x. ret (x, 7, w1, w2))
     \<and> concat (map snd w2) = ''H 0'' @ [CHR 0x0A]"
proof -
  define a where "a = static_arena\<lparr>is_initialized := True\<rparr>"
  have "stats_fd_after a 7 3 = 7" by (simp add: stats_fd_after_def a_def)
  moreover have "stats_line 0 = ''H 0'' @ [CHR 0x0A]" by (simp add: stats_line_def decimal_text_def)
  ultimately show ?thesis
    using statistics_transparent [of "replicate BUFSIZE (CHR 0x00)" 0, where a = a and sfd = 7 and opened = 3]
    unfolding logged_def by fastforce
qed

end
