(* ===== verification/Spec2Isabelle.thy ===== *)
theory Spec2Isabelle
  imports Tagged_Session Statistics
begin

text \<open>
  A verified model of sealloc, a hardened \<open>malloc\<close> replacement in C. All paths are under \<open>src/src\<close>.

  \<^bold>\<open>The program.\<close> A request of up to 1 MiB is rounded up to one of 43 size classes. Every class has a
  bin; a bin holds runs; a run is a block of at least 16 KiB cut into regions of one size, which it
  hands out one by one in a random order and never twice. Runs are blocks of a chunk of 32 MiB, a buddy
  tree with lists of the free nodes per level. Larger requests are mappings of their own. The metadata of
  runs, chunks and huge mappings lives apart from the user's memory, in pools of a second buddy allocator.
  The arena owns the lists of chunks, huge mappings and pools and the bins; it asks the kernel for
  memory at random addresses. \<open>free\<close> finds the metadata by address, aborts on anything that is not the
  start of a live region, and unmaps runs, chunks and mappings that are no longer used. On AArch64 the
  regions of a run also get memory tags.

  \<^bold>\<open>The theories\<close>, in the order of the imports, with the files they model:

  \<^item> \<open>Prelude\<close>: machine integers, outcomes of calls, stores, and the interface \<open>packed_states\<close> of the three
    arrays of two-bit states. \<open>Utils\<close> (\<open>utils.c\<close>, \<open>utils.h\<close>), \<open>Splitmix\<close> (\<open>random.c\<close>), \<open>Size_Class\<close>
    (\<open>size_class.c\<close>), \<open>Generator\<close> (\<open>generator.h\<close>, entry by entry), \<open>Logging\<close> (\<open>logging.c\<close>).
  \<^item> \<open>Container_LL\<close> (\<open>container_ll.c\<close>): the intrusive list and the interface \<open>entry_list\<close> that bins and arena use.
  \<^item> \<open>Metadata\<close>, \<open>Run\<close>, \<open>Bin\<close> (\<open>run.c\<close>, \<open>bin.c\<close>): records, operations, the invariants \<open>run_inv\<close> and \<open>bin_rep\<close>,
    and a run as a map from addresses to states.
  \<^item> \<open>Tagging\<close> (\<open>run.c\<close>, \<open>platform.c\<close>, \<open>arch/aarch64.h\<close>): memory tags of a run.
  \<^item> \<open>Tree_Index\<close>, \<open>Internal_Allocator\<close> (\<open>internal_allocator.c\<close>): the buddy allocator of the metadata pools; it
    refines an inductive tree.
  \<^item> \<open>Platform\<close> (\<open>platform.c\<close>): the wrappers of the system calls.
  \<^item> \<open>Chunk\<close>, \<open>Chunk_Jump\<close>, \<open>Chunk_Spec\<close>, \<open>Chunk_Alloc\<close>, \<open>Chunk_Free\<close> (\<open>chunk.c\<close>): operations; the lists of free
    nodes; the abstract state (used blocks and freed leaves); allocation; deallocation and lookup.
  \<^item> \<open>Arena\<close> (\<open>arena.c\<close>) and \<open>Sealloc\<close> (\<open>sealloc.c\<close>, \<open>malloc_api.c\<close>): the definitions. \<open>Statistics\<close>: the build with
    the statistics file.
  \<^item> \<open>Arena_Memory\<close>: what is assumed of the kernel, and \<open>arena_morecore\<close>. \<open>Arena_Meta\<close>: the pools.
    \<open>Arena_Inv\<close>: the arena invariant and the set of live regions. \<open>Arena_Run\<close>, \<open>Arena_Bin\<close>, \<open>Arena_Malloc\<close>,
    \<open>Arena_Huge\<close>: new chunks, runs, regions and mappings. \<open>Arena_Free\<close>, \<open>Arena_Drop\<close>, \<open>Arena_Release\<close>: lookup and
    release. \<open>Arena_Realloc\<close>: reallocation.
  \<^item> \<open>Tagged_Arena\<close>, \<open>Tagged_Session\<close> (\<open>sealloc.c\<close>, \<open>malloc_api.c\<close>): the build with memory tagging, and its programs.
  \<^item> \<open>Sealloc_Spec\<close>: what \<open>malloc\<close>, \<open>free\<close>, \<open>realloc\<close> and \<open>calloc\<close> promise. \<open>Session\<close>, \<open>Session_Spec\<close>: programs that
    call them in any order.

  \<^bold>\<open>How the state is modelled.\<close> A struct is a record with the source's fields; a struct that embeds a list entry
  extends \<open>ll_entry\<close>. Addresses and counters are natural numbers with the wrap-around of their C types written
  out (\<open>u16\<close>, \<open>u32\<close>, \<open>u64\<close>), bit-twiddling code works on words. Memory is the record \<open>'w mem\<close>: one typed store per
  kind of metadata, from addresses to records, the bytes of the user's memory, the state of the random generators
  and of the kernel. Reading a store at an address without an object is the fault \<open>Segv\<close>, so use after free and null
  dereference are visible; an index out of bounds is \<open>Segv\<close> too; \<open>exit(1)\<close>, \<open>abort()\<close> and division by zero are
  faults of their own. A call that never returns is \<open>None\<close>. A bin is named by its index.

  \<^bold>\<open>The kernel\<close> is the parameter \<open>os\<close>, one function per system call over an arbitrary state. Theorems name what they
  need of it, and that is what the manual pages of Linux document:
  \<^item> \<open>os_contract\<close>: a mapping that is granted is page-aligned, below \<open>2 ^ 47\<close> and disjoint from everything mapped; one that is
    refused, with any error, changes nothing; \<open>munmap\<close> removes the pages of its range only (\<open>os_sound\<close> is the part about the calls that
    succeed). Nothing is said about when the kernel refuses, or about the address it chooses. This is all that the promises of a call that returns rest on.
  \<^item> \<open>os_break\<close> and \<open>os_boots\<close>: the program break lies below a bound; a seed and a break are available. \<open>os_unmaps\<close>: unmapping is not refused. Where the
    last two fail the process exits, and the theorems say so.
  \<^item> \<open>provision\<close>: what makes a call return. The kernel knows \<open>MAP_FIXED_NOREPLACE\<close>; between \<open>mmap_min_addr\<close> and the end of
    the user half it maps free pages where asked and answers \<open>EEXIST\<close> for occupied ones (\<open>os_answers\<close>), and memory lasts for the mappings of the call (\<open>os_serves\<close>); and there is room,
    after pages that may be occupied, above the probe pointers (\<open>room\<close>), so that no probe
    leaves that range. Outside of it the documented errors are \<open>EINVAL\<close>, \<open>EPERM\<close> and \<open>ENOMEM\<close>, and on them \<open>arena_morecore\<close> tries again for ever
    (\<open>arena_morecore_diverges\<close>); nothing is assumed there. The theorems on whole calls therefore leave this outcome open: a call keeps its promises, or it runs for ever and there was no \<open>provision\<close>.
  \<^item> \<open>linux_os\<close> is a kernel that answers so, all errors included; the witnesses run on it.

  In the same way \<open>mte_sound\<close> states what the architecture documents of the tag instructions, the parameter \<open>hw\<close>.

  \<^bold>\<open>Termination and bounds.\<close> Loops over lists, trees and probes are \<open>partial_function\<close>s without fuel; their lemmas show
  that they return. \<open>arena_morecore\<close> is the one loop that may not: under \<open>provision\<close> it returns the first free place above its probe pointer. One call makes at
  most 771 mappings: at most 256 runs for the 512 regions a bin
  is filled up with, one more run in the allocation, and three mappings for each, and this is the number in \<open>provision\<close>.
  \<open>L\<close> bounds the size of a mapping that \<open>provision\<close> speaks of. Sizes go up to \<open>2 ^ 64 - 4096\<close>: above, rounding up to pages wraps to 0. \<open>B\<close> bounds the program break.

  \<^bold>\<open>What is shown.\<close> Ghost state (\<open>ghost\<close>) records the pools and their trees, the lists, and which block of which
  chunk each run lies in; \<open>arena_inv\<close> ties it to the stores, and \<open>live\<close> reads off the regions the program holds. Every
  operation preserves \<open>arena_inv\<close>, changes \<open>live\<close> by exactly the region in question, and leaves all other
  contents. So sessions are safe (no overlap, alignment, mapped memory), and a valid call keeps its promises, exits when the kernel refuses to
  unmap, or asks the kernel for ever; freeing twice and freeing invalid pointers aborts, but for the unused tail of a run. Below that, each component refines an abstract specification: lists, runs as
  maps, bins as sets of runs, pools and chunks as trees and sets of blocks. The build with tags simulates the
  one without (same addresses, arena and memory); its pointers carry the tags of their regions, and neighbouring allocated
  regions of a run always have different tags. The errors found while modelling are theorems as well, for example a product that
  wraps in \<open>calloc\<close>, \<open>realloc\<close> to size 0, the unchecked tail of a run, and the search that never ends.

  \<^bold>\<open>The build.\<close> The release build of the build files: assertions off (\<open>NDEBUG\<close>), no debug log. \<open>Statistics\<close> models the
  statistics build and shows that it computes the same.

  \<^bold>\<open>Not modelled.\<close> \<open>se_debug\<close>, which is empty in this build; the text written before \<open>exit\<close> and \<open>abort\<close> by the callers
  of \<open>se_error\<close> and \<open>se_log\<close> (the formatter itself is modelled); the tests, which only call the functions above. Tag
  checks are not part of a load or store: the theorems say which tags the memory and the pointers have. The tags that the kernel
  gives to fresh pages are left open, since no pointer to a huge mapping is tagged. Threads: the code has no locks and is not
  thread-safe.
\<close>

end
